(* ===== verification/Prelude.thy ===== *)
theory Prelude
  imports Main "HOL-Library.Word" "HOL-Library.Multiset" "HOL-Library.While_Combinator"
begin

text \<open>
  Shared vocabulary of the development: the machine types of the Go sources, run-time panics as
  values, the iteration order of Go maps as an explicit parameter, and the generic lemmas on
  lists, words and folds that the component theories use.
\<close>

unbundle bit_operations_syntax

section \<open>Machine types\<close>

type_synonym byte = "8 word"
type_synonym bytes = "byte list"
type_synonym u64 = "64 word"
type_synonym u32 = "32 word"
type_synonym u8 = "8 word"

text \<open>
  A Go computation either finishes with a value or panics. Ordinary Go errors are values of
  their own and are modelled per component; a panic aborts the goroutine.
\<close>

datatype go_panic = IndexOutOfRange | DivideByZero | NegativeWaitGroup | NilDereference

type_synonym 'a go = "go_panic + 'a"

definition go_bind :: "'a go \<Rightarrow> ('a \<Rightarrow> 'b go) \<Rightarrow> 'b go" where
  "go_bind m f = (case m of Inl p \<Rightarrow> Inl p | Inr x \<Rightarrow> f x)"

lemma go_bind_simps [simp]:
  "go_bind (Inl p) f = Inl p"
  "go_bind (Inr x) f = f x"
  by (simp_all add: go_bind_def)

lemma go_bind_Inr_iff: "go_bind m f = Inr y \<longleftrightarrow> (\<exists>x. m = Inr x \<and> f x = Inr y)"
  by (cases m) auto

text \<open>A loop \<open>for x := range xs\<close> whose body may panic.\<close>

primrec go_fold :: "('a \<Rightarrow> 's \<Rightarrow> 's go) \<Rightarrow> 'a list \<Rightarrow> 's \<Rightarrow> 's go" where
  "go_fold f [] s = Inr s"
| "go_fold f (x # xs) s = go_bind (f x s) (go_fold f xs)"

section \<open>Iteration order of Go maps\<close>

text \<open>
  The Go specification leaves the order of \<open>range\<close> over a map unspecified: every entry is visited
  exactly once, in an order that may differ from one loop to the next. A function that ranges over
  a map takes the order as a parameter \<open>ord\<close>: the \<open>i\<close>-th such loop visits the keys \<open>ks\<close> in the
  order \<open>ord i ks\<close>.
\<close>

definition range_order :: "(nat \<Rightarrow> 'k list \<Rightarrow> 'k list) \<Rightarrow> bool" where
  "range_order ord \<longleftrightarrow> (\<forall>i ks. mset (ord i ks) = mset ks)"

lemma range_order_mset: "range_order ord \<Longrightarrow> mset (ord i ks) = mset ks"
  by (simp add: range_order_def)

lemma range_order_set [simp]: "range_order ord \<Longrightarrow> set (ord i ks) = set ks"
  by (metis range_order_mset set_mset_mset)

lemma range_order_distinct [simp]: "range_order ord \<Longrightarrow> distinct (ord i ks) = distinct ks"
  by (metis range_order_mset mset_eq_imp_distinct_iff)

lemma range_order_length [simp]: "range_order ord \<Longrightarrow> length (ord i ks) = length ks"
  by (metis range_order_mset size_mset)

lemma range_order_Nil [simp]: "range_order ord \<Longrightarrow> ord i [] = []"
  by (metis range_order_mset mset_zero_iff mset.simps(1))

lemma range_order_id [simp]: "range_order (\<lambda>_ ks. ks)"
  by (simp add: range_order_def)

lemma range_order_rev [simp]: "range_order (\<lambda>_ ks. rev ks)"
  by (simp add: range_order_def)

section \<open>Lists and words\<close>

lemma distinct_mapI: "distinct (map f xs) \<Longrightarrow> distinct xs"
  by (simp add: distinct_map)

lemma sort_key_unique:
  fixes f :: "'a \<Rightarrow> 'b::linorder"
  assumes "mset xs = mset ys" and "distinct (map f xs)"
  shows "sort_key f xs = sort_key f ys"
proof (rule properties_for_sort_key [symmetric])
  show "mset (sort_key f xs) = mset ys" using assms(1) by simp
next
  fix k assume "k \<in> set (sort_key f xs)"
  have inj: "inj_on f (set xs)" and dx: "distinct xs"
    using assms(2) by (auto simp: distinct_map)
  have dy: "distinct ys" and sy: "set ys = set xs"
    using assms(1) dx mset_eq_imp_distinct_iff mset_eq_setD by blast+
  have one: "filter (\<lambda>x. f k = f x) zs = (if k \<in> set zs then [k] else [])"
    if "distinct zs" "set zs = set xs" for zs
  proof -
    have "\<forall>x\<in>set zs. (f k = f x) = (x = k)"
      using \<open>k \<in> set (sort_key f xs)\<close> inj that by (auto simp: inj_on_def)
    then have "filter (\<lambda>x. f k = f x) zs = filter (\<lambda>x. x = k) zs"
      by (intro filter_cong) auto
    also have "\<dots> = (if k \<in> set zs then [k] else [])"
      using that(1) by (induction zs) auto
    finally show ?thesis .
  qed
  show "filter (\<lambda>x. f k = f x) (sort_key f xs) = filter (\<lambda>x. f k = f x) ys"
    using one[of "sort_key f xs"] one[of ys] dx dy sy by simp
qed simp

lemma of_nat_u64_eq_iff:
  assumes "i < 2 ^ 64" and "j < 2 ^ 64"
  shows "(of_nat i :: u64) = of_nat j \<longleftrightarrow> i = j"
proof
  assume "(of_nat i :: u64) = of_nat j"
  then have "unat (of_nat i :: u64) = unat (of_nat j :: u64)" by simp
  then show "i = j" using assms by (simp add: unat_of_nat)
qed simp

lemma of_nat_u64_less_iff:
  assumes "i < 2 ^ 64" and "j < 2 ^ 64"
  shows "(of_nat i :: u64) < of_nat j \<longleftrightarrow> i < j"
  using assms by (simp add: word_less_nat_alt unat_of_nat)

lemma of_nat_u64_le_iff:
  assumes "i < 2 ^ 64" and "j < 2 ^ 64"
  shows "(of_nat i :: u64) \<le> of_nat j \<longleftrightarrow> i \<le> j"
  using assms by (simp add: word_le_nat_alt unat_of_nat)

lemma nat_xor_one: "(i :: nat) XOR 1 = (if even i then i + 1 else i - 1)"
  by (auto simp: xor_nat_unfold elim!: evenE oddE)

lemmas nat_xor_Suc_0 = nat_xor_one [unfolded One_nat_def]

lemma map_of_filter_distinct:
  assumes "distinct (map fst al)"
  shows "map_of (filter Q al) k = Some w \<longleftrightarrow> map_of al k = Some w \<and> Q (k, w)"
  using assms by (induction al) (auto simp: image_iff)

lemma distinct_fst_filter: "distinct (map fst al) \<Longrightarrow> distinct (map fst (filter Q al))"
  by (induction al) auto

lemma div_mod_add_small:
  fixes i n m :: nat
  assumes "i mod m + n < m"
  shows "(i + n) div m = i div m" and "(i + n) mod m = i mod m + n"
proof -
  have e: "i + n = (i mod m + n) + i div m * m" using div_mult_mod_eq [of i m] by linarith
  have "((i mod m + n) + i div m * m) div m = i div m + (i mod m + n) div m"
    using assms by (intro div_mult_self1) auto
  with assms show "(i + n) div m = i div m" by (simp only: e [symmetric]) simp
  have "((i mod m + n) + i div m * m) mod m = (i mod m + n) mod m" by (rule mod_mult_self1)
  with assms show "(i + n) mod m = i mod m + n" by (simp only: e [symmetric] mod_less)
qed

section \<open>Bytes of a 64-bit integer\<close>

lemma take_bit_step:
  "take_bit (n + 8) v = take_bit n v OR push_bit n (ucast (ucast (drop_bit n v) :: byte))" for v :: u64
  by (rule bit_eqI) (auto simp: bit_simps)

lemma take_bit_bytes:
  fixes v :: u64
  shows "take_bit 16 v = ucast (ucast v :: byte) OR push_bit 8 (ucast (ucast (drop_bit 8 v) :: byte))"
    and "take_bit 32 v = ucast (ucast v :: byte) OR push_bit 8 (ucast (ucast (drop_bit 8 v) :: byte))
           OR push_bit 16 (ucast (ucast (drop_bit 16 v) :: byte))
           OR push_bit 24 (ucast (ucast (drop_bit 24 v) :: byte))"
    and "take_bit 64 v = ucast (ucast v :: byte) OR push_bit 8 (ucast (ucast (drop_bit 8 v) :: byte))
           OR push_bit 16 (ucast (ucast (drop_bit 16 v) :: byte))
           OR push_bit 24 (ucast (ucast (drop_bit 24 v) :: byte))
           OR push_bit 32 (ucast (ucast (drop_bit 32 v) :: byte))
           OR push_bit 40 (ucast (ucast (drop_bit 40 v) :: byte))
           OR push_bit 48 (ucast (ucast (drop_bit 48 v) :: byte))
           OR push_bit 56 (ucast (ucast (drop_bit 56 v) :: byte))"
  using take_bit_step [of 0 v] take_bit_step [of 8 v] take_bit_step [of 16 v] take_bit_step [of 24 v]
    take_bit_step [of 32 v] take_bit_step [of 40 v] take_bit_step [of 48 v] take_bit_step [of 56 v]
  by (simp_all add: ac_simps)

lemma take_bit_id: "unat v < 2 ^ n \<Longrightarrow> take_bit n v = v" for v :: u64
  by (intro word_unat_eq_iff [THEN iffD2]) (simp add: unsigned_take_bit_eq take_bit_nat_eq_self)

lemma take_bit_64 [simp]: "take_bit 64 v = v" for v :: u64
  by (rule bit_eqI) (auto simp: bit_simps)

lemma sum_list_map_update:
  fixes f :: "'a \<Rightarrow> nat"
  shows "i < length ws \<Longrightarrow> sum_list (map f (ws[i := x])) + f (ws ! i) = sum_list (map f ws) + f x"
  by (induction ws arbitrary: i) (auto split: nat.splits)

end
