(* ===== verification/Stump.thy ===== *)
theory Stump
  imports Prelude
begin

text \<open>
  The STUMP builder of \<^verbatim>\<open>internal/stump/builder.go\<close>: construction of a subtree merkle path for the
  registered leaves of a subtree, its BRC-74 binary encoding, merging of STUMPs and the grouping of
  txids by callback URL. Slice indices are \<open>nat\<close> (Go \<open>int\<close>s that index slices are never negative
  here and a slice of hashes has fewer than \<open>2^62\<close> elements); the wire-level fields keep their
  machine width.
\<close>

section \<open>Data model\<close>

record Leaf =
  Offset :: u64
  Hash :: bytes
  TxID :: bool
  Duplicate :: bool

record PathLevel =
  Leaves :: "Leaf list"

record STUMP =
  BlockHeight :: u64
  TreeHeight :: u8
  Paths :: "PathLevel list"

section \<open>Tree geometry\<close>

definition nextPowerOfTwo :: "nat \<Rightarrow> nat" where
  "nextPowerOfTwo n = (if n \<le> 1 then 1 else while (\<lambda>p. p < n) (\<lambda>p. push_bit 1 p) 1)"

text \<open>The loop that counts the levels: \<open>for n := nextPoT; n > 1; n >>= 1 { treeHeight++ }\<close>.\<close>

function heightLoop :: "nat \<Rightarrow> u8 \<Rightarrow> u8" where
  "heightLoop n h = (if n > 1 then heightLoop (drop_bit 1 n) (h + 1) else h)"
  by pat_completeness auto
termination
  by (relation "measure fst") (auto simp: drop_bit_Suc)

declare heightLoop.simps [simp del]

text \<open>
  The offset loop of the closure \<open>getNode\<close>: \<open>k\<close> more iterations of
  \<open>off += sz; sz >>= 1\<close>.
\<close>

fun nodeOff :: "nat \<Rightarrow> nat \<Rightarrow> nat \<Rightarrow> nat" where
  "nodeOff 0 off sz = off"
| "nodeOff (Suc k) off sz = nodeOff k (off + sz) (drop_bit 1 sz)"

text \<open>
  What the closures of \<open>Build\<close> capture: the arguments and the padded leaf count. The map
  \<open>registeredIndices\<close> is the association list of its entries.
\<close>

record buildCtx =
  bcLeaves :: "bytes list"
  bcInternal :: "bytes list"
  bcNextPoT :: nat
  bcReg :: "(nat \<times> string) list"

text \<open>\<open>None\<close> is the nil slice.\<close>

definition getNode :: "buildCtx \<Rightarrow> nat \<Rightarrow> nat \<Rightarrow> bytes option" where
  "getNode c level index =
     (if level = 0 then
        (if index < length (bcLeaves c) then Some (bcLeaves c ! index) else None)
      else
        (let pos = nodeOff (level - 1) 0 (drop_bit 1 (bcNextPoT c)) + index
         in if pos < length (bcInternal c) then Some (bcInternal c ! pos) else None))"

section \<open>Build\<close>

text \<open>The variables of one iteration of the level loop.\<close>

record buildSt =
  pathLeaves :: "Leaf list"
  addedOffsets :: "u64 list"
  nextNeeded :: "nat list"

definition addTxid :: "buildCtx \<Rightarrow> nat \<Rightarrow> nat \<Rightarrow> buildSt \<Rightarrow> buildSt go" where
  "addTxid c level idx st =
     (if level = 0 \<and> map_of (bcReg c) idx \<noteq> None \<and> of_nat idx \<notin> set (addedOffsets st) then
        (if idx < length (bcLeaves c) then
           Inr (st\<lparr>pathLeaves := pathLeaves st @
                    [\<lparr>Offset = of_nat idx, Hash = bcLeaves c ! idx, TxID = True, Duplicate = False\<rparr>],
                  addedOffsets := of_nat idx # addedOffsets st\<rparr>)
         else Inl IndexOutOfRange)
      else Inr st)"

text \<open>The leaf that is appended for a sibling index.\<close>

definition siblingLeaf :: "buildCtx \<Rightarrow> nat \<Rightarrow> nat \<Rightarrow> nat \<Rightarrow> Leaf" where
  "siblingLeaf c level realCount siblingIdx =
     (if siblingIdx \<ge> realCount then
        \<lparr>Offset = of_nat siblingIdx, Hash = [], TxID = False, Duplicate = True\<rparr>
      else
        (let isReg = (level = 0 \<and> map_of (bcReg c) siblingIdx \<noteq> None)
         in case getNode c level siblingIdx of
              Some h \<Rightarrow> \<lparr>Offset = of_nat siblingIdx, Hash = h, TxID = isReg, Duplicate = False\<rparr>
            | None \<Rightarrow> \<lparr>Offset = of_nat siblingIdx, Hash = [], TxID = isReg, Duplicate = True\<rparr>))"

definition addSibling :: "buildCtx \<Rightarrow> nat \<Rightarrow> nat \<Rightarrow> nat \<Rightarrow> buildSt \<Rightarrow> buildSt" where
  "addSibling c level realCount idx st =
     (let siblingIdx = idx XOR 1
      in if of_nat siblingIdx \<notin> set (addedOffsets st) then
           st\<lparr>pathLeaves := pathLeaves st @ [siblingLeaf c level realCount siblingIdx],
              addedOffsets := of_nat siblingIdx # addedOffsets st\<rparr>
         else st)"

text \<open>The body of \<open>for idx := range needed\<close>.\<close>

definition buildStep :: "buildCtx \<Rightarrow> nat \<Rightarrow> nat \<Rightarrow> nat \<Rightarrow> buildSt \<Rightarrow> buildSt go" where
  "buildStep c level realCount idx st =
     go_bind (addTxid c level idx st) (\<lambda>st.
       let st = addSibling c level realCount idx st
       in Inr (st\<lparr>nextNeeded := List.insert (idx div 2) (nextNeeded st)\<rparr>))"

text \<open>One iteration of the level loop; \<open>ord\<close> is the iteration order of the map \<open>needed\<close>.\<close>

definition buildLevel ::
  "(nat \<Rightarrow> nat list \<Rightarrow> nat list) \<Rightarrow> buildCtx \<Rightarrow> nat \<Rightarrow> nat \<Rightarrow> nat list \<Rightarrow> (PathLevel \<times> nat list) go" where
  "buildLevel ord c level realCount needed =
     go_bind (go_fold (buildStep c level realCount) (ord level needed)
                \<lparr>pathLeaves = [], addedOffsets = [], nextNeeded = []\<rparr>) (\<lambda>st.
       Inr (\<lparr>Leaves = sort_key Offset (pathLeaves st)\<rparr>, nextNeeded st))"

text \<open>The level loop, with \<open>k\<close> iterations left.\<close>

fun buildLevels ::
  "(nat \<Rightarrow> nat list \<Rightarrow> nat list) \<Rightarrow> buildCtx \<Rightarrow> nat \<Rightarrow> nat \<Rightarrow> nat \<Rightarrow> nat list \<Rightarrow> PathLevel list go" where
  "buildLevels ord c 0 level realCount needed = Inr []"
| "buildLevels ord c (Suc k) level realCount needed =
     go_bind (buildLevel ord c level realCount needed) (\<lambda>(p, nn).
       go_bind (buildLevels ord c k (Suc level) ((realCount + 1) div 2) nn) (\<lambda>ps.
         Inr (p # ps)))"

definition Build ::
  "(nat \<Rightarrow> nat list \<Rightarrow> nat list) \<Rightarrow> u64 \<Rightarrow> bytes list \<Rightarrow> bytes list \<Rightarrow> (nat \<times> string) list \<Rightarrow> STUMP option go" where
  "Build ord blockHeight leaves internalNodes registeredIndices =
     (if registeredIndices = [] \<or> leaves = [] then Inr None
      else
        (let nLeaves = length leaves;
             nextPoT = nextPowerOfTwo nLeaves;
             treeHeight = heightLoop nextPoT 0;
             c = \<lparr>bcLeaves = leaves, bcInternal = internalNodes, bcNextPoT = nextPoT,
                  bcReg = registeredIndices\<rparr>
         in if treeHeight = 0 then
              Inr (Some \<lparr>BlockHeight = blockHeight, TreeHeight = 0, Paths = []\<rparr>)
            else
              go_bind (buildLevels ord c (unat treeHeight) 0 nLeaves
                         (remdups (map fst registeredIndices))) (\<lambda>ps.
                Inr (Some \<lparr>BlockHeight = blockHeight, TreeHeight = treeHeight, Paths = ps\<rparr>))))"

section \<open>Encoding\<close>

definition appendCompactSize :: "bytes \<Rightarrow> u64 \<Rightarrow> bytes" where
  "appendCompactSize buf v =
     (if v < 253 then buf @ [ucast v]
      else if v \<le> 0xFFFF then buf @ [0xFD, ucast v, ucast (drop_bit 8 v)]
      else if v \<le> 0xFFFFFFFF then
        buf @ [0xFE, ucast v, ucast (drop_bit 8 v), ucast (drop_bit 16 v), ucast (drop_bit 24 v)]
      else
        buf @ [0xFF, ucast v, ucast (drop_bit 8 v), ucast (drop_bit 16 v), ucast (drop_bit 24 v),
               ucast (drop_bit 32 v), ucast (drop_bit 40 v), ucast (drop_bit 48 v),
               ucast (drop_bit 56 v)])"

definition encodeLeaf :: "bytes \<Rightarrow> Leaf \<Rightarrow> bytes" where
  "encodeLeaf buf leaf =
     (let buf = appendCompactSize buf (Offset leaf);
          flags = (if Duplicate leaf then 0x01 else if TxID leaf then 0x02 else 0x00);
          buf = buf @ [flags]
      in if \<not> Duplicate leaf then buf @ Hash leaf else buf)"

definition encodeLevel :: "bytes \<Rightarrow> PathLevel \<Rightarrow> bytes" where
  "encodeLevel buf level =
     foldl encodeLeaf (appendCompactSize buf (of_nat (length (Leaves level)))) (Leaves level)"

text \<open>\<open>None\<close> is the nil receiver; the nil result is the empty slice.\<close>

definition Encode :: "STUMP option \<Rightarrow> bytes" where
  "Encode so =
     (case so of
        None \<Rightarrow> []
      | Some s \<Rightarrow> foldl encodeLevel (appendCompactSize [] (BlockHeight s) @ [TreeHeight s]) (Paths s))"

section \<open>Merging\<close>

text \<open>
  The keys of the map \<open>seen\<close> of one level are the offsets of the leaves that were offered to it;
  \<open>ord\<close> is the order in which they are visited when the leaves are collected.
\<close>

definition mergeLeaf :: "Leaf \<Rightarrow> (u64 \<rightharpoonup> Leaf) \<Rightarrow> (u64 \<rightharpoonup> Leaf)" where
  "mergeLeaf leaf seen =
     (case seen (Offset leaf) of
        None \<Rightarrow> seen(Offset leaf \<mapsto> leaf)
      | Some existing \<Rightarrow>
          if TxID leaf \<and> \<not> TxID existing then seen(Offset leaf \<mapsto> leaf) else seen)"

text \<open>The leaves of one level of one STUMP; a STUMP that lacks the level contributes nothing.\<close>

definition levelLeaves :: "nat \<Rightarrow> STUMP \<Rightarrow> Leaf list" where
  "levelLeaves level s = (if level < length (Paths s) then Leaves (Paths s ! level) else [])"

definition mergeSeen :: "STUMP list \<Rightarrow> nat \<Rightarrow> (u64 \<rightharpoonup> Leaf)" where
  "mergeSeen stumps level = foldl (\<lambda>seen s. fold mergeLeaf (levelLeaves level s) seen) Map.empty stumps"

definition mergeLevel :: "(nat \<Rightarrow> u64 list \<Rightarrow> u64 list) \<Rightarrow> STUMP list \<Rightarrow> nat \<Rightarrow> PathLevel" where
  "mergeLevel ord stumps level =
     (let seen = mergeSeen stumps level;
          keys = remdups (concat (map (map Offset \<circ> levelLeaves level) stumps))
      in \<lparr>Leaves = sort_key Offset (map (\<lambda>k. the (seen k)) (ord level keys))\<rparr>)"

definition MergeSTUMPs :: "(nat \<Rightarrow> u64 list \<Rightarrow> u64 list) \<Rightarrow> STUMP list \<Rightarrow> STUMP option" where
  "MergeSTUMPs ord stumps =
     (case stumps of
        [] \<Rightarrow> None
      | [s] \<Rightarrow> Some s
      | s # _ \<Rightarrow>
          Some \<lparr>BlockHeight = BlockHeight s, TreeHeight = TreeHeight s,
                Paths = map (mergeLevel ord stumps) [0..<unat (TreeHeight s)]\<rparr>)"

section \<open>Grouping by callback URL\<close>

text \<open>
  The argument lists the entries of the map \<open>registrations\<close> in the order in which the loop visits
  them; the result is a map from callback URLs to txids.
\<close>

definition addToGroup :: "string \<Rightarrow> string \<Rightarrow> (string \<rightharpoonup> string list) \<Rightarrow> (string \<rightharpoonup> string list)" where
  "addToGroup txid cb result =
     result(cb \<mapsto> (case result cb of None \<Rightarrow> [] | Some txids \<Rightarrow> txids) @ [txid])"

definition GroupByCallback :: "(string \<times> string list) list \<Rightarrow> (string \<rightharpoonup> string list)" where
  "GroupByCallback registrations =
     foldl (\<lambda>result (txid, callbacks). fold (addToGroup txid) callbacks result) Map.empty registrations"

end
