(* ===== verification/Stump_Build.thy ===== *)
theory Stump_Build
  imports Stump
begin

text \<open>
  What \<open>Build\<close> computes, independently of the iteration order of its maps: every level of the path
  is the sorted list of the leaves at the offsets the proof needs. The properties of the STUMP
  follow from this closed form.
\<close>

section \<open>Tree geometry\<close>

text \<open>The doubling loop stops at the least power of two that is not below its bound.\<close>

lemma nextPowerOfTwo_loop:
  assumes "1 < n"
  obtains k where "while (\<lambda>p. p < n) (\<lambda>p. push_bit 1 p) (1::nat) = 2 ^ Suc k" and "2 ^ k < n"
    and "n \<le> 2 ^ Suc k"
proof -
  let ?P = "\<lambda>p::nat. \<exists>j. p = 2 ^ j \<and> (j = 0 \<or> 2 ^ (j - 1) < n)"
  let ?Q = "\<lambda>p::nat. n \<le> p \<and> ?P p"
  have "?Q (while (\<lambda>p. p < n) (\<lambda>p. push_bit 1 p) (1::nat))"
  proof (rule while_rule [where P = ?P and r = "measure (\<lambda>p. n - p)"])
    show "?P 1" by (rule exI [of _ 0]) simp
  next
    fix s assume "?P s" and "s < n"
    then obtain j where "s = 2 ^ j" "2 ^ j < n" by auto
    then show "?P (push_bit 1 s)" by (intro exI [of _ "Suc j"]) (simp add: push_bit_eq_mult)
  next
    fix s assume "?P s" and "\<not> s < n"
    then show "?Q s" by auto
  next
    show "wf (measure (\<lambda>p. n - p))" by simp
  next
    fix s assume "?P s" and "s < n"
    then have "0 < s" "s < n" by auto
    then show "(push_bit 1 s, s) \<in> measure (\<lambda>p. n - p)" by (simp add: push_bit_eq_mult diff_less_mono2)
  qed
  then obtain j where j: "while (\<lambda>p. p < n) (\<lambda>p. push_bit 1 p) (1::nat) = 2 ^ j"
    "n \<le> 2 ^ j" "j = 0 \<or> 2 ^ (j - 1) < n" by auto
  with assms have "j \<noteq> 0" by (cases j) auto
  with j show thesis by (intro that [of "j - 1"]) auto
qed

lemma nextPowerOfTwo_cases:
  obtains k where "nextPowerOfTwo n = 2 ^ k" and "n \<le> 2 ^ k" and "k = 0 \<or> 2 ^ (k - 1) < n"
proof (cases "n \<le> 1")
  case True
  then show thesis by (intro that [of 0]) (auto simp: nextPowerOfTwo_def)
next
  case False
  then obtain k where "nextPowerOfTwo n = 2 ^ Suc k" "2 ^ k < n" "n \<le> 2 ^ Suc k"
    by (metis nextPowerOfTwo_def nextPowerOfTwo_loop not_le)
  then show thesis by (intro that [of "Suc k"]) auto
qed

lemma heightLoop_pow2: "heightLoop (2 ^ k) h = h + of_nat k"
proof (induction k arbitrary: h)
  case 0
  show ?case by (simp add: heightLoop.simps)
next
  case (Suc k)
  have "heightLoop (2 ^ Suc k) h = heightLoop (2 ^ k) (h + 1)"
    using one_less_power [of "2::nat" "Suc k"]
    by (subst heightLoop.simps) (simp add: drop_bit_eq_div)
  with Suc show ?case by simp
qed

text \<open>The number of levels of a subtree with \<open>n\<close> leaves, and what \<open>Build\<close> records as its height.\<close>

definition levels :: "nat \<Rightarrow> nat" where
  "levels n = (LEAST k. n \<le> 2 ^ k)"

lemma levels_eqI: "n \<le> 2 ^ k \<Longrightarrow> k = 0 \<or> 2 ^ (k - 1) < n \<Longrightarrow> levels n = k"
  unfolding levels_def
proof (rule Least_equality)
  fix y assume b: "k = 0 \<or> 2 ^ (k - 1) < n" and y: "n \<le> (2::nat) ^ y"
  show "k \<le> y"
  proof (rule ccontr)
    assume "\<not> k \<le> y"
    then have "y \<le> k - 1" and "k \<noteq> 0" by auto
    then have "(2::nat) ^ y \<le> 2 ^ (k - 1)" by (intro power_increasing) auto
    with b y \<open>k \<noteq> 0\<close> show False by linarith
  qed
qed

lemma nextPowerOfTwo_levels: "nextPowerOfTwo n = 2 ^ levels n"
  by (rule nextPowerOfTwo_cases [of n]) (simp add: levels_eqI)

lemma le_pow_levels: "n \<le> 2 ^ levels n"
  by (rule nextPowerOfTwo_cases [of n]) (simp add: levels_eqI)

lemma levels_bound: "n \<le> 2 ^ m \<Longrightarrow> levels n \<le> m"
  unfolding levels_def by (rule Least_le)

lemma levels_0_iff: "levels n = 0 \<longleftrightarrow> n \<le> 1"
  by (metis levels_bound le_pow_levels power_0 le_zero_eq)

lemma heightLoop_levels: "heightLoop (nextPowerOfTwo n) 0 = of_nat (levels n)"
  by (simp add: nextPowerOfTwo_levels heightLoop_pow2)

lemma unat_heightLoop: "n \<le> 2 ^ 62 \<Longrightarrow> unat (heightLoop (nextPowerOfTwo n) 0) = levels n"
  using levels_bound [of n 62] by (simp add: heightLoop_levels unat_of_nat)

text \<open>The level offset that \<open>getNode\<close> adds up is a geometric sum.\<close>

lemma nodeOff_pow2: "k \<le> Suc h \<Longrightarrow> nodeOff k off (2 ^ h) + 2 ^ (Suc h - k) = off + 2 ^ Suc h"
proof (induction k arbitrary: off h)
  case (Suc k)
  show ?case
  proof (cases h)
    case 0
    with Suc.prems show ?thesis by simp
  next
    case (Suc h')
    then have "nodeOff (Suc k) off (2 ^ h) = nodeOff k (off + 2 ^ h) (2 ^ h')"
      by (simp add: drop_bit_eq_div)
    with Suc.IH [of h' "off + 2 ^ h"] \<open>h = Suc h'\<close> \<open>Suc k \<le> Suc h\<close> show ?thesis by simp
  qed
qed simp

section \<open>The closed form of a level\<close>

abbreviation sib :: "nat \<Rightarrow> nat" where
  "sib i \<equiv> i XOR 1"

lemma sib_sib [simp]: "sib (sib i) = i"
  by (auto simp: nat_xor_Suc_0 elim!: evenE oddE)

lemma sib_less: "i < 2 ^ Suc k \<Longrightarrow> sib i < 2 ^ Suc k"
  by (auto simp: nat_xor_Suc_0 elim!: evenE)

lemma sib_div2 [simp]: "sib i div 2 = i div 2"
  by (auto simp: nat_xor_Suc_0 elim!: evenE oddE)

text \<open>The leaf a level has at offset \<open>i\<close>, if it has one.\<close>

definition leafAt :: "buildCtx \<Rightarrow> nat \<Rightarrow> nat \<Rightarrow> nat \<Rightarrow> Leaf" where
  "leafAt c level realCount i =
     (if level = 0 \<and> map_of (bcReg c) i \<noteq> None
      then \<lparr>Offset = of_nat i, Hash = bcLeaves c ! i, TxID = True, Duplicate = False\<rparr>
      else siblingLeaf c level realCount i)"

text \<open>The offsets a level needs for the nodes \<open>N\<close> on the paths to the root.\<close>

definition levelOffsets :: "nat \<Rightarrow> nat set \<Rightarrow> nat set" where
  "levelOffsets level N = (if level = 0 then N \<union> sib ` N else sib ` N)"

lemma Offset_siblingLeaf [simp]: "Offset (siblingLeaf c level rc i) = of_nat i"
  by (auto simp: siblingLeaf_def Let_def split: option.split)

lemma Offset_leafAt [simp]: "Offset (leafAt c level rc i) = of_nat i"
  by (simp add: leafAt_def)

lemma levelOffsets_empty [simp]: "levelOffsets level {} = {}"
  by (simp add: levelOffsets_def)

lemma finite_levelOffsets [simp]: "finite N \<Longrightarrow> finite (levelOffsets level N)"
  by (simp add: levelOffsets_def)

lemma levelOffsets_bound:
  "N \<subseteq> {..<2 ^ Suc k} \<Longrightarrow> levelOffsets level N \<subseteq> {..<2 ^ Suc k}"
  using sib_less [of _ k] by (auto simp: levelOffsets_def simp del: power_Suc One_nat_def)

lemma levelOffsets_insert:
  "levelOffsets level (insert i N) =
     (if level = 0 then insert i (insert (sib i) (levelOffsets level N))
      else insert (sib i) (levelOffsets level N))"
  by (auto simp: levelOffsets_def)

text \<open>
  What a level relies on: at level 0 the real nodes are the leaves, every needed node is a
  registered leaf, and no offset is large enough to wrap around in a \<open>uint64\<close>.
\<close>

definition levelOk :: "buildCtx \<Rightarrow> nat \<Rightarrow> nat \<Rightarrow> nat set \<Rightarrow> bool" where
  "levelOk c level realCount N \<longleftrightarrow>
     N \<subseteq> {..<2 ^ 63} \<and>
     (level = 0 \<longrightarrow> realCount = length (bcLeaves c) \<and> N = dom (map_of (bcReg c)) \<and>
        N \<subseteq> {..<length (bcLeaves c)})"

lemma siblingLeaf_leafAt:
  assumes "levelOk c level rc N" and "levelOffsets level N \<subseteq> M"
  shows "siblingLeaf c level rc i = leafAt c level rc i"
proof (cases "level = 0 \<and> map_of (bcReg c) i \<noteq> None")
  case True
  with assms have "i < length (bcLeaves c)" "rc = length (bcLeaves c)"
    by (auto simp: levelOk_def)
  with True show ?thesis by (auto simp: leafAt_def siblingLeaf_def getNode_def)
qed (auto simp: leafAt_def)

text \<open>The invariant of the loop over \<open>needed\<close>; \<open>D\<close> holds the indices already visited.\<close>

definition stepInv :: "buildCtx \<Rightarrow> nat \<Rightarrow> nat \<Rightarrow> nat set \<Rightarrow> buildSt \<Rightarrow> bool" where
  "stepInv c level rc D st \<longleftrightarrow>
     distinct (map Offset (pathLeaves st)) \<and>
     set (pathLeaves st) = leafAt c level rc ` levelOffsets level D \<and>
     set (addedOffsets st) = of_nat ` levelOffsets level D \<and>
     set (nextNeeded st) = (\<lambda>i. i div 2) ` D \<and> distinct (nextNeeded st)"

lemma of_nat_in_offsets:
  assumes "M \<subseteq> {..<2 ^ 63}" and "i < 2 ^ 63"
  shows "(of_nat i :: u64) \<in> of_nat ` M \<longleftrightarrow> i \<in> M"
proof
  assume "(of_nat i :: u64) \<in> of_nat ` M"
  then obtain j where j: "j \<in> M" "(of_nat i :: u64) = of_nat j" by auto
  moreover from j(1) assms(1) have "j < 2 ^ 63" by auto
  ultimately show "i \<in> M" using assms(2) of_nat_u64_eq_iff [of i j] by simp
qed simp

lemma addLeaf_inv:
  assumes "distinct (map Offset ls)" and "set ls = leafAt c level rc ` M"
    and "(of_nat i :: u64) \<notin> of_nat ` M"
  shows "distinct (map Offset (ls @ [leafAt c level rc i]))"
    and "set (ls @ [leafAt c level rc i]) = leafAt c level rc ` insert i M"
  using assms by (auto simp: image_iff)


lemma stepInv_addTxid:
  assumes ok: "levelOk c level rc N" and i: "i \<in> N" and D: "D \<subseteq> N"
    and inv: "stepInv c level rc D st"
  obtains st' where "addTxid c level i st = Inr st'"
    and "distinct (map Offset (pathLeaves st'))"
    and "set (pathLeaves st') = leafAt c level rc ` (levelOffsets level D \<union> (if level = 0 then {i} else {}))"
    and "set (addedOffsets st') = of_nat ` (levelOffsets level D \<union> (if level = 0 then {i} else {}))"
    and "nextNeeded st' = nextNeeded st"
proof (cases "level = 0")
  case True
  with ok i have i': "map_of (bcReg c) i \<noteq> None" "i < length (bcLeaves c)"
    by (auto simp: levelOk_def)
  then have leaf: "leafAt c level rc i =
      \<lparr>Offset = of_nat i, Hash = bcLeaves c ! i, TxID = True, Duplicate = False\<rparr>"
    using True by (simp add: leafAt_def)
  let ?M = "levelOffsets level D"
  have M: "?M \<subseteq> {..<2 ^ 63}" "i < 2 ^ 63"
    using levelOffsets_bound [of D 62 level] ok i D by (auto simp: levelOk_def)
  show thesis
  proof (cases "i \<in> ?M")
    case True
    then have "addTxid c level i st = Inr st"
      using inv M of_nat_in_offsets by (simp add: addTxid_def stepInv_def)
    then show thesis using inv True \<open>level = 0\<close>
      by (intro that [of st]) (auto simp: stepInv_def insert_absorb)
  next
    case False
    then have nin: "(of_nat i :: u64) \<notin> of_nat ` ?M" using M of_nat_in_offsets by simp
    let ?st = "st\<lparr>pathLeaves := pathLeaves st @ [leafAt c level rc i],
                  addedOffsets := of_nat i # addedOffsets st\<rparr>"
    have "addTxid c level i st = Inr ?st"
      using i' nin inv \<open>level = 0\<close> leaf by (auto simp: addTxid_def stepInv_def)
    then show thesis
      using addLeaf_inv [of "pathLeaves st" c level rc ?M i] nin inv \<open>level = 0\<close>
      by (intro that [of ?st]) (auto simp: stepInv_def)
  qed
next
  case False
  then show thesis using inv by (intro that [of st]) (auto simp: addTxid_def stepInv_def)
qed

lemma stepInv_buildStep:
  assumes ok: "levelOk c level rc N" and i: "i \<in> N" and D: "D \<subseteq> N"
    and inv: "stepInv c level rc D st"
  shows "\<exists>st'. buildStep c level rc i st = Inr st' \<and> stepInv c level rc (insert i D) st'"
proof -
  let ?M = "levelOffsets level D \<union> (if level = 0 then {i} else {})"
  obtain st1 where st1: "addTxid c level i st = Inr st1"
    "distinct (map Offset (pathLeaves st1))"
    "set (pathLeaves st1) = leafAt c level rc ` ?M"
    "set (addedOffsets st1) = of_nat ` ?M" "nextNeeded st1 = nextNeeded st"
    using stepInv_addTxid [OF assms] .
  have M: "?M \<subseteq> {..<2 ^ 63}" and si: "sib i < 2 ^ 63"
    using levelOffsets_bound [of D 62 level] sib_less [of i 62] ok i D by (auto simp: levelOk_def)
  have off: "levelOffsets level (insert i D) = insert (sib i) ?M"
    by (auto simp: levelOffsets_insert)
  let ?st = "addSibling c level rc i st1"
  have "distinct (map Offset (pathLeaves ?st)) \<and>
      set (pathLeaves ?st) = leafAt c level rc ` levelOffsets level (insert i D) \<and>
      set (addedOffsets ?st) = of_nat ` levelOffsets level (insert i D) \<and>
      nextNeeded ?st = nextNeeded st"
  proof (cases "sib i \<in> ?M")
    case True
    then have "?st = st1"
      using M si st1(4) of_nat_in_offsets [of ?M "sib i"] by (simp add: addSibling_def)
    then show ?thesis using st1 True by (simp add: off insert_absorb)
  next
    case False
    then have nin: "(of_nat (sib i) :: u64) \<notin> of_nat ` ?M"
      using M si of_nat_in_offsets [of ?M "sib i"] by simp
    have "siblingLeaf c level rc (sib i) = leafAt c level rc (sib i)"
      using siblingLeaf_leafAt [OF ok subset_refl] .
    then have "?st = st1\<lparr>pathLeaves := pathLeaves st1 @ [leafAt c level rc (sib i)],
                  addedOffsets := of_nat (sib i) # addedOffsets st1\<rparr>"
      using nin st1(4) by (simp add: addSibling_def Let_def)
    then show ?thesis
      using addLeaf_inv [OF st1(2,3) nin] st1(4,5) by (simp add: off)
  qed
  moreover have "set (nextNeeded st) = (\<lambda>i. i div 2) ` D" "distinct (nextNeeded st)"
    using inv by (auto simp: stepInv_def)
  ultimately show ?thesis
    using st1(1) by (auto simp: buildStep_def stepInv_def Let_def)
qed

lemma stepInv_go_fold:
  assumes "levelOk c level rc N" and "set xs \<subseteq> N" and "D \<subseteq> N" and "stepInv c level rc D st"
  shows "\<exists>st'. go_fold (buildStep c level rc) xs st = Inr st' \<and> stepInv c level rc (D \<union> set xs) st'"
  using assms(2-)
proof (induction xs arbitrary: D st)
  case (Cons x xs)
  then obtain st1 where "buildStep c level rc x st = Inr st1" "stepInv c level rc (insert x D) st1"
    using stepInv_buildStep [OF assms(1), of x D st] by auto
  with Cons.IH [of "insert x D" st1] Cons.prems show ?case by simp
qed simp

text \<open>One level: sorted by offset, whatever the iteration order.\<close>

definition levelSpec :: "buildCtx \<Rightarrow> nat \<Rightarrow> nat \<Rightarrow> nat set \<Rightarrow> PathLevel" where
  "levelSpec c level rc N =
     \<lparr>Leaves = map (leafAt c level rc) (sorted_list_of_set (levelOffsets level N))\<rparr>"

lemma sorted_of_nat_u64:
  assumes "sorted xs" and "set xs \<subseteq> {..<2 ^ 63}"
  shows "sorted (map (of_nat :: nat \<Rightarrow> u64) xs)"
  unfolding sorted_map
proof (rule sorted_wrt_mono_rel [OF _ assms(1)])
  fix x y assume "x \<in> set xs" "y \<in> set xs" "x \<le> y"
  with assms(2) have "x < 2 ^ 63" "y < 2 ^ 63" by auto
  with \<open>x \<le> y\<close> show "(of_nat x :: u64) \<le> of_nat y" using of_nat_u64_le_iff [of x y] by simp
qed

lemma distinct_of_nat_u64:
  assumes "distinct xs" and "set xs \<subseteq> {..<2 ^ 63}"
  shows "distinct (map (of_nat :: nat \<Rightarrow> u64) xs)"
proof -
  have "inj_on (of_nat :: nat \<Rightarrow> u64) {..<2 ^ 63}"
    using of_nat_u64_eq_iff by (auto intro!: inj_onI)
  with assms show ?thesis by (auto simp: distinct_map intro: inj_on_subset)
qed

lemma buildLevel_spec:
  assumes ord: "range_order ord" and ok: "levelOk c level rc (set needed)"
  shows "\<exists>nn. buildLevel ord c level rc needed = Inr (levelSpec c level rc (set needed), nn) \<and>
             set nn = (\<lambda>i. i div 2) ` set needed \<and> distinct nn"
proof -
  let ?N = "set needed" and ?init = "\<lparr>pathLeaves = [], addedOffsets = [], nextNeeded = []\<rparr>"
  let ?offs = "levelOffsets level ?N"
  have "stepInv c level rc {} ?init" by (simp add: stepInv_def)
  then obtain st where st: "go_fold (buildStep c level rc) (ord level needed) ?init = Inr st"
    "stepInv c level rc ?N st"
    using stepInv_go_fold [OF ok, of "ord level needed" "{}" ?init] ord by auto
  have bound: "?offs \<subseteq> {..<2 ^ 63}"
    using ok levelOffsets_bound [of ?N 62 level] by (simp add: levelOk_def)
  let ?ls = "map (leafAt c level rc) (sorted_list_of_set ?offs)"
  have off: "map Offset ?ls = map of_nat (sorted_list_of_set ?offs)" by simp
  have d: "distinct (map Offset ?ls)"
    unfolding off by (rule distinct_of_nat_u64) (use bound in auto)
  have s: "sorted (map Offset ?ls)"
    unfolding off by (rule sorted_of_nat_u64) (use bound in auto)
  have "set (pathLeaves st) = set ?ls" and dst: "distinct (map Offset (pathLeaves st))"
    using st(2) by (simp_all add: stepInv_def)
  moreover have "distinct ?ls" "distinct (pathLeaves st)"
    using d dst by (blast dest: distinct_mapI)+
  ultimately have "mset (pathLeaves st) = mset ?ls"
    by (simp only: set_eq_iff_mset_eq_distinct)
  then have "sort_key Offset (pathLeaves st) = sort_key Offset ?ls"
    using dst by (rule sort_key_unique)
  also have "\<dots> = ?ls" using s by (simp add: sort_key_id_if_sorted)
  finally show ?thesis
    using st by (simp add: buildLevel_def levelSpec_def stepInv_def)
qed

section \<open>The closed form of Build\<close>

fun levelsSpec :: "buildCtx \<Rightarrow> nat \<Rightarrow> nat \<Rightarrow> nat \<Rightarrow> nat set \<Rightarrow> PathLevel list" where
  "levelsSpec c 0 level rc N = []"
| "levelsSpec c (Suc k) level rc N =
     levelSpec c level rc N # levelsSpec c k (Suc level) ((rc + 1) div 2) ((\<lambda>i. i div 2) ` N)"

lemma levelOk_Suc:
  assumes "levelOk c level rc N"
  shows "levelOk c (Suc level) rc' ((\<lambda>i. i div 2) ` N)"
  using assms by (auto simp: levelOk_def intro: le_less_trans [OF div_le_dividend])

lemma buildLevels_spec:
  assumes "range_order ord" and "levelOk c level rc (set needed)"
  shows "buildLevels ord c k level rc needed = Inr (levelsSpec c k level rc (set needed))"
  using assms(2)
proof (induction k arbitrary: level rc needed)
  case (Suc k)
  obtain nn where nn: "buildLevel ord c level rc needed = Inr (levelSpec c level rc (set needed), nn)"
    "set nn = (\<lambda>i. i div 2) ` set needed"
    using buildLevel_spec [OF assms(1) Suc.prems] by blast
  have "levelOk c (Suc level) ((rc + 1) div 2) (set nn)"
    using levelOk_Suc [OF Suc.prems] nn(2) by simp
  from Suc.IH [OF this] nn show ?case by simp
qed simp

text \<open>The context \<open>Build\<close> sets up for its closures.\<close>

definition ctxOf :: "bytes list \<Rightarrow> bytes list \<Rightarrow> (nat \<times> string) list \<Rightarrow> buildCtx" where
  "ctxOf leaves internalNodes reg =
     \<lparr>bcLeaves = leaves, bcInternal = internalNodes, bcNextPoT = 2 ^ levels (length leaves),
      bcReg = reg\<rparr>"

lemma ctxOf_simps [simp]:
  "bcLeaves (ctxOf leaves inner reg) = leaves"
  "bcInternal (ctxOf leaves inner reg) = inner"
  "bcNextPoT (ctxOf leaves inner reg) = 2 ^ levels (length leaves)"
  "bcReg (ctxOf leaves inner reg) = reg"
  by (simp_all add: ctxOf_def)

definition regOk :: "bytes list \<Rightarrow> (nat \<times> string) list \<Rightarrow> bool" where
  "regOk leaves reg \<longleftrightarrow>
     reg \<noteq> [] \<and> length leaves \<le> 2 ^ 62 \<and> fst ` set reg \<subseteq> {..<length leaves}"

lemma regOk_levelOk:
  "regOk leaves reg \<Longrightarrow> levelOk (ctxOf leaves inner reg) 0 (length leaves) (fst ` set reg)"
  by (fastforce simp: regOk_def levelOk_def dom_map_of_conv_image_fst)

lemma Build_spec:
  assumes "range_order ord" and "regOk leaves reg"
  shows "Build ord bh leaves inner reg =
     Inr (Some \<lparr>BlockHeight = bh, TreeHeight = of_nat (levels (length leaves)),
       Paths = levelsSpec (ctxOf leaves inner reg) (levels (length leaves)) 0 (length leaves)
                 (fst ` set reg)\<rparr>)"
proof -
  have l: "levels (length leaves) \<le> 62" "unat (of_nat (levels (length leaves)) :: u8) = levels (length leaves)"
    using assms(2) levels_bound [of "length leaves" 62] by (simp_all add: regOk_def unat_of_nat)
  then have z: "(of_nat (levels (length leaves)) :: u8) = 0 \<longleftrightarrow> levels (length leaves) = 0"
    by (metis unat_0 unat_eq_zero)
  have "buildLevels ord (ctxOf leaves inner reg) (levels (length leaves)) 0 (length leaves)
          (remdups (map fst reg)) =
        Inr (levelsSpec (ctxOf leaves inner reg) (levels (length leaves)) 0 (length leaves) (fst ` set reg))"
    using buildLevels_spec [OF assms(1), of "ctxOf leaves inner reg" 0 "length leaves" "remdups (map fst reg)"]
      regOk_levelOk [OF assms(2)] by simp
  moreover have "reg \<noteq> []" "leaves \<noteq> []" using assms(2) by (auto simp: regOk_def)
  ultimately show ?thesis
    using l z by (simp add: Build_def Let_def heightLoop_pow2 nextPowerOfTwo_levels
        ctxOf_def [symmetric])
qed

end
