(* ===== verification/Stump_Verify.thy ===== *)
theory Stump_Verify
  imports Stump_Build
begin

text \<open>
  The STUMPs that \<open>Build\<close> produces are proofs: the BRC-74 verification algorithm, as the tests of
  \<^verbatim>\<open>internal/stump\<close> state it, computes the root of the subtree from every registered txid. The hash
  function and the merkle tree store (the result of the library go-subtree) are parameters.
\<close>

section \<open>The verifier\<close>

text \<open>\<open>make([]byte, 32)\<close> followed by \<open>copy\<close>.\<close>

definition copy32 :: "bytes \<Rightarrow> bytes" where
  "copy32 h = take 32 (h @ replicate 32 0)"

lemma copy32_id [simp]: "length h = 32 \<Longrightarrow> copy32 h = h"
  by (simp add: copy32_def)

text \<open>
  The level loop for one txid; \<open>None\<close> when a sibling is missing.
\<close>

fun proofRoot :: "(bytes \<Rightarrow> bytes \<Rightarrow> bytes) \<Rightarrow> PathLevel list \<Rightarrow> u64 \<Rightarrow> bytes \<Rightarrow> bytes option" where
  "proofRoot H [] offset workingHash = Some workingHash"
| "proofRoot H (p # ps) offset workingHash =
     (case List.find (\<lambda>l. Offset l = offset XOR 1) (Leaves p) of
        None \<Rightarrow> None
      | Some l \<Rightarrow>
          let siblingHash = (if Duplicate l then copy32 workingHash else Hash l);
              workingHash' = (if offset mod 2 = 0 then H workingHash siblingHash
                              else H siblingHash workingHash)
          in proofRoot H ps (offset div 2) workingHash')"

text \<open>Every txid of level 0 is verified and there is at least one; a missing level is a failure.\<close>

definition verifyBUMPProof :: "(bytes \<Rightarrow> bytes \<Rightarrow> bytes) \<Rightarrow> STUMP \<Rightarrow> bytes \<Rightarrow> bool" where
  "verifyBUMPProof H s expectedRoot \<longleftrightarrow>
     Paths s \<noteq> [] \<and> unat (TreeHeight s) \<le> length (Paths s) \<and>
     (let txidLeaves = filter TxID (Leaves (hd (Paths s)))
      in txidLeaves \<noteq> [] \<and>
         list_all (\<lambda>leaf. proofRoot H (take (unat (TreeHeight s)) (Paths s)) (Offset leaf)
                              (copy32 (Hash leaf)) = Some expectedRoot) txidLeaves)"

section \<open>The merkle tree\<close>

text \<open>The number of nodes of a level, and the nodes: an odd last node is paired with itself.\<close>

fun width :: "nat \<Rightarrow> nat \<Rightarrow> nat" where
  "width n 0 = n"
| "width n (Suc k) = (width n k + 1) div 2"

fun treeNode :: "(bytes \<Rightarrow> bytes \<Rightarrow> bytes) \<Rightarrow> bytes list \<Rightarrow> nat \<Rightarrow> nat \<Rightarrow> bytes" where
  "treeNode H leaves 0 i = leaves ! i"
| "treeNode H leaves (Suc k) i =
     H (treeNode H leaves k (2 * i))
       (if 2 * i + 1 < width (length leaves) k then treeNode H leaves k (2 * i + 1)
        else treeNode H leaves k (2 * i))"

definition merkleRoot :: "(bytes \<Rightarrow> bytes \<Rightarrow> bytes) \<Rightarrow> bytes list \<Rightarrow> bytes" where
  "merkleRoot H leaves = treeNode H leaves (levels (length leaves)) 0"

text \<open>
  The layout of the store that \<open>BuildMerkleTreeStoreFromBytes\<close> of go-subtree returns, as the source
  documents it: the levels above the leaves one after the other, level \<open>k\<close> padded to
  \<open>2 ^ (h - k)\<close> entries.
\<close>

definition merkleStore :: "(bytes \<Rightarrow> bytes \<Rightarrow> bytes) \<Rightarrow> bytes list \<Rightarrow> bytes list \<Rightarrow> bool" where
  "merkleStore H leaves inner \<longleftrightarrow>
     (let n = length leaves; h = levels n
      in \<forall>k\<in>{1..h}. \<forall>i<width n k.
           2 ^ h - 2 ^ (h - k + 1) + i < length inner \<and>
           inner ! (2 ^ h - 2 ^ (h - k + 1) + i) = treeNode H leaves k i)"

lemma merkleStoreD:
  assumes "merkleStore H leaves inner" and "1 \<le> k" and "k \<le> levels (length leaves)"
    and "i < width (length leaves) k"
  shows "2 ^ levels (length leaves) - 2 ^ (levels (length leaves) - k + 1) + i < length inner"
    and "inner ! (2 ^ levels (length leaves) - 2 ^ (levels (length leaves) - k + 1) + i) =
           treeNode H leaves k i"
  using assms by (auto simp: merkleStore_def Let_def)

lemma length_treeNode:
  assumes "\<forall>h\<in>set leaves. length h = 32" and "\<And>a b. length (H a b) = 32"
    and "i < width (length leaves) k"
  shows "length (treeNode H leaves k i) = 32"
  using assms by (cases k) auto

lemma getNode_treeNode:
  assumes "merkleStore H leaves inner" and "level \<le> levels (length leaves)"
    and "i < width (length leaves) level"
  shows "getNode (ctxOf leaves inner reg) level i = Some (treeNode H leaves level i)"
proof (cases level)
  case 0
  with assms show ?thesis by (simp add: getNode_def)
next
  case (Suc k)
  let ?h = "levels (length leaves)"
  from Suc assms(2) obtain h' where h: "?h = Suc h'" "k \<le> h'" by (cases ?h) auto
  have "nodeOff k 0 (2 ^ h') + 2 ^ (Suc h' - k) = 2 ^ Suc h'"
    using nodeOff_pow2 [of k h' 0] h(2) by simp
  moreover have "Suc h' - k = ?h - level + 1" using h Suc by simp
  ultimately have "nodeOff k 0 (2 ^ h') = 2 ^ ?h - 2 ^ (?h - level + 1)" using h(1) by simp
  with merkleStoreD [OF assms(1) _ assms(2,3)] Suc h(1) show ?thesis
    by (simp add: getNode_def drop_bit_eq_div)
qed

section \<open>One level of a proof\<close>

lemma find_map_offset:
  assumes "distinct (map Offset ls)" and "l \<in> set ls"
  shows "List.find (\<lambda>l'. Offset l' = Offset l) ls = Some l"
  using assms by (induction ls) auto

lemma levelSpec_offsets:
  assumes "finite N" and "N \<subseteq> {..<2 ^ 63}"
  shows "map Offset (Leaves (levelSpec c level rc N)) =
           map of_nat (sorted_list_of_set (levelOffsets level N))"
    and "distinct (map Offset (Leaves (levelSpec c level rc N)))"
    and "sorted (map Offset (Leaves (levelSpec c level rc N)))"
    and "set (Leaves (levelSpec c level rc N)) = leafAt c level rc ` levelOffsets level N"
proof -
  have b: "levelOffsets level N \<subseteq> {..<2 ^ 63}"
    using levelOffsets_bound [of N 62 level] assms(2) by simp
  show m: "map Offset (Leaves (levelSpec c level rc N)) =
      map of_nat (sorted_list_of_set (levelOffsets level N))"
    by (simp add: levelSpec_def)
  show "distinct (map Offset (Leaves (levelSpec c level rc N)))"
    unfolding m by (rule distinct_of_nat_u64) (use b assms(1) in auto)
  show "sorted (map Offset (Leaves (levelSpec c level rc N)))"
    unfolding m by (rule sorted_of_nat_u64) (use b assms(1) in auto)
  show "set (Leaves (levelSpec c level rc N)) = leafAt c level rc ` levelOffsets level N"
    using assms(1) by (simp add: levelSpec_def)
qed

lemma find_sibling:
  assumes "finite N" and "N \<subseteq> {..<2 ^ 63}" and "i \<in> N"
  shows "List.find (\<lambda>l. Offset l = of_nat (sib i)) (Leaves (levelSpec c level rc N)) =
           Some (leafAt c level rc (sib i))"
proof -
  have "leafAt c level rc (sib i) \<in> set (Leaves (levelSpec c level rc N))"
    using levelSpec_offsets(4) [OF assms(1,2)] assms(3) by (auto simp: levelOffsets_def)
  from find_map_offset [OF levelSpec_offsets(2) [OF assms(1,2)] this] show ?thesis by simp
qed

text \<open>The combination step of the verifier computes the parent node.\<close>

lemma parent_node:
  assumes i: "i < width (length leaves) level"
    and sib: "sib i < width (length leaves) level \<Longrightarrow> s = treeNode H leaves level (sib i)"
    and dup: "\<not> sib i < width (length leaves) level \<Longrightarrow> s = treeNode H leaves level i"
  shows "(if even i then H (treeNode H leaves level i) s else H s (treeNode H leaves level i)) =
           treeNode H leaves (Suc level) (i div 2)"
proof (cases "even i")
  case True
  then obtain m where m: "i = 2 * m" by auto
  then have "sib i = 2 * m + 1" by (simp add: nat_xor_Suc_0)
  with m sib dup show ?thesis by auto
next
  case False
  then obtain m where m: "i = 2 * m + 1" by (auto elim: oddE)
  then have "sib i = 2 * m" by (simp add: nat_xor_Suc_0)
  with m sib i show ?thesis by auto
qed

lemma leafAt_sibling:
  fixes i :: nat
  assumes "merkleStore H leaves inner" and "level \<le> levels (length leaves)"
    and "dom (map_of reg) \<subseteq> {..<length leaves}"
  defines "l \<equiv> leafAt (ctxOf leaves inner reg) level (width (length leaves) level) i"
  shows "i < width (length leaves) level \<Longrightarrow> \<not> Duplicate l \<and> Hash l = treeNode H leaves level i"
    and "\<not> i < width (length leaves) level \<Longrightarrow> Duplicate l"
  using getNode_treeNode [OF assms(1,2), of i reg] domI [of "map_of reg" i] assms(3)
  by (cases level; auto simp: l_def leafAt_def siblingLeaf_def Let_def simp del: width.simps(2) treeNode.simps(2))+

lemma of_nat_u64_step:
  assumes "i < 2 ^ 63"
  shows "(of_nat i :: u64) XOR 1 = of_nat (sib i)" and "(of_nat i :: u64) mod 2 = 0 \<longleftrightarrow> even i"
    and "(of_nat i :: u64) div 2 = of_nat (i div 2)"
proof -
  show "(of_nat i :: u64) XOR 1 = of_nat (sib i)"
    by (simp add: of_nat_xor_eq)
  have u: "unat (of_nat i :: u64) = i" using assms by (simp add: unat_of_nat)
  have "(of_nat i :: u64) mod 2 = 0 \<longleftrightarrow> unat ((of_nat i :: u64) mod 2) = 0"
    by (metis unat_eq_zero unat_0)
  also have "\<dots> \<longleftrightarrow> even i" by (simp add: unat_mod_distrib u even_iff_mod_2_eq_zero)
  finally show "(of_nat i :: u64) mod 2 = 0 \<longleftrightarrow> even i" .
  show "(of_nat i :: u64) div 2 = of_nat (i div 2)"
    using assms by (intro word_unat_eq_iff [THEN iffD2]) (simp add: unat_div_distrib u unat_of_nat)
qed

section \<open>The whole proof\<close>

lemma width_pos: "i < width n k \<Longrightarrow> i div 2 < width n (Suc k)"
  by auto

lemma proofRoot_levelsSpec:
  fixes leaves inner :: "bytes list" and reg :: "(nat \<times> string) list"
  defines "c \<equiv> ctxOf leaves inner reg" and "n \<equiv> length leaves"
  assumes store: "merkleStore H leaves inner" and reg: "dom (map_of reg) \<subseteq> {..<length leaves}"
    and H: "\<And>a b. length (H a b) = 32" and len: "\<forall>h\<in>set leaves. length h = 32"
    and "level + k \<le> levels n" and "finite N" and "N \<subseteq> {..<2 ^ 63}" and "i \<in> N" and "i < width n level"
  shows "proofRoot H (levelsSpec c k level (width n level) N) (of_nat i) (treeNode H leaves level i) =
           Some (treeNode H leaves (level + k) (i div 2 ^ k))"
  using assms(7-)
proof (induction k arbitrary: level N i)
  case (Suc k)
  let ?l = "leafAt c level (width n level) (sib i)"
  let ?s = "if Duplicate ?l then treeNode H leaves level i else Hash ?l"
  from Suc.prems have i: "i < 2 ^ 63" by auto
  have len_i: "length (treeNode H leaves level i) = 32"
    using length_treeNode [OF len H] Suc.prems by (simp add: n_def)
  have "(if even i then H (treeNode H leaves level i) ?s else H ?s (treeNode H leaves level i)) =
      treeNode H leaves (Suc level) (i div 2)"
    using parent_node [of i leaves level ?s H] leafAt_sibling [OF store _ reg, of level "sib i"] Suc.prems
    by (simp add: c_def n_def)
  moreover have "proofRoot H (levelsSpec c k (Suc level) (width n (Suc level)) ((\<lambda>i. i div 2) ` N))
      (of_nat (i div 2)) (treeNode H leaves (Suc level) (i div 2)) =
      Some (treeNode H leaves (Suc level + k) (i div 2 div 2 ^ k))"
    using Suc.prems by (intro Suc.IH) (auto simp del: width.simps intro: width_pos le_less_trans [OF div_le_dividend])
  ultimately show ?case
    using find_sibling [OF Suc.prems(2-4)] of_nat_u64_step [OF i] len_i
    by (simp add: Let_def div_mult2_eq del: treeNode.simps split: if_splits)
qed simp

lemma width_shift: "width ((n + 1) div 2) k = width n (Suc k)"
  by (induction k) auto

lemma levelsSpec_nth:
  "j < k \<Longrightarrow> levelsSpec c k level rc N ! j = levelSpec c (level + j) (width rc j) ((\<lambda>i. i div 2 ^ j) ` N)"
proof (induction k arbitrary: level rc N j)
  case (Suc k)
  then show ?case
    using width_shift [of rc] by (cases j) (simp_all add: image_image div_mult2_eq)
qed simp

lemma filter_image:
  assumes "\<And>i. i \<in> N \<Longrightarrow> f i = g i \<and> P (g i)" and "\<And>i. i \<in> M \<Longrightarrow> i \<notin> N \<Longrightarrow> \<not> P (f i)"
    and "N \<subseteq> M"
  shows "{l \<in> f ` M. P l} = g ` N"
  using assms by force

lemma length_levelsSpec [simp]: "length (levelsSpec c k level rc N) = k"
  by (induction k arbitrary: level rc N) auto

lemma levelsSpec_txids:
  fixes inner :: "bytes list"
  assumes "regOk leaves reg" and "2 \<le> length leaves"
  defines "c \<equiv> ctxOf leaves inner reg"
  shows "set (filter TxID (Leaves (hd (levelsSpec c (levels (length leaves)) 0 (length leaves) (fst ` set reg))))) =
     (\<lambda>i. \<lparr>Offset = of_nat i, Hash = leaves ! i, TxID = True, Duplicate = False\<rparr>) ` (fst ` set reg)"
proof -
  obtain h where h: "levels (length leaves) = Suc h"
    using assms(2) levels_0_iff [of "length leaves"] by (cases "levels (length leaves)") auto
  have fin: "finite (fst ` set reg)" by simp
  have b: "fst ` set reg \<subseteq> {..<2 ^ 63}" using regOk_levelOk [OF assms(1)] unfolding levelOk_def by blast
  have d: "map_of reg i \<noteq> None \<longleftrightarrow> i \<in> fst ` set reg" for i
    by (simp add: map_of_eq_None_iff)
  have "leafAt c 0 (length leaves) i =
      \<lparr>Offset = of_nat i, Hash = leaves ! i, TxID = True, Duplicate = False\<rparr>" if "i \<in> fst ` set reg" for i
    using that d [of i] by (simp add: leafAt_def c_def)
  moreover have "\<not> TxID (leafAt c 0 (length leaves) i)" if "i \<notin> fst ` set reg" for i
    using that d [of i] by (auto simp: leafAt_def c_def siblingLeaf_def Let_def split: option.split)
  ultimately have "{l \<in> leafAt c 0 (length leaves) ` levelOffsets 0 (fst ` set reg). TxID l} =
      (\<lambda>i. \<lparr>Offset = of_nat i, Hash = leaves ! i, TxID = True, Duplicate = False\<rparr>) ` (fst ` set reg)"
    by (intro filter_image) (auto simp: levelOffsets_def)
  then show ?thesis
    using levelSpec_offsets(4) [OF fin b, of c 0 "length leaves"] h by simp
qed

lemma Build_is_proof:
  assumes "range_order ord" and "regOk leaves reg" and "2 \<le> length leaves"
    and "merkleStore H leaves inner"
    and "\<And>a b. length (H a b) = 32" and "\<forall>h\<in>set leaves. length h = 32"
  shows "\<exists>s. Build ord bh leaves inner reg = Inr (Some s) \<and> verifyBUMPProof H s (merkleRoot H leaves)
     \<and> (\<lambda>l. (Offset l, Hash l)) ` set (filter TxID (Leaves (hd (Paths s)))) = (\<lambda>i. (of_nat i, leaves ! i)) ` fst ` set reg
     \<and> (\<forall>i \<in> fst ` set reg. proofRoot H (Paths s) (of_nat i) (leaves ! i) = Some (merkleRoot H leaves))"
proof -
  let ?h = "levels (length leaves)" and ?N = "fst ` set reg"
  let ?ps = "levelsSpec (ctxOf leaves inner reg) ?h 0 (length leaves) ?N"
  have dom: "dom (map_of reg) \<subseteq> {..<length leaves}"
    using assms(2) by (simp add: regOk_def dom_map_of_conv_image_fst)
  have h: "unat (of_nat ?h :: u8) = ?h" "?h \<noteq> 0"
    using assms(2,3) levels_bound [of "length leaves" 62] levels_0_iff [of "length leaves"]
    by (simp_all add: regOk_def unat_of_nat)
  have N: "?N \<subseteq> {..<length leaves}" "?N \<subseteq> {..<2 ^ 63}" "?N \<noteq> {}"
    using assms(2) regOk_levelOk [OF assms(2)] by (auto simp: regOk_def levelOk_def)
  have root: "proofRoot H ?ps (of_nat i) (leaves ! i) = Some (merkleRoot H leaves)" if "i \<in> ?N" for i
  proof -
    have "i < length leaves" using that N(1) by auto
    moreover from this have "i div 2 ^ ?h = 0" using le_pow_levels [of "length leaves"] by simp
    ultimately show ?thesis
      using proofRoot_levelsSpec [OF assms(4) dom assms(5,6), of 0 ?h ?N i] that N(2)
      by (simp add: merkleRoot_def)
  qed
  have len: "length (leaves ! i) = 32" if "i \<in> ?N" for i using that N(1) assms(6) by auto
  let ?txids = "filter TxID (Leaves (hd ?ps))"
  note txids = levelsSpec_txids [OF assms(2,3), of inner]
  have "?txids \<noteq> []" unfolding set_empty [symmetric] txids using N(3) by (simp only: image_is_empty not_False_eq_True)
  moreover have "list_all (\<lambda>leaf. proofRoot H ?ps (Offset leaf) (copy32 (Hash leaf)) =
      Some (merkleRoot H leaves)) ?txids"
    unfolding list_all_iff txids by (auto simp: root len)
  moreover have "?ps \<noteq> []" using h(2) by (metis length_levelsSpec list.size(3))
  ultimately have "verifyBUMPProof H \<lparr>BlockHeight = bh, TreeHeight = of_nat ?h, Paths = ?ps\<rparr> (merkleRoot H leaves)"
    using h(1) by (simp add: verifyBUMPProof_def)
  moreover have "(\<lambda>l. (Offset l, Hash l)) ` set ?txids = (\<lambda>i. (of_nat i, leaves ! i)) ` ?N" unfolding txids by (simp add: image_image)
  ultimately show ?thesis using Build_spec [OF assms(1,2)] root by simp
qed

lemma Build_flags:
  assumes "range_order ord" and "regOk leaves reg" and "2 \<le> length leaves"
    and "merkleStore H leaves inner"
    and "\<And>a b. length (H a b) = 32" and "\<forall>h\<in>set leaves. length h = 32"
  shows "\<exists>s. Build ord bh leaves inner reg = Inr (Some s) \<and> verifyBUMPProof H s (merkleRoot H leaves)
     \<and> Hash ` set (filter TxID (Leaves (hd (Paths s)))) = (!) leaves ` fst ` set reg"
proof -
  have "Hash ` A = (!) leaves ` N" if "(\<lambda>l. (Offset l, Hash l)) ` A = (\<lambda>i. (of_nat i, leaves ! i)) ` N" for A N
    using arg_cong [where f = "(`) snd", OF that] by (simp add: image_image)
  note flags = this
  show ?thesis
    by (rule exE [OF Build_is_proof [OF assms, of bh]], elim conjE, rule exI, intro conjI) (assumption | erule flags)+
qed

text \<open>
  C3: Every STUMP that \<open>Build\<close> returns for a subtree of at least two leaves is a valid BRC-74 proof of
  the registered txids: whatever the iteration order of Go's maps, \<open>Build\<close> does not panic; the leaves
  it flags as txids are exactly those at the registered indices, with their offsets and hashes; from
  each of them the path leads to the merkle root of the subtree; and the verification algorithm accepts
  the STUMP. The hash function is any function to 32 bytes and the internal nodes are laid out as
  go-subtree documents them.
\<close>

theorem Build_verifies:
  assumes "range_order ord" and "regOk leaves reg" and "2 \<le> length leaves"
    and "merkleStore H leaves inner"
    and "\<And>a b. length (H a b) = 32" and "\<forall>h\<in>set leaves. length h = 32"
  shows "\<exists>s. Build ord bh leaves inner reg = Inr (Some s) \<and> verifyBUMPProof H s (merkleRoot H leaves)
     \<and> (\<lambda>l. (Offset l, Hash l)) ` set (filter TxID (Leaves (hd (Paths s)))) = (\<lambda>i. (of_nat i, leaves ! i)) ` fst ` set reg
     \<and> (\<forall>i \<in> fst ` set reg. proofRoot H (Paths s) (of_nat i) (leaves ! i) = Some (merkleRoot H leaves))"
  using Build_is_proof [OF assms] by blast

lemma length_copy32 [simp]: "length (copy32 h) = 32"
  by (simp add: copy32_def)

text \<open>The store of a three-leaf subtree, whose last leaf is paired with itself.\<close>

lemma merkleStore_3: "merkleStore H [a, b, c] [H a b, H c c, H (H a b) (H c c)]"
proof -
  have l: "levels (length [a, b, c]) = 2" by (rule levels_eqI) simp_all
  have k: "{1..2::nat} = {Suc 0, Suc (Suc 0)}" by auto
  have two: "(\<forall>i<2. P i) \<longleftrightarrow> P 0 \<and> P (Suc 0)" for P :: "nat \<Rightarrow> bool"
    by (simp add: All_less_Suc2 numeral_2_eq_2)
  have w: "width (length [a, b, c]) (Suc 0) = 2" "width (length [a, b, c]) (Suc (Suc 0)) = 1"
    by simp_all
  have t: "treeNode H [a, b, c] (Suc 0) 0 = H a b" "treeNode H [a, b, c] (Suc 0) (Suc 0) = H c c"
    "treeNode H [a, b, c] (Suc (Suc 0)) 0 = H (H a b) (H c c)"
    by simp_all
  have "2 ^ 2 - 2 ^ (2 - Suc 0 + 1) + 0 = (0::nat)" "2 ^ 2 - 2 ^ (2 - Suc 0 + 1) + Suc 0 = 1"
    "2 ^ 2 - 2 ^ (2 - Suc (Suc 0) + 1) + 0 = (2::nat)" by simp_all
  then show ?thesis
    unfolding merkleStore_def Let_def l k by (simp only: ball_simps w two t less_one) simp
qed

theorem Build_verifies_witness:
  "let H = (\<lambda>a b. copy32 (rev b @ a)); l0 = replicate 32 1; l1 = replicate 32 2; l2 = replicate 32 3;
       leaves = [l0, l1, l2]; inner = [H l0 l1, H l2 l2, H (H l0 l1) (H l2 l2)]
   in \<exists>s. Build (\<lambda>_ ks. rev ks) 850000 leaves inner [(0, ''tx0''), (2, ''tx2'')] = Inr (Some s) \<and>
          verifyBUMPProof H s (merkleRoot H leaves) \<and>
          (\<lambda>l. (Offset l, Hash l)) ` set (filter TxID (Leaves (hd (Paths s)))) = {(0, l0), (2, l2)} \<and>
          proofRoot H (Paths s) 2 l2 = Some (merkleRoot H leaves)"
proof -
  let ?H = "\<lambda>a b. copy32 (rev b @ a)" and ?l0 = "replicate 32 (1 :: byte)" and ?l1 = "replicate 32 (2 :: byte)" and ?l2 = "replicate 32 (3 :: byte)"
  have "regOk [?l0, ?l1, ?l2] [(0, ''tx0''), (2, ''tx2'')]" by (auto simp: regOk_def)
  from Build_verifies [OF _ this _ merkleStore_3 [of ?H], of "\<lambda>_ ks. rev ks" 850000]
  show ?thesis unfolding Let_def by fastforce
qed

end
