(* ===== verification/Stump_Codec.thy ===== *)
theory Stump_Codec
  imports Stump_Verify
begin

text \<open>
  The binary BRC-74 encoding: a decoder for the format, the round trip of \<open>Encode\<close>, and the fact
  that every STUMP of \<open>Build\<close> is well formed, so that nothing is lost on the wire.
\<close>

section \<open>The decoder\<close>

text \<open>\<open>bytesRead = 0\<close> reports an error.\<close>

definition readCompactSize :: "bytes \<Rightarrow> u64 \<times> nat" where
  "readCompactSize data =
     (if data = [] then (0, 0)
      else
        (let b = (\<lambda>i. ucast (data ! i) :: u64); first = data ! 0
         in if first < 0xFD then (b 0, 1)
            else if first = 0xFD then
              (if length data < 3 then (0, 0) else (b 1 OR push_bit 8 (b 2), 3))
            else if first = 0xFE then
              (if length data < 5 then (0, 0)
               else (b 1 OR push_bit 8 (b 2) OR push_bit 16 (b 3) OR push_bit 24 (b 4), 5))
            else
              (if length data < 9 then (0, 0)
               else (b 1 OR push_bit 8 (b 2) OR push_bit 16 (b 3) OR push_bit 24 (b 4) OR
                     push_bit 32 (b 5) OR push_bit 40 (b 6) OR push_bit 48 (b 7) OR push_bit 56 (b 8),
                     9))))"

definition readVar :: "bytes \<Rightarrow> (u64 \<times> bytes) option" where
  "readVar data = (let (v, n) = readCompactSize data in if n = 0 then None else Some (v, drop n data))"

definition decodeLeaf :: "bytes \<Rightarrow> (Leaf \<times> bytes) option" where
  "decodeLeaf data =
     (case readVar data of
        None \<Rightarrow> None
      | Some (off, data) \<Rightarrow>
          (case data of
             [] \<Rightarrow> None
           | flags # data \<Rightarrow>
               if flags = 0x01 then
                 Some (\<lparr>Offset = off, Hash = [], TxID = False, Duplicate = True\<rparr>, data)
               else if length data < 32 then None
               else Some (\<lparr>Offset = off, Hash = take 32 data, TxID = (flags = 0x02),
                           Duplicate = False\<rparr>, drop 32 data)))"

text \<open>\<open>n\<close> items in a row.\<close>

fun decodeN :: "(bytes \<Rightarrow> ('a \<times> bytes) option) \<Rightarrow> nat \<Rightarrow> bytes \<Rightarrow> ('a list \<times> bytes) option" where
  "decodeN d 0 data = Some ([], data)"
| "decodeN d (Suc n) data =
     (case d data of
        None \<Rightarrow> None
      | Some (x, data) \<Rightarrow>
          (case decodeN d n data of None \<Rightarrow> None | Some (xs, data) \<Rightarrow> Some (x # xs, data)))"

definition decodeLevel :: "bytes \<Rightarrow> (PathLevel \<times> bytes) option" where
  "decodeLevel data =
     (case readVar data of
        None \<Rightarrow> None
      | Some (n, data) \<Rightarrow>
          (case decodeN decodeLeaf (unat n) data of
             None \<Rightarrow> None
           | Some (ls, data) \<Rightarrow> Some (\<lparr>Leaves = ls\<rparr>, data)))"

definition decodeSTUMP :: "bytes \<Rightarrow> (STUMP \<times> bytes) option" where
  "decodeSTUMP data =
     (case readVar data of
        None \<Rightarrow> None
      | Some (bh, data) \<Rightarrow>
          (case data of
             [] \<Rightarrow> None
           | th # data \<Rightarrow>
               (case decodeN decodeLevel (unat th) data of
                  None \<Rightarrow> None
                | Some (ps, data) \<Rightarrow>
                    Some (\<lparr>BlockHeight = bh, TreeHeight = th, Paths = ps\<rparr>, data))))"

section \<open>CompactSize\<close>

lemma small_byte: "v < 253 \<Longrightarrow> ucast (ucast v :: byte) = v \<and> (ucast v :: byte) < 0xFD" for v :: u64
proof -
  assume v: "v < 253"
  then have "unat v < 253" by (simp add: word_less_nat_alt)
  then show ?thesis
    by (simp add: word_unat_eq_iff word_less_nat_alt unsigned_ucast_eq unsigned_take_bit_eq
        take_bit_nat_eq_self)
qed

lemma readCompactSize_append:
  "readCompactSize (appendCompactSize [] v @ data) = (v, length (appendCompactSize [] v))"
proof -
  consider "v < 253" | "\<not> v < 253" "v \<le> 0xFFFF" | "\<not> v < 253" "\<not> v \<le> 0xFFFF" "v \<le> 0xFFFFFFFF"
    | "\<not> v < 253" "\<not> v \<le> 0xFFFF" "\<not> v \<le> 0xFFFFFFFF" by blast
  then show ?thesis
  proof cases
    case 1
    then show ?thesis using small_byte by (simp add: readCompactSize_def appendCompactSize_def)
  next
    case 2
    then have "take_bit 16 v = v" by (intro take_bit_id) (simp add: word_le_nat_alt)
    with 2 show ?thesis
      using take_bit_bytes(1) [of v]
      by (simp add: readCompactSize_def appendCompactSize_def nth_Cons' Let_def)
  next
    case 3
    then have "take_bit 32 v = v" by (intro take_bit_id) (simp add: word_le_nat_alt)
    with 3 show ?thesis
      using take_bit_bytes(2) [of v]
      by (simp add: readCompactSize_def appendCompactSize_def nth_Cons' Let_def)
  next
    case 4
    then show ?thesis
      using take_bit_bytes(3) [of v]
      by (simp add: readCompactSize_def appendCompactSize_def nth_Cons' Let_def)
  qed
qed

lemma length_appendCompactSize: "0 < length (appendCompactSize [] v)"
  by (simp add: appendCompactSize_def)

lemma appendCompactSize_buf: "appendCompactSize buf v = buf @ appendCompactSize [] v"
  by (simp add: appendCompactSize_def)

lemma readVar_append [simp]: "readVar (appendCompactSize [] v @ data) = Some (v, data)"
  using length_appendCompactSize [of v] by (simp add: readVar_def readCompactSize_append)

section \<open>Round trip\<close>

text \<open>
  What the format can express: a duplicate leaf has neither hash nor txid flag, every other hash has
  32 bytes, and the path has as many levels as the height says.
\<close>

definition wfLeaf :: "Leaf \<Rightarrow> bool" where
  "wfLeaf l \<longleftrightarrow> (if Duplicate l then Hash l = [] \<and> \<not> TxID l else length (Hash l) = 32)"

definition wfSTUMP :: "STUMP \<Rightarrow> bool" where
  "wfSTUMP s \<longleftrightarrow>
     length (Paths s) = unat (TreeHeight s) \<and>
     (\<forall>p\<in>set (Paths s). length (Leaves p) < 2 ^ 64 \<and> (\<forall>l\<in>set (Leaves p). wfLeaf l))"

lemma encodeLeaf_buf: "encodeLeaf buf l = buf @ encodeLeaf [] l"
  by (simp add: encodeLeaf_def Let_def appendCompactSize_buf [of buf])

lemma foldl_append:
  assumes "\<And>buf x. f buf x = buf @ f [] x"
  shows "foldl f buf xs = buf @ concat (map (f []) xs)"
proof (induction xs arbitrary: buf)
  case (Cons x xs)
  then show ?case using assms [of buf x] by simp
qed simp

lemma encodeLevel_buf: "encodeLevel buf p = buf @ encodeLevel [] p"
  using foldl_append [of encodeLeaf, OF encodeLeaf_buf]
  by (simp add: encodeLevel_def appendCompactSize_buf [of buf])

lemma decodeLeaf_encode: "wfLeaf l \<Longrightarrow> decodeLeaf (encodeLeaf [] l @ data) = Some (l, data)"
  by (cases l) (auto simp: decodeLeaf_def encodeLeaf_def wfLeaf_def Let_def split: if_splits)

lemma decodeN_encode:
  assumes "\<And>x data. x \<in> set xs \<Longrightarrow> d (e x @ data) = Some (x, data)"
  shows "decodeN d (length xs) (concat (map e xs) @ data) = Some (xs, data)"
  using assms by (induction xs) auto

lemma decodeLevel_encode:
  assumes "length (Leaves p) < 2 ^ 64" and "\<forall>l\<in>set (Leaves p). wfLeaf l"
  shows "decodeLevel (encodeLevel [] p @ data) = Some (p, data)"
proof -
  have "unat (of_nat (length (Leaves p)) :: u64) = length (Leaves p)"
    using assms(1) by (simp add: unat_of_nat)
  then show ?thesis
    using decodeN_encode [of "Leaves p" decodeLeaf "encodeLeaf []"] decodeLeaf_encode assms(2)
    by (cases p) (simp add: decodeLevel_def encodeLevel_def foldl_append [of encodeLeaf, OF encodeLeaf_buf])
qed

lemma decodeSTUMP_encode:
  assumes "wfSTUMP s"
  shows "decodeSTUMP (Encode (Some s) @ data) = Some (s, data)"
  using decodeN_encode [of "Paths s" decodeLevel "encodeLevel []"] decodeLevel_encode assms
  by (cases s) (simp add: decodeSTUMP_def Encode_def wfSTUMP_def foldl_append [of encodeLevel, OF encodeLevel_buf])

text \<open>
  The encoding of well-formed STUMPs is prefix-free: two byte streams that start with the
  encodings of two STUMPs and are equal start with the same STUMP, followed by the same bytes.
\<close>

theorem Encode_prefix_free:
  assumes "wfSTUMP s" and "wfSTUMP t"
  shows "Encode (Some s) @ d = Encode (Some t) @ e \<longleftrightarrow> s = t \<and> d = e"
  by (metis decodeSTUMP_encode [OF assms(1)] decodeSTUMP_encode [OF assms(2)] option.inject prod.inject)

theorem Encode_prefix_free_witness:
  "let l = (\<lambda>d. \<lparr>Offset = 1, Hash = (if d then [] else replicate 32 7), TxID = False, Duplicate = d\<rparr>);
       s = (\<lambda>d. \<lparr>BlockHeight = 9, TreeHeight = 1, Paths = [\<lparr>Leaves = [l d]\<rparr>]\<rparr>)
   in Encode (Some (s True)) @ [1, 2] \<noteq> Encode (Some (s False)) @ [3]"
  unfolding Let_def
  by (subst Encode_prefix_free) (simp_all add: wfSTUMP_def wfLeaf_def)

section \<open>Build returns well-formed STUMPs\<close>

lemma wfLeaf_leafAt:
  assumes "dom (map_of reg) \<subseteq> {..<length leaves}" and "level = 0 \<Longrightarrow> rc = length leaves"
    and "\<forall>h\<in>set leaves. length h = 32" and "\<forall>h\<in>set inner. length h = 32"
  shows "wfLeaf (leafAt (ctxOf leaves inner reg) level rc i)"
proof (cases "level = 0 \<and> i \<in> dom (map_of reg)")
  case True
  with assms(1) have "i < length leaves" by blast
  with True assms(3) show ?thesis by (auto simp: leafAt_def wfLeaf_def)
next
  case False
  have "length h = 32" if "getNode (ctxOf leaves inner reg) level i = Some h" for h
    using that assms(3,4) by (auto simp: getNode_def Let_def split: if_splits)
  with False assms(1,2) show ?thesis
    by (auto simp: leafAt_def siblingLeaf_def wfLeaf_def Let_def split: option.split)
qed

lemma length_levelSpec:
  assumes "finite N" and "N \<subseteq> {..<2 ^ 63}"
  shows "length (Leaves (levelSpec c level rc N)) \<le> 2 ^ 63"
proof -
  have "levelOffsets level N \<subseteq> {..<2 ^ 63}" using levelOffsets_bound [of N 62 level] assms(2) by simp
  then have "card (levelOffsets level N) \<le> card {..<2 ^ 63 :: nat}" by (intro card_mono) auto
  then show ?thesis by (simp add: levelSpec_def)
qed

lemma wfSTUMP_Build:
  assumes "range_order ord" and "regOk leaves reg"
    and "\<forall>h\<in>set leaves. length h = 32" and "\<forall>h\<in>set inner. length h = 32"
    and "Build ord bh leaves inner reg = Inr (Some s)"
  shows "wfSTUMP s"
proof -
  let ?h = "levels (length leaves)" and ?N = "fst ` set reg" and ?c = "ctxOf leaves inner reg"
  have s: "s = \<lparr>BlockHeight = bh, TreeHeight = of_nat ?h, Paths = levelsSpec ?c ?h 0 (length leaves) ?N\<rparr>"
    using Build_spec [OF assms(1,2)] assms(5) by simp
  have dom: "dom (map_of reg) \<subseteq> {..<length leaves}" and b: "?N \<subseteq> {..<2 ^ 63}"
    using assms(2) regOk_levelOk [OF assms(2)] by (auto simp: regOk_def levelOk_def dom_map_of_conv_image_fst)
  have h: "unat (of_nat ?h :: u8) = ?h"
    using assms(2) levels_bound [of "length leaves" 62] by (simp add: regOk_def unat_of_nat)
  have "length (Leaves p) < 2 ^ 64 \<and> (\<forall>l\<in>set (Leaves p). wfLeaf l)"
    if p: "p \<in> set (levelsSpec ?c ?h 0 (length leaves) ?N)" for p
  proof -
    from p obtain j where "j < ?h" and j: "p = levelsSpec ?c ?h 0 (length leaves) ?N ! j"
      by (auto simp: in_set_conv_nth)
    define rc where "rc = width (length leaves) j"
    have p: "p = levelSpec ?c j rc ((\<lambda>i. i div 2 ^ j) ` ?N)" and rc: "j = 0 \<Longrightarrow> rc = length leaves"
      using j \<open>j < ?h\<close> by (simp_all add: levelsSpec_nth rc_def)
    have N: "finite ((\<lambda>i. i div 2 ^ j) ` ?N)" "(\<lambda>i. i div 2 ^ j) ` ?N \<subseteq> {..<2 ^ 63}"
      using b by (auto intro: le_less_trans [OF div_le_dividend])
    have "length (Leaves p) \<le> 2 ^ 63" using length_levelSpec [OF N] p by simp
    moreover have "wfLeaf l" if "l \<in> set (Leaves p)" for l
      using that wfLeaf_leafAt [OF dom rc assms(3,4)] unfolding p levelSpec_offsets(4) [OF N] by blast
    ultimately show ?thesis by simp
  qed
  then show ?thesis by (simp add: s wfSTUMP_def h)
qed

text \<open>
  C25: A STUMP that \<open>Build\<close> returns survives the wire: the BRC-74 decoder reads from its encoding
  exactly that STUMP and stops right behind it, provided that all hashes have 32 bytes.
\<close>

theorem Build_Encode_roundtrip:
  assumes "range_order ord" and "regOk leaves reg"
    and "\<forall>h\<in>set leaves. length h = 32" and "\<forall>h\<in>set inner. length h = 32"
    and "Build ord bh leaves inner reg = Inr (Some s)"
  shows "decodeSTUMP (Encode (Some s) @ data) = Some (s, data)"
  using wfSTUMP_Build [OF assms] by (rule decodeSTUMP_encode)

lemma Build_two_leaves:
  "Build (\<lambda>_ ks. ks) 9 [a, b] [c] [(1, tx)] =
     Inr (Some \<lparr>BlockHeight = 9, TreeHeight = 1,
       Paths = [\<lparr>Leaves = [\<lparr>Offset = 0, Hash = a, TxID = False, Duplicate = False\<rparr>,
                          \<lparr>Offset = 1, Hash = b, TxID = True, Duplicate = False\<rparr>]\<rparr>]\<rparr>)"
proof -
  have l: "levels 2 = 1" by (rule levels_eqI) simp_all
  have "levelOffsets 0 {1} = {0, 1}" by (auto simp: levelOffsets_def)
  then have "levelsSpec (ctxOf [a, b] [c] [(1, tx)]) 1 0 2 {1} =
      [\<lparr>Leaves = [\<lparr>Offset = 0, Hash = a, TxID = False, Duplicate = False\<rparr>,
                \<lparr>Offset = 1, Hash = b, TxID = True, Duplicate = False\<rparr>]\<rparr>]"
    by (simp add: levelSpec_def leafAt_def siblingLeaf_def getNode_def ctxOf_def)
  then show ?thesis
    by (subst Build_spec) (simp_all add: regOk_def numeral_2_eq_2 [symmetric] l)
qed

theorem Build_Encode_roundtrip_witness:
  "let s = \<lparr>BlockHeight = 9, TreeHeight = 1,
       Paths = [\<lparr>Leaves = [\<lparr>Offset = 0, Hash = replicate 32 1, TxID = False, Duplicate = False\<rparr>,
                          \<lparr>Offset = 1, Hash = replicate 32 2, TxID = True, Duplicate = False\<rparr>]\<rparr>]\<rparr>
   in Build (\<lambda>_ ks. ks) 9 [replicate 32 1, replicate 32 2] [replicate 32 3] [(1, ''tx'')] = Inr (Some s) \<and>
      decodeSTUMP (Encode (Some s) @ [5]) = Some (s, [5])"
  unfolding Let_def
  by (intro conjI Build_two_leaves Build_Encode_roundtrip [OF _ _ _ _ Build_two_leaves [where c = "replicate 32 3"]])
    (simp_all add: regOk_def)

end
