(* ===== verification/Stump_Merge.thy ===== *)
theory Stump_Merge
  imports Stump_Codec
begin

text \<open>
  Determinism of \<open>Build\<close>, the merge of STUMPs of the same subtree as the STUMP of the union of their
  registrations, and the grouping of txids by callback URL.
\<close>

section \<open>Determinism\<close>

text \<open>
  \<open>Build\<close> is deterministic although it iterates over Go maps: any two iteration orders give the
  same STUMP, and only the set of registered indices matters, not the txids stored with them.
\<close>

theorem Build_deterministic:
  assumes "range_order ord" and "range_order ord'" and "regOk leaves reg" and "reg' \<noteq> []"
    and "fst ` set reg = fst ` set reg'"
  shows "Build ord bh leaves inner reg = Build ord' bh leaves inner reg'"
proof -
  have "regOk leaves reg'" using assms(3-5) by (simp add: regOk_def)
  moreover have leaf: "leafAt (ctxOf leaves inner reg) level rc i = leafAt (ctxOf leaves inner reg') level rc i"
    for level rc i
    using assms(5) map_of_eq_None_iff [of reg i] map_of_eq_None_iff [of reg' i]
    by (auto simp: leafAt_def siblingLeaf_def getNode_def Let_def split: option.split)
  have "levelsSpec (ctxOf leaves inner reg) k level rc N = levelsSpec (ctxOf leaves inner reg') k level rc N"
    for k level rc N
    by (induction k arbitrary: level rc N) (simp_all add: levelSpec_def leaf)
  ultimately show ?thesis
    using Build_spec [OF assms(1,3)] Build_spec [OF assms(2)] assms(5) by simp
qed

theorem Build_deterministic_witness:
  "Build (\<lambda>_ ks. ks) 5 [[1], [2], [3]] [[4], [5], [6]] [(0, ''a''), (2, ''b'')] =
   Build (\<lambda>_ ks. rev ks) 5 [[1], [2], [3]] [[4], [5], [6]] [(2, ''c''), (0, ''d'')]"
  by (rule Build_deterministic) (auto simp: regOk_def)

section \<open>Merging\<close>

lemma mergeSeen_fold: "mergeSeen stumps level = fold mergeLeaf (concat (map (levelLeaves level) stumps)) Map.empty"
proof -
  have "foldl (\<lambda>seen s. fold mergeLeaf (levelLeaves level s) seen) m stumps =
      fold mergeLeaf (concat (map (levelLeaves level) stumps)) m" for m
    by (induction stumps arbitrary: m) auto
  then show ?thesis by (simp add: mergeSeen_def)
qed

text \<open>
  Every offered leaf is the target leaf \<open>F k\<close> of its offset or that leaf without its txid flag; the
  map then holds the target wherever it was offered.
\<close>

definition seenInv :: "(u64 \<Rightarrow> Leaf) \<Rightarrow> Leaf set \<Rightarrow> (u64 \<rightharpoonup> Leaf) \<Rightarrow> bool" where
  "seenInv F D m \<longleftrightarrow>
     (\<forall>k. m k = (if k \<in> Offset ` D then Some (if F k \<in> D then F k else (F k)\<lparr>TxID := False\<rparr>) else None))"

lemma seenInv_mergeLeaf:
  assumes "seenInv F D m" and "l = F (Offset l) \<or> l = (F (Offset l))\<lparr>TxID := False\<rparr>"
    and "\<And>k. Offset (F k) = k"
  shows "seenInv F (insert l D) (mergeLeaf l m)"
proof -
  have eq: "\<not> TxID (F k) \<Longrightarrow> (F k)\<lparr>TxID := False\<rparr> = F k" for k by (cases "F k") auto
  have nt: "l = (F (Offset l))\<lparr>TxID := False\<rparr> \<Longrightarrow> \<not> TxID l"
    by (drule arg_cong [where f = TxID]) simp
  have key: "F k \<noteq> l" if "k \<noteq> Offset l" for k using that assms(3) [of k] by auto
  show ?thesis
  proof (cases "Offset l \<in> Offset ` D")
    case True
    then have m: "m (Offset l) = Some (if F (Offset l) \<in> D then F (Offset l) else (F (Offset l))\<lparr>TxID := False\<rparr>)"
      using assms(1) by (simp add: seenInv_def)
    show ?thesis
      unfolding seenInv_def
    proof (rule allI)
      fix k
      show "mergeLeaf l m k = (if k \<in> Offset ` insert l D
          then Some (if F k \<in> insert l D then F k else (F k)\<lparr>TxID := False\<rparr>) else None)"
      proof (cases "k = Offset l")
        case True
        with m assms(2) eq [of k] nt show ?thesis
          by (cases "TxID (F k)"; cases "F k \<in> D") (auto simp: mergeLeaf_def)
      next
        case False
        with assms(1) key [OF False] m show ?thesis
          by (auto simp: mergeLeaf_def seenInv_def)
      qed
    qed
  next
    case False
    then have "m (Offset l) = None" using assms(1) by (simp add: seenInv_def)
    moreover have "F (Offset l) \<notin> D" using False assms(3) by (metis imageI)
    ultimately show ?thesis
      using assms(1,2) key by (auto simp: mergeLeaf_def seenInv_def)
  qed
qed

lemma seenInv_fold:
  assumes "\<And>k. Offset (F k) = k" and "seenInv F D m"
    and "\<forall>l\<in>set ls. l = F (Offset l) \<or> l = (F (Offset l))\<lparr>TxID := False\<rparr>"
  shows "seenInv F (D \<union> set ls) (fold mergeLeaf ls m)"
  using assms(2,3)
proof (induction ls arbitrary: D m)
  case (Cons l ls)
  then have "seenInv F (insert l D) (mergeLeaf l m)"
    using seenInv_mergeLeaf [OF _ _ assms(1)] by simp
  with Cons.IH [of "insert l D" "mergeLeaf l m"] Cons.prems show ?case by simp
qed simp

lemma fold_mergeLeaf:
  assumes "\<And>k. Offset (F k) = k"
    and "\<forall>l\<in>set ls. l = F (Offset l) \<or> l = (F (Offset l))\<lparr>TxID := False\<rparr>"
    and "\<forall>l\<in>set ls. F (Offset l) \<in> set ls" and "k \<in> Offset ` set ls"
  shows "fold mergeLeaf ls Map.empty k = Some (F k)"
proof -
  have "seenInv F {} Map.empty" by (simp add: seenInv_def)
  from seenInv_fold [OF assms(1) this assms(2)] assms(3,4) show ?thesis
    by (auto simp: seenInv_def)
qed

text \<open>A level of the merge is the sorted list of the targets of the offered offsets.\<close>

lemma mergeLevel_targets:
  assumes ord: "range_order ord" and F: "\<And>k. Offset (F k) = k"
    and ls: "ls = concat (map (levelLeaves level) stumps)"
    and "\<forall>l\<in>set ls. l = F (Offset l) \<or> l = (F (Offset l))\<lparr>TxID := False\<rparr>"
    and "\<forall>l\<in>set ls. F (Offset l) \<in> set ls"
    and us: "distinct (map Offset us)" "sorted (map Offset us)" "set us = F ` Offset ` set ls"
  shows "mergeLevel ord stumps level = \<lparr>Leaves = us\<rparr>"
proof -
  let ?keys = "remdups (concat (map (map Offset \<circ> levelLeaves level) stumps))"
  let ?ms = "map (\<lambda>k. the (mergeSeen stumps level k)) (ord level ?keys)"
  have keys: "set ?keys = Offset ` set ls" by (auto simp: ls)
  have "the (mergeSeen stumps level k) = F k" if "k \<in> set ?keys" for k
    using fold_mergeLeaf [OF F assms(4,5), of k] that [unfolded keys]
    by (simp add: mergeSeen_fold ls [symmetric])
  then have ms: "?ms = map F (ord level ?keys)" using ord by (intro map_cong) auto
  have "map Offset ?ms = ord level ?keys" unfolding ms by (simp add: F o_def)
  then have d: "distinct (map Offset ?ms)" using ord by simp
  have "set ?ms = set us" unfolding ms us(3) using ord keys by simp
  moreover have "distinct ?ms" "distinct us" using d us(1) by (blast dest: distinct_mapI)+
  ultimately have "mset ?ms = mset us" by (simp only: set_eq_iff_mset_eq_distinct)
  then have "sort_key Offset ?ms = sort_key Offset us" using d by (rule sort_key_unique)
  also have "\<dots> = us" using us(2) by (simp add: sort_key_id_if_sorted)
  finally show ?thesis by (simp only: mergeLevel_def Let_def)
qed

text \<open>The leaves of a STUMP with fewer registrations are those of one with more, up to the flag.\<close>

lemma leafAt_mono:
  assumes "fst ` set reg \<subseteq> fst ` set regU" and "fst ` set regU \<subseteq> {..<length leaves}"
    and "level = 0 \<Longrightarrow> rc = length leaves"
    and "l = leafAt (ctxOf leaves inner reg) level rc i"
    and "u = leafAt (ctxOf leaves inner regU) level rc i"
  shows "l = u \<or> l = u\<lparr>TxID := False\<rparr>"
    and "0 < level \<or> i \<in> fst ` set reg \<or> i \<notin> fst ` set regU \<Longrightarrow> l = u"
  using assms(1-3) map_of_eq_None_iff [of reg i] map_of_eq_None_iff [of regU i]
  unfolding assms(4,5)
  by (auto simp: leafAt_def siblingLeaf_def getNode_def Let_def split: option.split)

lemma levelOffsets_UN: "levelOffsets level (\<Union>i\<in>I. N i) = (\<Union>i\<in>I. levelOffsets level (N i))"
  by (auto simp: levelOffsets_def)

text \<open>The indices on the paths of the registered leaves.\<close>

definition pathIdx :: "nat \<Rightarrow> (nat \<times> string) list \<Rightarrow> nat set" where
  "pathIdx level reg = (\<lambda>i. i div 2 ^ level) ` fst ` set reg"

lemma finite_pathIdx [simp]: "finite (pathIdx level reg)"
  by (simp add: pathIdx_def)

lemma pathIdx_concat: "pathIdx level (concat regs) = (\<Union>r\<in>set regs. pathIdx level r)"
  by (auto simp: pathIdx_def)

lemma pathIdx_0 [simp]: "pathIdx 0 reg = fst ` set reg"
  by (simp add: pathIdx_def)

lemma pathIdx_bound: "regOk leaves reg \<Longrightarrow> pathIdx level reg \<subseteq> {..<2 ^ 63}"
  by (fastforce simp: pathIdx_def regOk_def intro: le_less_trans [OF div_le_dividend])

lemma regOk_concat: "\<forall>r\<in>set regs. regOk leaves r \<Longrightarrow> regs \<noteq> [] \<Longrightarrow> regOk leaves (concat regs)"
  by (cases regs) (fastforce simp: regOk_def)+

lemma mergeLevel_spec:
  assumes ord: "range_order ord" and regs: "\<forall>r\<in>set regs. regOk leaves r" "regs \<noteq> []"
    and S: "\<And>r. r \<in> set regs \<Longrightarrow> levelLeaves level (S r) =
        Leaves (levelSpec (ctxOf leaves inner r) level rc (pathIdx level r))"
    and rc: "level = 0 \<Longrightarrow> rc = length leaves"
  shows "mergeLevel ord (map S regs) level =
     levelSpec (ctxOf leaves inner (concat regs)) level rc (pathIdx level (concat regs))"
proof -
  let ?U = "concat regs" and ?c = "ctxOf leaves inner" and ?os = "\<lambda>r. levelOffsets level (pathIdx level r)"
  let ?leaf = "\<lambda>r. leafAt (?c r) level rc"
  let ?ls = "concat (map (levelLeaves level) (map S regs))"
  define F where "F = (\<lambda>k :: u64. ?leaf ?U (unat k))"
  have U: "regOk leaves ?U" using regOk_concat [OF regs] .
  have bU: "pathIdx level ?U \<subseteq> {..<2 ^ 63}" using pathIdx_bound [OF U] .
  have osU: "?os ?U = (\<Union>r\<in>set regs. ?os r)" by (simp only: pathIdx_concat levelOffsets_UN)
  have small: "i < 2 ^ 63" if "i \<in> ?os ?U" for i
    using that levelOffsets_bound [of "pathIdx level ?U" 62 level] bU by auto
  have F: "F (of_nat i) = ?leaf ?U i" if "i \<in> ?os ?U" for i
    using small [OF that] by (simp add: F_def unat_of_nat)
  have "set (levelLeaves level (S r)) = ?leaf r ` ?os r" if "r \<in> set regs" for r
    using S [OF that] levelSpec_offsets(4) [OF finite_pathIdx pathIdx_bound [of leaves r level]] regs(1) that
    by simp
  then have ls: "set ?ls = (\<Union>r\<in>set regs. ?leaf r ` ?os r)" by simp
  have sub: "fst ` set r \<subseteq> fst ` set ?U" "fst ` set ?U \<subseteq> {..<length leaves}" if "r \<in> set regs" for r
    using that U by (auto simp: regOk_def)
  have 1: "l = F (Offset l) \<or> l = (F (Offset l))\<lparr>TxID := False\<rparr>"
    and 2: "F (Offset l) \<in> set ?ls" if l: "l \<in> set ?ls" for l
  proof -
    from l obtain r i where r: "r \<in> set regs" "i \<in> ?os r" "l = ?leaf r i" unfolding ls by blast
    then have Fi: "F (Offset l) = ?leaf ?U i" using F osU by auto
    show "l = F (Offset l) \<or> l = (F (Offset l))\<lparr>TxID := False\<rparr>"
      using leafAt_mono(1) [OF sub [OF r(1)] rc r(3) Fi] by blast
    show "F (Offset l) \<in> set ?ls"
    proof (cases "level = 0 \<and> i \<in> fst ` set ?U")
      case True
      then obtain r' where r': "r' \<in> set regs" "i \<in> fst ` set r'" by auto
      then have "i \<in> ?os r'" using True by (simp add: levelOffsets_def)
      moreover have "?leaf r' i = F (Offset l)"
        using leafAt_mono(2) [OF sub [OF r'(1)] rc refl Fi] r'(2) by blast
      ultimately show ?thesis using r'(1) unfolding ls by force
    next
      case False
      then have "0 < level \<or> i \<in> fst ` set r \<or> i \<notin> fst ` set ?U" by auto
      then have "?leaf r i = F (Offset l)" using leafAt_mono(2) [OF sub [OF r(1)] rc refl Fi] by simp
      then have "F (Offset l) \<in> ?leaf r ` ?os r" by (metis r(2) imageI)
      then show ?thesis unfolding ls by (rule UN_I [OF r(1)])
    qed
  qed
  have "F ` Offset ` set ?ls = ?leaf ?U ` ?os ?U"
    unfolding ls osU using F osU by (force simp: image_UN)
  then have "mergeLevel ord (map S regs) level =
      \<lparr>Leaves = Leaves (levelSpec (?c ?U) level rc (pathIdx level ?U))\<rparr>"
    using levelSpec_offsets [OF finite_pathIdx bU] 1 2
    by (intro mergeLevel_targets [OF ord, of F ?ls]) (auto simp: F_def)
  then show ?thesis by simp
qed

lemma levelLeaves_levelsSpec:
  "level < h \<Longrightarrow>
   levelLeaves level \<lparr>BlockHeight = bh, TreeHeight = th, Paths = levelsSpec c h 0 rc (fst ` set reg)\<rparr> =
     Leaves (levelSpec c level (width rc level) (pathIdx level reg))"
  by (simp add: levelLeaves_def levelsSpec_nth pathIdx_def)

text \<open>
  C29: Merging the STUMPs that \<open>Build\<close> made of the same subtree for several sets of registered
  leaves gives the STUMP that \<open>Build\<close> makes for all of them together; in particular the merge
  loses no proof and no txid flag.
\<close>

theorem MergeSTUMPs_union:
  assumes "range_order ord" and "range_order ord'" and "regs \<noteq> []" and "\<forall>r\<in>set regs. regOk leaves r"
    and "\<forall>r\<in>set regs. Build ord bh leaves inner r = Inr (Some (S r))"
  shows "Build ord bh leaves inner (concat regs) = Inr (MergeSTUMPs ord' (map S regs))"
proof (cases "tl regs")
  case Nil
  with assms(3) obtain r where "regs = [r]" by (cases regs) auto
  with assms(5) show ?thesis by (simp add: MergeSTUMPs_def)
next
  case (Cons r' rs)
  with assms(3) obtain r where regs: "regs = r # r' # rs" by (cases regs) auto
  let ?h = "levels (length leaves)" and ?c = "ctxOf leaves inner"
  have S: "S q = \<lparr>BlockHeight = bh, TreeHeight = of_nat ?h,
      Paths = levelsSpec (?c q) ?h 0 (length leaves) (fst ` set q)\<rparr>" if "q \<in> set regs" for q
    using that assms(4,5) Build_spec [OF assms(1), of leaves q bh inner] by simp
  have "length leaves \<le> 2 ^ 62" using assms(4) regs by (auto simp: regOk_def)
  then have h: "unat (of_nat ?h :: u8) = ?h" using levels_bound [of "length leaves" 62] by (simp add: unat_of_nat)
  have "map (mergeLevel ord' (map S regs)) [0..<?h] =
      levelsSpec (?c (concat regs)) ?h 0 (length leaves) (fst ` set (concat regs))"
  proof (rule nth_equalityI)
    fix j assume "j < length (map (mergeLevel ord' (map S regs)) [0..<?h])"
    then have j: "j < ?h" by simp
    have "mergeLevel ord' (map S regs) j =
        levelSpec (?c (concat regs)) j (width (length leaves) j) (pathIdx j (concat regs))"
      using S levelLeaves_levelsSpec [OF j] by (intro mergeLevel_spec [OF assms(2,4,3)]) auto
    also have "\<dots> = levelsSpec (?c (concat regs)) ?h 0 (length leaves) (fst ` set (concat regs)) ! j"
      unfolding levelsSpec_nth [OF j] by (simp add: pathIdx_def)
    finally show "map (mergeLevel ord' (map S regs)) [0..<?h] ! j =
        levelsSpec (?c (concat regs)) ?h 0 (length leaves) (fst ` set (concat regs)) ! j"
      using j by simp
  qed simp
  then show ?thesis
    using Build_spec [OF assms(1) regOk_concat [OF assms(4,3)], of bh inner] S [of r] h
    by (simp add: MergeSTUMPs_def regs)
qed

lemma Build_two_leaves':
  "Build (\<lambda>_ ks. ks) 9 [a, b] [c] [(0, tx)] =
     Inr (Some \<lparr>BlockHeight = 9, TreeHeight = 1,
       Paths = [\<lparr>Leaves = [\<lparr>Offset = 0, Hash = a, TxID = True, Duplicate = False\<rparr>,
                          \<lparr>Offset = 1, Hash = b, TxID = False, Duplicate = False\<rparr>]\<rparr>]\<rparr>)"
proof -
  have l: "levels 2 = 1" by (rule levels_eqI) simp_all
  have "levelOffsets 0 {0} = {0, 1}" by (auto simp: levelOffsets_def)
  then have "levelsSpec (ctxOf [a, b] [c] [(0, tx)]) 1 0 2 {0} =
      [\<lparr>Leaves = [\<lparr>Offset = 0, Hash = a, TxID = True, Duplicate = False\<rparr>,
                \<lparr>Offset = 1, Hash = b, TxID = False, Duplicate = False\<rparr>]\<rparr>]"
    by (simp add: levelSpec_def leafAt_def siblingLeaf_def getNode_def ctxOf_def)
  then show ?thesis
    by (subst Build_spec) (simp_all add: regOk_def numeral_2_eq_2 [symmetric] l)
qed

theorem MergeSTUMPs_union_witness:
  "let level = (\<lambda>x y. [\<lparr>Leaves = [\<lparr>Offset = 0, Hash = [1], TxID = x, Duplicate = False\<rparr>,
                          \<lparr>Offset = 1, Hash = [2], TxID = y, Duplicate = False\<rparr>]\<rparr>]);
       S = (\<lambda>r. \<lparr>BlockHeight = 9, TreeHeight = 1,
                 Paths = level (r = [(0, ''a'')]) (r = [(1, ''b'')])\<rparr>)
   in Build (\<lambda>_ ks. ks) 9 [[1], [2]] [[3]] [(0, ''a''), (1, ''b'')] =
        Inr (MergeSTUMPs (\<lambda>_ ks. rev ks) [S [(0, ''a'')], S [(1, ''b'')]])"
  unfolding Let_def
  using MergeSTUMPs_union [where regs = "[[(0, ''a'')], [(1, ''b'')]]" and ord = "\<lambda>_ ks. ks"
      and ord' = "\<lambda>_ ks. rev ks" and bh = 9 and leaves = "[[1], [2]]" and inner = "[[3]]"
      and S = "\<lambda>r. \<lparr>BlockHeight = 9, TreeHeight = 1, Paths =
          [\<lparr>Leaves = [\<lparr>Offset = 0, Hash = [1], TxID = (r = [(0, ''a'')]), Duplicate = False\<rparr>,
                    \<lparr>Offset = 1, Hash = [2], TxID = (r = [(1, ''b'')]), Duplicate = False\<rparr>]\<rparr>]\<rparr>"]
  by (simp add: regOk_def Build_two_leaves Build_two_leaves' del: One_nat_def)

section \<open>Grouping\<close>

lemma fold_addToGroup:
  "fold (addToGroup txid) cbs m url =
     (if url \<in> set cbs
      then Some ((case m url of None \<Rightarrow> [] | Some ts \<Rightarrow> ts) @ map (\<lambda>_. txid) (filter (\<lambda>cb. cb = url) cbs))
      else m url)"
  by (induction cbs arbitrary: m) (auto simp: addToGroup_def filter_empty_conv split: option.splits)

text \<open>The txids of a URL in the order of the visit, one occurrence per registration.\<close>

definition txidsOf :: "(string \<times> string list) list \<Rightarrow> string \<Rightarrow> string list" where
  "txidsOf regs url = concat (map (\<lambda>(txid, cbs). map (\<lambda>_. txid) (filter (\<lambda>cb. cb = url) cbs)) regs)"

lemma txidsOf_simps [simp]:
  "txidsOf [] url = []"
  "txidsOf ((txid, cbs) # regs) url = map (\<lambda>_. txid) (filter (\<lambda>cb. cb = url) cbs) @ txidsOf regs url"
  by (simp_all add: txidsOf_def)

lemma foldl_GroupByCallback:
  "foldl (\<lambda>m (txid, cbs). fold (addToGroup txid) cbs m) m regs url =
     (if txidsOf regs url = [] then m url
      else Some ((case m url of None \<Rightarrow> [] | Some ts \<Rightarrow> ts) @ txidsOf regs url))"
proof (induction regs arbitrary: m)
  case (Cons r regs)
  obtain txid cbs where r: "r = (txid, cbs)" by (cases r)
  show ?case
  proof (cases "url \<in> set cbs")
    case True
    then have "filter (\<lambda>cb. cb = url) cbs \<noteq> []" by (auto simp: filter_empty_conv)
    with True Cons show ?thesis by (simp add: r fold_addToGroup split: option.split)
  next
    case False
    then have "filter (\<lambda>cb. cb = url) cbs = []" by (auto simp: filter_empty_conv)
    with False Cons show ?thesis by (simp add: r fold_addToGroup)
  qed
qed simp

lemma GroupByCallback_txidsOf:
  "GroupByCallback regs url = (if txidsOf regs url = [] then None else Some (txidsOf regs url))"
  by (simp add: GroupByCallback_def foldl_GroupByCallback)

lemma set_txidsOf: "set (txidsOf regs url) = {txid. \<exists>cbs. (txid, cbs) \<in> set regs \<and> url \<in> set cbs}"
  by (fastforce simp: txidsOf_def)

lemma filter_eq_distinct: "distinct xs \<Longrightarrow> filter (\<lambda>x. x = a) xs = (if a \<in> set xs then [a] else [])"
  by (induction xs) auto

lemma distinct_txidsOf:
  assumes "distinct (map fst regs)" and "\<forall>(txid, cbs) \<in> set regs. distinct cbs"
  shows "distinct (txidsOf regs url)"
  using assms
proof (induction regs)
  case (Cons r regs)
  obtain txid cbs where r: "r = (txid, cbs)" by (cases r)
  have "distinct (map (\<lambda>_. txid) (filter (\<lambda>cb. cb = url) cbs))"
    using Cons.prems(2) filter_eq_distinct [of cbs url] by (simp add: r)
  moreover have "txid \<notin> set (txidsOf regs url)" using Cons.prems(1) by (force simp: r set_txidsOf)
  ultimately show ?case using Cons by (auto simp: r)
qed simp

text \<open>
  \<open>GroupByCallback\<close> inverts the registration map: a callback URL is a key of the result exactly
  when some txid is registered with it, and its group lists every registration of a txid with this
  URL once and nothing else, so no callback is lost and none goes to a URL that did not ask for it.
\<close>

theorem GroupByCallback_groups:
  "GroupByCallback regs url = (if txidsOf regs url = [] then None else Some (txidsOf regs url)) \<and>
   set (txidsOf regs url) = {txid. \<exists>cbs. (txid, cbs) \<in> set regs \<and> url \<in> set cbs} \<and>
   length (txidsOf regs url) = (\<Sum>(txid, cbs)\<leftarrow>regs. count_list cbs url)"
proof (intro conjI)
  show "GroupByCallback regs url = (if txidsOf regs url = [] then None else Some (txidsOf regs url))"
    by (rule GroupByCallback_txidsOf)
  show "set (txidsOf regs url) = {txid. \<exists>cbs. (txid, cbs) \<in> set regs \<and> url \<in> set cbs}"
    by (rule set_txidsOf)
  have "length (filter (\<lambda>cb. cb = url) cbs) = count_list cbs url" for cbs
    by (induction cbs) auto
  then show "length (txidsOf regs url) = (\<Sum>(txid, cbs)\<leftarrow>regs. count_list cbs url)"
    by (induction regs) (auto simp: txidsOf_def)
qed

end
