(* ===== verification/Dedup_Cache.thy ===== *)
theory Dedup_Cache
  imports Prelude "HOL-Library.AList"
begin

text \<open>
  The bounded LRU set of \<^verbatim>\<open>internal/cache/dedup_cache.go\<close> that suppresses messages which were already
  processed. The Go map of list elements is an association list from keys to element identities, the
  doubly linked list of \<^verbatim>\<open>container/list\<close> the list of its elements from front to back. The interface
  the processors rely on is the locale \<open>lru_set\<close>, with the recency list of the keys as abstract state.
\<close>

section \<open>Data model\<close>

record DedupCache =
  maxSize :: int
  items :: "(string \<times> nat) list"
  eviction :: "(nat \<times> string) list"
  nextElem :: nat

definition NewDedupCache :: "int \<Rightarrow> DedupCache" where
  "NewDedupCache n =
     \<lparr>maxSize = (if n \<le> 0 then 1 else n), items = [], eviction = [], nextElem = 0\<rparr>"

section \<open>Operations\<close>

text \<open>\<open>MoveToFront\<close> of the element with a given identity.\<close>

definition moveToFront :: "nat \<Rightarrow> (nat \<times> string) list \<Rightarrow> (nat \<times> string) list" where
  "moveToFront e l =
     (case List.find (\<lambda>x. fst x = e) l of
        None \<Rightarrow> l
      | Some x \<Rightarrow> x # filter (\<lambda>y. fst y \<noteq> e) l)"

text \<open>The eviction loop: drops elements from the back while the list is full.\<close>

function evictLoop :: "DedupCache \<Rightarrow> DedupCache" where
  "evictLoop c =
     (if int (length (eviction c)) \<ge> maxSize c then
        (if eviction c = [] then c
         else
           (let back = last (eviction c); evictedKey = snd back
            in evictLoop (c\<lparr>eviction := butlast (eviction c),
                           items := AList.delete evictedKey (items c)\<rparr>)))
      else c)"
  by pat_completeness auto
termination
  by (relation "measure (\<lambda>c. length (eviction c))") auto

declare evictLoop.simps [simp del]

definition Add :: "string \<Rightarrow> DedupCache \<Rightarrow> bool \<times> DedupCache" where
  "Add key c =
     (case map_of (items c) key of
        Some e \<Rightarrow> (False, c\<lparr>eviction := moveToFront e (eviction c)\<rparr>)
      | None \<Rightarrow>
          (let c = evictLoop c;
               e = nextElem c
           in (True, c\<lparr>eviction := (e, key) # eviction c,
                       items := AList.update key e (items c),
                       nextElem := e + 1\<rparr>)))"

definition Contains :: "string \<Rightarrow> DedupCache \<Rightarrow> bool" where
  "Contains key c = (map_of (items c) key \<noteq> None)"

definition Len :: "DedupCache \<Rightarrow> nat" where
  "Len c = length (items c)"

section \<open>The abstract LRU set\<close>

text \<open>The keys, most recently used first.\<close>

definition lru_add :: "nat \<Rightarrow> 'k \<Rightarrow> 'k list \<Rightarrow> bool \<times> 'k list" where
  "lru_add cap key ks =
     (if key \<in> set ks then (False, key # remove1 key ks) else (True, key # take (cap - 1) ks))"

lemma takeWhile_append_notin: "k \<notin> set xs \<Longrightarrow> takeWhile (\<lambda>x. x \<noteq> k) (xs @ k # ys) = xs"
  by (induction xs) auto

text \<open>The keys that were used after \<open>k\<close>.\<close>

abbreviation newer :: "'k \<Rightarrow> 'k list \<Rightarrow> 'k list" where
  "newer k ks \<equiv> takeWhile (\<lambda>x. x \<noteq> k) ks"

lemma newer_split: "k \<in> set ks \<Longrightarrow> \<exists>old. ks = newer k ks @ k # old"
  by (induction ks) auto

lemma lru_add_newer:
  assumes "k \<in> set ks" and "distinct ks" and "x \<in> set ks \<or> length (newer k ks) + 1 < cap"
  defines "ks' \<equiv> snd (lru_add cap x ks)"
  shows "k \<in> set ks' \<and> set (newer k ks') \<subseteq> insert x (set (newer k ks)) - {k}"
proof -
  obtain old where ks: "ks = newer k ks @ k # old" using newer_split [OF assms(1)] by blast
  have k: "k \<notin> set (newer k ks)" by (auto dest: set_takeWhileD)
  consider "x = k" | "x \<noteq> k" "x \<in> set ks" | "x \<noteq> k" "x \<notin> set ks" by blast
  then show ?thesis
  proof cases
    case 1
    with assms(1) show ?thesis by (auto simp: ks'_def lru_add_def)
  next
    case 2
    have k1: "k \<notin> set (remove1 x (newer k ks))" using k notin_set_remove1 by fast
    have "remove1 x ks = remove1 x (newer k ks) @ k # (if x \<in> set (newer k ks) then old else remove1 x old)"
      using 2 by (subst ks) (simp add: remove1_append remove1_idem)
    then have "newer k (remove1 x ks) = remove1 x (newer k ks)" "k \<in> set (remove1 x ks)"
      using takeWhile_append_notin [OF k1] by simp_all
    with 2 set_remove1_subset [of x "newer k ks"] k1 show ?thesis by (auto simp: ks'_def lru_add_def)
  next
    case 3
    have "take (cap - 1) ks = newer k ks @ k # take (cap - 1 - length (newer k ks) - 1) old"
      using assms(3) 3 by (subst ks, subst take_append) (auto simp: take_Cons')
    then have "newer k (take (cap - 1) ks) = newer k ks" "k \<in> set (take (cap - 1) ks)"
      using takeWhile_append_notin [OF k] by simp_all
    with 3 k show ?thesis by (auto simp: ks'_def lru_add_def)
  qed
qed

lemma lru_add_distinct:
  assumes "distinct ks"
  shows "distinct (snd (lru_add cap x ks))"
  using assms by (auto simp: lru_add_def dest: in_set_takeD)

lemma lru_add_length:
  assumes "length ks \<le> cap" and "1 \<le> cap"
  shows "length (snd (lru_add cap x ks)) \<le> cap"
proof (cases "x \<in> set ks")
  case True
  then have "0 < length ks" by auto
  with assms True show ?thesis by (simp add: lru_add_def length_remove1)
qed (use assms in \<open>auto simp: lru_add_def\<close>)

section \<open>The interface\<close>

locale lru_set =
  fixes invar :: "'s \<Rightarrow> bool" and keys :: "'s \<Rightarrow> 'k list" and cap :: "'s \<Rightarrow> nat"
    and add :: "'k \<Rightarrow> 's \<Rightarrow> bool \<times> 's" and contains :: "'k \<Rightarrow> 's \<Rightarrow> bool"
  assumes keys_distinct: "invar s \<Longrightarrow> distinct (keys s)"
    and add_invar: "invar s \<Longrightarrow> invar (snd (add k s))"
    and add_cap: "invar s \<Longrightarrow> cap (snd (add k s)) = cap s"
    and add_keys: "invar s \<Longrightarrow> (fst (add k s), keys (snd (add k s))) = lru_add (cap s) k (keys s)"
    and contains_keys: "invar s \<Longrightarrow> contains k s \<longleftrightarrow> k \<in> set (keys s)"
begin

lemma add_result: "invar s \<Longrightarrow> fst (add k s) \<longleftrightarrow> \<not> contains k s"
  using add_keys [of s k] by (auto simp: lru_add_def contains_keys split: if_splits)

lemma keys_add: "invar s \<Longrightarrow> keys (snd (add k s)) = snd (lru_add (cap s) k (keys s))"
  using add_keys [of s k] by (metis snd_conv)

lemma contains_add: "invar s \<Longrightarrow> contains k (snd (add k s))"
  by (simp add: contains_keys add_invar keys_add) (simp add: lru_add_def)

lemma add_step:
  assumes "invar s" and "k \<in> set (keys s)" and "set (newer k (keys s)) \<subseteq> A" and "finite A"
    and "card (insert x A - {k}) < cap s"
  shows "k \<in> set (keys (snd (add x s))) \<and> set (newer k (keys (snd (add x s)))) \<subseteq> insert x A - {k}"
proof -
  let ?n = "newer k (keys s)"
  have "distinct ?n" using keys_distinct [OF assms(1)] by simp
  have "x \<in> set (keys s) \<or> length ?n + 1 < cap s"
  proof (rule disjCI)
    assume "\<not> length ?n + 1 < cap s"
    show "x \<in> set (keys s)"
    proof (rule ccontr)
      assume x: "x \<notin> set (keys s)"
      with assms(2) have "x \<noteq> k" by auto
      from x have "x \<notin> set ?n" by (auto dest: set_takeWhileD)
      then have "card (insert x (set ?n)) = length ?n + 1"
        using \<open>distinct ?n\<close> by (simp add: distinct_card)
      moreover have "insert x (set ?n) \<subseteq> insert x A - {k}"
        using assms(3) \<open>x \<noteq> k\<close> by (auto dest: set_takeWhileD)
      ultimately have "length ?n + 1 \<le> card (insert x A - {k})"
        using assms(4) card_mono [of "insert x A - {k}" "insert x (set ?n)"] by simp
      with assms(5) \<open>\<not> length ?n + 1 < cap s\<close> show False by simp
    qed
  qed
  from lru_add_newer [OF assms(2) keys_distinct [OF assms(1)] this] assms(3) show ?thesis
    unfolding keys_add [OF assms(1)] by blast
qed

lemma window_invariant:
  assumes "invar s" and "k \<in> set (keys s)" and "set (newer k (keys s)) \<subseteq> A" and "finite A"
    and "card ((A \<union> set ys) - {k}) < cap s"
  shows "k \<in> set (keys (fold (\<lambda>y s. snd (add y s)) ys s)) \<and> invar (fold (\<lambda>y s. snd (add y s)) ys s)"
  using assms
proof (induction ys arbitrary: s A)
  case (Cons x ys)
  have "card (insert x A - {k}) \<le> card (A \<union> set (x # ys) - {k})"
    using Cons.prems(4) by (intro card_mono) auto
  then have "card (insert x A - {k}) < cap s" using Cons.prems(5) by linarith
  from add_step [OF Cons.prems(1-4) this]
  have step: "k \<in> set (keys (snd (add x s)))" "set (newer k (keys (snd (add x s)))) \<subseteq> insert x A - {k}"
    by auto
  have "insert x A - {k} \<union> set ys - {k} = A \<union> set (x # ys) - {k}" by auto
  then show ?case
    using Cons.IH [of "snd (add x s)" "insert x A - {k}"] step Cons.prems add_invar add_cap by simp
qed simp

lemma window:
  assumes "invar s" and "card (set ys - {k}) < cap s"
  shows "contains k (fold (\<lambda>y s. snd (add y s)) ys (snd (add k s)))"
proof -
  have hd: "\<exists>r. keys (snd (add k s)) = k # r"
    by (simp add: keys_add [OF assms(1)] lru_add_def)
  then have "k \<in> set (keys (snd (add k s)))" "set (newer k (keys (snd (add k s)))) \<subseteq> {}" by auto
  from window_invariant [OF add_invar [OF assms(1)] this] show ?thesis
    using assms contains_keys by (simp add: add_cap)
qed

end

section \<open>The cache implements the LRU set\<close>

abbreviation cacheKeys :: "DedupCache \<Rightarrow> string list" where
  "cacheKeys c \<equiv> map snd (eviction c)"

definition dedup_invar :: "DedupCache \<Rightarrow> bool" where
  "dedup_invar c \<longleftrightarrow>
     1 \<le> maxSize c \<and> int (length (eviction c)) \<le> maxSize c \<and>
     distinct (map fst (eviction c)) \<and> distinct (cacheKeys c) \<and>
     distinct (map fst (items c)) \<and> (\<forall>k e. map_of (items c) k = Some e \<longleftrightarrow> (e, k) \<in> set (eviction c)) \<and>
     (\<forall>x\<in>set (eviction c). fst x < nextElem c)"

lemma dedup_invar_New: "dedup_invar (NewDedupCache n)"
  by (simp add: dedup_invar_def NewDedupCache_def)

lemma items_lookup:
  assumes "dedup_invar c"
  shows "map_of (items c) k = Some e \<longleftrightarrow> (e, k) \<in> set (eviction c)"
  using assms by (simp add: dedup_invar_def)

lemma Contains_keys: "dedup_invar c \<Longrightarrow> Contains k c \<longleftrightarrow> k \<in> set (cacheKeys c)"
  using items_lookup [of c k] by (force simp: Contains_def)

lemma Len_keys:
  assumes "dedup_invar c"
  shows "Len c = length (cacheKeys c)"
proof -
  have "dom (map_of (items c)) = set (cacheKeys c)" using items_lookup [OF assms] by force
  moreover have "distinct (map fst (items c))" "distinct (cacheKeys c)" using assms by (auto simp: dedup_invar_def)
  ultimately have "card (set (map fst (items c))) = length (cacheKeys c)"
    by (simp add: dom_map_of_conv_image_fst distinct_card [of "cacheKeys c", simplified])
  then show ?thesis
    using distinct_card [OF \<open>distinct (map fst (items c))\<close>] by (simp add: Len_def)
qed

lemma evictLoop_full:
  assumes "dedup_invar c"
  shows "evictLoop c =
    (if int (length (eviction c)) = maxSize c
     then c\<lparr>eviction := butlast (eviction c), items := AList.delete (snd (last (eviction c))) (items c)\<rparr>
     else c)"
proof -
  let ?c = "c\<lparr>eviction := butlast (eviction c), items := AList.delete (snd (last (eviction c))) (items c)\<rparr>"
  have "int (length (eviction c)) \<le> maxSize c" "1 \<le> maxSize c" using assms by (auto simp: dedup_invar_def)
  moreover from this have "evictLoop ?c = ?c" if "int (length (eviction c)) = maxSize c"
    using that by (subst evictLoop.simps) auto
  ultimately show ?thesis by (subst evictLoop.simps) (auto simp: Let_def)
qed

lemma dedup_invar_evict:
  assumes "dedup_invar c" and "eviction c \<noteq> []"
  shows "dedup_invar (c\<lparr>eviction := butlast (eviction c), items := AList.delete (snd (last (eviction c))) (items c)\<rparr>)"
proof -
  obtain l e k where c: "eviction c = l @ [(e, k)]"
    using assms(2) by (metis append_butlast_last_id surj_pair)
  have d: "k \<notin> snd ` set l" "e \<notin> fst ` set l" using assms(1) by (auto simp: dedup_invar_def c)
  have "map_of (AList.delete k (items c)) k' = Some e' \<longleftrightarrow> (e', k') \<in> set l" for k' e'
    using items_lookup [OF assms(1), of k' e'] d by (auto simp: AList.delete_conv' c image_iff)
  with assms(1) show ?thesis
    by (simp add: dedup_invar_def c distinct_delete)
qed

lemma evictLoop_invar:
  assumes "dedup_invar c"
  shows "dedup_invar (evictLoop c) \<and> cacheKeys (evictLoop c) = take (nat (maxSize c) - 1) (cacheKeys c) \<and>
         maxSize (evictLoop c) = maxSize c \<and> int (length (eviction (evictLoop c))) < maxSize c \<and>
         nextElem (evictLoop c) = nextElem c"
proof (cases "int (length (eviction c)) = maxSize c")
  case True
  have "1 \<le> maxSize c" using assms by (simp add: dedup_invar_def)
  with True have "eviction c \<noteq> []" by auto
  moreover have "nat (maxSize c) - 1 = length (eviction c) - 1" using True by (metis nat_int)
  ultimately show ?thesis
    using dedup_invar_evict [OF assms] True
    by (cases "eviction c" rule: rev_cases) (auto simp: evictLoop_full [OF assms])
next
  case False
  with assms show ?thesis by (auto simp: evictLoop_full [OF assms] dedup_invar_def)
qed

lemma dedup_invar_push:
  assumes "dedup_invar c" and "int (length (eviction c)) < maxSize c" and "k \<notin> set (cacheKeys c)"
  shows "dedup_invar (c\<lparr>eviction := (nextElem c, k) # eviction c,
           items := AList.update k (nextElem c) (items c), nextElem := nextElem c + 1\<rparr>)"
proof -
  have "map_of (AList.update k (nextElem c) (items c)) k' = Some e' \<longleftrightarrow>
      (e', k') \<in> set ((nextElem c, k) # eviction c)" for k' e'
    using items_lookup [OF assms(1), of k' e'] assms(3) by (auto simp: AList.update_conv' image_iff)
  with assms show ?thesis
    by (auto simp: dedup_invar_def distinct_update)
qed

lemma moveToFront_split:
  assumes "distinct (map fst (l @ (e, k) # r))"
  shows "moveToFront e (l @ (e, k) # r) = (e, k) # l @ r"
proof -
  have "List.find (\<lambda>x. fst x = e) (l @ (e, k) # r) = Some (e, k)"
    using assms by (induction l) auto
  moreover have "filter (\<lambda>y. fst y \<noteq> e) l = l" "filter (\<lambda>y. fst y \<noteq> e) r = r"
    using assms by (auto simp: filter_id_conv)
  ultimately show ?thesis by (simp add: moveToFront_def)
qed

lemma Add_hit:
  assumes "dedup_invar c" and "map_of (items c) k = Some e"
  shows "dedup_invar (snd (Add k c)) \<and> cacheKeys (snd (Add k c)) = k # remove1 k (cacheKeys c)"
proof -
  have "(e, k) \<in> set (eviction c)" using items_lookup [OF assms(1)] assms(2) by simp
  then obtain l r where c: "eviction c = l @ (e, k) # r" by (meson split_list)
  have d: "distinct (map fst (l @ (e, k) # r))" "k \<notin> snd ` set l"
    using assms(1) by (auto simp: dedup_invar_def c)
  have "moveToFront e (eviction c) = (e, k) # l @ r" using moveToFront_split [OF d(1)] by (simp add: c)
  then have A: "snd (Add k c) = c\<lparr>eviction := (e, k) # l @ r\<rparr>" by (simp add: Add_def assms(2))
  show ?thesis
    unfolding A using assms(1) d(2) by (auto simp: dedup_invar_def c remove1_append)
qed

lemma Add_miss:
  assumes "dedup_invar c" and "map_of (items c) k = None"
  shows "dedup_invar (snd (Add k c)) \<and> cacheKeys (snd (Add k c)) = k # take (nat (maxSize c) - 1) (cacheKeys c)"
proof -
  have "k \<notin> set (cacheKeys c)" using Contains_keys [OF assms(1), of k] assms(2) by (simp add: Contains_def)
  then have "k \<notin> set (cacheKeys (evictLoop c))"
    using evictLoop_invar [OF assms(1)] by (metis in_set_takeD)
  with dedup_invar_push [of "evictLoop c" k] evictLoop_invar [OF assms(1)] show ?thesis
    by (simp add: Add_def assms(2) Let_def)
qed

lemma maxSize_Add: "maxSize (snd (Add k c)) = maxSize c"
proof -
  have "maxSize (evictLoop c) = maxSize c"
    by (induction c rule: evictLoop.induct) (subst evictLoop.simps, simp add: Let_def)
  then show ?thesis by (simp add: Add_def Let_def split: option.split)
qed

interpretation dedup: lru_set dedup_invar cacheKeys "\<lambda>c. nat (maxSize c)" Add Contains
proof
  fix c :: DedupCache and k
  assume c: "dedup_invar c"
  show "distinct (cacheKeys c)" using c by (simp add: dedup_invar_def)
  show "dedup_invar (snd (Add k c))" using Add_hit [OF c] Add_miss [OF c] by (cases "map_of (items c) k") auto
  show "nat (maxSize (snd (Add k c))) = nat (maxSize c)" by (simp add: maxSize_Add)
  show ck: "Contains k c \<longleftrightarrow> k \<in> set (cacheKeys c)" by (rule Contains_keys [OF c])
  have "fst (Add k c) \<longleftrightarrow> map_of (items c) k = None" by (simp add: Add_def Let_def split: option.split)
  then show "(fst (Add k c), cacheKeys (snd (Add k c))) = lru_add (nat (maxSize c)) k (cacheKeys c)"
    using Add_hit [OF c] Add_miss [OF c] ck
    by (cases "map_of (items c) k") (simp_all add: lru_add_def Contains_def prod_eq_iff)
qed

text \<open>
  The duplicate cache keeps its invariant and is an LRU set: starting from a new cache, after any
  sequence of \<open>Add\<close>s it holds at most \<open>maxSize\<close> keys, \<open>Len\<close> counts them, and the next \<open>Add\<close> reports
  a key as new exactly when \<open>Contains\<close> does not find it.
\<close>

theorem DedupCache_invariant:
  "let c = fold (\<lambda>k c. snd (Add k c)) ks (NewDedupCache n)
   in dedup_invar c \<and> int (Len c) \<le> (if n \<le> 0 then 1 else n) \<and>
      (fst (Add k c) \<longleftrightarrow> \<not> Contains k c) \<and> Contains k (snd (Add k c))"
proof -
  let ?c = "fold (\<lambda>k c. snd (Add k c)) ks (NewDedupCache n)"
  have "dedup_invar (fold (\<lambda>k c. snd (Add k c)) ks c) \<and> maxSize (fold (\<lambda>k c. snd (Add k c)) ks c) = maxSize c"
    if "dedup_invar c" for c
    using that by (induction ks arbitrary: c) (simp_all add: dedup.add_invar maxSize_Add)
  from this [OF dedup_invar_New] have c: "dedup_invar ?c" "maxSize ?c = (if n \<le> 0 then 1 else n)"
    by (auto simp: NewDedupCache_def)
  then have "int (Len ?c) \<le> (if n \<le> 0 then 1 else n)"
    using Len_keys [OF c(1)] by (simp add: dedup_invar_def)
  then show ?thesis
    using c dedup.add_result [OF c(1)] dedup.contains_add [OF c(1)] by (simp add: Let_def)
qed

text \<open>
  C36: The window of duplicate suppression: a key stays in the cache until at least \<open>maxSize\<close> other
  distinct keys were added after it, so a message that comes again within that window is recognised.
\<close>

theorem DedupCache_window:
  assumes "dedup_invar c" and "int (card (set ys - {k})) < maxSize c"
  shows "Contains k (fold (\<lambda>y c. snd (Add y c)) ys (snd (Add k c)))"
  using dedup.window [OF assms(1), of ys k] assms(2) by simp

theorem DedupCache_window_witness:
  "Contains ''k'' (fold (\<lambda>y c. snd (Add y c)) [''a'', ''k'', ''b'', ''a''] (snd (Add ''k'' (NewDedupCache 3))))"
  by (rule DedupCache_window [OF dedup_invar_New]) (auto simp: card_insert_if NewDedupCache_def)

end
