(* ===== verification/Cache_Chunks.thy ===== *)
theory Cache_Chunks
  imports Prelude "HOL-Library.AList"
begin

text \<open>
  The memory layout of the cache buckets of \<^verbatim>\<open>internal/cache/improved_cache.go\<close>: fixed-size chunks,
  the length header of an entry, the packing of generation and byte index in one \<open>uint64\<close>, and the
  sizing of the memory-mapped slabs. Byte indices stay below \<open>2^40\<close> and are \<open>nat\<close>; the packed values
  and the generation counter keep their width.
\<close>

section \<open>Configuration\<close>

abbreviation (input) BucketsCount :: nat where "BucketsCount \<equiv> 32"
abbreviation (input) ChunkSize :: nat where "ChunkSize \<equiv> 1024"
abbreviation (input) maxValueSizeLog :: nat where "maxValueSizeLog \<equiv> 11"
abbreviation (input) defaultTrimRatio :: nat where "defaultTrimRatio \<equiv> 2"
abbreviation (input) bucketSizeBits :: nat where "bucketSizeBits \<equiv> 40"
abbreviation (input) genSizeBits :: nat where "genSizeBits \<equiv> 24"
abbreviation (input) maxGen :: u64 where "maxGen \<equiv> push_bit genSizeBits 1 - 1"
abbreviation (input) maxBucketSize :: u64 where "maxBucketSize \<equiv> push_bit bucketSizeBits 1"
abbreviation (input) chunksPerAlloc :: u64 where "chunksPerAlloc \<equiv> 1024"
abbreviation (input) minSlabChunks :: u64 where "minSlabChunks \<equiv> 8"
abbreviation (input) maxSlabBytesPerMmap :: u64 where "maxSlabBytesPerMmap \<equiv> 4 * 1024 * 1024"
abbreviation (input) minSlabBytesPerMmap :: u64 where "minSlabBytesPerMmap \<equiv> 8 * 1024"

datatype cacheErr =
    TooBigKeyOrValue | DoesNotFitChunk | NoMoreChunks | InvalidSlab | MmapFailed | EmptyChunk
  | ZeroMaxBytes | TooBigMaxBytes | NotFound | BadKeySize | BadHex

section \<open>Slab sizes\<close>

definition calcMaxSlabChunks :: "u64 \<Rightarrow> u64 \<Rightarrow> u64" where
  "calcMaxSlabChunks maxBucketBytes maxChunks =
     (let targetBytes = maxBucketBytes div 16;
          targetBytes = (if targetBytes < minSlabBytesPerMmap then minSlabBytesPerMmap else targetBytes);
          targetBytes = (if targetBytes > maxSlabBytesPerMmap then maxSlabBytesPerMmap else targetBytes);
          ch = targetBytes div 1024;
          ch = (if ch < minSlabChunks then minSlabChunks else ch);
          ch = (if ch > chunksPerAlloc then chunksPerAlloc else ch)
      in if maxChunks > 0 \<and> ch > maxChunks then maxChunks else ch)"

definition calcInitialAllocChunks :: "u64 \<Rightarrow> u64 \<Rightarrow> u64" where
  "calcInitialAllocChunks maxSlabChunks maxChunks =
     (if maxChunks \<le> 32 then maxChunks
      else if maxSlabChunks \<le> 32 then maxSlabChunks
      else
        (let initial = maxSlabChunks div 4
         in if initial < minSlabChunks then minSlabChunks else initial))"

lemma calcMaxSlabChunks_bounds:
  assumes "0 < maxChunks"
  shows "0 < calcMaxSlabChunks mb maxChunks \<and> calcMaxSlabChunks mb maxChunks \<le> 1024 \<and>
         calcMaxSlabChunks mb maxChunks \<le> maxChunks"
proof -
  define ch where "ch = (let t = mb div 16; t = (if t < minSlabBytesPerMmap then minSlabBytesPerMmap else t);
          t = (if t > maxSlabBytesPerMmap then maxSlabBytesPerMmap else t);
          ch = t div 1024; ch = (if ch < minSlabChunks then minSlabChunks else ch)
      in (if ch > chunksPerAlloc then chunksPerAlloc else ch))"
  have "0 < ch \<and> ch \<le> 1024" unfolding ch_def Let_def by (auto simp: word_less_nat_alt word_le_nat_alt)
  moreover have "calcMaxSlabChunks mb maxChunks = (if maxChunks > 0 \<and> ch > maxChunks then maxChunks else ch)"
    by (simp only: calcMaxSlabChunks_def ch_def Let_def)
  ultimately show ?thesis using assms by auto
qed

lemma calcInitialAllocChunks_bounds:
  assumes "0 < maxSlab" and "maxSlab \<le> 1024" and "0 < maxChunks"
  shows "0 < calcInitialAllocChunks maxSlab maxChunks \<and> calcInitialAllocChunks maxSlab maxChunks \<le> 1024"
proof -
  have "maxSlab div 4 \<le> maxSlab" by (simp add: word_le_nat_alt unat_div_distrib)
  with assms show ?thesis
    by (auto simp: calcInitialAllocChunks_def Let_def word_less_nat_alt word_le_nat_alt)
qed

section \<open>Entries\<close>

text \<open>The header of an entry: the big-endian 16-bit lengths of key and value.\<close>

definition kvLenBuf :: "bytes \<Rightarrow> bytes \<Rightarrow> bytes" where
  "kvLenBuf k v =
     [ucast (drop_bit 8 (of_nat (length k) :: 16 word)), of_nat (length k),
      ucast (drop_bit 8 (of_nat (length v) :: 16 word)), of_nat (length v)]"

definition kvBytes :: "bytes \<Rightarrow> bytes \<Rightarrow> bytes" where
  "kvBytes k v = kvLenBuf k v @ k @ v"

definition len16 :: "byte \<Rightarrow> byte \<Rightarrow> nat" where
  "len16 hi lo = unat (push_bit 8 (ucast hi :: u64) OR ucast lo)"

text \<open>
  What \<open>Get\<close> reads at a byte offset of a chunk's array; \<open>None\<close> is a jump to \<open>end\<close> for corrupted data.
\<close>

definition readKV :: "bytes \<Rightarrow> nat \<Rightarrow> (bytes \<times> bytes) option" where
  "readKV arr off =
     (if off + 4 \<ge> ChunkSize then None
      else
        (let keyLen = len16 (arr ! off) (arr ! (off + 1));
             valLen = len16 (arr ! (off + 2)) (arr ! (off + 3));
             off = off + 4
         in if off + keyLen + valLen \<ge> ChunkSize then None
            else Some (take keyLen (drop off arr), take valLen (drop (off + keyLen) arr))))"

lemma length_kvLenBuf [simp]: "length (kvLenBuf k v) = 4"
  by (simp add: kvLenBuf_def)

lemma length_kvBytes [simp]: "length (kvBytes k v) = 4 + length k + length v"
  by (simp add: kvBytes_def)

lemma len16_bytes:
  assumes "n < 2 ^ 16"
  shows "len16 (ucast (drop_bit 8 (of_nat n :: 16 word))) (of_nat n) = n"
proof -
  let ?w = "of_nat n :: u64"
  have w: "unat ?w = n" using assms by (simp add: unat_of_nat)
  have "ucast (drop_bit 8 (of_nat n :: 16 word)) = (ucast (drop_bit 8 ?w) :: byte)"
    by (rule bit_eqI) (auto simp: bit_simps)
  moreover have "(of_nat n :: byte) = ucast ?w" by (rule bit_eqI) (auto simp: bit_simps)
  moreover have "take_bit 16 ?w = ?w" using take_bit_id [of ?w 16] w assms by simp
  ultimately show ?thesis
    using take_bit_bytes(1) [of ?w] w by (simp add: len16_def or.commute)
qed

text \<open>An array holds an entry at an offset.\<close>

definition holds :: "bytes \<Rightarrow> nat \<Rightarrow> bytes \<Rightarrow> bytes \<Rightarrow> bool" where
  "holds arr off k v \<longleftrightarrow>
     off + length (kvBytes k v) < ChunkSize \<and> take (length (kvBytes k v)) (drop off arr) = kvBytes k v"

lemma holds_nth:
  assumes "holds arr off k v" and "length arr = ChunkSize" and "j < length (kvBytes k v)"
  shows "arr ! (off + j) = kvBytes k v ! j"
proof -
  have "kvBytes k v ! j = take (length (kvBytes k v)) (drop off arr) ! j"
    using assms(1) by (simp add: holds_def)
  also have "\<dots> = drop off arr ! j" using assms(3) by (rule nth_take)
  also have "\<dots> = arr ! (off + j)" using assms(1,2) by (intro nth_drop) (simp add: holds_def)
  finally show ?thesis by simp
qed

lemma readKV_holds:
  assumes "holds arr off k v" and "length arr = ChunkSize"
  shows "readKV arr off = Some (k, v)"
proof -
  let ?n = "length (kvBytes k v)"
  have len: "off + 4 + length k + length v < ChunkSize" using assms(1) by (simp add: holds_def)
  note nth = holds_nth [OF assms]
  have "arr ! off = kvBytes k v ! 0" "arr ! (off + 1) = kvBytes k v ! 1"
    "arr ! (off + 2) = kvBytes k v ! 2" "arr ! (off + 3) = kvBytes k v ! 3"
    using nth [of 0] nth [of 1] nth [of 2] nth [of 3] by simp_all
  then have "len16 (arr ! off) (arr ! (off + 1)) = length k"
    "len16 (arr ! (off + 2)) (arr ! (off + 3)) = length v"
    using len16_bytes [of "length k"] len16_bytes [of "length v"] len
    by (simp_all add: kvBytes_def kvLenBuf_def)
  moreover have t: "take ?n (drop off arr) = kvBytes k v" using assms(1) by (simp add: holds_def)
  have "take (length k) (drop (off + 4) arr) = take (length k) (drop 4 (take ?n (drop off arr)))"
    by (simp add: drop_take min_def ac_simps)
  then have "take (length k) (drop (off + 4) arr) = k" unfolding t by (simp add: kvBytes_def)
  moreover have "take (length v) (drop (off + 4 + length k) arr) =
      take (length v) (drop (4 + length k) (take ?n (drop off arr)))"
    by (simp add: drop_take ac_simps)
  then have "take (length v) (drop (off + 4 + length k) arr) = v" unfolding t by (simp add: kvBytes_def)
  ultimately show ?thesis using len by (simp add: readKV_def Let_def)
qed

text \<open>Writing bytes at an offset, and what it leaves intact.\<close>

definition writeAt :: "nat \<Rightarrow> bytes \<Rightarrow> bytes \<Rightarrow> bytes" where
  "writeAt off xs arr = take off arr @ xs @ drop (off + length xs) arr"

lemma length_writeAt: "off + length xs \<le> length arr \<Longrightarrow> length (writeAt off xs arr) = length arr"
  by (simp add: writeAt_def)

lemma holds_writeAt_same:
  "off + length (kvBytes k v) < ChunkSize \<Longrightarrow> length arr = ChunkSize \<Longrightarrow> holds (writeAt off (kvBytes k v) arr) off k v"
  by (simp add: holds_def writeAt_def)

lemma holds_writeAt_other:
  assumes "holds arr off' k v" and "length arr = ChunkSize" and "off + length xs \<le> ChunkSize"
    and "off' + length (kvBytes k v) \<le> off \<or> off + length xs \<le> off'"
  shows "holds (writeAt off xs arr) off' k v"
proof -
  let ?n = "length (kvBytes k v)"
  have "take ?n (drop off' (writeAt off xs arr)) = take ?n (drop off' arr)"
    using assms(4)
  proof
    assume "off' + ?n \<le> off"
    then have "take (?n + off') (writeAt off xs arr) = take (?n + off') arr"
      using assms(2,3) by (simp add: writeAt_def min_def)
    then show ?thesis by (simp only: take_drop)
  next
    assume "off + length xs \<le> off'"
    then have "drop off' (writeAt off xs arr) = drop off' arr" using assms(2,3) by (simp add: writeAt_def)
    then show ?thesis by (simp only:)
  qed
  then show ?thesis using assms(1) by (simp add: holds_def del: length_kvBytes)
qed

section \<open>Packed positions\<close>

definition packPos :: "nat \<Rightarrow> u64 \<Rightarrow> u64" where
  "packPos i g = of_nat i OR push_bit bucketSizeBits g"

definition posGen :: "u64 \<Rightarrow> u64" where
  "posGen w = drop_bit bucketSizeBits w"

definition posIdx :: "u64 \<Rightarrow> nat" where
  "posIdx w = unat (w AND (push_bit bucketSizeBits 1 - 1))"

lemma mask_eqs: "(push_bit bucketSizeBits 1 - 1 :: u64) = mask bucketSizeBits"
    "(push_bit genSizeBits 1 - 1 :: u64) = mask genSizeBits"
  by (simp_all add: mask_eq_exp_minus_1)

lemma posIdx_pack: "i < 2 ^ bucketSizeBits \<Longrightarrow> posIdx (packPos i g) = i"
proof -
  assume i: "i < 2 ^ bucketSizeBits"
  have "packPos i g AND mask bucketSizeBits = take_bit bucketSizeBits (of_nat i)"
    unfolding packPos_def take_bit_eq_mask [symmetric] by (rule bit_eqI) (auto simp: bit_simps)
  also have "\<dots> = of_nat i" using i by (intro take_bit_id) (simp add: unat_of_nat)
  finally show ?thesis unfolding posIdx_def mask_eqs using i by (simp add: unat_of_nat)
qed

lemma posGen_pack: "i < 2 ^ bucketSizeBits \<Longrightarrow> posGen (packPos i g) = g AND (push_bit genSizeBits 1 - 1)"
proof -
  assume i: "i < 2 ^ bucketSizeBits"
  have "drop_bit bucketSizeBits (of_nat i :: u64) = 0"
  proof -
    have "take_bit bucketSizeBits (of_nat i :: u64) = of_nat i"
      using i by (intro take_bit_id) (simp add: unat_of_nat)
    moreover have "drop_bit bucketSizeBits (take_bit bucketSizeBits (of_nat i :: u64)) = 0"
      by (simp only: drop_bit_take_bit) simp
    ultimately show ?thesis by simp
  qed
  moreover have "drop_bit bucketSizeBits (push_bit bucketSizeBits g) = take_bit genSizeBits g"
    by (rule bit_eqI) (auto simp: bit_simps)
  ultimately show ?thesis
    unfolding posGen_def packPos_def mask_eqs by (simp add: drop_bit_or take_bit_eq_mask)
qed

end
