(* ===== verification/Cache_Ring.thy ===== *)
theory Cache_Ring
  imports Cache_Chunks
begin

text \<open>
  The two ring-buffer buckets of \<^verbatim>\<open>internal/cache/improved_cache.go\<close>, \<open>bucketUnallocated\<close> and
  \<open>bucketTrimmed\<close>. Their memory management and look-up are the same code written twice; it is one group
  of definitions here, polymorphic in the record extension, and the two bucket types differ in the
  clean-up of the index and in their counters. Locks are not part of the state: every operation runs
  under the bucket's lock. Whether the operating system grants a mapping is the argument \<open>mmapOk\<close>.
\<close>

section \<open>Data model\<close>

text \<open>
  A slot of the ring is nil or a slice: the backing array of \<open>ChunkSize\<close> bytes and the slice's length.
  The map \<open>m\<close> is the association list of its entries.
\<close>

type_synonym chunk = "(bytes \<times> nat) option"

record ringBucket =
  b_chunks :: "chunk list"
  b_m :: "(u64 \<times> u64) list"
  b_idx :: nat
  b_gen :: u64
  freeChunks :: "bytes list"
  allocatedChunks :: u64
  nextAllocChunks :: u64
  maxSlabChunks :: u64
  currentGenCount :: u64
  previousGenCount :: u64

type_synonym bucketUnallocated = ringBucket

record bucketTrimmed = ringBucket +
  elementsAdded :: int
  numberOfItems :: int
  overWriting :: bool

section \<open>Memory\<close>

definition putChunk :: "chunk \<Rightarrow> bytes list \<Rightarrow> bytes list" where
  "putChunk chunk free = (case chunk of None \<Rightarrow> free | Some (arr, _) \<Rightarrow> free @ [arr])"

text \<open>The slab size for the next mapping, capped by the slab limit and the remaining capacity.\<close>

definition slabSize :: "'a ringBucket_scheme \<Rightarrow> u64 \<Rightarrow> u64" where
  "slabSize b remaining =
     (let maxChunks = of_nat (length (b_chunks b));
          slabChunks = nextAllocChunks b;
          slabChunks = (if slabChunks = 0 then calcInitialAllocChunks (maxSlabChunks b) maxChunks else slabChunks);
          maxSlab = (if maxSlabChunks b = 0 then minSlabChunks else maxSlabChunks b);
          slabChunks = (if slabChunks > maxSlab then maxSlab else slabChunks)
      in if slabChunks > remaining then remaining else slabChunks)"

text \<open>The growth of the slab size after a mapping.\<close>

definition nextSlab :: "'a ringBucket_scheme \<Rightarrow> u64" where
  "nextSlab b =
     (let maxSlab = (if maxSlabChunks b = 0 then minSlabChunks else maxSlabChunks b);
          next = (if nextAllocChunks b = 0
                  then calcInitialAllocChunks (maxSlabChunks b) (of_nat (length (b_chunks b)))
                  else nextAllocChunks b);
          next = push_bit 1 next
      in if next > maxSlab then maxSlab else next)"

text \<open>A fresh mapping is zero-filled and cut into chunks.\<close>

definition getChunk :: "bool \<Rightarrow> 'a ringBucket_scheme \<Rightarrow> (cacheErr + bytes) \<times> 'a ringBucket_scheme" where
  "getChunk mmapOk b =
     (if freeChunks b = [] then
        (let remaining = of_nat (length (b_chunks b)) - allocatedChunks b
         in if remaining = 0 then (Inl NoMoreChunks, b)
            else
              (let slabChunks = slabSize b remaining
               in if unat slabChunks * ChunkSize = 0 then (Inl InvalidSlab, b)
                  else if \<not> mmapOk then (Inl MmapFailed, b)
                  else
                    (let free = replicate (unat slabChunks) (replicate ChunkSize 0)
                     in (Inr (last free),
                         b\<lparr>allocatedChunks := allocatedChunks b + slabChunks,
                           nextAllocChunks := nextSlab b,
                           freeChunks := butlast free\<rparr>))))
      else (Inr (last (freeChunks b)), b\<lparr>freeChunks := butlast (freeChunks b)\<rparr>))"

definition Reset_ring :: "'a ringBucket_scheme \<Rightarrow> 'a ringBucket_scheme" where
  "Reset_ring b =
     b\<lparr>freeChunks := fold putChunk (b_chunks b) (freeChunks b),
       b_chunks := map (\<lambda>_. None) (b_chunks b),
       b_m := [], b_idx := 0, b_gen := 1, currentGenCount := 0, previousGenCount := 0,
       nextAllocChunks := calcInitialAllocChunks (maxSlabChunks b) (of_nat (length (b_chunks b)))\<rparr>"

section \<open>Look-up\<close>

abbreviation curGen :: "'a ringBucket_scheme \<Rightarrow> u64" where
  "curGen b \<equiv> b_gen b AND (push_bit genSizeBits 1 - 1)"

text \<open>The generation and index test of \<open>Get\<close>.\<close>

definition validPos :: "'a ringBucket_scheme \<Rightarrow> u64 \<Rightarrow> bool" where
  "validPos b w \<longleftrightarrow>
     (let gen = posGen w; idx = posIdx w; bGen = curGen b
      in gen = bGen \<and> idx < b_idx b \<or> gen + 1 = bGen \<and> b_idx b \<le> idx \<or>
         gen = maxGen \<and> bGen = 1 \<and> b_idx b \<le> idx)"

text \<open>
  \<open>Get\<close> returns whether the key was found and what \<open>dst\<close> points to afterwards. Slicing a nil chunk
  panics.
\<close>

definition Get_ring :: "bytes \<Rightarrow> bytes \<Rightarrow> u64 \<Rightarrow> bool \<Rightarrow> 'a ringBucket_scheme \<Rightarrow> (bool \<times> bytes) go" where
  "Get_ring dst k h returnDst b =
     (let v = (case map_of (b_m b) h of None \<Rightarrow> 0 | Some v \<Rightarrow> v)
      in if v > 0 \<and> validPos b v then
           (let idx = posIdx v; chunkIdx = idx div ChunkSize
            in if chunkIdx \<ge> length (b_chunks b) then Inr (False, dst)
               else
                 (let idx = idx mod ChunkSize
                  in if idx + 4 \<ge> ChunkSize then Inr (False, dst)
                     else
                       (case b_chunks b ! chunkIdx of
                          None \<Rightarrow> Inl IndexOutOfRange
                        | Some (arr, _) \<Rightarrow>
                            (case readKV arr idx of
                               None \<Rightarrow> Inr (False, dst)
                             | Some (key, val) \<Rightarrow>
                                 if k = key then Inr (True, if returnDst then dst @ val else dst)
                                 else Inr (False, dst)))))
         else Inr (False, dst))"

section \<open>Insertion\<close>

text \<open>Where the next entry goes: byte index, end, chunk and whether the ring wraps.\<close>

definition placeEntry :: "'a ringBucket_scheme \<Rightarrow> nat \<Rightarrow> nat \<times> nat \<times> nat \<times> bool \<times> bool" where
  "placeEntry b kvLen =
     (let idx = b_idx b; idxNew = idx + kvLen;
          chunkIdx = idx div ChunkSize; chunkIdxNew = idxNew div ChunkSize
      in if chunkIdxNew > chunkIdx then
           (if chunkIdxNew \<ge> length (b_chunks b) then (0, kvLen, 0, True, True)
            else (chunkIdxNew * ChunkSize, chunkIdxNew * ChunkSize + kvLen, chunkIdxNew, True, False))
         else (idx, idxNew, chunkIdx, False, False))"

text \<open>The next generation; the 24 low bits are never 0.\<close>

definition nextGen :: "u64 \<Rightarrow> u64" where
  "nextGen g = (let g = g + 1 in if g AND (push_bit genSizeBits 1 - 1) = 0 then g + 1 else g)"

definition wrapGen :: "'a ringBucket_scheme \<Rightarrow> 'a ringBucket_scheme" where
  "wrapGen b = b\<lparr>b_gen := nextGen (b_gen b), previousGenCount := currentGenCount b, currentGenCount := 0\<rparr>"

text \<open>\<open>chunks[chunkIdx] = chunks[chunkIdx][:0]\<close>; a nil slice stays nil.\<close>

definition truncChunk :: "nat \<Rightarrow> 'a ringBucket_scheme \<Rightarrow> 'a ringBucket_scheme" where
  "truncChunk c b = b\<lparr>b_chunks := (b_chunks b)[c := map_option (\<lambda>(arr, _). (arr, 0)) (b_chunks b ! c)]\<rparr>"

text \<open>The appends, the index entry and the new write position.\<close>

definition storeEntry ::
  "bytes \<Rightarrow> bytes \<Rightarrow> u64 \<Rightarrow> nat \<Rightarrow> nat \<Rightarrow> nat \<Rightarrow> bytes \<times> nat \<Rightarrow> 'a ringBucket_scheme \<Rightarrow> 'a ringBucket_scheme" where
  "storeEntry k v h idx idxNew c chunk b =
     (let (arr, len) = chunk; kv = kvBytes k v
      in b\<lparr>b_chunks := (b_chunks b)[c := Some (writeAt len kv arr, len + length kv)],
           currentGenCount := currentGenCount b + 1,
           b_m := AList.update h (packPos idx (b_gen b)) (b_m b),
           b_idx := idxNew\<rparr>)"

text \<open>
  \<open>Set\<close> up to the bucket-specific parts: \<open>onWrap\<close> is what the bucket does in addition when the ring
  wraps, \<open>clean\<close> its \<open>cleanLockedMap\<close>.
\<close>

definition Set_ring ::
  "('a ringBucket_scheme \<Rightarrow> 'a ringBucket_scheme) \<Rightarrow> ('a ringBucket_scheme \<Rightarrow> 'a ringBucket_scheme) \<Rightarrow>
   bool \<Rightarrow> bytes \<Rightarrow> bytes \<Rightarrow> u64 \<Rightarrow> 'a ringBucket_scheme \<Rightarrow> (cacheErr option \<times> 'a ringBucket_scheme) go" where
  "Set_ring onWrap clean mmapOk k v h b =
     (if length k \<ge> 2 ^ maxValueSizeLog \<or> length v \<ge> 2 ^ maxValueSizeLog then Inr (Some TooBigKeyOrValue, b)
      else
        (let kvLen = 4 + length k + length v
         in if kvLen \<ge> ChunkSize then Inr (Some DoesNotFitChunk, b)
            else
              (let (idx, idxNew, c, crossed, wrapped) = placeEntry b kvLen;
                   b = (if wrapped then onWrap (wrapGen b) else b)
               in if c \<ge> length (b_chunks b) then Inl IndexOutOfRange
                  else
                    (let b = (if crossed then truncChunk c b else b);
                         finish = (\<lambda>chunk b. let b = storeEntry k v h idx idxNew c chunk b
                                              in Inr (None, if wrapped then clean b else b))
                     in case b_chunks b ! c of
                          Some chunk \<Rightarrow> finish chunk b
                        | None \<Rightarrow>
                            (case getChunk mmapOk b of
                               (Inl e, b) \<Rightarrow> Inr (Some e, b)
                             | (Inr arr, b) \<Rightarrow> finish (arr, 0) b)))))"

section \<open>The bucket without trimming\<close>

text \<open>The entries \<open>cleanLockedMap\<close> keeps.\<close>

definition keepPos :: "u64 \<Rightarrow> nat \<Rightarrow> u64 \<Rightarrow> bool" where
  "keepPos bGen bIdx w \<longleftrightarrow>
     (let gen = posGen w; idx = posIdx w
      in (gen + 1 = bGen \<or> gen = maxGen \<and> bGen = 1) \<and> bIdx \<le> idx \<or> gen = bGen \<and> idx < bIdx)"

definition cleanLockedMap_u :: "'a ringBucket_scheme \<Rightarrow> 'a ringBucket_scheme" where
  "cleanLockedMap_u b =
     (let keep = (\<lambda>e. keepPos (curGen b) (b_idx b) (snd e));
          newItems = length (filter keep (b_m b))
      in if newItems < length (b_m b) then b\<lparr>b_m := filter keep (b_m b)\<rparr> else b)"

definition Set_u :: "bool \<Rightarrow> bytes \<Rightarrow> bytes \<Rightarrow> u64 \<Rightarrow> bucketUnallocated \<Rightarrow> (cacheErr option \<times> bucketUnallocated) go" where
  "Set_u = Set_ring (\<lambda>b. b) cleanLockedMap_u"

definition Get_u :: "bytes \<Rightarrow> bytes \<Rightarrow> u64 \<Rightarrow> bool \<Rightarrow> bucketUnallocated \<Rightarrow> (bool \<times> bytes) go" where
  "Get_u = Get_ring"

definition Del_ring :: "u64 \<Rightarrow> 'a ringBucket_scheme \<Rightarrow> 'a ringBucket_scheme" where
  "Del_ring h b = b\<lparr>b_m := AList.delete h (b_m b)\<rparr>"

definition Init_u :: "u64 \<Rightarrow> cacheErr + bucketUnallocated" where
  "Init_u maxBytes =
     (if maxBytes = 0 then Inl ZeroMaxBytes
      else if maxBytes \<ge> maxBucketSize then Inl TooBigMaxBytes
      else
        (let maxChunks = maxBytes div 1024;
             maxChunks = (if maxChunks = 0 then 1 else maxChunks)
         in Inr (Reset_ring
              \<lparr>b_chunks = replicate (unat maxChunks) None, b_m = [], b_idx = 0, b_gen = 0, freeChunks = [],
               allocatedChunks = 0, nextAllocChunks = 0,
               maxSlabChunks = calcMaxSlabChunks maxBytes maxChunks,
               currentGenCount = 0, previousGenCount = 0\<rparr>)))"

section \<open>The trimmed bucket\<close>

text \<open>
  The predicate that counts the entries to keep is parenthesised differently from the one that keeps
  them: an entry of the previous generation counts whatever its index.
\<close>

definition countPos :: "u64 \<Rightarrow> nat \<Rightarrow> u64 \<Rightarrow> bool" where
  "countPos bGen bIdx w \<longleftrightarrow>
     (let gen = posGen w; idx = posIdx w
      in (gen + 1 = bGen \<or> (gen = maxGen \<and> bGen = 1) \<and> bIdx \<le> idx) \<or> (gen = bGen \<and> idx < bIdx))"

definition cleanLockedMap_t :: "'a ringBucket_scheme \<Rightarrow> 'a ringBucket_scheme" where
  "cleanLockedMap_t b =
     (let newItems = length (filter (\<lambda>e. countPos (curGen b) (b_idx b) (snd e)) (b_m b))
      in if newItems < length (b_m b)
         then b\<lparr>b_m := filter (\<lambda>e. keepPos (curGen b) (b_idx b) (snd e)) (b_m b)\<rparr> else b)"

definition Set_t :: "bool \<Rightarrow> bytes \<Rightarrow> bytes \<Rightarrow> u64 \<Rightarrow> bucketTrimmed \<Rightarrow> (cacheErr option \<times> bucketTrimmed) go" where
  "Set_t mmapOk k v h b =
     go_bind (Set_ring (\<lambda>b. b\<lparr>overWriting := True\<rparr>) cleanLockedMap_t mmapOk k v h b) (\<lambda>(err, b).
       case err of
         Some e \<Rightarrow> Inr (Some e, b)
       | None \<Rightarrow>
           (let b = b\<lparr>elementsAdded := elementsAdded b + 1\<rparr>
            in Inr (None, if \<not> overWriting b then b\<lparr>numberOfItems := numberOfItems b + 1\<rparr> else b)))"

definition Get_t :: "bytes \<Rightarrow> bytes \<Rightarrow> u64 \<Rightarrow> bool \<Rightarrow> bucketTrimmed \<Rightarrow> (bool \<times> bytes) go" where
  "Get_t dst k h returnDst b =
     (if map_of (b_m b) h = None then Inr (False, dst) else Get_ring dst k h returnDst b)"

definition Reset_t :: "bucketTrimmed \<Rightarrow> bucketTrimmed" where
  "Reset_t b = (Reset_ring b)\<lparr>overWriting := False\<rparr>"

definition Init_t :: "u64 \<Rightarrow> cacheErr + bucketTrimmed" where
  "Init_t maxBytes =
     (if maxBytes = 0 then Inl ZeroMaxBytes
      else if maxBytes \<ge> maxBucketSize then Inl TooBigMaxBytes
      else
        (let maxChunks = maxBytes div 1024;
             maxChunks = (if maxChunks = 0 then 1 else maxChunks)
         in Inr (Reset_t
              \<lparr>b_chunks = replicate (unat maxChunks) None, b_m = [], b_idx = 0, b_gen = 0, freeChunks = [],
               allocatedChunks = 0, nextAllocChunks = 0,
               maxSlabChunks = calcMaxSlabChunks maxBytes maxChunks,
               currentGenCount = 0, previousGenCount = 0,
               elementsAdded = 0, numberOfItems = 0, overWriting = False\<rparr>)))"

end
