(* ===== verification/Cache_Ring_Inv.thy ===== *)
theory Cache_Ring_Inv
  imports Cache_Ring
begin

text \<open>
  The invariant of the ring buckets and the proof that they are lossy maps: after a successful \<open>Set\<close>
  the entry is there, every other entry is unchanged or evicted, and nothing else appears.
\<close>

section \<open>Generations\<close>

definition prevGen :: "u64 \<Rightarrow> u64 \<Rightarrow> bool" where
  "prevGen g g' \<longleftrightarrow> g + 1 = g' \<or> g = maxGen \<and> g' = 1"

lemma maxGen_eq: "maxGen = 0xFFFFFF"
  by simp

lemma validPos_keepPos: "validPos b w \<longleftrightarrow> keepPos (curGen b) (b_idx b) w"
  unfolding validPos_def keepPos_def Let_def by blast

lemma unat_and_maxGen: "unat (g AND maxGen) = unat g mod 2 ^ 24"
proof -
  have "g AND maxGen = g AND mask 24" by (simp add: mask_eq_exp_minus_1)
  also have "\<dots> = take_bit 24 g" by (rule take_bit_eq_mask [symmetric])
  finally have "unat (g AND maxGen) = unat (take_bit 24 g)" by simp
  also have "\<dots> = take_bit 24 (unat g)" by (rule unsigned_take_bit_eq)
  also have "\<dots> = unat g mod 2 ^ 24" by (rule take_bit_eq_mod)
  finally show ?thesis .
qed

lemma unat_Suc_cases:
  fixes g :: u64
  obtains "unat (g + 1) = unat g + 1" | "g + 1 = 0" and "unat g = 2 ^ 64 - 1"
proof (cases "g + 1 = 0")
  case True
  then have "g = - 1" by (simp add: add_eq_0_iff2)
  then have "unat g = 2 ^ 64 - 1" by (simp add: unsigned_minus_1_eq_mask mask_eq_exp_minus_1)
  with True that(2) show thesis by blast
next
  case False
  with unatSuc [of g] that(1) show thesis by (simp add: add.commute)
qed

lemma nextGen_unat:
  fixes g :: u64
  defines "c \<equiv> unat g mod 2 ^ 24"
  shows "unat (nextGen g) mod 2 ^ 24 = (if c = 2 ^ 24 - 1 then 1 else c + 1)"
proof -
  have s: "unat (x + 1) mod 2 ^ 24 = (if unat x mod 2 ^ 24 = 2 ^ 24 - 1 then 0 else unat x mod 2 ^ 24 + 1)" for x :: u64
    by (rule unat_Suc_cases [of x]) (auto simp: mod_Suc)
  have z: "x AND maxGen = 0 \<longleftrightarrow> unat x mod 2 ^ 24 = 0" for x :: u64
    using unat_and_maxGen [of x] by (metis unat_eq_zero unat_0)
  show ?thesis
    using s [of g] s [of "g + 1"] unfolding nextGen_def Let_def c_def z by simp
qed

lemma prevGen_unat:
  assumes "g' \<noteq> 0"
  shows "prevGen g g' \<longleftrightarrow> unat g + 1 = unat g' \<or> unat g = 2 ^ 24 - 1 \<and> unat g' = 1"
proof -
  have g': "unat g' < 2 ^ 64" using unsigned_less [of g'] by simp
  have "g = maxGen \<longleftrightarrow> unat g = 2 ^ 24 - 1" "g' = 1 \<longleftrightarrow> unat g' = 1" by (simp_all add: word_unat_eq_iff)
  moreover have "g + 1 = g' \<longleftrightarrow> unat g + 1 = unat g'"
  proof (rule unat_Suc_cases [of g])
    assume "unat (g + 1) = unat g + 1"
    then show ?thesis by (simp add: word_unat_eq_iff)
  next
    assume "g + 1 = 0" "unat g = 2 ^ 64 - 1"
    with g' assms show ?thesis by auto
  qed
  ultimately show ?thesis by (simp only: prevGen_def)
qed

lemma nextGen_props:
  fixes g :: u64
  assumes c: "c = g AND maxGen" and c': "c' = nextGen g AND maxGen" and "c \<noteq> 0"
  shows "c' \<noteq> 0" and "prevGen c c'" and "c \<noteq> c'" and "prevGen p c \<Longrightarrow> \<not> prevGen p c' \<and> p \<noteq> c'"
proof -
  have u: "unat c' = (if unat c = 2 ^ 24 - 1 then 1 else unat c + 1)"
    unfolding c c' unat_and_maxGen by (rule nextGen_unat)
  have "unat c \<noteq> 0" using assms(3) by (simp add: unat_eq_zero)
  show z: "c' \<noteq> 0" using u by (auto simp: word_unat_eq_iff)
  show "prevGen c c'" unfolding prevGen_unat [OF z] using u by auto
  show "c \<noteq> c'" using u by (auto simp: word_unat_eq_iff)
  show "prevGen p c \<Longrightarrow> \<not> prevGen p c' \<and> p \<noteq> c'"
    unfolding prevGen_unat [OF z] prevGen_unat [OF assms(3)] using u \<open>unat c \<noteq> 0\<close>
    by (auto simp: word_unat_eq_iff split: if_splits)
qed

section \<open>The invariant\<close>

text \<open>The chunk of byte index \<open>i\<close> is mapped and holds the entry \<open>(k, v)\<close> there.\<close>

definition entryOk :: "chunk list \<Rightarrow> nat \<Rightarrow> bytes \<Rightarrow> bytes \<Rightarrow> bool" where
  "entryOk cs i k v \<longleftrightarrow>
     i div ChunkSize < length cs \<and>
     (\<exists>arr len. cs ! (i div ChunkSize) = Some (arr, len) \<and> holds arr (i mod ChunkSize) k v)"

text \<open>What the index may contain: live entries of this generation, and those of the previous one.\<close>

definition posOk :: "chunk list \<Rightarrow> nat \<Rightarrow> u64 \<Rightarrow> u64 \<Rightarrow> bool" where
  "posOk cs bIdx bGen w \<longleftrightarrow>
     0 < w \<and>
     ((posGen w = bGen \<and> (\<exists>k v. entryOk cs (posIdx w) k v \<and> posIdx w + length (kvBytes k v) \<le> bIdx)) \<or>
      (prevGen (posGen w) bGen \<and> (bIdx \<le> posIdx w \<longrightarrow> (\<exists>k v. entryOk cs (posIdx w) k v))))"

text \<open>The ring itself: sizes, the chunk being written, and the generation.\<close>

definition ringOk :: "chunk list \<Rightarrow> nat \<Rightarrow> bool" where
  "ringOk cs bIdx \<longleftrightarrow>
     length cs * ChunkSize < 2 ^ bucketSizeBits \<and> bIdx div ChunkSize < length cs \<and>
     (\<forall>arr len. Some (arr, len) \<in> set cs \<longrightarrow> length arr = ChunkSize) \<and>
     (case cs ! (bIdx div ChunkSize) of None \<Rightarrow> bIdx = 0 | Some (arr, len) \<Rightarrow> len = bIdx mod ChunkSize) \<and>
     (0 < bIdx \<longrightarrow> cs ! 0 \<noteq> None)"

text \<open>The accounting of mapped memory.\<close>

definition mapped :: "chunk list \<Rightarrow> nat" where
  "mapped cs = length (filter (\<lambda>c. c \<noteq> None) cs)"

definition allocOk :: "'a ringBucket_scheme \<Rightarrow> bool" where
  "allocOk b \<longleftrightarrow>
     unat (allocatedChunks b) = mapped (b_chunks b) + length (freeChunks b) \<and>
     unat (allocatedChunks b) \<le> length (b_chunks b) \<and>
     (\<forall>arr\<in>set (freeChunks b). length arr = ChunkSize) \<and>
     0 < maxSlabChunks b \<and> maxSlabChunks b \<le> 1024 \<and> 0 < nextAllocChunks b \<and> nextAllocChunks b \<le> 1024"

definition ringInv :: "'a ringBucket_scheme \<Rightarrow> bool" where
  "ringInv b \<longleftrightarrow>
     ringOk (b_chunks b) (b_idx b) \<and> allocOk b \<and> curGen b \<noteq> 0 \<and> distinct (map fst (b_m b)) \<and>
     (\<forall>e\<in>set (b_m b). posOk (b_chunks b) (b_idx b) (curGen b) (snd e))"

text \<open>The contents of a bucket: the entry that can be read for a hash.\<close>

definition entryAt :: "chunk list \<Rightarrow> nat \<Rightarrow> (bytes \<times> bytes) option" where
  "entryAt cs i =
     (if i div ChunkSize < length cs
      then (case cs ! (i div ChunkSize) of None \<Rightarrow> None | Some (arr, _) \<Rightarrow> readKV arr (i mod ChunkSize))
      else None)"

definition ringView :: "'a ringBucket_scheme \<Rightarrow> u64 \<Rightarrow> (bytes \<times> bytes) option" where
  "ringView b h =
     (case map_of (b_m b) h of
        None \<Rightarrow> None
      | Some w \<Rightarrow> if validPos b w then entryAt (b_chunks b) (posIdx w) else None)"

lemma entryAt_entryOk:
  assumes "entryOk cs i k v" and "ringOk cs j"
  shows "entryAt cs i = Some (k, v)"
proof -
  obtain arr len where a: "i div ChunkSize < length cs" "cs ! (i div ChunkSize) = Some (arr, len)"
    "holds arr (i mod ChunkSize) k v" using assms(1) by (auto simp: entryOk_def)
  then have "length arr = ChunkSize" using assms(2) by (metis nth_mem ringOk_def)
  with a readKV_holds show ?thesis by (simp add: entryAt_def)
qed

lemma validPos_entry:
  assumes "ringInv b" and "map_of (b_m b) h = Some w" and "validPos b w"
  obtains k v where "entryOk (b_chunks b) (posIdx w) k v"
proof -
  have "(h, w) \<in> set (b_m b)" using assms(2) by (rule map_of_SomeD)
  then have "posOk (b_chunks b) (b_idx b) (curGen b) w" using assms(1) by (fastforce simp: ringInv_def)
  with assms(3) that show thesis
    by (auto simp: posOk_def validPos_def Let_def prevGen_def)
qed

lemma packPos_nonzero: "i < 2 ^ bucketSizeBits \<Longrightarrow> g AND maxGen \<noteq> 0 \<Longrightarrow> 0 < packPos i g"
  using posGen_pack [of i g] by (auto simp: word_gt_0 posGen_def)

text \<open>\<open>Get\<close> reads the view and never panics.\<close>

lemma Get_ring_view:
  assumes "ringInv b"
  shows "Get_ring dst k h ret b =
     Inr (case ringView b h of
            None \<Rightarrow> (False, dst)
          | Some (k', v) \<Rightarrow> if k = k' then (True, if ret then dst @ v else dst) else (False, dst))"
proof (cases "map_of (b_m b) h")
  case None
  then show ?thesis by (simp add: Get_ring_def ringView_def)
next
  case (Some w)
  then have "(h, w) \<in> set (b_m b)" by (rule map_of_SomeD)
  then have "0 < w" using assms by (fastforce simp: ringInv_def posOk_def)
  show ?thesis
  proof (cases "validPos b w")
    case True
    with assms Some obtain k' v where e: "entryOk (b_chunks b) (posIdx w) k' v" by (rule validPos_entry)
    then obtain arr len where a: "posIdx w div ChunkSize < length (b_chunks b)"
      "b_chunks b ! (posIdx w div ChunkSize) = Some (arr, len)" "holds arr (posIdx w mod ChunkSize) k' v"
      by (auto simp: entryOk_def)
    have "entryAt (b_chunks b) (posIdx w) = Some (k', v)"
      using entryAt_entryOk [OF e, of "b_idx b"] assms by (simp add: ringInv_def)
    moreover from this have "readKV arr (posIdx w mod ChunkSize) = Some (k', v)" using a by (simp add: entryAt_def)
    moreover have "\<not> posIdx w mod ChunkSize + 4 \<ge> ChunkSize" using a(3) by (simp add: holds_def)
    ultimately show ?thesis
      using Some True a \<open>0 < w\<close> by (simp add: Get_ring_def ringView_def Let_def)
  next
    case False
    with Some show ?thesis by (simp add: Get_ring_def ringView_def)
  qed
qed

section \<open>Writing an entry\<close>

text \<open>\<open>cs'\<close> is \<open>cs\<close> with the entry \<open>(k, v)\<close> written at byte index \<open>i\<close>.\<close>

definition written :: "chunk list \<Rightarrow> nat \<Rightarrow> bytes \<Rightarrow> bytes \<Rightarrow> chunk list \<Rightarrow> bool" where
  "written cs i k v cs' \<longleftrightarrow>
     i div ChunkSize < length cs \<and> i mod ChunkSize + length (kvBytes k v) < ChunkSize \<and>
     (\<exists>arr n. length arr = ChunkSize \<and> (\<forall>a l. cs ! (i div ChunkSize) = Some (a, l) \<longrightarrow> a = arr) \<and>
        cs' = cs[i div ChunkSize := Some (writeAt (i mod ChunkSize) (kvBytes k v) arr, n)])"

lemma written_entry: "written cs i k v cs' \<Longrightarrow> entryOk cs' i k v"
  by (auto simp: written_def entryOk_def holds_writeAt_same simp del: length_kvBytes)

lemma written_other:
  assumes "written cs i k v cs'" and "entryOk cs j k' v'"
    and "j + length (kvBytes k' v') \<le> i \<or> i + length (kvBytes k v) \<le> j"
  shows "entryOk cs' j k' v'"
proof (cases "j div ChunkSize = i div ChunkSize")
  case False
  with assms(1,2) show ?thesis by (auto simp: written_def entryOk_def)
next
  case True
  obtain arr n where w: "i div ChunkSize < length cs" "i mod ChunkSize + length (kvBytes k v) < ChunkSize"
    "length arr = ChunkSize" "\<forall>a l. cs ! (i div ChunkSize) = Some (a, l) \<longrightarrow> a = arr"
    "cs' = cs[i div ChunkSize := Some (writeAt (i mod ChunkSize) (kvBytes k v) arr, n)]"
    using assms(1) by (auto simp: written_def)
  have h: "holds arr (j mod ChunkSize) k' v'"
    using assms(2) w(4) True by (auto simp: entryOk_def)
  have "j mod ChunkSize + length (kvBytes k' v') \<le> i mod ChunkSize \<or>
      i mod ChunkSize + length (kvBytes k v) \<le> j mod ChunkSize"
    using assms(3) True div_mult_mod_eq [of i ChunkSize] div_mult_mod_eq [of j ChunkSize] by linarith
  then have "holds (writeAt (i mod ChunkSize) (kvBytes k v) arr) (j mod ChunkSize) k' v'"
    using h w(2,3) by (intro holds_writeAt_other) simp_all
  then show ?thesis using w True by (auto simp: entryOk_def)
qed

text \<open>Cutting a slice to length 0 does not touch its array.\<close>

lemma entryOk_trunc:
  "c < length cs \<Longrightarrow> entryOk (cs[c := map_option (\<lambda>(arr, _). (arr, 0)) (cs ! c)]) i k v \<longleftrightarrow> entryOk cs i k v"
  by (cases "c = i div ChunkSize"; cases "cs ! c") (auto simp: entryOk_def)

lemma placeEntry_spec:
  assumes "ringOk (b_chunks b) (b_idx b)" and "n < ChunkSize"
    and "placeEntry b n = (i, iN, c, crossed, wrapped)"
  shows "c = i div ChunkSize \<and> c < length (b_chunks b) \<and> iN = i + n \<and>
    i mod ChunkSize + n < ChunkSize \<and> (\<not> wrapped \<longrightarrow> b_idx b \<le> i) \<and>
    (wrapped \<longrightarrow> i = 0 \<and> crossed \<and> 0 < b_idx b) \<and> (\<not> crossed \<longrightarrow> i = b_idx b) \<and>
    (crossed \<longrightarrow> i mod ChunkSize = 0) \<and> (0 < c \<longrightarrow> 0 < b_idx b)"
proof -
  let ?c = "b_idx b div ChunkSize" and ?cN = "(b_idx b + n) div ChunkSize"
  have len: "?c < length (b_chunks b)" using assms(1) by (simp add: ringOk_def)
  have e: "b_idx b = ?c * ChunkSize + b_idx b mod ChunkSize" "b_idx b mod ChunkSize < ChunkSize"
    "b_idx b + n = ?cN * ChunkSize + (b_idx b + n) mod ChunkSize" "(b_idx b + n) mod ChunkSize < ChunkSize"
    by simp_all
  have "?c \<le> ?cN" by (simp add: div_le_mono)
  then consider (same) "?cN = ?c" | (adv) "?c < ?cN" "?cN < length (b_chunks b)"
    | (wrap) "?c < ?cN" "\<not> ?cN < length (b_chunks b)" by linarith
  then show ?thesis
  proof cases
    case same
    then have "i = b_idx b" "iN = b_idx b + n" "c = ?c" "\<not> crossed" "\<not> wrapped"
      using assms(3) by (auto simp: placeEntry_def Let_def)
    moreover have "b_idx b mod ChunkSize + n < ChunkSize" using e same by linarith
    ultimately show ?thesis using len by (auto intro: Nat.gr0I)
  next
    case adv
    then have "i = ?cN * ChunkSize" "iN = i + n" "c = ?cN" "crossed" "\<not> wrapped"
      using assms(3) by (auto simp: placeEntry_def Let_def)
    moreover have "b_idx b \<le> ?cN * ChunkSize"
    proof -
      have "(?c + 1) * ChunkSize \<le> ?cN * ChunkSize" using adv(1) by (intro mult_le_mono1) simp
      with e show ?thesis by simp
    qed
    moreover have "0 < b_idx b" using adv assms(2) by (cases "b_idx b") auto
    ultimately show ?thesis using adv assms(2) by simp
  next
    case wrap
    then have "i = 0" "iN = n" "c = 0" "crossed" "wrapped" using assms(3) by (auto simp: placeEntry_def Let_def)
    moreover have "0 < b_idx b" using wrap assms(2) by (cases "b_idx b") auto
    ultimately show ?thesis using len assms(2) by auto
  qed
qed

section \<open>Chunk allocation\<close>

lemma mapped_update:
  "c < length cs \<Longrightarrow> cs ! c = None \<Longrightarrow> mapped (cs[c := Some x]) = mapped cs + 1"
proof (induction cs arbitrary: c)
  case (Cons d cs)
  then show ?case by (cases c) (auto simp: mapped_def)
qed simp

lemma mapped_update_same:
  "c < length cs \<Longrightarrow> (x = None \<longleftrightarrow> cs ! c = None) \<Longrightarrow> mapped (cs[c := x]) = mapped cs"
proof (induction cs arbitrary: c)
  case (Cons d cs)
  then show ?case by (cases c) (auto simp: mapped_def)
qed simp

lemma mapped_less: "c < length cs \<Longrightarrow> cs ! c = None \<Longrightarrow> mapped cs < length cs"
  using mapped_update [of c cs undefined] length_filter_le [of "\<lambda>x. x \<noteq> None" "cs[c := Some undefined]"]
  by (simp add: mapped_def)

text \<open>
  A chunk can be handed out whenever a slot is free: the error for an exhausted bucket is unreachable,
  and the accounting stays exact.
\<close>

lemma slabSize_bounds:
  assumes "allocOk b" and "0 < remaining"
  shows "0 < slabSize b remaining \<and> slabSize b remaining \<le> remaining \<and> slabSize b remaining \<le> 1024"
  using assms by (auto simp: slabSize_def allocOk_def Let_def)

lemma nextSlab_bounds:
  assumes "allocOk b"
  shows "0 < nextSlab b \<and> nextSlab b \<le> 1024"
proof -
  have n: "nextAllocChunks b \<noteq> 0" "maxSlabChunks b \<noteq> 0" "maxSlabChunks b \<le> 1024" "unat (nextAllocChunks b) \<le> 1024"
    using assms by (auto simp: allocOk_def word_le_nat_alt)
  have "unat (push_bit 1 (nextAllocChunks b)) = 2 * unat (nextAllocChunks b)"
    using n(4) by (simp add: push_bit_eq_mult unat_mult_lem [THEN iffD1])
  then have "push_bit 1 (nextAllocChunks b) \<noteq> 0"
    using n(1) by (metis mult_eq_0_iff unat_0 unat_eq_zero zero_neq_numeral)
  then show ?thesis
    using n by (auto simp: nextSlab_def Let_def word_gt_0)
qed

lemma getChunk_cases:
  assumes "allocOk b" and "c < length (b_chunks b)" and "b_chunks b ! c = None"
    and "length (b_chunks b) < 2 ^ 63"
  obtains (chunk) arr b' where "getChunk ok b = (Inr arr, b')" and "length arr = ChunkSize"
      and "\<And>x. allocOk (b'\<lparr>b_chunks := (b_chunks b)[c := Some x]\<rparr>)"
      and "b' = b\<lparr>allocatedChunks := allocatedChunks b', nextAllocChunks := nextAllocChunks b', freeChunks := freeChunks b'\<rparr>"
    | (fail) "\<not> ok" and "getChunk ok b = (Inl MmapFailed, b)"
proof (cases "freeChunks b = []")
  case False
  let ?b = "b\<lparr>freeChunks := butlast (freeChunks b)\<rparr>"
  have "allocOk (?b\<lparr>b_chunks := (b_chunks b)[c := Some x]\<rparr>)" for x
    using assms False mapped_update [OF assms(2,3), of x] by (auto simp: allocOk_def dest: in_set_butlastD)
  moreover have "length (last (freeChunks b)) = ChunkSize" using assms(1) False by (simp add: allocOk_def)
  ultimately show thesis using False by (intro chunk [of "last (freeChunks b)" ?b]) (auto simp: getChunk_def)
next
  case True
  let ?rem = "of_nat (length (b_chunks b)) - allocatedChunks b"
  have len: "unat (of_nat (length (b_chunks b)) :: u64) = length (b_chunks b)"
    using assms(4) by (simp add: unat_of_nat)
  have alloc: "unat (allocatedChunks b) = mapped (b_chunks b)" using assms(1) True by (simp add: allocOk_def)
  have "unat (allocatedChunks b) < length (b_chunks b)" using mapped_less [OF assms(2,3)] alloc by simp
  then have rem: "unat ?rem = length (b_chunks b) - unat (allocatedChunks b)"
    using len by (simp add: unat_sub word_le_nat_alt)
  then have pos: "0 < ?rem"
    using \<open>unat (allocatedChunks b) < length (b_chunks b)\<close> by (simp add: word_less_nat_alt)
  let ?s = "slabSize b ?rem"
  have s: "0 < unat ?s" "unat ?s \<le> unat ?rem"
    using slabSize_bounds [OF assms(1) pos] by (auto simp: word_less_nat_alt word_le_nat_alt)
  show thesis
  proof (cases ok)
    case False
    with True pos s show thesis by (intro fail) (auto simp: getChunk_def Let_def)
  next
    case ok: True
    let ?free = "replicate (unat ?s) (replicate ChunkSize (0::byte))"
    let ?b = "b\<lparr>allocatedChunks := allocatedChunks b + ?s, nextAllocChunks := nextSlab b, freeChunks := butlast ?free\<rparr>"
    have "unat (allocatedChunks b + ?s) = unat (allocatedChunks b) + unat ?s"
      using s(2) rem assms(4) \<open>unat (allocatedChunks b) < length (b_chunks b)\<close>
      by (intro unat_add_lem [THEN iffD1]) simp
    then have "allocOk (?b\<lparr>b_chunks := (b_chunks b)[c := Some x]\<rparr>)" for x
      using assms(1) alloc s rem mapped_update [OF assms(2,3), of x] nextSlab_bounds [OF assms(1)]
      by (auto simp: allocOk_def dest: in_set_butlastD)
    moreover have "getChunk ok b = (Inr (last ?free), ?b)"
      using True pos s ok by (auto simp: getChunk_def Let_def)
    moreover have "length (last ?free) = ChunkSize" using s(1) by simp
    ultimately show thesis by (intro chunk [of "last ?free" ?b]) simp_all
  qed
qed

section \<open>The index after a write\<close>

lemma prevGen_irrefl: "g \<noteq> 0 \<Longrightarrow> \<not> prevGen g g"
  by (auto simp: prevGen_unat)

text \<open>Without wrap-around every entry stays as it is or falls behind the write position.\<close>

lemma posOk_advance:
  assumes "posOk cs bIdx g w" and "written cs i k v cs'" and "bIdx \<le> i"
  shows "posOk cs' (i + length (kvBytes k v)) g w"
proof -
  from assms(1) have w: "0 < w" by (simp add: posOk_def)
  from assms(1) consider (cur) k' v' where "posGen w = g" "entryOk cs (posIdx w) k' v'"
      "posIdx w + length (kvBytes k' v') \<le> bIdx"
    | (prev) "prevGen (posGen w) g" "bIdx \<le> posIdx w \<longrightarrow> (\<exists>k v. entryOk cs (posIdx w) k v)"
    by (auto simp: posOk_def)
  then show ?thesis
  proof cases
    case cur
    then have "entryOk cs' (posIdx w) k' v'"
      using assms(3) by (intro written_other [OF assms(2)]) simp_all
    moreover have "posIdx w + length (kvBytes k' v') \<le> i + length (kvBytes k v)" using cur(3) assms(3) by simp
    ultimately show ?thesis using w cur(1) unfolding posOk_def by blast
  next
    case prev
    have "\<exists>k v. entryOk cs' (posIdx w) k v" if j: "i + length (kvBytes k v) \<le> posIdx w"
    proof -
      have "bIdx \<le> posIdx w" using j assms(3) by simp
      with prev(2) obtain k' v' where "entryOk cs (posIdx w) k' v'" by blast
      then have "entryOk cs' (posIdx w) k' v'" using j by (intro written_other [OF assms(2)]) simp_all
      then show ?thesis by blast
    qed
    with prev(1) w show ?thesis by (simp add: posOk_def)
  qed
qed

text \<open>On wrap-around the entries of the current generation become those of the previous one.\<close>

lemma posOk_wrap:
  assumes "posOk cs bIdx g w" and "written cs 0 k v cs'" and "posGen w = g" and "prevGen g g'" and "g \<noteq> 0"
  shows "posOk cs' (length (kvBytes k v)) g' w"
proof -
  obtain k' v' where e: "entryOk cs (posIdx w) k' v'"
    using assms(1,3,5) prevGen_irrefl [of g] by (auto simp: posOk_def)
  have "entryOk cs' (posIdx w) k' v'" if "length (kvBytes k v) \<le> posIdx w"
    using that by (intro written_other [OF assms(2) e]) simp_all
  with assms show ?thesis by (auto simp: posOk_def)
qed

lemma posOk_new:
  assumes "written cs i k v cs'" and "g AND maxGen \<noteq> 0" and "length cs * ChunkSize < 2 ^ bucketSizeBits"
  shows "posOk cs' (i + length (kvBytes k v)) (g AND maxGen) (packPos i g)"
    and "posIdx (packPos i g) = i" and "posGen (packPos i g) = g AND maxGen"
proof -
  have "i div ChunkSize < length cs" using assms(1) by (simp add: written_def)
  then have "i < length cs * ChunkSize" by (simp add: div_less_iff_less_mult)
  then have i: "i < 2 ^ bucketSizeBits" using assms(3) by linarith
  show p: "posIdx (packPos i g) = i" "posGen (packPos i g) = g AND maxGen"
    using posIdx_pack [OF i] posGen_pack [OF i] .
  show "posOk cs' (i + length (kvBytes k v)) (g AND maxGen) (packPos i g)"
    using packPos_nonzero [OF i assms(2)] written_entry [OF assms(1)] unfolding posOk_def p by blast
qed

text \<open>What can be read after the write could be read before, with the same contents.\<close>

lemma entryAt_written:
  assumes "entryOk cs (posIdx w) k' v'" and "written cs i k v cs'" and "ringOk cs j" and "ringOk cs' j'"
    and "posIdx w + length (kvBytes k' v') \<le> i \<or> i + length (kvBytes k v) \<le> posIdx w"
  shows "entryAt cs' (posIdx w) = entryAt cs (posIdx w)"
  using entryAt_entryOk [OF assms(1,3)] entryAt_entryOk [OF written_other [OF assms(2,1,5)] assms(4)] by simp

lemma keepPos_advance:
  assumes "posOk cs bIdx g w" and "g \<noteq> 0" and "written cs i k v cs'" and "bIdx \<le> i"
    and "ringOk cs j" and "ringOk cs' j'" and "keepPos g (i + length (kvBytes k v)) w"
  shows "keepPos g bIdx w" and "entryAt cs' (posIdx w) = entryAt cs (posIdx w)"
proof -
  have "keepPos g bIdx w \<and> (\<exists>k' v'. entryOk cs (posIdx w) k' v' \<and>
      (posIdx w + length (kvBytes k' v') \<le> i \<or> i + length (kvBytes k v) \<le> posIdx w))"
  proof (cases "posGen w = g")
    case True
    then obtain k' v' where "entryOk cs (posIdx w) k' v'" "posIdx w + length (kvBytes k' v') \<le> bIdx"
      using assms(1,2) prevGen_irrefl by (auto simp: posOk_def)
    moreover from this have "posIdx w < bIdx" by simp
    ultimately show ?thesis using True assms(4) by (fastforce simp: keepPos_def Let_def)
  next
    case False
    then have p: "prevGen (posGen w) g" "i + length (kvBytes k v) \<le> posIdx w"
      using assms(7) by (auto simp: keepPos_def prevGen_def Let_def)
    then have "bIdx \<le> posIdx w" using assms(4) by simp
    with False p assms(1) show ?thesis by (auto simp: keepPos_def prevGen_def posOk_def Let_def)
  qed
  then show "keepPos g bIdx w" "entryAt cs' (posIdx w) = entryAt cs (posIdx w)"
    using entryAt_written [OF _ assms(3,5,6)] by blast+
qed

lemma keepPos_wrap:
  assumes "posOk cs bIdx g w" and "g \<noteq> 0" and "written cs 0 k v cs'"
    and g': "prevGen g g'" "g \<noteq> g'" "\<And>p. prevGen p g \<Longrightarrow> \<not> prevGen p g' \<and> p \<noteq> g'"
    and "ringOk cs j" and "ringOk cs' j'" and "keepPos g' (length (kvBytes k v)) w"
  shows "keepPos g bIdx w" and "entryAt cs' (posIdx w) = entryAt cs (posIdx w)"
proof -
  have p: "prevGen (posGen w) g'" "length (kvBytes k v) \<le> posIdx w"
    using assms(1,9) g' by (auto simp: keepPos_def posOk_def prevGen_def Let_def)
  then have "posGen w = g" using assms(1) g'(3) by (auto simp: posOk_def)
  then obtain k' v' where e: "entryOk cs (posIdx w) k' v'" "posIdx w + length (kvBytes k' v') \<le> bIdx"
    using assms(1,2) prevGen_irrefl by (auto simp: posOk_def)
  then have "posIdx w < bIdx" by simp
  then show "keepPos g bIdx w" using \<open>posGen w = g\<close> by (simp add: keepPos_def)
  show "entryAt cs' (posIdx w) = entryAt cs (posIdx w)"
    using p(2) by (intro entryAt_written [OF e(1) assms(3,7,8)]) simp
qed

section \<open>Set\<close>

text \<open>The fields that both bucket types share are equal.\<close>

definition sameRing :: "'a ringBucket_scheme \<Rightarrow> 'a ringBucket_scheme \<Rightarrow> bool" where
  "sameRing b b' \<longleftrightarrow>
     b_chunks b = b_chunks b' \<and> b_m b = b_m b' \<and> b_idx b = b_idx b' \<and> b_gen b = b_gen b' \<and>
     freeChunks b = freeChunks b' \<and> allocatedChunks b = allocatedChunks b' \<and>
     nextAllocChunks b = nextAllocChunks b' \<and> maxSlabChunks b = maxSlabChunks b'"

lemma sameRing_inv: "sameRing b b' \<Longrightarrow> ringInv b \<longleftrightarrow> ringInv b'"
  by (simp add: sameRing_def ringInv_def allocOk_def)

lemma sameRing_view: "sameRing b b' \<Longrightarrow> ringView b = ringView b'"
  by (auto simp: sameRing_def ringView_def validPos_def fun_eq_iff split: option.split)

definition fits :: "bytes \<Rightarrow> bytes \<Rightarrow> bool" where
  "fits k v \<longleftrightarrow> length (kvBytes k v) < ChunkSize"

text \<open>The state after the entry was stored and before the clean-up.\<close>

definition stored :: "'a ringBucket_scheme \<Rightarrow> bytes \<Rightarrow> bytes \<Rightarrow> u64 \<Rightarrow> nat \<Rightarrow> bool \<Rightarrow> 'a ringBucket_scheme \<Rightarrow> bool" where
  "stored b k v h i wrapped b' \<longleftrightarrow>
     written (b_chunks b) i k v (b_chunks b') \<and> ringOk (b_chunks b') (b_idx b') \<and> allocOk b' \<and>
     b_idx b' = i + length (kvBytes k v) \<and>
     b_gen b' = (if wrapped then nextGen (b_gen b) else b_gen b) \<and>
     b_m b' = AList.update h (packPos i (b_gen b')) (b_m b) \<and>
     (if wrapped then i = 0 else b_idx b \<le> i)"

lemma ringOk_written:
  assumes "ringOk cs bIdx" and "c = i div ChunkSize" and "c < length cs"
    and "i mod ChunkSize + length (kvBytes k v) < ChunkSize" and "length arr = ChunkSize"
    and "0 < c \<Longrightarrow> cs ! 0 \<noteq> None"
  shows "ringOk (cs[c := Some (writeAt (i mod ChunkSize) (kvBytes k v) arr, i mod ChunkSize + length (kvBytes k v))])
           (i + length (kvBytes k v))"
proof -
  let ?n = "length (kvBytes k v)"
  let ?x = "Some (writeAt (i mod ChunkSize) (kvBytes k v) arr, i mod ChunkSize + ?n)"
  have d: "(i + ?n) div ChunkSize = c" "(i + ?n) mod ChunkSize = i mod ChunkSize + ?n"
    using div_mod_add_small [OF assms(4)] assms(2) by simp_all
  have w: "length (writeAt (i mod ChunkSize) (kvBytes k v) arr) = ChunkSize"
    using assms(4,5) by (subst length_writeAt) auto
  have "length a = ChunkSize" if "Some (a, l) \<in> set (cs[c := ?x])" for a l
  proof -
    from that have "Some (a, l) = ?x \<or> Some (a, l) \<in> set cs"
      using set_update_subset_insert [of cs c ?x] by blast
    then show ?thesis
    proof
      assume "Some (a, l) = ?x"
      with w show ?thesis by simp
    next
      assume "Some (a, l) \<in> set cs"
      with assms(1) show ?thesis unfolding ringOk_def by blast
    qed
  qed
  moreover have "cs[c := ?x] ! 0 \<noteq> None" using assms(3,6) by (cases c) auto
  moreover have "case (cs[c := ?x]) ! c of None \<Rightarrow> i + ?n = 0 | Some (a, l) \<Rightarrow> l = i mod ChunkSize + ?n"
    using assms(3) by (simp del: length_kvBytes)
  moreover have "length cs * ChunkSize < 2 ^ bucketSizeBits" using assms(1) unfolding ringOk_def by blast
  ultimately show ?thesis unfolding ringOk_def d length_list_update using assms(3) by blast
qed

locale ring_bucket =
  fixes onWrap clean :: "'a ringBucket_scheme \<Rightarrow> 'a ringBucket_scheme"
  assumes onWrap_same: "sameRing (onWrap b) b"
    and clean_filter: "\<exists>Q. sameRing (clean b) (b\<lparr>b_m := filter Q (b_m b)\<rparr>) \<and>
      (\<forall>e\<in>set (b_m b). keepPos (curGen b) (b_idx b) (snd e) \<longrightarrow> Q e) \<and>
      (\<forall>e\<in>set (b_m b). Q e \<longrightarrow> posGen (snd e) = curGen b \<or> prevGen (posGen (snd e)) (curGen b))"
begin

lemma Set_stored:
  assumes inv: "ringInv b" and "fits k v" and place: "placeEntry b (length (kvBytes k v)) = (i, iN, c, crossed, wrapped)"
    and b1: "b1 = (if wrapped then onWrap (wrapGen b) else b)"
    and b2: "b2 = (if crossed then truncChunk c b1 else b1)"
    and b3: "b_chunks b3 = b_chunks b2" "b_m b3 = b_m b2" "b_gen b3 = b_gen b2"
    and alloc: "\<And>x. allocOk (b3\<lparr>b_chunks := (b_chunks b)[c := Some x]\<rparr>)"
    and arr: "length arr = ChunkSize" "\<And>a l. b_chunks b ! c = Some (a, l) \<Longrightarrow> a = arr"
  shows "stored b k v h i wrapped (storeEntry k v h i iN c (arr, i mod ChunkSize) b3)"
proof -
  let ?n = "length (kvBytes k v)"
  have ring: "ringOk (b_chunks b) (b_idx b)" using inv by (simp add: ringInv_def)
  note p = placeEntry_spec [OF ring assms(2) [unfolded fits_def] place]
  have same: "b_chunks b1 = b_chunks b" "b_m b1 = b_m b" "b_gen b1 = (if wrapped then nextGen (b_gen b) else b_gen b)"
    using onWrap_same [of "wrapGen b"] by (auto simp: b1 sameRing_def wrapGen_def)
  have cs: "(b_chunks b3)[c := Some x] = (b_chunks b)[c := Some x]" for x
    by (simp add: b3(1) b2 same truncChunk_def)
  have m: "b_m b3 = b_m b" "b_gen b3 = (if wrapped then nextGen (b_gen b) else b_gen b)"
    by (simp_all add: b3 b2 same truncChunk_def)
  have "0 < c \<Longrightarrow> b_chunks b ! 0 \<noteq> None" using p ring by (simp add: ringOk_def)
  then have r: "ringOk ((b_chunks b)[c := Some (writeAt (i mod ChunkSize) (kvBytes k v) arr, i mod ChunkSize + ?n)]) (i + ?n)"
    using p arr(1) by (intro ringOk_written [OF ring]) auto
  have w: "written (b_chunks b) i k v
      ((b_chunks b)[c := Some (writeAt (i mod ChunkSize) (kvBytes k v) arr, i mod ChunkSize + ?n)])"
    using p arr unfolding written_def by blast
  have iN: "iN = i + ?n" using p by blast
  define b' where "b' = storeEntry k v h i iN c (arr, i mod ChunkSize) b3"
  have f: "b_chunks b' = (b_chunks b)[c := Some (writeAt (i mod ChunkSize) (kvBytes k v) arr, i mod ChunkSize + ?n)]"
    "b_idx b' = i + ?n" "b_gen b' = (if wrapped then nextGen (b_gen b) else b_gen b)"
    "b_m b' = AList.update h (packPos i (b_gen b')) (b_m b)"
    using iN by (simp_all add: b'_def storeEntry_def Let_def cs m del: length_kvBytes)
  have "allocOk b'" using alloc cs by (simp add: b'_def allocOk_def storeEntry_def Let_def)
  with f r w p show ?thesis unfolding b'_def [symmetric] stored_def by metis
qed

lemma Set_cases:
  assumes inv: "ringInv b" and fits: "fits k v"
  obtains (stored) b' i wrapped where
      "Set_ring onWrap clean ok k v h b = Inr (None, if wrapped then clean b' else b')" "stored b k v h i wrapped b'"
    | (fail) "\<not> ok" "Set_ring onWrap clean ok k v h b = Inr (Some MmapFailed, b)"
proof -
  let ?n = "4 + length k + length v"
  obtain i iN c crossed wrapped where place: "placeEntry b ?n = (i, iN, c, crossed, wrapped)"
    by (metis prod_cases5)
  have ring: "ringOk (b_chunks b) (b_idx b)" and alloc: "allocOk b" using inv by (simp_all add: ringInv_def)
  have n: "?n < ChunkSize" using fits by (simp add: fits_def)
  note p = placeEntry_spec [OF ring n place]
  define b1 where "b1 = (if wrapped then onWrap (wrapGen b) else b)"
  define b2 where "b2 = (if crossed then truncChunk c b1 else b1)"
  have same: "b_chunks b1 = b_chunks b" "freeChunks b1 = freeChunks b" "allocatedChunks b1 = allocatedChunks b"
    "nextAllocChunks b1 = nextAllocChunks b" "maxSlabChunks b1 = maxSlabChunks b"
    using onWrap_same [of "wrapGen b"] by (auto simp: b1_def sameRing_def wrapGen_def)
  have len: "length (b_chunks b1) = length (b_chunks b)" using same by simp
  have c: "c < length (b_chunks b)" using p by blast
  have set: "Set_ring onWrap clean ok k v h b =
      (let finish = (\<lambda>chunk b. let b = storeEntry k v h i iN c chunk b in Inr (None, if wrapped then clean b else b))
       in case b_chunks b2 ! c of
            Some chunk \<Rightarrow> finish chunk b2
          | None \<Rightarrow> (case getChunk ok b2 of (Inl e, b) \<Rightarrow> Inr (Some e, b) | (Inr arr, b) \<Rightarrow> finish (arr, 0) b))"
    using n c len unfolding b1_def b2_def
    by (cases wrapped; cases crossed) (simp_all add: Set_ring_def place Let_def)
  show thesis
  proof (cases "b_chunks b ! c")
    case (Some x)
    obtain arr l where x: "x = (arr, l)" by (cases x)
    have "Some x \<in> set (b_chunks b)" using Some c by (metis nth_mem)
    then have arr: "length arr = ChunkSize" using ring unfolding ringOk_def x by blast
    have "b_chunks b2 ! c = Some (arr, i mod ChunkSize)"
    proof (cases crossed)
      case True
      then show ?thesis using Some x p c by (simp add: b2_def truncChunk_def same)
    next
      case False
      then have "l = i mod ChunkSize" using Some x p ring by (auto simp: ringOk_def)
      then show ?thesis using False Some x by (simp add: b2_def same)
    qed
    moreover have "stored b k v h i wrapped (storeEntry k v h i iN c (arr, i mod ChunkSize) b2)"
    proof (rule Set_stored [OF inv fits _ b1_def b2_def refl refl refl _ arr])
      show "placeEntry b (length (kvBytes k v)) = (i, iN, c, crossed, wrapped)" using place by simp
      show "allocOk (b2\<lparr>b_chunks := (b_chunks b)[c := Some x]\<rparr>)" for x
        using alloc Some c same mapped_update_same [of c "b_chunks b" "Some x"]
        by (simp add: allocOk_def b2_def truncChunk_def)
      show "\<And>a l. b_chunks b ! c = Some (a, l) \<Longrightarrow> a = arr" using Some x by simp
    qed
    ultimately show thesis by (intro stored) (simp_all add: set Let_def)
  next
    case None
    then have "\<not> wrapped" using p ring by (auto simp: ringOk_def)
    have "b2 = b" using None \<open>\<not> wrapped\<close> c by (simp add: b2_def b1_def truncChunk_def list_update_same_conv)
    have "i mod ChunkSize = 0" using p ring None by (cases crossed) (auto simp: ringOk_def)
    have "length (b_chunks b) < 2 ^ 63" using ring by (simp add: ringOk_def)
    from alloc c None this show thesis
    proof (cases rule: getChunk_cases [of b c ok])
      case (chunk arr b')
      have "b_chunks b' = b_chunks b" "b_m b' = b_m b" "b_gen b' = b_gen b" by (subst chunk(4), simp)+
      then have "stored b k v h i wrapped (storeEntry k v h i iN c (arr, i mod ChunkSize) b')"
        using place chunk(2,3) None
        by (intro Set_stored [OF inv fits _ b1_def b2_def]) (simp_all add: \<open>b2 = b\<close>)
      then show thesis
        using chunk(1) None \<open>i mod ChunkSize = 0\<close> by (intro stored) (simp_all add: set \<open>b2 = b\<close> Let_def)
    next
      case fail
      have "Set_ring onWrap clean ok k v h b = Inr (Some MmapFailed, b)"
        unfolding set \<open>b2 = b\<close> using fail(2) None by simp
      with fail(1) show thesis by (rule that(2))
    qed
  qed
qed

text \<open>The bucket after a successful store, clean-up included.\<close>

lemma stored_final:
  assumes inv: "ringInv b" and st: "stored b k v h i wrapped b'"
    and bF: "bF = (if wrapped then clean b' else b')"
  obtains Q where "sameRing bF (b'\<lparr>b_m := filter Q (b_m b')\<rparr>)"
    and "\<And>e. e \<in> set (b_m b') \<Longrightarrow> keepPos (curGen b') (b_idx b') (snd e) \<Longrightarrow> Q e"
    and "\<And>e. wrapped \<Longrightarrow> e \<in> set (b_m b') \<Longrightarrow> Q e \<Longrightarrow> posGen (snd e) = curGen b' \<or> prevGen (posGen (snd e)) (curGen b')"
proof (cases wrapped)
  case True
  with clean_filter [of b'] that show thesis by (auto simp: bF)
next
  case False
  then have "sameRing bF (b'\<lparr>b_m := filter (\<lambda>_. True) (b_m b')\<rparr>)" by (simp add: bF sameRing_def)
  then show thesis using False by (intro that [of "\<lambda>_. True"]) auto
qed

lemma stored_entries:
  assumes inv: "ringInv b" and st: "stored b k v h i wrapped b'" and e: "(h', w) \<in> set (b_m b')"
    and gen: "wrapped \<Longrightarrow> posGen w = curGen b' \<or> prevGen (posGen w) (curGen b')"
  shows "posOk (b_chunks b') (b_idx b') (curGen b') w"
    and "h' \<noteq> h \<Longrightarrow> keepPos (curGen b') (b_idx b') w \<Longrightarrow>
      keepPos (curGen b) (b_idx b) w \<and> entryAt (b_chunks b') (posIdx w) = entryAt (b_chunks b) (posIdx w)"
proof -
  have i: "ringOk (b_chunks b) (b_idx b)" "curGen b \<noteq> 0" "distinct (map fst (b_m b))"
    "\<forall>e\<in>set (b_m b). posOk (b_chunks b) (b_idx b) (curGen b) (snd e)" using inv by (auto simp: ringInv_def)
  have s: "written (b_chunks b) i k v (b_chunks b')" "ringOk (b_chunks b') (b_idx b')"
    "b_idx b' = i + length (kvBytes k v)" "b_gen b' = (if wrapped then nextGen (b_gen b) else b_gen b)"
    "b_m b' = AList.update h (packPos i (b_gen b')) (b_m b)" "if wrapped then i = 0 else b_idx b \<le> i"
    using st by (auto simp: stored_def)
  note g' = nextGen_props [OF refl refl i(2)]
  have cur: "curGen b' \<noteq> 0" using s(4) i(2) g'(1) by (cases wrapped) auto
  have len: "length (b_chunks b) * ChunkSize < 2 ^ bucketSizeBits" using i(1) unfolding ringOk_def by blast
  have d': "distinct (map fst (b_m b'))" unfolding s(5) by (rule distinct_update [OF i(3)])
  have map: "map_of (b_m b') h' = Some w" using e d' by (rule map_of_is_SomeI [rotated])
  have old: "posOk (b_chunks b) (b_idx b) (curGen b) w" if "h' \<noteq> h"
  proof -
    have "map_of (b_m b) h' = Some w" using map that unfolding s(5) update_conv' by simp
    then have "(h', w) \<in> set (b_m b)" by (rule map_of_SomeD)
    then show ?thesis using i(4) by fastforce
  qed
  show "posOk (b_chunks b') (b_idx b') (curGen b') w"
  proof (cases "h' = h")
    case True
    then have "w = packPos i (b_gen b')" using map unfolding s(5) update_conv' by simp
    then show ?thesis using posOk_new(1) [OF s(1) cur len] s(3) by simp
  next
    case False
    show ?thesis
    proof (cases wrapped)
      case True
      have "posGen w = curGen b" using gen [OF True] old [OF False] g'(4) s(4) True by (auto simp: posOk_def)
      then show ?thesis
        using posOk_wrap [OF old [OF False] _ _ g'(2) i(2), of k v] s True by (simp del: length_kvBytes)
    next
      case no: False
      then show ?thesis using posOk_advance [OF old [OF False] s(1)] s by (simp del: length_kvBytes)
    qed
  qed
  show "keepPos (curGen b) (b_idx b) w \<and> entryAt (b_chunks b') (posIdx w) = entryAt (b_chunks b) (posIdx w)"
    if "h' \<noteq> h" and k: "keepPos (curGen b') (b_idx b') w"
  proof (cases wrapped)
    case True
    then have "written (b_chunks b) 0 k v (b_chunks b')" "keepPos (nextGen (b_gen b) AND maxGen) (length (kvBytes k v)) w"
      using s k by (simp_all del: length_kvBytes)
    from keepPos_wrap [OF old [OF that(1)] i(2) this(1) g'(2,3,4) i(1) s(2) this(2)] show ?thesis by blast
  next
    case False
    then have "b_idx b \<le> i" "keepPos (curGen b) (i + length (kvBytes k v)) w" using s k by (simp_all del: length_kvBytes)
    from keepPos_advance [OF old [OF that(1)] i(2) s(1) this(1) i(1) s(2) this(2)] show ?thesis by blast
  qed
qed

text \<open>\<open>Set\<close> on an entry that fits.\<close>

lemma Set_fits:
  assumes inv: "ringInv b" and fits: "fits k v"
  obtains (stored) b' where "Set_ring onWrap clean ok k v h b = Inr (None, b')" and "ringInv b'"
      and "ringView b' h = Some (k, v)" and "\<And>h'. h' \<noteq> h \<Longrightarrow> ringView b' h' = ringView b h' \<or> ringView b' h' = None"
    | (fail) "\<not> ok" and "Set_ring onWrap clean ok k v h b = Inr (Some MmapFailed, b)"
proof (rule Set_cases [OF inv fits, of ok h])
  fix b' i wrapped
  assume set: "Set_ring onWrap clean ok k v h b = Inr (None, if wrapped then clean b' else b')"
    and st: "stored b k v h i wrapped b'"
  define bF where "bF = (if wrapped then clean b' else b')"
  obtain Q where Q: "sameRing bF (b'\<lparr>b_m := filter Q (b_m b')\<rparr>)"
    "\<And>e. e \<in> set (b_m b') \<Longrightarrow> keepPos (curGen b') (b_idx b') (snd e) \<Longrightarrow> Q e"
    "\<And>e. wrapped \<Longrightarrow> e \<in> set (b_m b') \<Longrightarrow> Q e \<Longrightarrow> posGen (snd e) = curGen b' \<or> prevGen (posGen (snd e)) (curGen b')"
    by (rule stored_final [OF inv st bF_def]) (rule that)
  let ?b = "b'\<lparr>b_m := filter Q (b_m b')\<rparr>"
  have s: "written (b_chunks b) i k v (b_chunks b')" "ringOk (b_chunks b') (b_idx b')" "allocOk b'"
    "b_idx b' = i + length (kvBytes k v)" "b_gen b' = (if wrapped then nextGen (b_gen b) else b_gen b)"
    "b_m b' = AList.update h (packPos i (b_gen b')) (b_m b)"
    using st by (auto simp: stored_def)
  have d: "distinct (map fst (b_m b))" and g: "curGen b \<noteq> 0" and len: "length (b_chunks b) * ChunkSize < 2 ^ bucketSizeBits"
    using inv by (auto simp: ringInv_def ringOk_def)
  have d': "distinct (map fst (b_m b'))" unfolding s(6) by (rule distinct_update [OF d])
  have cur: "curGen b' \<noteq> 0" using s(5) g nextGen_props(1) [OF refl refl g] by (cases wrapped) auto
  have entries: "posOk (b_chunks b') (b_idx b') (curGen b') (snd e)" if "e \<in> set (b_m b')" "Q e" for e
    using stored_entries(1) [OF inv st, of "fst e" "snd e"] Q(3) [of e] that by simp
  have inv': "ringInv ?b"
    using s(2,3) cur entries distinct_fst_filter [OF d'] by (simp add: ringInv_def allocOk_def)
  note new = posOk_new [OF s(1) cur len]
  have look: "map_of (b_m ?b) x = Some w \<longleftrightarrow> map_of (b_m b') x = Some w \<and> Q (x, w)" for x w
    using map_of_filter_distinct [OF d'] by simp
  have valid: "validPos ?b w \<longleftrightarrow> keepPos (curGen b') (b_idx b') w" for w by (simp add: validPos_keepPos)
  have "ringView ?b h = Some (k, v)"
  proof -
    let ?w = "packPos i (b_gen b')"
    have m: "map_of (b_m b') h = Some ?w" unfolding s(6) update_conv' by simp
    have k: "keepPos (curGen b') (b_idx b') ?w" using new(2,3) s(4) by (simp add: keepPos_def)
    then have "Q (h, ?w)" using Q(2) [of "(h, ?w)"] map_of_SomeD [OF m] by simp
    then have "map_of (b_m ?b) h = Some ?w" using look m by blast
    moreover have "entryAt (b_chunks b') i = Some (k, v)" using entryAt_entryOk [OF written_entry [OF s(1)] s(2)] .
    ultimately show ?thesis using k new(2) valid by (simp add: ringView_def)
  qed
  moreover have "ringView ?b h' = ringView b h' \<or> ringView ?b h' = None" if "h' \<noteq> h" for h'
  proof (cases "\<exists>w. map_of (b_m ?b) h' = Some w \<and> validPos ?b w")
    case True
    then obtain w where w: "map_of (b_m ?b) h' = Some w" "validPos ?b w" by blast
    then have m: "map_of (b_m b') h' = Some w" "Q (h', w)" using look by auto
    have "keepPos (curGen b) (b_idx b) w \<and> entryAt (b_chunks b') (posIdx w) = entryAt (b_chunks b) (posIdx w)"
      using w(2) valid map_of_SomeD [OF m(1)] Q(3) [of "(h', w)"] m(2) that
      by (intro stored_entries(2) [OF inv st, of h' w]) auto
    moreover have "map_of (b_m b) h' = Some w" using m(1) that unfolding s(6) update_conv' by simp
    ultimately show ?thesis using w by (simp add: ringView_def validPos_keepPos)
  next
    case False
    then show ?thesis by (auto simp: ringView_def split: option.split)
  qed
  ultimately show thesis
    using stored [of bF] set inv' sameRing_inv [OF Q(1)] sameRing_view [OF Q(1)] by (simp add: bF_def)
qed (rule fail)

lemma Set_unfit: "\<not> fits k v \<Longrightarrow> \<exists>e. Set_ring onWrap clean ok k v h b = Inr (Some e, b)"
  by (auto simp: Set_ring_def fits_def Let_def)

end

end
