(* ===== verification/Cache_Buckets.thy ===== *)
theory Cache_Buckets
  imports Cache_Ring_Inv
begin

text \<open>
  The contract of a cache bucket, the interface \<open>bucketInterface\<close> of the source, as a locale: a bucket
  is a lossy map from hashes to entries. What every client may rely on is proved once from the
  contract; the two ring-buffer buckets implement it.
\<close>

section \<open>The contract\<close>

datatype bucketOp = OpSet bool bytes bytes u64 | OpDel u64 | OpReset

locale bucket_spec =
  fixes inv :: "'b \<Rightarrow> bool" and view :: "'b \<Rightarrow> u64 \<Rightarrow> (bytes \<times> bytes) option"
    and set :: "bool \<Rightarrow> bytes \<Rightarrow> bytes \<Rightarrow> u64 \<Rightarrow> 'b \<Rightarrow> (cacheErr option \<times> 'b) go"
    and get :: "bytes \<Rightarrow> bytes \<Rightarrow> u64 \<Rightarrow> bool \<Rightarrow> 'b \<Rightarrow> (bool \<times> bytes) go"
    and del :: "u64 \<Rightarrow> 'b \<Rightarrow> 'b" and reset :: "'b \<Rightarrow> 'b"
  assumes set_total: "inv b \<Longrightarrow> \<exists>e b'. set ok k v h b = Inr (e, b') \<and> inv b'"
    and set_ok: "inv b \<Longrightarrow> set ok k v h b = Inr (None, b') \<Longrightarrow> fits k v \<and> view b' h = Some (k, v)"
    and set_other: "inv b \<Longrightarrow> set ok k v h b = Inr (None, b') \<Longrightarrow> h' \<noteq> h \<Longrightarrow> view b' h' = view b h' \<or> view b' h' = None"
    and set_err: "inv b \<Longrightarrow> set ok k v h b = Inr (Some e, b') \<Longrightarrow> view b' = view b \<and> \<not> (ok \<and> fits k v)"
    and get_view: "inv b \<Longrightarrow> get dst k h ret b =
        Inr (case view b h of
               None \<Rightarrow> (False, dst)
             | Some (k', v) \<Rightarrow> if k = k' then (True, if ret then dst @ v else dst) else (False, dst))"
    and del_inv: "inv b \<Longrightarrow> inv (del h b)"
    and del_view: "inv b \<Longrightarrow> view (del h b) = (view b)(h := None)"
    and reset_inv: "inv b \<Longrightarrow> inv (reset b)"
    and reset_view: "inv b \<Longrightarrow> view (reset b) = Map.empty"
begin

text \<open>
  One operation on a bucket and on the history map \<open>m\<close>, which records what was last written
  successfully for each hash and not removed since.
\<close>

definition run1 :: "bucketOp \<Rightarrow> 'b \<times> (u64 \<rightharpoonup> bytes \<times> bytes) \<Rightarrow> 'b \<times> (u64 \<rightharpoonup> bytes \<times> bytes)" where
  "run1 op = (\<lambda>(b, m). case op of
     OpSet ok k v h \<Rightarrow>
       (case set ok k v h b of
          Inr (None, b') \<Rightarrow> (b', m(h \<mapsto> (k, v)))
        | Inr (Some _, b') \<Rightarrow> (b', m)
        | Inl _ \<Rightarrow> (b, m))
   | OpDel h \<Rightarrow> (del h b, m(h := None))
   | OpReset \<Rightarrow> (reset b, Map.empty))"

lemma set_get:
  assumes "inv b" and "fits k v"
  shows "\<exists>b'. set True k v h b = Inr (None, b') \<and> inv b' \<and> get dst k h True b' = Inr (True, dst @ v)"
proof -
  obtain e b' where s: "set True k v h b = Inr (e, b')" "inv b'" using set_total [OF assms(1)] by blast
  then have "e = None" using set_err [OF assms(1)] assms(2) by (cases e) auto
  with s set_ok [OF assms(1)] get_view [OF s(2)] show ?thesis by fastforce
qed

text \<open>Soundness: the contents are a part of what the history wrote last.\<close>

lemma run1_sound:
  assumes "inv b" and "view b \<subseteq>\<^sub>m m"
  shows "inv (fst (run1 op (b, m))) \<and> view (fst (run1 op (b, m))) \<subseteq>\<^sub>m snd (run1 op (b, m))"
proof (cases op)
  case (OpSet ok k v h)
  obtain e b' where s: "set ok k v h b = Inr (e, b')" "inv b'" using set_total [OF assms(1)] by blast
  show ?thesis
  proof (cases e)
    case None
    have "view b' h' = (m(h \<mapsto> (k, v))) h'" if "h' \<in> dom (view b')" for h'
      using that s None set_ok [OF assms(1)] set_other [OF assms(1), of ok k v h b' h'] assms(2)
      by (cases "h' = h") (auto simp: map_le_def dom_def)
    then show ?thesis using s None OpSet by (simp add: run1_def map_le_def)
  next
    case (Some err)
    then show ?thesis using s set_err [OF assms(1)] assms(2) OpSet by (auto simp: run1_def)
  qed
next
  case (OpDel h)
  then show ?thesis using assms del_view del_inv by (auto simp: run1_def map_le_def)
next
  case OpReset
  then show ?thesis using assms reset_view reset_inv by (auto simp: run1_def map_le_def)
qed

lemma run_sound:
  assumes "inv b" and "view b \<subseteq>\<^sub>m m"
  shows "inv (fst (fold run1 ops (b, m))) \<and> view (fst (fold run1 ops (b, m))) \<subseteq>\<^sub>m snd (fold run1 ops (b, m))"
  using assms
proof (induction ops arbitrary: b m)
  case (Cons op ops)
  then show ?case using run1_sound [OF Cons.prems, of op] by (cases "run1 op (b, m)") simp
qed simp

lemma get_sound:
  assumes "inv b" and "view b \<subseteq>\<^sub>m m" and "get dst k h True (fst (fold run1 ops (b, m))) = Inr (True, dst @ v)"
  shows "snd (fold run1 ops (b, m)) h = Some (k, v)"
proof -
  let ?r = "fold run1 ops (b, m)"
  have r: "inv (fst ?r)" "view (fst ?r) \<subseteq>\<^sub>m snd ?r" using run_sound [OF assms(1,2)] by auto
  have "view (fst ?r) h = Some (k, v)"
    using assms(3) get_view [OF r(1)] by (auto split: option.splits if_splits)
  with r(2) show ?thesis by (auto simp: map_le_def dom_def)
qed

end

section \<open>The ring buckets\<close>

lemma cleanLockedMap_u_filter:
  "sameRing (cleanLockedMap_u b) (b\<lparr>b_m := filter (\<lambda>e. keepPos (curGen b) (b_idx b) (snd e)) (b_m b)\<rparr>)"
proof (cases "length (filter (\<lambda>e. keepPos (curGen b) (b_idx b) (snd e)) (b_m b)) < length (b_m b)")
  case False
  then have "filter (\<lambda>e. keepPos (curGen b) (b_idx b) (snd e)) (b_m b) = b_m b"
    by (metis length_filter_le le_neq_implies_less filter_True length_filter_less)
  then show ?thesis using False by (simp add: cleanLockedMap_u_def sameRing_def)
qed (simp add: cleanLockedMap_u_def sameRing_def)

interpretation ring_u: ring_bucket "\<lambda>b. b" cleanLockedMap_u
proof
  fix b :: "'a ringBucket_scheme"
  show "sameRing b b" by (simp add: sameRing_def)
  show "\<exists>Q. sameRing (cleanLockedMap_u b) (b\<lparr>b_m := filter Q (b_m b)\<rparr>) \<and>
      (\<forall>e\<in>set (b_m b). keepPos (curGen b) (b_idx b) (snd e) \<longrightarrow> Q e) \<and>
      (\<forall>e\<in>set (b_m b). Q e \<longrightarrow> posGen (snd e) = curGen b \<or> prevGen (posGen (snd e)) (curGen b))"
    using cleanLockedMap_u_filter [of b]
    by (intro exI [of _ "\<lambda>e. keepPos (curGen b) (b_idx b) (snd e)"]) (auto simp: keepPos_def prevGen_def Let_def)
qed

lemma cleanLockedMap_t_filter:
  "\<exists>Q. sameRing (cleanLockedMap_t b) (b\<lparr>b_m := filter Q (b_m b)\<rparr>) \<and>
      (\<forall>e\<in>set (b_m b). keepPos (curGen b) (b_idx b) (snd e) \<longrightarrow> Q e) \<and>
      (\<forall>e\<in>set (b_m b). Q e \<longrightarrow> posGen (snd e) = curGen b \<or> prevGen (posGen (snd e)) (curGen b))"
proof (cases "length (filter (\<lambda>e. countPos (curGen b) (b_idx b) (snd e)) (b_m b)) < length (b_m b)")
  case True
  then have "sameRing (cleanLockedMap_t b) (b\<lparr>b_m := filter (\<lambda>e. keepPos (curGen b) (b_idx b) (snd e)) (b_m b)\<rparr>)"
    by (simp add: cleanLockedMap_t_def sameRing_def)
  then show ?thesis
    by (intro exI [of _ "\<lambda>e. keepPos (curGen b) (b_idx b) (snd e)"]) (auto simp: keepPos_def prevGen_def Let_def)
next
  case False
  then have "\<forall>e\<in>set (b_m b). countPos (curGen b) (b_idx b) (snd e)" by (metis length_filter_less)
  moreover have "sameRing (cleanLockedMap_t b) (b\<lparr>b_m := filter (\<lambda>_. True) (b_m b)\<rparr>)"
    using False by (simp add: cleanLockedMap_t_def sameRing_def)
  ultimately show ?thesis
    by (intro exI [of _ "\<lambda>_. True"]) (auto simp: countPos_def prevGen_def Let_def)
qed

interpretation ring_t: ring_bucket "\<lambda>b. b\<lparr>overWriting := True\<rparr>" cleanLockedMap_t
  by unfold_locales (use cleanLockedMap_t_filter in \<open>auto simp: sameRing_def\<close>)

lemma ringInv_Del: "ringInv b \<Longrightarrow> ringInv (Del_ring h b)"
proof -
  assume "ringInv b"
  moreover have "set (AList.delete h (b_m b)) \<subseteq> set (b_m b)" by (auto simp: AList.delete_eq)
  ultimately show ?thesis
    by (auto simp: ringInv_def Del_ring_def allocOk_def distinct_delete)
qed

lemma ringView_Del: "ringView (Del_ring h b) = (ringView b)(h := None)"
  by (auto simp: ringView_def Del_ring_def fun_eq_iff AList.delete_conv' validPos_def split: option.split)

lemma fold_putChunk:
  "fold putChunk cs free = free @ map fst (map the (filter (\<lambda>c. c \<noteq> None) cs))"
  by (induction cs arbitrary: free) (auto simp: putChunk_def split: option.split)

lemma allocOk_Reset:
  assumes "allocOk b" and "ringOk (b_chunks b) (b_idx b)"
  shows "allocOk (Reset_ring b)"
proof -
  have len: "0 < length (b_chunks b)" "length (b_chunks b) < 2 ^ 63" using assms(2) by (auto simp: ringOk_def)
  then have "unat (of_nat (length (b_chunks b)) :: u64) = length (b_chunks b)" by (simp add: unat_of_nat)
  then have "0 < (of_nat (length (b_chunks b)) :: u64)" using len(1) by (simp only: word_less_nat_alt) simp
  then have "0 < calcInitialAllocChunks (maxSlabChunks b) (of_nat (length (b_chunks b))) \<and>
      calcInitialAllocChunks (maxSlabChunks b) (of_nat (length (b_chunks b))) \<le> 1024"
    using calcInitialAllocChunks_bounds assms(1) by (simp add: allocOk_def)
  moreover have "length (fst (the c)) = ChunkSize" if "c \<in> set (b_chunks b)" "c \<noteq> None" for c
    using that assms(2) by (auto simp: ringOk_def)
  moreover have "mapped (map (\<lambda>_. None) (b_chunks b)) = 0" by (simp add: mapped_def)
  ultimately show ?thesis
    using assms(1) by (auto simp: allocOk_def Reset_ring_def fold_putChunk mapped_def)
qed

lemma ringInv_Reset:
  assumes "ringInv b"
  shows "ringInv (Reset_ring b)"
proof -
  have r: "ringOk (b_chunks b) (b_idx b)" "allocOk b" using assms by (simp_all add: ringInv_def)
  have "0 < length (b_chunks b)" using r(1) by (auto simp: ringOk_def)
  then have "map (\<lambda>_. None :: chunk) (b_chunks b) ! 0 = None" by simp
  then have "ringOk (map (\<lambda>_. None) (b_chunks b)) 0" using r(1) \<open>0 < length (b_chunks b)\<close> by (auto simp: ringOk_def)
  with allocOk_Reset [OF r(2,1)] show ?thesis by (simp add: ringInv_def Reset_ring_def)
qed

lemma ringView_Reset: "ringView (Reset_ring b) = Map.empty"
  by (simp add: ringView_def Reset_ring_def fun_eq_iff)

text \<open>The contract for any instance of the ring.\<close>

context ring_bucket
begin

lemma Set_contract:
  assumes "ringInv b"
  shows "\<exists>e b'. Set_ring onWrap clean ok k v h b = Inr (e, b') \<and> ringInv b' \<and>
     (case e of
        None \<Rightarrow> fits k v \<and> ringView b' h = Some (k, v) \<and>
                (\<forall>h'. h' \<noteq> h \<longrightarrow> ringView b' h' = ringView b h' \<or> ringView b' h' = None)
      | Some _ \<Rightarrow> ringView b' = ringView b \<and> \<not> (ok \<and> fits k v))"
proof (cases "fits k v")
  case True
  show ?thesis by (cases rule: Set_fits [OF assms True, of ok h]) (use assms True in auto)
next
  case False
  then show ?thesis using Set_unfit [OF False, of ok h b] assms by auto
qed

end

interpretation bu: bucket_spec ringInv ringView Set_u Get_u Del_ring Reset_ring
proof
  fix b b' :: bucketUnallocated and ok k v h h' dst ret e
  assume inv: "ringInv b"
  note c = ring_u.Set_contract [OF inv, of ok k v h]
  show "\<exists>e b'. Set_u ok k v h b = Inr (e, b') \<and> ringInv b'" using c by (auto simp: Set_u_def)
  show "fits k v \<and> ringView b' h = Some (k, v)" if "Set_u ok k v h b = Inr (None, b')"
    using c that by (auto simp: Set_u_def)
  show "ringView b' h' = ringView b h' \<or> ringView b' h' = None" if "Set_u ok k v h b = Inr (None, b')" "h' \<noteq> h"
    using c that by (auto simp: Set_u_def)
  show "ringView b' = ringView b \<and> \<not> (ok \<and> fits k v)" if "Set_u ok k v h b = Inr (Some e, b')"
    using c that by (auto simp: Set_u_def)
qed (simp_all add: Get_u_def Get_ring_view ringInv_Del ringView_Del ringInv_Reset ringView_Reset)

text \<open>The counters of the trimmed bucket are outside the ring.\<close>

lemma Set_t_contract:
  assumes "ringInv b"
  shows "\<exists>e b'. Set_t ok k v h b = Inr (e, b') \<and> ringInv b' \<and>
     (case e of
        None \<Rightarrow> fits k v \<and> ringView b' h = Some (k, v) \<and>
                (\<forall>h'. h' \<noteq> h \<longrightarrow> ringView b' h' = ringView b h' \<or> ringView b' h' = None)
      | Some _ \<Rightarrow> ringView b' = ringView b \<and> \<not> (ok \<and> fits k v))"
proof -
  obtain e b1 where c: "Set_ring (\<lambda>b. b\<lparr>overWriting := True\<rparr>) cleanLockedMap_t ok k v h b = Inr (e, b1)" "ringInv b1"
    "case e of
        None \<Rightarrow> fits k v \<and> ringView b1 h = Some (k, v) \<and>
                (\<forall>h'. h' \<noteq> h \<longrightarrow> ringView b1 h' = ringView b h' \<or> ringView b1 h' = None)
      | Some _ \<Rightarrow> ringView b1 = ringView b \<and> \<not> (ok \<and> fits k v)"
    using ring_t.Set_contract [OF assms] by blast
  show ?thesis
  proof (cases e)
    case None
    obtain b' where b': "Set_t ok k v h b = Inr (None, b')" "sameRing b' b1"
      using c(1) None by (auto simp: Set_t_def Let_def sameRing_def)
    with c None sameRing_inv [OF b'(2)] sameRing_view [OF b'(2)] show ?thesis by auto
  next
    case (Some err)
    with c show ?thesis by (simp add: Set_t_def)
  qed
qed

lemma Reset_t_ring: "ringInv (Reset_t b) \<longleftrightarrow> ringInv (Reset_ring b)" "ringView (Reset_t b) = Map.empty"
  using sameRing_inv [of "Reset_t b" "Reset_ring b"] sameRing_view [of "Reset_t b" "Reset_ring b"] ringView_Reset
  by (simp_all add: Reset_t_def sameRing_def)

interpretation bt: bucket_spec ringInv ringView Set_t Get_t Del_ring Reset_t
proof
  fix b b' :: bucketTrimmed and ok k v h h' dst ret e
  assume inv: "ringInv b"
  note c = Set_t_contract [OF inv, of ok k v h]
  show "\<exists>e b'. Set_t ok k v h b = Inr (e, b') \<and> ringInv b'" using c by auto
  show "fits k v \<and> ringView b' h = Some (k, v)" if "Set_t ok k v h b = Inr (None, b')"
    using c that by auto
  show "ringView b' h' = ringView b h' \<or> ringView b' h' = None" if "Set_t ok k v h b = Inr (None, b')" "h' \<noteq> h"
    using c that by auto
  show "ringView b' = ringView b \<and> \<not> (ok \<and> fits k v)" if "Set_t ok k v h b = Inr (Some e, b')"
    using c that by auto
  show "Get_t dst k h ret b = Inr (case ringView b h of None \<Rightarrow> (False, dst)
      | Some (k', v) \<Rightarrow> if k = k' then (True, if ret then dst @ v else dst) else (False, dst))"
    by (simp add: Get_t_def Get_ring_view [OF inv]) (simp add: ringView_def)
  show "ringInv (Reset_t b)" using ringInv_Reset [OF inv] by (simp add: Reset_t_ring)
qed (simp_all add: ringInv_Del ringView_Del Reset_t_ring)

text \<open>A new bucket satisfies the invariant and is empty.\<close>

lemma Init_ring_facts:
  fixes b :: "'a ringBucket_scheme"
  assumes "maxBytes < maxBucketSize" and "maxChunks = (if maxBytes div 1024 = 0 then 1 else maxBytes div 1024)"
    and b: "b_chunks b = replicate (unat maxChunks) None" "freeChunks b = []" "allocatedChunks b = 0"
      "maxSlabChunks b = calcMaxSlabChunks maxBytes maxChunks"
  shows "ringInv (Reset_ring b)"
proof -
  have "unat maxBytes < 2 ^ 40" using assms(1) by (simp add: word_less_nat_alt)
  have n: "unat maxChunks = (if unat maxBytes div 1024 = 0 then 1 else unat maxBytes div 1024)"
    unfolding assms(2) by (simp add: unat_div_distrib unat_eq_zero [symmetric] del: unat_eq_zero)
  then have "unat maxChunks * 1024 \<le> max 1024 (unat maxBytes)" by auto
  then have big: "0 < unat maxChunks" "unat maxChunks * ChunkSize < 2 ^ 40"
    using n \<open>unat maxBytes < 2 ^ 40\<close> by auto
  then have mc: "0 < maxChunks" by (simp add: word_less_nat_alt)
  note slab = calcMaxSlabChunks_bounds [OF mc, of maxBytes]
  have "calcInitialAllocChunks (calcMaxSlabChunks maxBytes maxChunks) maxChunks \<le> 1024"
    "0 < calcInitialAllocChunks (calcMaxSlabChunks maxBytes maxChunks) maxChunks"
    using calcInitialAllocChunks_bounds [OF _ _ mc] slab by blast+
  then have "allocOk (Reset_ring b)"
    using slab b by (auto simp: allocOk_def Reset_ring_def fold_putChunk mapped_def simp del: fold_replicate)
  moreover have "ringOk (replicate (unat maxChunks) None) 0" using big by (auto simp: ringOk_def)
  ultimately show ?thesis using b by (simp add: ringInv_def Reset_ring_def)
qed

lemma Init_u_inv: "Init_u n = Inr b \<Longrightarrow> ringInv b \<and> ringView b = Map.empty"
  by (auto simp: Init_u_def Let_def ringView_Reset split: if_splits intro!: Init_ring_facts [of n])

lemma Init_t_inv: "Init_t n = Inr b \<Longrightarrow> ringInv b \<and> ringView b = Map.empty"
  by (auto simp: Init_t_def Let_def Reset_t_ring split: if_splits intro!: Init_ring_facts [of n])

end
