(* ===== verification/Cache_Prealloc.thy ===== *)
theory Cache_Prealloc
  imports Cache_Buckets
begin

text \<open>
  The preallocated bucket of \<^verbatim>\<open>internal/cache/improved_cache.go\<close>: all chunks are mapped at
  initialisation, and when they are full the oldest chunks are dropped and the rest shifted down.
\<close>

section \<open>Data model\<close>

text \<open>A chunk is its byte array; all have \<open>ChunkSize\<close> bytes.\<close>

record bucketPreallocated =
  p_chunks :: "bytes list"
  p_m :: "(u64 \<times> u64) list"
  p_idx :: nat
  p_gen :: u64
  trimRatio :: nat
  trimCount :: u64
  p_currentGenCount :: u64
  p_previousGenCount :: u64

section \<open>Operations\<close>

definition Reset_p :: "bucketPreallocated \<Rightarrow> bucketPreallocated" where
  "Reset_p b = b\<lparr>p_m := [], p_idx := 0, p_gen := 1, p_currentGenCount := 0, p_previousGenCount := 0\<rparr>"

text \<open>
  The loop that cuts the mapping into chunks: \<open>data = data[ChunkSize:]\<close> panics when less than a
  chunk is left.
\<close>

function cutChunks :: "nat \<Rightarrow> nat go" where
  "cutChunks len =
     (if len = 0 then Inr 0
      else if len < ChunkSize then Inl IndexOutOfRange
      else go_bind (cutChunks (len - ChunkSize)) (\<lambda>n. Inr (n + 1)))"
  by pat_completeness auto
termination
  by (relation "measure id") auto

declare cutChunks.simps [simp del]

definition Init_p :: "bool \<Rightarrow> u64 \<Rightarrow> nat \<Rightarrow> (cacheErr + bucketPreallocated) go" where
  "Init_p mmapOk maxBytes ratio =
     (if maxBytes = 0 then Inr (Inl ZeroMaxBytes)
      else if maxBytes \<ge> maxBucketSize then Inr (Inl TooBigMaxBytes)
      else if \<not> mmapOk then Inr (Inl MmapFailed)
      else
        go_bind (cutChunks (unat maxBytes)) (\<lambda>n.
          Inr (Inr (Reset_p
            \<lparr>p_chunks = replicate n (replicate ChunkSize 0), p_m = [], p_idx = 0, p_gen = 0,
             trimRatio = ratio, trimCount = 0, p_currentGenCount = 0, p_previousGenCount = 0\<rparr>))))"

text \<open>
  \<open>int(math.Ceil(float64(len(chunks) * trimRatio) / 100))\<close>: the operands are far below \<open>2^53\<close>, so the
  rounded quotient lies on the same side of every integer as the exact one.
\<close>

definition numOfChunksToRemove :: "bucketPreallocated \<Rightarrow> nat" where
  "numOfChunksToRemove b = (length (p_chunks b) * trimRatio b + 99) div 100"

definition cleanLockedMap_p :: "nat \<Rightarrow> bucketPreallocated \<Rightarrow> bucketPreallocated" where
  "cleanLockedMap_p startingOffset b =
     b\<lparr>p_m := map (\<lambda>(k, v). (k, packPos (posIdx v - startingOffset) (p_gen b)))
                (filter (\<lambda>(k, v). posIdx v \<ge> startingOffset) (p_m b)),
       trimCount := trimCount b + 1\<rparr>"

text \<open>Shifting the recent chunks to the front and clearing the rest.\<close>

definition trimChunks :: "nat \<Rightarrow> bytes list \<Rightarrow> bytes list" where
  "trimChunks remove cs = drop remove cs @ replicate (length cs - (length cs - remove)) (replicate ChunkSize 0)"

definition Set_p :: "bytes \<Rightarrow> bytes \<Rightarrow> u64 \<Rightarrow> bucketPreallocated \<Rightarrow> (cacheErr option \<times> bucketPreallocated) go" where
  "Set_p k v h b =
     (if length k \<ge> 2 ^ maxValueSizeLog \<or> length v \<ge> 2 ^ maxValueSizeLog then Inr (Some TooBigKeyOrValue, b)
      else
        (let kvLen = 4 + length k + length v
         in if kvLen \<ge> ChunkSize then Inr (Some DoesNotFitChunk, b)
            else
              (let idx = p_idx b; idxNew = idx + kvLen;
                   chunkIdx = idx div ChunkSize; chunkIdxNew = idxNew div ChunkSize;
                   (b, idx, idxNew, chunkIdx) =
                     (if chunkIdxNew > chunkIdx then
                        (if chunkIdxNew \<ge> length (p_chunks b) then
                           (let remove = numOfChunksToRemove b;
                                keep = length (p_chunks b) - remove;
                                idx = ChunkSize * keep;
                                b = b\<lparr>p_chunks := trimChunks remove (p_chunks b),
                                      p_previousGenCount := p_currentGenCount b, p_currentGenCount := 0\<rparr>
                            in (cleanLockedMap_p (remove * ChunkSize) b, idx, idx + kvLen, idx div ChunkSize))
                         else (b, chunkIdxNew * ChunkSize, chunkIdxNew * ChunkSize + kvLen, chunkIdxNew))
                      else (b, idx, idxNew, chunkIdx))
               in if chunkIdx \<ge> length (p_chunks b) then Inl IndexOutOfRange
                  else if p_chunks b ! chunkIdx = [] then Inr (Some EmptyChunk, b)
                  else
                    Inr (None,
                      b\<lparr>p_chunks := (p_chunks b)[chunkIdx := writeAt (idx mod ChunkSize) (kvBytes k v) (p_chunks b ! chunkIdx)],
                        p_currentGenCount := p_currentGenCount b + 1,
                        p_m := AList.update h (packPos idx (p_gen b)) (p_m b),
                        p_idx := idxNew\<rparr>))))"

text \<open>The generation and index test of \<open>Get\<close>.\<close>

definition validPos_p :: "bucketPreallocated \<Rightarrow> u64 \<Rightarrow> bool" where
  "validPos_p b w \<longleftrightarrow>
     (let gen = posGen w; idx = posIdx w; bGen = p_gen b AND (push_bit genSizeBits 1 - 1)
      in gen = bGen \<and> idx < p_idx b \<or> gen + 1 = bGen \<and> p_idx b \<le> idx \<or>
         gen = maxGen \<and> bGen = 1 \<and> p_idx b \<le> idx)"

definition Get_p :: "bytes \<Rightarrow> bytes \<Rightarrow> u64 \<Rightarrow> bool \<Rightarrow> bucketPreallocated \<Rightarrow> (bool \<times> bytes) go" where
  "Get_p dst k h returnDst b =
     (let v = (case map_of (p_m b) h of None \<Rightarrow> 0 | Some v \<Rightarrow> v)
      in if v > 0 \<and> validPos_p b v then
           (let idx = posIdx v; chunkIdx = idx div ChunkSize
            in if chunkIdx \<ge> length (p_chunks b) then Inr (False, dst)
               else
                 (case readKV (p_chunks b ! chunkIdx) (idx mod ChunkSize) of
                    None \<Rightarrow> Inr (False, dst)
                  | Some (key, val) \<Rightarrow>
                      if k = key then Inr (True, if returnDst then dst @ val else dst)
                      else Inr (False, dst)))
         else Inr (False, dst))"

definition Del_p :: "u64 \<Rightarrow> bucketPreallocated \<Rightarrow> bucketPreallocated" where
  "Del_p h b = b\<lparr>p_m := AList.delete h (p_m b)\<rparr>"

section \<open>Invariant and contents\<close>

abbreviation pc :: "bytes list \<Rightarrow> chunk list" where
  "pc cs \<equiv> map (\<lambda>arr. Some (arr, 0)) cs"

text \<open>Every index entry points to an entry that ends before \<open>bound\<close>.\<close>

definition preEntries :: "bytes list \<Rightarrow> nat \<Rightarrow> (u64 \<times> u64) list \<Rightarrow> bool" where
  "preEntries cs bound m \<longleftrightarrow>
     (\<forall>e\<in>set m. 0 < snd e \<and> posGen (snd e) = 1 \<and>
        (\<exists>k v. entryOk (pc cs) (posIdx (snd e)) k v \<and> posIdx (snd e) + length (kvBytes k v) \<le> bound))"

definition preChunks :: "bytes list \<Rightarrow> bool" where
  "preChunks cs \<longleftrightarrow> cs \<noteq> [] \<and> length cs * ChunkSize < 2 ^ bucketSizeBits \<and> (\<forall>arr\<in>set cs. length arr = ChunkSize)"

definition preInv :: "bucketPreallocated \<Rightarrow> bool" where
  "preInv b \<longleftrightarrow>
     preChunks (p_chunks b) \<and> p_idx b div ChunkSize < length (p_chunks b) \<and> p_gen b = 1 \<and>
     1 \<le> trimRatio b \<and> trimRatio b \<le> 100 \<and> distinct (map fst (p_m b)) \<and>
     preEntries (p_chunks b) (p_idx b) (p_m b)"

definition preView :: "bucketPreallocated \<Rightarrow> u64 \<Rightarrow> (bytes \<times> bytes) option" where
  "preView b h =
     (case map_of (p_m b) h of None \<Rightarrow> None | Some w \<Rightarrow> entryAt (pc (p_chunks b)) (posIdx w))"

lemma preEntries_lookup:
  assumes "preEntries cs bound m" and "map_of m h = Some w"
  obtains k v where "entryOk (pc cs) (posIdx w) k v" and "posIdx w + length (kvBytes k v) \<le> bound"
    and "0 < w" and "posGen w = 1"
  using assms map_of_SomeD [OF assms(2)] by (fastforce simp: preEntries_def)

lemma pc_entryAt:
  assumes "preChunks cs" and "entryOk (pc cs) i k v"
  shows "entryAt (pc cs) i = Some (k, v)"
proof -
  have i: "i div ChunkSize < length cs" "holds (cs ! (i div ChunkSize)) (i mod ChunkSize) k v"
    using assms(2) by (auto simp: entryOk_def)
  then have "length (cs ! (i div ChunkSize)) = ChunkSize" using assms(1) by (simp add: preChunks_def)
  with i readKV_holds show ?thesis by (simp add: entryAt_def)
qed

lemma Get_p_view:
  assumes "preInv b"
  shows "Get_p dst k h ret b =
     Inr (case preView b h of
            None \<Rightarrow> (False, dst)
          | Some (k', v) \<Rightarrow> if k = k' then (True, if ret then dst @ v else dst) else (False, dst))"
proof (cases "map_of (p_m b) h")
  case None
  then show ?thesis by (simp add: Get_p_def preView_def)
next
  case (Some w)
  have inv: "preChunks (p_chunks b)" "preEntries (p_chunks b) (p_idx b) (p_m b)" "p_gen b = 1"
    using assms by (simp_all add: preInv_def)
  obtain k' v where e: "entryOk (pc (p_chunks b)) (posIdx w) k' v" "posIdx w + length (kvBytes k' v) \<le> p_idx b"
    "0 < w" "posGen w = 1" by (rule preEntries_lookup [OF inv(2) Some])
  have valid: "validPos_p b w" using e(2,4) inv(3) by (simp add: validPos_p_def)
  have c: "posIdx w div ChunkSize < length (p_chunks b)" using e(1) by (simp add: entryOk_def)
  have "entryAt (pc (p_chunks b)) (posIdx w) = Some (k', v)" by (rule pc_entryAt [OF inv(1) e(1)])
  moreover from this have "readKV (p_chunks b ! (posIdx w div ChunkSize)) (posIdx w mod ChunkSize) = Some (k', v)"
    using c by (simp add: entryAt_def)
  ultimately show ?thesis using Some valid e(3) c by (simp add: Get_p_def preView_def Let_def)
qed

section \<open>Writing\<close>

text \<open>The store step at index \<open>i\<close>, behind all entries.\<close>

definition store_p :: "bytes \<Rightarrow> bytes \<Rightarrow> u64 \<Rightarrow> nat \<Rightarrow> bucketPreallocated \<Rightarrow> bucketPreallocated" where
  "store_p k v h i b =
     b\<lparr>p_chunks := (p_chunks b)[i div ChunkSize := writeAt (i mod ChunkSize) (kvBytes k v) (p_chunks b ! (i div ChunkSize))],
       p_currentGenCount := p_currentGenCount b + 1,
       p_m := AList.update h (packPos i (p_gen b)) (p_m b),
       p_idx := i + length (kvBytes k v)\<rparr>"

definition readyAt :: "nat \<Rightarrow> bytes \<Rightarrow> bytes \<Rightarrow> bucketPreallocated \<Rightarrow> bool" where
  "readyAt i k v b \<longleftrightarrow>
     preChunks (p_chunks b) \<and> i div ChunkSize < length (p_chunks b) \<and> p_gen b = 1 \<and>
     1 \<le> trimRatio b \<and> trimRatio b \<le> 100 \<and> distinct (map fst (p_m b)) \<and>
     i mod ChunkSize + length (kvBytes k v) < ChunkSize \<and> preEntries (p_chunks b) i (p_m b)"

lemma store_p_written:
  assumes "readyAt i k v b"
  shows "written (pc (p_chunks b)) i k v (pc (p_chunks (store_p k v h i b)))" and "preChunks (p_chunks (store_p k v h i b))"
proof -
  let ?c = "i div ChunkSize"
  have r: "preChunks (p_chunks b)" "?c < length (p_chunks b)" "i mod ChunkSize + length (kvBytes k v) < ChunkSize"
    using assms by (simp_all add: readyAt_def)
  then have len: "length (p_chunks b ! ?c) = ChunkSize" by (simp add: preChunks_def)
  let ?a = "writeAt (i mod ChunkSize) (kvBytes k v) (p_chunks b ! ?c)"
  have la: "length ?a = ChunkSize" using r(3) len by (subst length_writeAt) auto
  have "pc (p_chunks (store_p k v h i b)) = (pc (p_chunks b))[?c := Some (?a, 0)]" by (simp add: store_p_def map_update)
  then show "written (pc (p_chunks b)) i k v (pc (p_chunks (store_p k v h i b)))"
    unfolding written_def using r len by (auto simp del: length_kvBytes)
  have "length arr = ChunkSize" if "arr \<in> set ((p_chunks b)[?c := ?a])" for arr
    using that set_update_subset_insert [of "p_chunks b" ?c ?a] la r(1) by (auto simp: preChunks_def)
  then show "preChunks (p_chunks (store_p k v h i b))" using r(1) by (simp add: store_p_def preChunks_def)
qed

lemma store_p_facts:
  assumes "readyAt i k v b"
  shows "preInv (store_p k v h i b)" and "preView (store_p k v h i b) h = Some (k, v)"
    and "h' \<noteq> h \<Longrightarrow> preView (store_p k v h i b) h' = preView b h'"
proof -
  let ?b = "store_p k v h i b" and ?w = "packPos i 1"
  have r: "preChunks (p_chunks b)" "i div ChunkSize < length (p_chunks b)" "p_gen b = 1" "1 \<le> trimRatio b" "trimRatio b \<le> 100"
    "distinct (map fst (p_m b))" "i mod ChunkSize + length (kvBytes k v) < ChunkSize" "preEntries (p_chunks b) i (p_m b)"
    using assms by (simp_all add: readyAt_def)
  note w = store_p_written [OF assms, of h]
  have m: "p_m ?b = AList.update h ?w (p_m b)" "p_idx ?b = i + length (kvBytes k v)"
    by (simp_all add: store_p_def r(3))
  have "length (pc (p_chunks b)) * ChunkSize < 2 ^ bucketSizeBits" using r(1) by (simp add: preChunks_def)
  note new = posOk_new [OF w(1) _ this, of 1]
  have w0: "posIdx ?w = i" "posGen ?w = 1" "0 < ?w" using new by (auto simp: posOk_def)
  have d': "distinct (map fst (p_m ?b))" unfolding m by (rule distinct_update [OF r(6)])
  have old: "\<exists>k' v'. entryOk (pc (p_chunks b)) (posIdx x) k' v' \<and> entryOk (pc (p_chunks ?b)) (posIdx x) k' v' \<and>
      posIdx x + length (kvBytes k' v') \<le> i \<and> 0 < x \<and> posGen x = 1" if hx: "map_of (p_m b) h' = Some x" for h' x
  proof -
    obtain k' v' where e: "entryOk (pc (p_chunks b)) (posIdx x) k' v'" "posIdx x + length (kvBytes k' v') \<le> i"
      "0 < x" "posGen x = 1" by (rule preEntries_lookup [OF r(8) hx])
    with written_other [OF w(1) e(1)] show ?thesis by blast
  qed
  have "0 < snd e \<and> posGen (snd e) = 1 \<and> (\<exists>k' v'. entryOk (pc (p_chunks ?b)) (posIdx (snd e)) k' v' \<and>
      posIdx (snd e) + length (kvBytes k' v') \<le> p_idx ?b)" if "e \<in> set (p_m ?b)" for e
  proof -
    have e: "map_of (p_m ?b) (fst e) = Some (snd e)" using that d' by simp
    show ?thesis
    proof (cases "fst e = h")
      case True
      then have "snd e = ?w" using e unfolding m update_conv' by simp
      then show ?thesis using w0 written_entry [OF w(1)] m(2) by (metis le_refl)
    next
      case False
      then have "map_of (p_m b) (fst e) = Some (snd e)" using e unfolding m update_conv' by simp
      from old [OF this] m(2) show ?thesis by (metis trans_le_add1)
    qed
  qed
  then have "preEntries (p_chunks ?b) (p_idx ?b) (p_m ?b)" by (simp add: preEntries_def)
  moreover have "p_idx ?b div ChunkSize < length (p_chunks ?b)"
    using div_mod_add_small(1) [OF r(7)] r(2) m(2) by (simp add: store_p_def del: length_kvBytes)
  ultimately show "preInv ?b" using w(2) r d' by (simp add: preInv_def store_p_def)
  have "entryAt (pc (p_chunks ?b)) i = Some (k, v)" by (rule pc_entryAt [OF w(2) written_entry [OF w(1)]])
  then show "preView ?b h = Some (k, v)" unfolding preView_def m update_conv' by (simp add: w0)
  show "preView ?b h' = preView b h'" if "h' \<noteq> h"
  proof (cases "map_of (p_m b) h'")
    case None
    then show ?thesis using that unfolding preView_def m update_conv' by simp
  next
    case (Some x)
    from old [OF Some] show ?thesis
      using that Some pc_entryAt [OF w(2)] pc_entryAt [OF r(1)] unfolding preView_def m update_conv' by fastforce
  qed
qed

section \<open>Trimming\<close>

text \<open>The bucket after the oldest \<open>r\<close> chunks were dropped.\<close>

definition trim_p :: "nat \<Rightarrow> bucketPreallocated \<Rightarrow> bucketPreallocated" where
  "trim_p r b = cleanLockedMap_p (r * ChunkSize)
     (b\<lparr>p_chunks := trimChunks r (p_chunks b), p_previousGenCount := p_currentGenCount b, p_currentGenCount := 0\<rparr>)"

lemma entryOk_end:
  assumes "entryOk cs i k v"
  shows "i + length (kvBytes k v) \<le> length cs * ChunkSize"
proof -
  have "i div ChunkSize < length cs" "i mod ChunkSize + length (kvBytes k v) < ChunkSize"
    using assms by (auto simp: entryOk_def holds_def)
  moreover from this have "(i div ChunkSize + 1) * ChunkSize \<le> length cs * ChunkSize" by (intro mult_le_mono1) simp
  ultimately show ?thesis using div_mult_mod_eq [of i ChunkSize] by linarith
qed

lemma entryOk_shift:
  assumes "entryOk (pc cs) i k v" and "r * ChunkSize \<le> i"
  shows "entryOk (pc (trimChunks r cs)) (i - r * ChunkSize) k v"
    and "i - r * ChunkSize + length (kvBytes k v) \<le> (length cs - r) * ChunkSize"
proof -
  obtain d where i: "i = r * ChunkSize + d" using assms(2) le_Suc_ex by blast
  have c: "r + d div ChunkSize < length cs" "holds (cs ! (r + d div ChunkSize)) (d mod ChunkSize) k v"
    using assms(1) by (auto simp: entryOk_def i)
  then show "entryOk (pc (trimChunks r cs)) (i - r * ChunkSize) k v"
    by (auto simp: entryOk_def i trimChunks_def nth_append)
  show "i - r * ChunkSize + length (kvBytes k v) \<le> (length cs - r) * ChunkSize"
    using entryOk_end [OF assms(1)] by (simp add: i diff_mult_distrib del: length_kvBytes)
qed

lemma map_of_map_filter_pos:
  assumes "distinct (map fst m)"
  shows "map_of (map (\<lambda>(k, v). (k, f v)) (filter (\<lambda>(k, v). P v) m)) h = Some w \<longleftrightarrow>
     (\<exists>v. map_of m h = Some v \<and> P v \<and> w = f v)"
  using assms by (induction m) (auto simp: image_iff)

lemma trim_p_facts:
  assumes inv: "preInv b" and r: "r = numOfChunksToRemove b" and fits: "length (kvBytes k v) < ChunkSize"
  shows "readyAt (ChunkSize * (length (p_chunks b) - r)) k v (trim_p r b)"
    and "preView (trim_p r b) h = preView b h \<or> preView (trim_p r b) h = None"
proof -
  let ?cs = "p_chunks b" and ?b = "trim_p r b" and ?i = "ChunkSize * (length (p_chunks b) - r)"
  let ?f = "\<lambda>v. packPos (posIdx v - r * ChunkSize) 1"
  have b: "preChunks ?cs" "p_gen b = 1" "1 \<le> trimRatio b" "trimRatio b \<le> 100" "distinct (map fst (p_m b))"
    "preEntries ?cs (p_idx b) (p_m b)" using inv by (simp_all add: preInv_def)
  have len: "0 < length ?cs" "length ?cs * ChunkSize < 2 ^ bucketSizeBits" using b(1) by (auto simp: preChunks_def)
  have "length ?cs * trimRatio b \<le> length ?cs * 100" using b(4) by simp
  then have "(length ?cs * trimRatio b + 99) div 100 \<le> (length ?cs * 100 + 99) div 100" by (intro div_le_mono) simp
  then have "r \<le> length ?cs" by (simp add: r numOfChunksToRemove_def)
  have "1 * 1 \<le> length ?cs * trimRatio b" using len(1) b(3) by (intro mult_le_mono) (simp_all add: Suc_le_eq)
  then have "100 div 100 \<le> (length ?cs * trimRatio b + 99) div 100" by (intro div_le_mono) simp
  then have r1: "1 \<le> r" "r \<le> length ?cs" using \<open>r \<le> length ?cs\<close> by (simp_all add: r numOfChunksToRemove_def)
  have cs: "preChunks (trimChunks r ?cs)" "length (trimChunks r ?cs) = length ?cs"
    using b(1) r1 by (auto simp: preChunks_def trimChunks_def dest: in_set_dropD)
  have f: "p_chunks ?b = trimChunks r ?cs" "p_gen ?b = 1" "trimRatio ?b = trimRatio b"
    "p_m ?b = map (\<lambda>(k, v). (k, ?f v)) (filter (\<lambda>(k, v). r * ChunkSize \<le> posIdx v) (p_m b))"
    by (simp_all add: trim_p_def cleanLockedMap_p_def b(2))
  have look: "map_of (p_m ?b) h = Some w \<longleftrightarrow> (\<exists>x. map_of (p_m b) h = Some x \<and> r * ChunkSize \<le> posIdx x \<and> w = ?f x)" for h w
    unfolding f(4) by (rule map_of_map_filter_pos [OF b(5)])
  have keys: "map fst (p_m ?b) = map fst (filter (\<lambda>(k, v). r * ChunkSize \<le> posIdx v) (p_m b))"
    unfolding f(4) by (simp add: case_prod_unfold)
  have d: "distinct (map fst (p_m ?b))" unfolding keys by (rule distinct_fst_filter [OF b(5)])
  have entry: "\<exists>k' v'. entryOk (pc ?cs) (posIdx x) k' v' \<and> entryOk (pc (trimChunks r ?cs)) (posIdx (?f x)) k' v' \<and>
      posIdx (?f x) + length (kvBytes k' v') \<le> ?i \<and> 0 < ?f x \<and> posGen (?f x) = 1"
    if x: "map_of (p_m b) h = Some x" "r * ChunkSize \<le> posIdx x" for h x
  proof -
    obtain k' v' where e: "entryOk (pc ?cs) (posIdx x) k' v'" by (rule preEntries_lookup [OF b(6) x(1)])
    note s = entryOk_shift [OF e x(2)]
    have small: "posIdx x - r * ChunkSize < 2 ^ bucketSizeBits" using entryOk_end [OF e] len(2) by simp
    have "posIdx (?f x) = posIdx x - r * ChunkSize" "posGen (?f x) = 1" "0 < ?f x"
      using posIdx_pack [OF small] posGen_pack [OF small, of 1] packPos_nonzero [OF small, of 1] by simp_all
    with e s show ?thesis by (metis mult.commute)
  qed
  have "0 < snd e \<and> posGen (snd e) = 1 \<and> (\<exists>k' v'. entryOk (pc (p_chunks ?b)) (posIdx (snd e)) k' v' \<and>
      posIdx (snd e) + length (kvBytes k' v') \<le> ?i)" if e: "e \<in> set (p_m ?b)" for e
  proof -
    have "map_of (p_m ?b) (fst e) = Some (snd e)" using e d by simp
    then obtain x where "map_of (p_m b) (fst e) = Some x" "r * ChunkSize \<le> posIdx x" "snd e = ?f x" using look by blast
    with entry [of "fst e" x] f(1) show ?thesis by auto
  qed
  then have "preEntries (p_chunks ?b) ?i (p_m ?b)" by (simp add: preEntries_def)
  then show "readyAt ?i k v ?b"
    using cs f d b(3,4) r1 len(1) fits by (simp add: readyAt_def del: length_kvBytes)
  show "preView ?b h = preView b h \<or> preView ?b h = None"
  proof (cases "map_of (p_m ?b) h")
    case (Some w)
    then obtain x where x: "map_of (p_m b) h = Some x" "r * ChunkSize \<le> posIdx x" "w = ?f x" using look by blast
    from entry [OF x(1,2)] obtain k' v' where "entryOk (pc ?cs) (posIdx x) k' v'"
      "entryOk (pc (trimChunks r ?cs)) (posIdx w) k' v'" using x(3) by blast
    with pc_entryAt [OF b(1)] pc_entryAt [OF cs(1)] Some x(1) f(1) show ?thesis by (simp add: preView_def)
  qed (simp add: preView_def)
qed

section \<open>The contract\<close>

lemma Set_p_contract:
  assumes inv: "preInv b"
  shows "\<exists>e b'. Set_p k v h b = Inr (e, b') \<and> preInv b' \<and>
     (case e of
        None \<Rightarrow> fits k v \<and> preView b' h = Some (k, v) \<and>
                (\<forall>h'. h' \<noteq> h \<longrightarrow> preView b' h' = preView b h' \<or> preView b' h' = None)
      | Some _ \<Rightarrow> b' = b \<and> \<not> fits k v)"
proof (cases "fits k v")
  case False
  then show ?thesis using inv by (auto simp: Set_p_def fits_def Let_def)
next
  case True
  let ?n = "4 + length k + length v" and ?c = "p_idx b div ChunkSize" and ?cs = "p_chunks b"
  let ?cN = "(p_idx b + ?n) div ChunkSize"
  have n: "?n < ChunkSize" using True by (simp add: fits_def)
  have b: "preChunks ?cs" "?c < length ?cs" using inv by (simp_all add: preInv_def)
  have ne: "p_chunks x ! (i div ChunkSize) \<noteq> []" if "readyAt i k v x" for i x
  proof -
    have "length (p_chunks x ! (i div ChunkSize)) = ChunkSize" using that by (simp add: readyAt_def preChunks_def)
    then show ?thesis by auto
  qed
  have pos_mod_bound: "x mod ChunkSize < ChunkSize" for x by simp
  have result: "\<exists>b1 i. readyAt i k v b1 \<and> Set_p k v h b = Inr (None, store_p k v h i b1) \<and>
      (\<forall>h'. preView b1 h' = preView b h' \<or> preView b1 h' = None)"
  proof (cases "?cN > ?c")
    case False
    then have "?cN = ?c" using div_le_mono [of "p_idx b" "p_idx b + ?n" ChunkSize] by linarith
    then have "p_idx b mod ChunkSize + ?n < ChunkSize"
      using div_mult_mod_eq [of "p_idx b" ChunkSize] div_mult_mod_eq [of "p_idx b + ?n" ChunkSize]
        pos_mod_bound [of "p_idx b + ?n"] by linarith
    then have ready: "readyAt (p_idx b) k v b" using inv by (simp add: readyAt_def preInv_def)
    have "Set_p k v h b = Inr (None, store_p k v h (p_idx b) b)"
      using n False b(2) ne [OF ready] by (simp add: Set_p_def store_p_def Let_def)
    with ready show ?thesis by blast
  next
    case cross: True
    show ?thesis
    proof (cases "?cN \<ge> length ?cs")
      case True
      define r where "r = numOfChunksToRemove b"
      let ?i = "ChunkSize * (length ?cs - r)"
      have ready: "readyAt ?i k v (trim_p r b)" using trim_p_facts(1) [OF inv r_def] n by simp
      then have c: "?i div ChunkSize < length (p_chunks (trim_p r b))" by (simp add: readyAt_def)
      have "Set_p k v h b = Inr (None, store_p k v h ?i (trim_p r b))"
        using n cross True c ne [OF ready]
        by (simp add: Set_p_def store_p_def Let_def trim_p_def r_def [symmetric] cleanLockedMap_p_def)
      with ready trim_p_facts(2) [OF inv r_def] n show ?thesis
        by (intro exI [of _ "trim_p r b"] exI [of _ ?i]) (auto simp: fits_def)
    next
      case False
      let ?i = "?cN * ChunkSize"
      have "(?c + 1) * ChunkSize \<le> ?cN * ChunkSize" using cross by (intro mult_le_mono1) simp
      moreover have "p_idx b \<le> (?c + 1) * ChunkSize" using dividend_less_div_times [of ChunkSize "p_idx b"] by simp
      ultimately have "p_idx b \<le> ?i" by (rule order_trans [rotated])
      then have "preEntries ?cs ?i (p_m b)" using inv unfolding preInv_def preEntries_def by (meson le_trans)
      then have ready: "readyAt ?i k v b" using inv False n by (simp add: readyAt_def preInv_def)
      have "Set_p k v h b = Inr (None, store_p k v h ?i b)"
        using n cross False ne [OF ready] by (simp add: Set_p_def store_p_def Let_def)
      with ready show ?thesis by blast
    qed
  qed
  then obtain b1 i where res: "readyAt i k v b1" "Set_p k v h b = Inr (None, store_p k v h i b1)"
    "\<And>h'. preView b1 h' = preView b h' \<or> preView b1 h' = None" by blast
  have "preView (store_p k v h i b1) h' = preView b h' \<or> preView (store_p k v h i b1) h' = None" if "h' \<noteq> h" for h'
    using store_p_facts(3) [OF res(1) that] res(3) by simp
  with store_p_facts(1,2) [OF res(1), of h] True res(2) show ?thesis
    by (intro exI [of _ None] exI [of _ "store_p k v h i b1"]) auto
qed

lemma preInv_Del:
  assumes "preInv b"
  shows "preInv (Del_p h b)"
proof -
  have "set (AList.delete h (p_m b)) \<subseteq> set (p_m b)" by (auto simp: AList.delete_eq)
  then have "preEntries (p_chunks b) (p_idx b) (AList.delete h (p_m b))"
    using assms by (auto simp: preInv_def preEntries_def)
  then show ?thesis using assms by (simp add: preInv_def Del_p_def distinct_delete)
qed

interpretation bp: bucket_spec preInv preView "\<lambda>_. Set_p" Get_p Del_p Reset_p
proof
  fix b b' :: bucketPreallocated and ok k v h h' dst ret e
  assume inv: "preInv b"
  note c = Set_p_contract [OF inv, of k v h]
  show "\<exists>e b'. Set_p k v h b = Inr (e, b') \<and> preInv b'" using c by auto
  show "fits k v \<and> preView b' h = Some (k, v)" if "Set_p k v h b = Inr (None, b')" using c that by auto
  show "preView b' h' = preView b h' \<or> preView b' h' = None" if "Set_p k v h b = Inr (None, b')" "h' \<noteq> h"
    using c that by auto
  show "preView b' = preView b \<and> \<not> (ok \<and> fits k v)" if "Set_p k v h b = Inr (Some e, b')" using c that by auto
  show "preView (Del_p h b) = (preView b)(h := None)"
    by (auto simp: preView_def Del_p_def fun_eq_iff AList.delete_conv' split: option.split)
  show "preInv (Reset_p b)" using inv by (simp add: preInv_def Reset_p_def preEntries_def preChunks_def)
qed (simp_all add: Get_p_view preInv_Del preView_def Reset_p_def fun_eq_iff)

lemma cutChunks_spec: "cutChunks n = (if n mod ChunkSize = 0 then Inr (n div ChunkSize) else Inl IndexOutOfRange)"
proof (induction n rule: cutChunks.induct)
  case (1 n)
  show ?case
  proof (cases "n < ChunkSize")
    case True
    then show ?thesis by (subst cutChunks.simps) auto
  next
    case False
    then have "cutChunks n = go_bind (cutChunks (n - ChunkSize)) (\<lambda>n. Inr (n + 1))" by (subst cutChunks.simps) simp
    with 1 False show ?thesis by (simp add: le_mod_geq le_div_geq)
  qed
qed

lemma Init_p_inv:
  assumes "Init_p ok n ratio = Inr (Inr b)" and "1 \<le> ratio" and "ratio \<le> 100"
  shows "preInv b \<and> preView b = Map.empty"
proof -
  have n: "n \<noteq> 0" "n < maxBucketSize" "unat n mod ChunkSize = 0"
    and b: "b = Reset_p \<lparr>p_chunks = replicate (unat n div ChunkSize) (replicate ChunkSize 0), p_m = [], p_idx = 0, p_gen = 0,
             trimRatio = ratio, trimCount = 0, p_currentGenCount = 0, p_previousGenCount = 0\<rparr>"
    using assms(1) by (auto simp: Init_p_def cutChunks_spec split: if_splits)
  have "unat n \<noteq> 0" "unat n < 2 ^ bucketSizeBits" using n(1,2) by (simp_all add: unat_eq_zero word_less_nat_alt)
  then have "0 < unat n div ChunkSize" "unat n div ChunkSize * ChunkSize < 2 ^ bucketSizeBits"
    using n(3) div_mult_mod_eq [of "unat n" ChunkSize] by (auto intro: Nat.gr0I)
  then show ?thesis
    using assms(2,3) by (auto simp: b Reset_p_def preInv_def preChunks_def preEntries_def preView_def fun_eq_iff)
qed

end
