(* ===== verification/Improved_Cache.thy ===== *)
theory Improved_Cache
  imports Cache_Prealloc
begin

text \<open>
  The sharded cache of \<^verbatim>\<open>internal/cache/improved_cache.go\<close>: 32 buckets selected by the hash of the key.
  The Go interface \<open>bucketInterface\<close> is the data type \<open>bucket\<close> of its three implementations, dispatched
  by cases. The hash function xxhash is the parameter \<open>hf\<close>; whether a memory mapping succeeds is the
  parameter \<open>ok\<close>, per call. The goroutines that fill different buckets touch disjoint state, so the
  batch operations are the sequence of their effects.
\<close>

section \<open>Buckets behind the interface\<close>

datatype bucket = BU bucketUnallocated | BP bucketPreallocated | BT bucketTrimmed

definition bSet :: "bool \<Rightarrow> bytes \<Rightarrow> bytes \<Rightarrow> u64 \<Rightarrow> bucket \<Rightarrow> (cacheErr option \<times> bucket) go" where
  "bSet ok k v h b =
     (case b of
        BU u \<Rightarrow> go_bind (Set_u ok k v h u) (\<lambda>(e, u). Inr (e, BU u))
      | BP p \<Rightarrow> go_bind (Set_p k v h p) (\<lambda>(e, p). Inr (e, BP p))
      | BT t \<Rightarrow> go_bind (Set_t ok k v h t) (\<lambda>(e, t). Inr (e, BT t)))"

definition bGet :: "bytes \<Rightarrow> bytes \<Rightarrow> u64 \<Rightarrow> bool \<Rightarrow> bucket \<Rightarrow> (bool \<times> bytes) go" where
  "bGet dst k h ret b =
     (case b of BU u \<Rightarrow> Get_u dst k h ret u | BP p \<Rightarrow> Get_p dst k h ret p | BT t \<Rightarrow> Get_t dst k h ret t)"

definition bDel :: "u64 \<Rightarrow> bucket \<Rightarrow> bucket" where
  "bDel h b = (case b of BU u \<Rightarrow> BU (Del_ring h u) | BP p \<Rightarrow> BP (Del_p h p) | BT t \<Rightarrow> BT (Del_ring h t))"

definition bReset :: "bucket \<Rightarrow> bucket" where
  "bReset b = (case b of BU u \<Rightarrow> BU (Reset_ring u) | BP p \<Rightarrow> BP (Reset_p p) | BT t \<Rightarrow> BT (Reset_t t))"

text \<open>\<open>SetMulti\<close>: the errors of the single \<open>Set\<close>s are dropped; \<open>ok i\<close> is the outcome for the \<open>i\<close>-th key.\<close>

fun bSetMulti :: "(bytes \<Rightarrow> u64) \<Rightarrow> (nat \<Rightarrow> bool) \<Rightarrow> nat \<Rightarrow> (bytes \<times> bytes) list \<Rightarrow> bucket \<Rightarrow> bucket go" where
  "bSetMulti hf ok i [] b = Inr b"
| "bSetMulti hf ok i ((k, v) # kvs) b =
     go_bind (bSet (ok i) k v (hf k) b) (\<lambda>(_, b). bSetMulti hf ok (i + 1) kvs b)"

text \<open>
  \<open>SetMultiKeysSingleValue\<close>: the ring buckets store the value followed by what \<open>Get\<close> finds, the
  preallocated bucket overwrites.
\<close>

fun bSetMultiKeysSingleValue :: "(bytes \<Rightarrow> u64) \<Rightarrow> (nat \<Rightarrow> bool) \<Rightarrow> nat \<Rightarrow> bytes list \<Rightarrow> bytes \<Rightarrow> bucket \<Rightarrow> bucket go" where
  "bSetMultiKeysSingleValue hf ok i [] val b = Inr b"
| "bSetMultiKeysSingleValue hf ok i (k # ks) val b =
     go_bind (case b of BP _ \<Rightarrow> Inr val | _ \<Rightarrow> go_bind (bGet val k (hf k) True b) (\<lambda>(_, prev). Inr prev)) (\<lambda>prev.
       go_bind (bSet (ok i) k prev (hf k) b) (\<lambda>(_, b). bSetMultiKeysSingleValue hf ok (i + 1) ks val b))"

section \<open>Statistics\<close>

record Stats =
  TrimCount :: u64
  TotalMapSize :: u64
  TotalElementsAdded :: u64
  ValidEntriesCount :: u64
  CurrentGenEntries :: u64
  PreviousGenEntries :: u64

definition emptyStats :: Stats where
  "emptyStats = \<lparr>TrimCount = 0, TotalMapSize = 0, TotalElementsAdded = 0, ValidEntriesCount = 0,
     CurrentGenEntries = 0, PreviousGenEntries = 0\<rparr>"

text \<open>The part of \<open>UpdateStats\<close> that all buckets share.\<close>

definition genStats :: "u64 \<Rightarrow> u64 \<Rightarrow> nat \<Rightarrow> Stats \<Rightarrow> Stats" where
  "genStats current previous mapSize s =
     (let validPrevious = (if previous > current then previous - current else 0)
      in s\<lparr>CurrentGenEntries := CurrentGenEntries s + current,
           PreviousGenEntries := PreviousGenEntries s + validPrevious,
           ValidEntriesCount := ValidEntriesCount s + (current + validPrevious),
           TotalMapSize := TotalMapSize s + of_nat mapSize\<rparr>)"

definition bUpdateStats :: "bucket \<Rightarrow> Stats \<Rightarrow> Stats" where
  "bUpdateStats b s =
     (case b of
        BU u \<Rightarrow> genStats (currentGenCount u) (previousGenCount u) (length (b_m u)) s
      | BP p \<Rightarrow> (genStats (p_currentGenCount p) (p_previousGenCount p) (length (p_m p)) s)\<lparr>TrimCount := trimCount p\<rparr>
      | BT t \<Rightarrow>
          (let s = genStats (currentGenCount t) (previousGenCount t) (length (b_m t)) s
           in s\<lparr>TotalElementsAdded := TotalElementsAdded s + of_int (elementsAdded t)\<rparr>))"

section \<open>The cache\<close>

datatype BucketType = Unallocated | Preallocated | Trimmed

record ImprovedCache =
  buckets :: "bucket list"
  c_trimRatio :: nat

definition initBucket :: "BucketType \<Rightarrow> bool \<Rightarrow> u64 \<Rightarrow> (cacheErr + bucket) go" where
  "initBucket ty ok maxBucketBytes =
     (case ty of
        Unallocated \<Rightarrow> Inr (map_sum id BU (Init_u maxBucketBytes))
      | Preallocated \<Rightarrow> go_bind (Init_p ok maxBucketBytes defaultTrimRatio) (\<lambda>r. Inr (map_sum id BP r))
      | Trimmed \<Rightarrow> Inr (map_sum id BT (Init_t maxBucketBytes)))"

text \<open>The loop over the buckets with \<open>n\<close> iterations left; the first error ends it.\<close>

fun initBuckets :: "BucketType \<Rightarrow> (nat \<Rightarrow> bool) \<Rightarrow> u64 \<Rightarrow> nat \<Rightarrow> nat \<Rightarrow> (cacheErr + bucket list) go" where
  "initBuckets ty ok mb i 0 = Inr (Inr [])"
| "initBuckets ty ok mb i (Suc n) =
     go_bind (initBucket ty (ok i) mb) (\<lambda>r.
       case r of
         Inl e \<Rightarrow> Inr (Inl e)
       | Inr b \<Rightarrow>
           go_bind (initBuckets ty ok mb (i + 1) n) (\<lambda>r. Inr (map_sum id (\<lambda>bs. b # bs) r)))"

definition New :: "(nat \<Rightarrow> bool) \<Rightarrow> int \<Rightarrow> BucketType \<Rightarrow> (cacheErr + ImprovedCache) go" where
  "New ok maxBytes ty =
     (if maxBytes \<le> 0 then Inr (Inl ZeroMaxBytes)
      else
        (let maxBucketBytes = (of_int (maxBytes div 32) :: u64);
             maxBucketBytes = (if maxBucketBytes < 1024 then 1024 * 8 else maxBucketBytes)
         in go_bind (initBuckets ty ok maxBucketBytes 0 BucketsCount) (\<lambda>r.
              Inr (map_sum id (\<lambda>bs. \<lparr>buckets = bs,
                     c_trimRatio = (if ty = Preallocated then defaultTrimRatio else 0)\<rparr>) r))))"

definition bucketIdx :: "(bytes \<Rightarrow> u64) \<Rightarrow> bytes \<Rightarrow> nat" where
  "bucketIdx hf k = unat (hf k mod 32)"

definition cacheSet :: "(bytes \<Rightarrow> u64) \<Rightarrow> bool \<Rightarrow> bytes \<Rightarrow> bytes \<Rightarrow> ImprovedCache \<Rightarrow> (cacheErr option \<times> ImprovedCache) go" where
  "cacheSet hf ok k v c =
     (let i = bucketIdx hf k
      in go_bind (bSet ok k v (hf k) (buckets c ! i)) (\<lambda>(e, b). Inr (e, c\<lparr>buckets := (buckets c)[i := b]\<rparr>)))"

definition cacheGet :: "(bytes \<Rightarrow> u64) \<Rightarrow> bytes \<Rightarrow> bytes \<Rightarrow> ImprovedCache \<Rightarrow> (cacheErr option \<times> bytes) go" where
  "cacheGet hf dst k c =
     go_bind (bGet dst k (hf k) True (buckets c ! bucketIdx hf k)) (\<lambda>(found, dst).
       Inr (if \<not> found then Some NotFound else None, dst))"

definition Has :: "(bytes \<Rightarrow> u64) \<Rightarrow> bytes \<Rightarrow> ImprovedCache \<Rightarrow> bool go" where
  "Has hf k c =
     go_bind (bGet [] k (hf k) False (buckets c ! bucketIdx hf k)) (\<lambda>(found, _). Inr found)"

definition cacheDel :: "(bytes \<Rightarrow> u64) \<Rightarrow> bytes \<Rightarrow> ImprovedCache \<Rightarrow> ImprovedCache" where
  "cacheDel hf k c = (let i = bucketIdx hf k in c\<lparr>buckets := (buckets c)[i := bDel (hf k) (buckets c ! i)]\<rparr>)"

definition cacheReset :: "ImprovedCache \<Rightarrow> ImprovedCache" where
  "cacheReset c = c\<lparr>buckets := map bReset (buckets c)\<rparr>"

definition cacheUpdateStats :: "ImprovedCache \<Rightarrow> Stats \<Rightarrow> Stats" where
  "cacheUpdateStats c s = fold bUpdateStats (buckets c) s"

text \<open>Runs a batch on every bucket that has one; \<open>f i\<close> is the work of bucket \<open>i\<close>.\<close>

fun forBuckets :: "(nat \<Rightarrow> bucket \<Rightarrow> bucket go) \<Rightarrow> nat \<Rightarrow> bucket list \<Rightarrow> bucket list go" where
  "forBuckets f i [] = Inr []"
| "forBuckets f i (b # bs) =
     go_bind (f i b) (\<lambda>b. go_bind (forBuckets f (i + 1) bs) (\<lambda>bs. Inr (b # bs)))"

definition SetMulti ::
  "(bytes \<Rightarrow> u64) \<Rightarrow> (nat \<Rightarrow> nat \<Rightarrow> bool) \<Rightarrow> bytes list \<Rightarrow> bytes list \<Rightarrow> ImprovedCache \<Rightarrow> ImprovedCache go" where
  "SetMulti hf ok ks vs c =
     (if length vs < length ks then Inl IndexOutOfRange
      else
        go_bind (forBuckets (\<lambda>i. bSetMulti hf (ok i) 0 (filter (\<lambda>(k, _). bucketIdx hf k = i) (zip ks vs)))
                   0 (buckets c)) (\<lambda>bs. Inr (c\<lparr>buckets := bs\<rparr>)))"

text \<open>The keys at the indices \<open>0, keySize, 2 * keySize, \<dots>\<close> of a slice of keys.\<close>

definition everyNth :: "nat \<Rightarrow> 'a list \<Rightarrow> 'a list" where
  "everyNth n xs = map (\<lambda>j. xs ! (j * n)) [0..<length xs div n]"

definition SetMultiKeysSingleValue ::
  "(bytes \<Rightarrow> u64) \<Rightarrow> (nat \<Rightarrow> nat \<Rightarrow> bool) \<Rightarrow> bytes list \<Rightarrow> bytes \<Rightarrow> nat \<Rightarrow> ImprovedCache \<Rightarrow>
     (cacheErr option \<times> ImprovedCache) go" where
  "SetMultiKeysSingleValue hf ok ks val keySize c =
     (if keySize = 0 then Inl DivideByZero
      else if length ks mod keySize \<noteq> 0 then Inr (Some BadKeySize, c)
      else
        go_bind (forBuckets (\<lambda>i. bSetMultiKeysSingleValue hf (ok i) 0
                   (filter (\<lambda>k. bucketIdx hf k = i) (everyNth keySize ks)) val) 0 (buckets c))
          (\<lambda>bs. Inr (None, c\<lparr>buckets := bs\<rparr>)))"

text \<open>The slices \<open>keys[i : i+keySize]\<close> of a blob of keys.\<close>

definition cutKeys :: "nat \<Rightarrow> bytes \<Rightarrow> bytes list" where
  "cutKeys n blob = map (\<lambda>j. take n (drop (j * n) blob)) [0..<length blob div n]"

definition SetMultiKeysSingleValueAppended ::
  "(bytes \<Rightarrow> u64) \<Rightarrow> (nat \<Rightarrow> nat \<Rightarrow> bool) \<Rightarrow> bytes \<Rightarrow> bytes \<Rightarrow> nat \<Rightarrow> ImprovedCache \<Rightarrow>
     (cacheErr option \<times> ImprovedCache) go" where
  "SetMultiKeysSingleValueAppended hf ok blob val keySize c =
     (if keySize = 0 then Inl DivideByZero
      else if length blob mod keySize \<noteq> 0 then Inr (Some BadKeySize, c)
      else
        go_bind (forBuckets (\<lambda>i. bSetMultiKeysSingleValue hf (ok i) 0
                   (filter (\<lambda>k. bucketIdx hf k = i) (cutKeys keySize blob)) val) 0 (buckets c))
          (\<lambda>bs. Inr (None, c\<lparr>buckets := bs\<rparr>)))"

end
