(* ===== verification/Cache_Spec.thy ===== *)
theory Cache_Spec
  imports Improved_Cache
begin

text \<open>
  The sharded cache implements a lossy key-value map: a look-up returns what was stored last under
  the key, or nothing. The contract is the locale \<open>lossy_map\<close>; its consequences for any client are
  proved there once.
\<close>

section \<open>The interface bucket\<close>

definition bInv :: "bucket \<Rightarrow> bool" where
  "bInv b = (case b of BU u \<Rightarrow> ringInv u | BP p \<Rightarrow> preInv p | BT t \<Rightarrow> ringInv t)"

definition bView :: "bucket \<Rightarrow> u64 \<Rightarrow> (bytes \<times> bytes) option" where
  "bView b = (case b of BU u \<Rightarrow> ringView u | BP p \<Rightarrow> preView p | BT t \<Rightarrow> ringView t)"

lemma bSet_cases:
  assumes "bInv b"
  shows "\<exists>e b'. bSet ok k v h b = Inr (e, b') \<and> bInv b' \<and>
     (case e of
        None \<Rightarrow> fits k v \<and> bView b' h = Some (k, v) \<and>
                (\<forall>h'. h' \<noteq> h \<longrightarrow> bView b' h' = bView b h' \<or> bView b' h' = None)
      | Some _ \<Rightarrow> bView b' = bView b \<and> \<not> (ok \<and> fits k v))"
proof (cases b)
  case (BU u)
  then have "ringInv u" using assms by (simp add: bInv_def)
  from ring_u.Set_contract [OF this, of ok k v h] show ?thesis
    unfolding BU by (fastforce simp: bSet_def bInv_def bView_def Set_u_def split: option.splits)
next
  case (BP p)
  then have "preInv p" using assms by (simp add: bInv_def)
  from Set_p_contract [OF this, of k v h] show ?thesis
    unfolding BP by (fastforce simp: bSet_def bInv_def bView_def split: option.splits)
next
  case (BT t)
  then have "ringInv t" using assms by (simp add: bInv_def)
  from Set_t_contract [OF this, of ok k v h] show ?thesis
    unfolding BT by (fastforce simp: bSet_def bInv_def bView_def split: option.splits)
qed

interpretation bucket: bucket_spec bInv bView bSet bGet bDel bReset
proof
  fix b b' :: bucket and ok k v h h' dst ret e
  assume inv: "bInv b"
  note c = bSet_cases [OF inv, of ok k v h]
  show "\<exists>e b'. bSet ok k v h b = Inr (e, b') \<and> bInv b'" using c by auto
  show "fits k v \<and> bView b' h = Some (k, v)" if "bSet ok k v h b = Inr (None, b')" using c that by auto
  show "bView b' h' = bView b h' \<or> bView b' h' = None" if "bSet ok k v h b = Inr (None, b')" "h' \<noteq> h"
    using c that by auto
  show "bView b' = bView b \<and> \<not> (ok \<and> fits k v)" if "bSet ok k v h b = Inr (Some e, b')" using c that by auto
  show "bGet dst k h ret b = Inr (case bView b h of None \<Rightarrow> (False, dst)
      | Some (k', v) \<Rightarrow> if k = k' then (True, if ret then dst @ v else dst) else (False, dst))"
    using inv by (cases b) (simp_all add: bGet_def bInv_def bView_def bu.get_view bp.get_view bt.get_view)
  show "bInv (bDel h b)" "bView (bDel h b) = (bView b)(h := None)" "bInv (bReset b)" "bView (bReset b) = Map.empty"
    using inv by (cases b; simp add: bDel_def bReset_def bInv_def bView_def bu.del_inv bp.del_inv bt.del_inv
        bu.del_view bp.del_view bt.del_view bu.reset_inv bp.reset_inv bt.reset_inv
        bu.reset_view bp.reset_view bt.reset_view)+
qed

section \<open>The contract of the cache\<close>

datatype 'v cacheOp = CSet bool bytes 'v | CDel bytes | CReset

locale lossy_map =
  fixes inv :: "'c \<Rightarrow> bool" and lookup :: "'c \<Rightarrow> bytes \<Rightarrow> 'v option" and storable :: "bytes \<Rightarrow> 'v \<Rightarrow> bool"
    and put :: "bool \<Rightarrow> bytes \<Rightarrow> 'v \<Rightarrow> 'c \<Rightarrow> ('e option \<times> 'c) go"
    and del :: "bytes \<Rightarrow> 'c \<Rightarrow> 'c" and reset :: "'c \<Rightarrow> 'c"
  assumes put_total: "inv c \<Longrightarrow> \<exists>e c'. put ok k v c = Inr (e, c') \<and> inv c'"
    and put_stores: "inv c \<Longrightarrow> storable k v \<Longrightarrow> put True k v c = Inr (r, c') \<Longrightarrow> r = None"
    and put_lookup: "inv c \<Longrightarrow> put ok k v c = Inr (None, c') \<Longrightarrow> lookup c' k = Some v"
    and put_other: "inv c \<Longrightarrow> put ok k v c = Inr (None, c') \<Longrightarrow> k' \<noteq> k \<Longrightarrow> lookup c' k' = lookup c k' \<or> lookup c' k' = None"
    and put_err: "inv c \<Longrightarrow> put ok k v c = Inr (Some e, c') \<Longrightarrow> lookup c' = lookup c"
    and del_inv: "inv c \<Longrightarrow> inv (del k c)"
    and del_lookup: "inv c \<Longrightarrow> lookup (del k c) k = None"
    and del_other: "inv c \<Longrightarrow> lookup (del k c) k' = lookup c k' \<or> lookup (del k c) k' = None"
    and reset_inv: "inv c \<Longrightarrow> inv (reset c)"
    and reset_lookup: "inv c \<Longrightarrow> lookup (reset c) = Map.empty"
begin

text \<open>
  One operation on the cache and on the history map, which records what was stored last.
\<close>

definition step :: "'v cacheOp \<Rightarrow> 'c \<times> (bytes \<rightharpoonup> 'v) \<Rightarrow> 'c \<times> (bytes \<rightharpoonup> 'v)" where
  "step op = (\<lambda>(c, hist). case op of
     CSet ok k v \<Rightarrow>
       (case put ok k v c of
          Inr (None, c') \<Rightarrow> (c', hist(k \<mapsto> v))
        | Inr (Some _, c') \<Rightarrow> (c', hist)
        | Inl _ \<Rightarrow> (c, hist))
   | CDel k \<Rightarrow> (del k c, hist(k := None))
   | CReset \<Rightarrow> (reset c, Map.empty))"

lemma step_sound:
  assumes "inv c" and "lookup c \<subseteq>\<^sub>m hist"
  shows "inv (fst (step op (c, hist))) \<and> lookup (fst (step op (c, hist))) \<subseteq>\<^sub>m snd (step op (c, hist))"
proof (cases op)
  case (CSet ok k v)
  obtain e c' where s: "put ok k v c = Inr (e, c')" "inv c'" using put_total [OF assms(1)] by blast
  show ?thesis
  proof (cases e)
    case None
    have "lookup c' k' = (hist(k \<mapsto> v)) k'" if "k' \<in> dom (lookup c')" for k'
      using that s None put_lookup [OF assms(1)] put_other [OF assms(1), of ok k v c' k'] assms(2)
      by (cases "k' = k") (auto simp: map_le_def dom_def)
    then show ?thesis using s None CSet by (simp add: step_def map_le_def)
  next
    case (Some err)
    then show ?thesis using s put_err [OF assms(1)] assms(2) CSet by (auto simp: step_def)
  qed
next
  case (CDel k)
  have "lookup (del k c) k' = (hist(k := None)) k'" if "k' \<in> dom (lookup (del k c))" for k'
    using that del_lookup [OF assms(1), of k] del_other [OF assms(1), of k k'] assms(2)
    by (cases "k' = k") (auto simp: map_le_def dom_def)
  then show ?thesis using CDel del_inv [OF assms(1)] by (simp add: step_def map_le_def)
next
  case CReset
  then show ?thesis using assms(1) reset_inv reset_lookup by (simp add: step_def)
qed

lemma run_sound:
  assumes "inv c" and "lookup c \<subseteq>\<^sub>m hist"
  shows "inv (fst (fold step ops (c, hist))) \<and> lookup (fst (fold step ops (c, hist))) \<subseteq>\<^sub>m snd (fold step ops (c, hist))"
  using assms
proof (induction ops arbitrary: c hist)
  case (Cons op ops)
  then show ?case using step_sound [OF Cons.prems, of op] by (cases "step op (c, hist)") simp
qed simp

lemma put_get:
  assumes "inv c" and "storable k v"
  shows "\<exists>c'. put True k v c = Inr (None, c') \<and> inv c' \<and> lookup c' k = Some v"
  using put_total [OF assms(1), of True k v] put_stores [OF assms] put_lookup [OF assms(1)] by blast

end

section \<open>The sharded cache\<close>

definition cacheInv :: "ImprovedCache \<Rightarrow> bool" where
  "cacheInv c \<longleftrightarrow> length (buckets c) = BucketsCount \<and> (\<forall>b\<in>set (buckets c). bInv b)"

definition cacheLookup :: "(bytes \<Rightarrow> u64) \<Rightarrow> ImprovedCache \<Rightarrow> bytes \<Rightarrow> bytes option" where
  "cacheLookup hf c k =
     (case bView (buckets c ! bucketIdx hf k) (hf k) of
        None \<Rightarrow> None
      | Some (k', v) \<Rightarrow> if k = k' then Some v else None)"

lemma bucketIdx_less [simp]: "bucketIdx hf k < BucketsCount"
proof -
  have "unat (hf k mod 32) = unat (hf k) mod 32" by (simp add: unat_mod_distrib)
  then show ?thesis by (simp add: bucketIdx_def)
qed

lemma bInv_nth: "cacheInv c \<Longrightarrow> i < BucketsCount \<Longrightarrow> bInv (buckets c ! i)"
  by (simp add: cacheInv_def)

lemma cacheInv_update:
  assumes "cacheInv c" and "bInv b"
  shows "cacheInv (c\<lparr>buckets := (buckets c)[i := b]\<rparr>)"
  using assms set_update_subset_insert [of "buckets c" i b] by (auto simp: cacheInv_def)

lemma lookup_update:
  assumes "cacheInv c" and "i < BucketsCount"
  shows "cacheLookup hf (c\<lparr>buckets := (buckets c)[i := b]\<rparr>) k =
     (if bucketIdx hf k = i then (case bView b (hf k) of None \<Rightarrow> None | Some (k', v) \<Rightarrow> if k = k' then Some v else None)
      else cacheLookup hf c k)"
  using assms by (auto simp: cacheLookup_def cacheInv_def)

lemma cacheGet_lookup:
  assumes "cacheInv c"
  shows "cacheGet hf dst k c =
    Inr (case cacheLookup hf c k of None \<Rightarrow> (Some NotFound, dst) | Some v \<Rightarrow> (None, dst @ v))"
  using bucket.get_view [OF bInv_nth [OF assms bucketIdx_less]]
  by (auto simp: cacheGet_def cacheLookup_def split: option.split)

lemma Has_lookup: "cacheInv c \<Longrightarrow> Has hf k c = Inr (cacheLookup hf c k \<noteq> None)"
  using bucket.get_view [OF bInv_nth [OF _ bucketIdx_less]]
  by (auto simp: Has_def cacheLookup_def split: option.split)

lemma cacheSet_cases:
  assumes inv: "cacheInv c"
  shows "\<exists>e c'. cacheSet hf ok k v c = Inr (e, c') \<and> cacheInv c' \<and>
     (case e of
        None \<Rightarrow> fits k v \<and> cacheLookup hf c' k = Some v \<and>
                (\<forall>k'. k' \<noteq> k \<longrightarrow> cacheLookup hf c' k' = cacheLookup hf c k' \<or> cacheLookup hf c' k' = None)
      | Some _ \<Rightarrow> cacheLookup hf c' = cacheLookup hf c \<and> \<not> (ok \<and> fits k v))"
proof -
  let ?i = "bucketIdx hf k" and ?h = "hf k"
  obtain e b where s: "bSet ok k v ?h (buckets c ! ?i) = Inr (e, b)" "bInv b"
    "case e of
        None \<Rightarrow> fits k v \<and> bView b ?h = Some (k, v) \<and>
                (\<forall>h'. h' \<noteq> ?h \<longrightarrow> bView b h' = bView (buckets c ! ?i) h' \<or> bView b h' = None)
      | Some _ \<Rightarrow> bView b = bView (buckets c ! ?i) \<and> \<not> (ok \<and> fits k v)"
    using bSet_cases [of "buckets c ! ?i" ok k v ?h] bInv_nth [OF inv bucketIdx_less] by blast
  let ?c = "c\<lparr>buckets := (buckets c)[?i := b]\<rparr>"
  have set: "cacheSet hf ok k v c = Inr (e, ?c)" using s(1) by (simp add: cacheSet_def Let_def)
  note look = lookup_update [OF inv bucketIdx_less [of hf k], where hf = hf and b = b]
  show ?thesis
  proof (cases e)
    case None
    then have b: "fits k v" "bView b ?h = Some (k, v)"
      "\<And>h'. h' \<noteq> ?h \<Longrightarrow> bView b h' = bView (buckets c ! ?i) h' \<or> bView b h' = None" using s(3) by auto
    have "cacheLookup hf ?c k' = cacheLookup hf c k' \<or> cacheLookup hf ?c k' = None" if "k' \<noteq> k" for k'
    proof (cases "hf k' = ?h")
      case True
      then show ?thesis using look [of k'] b(2) that by (simp add: bucketIdx_def)
    next
      case False
      then show ?thesis using look [of k'] b(3) [of "hf k'"] by (auto simp: cacheLookup_def)
    qed
    then show ?thesis using set cacheInv_update [OF inv s(2)] look [of k] b(1,2) None by auto
  next
    case (Some err)
    then have "cacheLookup hf ?c = cacheLookup hf c" using s(3) look by (auto simp: cacheLookup_def fun_eq_iff)
    then show ?thesis using set cacheInv_update [OF inv s(2)] s(3) Some by auto
  qed
qed

interpretation cache: lossy_map cacheInv "cacheLookup hf" fits "cacheSet hf" "cacheDel hf" cacheReset for hf
proof
  fix c c' and ok k k' v e
  assume inv: "cacheInv c"
  note s = cacheSet_cases [OF inv, of hf ok k v]
  show "\<exists>e c'. cacheSet hf ok k v c = Inr (e, c') \<and> cacheInv c'" using s by auto
  show "r = None" if "fits k v" "cacheSet hf True k v c = Inr (r, c')" for r
    using cacheSet_cases [OF inv, of hf True k v] that by (cases r) auto
  show "cacheLookup hf c' k = Some v" if "cacheSet hf ok k v c = Inr (None, c')" using s that by auto
  show "cacheLookup hf c' k' = cacheLookup hf c k' \<or> cacheLookup hf c' k' = None"
    if "cacheSet hf ok k v c = Inr (None, c')" "k' \<noteq> k" using s that by auto
  show "cacheLookup hf c' = cacheLookup hf c" if "cacheSet hf ok k v c = Inr (Some e, c')" using s that by auto
  let ?b = "buckets c ! bucketIdx hf k"
  have b: "bInv ?b" by (rule bInv_nth [OF inv bucketIdx_less])
  have look: "cacheLookup hf (cacheDel hf k c) x = (if bucketIdx hf x = bucketIdx hf k
      then (case ((bView ?b)(hf k := None)) (hf x) of None \<Rightarrow> None | Some (k', v) \<Rightarrow> if x = k' then Some v else None)
      else cacheLookup hf c x)" for x
    using lookup_update [OF inv bucketIdx_less [of hf k], of hf "bDel (hf k) ?b" x] bucket.del_view [OF b]
    by (simp add: cacheDel_def Let_def)
  show "cacheInv (cacheDel hf k c)"
    using cacheInv_update [OF inv bucket.del_inv [OF b]] by (simp add: cacheDel_def Let_def)
  show "cacheLookup hf (cacheDel hf k c) k = None" using look [of k] by simp
  show "cacheLookup hf (cacheDel hf k c) k' = cacheLookup hf c k' \<or> cacheLookup hf (cacheDel hf k c) k' = None"
    using look [of k'] by (auto simp: cacheLookup_def)
  show "cacheInv (cacheReset c)" using inv by (auto simp: cacheInv_def cacheReset_def bucket.reset_inv)
  show "cacheLookup hf (cacheReset c) = Map.empty"
    using inv bucketIdx_less bInv_nth [OF inv]
    by (auto simp: cacheLookup_def cacheReset_def cacheInv_def bucket.reset_view fun_eq_iff)
qed

section \<open>Batches\<close>

lemma forBuckets_spec:
  assumes "\<And>j. j < length bs \<Longrightarrow> \<exists>b'. f (i + j) (bs ! j) = Inr b' \<and> P (i + j) b'"
  shows "\<exists>bs'. forBuckets f i bs = Inr bs' \<and> length bs' = length bs \<and> (\<forall>j<length bs. P (i + j) (bs' ! j))"
  using assms
proof (induction bs arbitrary: i)
  case (Cons b bs)
  obtain b' where b': "f i b = Inr b'" "P i b'" using Cons.prems [of 0] by auto
  have "\<And>j. j < length bs \<Longrightarrow> \<exists>b'. f (i + 1 + j) (bs ! j) = Inr b' \<and> P (i + 1 + j) b'"
    using Cons.prems [of "Suc _"] by fastforce
  from Cons.IH [OF this] obtain bs' where bs': "forBuckets f (i + 1) bs = Inr bs'" "length bs' = length bs"
    "\<forall>j<length bs. P (i + 1 + j) (bs' ! j)" by blast
  have "P (i + j) ((b' # bs') ! j)" if "j < length (b # bs)" for j
    using that b'(2) bs'(3) by (cases j) auto
  with b' bs' show ?case by simp
qed simp

text \<open>What a bucket holds for a key.\<close>

definition bKey :: "(bytes \<Rightarrow> u64) \<Rightarrow> bucket \<Rightarrow> bytes \<Rightarrow> bytes option" where
  "bKey hf b k = (case bView b (hf k) of None \<Rightarrow> None | Some (k', v) \<Rightarrow> if k = k' then Some v else None)"

lemma cacheLookup_bKey: "cacheLookup hf c k = bKey hf (buckets c ! bucketIdx hf k) k"
  by (simp add: cacheLookup_def bKey_def)

lemma bSet_bKey:
  assumes "bInv b"
  shows "\<exists>e b'. bSet ok k v (hf k) b = Inr (e, b') \<and> bInv b' \<and>
     (if e = None then bKey hf b' k = Some v \<and> (\<forall>k'. k' \<noteq> k \<longrightarrow> bKey hf b' k' = bKey hf b k' \<or> bKey hf b' k' = None)
      else bKey hf b' = bKey hf b \<and> \<not> (ok \<and> fits k v))"
proof -
  obtain e b' where s: "bSet ok k v (hf k) b = Inr (e, b')" "bInv b'"
    "case e of
        None \<Rightarrow> fits k v \<and> bView b' (hf k) = Some (k, v) \<and>
                (\<forall>h'. h' \<noteq> hf k \<longrightarrow> bView b' h' = bView b h' \<or> bView b' h' = None)
      | Some _ \<Rightarrow> bView b' = bView b \<and> \<not> (ok \<and> fits k v)"
    using bSet_cases [OF assms] by blast
  have "bKey hf b' k' = bKey hf b k' \<or> bKey hf b' k' = None" if "e = None" "k' \<noteq> k" for k'
    using s(3) that by (cases "hf k' = hf k") (auto simp: bKey_def)
  moreover have "bKey hf b' k = Some v" if "e = None" using s(3) that by (simp add: bKey_def)
  moreover have "bKey hf b' = bKey hf b" if "e \<noteq> None" using s(3) that by (auto simp: bKey_def fun_eq_iff)
  ultimately show ?thesis using s by (intro exI [of _ e] exI [of _ b']) (cases e; auto)
qed

lemma bSetMulti_spec:
  assumes "bInv b"
  shows "\<exists>b'. bSetMulti hf ok i kvs b = Inr b' \<and> bInv b' \<and>
     (\<forall>k v. bKey hf b' k = Some v \<longrightarrow> bKey hf b k = Some v \<or> (k, v) \<in> set kvs) \<and>
     ((\<forall>j. ok j) \<and> (\<forall>(k, v)\<in>set kvs. fits k v) \<longrightarrow>
        (\<forall>k. bKey hf b' k = None \<or> bKey hf b' k = (bKey hf b ++ map_of (rev kvs)) k))"
  using assms
proof (induction kvs arbitrary: i b)
  case (Cons kv kvs)
  obtain k v where kv: "kv = (k, v)" by (cases kv)
  obtain e b1 where b1: "bSet (ok i) k v (hf k) b = Inr (e, b1)" "bInv b1"
    "if e = None then bKey hf b1 k = Some v \<and> (\<forall>k'. k' \<noteq> k \<longrightarrow> bKey hf b1 k' = bKey hf b k' \<or> bKey hf b1 k' = None)
     else bKey hf b1 = bKey hf b \<and> \<not> (ok i \<and> fits k v)"
    using bSet_bKey [OF Cons.prems] by blast
  obtain b' where b': "bSetMulti hf ok (i + 1) kvs b1 = Inr b'" "bInv b'"
    "\<forall>k v. bKey hf b' k = Some v \<longrightarrow> bKey hf b1 k = Some v \<or> (k, v) \<in> set kvs"
    "(\<forall>j. ok j) \<and> (\<forall>(k, v)\<in>set kvs. fits k v) \<longrightarrow>
       (\<forall>k. bKey hf b' k = None \<or> bKey hf b' k = (bKey hf b1 ++ map_of (rev kvs)) k)"
    using Cons.IH [OF b1(2)] by blast
  have "bKey hf b x = Some y \<or> (x, y) \<in> set (kv # kvs)" if "bKey hf b' x = Some y" for x y
  proof -
    from b'(3) that have "bKey hf b1 x = Some y \<or> (x, y) \<in> set kvs" by blast
    then show ?thesis using b1(3) kv by (cases "e = None"; cases "x = k") auto
  qed
  moreover have "bKey hf b' x = None \<or> bKey hf b' x = (bKey hf b ++ map_of (rev (kv # kvs))) x"
    if all: "\<forall>j. ok j" "\<forall>(k, v)\<in>set (kv # kvs). fits k v" for x
  proof -
    have "e = None" using b1(3) all kv by (auto split: if_splits)
    then have k: "bKey hf b1 k = Some v" "x \<noteq> k \<Longrightarrow> bKey hf b1 x = bKey hf b x \<or> bKey hf b1 x = None" using b1(3) by auto
    have "bKey hf b' x = None \<or> bKey hf b' x = (bKey hf b1 ++ map_of (rev kvs)) x" using b'(4) all by simp
    then show ?thesis using k kv by (cases "x = k") (auto simp: map_add_def split: option.splits)
  qed
  ultimately show ?case using b1(1) b'(1,2) kv by simp
qed simp

lemma SetMulti_spec:
  assumes inv: "cacheInv c" and len: "length ks \<le> length vs"
  shows "\<exists>c'. SetMulti hf ok ks vs c = Inr c' \<and> cacheInv c' \<and>
     (\<forall>k v. cacheLookup hf c' k = Some v \<longrightarrow> cacheLookup hf c k = Some v \<or> (k, v) \<in> set (zip ks vs)) \<and>
     ((\<forall>i j. ok i j) \<and> (\<forall>(k, v)\<in>set (zip ks vs). fits k v) \<longrightarrow>
        (\<forall>k. cacheLookup hf c' k = None \<or> cacheLookup hf c' k = (cacheLookup hf c ++ map_of (rev (zip ks vs))) k))"
proof -
  let ?kvs = "\<lambda>i. filter (\<lambda>(k, _). bucketIdx hf k = i) (zip ks vs)"
  let ?P = "\<lambda>i b'. bInv b' \<and>
     (\<forall>k v. bKey hf b' k = Some v \<longrightarrow> bKey hf (buckets c ! i) k = Some v \<or> (k, v) \<in> set (?kvs i)) \<and>
     ((\<forall>j. ok i j) \<and> (\<forall>(k, v)\<in>set (?kvs i). fits k v) \<longrightarrow>
        (\<forall>k. bKey hf b' k = None \<or> bKey hf b' k = (bKey hf (buckets c ! i) ++ map_of (rev (?kvs i))) k))"
  have "\<exists>b'. bSetMulti hf (ok (0 + j)) 0 (?kvs (0 + j)) (buckets c ! j) = Inr b' \<and> ?P (0 + j) b'"
    if "j < length (buckets c)" for j
    using that inv bSetMulti_spec [of "buckets c ! j" hf "ok j" 0 "?kvs j"] by (simp add: cacheInv_def)
  from forBuckets_spec [of "buckets c" "\<lambda>i. bSetMulti hf (ok i) 0 (?kvs i)" 0 ?P, OF this]
  obtain bs where bs: "forBuckets (\<lambda>i. bSetMulti hf (ok i) 0 (?kvs i)) 0 (buckets c) = Inr bs"
    "length bs = length (buckets c)" "\<forall>j<length (buckets c). ?P j (bs ! j)" by auto
  let ?c = "c\<lparr>buckets := bs\<rparr>"
  have P: "?P (bucketIdx hf k) (bs ! bucketIdx hf k)" for k using bs(3) inv by (simp add: cacheInv_def)
  have "map_of (rev (?kvs (bucketIdx hf k))) k = map_of (rev (zip ks vs)) k" for k
  proof -
    have "map_of (filter (\<lambda>(k', _). bucketIdx hf k' = bucketIdx hf k) al) k = map_of al k" for al :: "(bytes \<times> bytes) list"
      by (induction al) auto
    then show ?thesis by (simp add: rev_filter)
  qed
  then have map: "(bKey hf (buckets c ! bucketIdx hf k) ++ map_of (rev (?kvs (bucketIdx hf k)))) k =
      (cacheLookup hf c ++ map_of (rev (zip ks vs))) k" for k
    by (simp add: map_add_def cacheLookup_bKey split: option.split)
  have look: "cacheLookup hf ?c k = bKey hf (bs ! bucketIdx hf k) k" for k by (simp add: cacheLookup_bKey)
  have "cacheInv ?c" using inv bs(2,3) by (auto simp: cacheInv_def in_set_conv_nth)
  moreover have "cacheLookup hf c k = Some v \<or> (k, v) \<in> set (zip ks vs)" if "cacheLookup hf ?c k = Some v" for k v
  proof -
    have "bKey hf (buckets c ! bucketIdx hf k) k = Some v \<or> (k, v) \<in> set (?kvs (bucketIdx hf k))"
      using P [of k] that unfolding look by blast
    then show ?thesis by (auto simp: cacheLookup_bKey)
  qed
  moreover have "cacheLookup hf ?c k = None \<or> cacheLookup hf ?c k = (cacheLookup hf c ++ map_of (rev (zip ks vs))) k"
    if "\<forall>i j. ok i j" "\<forall>(k, v)\<in>set (zip ks vs). fits k v" for k
  proof -
    have "\<forall>(k', v)\<in>set (?kvs (bucketIdx hf k)). fits k' v" using that(2) by auto
    then have "bKey hf (bs ! bucketIdx hf k) k = None \<or> bKey hf (bs ! bucketIdx hf k) k =
        (bKey hf (buckets c ! bucketIdx hf k) ++ map_of (rev (?kvs (bucketIdx hf k)))) k"
      using P [of k] that(1) by blast
    then show ?thesis unfolding look map .
  qed
  moreover have "SetMulti hf ok ks vs c = Inr ?c" using len bs(1) by (simp add: SetMulti_def)
  ultimately show ?thesis by blast
qed

section \<open>Properties\<close>

text \<open>
  C31: Read your write: in every reachable state of the cache, whatever its bucket type, storing an entry
  that fits a chunk succeeds, if the memory it asks for is granted, and the next look-up of the key appends exactly the
  stored value.
\<close>

theorem Cache_read_your_write:
  assumes "cacheInv c" and "fits k v"
  shows "\<exists>c'. cacheSet hf True k v c = Inr (None, c') \<and> cacheInv c' \<and>
     cacheGet hf dst k c' = Inr (None, dst @ v) \<and> Has hf k c' = Inr True"
  using cache.put_get [OF assms, of hf] by (auto simp: cacheGet_lookup Has_lookup)

text \<open>
  The history of a sequence of operations: what was stored last under each key and neither deleted
  nor reset since. A \<open>Set\<close> that reports an error stores nothing.
\<close>

fun cacheRun :: "(bytes \<Rightarrow> u64) \<Rightarrow> bytes cacheOp list \<Rightarrow> ImprovedCache \<Rightarrow> (bytes \<rightharpoonup> bytes) \<Rightarrow>
    (ImprovedCache \<times> (bytes \<rightharpoonup> bytes)) go" where
  "cacheRun hf [] c hist = Inr (c, hist)"
| "cacheRun hf (CSet ok k v # ops) c hist =
     go_bind (cacheSet hf ok k v c) (\<lambda>(e, c). cacheRun hf ops c (if e = None then hist(k \<mapsto> v) else hist))"
| "cacheRun hf (CDel k # ops) c hist = cacheRun hf ops (cacheDel hf k c) (hist(k := None))"
| "cacheRun hf (CReset # ops) c hist = cacheRun hf ops (cacheReset c) Map.empty"

lemma cacheRun_step:
  "cacheInv c \<Longrightarrow> cacheRun hf ops c hist = Inr (fold (cache.step hf) ops (c, hist))"
proof (induction ops arbitrary: c hist)
  case (Cons op ops)
  show ?case
  proof (cases op)
    case (CSet ok k v)
    obtain e c' where s: "cacheSet hf ok k v c = Inr (e, c')" "cacheInv c'"
      using cache.put_total [OF Cons.prems] by blast
    then have "cache.step hf op (c, hist) = (c', if e = None then hist(k \<mapsto> v) else hist)"
      using CSet by (cases e) (simp_all add: cache.step_def)
    then show ?thesis using Cons.IH [OF s(2)] CSet s(1) by (simp only: fold_simps o_apply cacheRun.simps go_bind_simps prod.case)
  next
    case (CDel k)
    have "cache.step hf op (c, hist) = (cacheDel hf k c, hist(k := None))" by (simp add: cache.step_def CDel)
    then show ?thesis using Cons.IH [OF cache.del_inv [OF Cons.prems]] CDel by (simp only: fold_simps o_apply cacheRun.simps)
  next
    case CReset
    have "cache.step hf op (c, hist) = (cacheReset c, Map.empty)" by (simp add: cache.step_def CReset)
    then show ?thesis using Cons.IH [OF cache.reset_inv [OF Cons.prems]] CReset by (simp only: fold_simps o_apply cacheRun.simps)
  qed
qed simp

text \<open>
  C30: The cache never lies: after any sequence of \<open>Set\<close>, \<open>Del\<close> and \<open>Reset\<close> on an empty cache, through any
  number of wrap-arounds, generations, hash collisions and failed memory mappings, no operation
  panics and a look-up that succeeds returns the value stored last under that key.
\<close>

theorem Cache_sound:
  assumes "cacheInv c" and "cacheLookup hf c = Map.empty"
  shows "\<exists>c' hist. cacheRun hf ops c Map.empty = Inr (c', hist) \<and> cacheInv c' \<and>
     (\<forall>k v. cacheGet hf [] k c' = Inr (None, v) \<longrightarrow> hist k = Some v)"
proof -
  obtain c' hist where r: "fold (cache.step hf) ops (c, Map.empty) = (c', hist)" by fastforce
  have "cacheLookup hf c \<subseteq>\<^sub>m Map.empty" using assms(2) by simp
  from cache.run_sound [OF assms(1) this, of ops] r have c': "cacheInv c'" "cacheLookup hf c' \<subseteq>\<^sub>m hist" by auto
  have "hist k = Some v" if "cacheGet hf [] k c' = Inr (None, v)" for k v
    using that c'(2) unfolding cacheGet_lookup [OF c'(1)]
    by (auto simp: map_le_def dom_def split: option.splits)
  with c'(1) show ?thesis using cacheRun_step [OF assms(1)] r by auto
qed

text \<open>
  A batch store keeps every guarantee: \<open>SetMulti\<close> does not panic when there is a value for every key,
  keeps the invariant, and afterwards every key of the batch is either evicted or holds the value of
  its last occurrence in the batch, while every other key is unchanged or evicted.
\<close>

theorem SetMulti_sound:
  assumes "cacheInv c" and "length ks \<le> length vs" and "\<forall>i j. ok i j" and "\<forall>(k, v)\<in>set (zip ks vs). fits k v"
  shows "\<exists>c'. SetMulti hf ok ks vs c = Inr c' \<and> cacheInv c' \<and>
     (\<forall>k. cacheLookup hf c' k = None \<or> cacheLookup hf c' k = (cacheLookup hf c ++ map_of (rev (zip ks vs))) k)"
  using SetMulti_spec [OF assms(1,2), of hf ok] assms(3,4) by blast

section \<open>Creation\<close>

lemma initBucket_inv:
  assumes "initBucket ty ok mb = Inr (Inr b)"
  shows "bInv b \<and> bView b = Map.empty"
proof (cases ty)
  case Unallocated
  then obtain u where "Init_u mb = Inr u" "b = BU u" using assms by (cases "Init_u mb") (auto simp: initBucket_def)
  then show ?thesis using Init_u_inv by (simp add: bInv_def bView_def)
next
  case Preallocated
  then obtain r where "Init_p ok mb 2 = Inr r" "map_sum id BP r = Inr b"
    using assms by (cases "Init_p ok mb 2") (auto simp: initBucket_def)
  then obtain p where "Init_p ok mb 2 = Inr (Inr p)" "b = BP p" by (cases r) auto
  then show ?thesis using Init_p_inv [of ok mb 2 p] by (simp add: bInv_def bView_def)
next
  case Trimmed
  then obtain t where "Init_t mb = Inr t" "b = BT t" using assms by (cases "Init_t mb") (auto simp: initBucket_def)
  then show ?thesis using Init_t_inv by (simp add: bInv_def bView_def)
qed

lemma initBuckets_inv:
  "initBuckets ty ok mb i n = Inr (Inr bs) \<Longrightarrow> length bs = n \<and> (\<forall>b\<in>set bs. bInv b \<and> bView b = Map.empty)"
proof (induction n arbitrary: i bs)
  case (Suc n)
  then obtain r where "initBucket ty (ok i) mb = Inr r" by (cases "initBucket ty (ok i) mb") auto
  with Suc.prems obtain b where b: "initBucket ty (ok i) mb = Inr (Inr b)" by (cases r) auto
  with Suc.prems obtain r' where "initBuckets ty ok mb (i + 1) n = Inr r'"
    by (cases "initBuckets ty ok mb (i + 1) n") auto
  with Suc.prems b obtain bs' where "initBuckets ty ok mb (i + 1) n = Inr (Inr bs')" "bs = b # bs'" by (cases r') auto
  with Suc.IH [of "i + 1" bs'] initBucket_inv [OF b] show ?case by simp
qed auto

lemma New_inv:
  assumes "New ok maxBytes ty = Inr (Inr c)"
  shows "cacheInv c \<and> cacheLookup hf c = Map.empty"
proof -
  let ?mb = "if (of_int (maxBytes div 32) :: u64) < 1024 then 1024 * 8 else of_int (maxBytes div 32)"
  obtain r where r: "initBuckets ty ok ?mb 0 BucketsCount = Inr r"
    using assms by (cases "initBuckets ty ok ?mb 0 BucketsCount") (auto simp: New_def Let_def split: if_splits)
  then obtain bs where "initBuckets ty ok ?mb 0 BucketsCount = Inr (Inr bs)" "buckets c = bs"
    using assms by (cases r) (auto simp: New_def Let_def split: if_splits)
  with initBuckets_inv have "length (buckets c) = BucketsCount" "\<forall>b\<in>set (buckets c). bInv b \<and> bView b = Map.empty"
    by blast+
  then show ?thesis using bucketIdx_less by (auto simp: cacheInv_def cacheLookup_def fun_eq_iff)
qed

lemma bucketBytes_bounds:
  assumes "0 < n" and "n div 32 < 2 ^ 40"
  defines "mb \<equiv> (if (of_int (n div 32) :: u64) < 1024 then 1024 * 8 else of_int (n div 32))"
  shows "mb \<noteq> 0" and "\<not> mb \<ge> maxBucketSize" and "1024 \<le> n div 32 \<Longrightarrow> unat mb = nat (n div 32)"
proof -
  have u: "unat (of_int (n div 32) :: u64) = nat (n div 32)"
    using assms(1,2) by (simp add: unsigned_of_int take_bit_int_eq_self)
  then show "mb \<noteq> 0" "1024 \<le> n div 32 \<Longrightarrow> unat mb = nat (n div 32)" by (auto simp: mb_def word_less_nat_alt)
  show "\<not> mb \<ge> maxBucketSize" using u assms(2) by (auto simp: mb_def word_less_nat_alt word_le_nat_alt)
qed

lemma initBuckets_total:
  assumes "\<And>i. \<exists>b. initBucket ty (ok i) mb = Inr (Inr b)"
  shows "\<exists>bs. initBuckets ty ok mb i n = Inr (Inr bs)"
proof (induction n arbitrary: i)
  case (Suc n)
  obtain b where "initBucket ty (ok i) mb = Inr (Inr b)" using assms by blast
  moreover obtain bs where "initBuckets ty ok mb (i + 1) n = Inr (Inr bs)" using Suc by blast
  ultimately show ?case by simp
qed simp

lemma New_exists:
  assumes "0 < n" and "n div 32 < 2 ^ 40" and "ty \<noteq> Preallocated"
  shows "\<exists>c. New ok n ty = Inr (Inr c)"
proof -
  let ?mb = "(if (of_int (n div 32) :: u64) < 1024 then 1024 * 8 else of_int (n div 32)) :: u64"
  note mb = bucketBytes_bounds [OF assms(1,2)]
  have "\<exists>b. initBucket ty (ok i) ?mb = Inr (Inr b)" for i
    using mb(1,2) assms(3) by (cases ty) (simp_all only: initBucket_def Init_u_def Init_t_def Let_def if_False BucketType.case map_sum.simps, blast+)
  from initBuckets_total [of ty ok ?mb 0 BucketsCount, OF this]
  obtain bs where "initBuckets ty ok ?mb 0 BucketsCount = Inr (Inr bs)" by blast
  then show ?thesis using assms(1) by (simp add: New_def Let_def)
qed

text \<open>
  A cache of the on-demand bucket types can be created for every positive size below \<open>2^45\<close> bytes; it
  is empty and satisfies the invariant, whatever memory mappings will later succeed.
\<close>

theorem New_total:
  assumes "0 < n" and "n div 32 < 2 ^ 40" and "ty \<noteq> Preallocated"
  shows "\<exists>c. New ok n ty = Inr (Inr c) \<and> cacheInv c \<and> cacheLookup hf c = Map.empty"
  using New_exists [OF assms, of ok] New_inv by blast

theorem New_total_witness:
  "\<exists>c. New (\<lambda>_. False) 1048576 Trimmed = Inr (Inr c) \<and> cacheInv c \<and> cacheLookup (\<lambda>k. of_nat (length k)) c = Map.empty"
  by (rule New_total) simp_all

text \<open>
  The preallocated bucket type panics on creation unless the size of a bucket is a multiple of the
  chunk size: the loop that cuts the mapping into chunks slices beyond its end.
\<close>

theorem New_preallocated_panics:
  assumes "1024 \<le> n div 32" and "n div 32 < 2 ^ 40" and "(n div 32) mod 1024 \<noteq> 0" and "ok 0"
  shows "New ok n Preallocated = Inl IndexOutOfRange"
proof -
  let ?mb = "(if (of_int (n div 32) :: u64) < 1024 then 1024 * 8 else of_int (n div 32)) :: u64"
  have n: "0 < n" using assms(1) by linarith
  note mb = bucketBytes_bounds [OF n assms(2)]
  have "nat (n div 32) mod 1024 = nat (n div 32 mod 1024)" using n by (simp add: nat_mod_distrib)
  moreover have "nat (n div 32 mod 1024) \<noteq> 0" using assms(3) pos_mod_sign [of 1024 "n div 32"] by linarith
  ultimately have "unat ?mb mod ChunkSize \<noteq> 0" unfolding mb(3) [OF assms(1)] by simp
  then have "cutChunks (unat ?mb) = Inl IndexOutOfRange" by (simp only: cutChunks_spec if_False)
  then have "initBucket Preallocated (ok 0) ?mb = Inl IndexOutOfRange"
    using mb(1,2) assms(4) by (simp only: initBucket_def Init_p_def BucketType.case if_False simp_thms go_bind_simps)
  then have "initBuckets Preallocated ok ?mb 0 (Suc 31) = Inl IndexOutOfRange" by (simp only: initBuckets.simps go_bind_simps)
  then show ?thesis using n by (simp add: New_def Let_def)
qed

theorem New_preallocated_panics_witness: "New (\<lambda>_. True) 100000 Preallocated = Inl IndexOutOfRange"
  by (rule New_preallocated_panics) simp_all

theorem Cache_read_your_write_witness:
  "\<exists>c c'. New (\<lambda>_. True) 1048576 Unallocated = Inr (Inr c) \<and>
     cacheSet (\<lambda>k. of_nat (length k)) True [1, 2] [3] c = Inr (None, c') \<and>
     cacheGet (\<lambda>k. of_nat (length k)) [9] [1, 2] c' = Inr (None, [9, 3])"
proof -
  obtain c where c: "New (\<lambda>_. True) 1048576 Unallocated = Inr (Inr c)" "cacheInv c"
    using New_exists [of 1048576 Unallocated] New_inv by fastforce
  have "fits [1, 2] [3]" by (simp add: fits_def)
  from Cache_read_your_write [OF c(2) this, of "\<lambda>k. of_nat (length k)" "[9]"] c(1) show ?thesis by auto
qed

theorem Cache_sound_witness:
  "\<exists>c c' hist. New (\<lambda>_. True) 1048576 Unallocated = Inr (Inr c) \<and>
     cacheRun (\<lambda>k. of_nat (length k)) [CSet True [1] [2], CSet False [3] [4], CDel [1]] c Map.empty = Inr (c', hist) \<and>
     (\<forall>k v. cacheGet (\<lambda>k. of_nat (length k)) [] k c' = Inr (None, v) \<longrightarrow> hist k = Some v)"
proof -
  obtain c where c: "New (\<lambda>_. True) 1048576 Unallocated = Inr (Inr c)"
    using New_exists [of 1048576 Unallocated] by auto
  from Cache_sound [OF New_inv [OF c, THEN conjunct1] New_inv [OF c, THEN conjunct2]] c show ?thesis by blast
qed

theorem SetMulti_sound_witness:
  "\<exists>c c'. New (\<lambda>_. True) 1048576 Trimmed = Inr (Inr c) \<and>
     SetMulti (\<lambda>k. of_nat (length k)) (\<lambda>_ _. True) [[1], [2, 3], [1]] [[7], [8], [9]] c = Inr c' \<and>
     (cacheLookup (\<lambda>k. of_nat (length k)) c' [1] = None \<or> cacheLookup (\<lambda>k. of_nat (length k)) c' [1] = Some [9])"
proof -
  obtain c where c: "New (\<lambda>_. True) 1048576 Trimmed = Inr (Inr c)"
    using New_exists [of 1048576 Trimmed] by auto
  have "\<forall>(k, v)\<in>set (zip [[1], [2, 3], [1]] [[7], [8], [9]]). fits k v" by (simp add: fits_def)
  from SetMulti_sound [OF New_inv [OF c, THEN conjunct1], of "[[1], [2, 3], [1]]" "[[7], [8], [9]]" "\<lambda>_ _. True",
      OF _ _ this, of "\<lambda>k. of_nat (length k)"]
  obtain c' where c': "SetMulti (\<lambda>k. of_nat (length k)) (\<lambda>_ _. True) [[1], [2, 3], [1]] [[7], [8], [9]] c = Inr c'"
    "\<forall>k. cacheLookup (\<lambda>k. of_nat (length k)) c' k = None \<or> cacheLookup (\<lambda>k. of_nat (length k)) c' k =
       (cacheLookup (\<lambda>k. of_nat (length k)) c ++ map_of (rev (zip [[1], [2, 3], [1]] [[7], [8], [9]]))) k" by auto
  from c'(2) [rule_format, of "[1]"] c c'(1) show ?thesis by (auto simp: map_add_def)
qed

section \<open>Memory and clean-up\<close>

text \<open>A sequence of operations on a bucket, with what the calls of \<open>Set\<close> answer.\<close>

fun bucketRun ::
    "(bool \<Rightarrow> bytes \<Rightarrow> bytes \<Rightarrow> u64 \<Rightarrow> 'b \<Rightarrow> (cacheErr option \<times> 'b) go) \<Rightarrow> (u64 \<Rightarrow> 'b \<Rightarrow> 'b) \<Rightarrow> ('b \<Rightarrow> 'b)
     \<Rightarrow> bucketOp list \<Rightarrow> 'b \<Rightarrow> (cacheErr option list \<times> 'b) go" where
  "bucketRun put del reset [] b = Inr ([], b)"
| "bucketRun put del reset (OpSet ok k v h # ops) b =
     go_bind (put ok k v h b) (\<lambda>(e, b). go_bind (bucketRun put del reset ops b) (\<lambda>(es, b). Inr (e # es, b)))"
| "bucketRun put del reset (OpDel h # ops) b = bucketRun put del reset ops (del h b)"
| "bucketRun put del reset (OpReset # ops) b = bucketRun put del reset ops (reset b)"

lemma bucketRun_keeps:
  assumes "\<And>ok k v h b. P b \<Longrightarrow> \<exists>e b'. put ok k v h b = Inr (e, b') \<and> P b' \<and> Q e"
    and "\<And>h b. P b \<Longrightarrow> P (del h b)" and "\<And>b. P b \<Longrightarrow> P (reset b)" and "P b"
  shows "\<exists>es b'. bucketRun put del reset ops b = Inr (es, b') \<and> P b' \<and> list_all Q es"
  using assms(4)
proof (induction ops arbitrary: b)
  case (Cons op ops)
  show ?case
  proof (cases op)
    case (OpSet ok k v h)
    obtain e b1 where "put ok k v h b = Inr (e, b1)" "P b1" "Q e" using assms(1) [OF Cons.prems] by blast
    then show ?thesis using OpSet Cons.IH [of b1] by auto
  qed (use Cons assms(2,3) in auto)
qed simp

text \<open>The errors \<open>Set\<close> documents; the others of \<open>getChunk\<close> are marked as unreachable.\<close>

definition expectedErr :: "cacheErr option \<Rightarrow> bool" where
  "expectedErr e \<longleftrightarrow> e \<in> {None, Some TooBigKeyOrValue, Some DoesNotFitChunk, Some MmapFailed}"

context ring_bucket
begin

lemma Set_memory:
  assumes "ringInv b" and "length (b_chunks b) = n"
  shows "\<exists>e b'. Set_ring onWrap clean ok k v h b = Inr (e, b') \<and> (ringInv b' \<and> length (b_chunks b') = n) \<and> expectedErr e"
proof (cases "fits k v")
  case False
  then show ?thesis using assms by (auto simp: Set_ring_def fits_def Let_def expectedErr_def)
next
  case True
  obtain e b1 where c: "Set_ring onWrap clean ok k v h b = Inr (e, b1)" "ringInv b1" using Set_contract [OF assms(1)] by blast
  show ?thesis
  proof (cases rule: Set_cases [OF assms(1) True, of ok h])
    case (1 b' i wrapped)
    obtain Q where "sameRing (if wrapped then clean b' else b') (b'\<lparr>b_m := filter Q (b_m b')\<rparr>)"
      by (rule stored_final [OF assms(1) 1(2) refl])
    then have "length (b_chunks b1) = length (b_chunks b')" using 1(1) c(1) by (simp add: sameRing_def)
    moreover have "length (b_chunks b') = length (b_chunks b)" using 1(2) by (auto simp: stored_def written_def)
    ultimately show ?thesis using c 1(1) assms(2) by (auto simp: expectedErr_def)
  next
    case 2
    then show ?thesis using assms by (simp add: expectedErr_def)
  qed
qed

end

lemma Set_t_memory:
  assumes "ringInv b" and "length (b_chunks b) = n"
  shows "\<exists>e b'. Set_t ok k v h b = Inr (e, b') \<and> (ringInv b' \<and> length (b_chunks b') = n) \<and> expectedErr e"
proof -
  obtain e b1 where s: "Set_ring (\<lambda>b. b\<lparr>overWriting := True\<rparr>) cleanLockedMap_t ok k v h b = Inr (e, b1)"
    "ringInv b1" "length (b_chunks b1) = n" "expectedErr e" using ring_t.Set_memory [OF assms] by blast
  obtain b' where b': "Set_t ok k v h b = Inr (e, b')" "sameRing b' b1"
    using s(1) by (cases e) (auto simp: Set_t_def Let_def sameRing_def)
  then show ?thesis using s(2-4) sameRing_inv [OF b'(2)] by (auto simp: sameRing_def)
qed

text \<open>
  The memory a bucket holds is counted exactly, every mapped chunk being in a slot or free, and stays within
  \<open>maxBytes\<close>, or within one chunk if that is larger.
\<close>

definition withinMemory :: "u64 \<Rightarrow> 'a ringBucket_scheme \<Rightarrow> bool" where
  "withinMemory maxBytes b \<longleftrightarrow> unat (allocatedChunks b) = mapped (b_chunks b) + length (freeChunks b)
     \<and> unat (allocatedChunks b) * ChunkSize \<le> max ChunkSize (unat maxBytes)"

lemma sized_withinMemory:
  assumes "ringInv b" and "length (b_chunks b) = unat (if maxBytes div 1024 = 0 then 1 else maxBytes div 1024)"
  shows "withinMemory maxBytes b"
proof -
  have "unat (maxBytes div 1024) = unat maxBytes div 1024" by (simp add: unat_div_distrib)
  then have "length (b_chunks b) * ChunkSize \<le> max ChunkSize (unat maxBytes)" using assms(2) by (auto simp: max_def)
  moreover have "unat (allocatedChunks b) \<le> length (b_chunks b)" "unat (allocatedChunks b) = mapped (b_chunks b) + length (freeChunks b)"
    using assms(1) by (simp_all add: ringInv_def allocOk_def)
  ultimately show ?thesis unfolding withinMemory_def by (meson mult_le_mono1 order_trans)
qed

lemma Init_chunks:
  "Init_u maxBytes = Inr b \<Longrightarrow> length (b_chunks b) = unat (if maxBytes div 1024 = 0 then 1 else maxBytes div 1024)"
  "Init_t maxBytes = Inr b' \<Longrightarrow> length (b_chunks b') = unat (if maxBytes div 1024 = 0 then 1 else maxBytes div 1024)"
  by (auto simp: Init_u_def Init_t_def Reset_t_def Reset_ring_def Let_def split: if_splits)

lemma length_chunks [simp]:
  "length (b_chunks (Del_ring h b)) = length (b_chunks b)"
  "length (b_chunks (Reset_ring b)) = length (b_chunks b)" "length (b_chunks (Reset_t b')) = length (b_chunks b')"
  by (simp_all add: Del_ring_def Reset_ring_def Reset_t_def)

text \<open>
  C37: A ring bucket never maps more memory than it is sized for. After any sequence of \<open>Set\<close>, \<open>Del\<close> and
  \<open>Reset\<close> on a new bucket of \<open>maxBytes\<close>, for the untrimmed and for the trimmed kind and whichever mappings are
  refused, nothing panicked, its accounting is exact (every chunk ever mapped is in a slot or free, so none is
  lost), the mapped chunks are within \<open>maxBytes\<close> (or one chunk), and no \<open>Set\<close> gave the errors of \<open>getChunk\<close>
  that the source marks as unreachable: it fails only for oversized entries or when a mapping is refused.
\<close>

theorem Bucket_memory_bound:
  "(\<forall>b. Init_u maxBytes = Inr b \<longrightarrow>
      (\<exists>es b'. bucketRun Set_u Del_ring Reset_ring ops b = Inr (es, b') \<and> withinMemory maxBytes b' \<and> list_all expectedErr es))
   \<and> (\<forall>b. Init_t maxBytes = Inr b \<longrightarrow>
      (\<exists>es b'. bucketRun Set_t Del_ring Reset_t ops b = Inr (es, b') \<and> withinMemory maxBytes b' \<and> list_all expectedErr es))"
proof (intro conjI allI impI)
  let ?n = "unat (if maxBytes div 1024 = 0 then 1 else maxBytes div 1024)"
  fix b assume b: "Init_u maxBytes = Inr b"
  have "\<exists>es b'. bucketRun Set_u Del_ring Reset_ring ops b = Inr (es, b') \<and> (ringInv b' \<and> length (b_chunks b') = ?n) \<and> list_all expectedErr es"
    by (rule bucketRun_keeps)
      (use Init_u_inv [OF b] Init_chunks(1) [OF b] ring_u.Set_memory in \<open>auto simp: Set_u_def ringInv_Del ringInv_Reset\<close>)
  then show "\<exists>es b'. bucketRun Set_u Del_ring Reset_ring ops b = Inr (es, b') \<and> withinMemory maxBytes b' \<and> list_all expectedErr es"
    using sized_withinMemory by blast
next
  let ?n = "unat (if maxBytes div 1024 = 0 then 1 else maxBytes div 1024)"
  fix b assume b: "Init_t maxBytes = Inr b"
  have "\<exists>es b'. bucketRun Set_t Del_ring Reset_t ops b = Inr (es, b') \<and> (ringInv b' \<and> length (b_chunks b') = ?n) \<and> list_all expectedErr es"
    by (rule bucketRun_keeps)
      (use Init_t_inv [OF b] Init_chunks(2) [OF b] Set_t_memory in \<open>auto simp: ringInv_Del Reset_t_ring ringInv_Reset\<close>)
  then show "\<exists>es b'. bucketRun Set_t Del_ring Reset_t ops b = Inr (es, b') \<and> withinMemory maxBytes b' \<and> list_all expectedErr es"
    using sized_withinMemory by blast
qed

theorem Bucket_memory_bound_witness:
  "\<exists>b es b'. Init_t 8192 = Inr b \<and> bucketRun Set_t Del_ring Reset_t [OpSet True [1] [2] 77, OpReset, OpSet False [1] [2] 77] b = Inr (es, b')
     \<and> unat (allocatedChunks b') \<le> 8 \<and> list_all expectedErr es"
proof -
  have "\<exists>b. Init_t 8192 = Inr b" by (simp add: Init_t_def Let_def)
  then obtain b where b: "Init_t 8192 = Inr b" by blast
  then obtain es b' where "bucketRun Set_t Del_ring Reset_t [OpSet True [1] [2] 77, OpReset, OpSet False [1] [2] 77] b = Inr (es, b')"
    "withinMemory 8192 b'" "list_all expectedErr es"
    using Bucket_memory_bound [of 8192 "[OpSet True [1] [2] 77, OpReset, OpSet False [1] [2] 77]"] by blast
  then show ?thesis using b by (auto simp: withinMemory_def)
qed

text \<open>
  The clean-up of the trimmed bucket can keep an expired entry that the other ring bucket drops:
  the counting loop accepts an entry of the previous generation whatever its index, so when nothing
  else is expired the index is not rebuilt. The entry stays unreadable.
\<close>

theorem Trimmed_cleanup_keeps_expired:
  assumes "b_m b = [(h, w)]" and "posGen w + 1 = curGen b" and "posIdx w < b_idx b"
  shows "b_m (cleanLockedMap_t b) = [(h, w)] \<and> b_m (cleanLockedMap_u b) = [] \<and> \<not> validPos b w"
proof -
  have "posGen w \<noteq> curGen b" using assms(2) by (metis add_cancel_right_right zero_neq_one)
  then have "\<not> keepPos (curGen b) (b_idx b) w" using assms(3) by (simp add: keepPos_def)
  moreover have "countPos (curGen b) (b_idx b) w" using assms(2) by (simp add: countPos_def)
  ultimately show ?thesis
    using assms(1) by (simp only: cleanLockedMap_t_def cleanLockedMap_u_def validPos_keepPos Let_def) simp
qed

theorem Trimmed_cleanup_keeps_expired_witness:
  "let b = \<lparr>b_chunks = [], b_m = [(5, packPos 3 1)], b_idx = 9, b_gen = 2, freeChunks = [], allocatedChunks = 0,
            nextAllocChunks = 0, maxSlabChunks = 0, currentGenCount = 0, previousGenCount = 0\<rparr>
   in b_m (cleanLockedMap_t b) = [(5, packPos 3 1)] \<and> b_m (cleanLockedMap_u b) = []"
proof -
  let ?b = "\<lparr>b_chunks = [], b_m = [(5, packPos 3 1)], b_idx = 9, b_gen = 2, freeChunks = [], allocatedChunks = 0,
            nextAllocChunks = 0, maxSlabChunks = 0, currentGenCount = 0, previousGenCount = 0\<rparr> :: bucketUnallocated"
  have "posGen (packPos 3 1) = 1" "posIdx (packPos 3 1) = 3" using posGen_pack [of 3 1] posIdx_pack [of 3 1] by simp_all
  then show ?thesis
    using Trimmed_cleanup_keeps_expired [of ?b 5 "packPos 3 1"] by (simp add: Let_def)
qed

end
