(* ===== verification/Go_Strings.thy ===== *)
theory Go_Strings
  imports Prelude
begin

text \<open>
  What the program uses of Go's packages strings, strconv and encoding/hex. A string is a sequence of bytes; white
  space is that of ASCII.
\<close>

text \<open>\<open>strings.Cut\<close> at a character, \<open>strings.Split\<close> at a character, \<open>strings.TrimSpace\<close>.\<close>

fun cutAt :: "char \<Rightarrow> string \<Rightarrow> (string \<times> string) option" where
  "cutAt c [] = None"
| "cutAt c (x # xs) = (if x = c then Some ([], xs) else map_option (\<lambda>(a, b). (x # a, b)) (cutAt c xs))"

fun splitOn :: "char \<Rightarrow> string \<Rightarrow> string list" where
  "splitOn c [] = [[]]"
| "splitOn c (x # xs) = (if x = c then [] # splitOn c xs else (case splitOn c xs of [] \<Rightarrow> [[x]] | s # ss \<Rightarrow> (x # s) # ss))"

definition isSpace :: "char \<Rightarrow> bool" where
  "isSpace c = (c = CHR '' '' \<or> (9 \<le> (of_char c :: nat) \<and> (of_char c :: nat) \<le> 13))"

definition trimSpace :: "string \<Rightarrow> string" where
  "trimSpace s = rev (dropWhile isSpace (rev (dropWhile isSpace s)))"

definition hasPrefix :: "string \<Rightarrow> string \<Rightarrow> bool" where
  "hasPrefix p s = (take (length p) s = p)"

definition hasSuffix :: "string \<Rightarrow> string \<Rightarrow> bool" where
  "hasSuffix p s = hasPrefix (rev p) (rev s)"

text \<open>\<open>strings.NewReplacer\<close>: at each place the first pair that matches, without overlaps.\<close>

function replaceAll :: "(string \<times> string) list \<Rightarrow> string \<Rightarrow> string" where
  "replaceAll ps [] = []"
| "replaceAll ps (x # xs) = (case find (\<lambda>(old, new). old \<noteq> [] \<and> hasPrefix old (x # xs)) ps of
      None \<Rightarrow> x # replaceAll ps xs
    | Some (old, new) \<Rightarrow> new @ replaceAll ps (drop (length old) (x # xs)))"
  by pat_completeness auto
termination
proof (relation "measure (length \<circ> snd)")
  fix ps x xs p and old new :: string
  assume "find (\<lambda>(old, new). old \<noteq> [] \<and> hasPrefix old (x # xs)) ps = Some p" and "(old, new) = p"
  then have "old \<noteq> []" by (auto simp: find_Some_iff)
  then show "((ps, drop (length old) (x # xs)), ps, x # xs) \<in> measure (length \<circ> snd)" by (cases old) simp_all
qed simp_all

text \<open>\<open>strconv.Atoi\<close>: an optional sign and decimal digits in the range of 64 bits.\<close>

definition digitsVal :: "string \<Rightarrow> nat option" where
  "digitsVal s = (if s = [] \<or> \<not> list_all (\<lambda>c. 48 \<le> (of_char c :: nat) \<and> (of_char c :: nat) \<le> 57) s then None
     else Some (foldl (\<lambda>n c. 10 * n + (of_char c - 48)) 0 s))"

definition Atoi :: "string \<Rightarrow> int option" where
  "Atoi s = (let (neg, ds) = (case s of c # cs \<Rightarrow> if c = CHR ''-'' then (True, cs) else if c = CHR ''+'' then (False, cs) else (False, s) | [] \<Rightarrow> (False, []))
     in case digitsVal ds of None \<Rightarrow> None
        | Some n \<Rightarrow> (let i = (if neg then - int n else int n) in if - (2 ^ 63) \<le> i \<and> i < 2 ^ 63 then Some i else None))"

section \<open>White space of Unicode\<close>

text \<open>The characters \<open>unicode.IsSpace\<close> accepts, in UTF-8.\<close>

definition spaceRunes :: "string list" where
  "spaceRunes = map (map char_of)
     ([[9], [10], [11], [12], [13], [32], [194, 133], [194, 160], [225, 154, 128]] @ map (\<lambda>b. [226, 128, b]) [128..<139]
      @ [[226, 128, 168], [226, 128, 169], [226, 128, 175], [226, 129, 159], [227, 128, 128 :: nat]])"

text \<open>Removing, as long as there is one, a text of \<open>ps\<close> that the string begins with.\<close>

function trimLeftOf :: "string list \<Rightarrow> string \<Rightarrow> string" where
  "trimLeftOf ps s = (case find (\<lambda>p. p \<noteq> [] \<and> hasPrefix p s) ps of
      None \<Rightarrow> s
    | Some p \<Rightarrow> if s = [] then s else trimLeftOf ps (drop (length p) s))"
  by pat_completeness auto
termination
proof (relation "measure (length \<circ> snd)")
  fix ps s and p :: string
  assume "find (\<lambda>p. p \<noteq> [] \<and> hasPrefix p s) ps = Some p" and "s \<noteq> []"
  then have "p \<noteq> []" by (auto simp: find_Some_iff)
  then show "((ps, drop (length p) s), ps, s) \<in> measure (length \<circ> snd)" using \<open>s \<noteq> []\<close> by (cases p; cases s) simp_all
qed simp

declare trimLeftOf.simps [simp del]

text \<open>\<open>strings.TrimSpace\<close>; \<open>trimSpace\<close> is the same for texts in ASCII.\<close>

definition trimUnicode :: "string \<Rightarrow> string" where
  "trimUnicode s = rev (trimLeftOf (map rev spaceRunes) (rev (trimLeftOf spaceRunes s)))"

text \<open>A text that neither begins nor ends with such a character stays as it is.\<close>

lemma trimLeftOf_none: "find (\<lambda>p. p \<noteq> [] \<and> hasPrefix p s) ps = None \<Longrightarrow> trimLeftOf ps s = s"
  by (subst trimLeftOf.simps) simp

section \<open>Hex strings\<close>

text \<open>\<open>hex.EncodeToString\<close>.\<close>

definition hexDigit :: "nat \<Rightarrow> char" where
  "hexDigit n = char_of (if n < 10 then 48 + n else 87 + n)"

definition hexByte :: "byte \<Rightarrow> string" where
  "hexByte b = [hexDigit (unat b div 16), hexDigit (unat b mod 16)]"

definition hexEncode :: "bytes \<Rightarrow> string" where
  "hexEncode bs = concat (map hexByte bs)"

text \<open>\<open>hex.DecodeString\<close> of the Go library; \<open>None\<close> is any of its errors.\<close>

definition hexVal :: "char \<Rightarrow> nat option" where
  "hexVal c =
     (let n = of_char c :: nat
      in if 48 \<le> n \<and> n \<le> 57 then Some (n - 48)
         else if 97 \<le> n \<and> n \<le> 102 then Some (n - 87)
         else if 65 \<le> n \<and> n \<le> 70 then Some (n - 55)
         else None)"

fun hexDecode :: "string \<Rightarrow> bytes option" where
  "hexDecode [] = Some []"
| "hexDecode [c] = None"
| "hexDecode (c # d # cs) =
     (case (hexVal c, hexVal d, hexDecode cs) of
        (Some x, Some y, Some bs) \<Rightarrow> Some (of_nat (16 * x + y) # bs)
      | _ \<Rightarrow> None)"

lemma hexVal_hexDigit: "n < 16 \<Longrightarrow> hexVal (hexDigit n) = Some n"
  by (auto simp: hexVal_def hexDigit_def of_char_of Let_def)

end
