(* ===== verification/Registration_Cache.thy ===== *)
theory Registration_Cache
  imports Cache_Spec Go_Strings
begin

text \<open>
  The registration cache of \<^verbatim>\<open>internal/cache/registration_cache.go\<close>: remembers for a txid whether the
  registration store knew it, on top of the sharded cache with on-demand buckets.
\<close>

section \<open>The cache\<close>

record RegistrationCache =
  rc_cache :: ImprovedCache

abbreviation notRegistered :: byte where "notRegistered \<equiv> 0"
abbreviation registered :: byte where "registered \<equiv> 1"

definition NewRegistrationCache :: "(nat \<Rightarrow> bool) \<Rightarrow> int \<Rightarrow> (cacheErr + RegistrationCache) go" where
  "NewRegistrationCache ok maxMB =
     go_bind (New ok (maxMB * 1024 * 1024) Unallocated) (\<lambda>r. Inr (map_sum id RegistrationCache.make r))"

text \<open>The common body of \<open>SetRegistered\<close> and \<open>SetNotRegistered\<close>.\<close>

definition setFlag ::
  "(bytes \<Rightarrow> u64) \<Rightarrow> bool \<Rightarrow> byte \<Rightarrow> string \<Rightarrow> RegistrationCache \<Rightarrow> (cacheErr option \<times> RegistrationCache) go" where
  "setFlag hf ok flag txid rc =
     (case hexDecode txid of
        None \<Rightarrow> Inr (Some BadHex, rc)
      | Some key \<Rightarrow> go_bind (cacheSet hf ok key [flag] (rc_cache rc)) (\<lambda>(e, c). Inr (e, rc\<lparr>rc_cache := c\<rparr>)))"

definition SetRegistered where "SetRegistered hf ok = setFlag hf ok registered"
definition SetNotRegistered where "SetNotRegistered hf ok = setFlag hf ok notRegistered"

text \<open>The common body of the batch versions: txids that are no hex strings are skipped.\<close>

definition setMultiFlag ::
  "(bytes \<Rightarrow> u64) \<Rightarrow> (nat \<Rightarrow> nat \<Rightarrow> bool) \<Rightarrow> byte \<Rightarrow> string list \<Rightarrow> RegistrationCache \<Rightarrow> RegistrationCache go" where
  "setMultiFlag hf ok flag txids rc =
     (let ks = List.map_filter hexDecode txids;
          vs = map (\<lambda>_. [flag]) ks
      in if ks = [] then Inr rc
         else go_bind (SetMulti hf ok ks vs (rc_cache rc)) (\<lambda>c. Inr (rc\<lparr>rc_cache := c\<rparr>)))"

definition SetMultiRegistered where "SetMultiRegistered hf ok = setMultiFlag hf ok registered"
definition SetMultiNotRegistered where "SetMultiNotRegistered hf ok = setMultiFlag hf ok notRegistered"

text \<open>Returns \<open>(isRegistered, isCached)\<close>.\<close>

definition GetCached :: "(bytes \<Rightarrow> u64) \<Rightarrow> string \<Rightarrow> RegistrationCache \<Rightarrow> (bool \<times> bool) go" where
  "GetCached hf txid rc =
     (case hexDecode txid of
        None \<Rightarrow> Inr (False, False)
      | Some key \<Rightarrow>
          go_bind (cacheGet hf [] key (rc_cache rc)) (\<lambda>(e, dest).
            if e \<noteq> None then Inr (False, False)
            else if dest = [] then Inr (False, False)
            else Inr (hd dest = registered, True)))"

text \<open>The loop of \<open>FilterUncached\<close> with its two result slices.\<close>

fun filterLoop :: "(bytes \<Rightarrow> u64) \<Rightarrow> RegistrationCache \<Rightarrow> string list \<Rightarrow> string list \<Rightarrow> string list \<Rightarrow> (string list \<times> string list) go" where
  "filterLoop hf rc [] uncached cachedRegistered = Inr (uncached, cachedRegistered)"
| "filterLoop hf rc (txid # txids) uncached cachedRegistered =
     go_bind (GetCached hf txid rc) (\<lambda>(isReg, isCached).
       if \<not> isCached then filterLoop hf rc txids (uncached @ [txid]) cachedRegistered
       else if isReg then filterLoop hf rc txids uncached (cachedRegistered @ [txid])
       else filterLoop hf rc txids uncached cachedRegistered)"

definition FilterUncached :: "(bytes \<Rightarrow> u64) \<Rightarrow> string list \<Rightarrow> RegistrationCache \<Rightarrow> (string list \<times> string list) go" where
  "FilterUncached hf txids rc = filterLoop hf rc txids [] []"

definition GetStats :: "RegistrationCache \<Rightarrow> Stats" where
  "GetStats rc = cacheUpdateStats (rc_cache rc) emptyStats"

section \<open>What the cache knows\<close>

text \<open>The recorded answer for a txid.\<close>

definition known :: "(bytes \<Rightarrow> u64) \<Rightarrow> RegistrationCache \<Rightarrow> string \<Rightarrow> bool option" where
  "known hf rc txid =
     (case hexDecode txid of
        None \<Rightarrow> None
      | Some key \<Rightarrow>
          (case cacheLookup hf (rc_cache rc) key of
             None \<Rightarrow> None
           | Some v \<Rightarrow> if v = [] then None else Some (hd v = registered)))"

lemma GetCached_known:
  assumes "cacheInv (rc_cache rc)"
  shows "GetCached hf txid rc = Inr (case known hf rc txid of None \<Rightarrow> (False, False) | Some r \<Rightarrow> (r, True))"
  by (auto simp: GetCached_def known_def cacheGet_lookup [OF assms] split: option.split)

lemma filterLoop_known:
  assumes "cacheInv (rc_cache rc)"
  shows "filterLoop hf rc txids us rs =
     Inr (us @ filter (\<lambda>t. known hf rc t = None) txids, rs @ filter (\<lambda>t. known hf rc t = Some True) txids)"
  by (induction txids arbitrary: us rs) (auto simp: GetCached_known [OF assms] split: option.split bool.split)

text \<open>
  \<open>FilterUncached\<close> never panics and splits the txids, in their order: those without a recorded answer
  are returned for a look-up in the store, those recorded as registered are returned as such, and
  the rest (recorded as not registered) is dropped.
\<close>

theorem FilterUncached_splits:
  assumes "cacheInv (rc_cache rc)"
  shows "FilterUncached hf txids rc =
     Inr (filter (\<lambda>t. GetCached hf t rc = Inr (False, False)) txids,
          filter (\<lambda>t. GetCached hf t rc = Inr (True, True)) txids)"
proof -
  have "known hf rc t = None \<longleftrightarrow> GetCached hf t rc = Inr (False, False)"
    "known hf rc t = Some True \<longleftrightarrow> GetCached hf t rc = Inr (True, True)" for t
    by (auto simp: GetCached_known [OF assms] split: option.splits)
  then show ?thesis by (simp add: FilterUncached_def filterLoop_known [OF assms])
qed

section \<open>Histories\<close>

text \<open>A batch: which of its memory mappings are granted, per bucket and key, the flag and the txids that get it.\<close>

type_synonym batch = "(nat \<Rightarrow> nat \<Rightarrow> bool) \<times> bool \<times> string list"

fun batches :: "(bytes \<Rightarrow> u64) \<Rightarrow> batch list \<Rightarrow> RegistrationCache \<Rightarrow> RegistrationCache go" where
  "batches hf [] rc = Inr rc"
| "batches hf ((ok, reg, txids) # bs) rc =
     go_bind (if reg then SetMultiRegistered hf ok txids rc else SetMultiNotRegistered hf ok txids rc) (batches hf bs)"

text \<open>
  A batch is taken as a whole if all mappings are granted and its txids are not so long that an entry does not fit in a chunk;
  otherwise some of its entries may be missing, as the errors of \<open>Set\<close> are dropped.
\<close>

definition takenWhole :: "batch \<Rightarrow> bool" where
  "takenWhole b \<longleftrightarrow> (case b of (ok, reg, txids) \<Rightarrow> (\<forall>i j. ok i j) \<and> (\<forall>t \<in> set txids. length t < 1000))"

text \<open>The flags a key may have: that of the last batch that names it and was taken, and those of later batches that name it.\<close>

fun flagsOf :: "batch list \<Rightarrow> bytes \<Rightarrow> bool set \<Rightarrow> bool set" where
  "flagsOf [] key prev = prev"
| "flagsOf ((ok, reg, txids) # bs) key prev =
     flagsOf bs key (if Some key \<notin> hexDecode ` set txids then prev
                     else if takenWhole (ok, reg, txids) then {reg} else insert reg prev)"

text \<open>The flag of the last batch that names a key.\<close>

fun lastFlag :: "batch list \<Rightarrow> bytes \<Rightarrow> bool option \<Rightarrow> bool option" where
  "lastFlag [] key prev = prev"
| "lastFlag ((ok, reg, txids) # bs) key prev =
     lastFlag bs key (if Some key \<in> hexDecode ` set txids then Some reg else prev)"

lemma flagsOf_taken: "list_all takenWhole bs \<Longrightarrow> flagsOf bs key (set_option prev) = set_option (lastFlag bs key prev)"
proof (induction bs arbitrary: prev)
  case (Cons b bs)
  obtain ok reg txids where b: "b = (ok, reg, txids)" by (cases b) auto
  show ?case using Cons.IH [of prev] Cons.IH [of "Some reg"] Cons.prems by (simp add: b)
qed simp

definition rcOk :: "(bytes \<Rightarrow> u64) \<Rightarrow> RegistrationCache \<Rightarrow> (bytes \<Rightarrow> bool set) \<Rightarrow> bool" where
  "rcOk hf rc f \<longleftrightarrow> cacheInv (rc_cache rc) \<and>
     (\<forall>key v. cacheLookup hf (rc_cache rc) key = Some v \<longrightarrow> (\<exists>r \<in> f key. v = [if r then registered else notRegistered]))"

lemma in_map_filter: "k \<in> set (List.map_filter f xs) \<longleftrightarrow> (\<exists>x\<in>set xs. f x = Some k)"
  by (induction xs) (auto simp: map_filter_simps split: option.splits)

lemma length_hexDecode: "hexDecode s = Some bs \<Longrightarrow> length bs \<le> length s"
  by (induction s arbitrary: bs rule: hexDecode.induct) (fastforce split: option.splits)+

lemma map_of_rev_const: "map_of (rev (zip ks (map (\<lambda>_. x) ks))) k = (if k \<in> set ks then Some x else None)"
  by (induction ks) (auto simp: map_add_def split: option.splits)

lemma rcOk_batch:
  assumes "rcOk hf rc f" and flag: "flag = (if reg then registered else notRegistered)"
  shows "\<exists>rc'. setMultiFlag hf ok flag txids rc = Inr rc' \<and>
     rcOk hf rc' (\<lambda>key. if Some key \<notin> hexDecode ` set txids then f key else if takenWhole (ok, reg, txids) then {reg} else insert reg (f key))"
proof -
  let ?ks = "List.map_filter hexDecode txids"
  let ?vs = "map (\<lambda>_. [flag]) ?ks"
  let ?f = "\<lambda>key. if Some key \<notin> hexDecode ` set txids then f key else if takenWhole (ok, reg, txids) then {reg} else insert reg (f key)"
  have keys: "Some key \<in> hexDecode ` set txids \<longleftrightarrow> key \<in> set ?ks" for key
    by (force simp: in_map_filter image_iff)
  have inv: "cacheInv (rc_cache rc)" using assms(1) by (simp add: rcOk_def)
  show ?thesis
  proof (cases "?ks = []")
    case True
    then have "?f = f" using keys by auto
    with True assms(1) show ?thesis by (simp add: setMultiFlag_def)
  next
    case False
    have fit: "\<forall>(k, v)\<in>set (zip ?ks ?vs). fits k v" if tk: "takenWhole (ok, reg, txids)"
    proof -
      have "fits k v" if "(k, v) \<in> set (zip ?ks ?vs)" for k v
      proof -
        have "k \<in> set ?ks" "v = [flag]" using that by (auto dest: set_zip_leftD set_zip_rightD)
        moreover from this(1) obtain t where "t \<in> set txids" "hexDecode t = Some k" by (auto simp: in_map_filter)
        ultimately show ?thesis using tk length_hexDecode [of t k] by (force simp: fits_def takenWhole_def)
      qed
      then show ?thesis by auto
    qed
    obtain c where c: "SetMulti hf ok ?ks ?vs (rc_cache rc) = Inr c" "cacheInv c"
      "\<forall>k v. cacheLookup hf c k = Some v \<longrightarrow> cacheLookup hf (rc_cache rc) k = Some v \<or> (k, v) \<in> set (zip ?ks ?vs)"
      "(\<forall>i j. ok i j) \<and> (\<forall>(k, v)\<in>set (zip ?ks ?vs). fits k v) \<longrightarrow>
        (\<forall>k. cacheLookup hf c k = None \<or> cacheLookup hf c k = (cacheLookup hf (rc_cache rc) ++ map_of (rev (zip ?ks ?vs))) k)"
      using SetMulti_spec [where ks = ?ks and vs = ?vs and hf = hf and ok = ok, OF inv eq_refl [OF length_map [symmetric]]] by (elim exE conjE)
    have "\<exists>r \<in> ?f key. v = [if r then registered else notRegistered]" if look: "cacheLookup hf c key = Some v" for key v
    proof (cases "key \<in> set ?ks \<and> takenWhole (ok, reg, txids)")
      case True
      then have "\<forall>i j. ok i j" by (simp add: takenWhole_def)
      then have "v = [flag]"
        using True c(4) fit look map_of_rev_const [of ?ks "[flag]" key] by (auto simp: map_add_def dest: spec [of _ key])
      then show ?thesis using True keys flag by simp
    next
      case False
      have "key \<in> set ?ks \<and> v = [flag]" if "(key, v) \<in> set (zip ?ks ?vs)"
        using set_zip_leftD [OF that] set_zip_rightD [OF that] by auto
      then have "cacheLookup hf (rc_cache rc) key = Some v \<or> key \<in> set ?ks \<and> v = [flag]"
        using c(3) look by blast
      then show ?thesis
      proof
        assume "cacheLookup hf (rc_cache rc) key = Some v"
        then obtain r where "r \<in> f key" "v = [if r then registered else notRegistered]" using assms(1) unfolding rcOk_def by blast
        then show ?thesis using False keys by auto
      qed (use False keys flag in auto)
    qed
    then have "rcOk hf (rc\<lparr>rc_cache := c\<rparr>) ?f" using c(2) by (simp add: rcOk_def)
    then show ?thesis using c(1) False by (intro exI [of _ "rc\<lparr>rc_cache := c\<rparr>"]) (simp add: setMultiFlag_def Let_def)
  qed
qed

lemma rcOk_batches:
  assumes "rcOk hf rc f"
  shows "\<exists>rc'. batches hf bs rc = Inr rc' \<and> rcOk hf rc' (\<lambda>key. flagsOf bs key (f key))"
  using assms
proof (induction bs arbitrary: rc f)
  case (Cons b bs)
  obtain ok reg txids where b: "b = (ok, reg, txids)" by (cases b) auto
  let ?f = "\<lambda>key. if Some key \<notin> hexDecode ` set txids then f key else if takenWhole (ok, reg, txids) then {reg} else insert reg (f key)"
  obtain rc1 where "(if reg then SetMultiRegistered hf ok txids rc else SetMultiNotRegistered hf ok txids rc) = Inr rc1" "rcOk hf rc1 ?f"
    using rcOk_batch [where ok = ok and txids = txids, OF Cons.prems refl [of "if reg then registered else notRegistered"]]
    by (cases reg) (auto simp: SetMultiRegistered_def SetMultiNotRegistered_def)
  with Cons.IH [OF this(2)] b show ?case by simp
qed simp

lemma rcOk_GetCached:
  assumes "rcOk hf rc f" and "GetCached hf txid rc = Inr (r, True)"
  shows "\<exists>key. hexDecode txid = Some key \<and> r \<in> f key"
proof -
  have "cacheInv (rc_cache rc)" using assms(1) by (simp add: rcOk_def)
  from GetCached_known [OF this, of hf txid] assms(2) have "known hf rc txid = Some r" by (auto split: option.splits)
  then obtain key v where "hexDecode txid = Some key" "cacheLookup hf (rc_cache rc) key = Some v" "r = (hd v = registered)"
    by (auto simp: known_def split: option.splits if_splits)
  moreover from this(2) assms(1) obtain r' where "r' \<in> f key" "v = [if r' then registered else notRegistered]"
    unfolding rcOk_def by blast
  ultimately show ?thesis by (cases r') auto
qed

text \<open>
  C32: The registration cache is consistent with what the service recorded: after any sequence of batches on a new cache, with
  memory mappings granted or refused as they come, nothing panicked, and whenever a txid is reported as cached, the answer was
  recorded for it by the last batch that contained it and was taken as a whole, or by a batch after that. A batch is taken as a whole
  if its mappings are granted and its txids are shorter than 1000 characters; so if this is true of all
  batches, the answer is the one of the last batch that contained the txid. A refused mapping is not reported by the batch,
  and the earlier answer stays.
\<close>

theorem RegistrationCache_consistent:
  assumes "NewRegistrationCache ok maxMB = Inr (Inr rc)"
  shows "\<exists>rc'. batches hf bs rc = Inr rc' \<and>
     (\<forall>txid r. GetCached hf txid rc' = Inr (r, True) \<longrightarrow>
        (\<exists>key. hexDecode txid = Some key \<and> r \<in> flagsOf bs key {} \<and> (list_all takenWhole bs \<longrightarrow> lastFlag bs key None = Some r)))"
proof -
  obtain x where "New ok (maxMB * 1024 * 1024) Unallocated = Inr x"
    using assms(1) by (cases "New ok (maxMB * 1024 * 1024) Unallocated") (auto simp: NewRegistrationCache_def)
  then obtain c where c: "New ok (maxMB * 1024 * 1024) Unallocated = Inr (Inr c)" "rc = RegistrationCache.make c"
    using assms(1) by (cases x) (auto simp: NewRegistrationCache_def)
  then have "rcOk hf rc (\<lambda>_. {})" using New_inv [OF c(1), of hf] by (simp add: rcOk_def RegistrationCache.make_def)
  from rcOk_batches [OF this] obtain rc' where rc': "batches hf bs rc = Inr rc'" "rcOk hf rc' (\<lambda>key. flagsOf bs key {})" by blast
  have "lastFlag bs key None = Some r" if "list_all takenWhole bs" "r \<in> flagsOf bs key {}" for key r
    using flagsOf_taken [OF that(1), of key None] that(2) by simp
  then show ?thesis using rc' rcOk_GetCached [OF rc'(2)] by blast
qed

theorem RegistrationCache_consistent_witness:
  "\<exists>rc rc'. NewRegistrationCache (\<lambda>_. True) 1 = Inr (Inr rc) \<and>
     batches (\<lambda>k. of_nat (length k)) [(\<lambda>_ _. True, True, [''0aff'', ''zz'']), (\<lambda>_ _. True, False, [''0AFF''])] rc = Inr rc' \<and>
     GetCached (\<lambda>k. of_nat (length k)) ''0aff'' rc' \<noteq> Inr (True, True)"
proof -
  let ?bs = "[(\<lambda>_ _. True, True, [''0aff'', ''zz'']), (\<lambda>_ _. True, False, [''0AFF''])] :: batch list"
  obtain c where "New (\<lambda>_. True) (1 * 1024 * 1024) Unallocated = Inr (Inr c)"
    using New_exists [of "1 * 1024 * 1024" Unallocated] by auto
  then have new: "NewRegistrationCache (\<lambda>_. True) 1 = Inr (Inr (RegistrationCache.make c))"
    by (simp add: NewRegistrationCache_def)
  from RegistrationCache_consistent [OF this, of "\<lambda>k. of_nat (length k)" ?bs]
  obtain rc' where rc': "batches (\<lambda>k. of_nat (length k)) ?bs (RegistrationCache.make c) = Inr rc'"
    "\<And>txid r. GetCached (\<lambda>k. of_nat (length k)) txid rc' = Inr (r, True) \<Longrightarrow> \<exists>key. hexDecode txid = Some key \<and> r \<in> flagsOf ?bs key {}" by blast
  have hex: "hexDecode ''0aff'' = Some [10, 255]" "hexDecode ''0AFF'' = Some [10, 255]" by code_simp+
  then have "flagsOf ?bs [10, 255] {} = {False}" by (simp add: takenWhole_def)
  then have "GetCached (\<lambda>k. of_nat (length k)) ''0aff'' rc' \<noteq> Inr (True, True)" using rc'(2) [of "''0aff''" True] hex(1) by auto
  then show ?thesis using new rc'(1) by blast
qed

theorem FilterUncached_splits_witness:
  "\<exists>rc. NewRegistrationCache (\<lambda>_. True) 1 = Inr (Inr rc) \<and>
     FilterUncached (\<lambda>k. of_nat (length k)) [''0a'', ''0b''] rc =
       Inr (filter (\<lambda>t. GetCached (\<lambda>k. of_nat (length k)) t rc = Inr (False, False)) [''0a'', ''0b''],
            filter (\<lambda>t. GetCached (\<lambda>k. of_nat (length k)) t rc = Inr (True, True)) [''0a'', ''0b''])"
proof -
  obtain c where c: "New (\<lambda>_. True) (1 * 1024 * 1024) Unallocated = Inr (Inr c)"
    using New_exists [of "1 * 1024 * 1024" Unallocated] by auto
  then have "NewRegistrationCache (\<lambda>_. True) 1 = Inr (Inr (RegistrationCache.make c))"
    by (simp add: NewRegistrationCache_def)
  moreover have "cacheInv (rc_cache (RegistrationCache.make c))" using New_inv [OF c] by (simp add: RegistrationCache.make_def)
  ultimately show ?thesis using FilterUncached_splits by blast
qed

end
