(* ===== verification/Datahub.thy ===== *)
theory Datahub
  imports Prelude
begin

text \<open>
  The DataHub client (internal/datahub/client.go): the HTTP GET with exponential back-off, the
  parsers of the binary subtree and block responses and the fetch operations built from them.

  The network is an argument: \<open>http url i\<close> is what the \<open>i\<close>-th request of a call gives, and \<open>done i\<close>
  is \<open>Some e\<close> when the context is found done in the \<open>select\<close> before the \<open>i\<close>-th request. The functions
  of go-bt and Teranode that the client calls are arguments too: \<open>hashString\<close> is
  \<open>chainhash.Hash.String\<close> and \<open>newBlockFromBytes\<close> is \<open>model.NewBlockFromBytes\<close>.
\<close>

section \<open>Data\<close>

record Client =
  maxRetries :: int
  timeoutSec :: int

definition NewClient :: "int \<Rightarrow> int \<Rightarrow> Client" where
  "NewClient timeout retries = \<lparr>maxRetries = retries, timeoutSec = timeout\<rparr>"

record BlockHeader =
  Version :: u32
  HashPrevBlock :: string
  HashMerkleRoot :: string
  Timestamp :: u32
  Bits :: string
  Nonce :: u32

record BlockMetadata =
  Height :: u32
  Header :: "BlockHeader option"
  Subtrees :: "string list"
  TransactionCount :: u64

text \<open>The fields of Teranode's \<open>model.Block\<close> that the client reads; a subtree hash is 32 bytes.\<close>

record modelBlock =
  blkHeight :: u32
  blkSubtrees :: "bytes list"
  blkTransactionCount :: u64

text \<open>The node type of go-subtree: a 32-byte hash with fee and size.\<close>

record Node =
  Hash :: bytes
  Fee :: u64
  SizeInBytes :: u64

datatype httpReply =
    TransportFailed string
  | Reply int bytes "string option"

datatype httpErr =
    ETransport string
  | EStatus int string bytes
  | EBody string

datatype dhError =
    ECtx string
  | ECreatingRequest string
  | ENotFound string
  | EFailedAfter int "httpErr option"
  | EInvalidLength nat
  | EBlockBinary string
  | EFetching string dhError
  | EParsing string dhError

text \<open>What a call does to the outside world: a wait of so many nanoseconds, or a request.\<close>

datatype httpEvent = Wait int | Request string

section \<open>Retry loop\<close>

text \<open>
  \<open>time.Duration(math.Pow(2, float64(attempt-1))*500) * time.Millisecond\<close>. The float is exact; its
  conversion to \<open>int64\<close> is \<open>f2i\<close>, which Go fixes only for values that fit; the product wraps.
\<close>

definition HashSize :: nat where
  "HashSize = 32"

definition backoffRaw :: "(int \<Rightarrow> u64) \<Rightarrow> nat \<Rightarrow> int" where
  "backoffRaw f2i attempt = sint (f2i (2 ^ (attempt - 1) * 500) * 1000000)"

definition backoff :: "(int \<Rightarrow> u64) \<Rightarrow> nat \<Rightarrow> int" where
  "backoff f2i attempt =
     (if backoffRaw f2i attempt > 10 * 1000000000 then 10 * 1000000000 else backoffRaw f2i attempt)"

text \<open>The outcome of one request: stop with a result, or note the error and go on.\<close>

definition replyStep :: "string \<Rightarrow> httpReply \<Rightarrow> (dhError + bytes) + httpErr" where
  "replyStep url r = (case r of
      TransportFailed e \<Rightarrow> Inr (ETransport e)
    | Reply status body err \<Rightarrow>
        if status = 404 then Inl (Inl (ENotFound url))
        else if status \<noteq> 200 then Inr (EStatus status url body)
        else case err of Some e \<Rightarrow> Inr (EBody e) | None \<Rightarrow> Inl (Inr body))"

text \<open>
  The loop of \<open>doGetWithRetry\<close>: \<open>n\<close> iterations are left and the next one is \<open>attempt\<close>. The first
  component of the result is the trace of what was done.
\<close>

primrec retryLoop ::
    "(int \<Rightarrow> u64) \<Rightarrow> string option \<Rightarrow> (nat \<Rightarrow> string option) \<Rightarrow> (nat \<Rightarrow> httpReply) \<Rightarrow> int \<Rightarrow> string
     \<Rightarrow> nat \<Rightarrow> nat \<Rightarrow> httpErr option \<Rightarrow> httpEvent list \<times> (dhError + bytes)" where
  "retryLoop f2i reqErr done http maxR url 0 attempt lastErr = ([], Inl (EFailedAfter (maxR + 1) lastErr))"
| "retryLoop f2i reqErr done http maxR url (Suc n) attempt lastErr =
     (let waits = (if attempt > 0 then [Wait (backoff f2i attempt)] else []) in
      case (if attempt > 0 then done attempt else None) of
        Some e \<Rightarrow> (waits, Inl (ECtx e))
      | None \<Rightarrow> (case reqErr of
          Some e \<Rightarrow> (waits, Inl (ECreatingRequest e))
        | None \<Rightarrow> (case replyStep url (http attempt) of
            Inl res \<Rightarrow> (waits @ [Request url], res)
          | Inr e \<Rightarrow>
              (let (tr, res) = retryLoop f2i reqErr done http maxR url n (Suc attempt) (Some e)
               in (waits @ [Request url] @ tr, res)))))"

text \<open>Everything a call depends on besides its arguments.\<close>

record net =
  f2i :: "int \<Rightarrow> u64"
  reqErr :: "string \<Rightarrow> string option"
  ctxDone :: "string \<Rightarrow> nat \<Rightarrow> string option"
  http :: "string \<Rightarrow> nat \<Rightarrow> httpReply"

definition doGetWithRetry :: "net \<Rightarrow> Client \<Rightarrow> string \<Rightarrow> httpEvent list \<times> (dhError + bytes)" where
  "doGetWithRetry w c url =
     retryLoop (f2i w) (reqErr w url) (ctxDone w url) (http w url) (maxRetries c) url
       (nat (maxRetries c + 1)) 0 None"

section \<open>Parsers\<close>

text \<open>\<open>data[i*HashSize:(i+1)*HashSize]\<close>\<close>

definition hashAt :: "bytes \<Rightarrow> nat \<Rightarrow> bytes" where
  "hashAt data i = take HashSize (drop (i * HashSize) data)"

definition ParseRawTxids :: "(bytes \<Rightarrow> string) \<Rightarrow> bytes \<Rightarrow> dhError + string list" where
  "ParseRawTxids hashString data =
     (if length data mod HashSize \<noteq> 0 then Inl (EInvalidLength (length data))
      else Inr (map (\<lambda>i. hashString (hashAt data i)) [0..<length data div HashSize]))"

definition ParseRawNodes :: "bytes \<Rightarrow> dhError + Node list" where
  "ParseRawNodes data =
     (if length data mod HashSize \<noteq> 0 then Inl (EInvalidLength (length data))
      else Inr (map (\<lambda>i. \<lparr>Hash = hashAt data i, Fee = 0, SizeInBytes = 0\<rparr>) [0..<length data div HashSize]))"

definition ParseBinaryBlockMetadata ::
    "(bytes \<Rightarrow> string) \<Rightarrow> (bytes \<Rightarrow> string + modelBlock) \<Rightarrow> bytes \<Rightarrow> dhError + BlockMetadata" where
  "ParseBinaryBlockMetadata hashString newBlockFromBytes data = (case newBlockFromBytes data of
      Inl e \<Rightarrow> Inl (EBlockBinary e)
    | Inr b \<Rightarrow> Inr \<lparr>Height = blkHeight b, Header = None, Subtrees = map hashString (blkSubtrees b),
                    TransactionCount = blkTransactionCount b\<rparr>)"

section \<open>Fetch operations\<close>

definition FetchSubtreeRaw ::
    "net \<Rightarrow> Client \<Rightarrow> string \<Rightarrow> string \<Rightarrow> httpEvent list \<times> (dhError + bytes)" where
  "FetchSubtreeRaw w c dataHubURL hash = doGetWithRetry w c (dataHubURL @ ''/subtree/'' @ hash)"

definition FetchSubtree ::
    "net \<Rightarrow> Client \<Rightarrow> string \<Rightarrow> string \<Rightarrow> httpEvent list \<times> (dhError + Node list)" where
  "FetchSubtree w c dataHubURL hash =
     (let (tr, r) = FetchSubtreeRaw w c dataHubURL hash in
      (tr, case r of
         Inl e \<Rightarrow> Inl (EFetching hash e)
       | Inr raw \<Rightarrow> (case ParseRawNodes raw of
           Inl e \<Rightarrow> Inl (EParsing hash e)
         | Inr nodes \<Rightarrow> Inr nodes)))"

definition FetchBlockMetadata ::
    "net \<Rightarrow> (bytes \<Rightarrow> string) \<Rightarrow> (bytes \<Rightarrow> string + modelBlock) \<Rightarrow> Client \<Rightarrow> string \<Rightarrow> string
     \<Rightarrow> httpEvent list \<times> (dhError + BlockMetadata)" where
  "FetchBlockMetadata w hashString newBlockFromBytes c dataHubURL hash =
     (let (tr, r) = doGetWithRetry w c (dataHubURL @ ''/block/'' @ hash) in
      (tr, case r of
         Inl e \<Rightarrow> Inl (EFetching hash e)
       | Inr data \<Rightarrow> (case ParseBinaryBlockMetadata hashString newBlockFromBytes data of
           Inl e \<Rightarrow> Inl (EParsing hash e)
         | Inr meta \<Rightarrow> Inr meta)))"

section \<open>The parsers invert concatenation\<close>

lemma HashSize_pos [simp]: "0 < HashSize"
  by (simp add: HashSize_def)

lemma length_concat_hashes: "\<forall>h \<in> set hs. length h = HashSize \<Longrightarrow> length (concat hs) = length hs * HashSize"
  by (induction hs) auto

lemma hashAt_concat:
  "\<forall>h \<in> set hs. length h = HashSize \<Longrightarrow> i < length hs \<Longrightarrow> hashAt (concat hs) i = hs ! i"
proof (induction hs arbitrary: i)
  case (Cons h hs)
  then show ?case by (cases i) (auto simp: hashAt_def)
qed simp

lemma map_hashAt_concat:
  assumes "\<forall>h \<in> set hs. length h = HashSize"
  shows "map (\<lambda>i. f (hashAt (concat hs) i)) [0..<length hs] = map f hs"
  using hashAt_concat [OF assms] by (intro nth_equalityI) auto

lemma ParseRawNodes_concat:
  assumes "\<forall>h \<in> set hs. length h = HashSize"
  shows "ParseRawNodes (concat hs) = Inr (map (\<lambda>h. \<lparr>Hash = h, Fee = 0, SizeInBytes = 0\<rparr>) hs)"
  using map_hashAt_concat [OF assms, of "\<lambda>h. \<lparr>Hash = h, Fee = 0, SizeInBytes = 0\<rparr>"]
  by (simp add: ParseRawNodes_def length_concat_hashes [OF assms])

lemma ParseRawTxids_concat:
  assumes "\<forall>h \<in> set hs. length h = HashSize"
  shows "ParseRawTxids f (concat hs) = Inr (map f hs)"
  using map_hashAt_concat [OF assms, of f] by (simp add: ParseRawTxids_def length_concat_hashes [OF assms])

lemma hashes_of_data:
  assumes "length data mod HashSize = 0"
  obtains hs where "data = concat hs" "\<forall>h \<in> set hs. length h = HashSize"
proof -
  have "\<exists>hs. data = concat hs \<and> (\<forall>h \<in> set hs. length h = HashSize)" if "length data = n * HashSize" for n data
    using that
  proof (induction n arbitrary: data)
    case (Suc n)
    then obtain hs where "drop HashSize data = concat hs" "\<forall>h \<in> set hs. length h = HashSize"
      by (metis add_diff_cancel_left' length_drop mult_Suc)
    moreover have "length (take HashSize data) = HashSize" using Suc.prems by simp
    ultimately show ?case
      by (metis append_take_drop_id concat.simps(2) set_ConsD)
  next
    case 0
    then show ?case by (intro exI [of _ "[]"]) simp
  qed
  then show thesis using assms that by (metis div_mult_mod_eq add.right_neutral)
qed

lemma ParseRawNodes_Inr:
  assumes "ParseRawNodes data = Inr nodes"
  shows "data = concat (map Hash nodes)" and "\<forall>n \<in> set nodes. length (Hash n) = HashSize"
proof -
  have "length data mod HashSize = 0" using assms by (simp add: ParseRawNodes_def split: if_splits)
  then obtain hs where hs: "data = concat hs" "\<forall>h \<in> set hs. length h = HashSize" by (rule hashes_of_data)
  with assms have nodes: "nodes = map (\<lambda>h. \<lparr>Hash = h, Fee = 0, SizeInBytes = 0\<rparr>) hs"
    by (simp add: ParseRawNodes_concat)
  show "data = concat (map Hash nodes)" using hs(1) by (simp add: nodes comp_def)
  show "\<forall>n \<in> set nodes. length (Hash n) = HashSize" using hs(2) by (simp add: nodes)
qed

text \<open>
  The two parsers of a DataHub subtree response agree and lose nothing. They accept exactly the
  bodies whose length is a multiple of 32; the hashes of the parsed nodes, each of 32 bytes, written
  one after the other are the body again; and the parsed txids are the strings of those hashes, in
  order. Conversely a concatenation of 32-byte hashes is parsed into these hashes.
\<close>

theorem ParseRawNodes_roundtrip:
  "(case ParseRawNodes data of
      Inl e \<Rightarrow> length data mod 32 \<noteq> 0 \<and> e = EInvalidLength (length data) \<and> ParseRawTxids str data = Inl e
    | Inr nodes \<Rightarrow> length data mod 32 = 0 \<and> concat (map Hash nodes) = data
        \<and> list_all (\<lambda>n. length (Hash n) = 32) nodes
        \<and> ParseRawTxids str data = Inr (map (\<lambda>n. str (Hash n)) nodes))
   \<and> (list_all (\<lambda>h. length h = 32) hs \<longrightarrow> map_sum id (map Hash) (ParseRawNodes (concat hs)) = Inr hs)"
proof (intro conjI impI)
  assume "list_all (\<lambda>h. length h = 32) hs"
  then show "map_sum id (map Hash) (ParseRawNodes (concat hs)) = Inr hs"
    using ParseRawNodes_concat [of hs] by (simp add: list_all_iff HashSize_def comp_def)
next
  show "case ParseRawNodes data of
      Inl e \<Rightarrow> length data mod 32 \<noteq> 0 \<and> e = EInvalidLength (length data) \<and> ParseRawTxids str data = Inl e
    | Inr nodes \<Rightarrow> length data mod 32 = 0 \<and> concat (map Hash nodes) = data
        \<and> list_all (\<lambda>n. length (Hash n) = 32) nodes
        \<and> ParseRawTxids str data = Inr (map (\<lambda>n. str (Hash n)) nodes)"
  proof (cases "ParseRawNodes data")
    case (Inl e)
    then show ?thesis by (auto simp: ParseRawNodes_def ParseRawTxids_def HashSize_def split: if_splits)
  next
    case (Inr nodes)
    note conc = ParseRawNodes_Inr [OF Inr]
    have "ParseRawTxids str data = Inr (map str (map Hash nodes))"
      using ParseRawTxids_concat [of "map Hash nodes" str] conc by simp
    moreover have "length data mod 32 = 0"
      using Inr by (simp add: ParseRawNodes_def HashSize_def split: if_splits)
    ultimately show ?thesis using Inr conc by (simp add: list_all_iff HashSize_def comp_def)
  qed
qed

theorem ParseRawNodes_roundtrip_witness:
  "map_sum id (map Hash) (ParseRawNodes (concat [replicate 32 1, replicate 32 2]))
     = Inr [replicate 32 1, replicate 32 2]"
  using ParseRawNodes_roundtrip [of "[]" "\<lambda>_. []" "[replicate 32 1, replicate 32 2]"] by simp

section \<open>The retry loop\<close>

text \<open>The conversion to \<open>int64\<close> that the Go specification fixes.\<close>

definition f2i_exact :: "(int \<Rightarrow> u64) \<Rightarrow> bool" where
  "f2i_exact f \<longleftrightarrow> (\<forall>v. 0 \<le> v \<longrightarrow> v < 2 ^ 63 \<longrightarrow> f v = word_of_int v)"

lemma backoff_le: "backoff f attempt \<le> 10000000000"
  by (simp add: backoff_def)

lemma sint_word_of_int_self: "0 \<le> x \<Longrightarrow> x < 2 ^ 63 \<Longrightarrow> sint (word_of_int x :: u64) = x"
  by (simp add: sint_sbintrunc' signed_take_bit_int_eq_self)

lemma backoffRaw_wraps:
  assumes "f2i_exact f" and "1 \<le> attempt" and "attempt \<le> 55"
  shows "backoffRaw f attempt = sint (word_of_int (500000000 * 2 ^ (attempt - 1)) :: u64)"
proof -
  have "(2::int) ^ (attempt - 1) \<le> 2 ^ 54" using assms(3) by (intro power_increasing) auto
  then have "f (2 ^ (attempt - 1) * 500) = word_of_int (2 ^ (attempt - 1) * 500)"
    using assms(1) by (simp add: f2i_exact_def)
  then show ?thesis by (simp add: backoffRaw_def ac_simps)
qed

lemma backoffRaw_exact:
  assumes "f2i_exact f" and "1 \<le> attempt" and "attempt \<le> 35"
  shows "backoffRaw f attempt = 500000000 * 2 ^ (attempt - 1)"
proof -
  have "(2::int) ^ (attempt - 1) \<le> 2 ^ 34" using assms(3) by (intro power_increasing) auto
  then have "sint (word_of_int (500000000 * 2 ^ (attempt - 1)) :: u64) = 500000000 * 2 ^ (attempt - 1)"
    by (intro sint_word_of_int_self) auto
  then show ?thesis using backoffRaw_wraps [of f attempt] assms by simp
qed

text \<open>
  From the 36th retry on, the product of the duration wraps around: the wait is negative and the next
  request follows at once.
\<close>

lemma backoff_overflow:
  assumes "f2i_exact f"
  shows "backoff f 36 < 0"
proof -
  have "backoffRaw f 36 = sint (word_of_int (500000000 * 2 ^ 35) :: u64)"
    using backoffRaw_wraps [OF assms, of 36] by simp
  also have "\<dots> = - 1266874889709551616" by simp
  finally show ?thesis by (simp add: backoff_def)
qed

text \<open>
  The back-off before the retry number \<open>n\<close> is half a second doubled \<open>n - 1\<close> times, but never more
  than ten seconds, for every configuration of up to 35 retries; the conversion from float to
  integer is used only where Go defines it.
\<close>

theorem backoff_schedule:
  assumes "f2i_exact f" and "1 \<le> n" and "n \<le> 35"
  shows "backoff f n = min (500000000 * 2 ^ (n - 1)) 10000000000"
  using backoffRaw_exact [OF assms] by (simp add: backoff_def min_def)

theorem backoff_schedule_witness:
  "f2i_exact word_of_int \<and> map (backoff word_of_int) [1, 2, 3, 6, 35]
     = [500000000, 1000000000, 2000000000, 10000000000, 10000000000]"
proof -
  have f: "f2i_exact word_of_int" by (simp add: f2i_exact_def)
  show ?thesis using backoff_schedule [OF f, of 1] backoff_schedule [OF f, of 2] backoff_schedule [OF f, of 3]
      backoff_schedule [OF f, of 6] backoff_schedule [OF f, of 35] f by simp
qed

definition requests :: "httpEvent list \<Rightarrow> nat" where
  "requests tr = length (filter (\<lambda>e. case e of Request u \<Rightarrow> True | Wait d \<Rightarrow> False) tr)"

lemma requests_simps [simp]:
  "requests [] = 0" "requests (Request u # tr) = Suc (requests tr)" "requests (Wait d # tr) = requests tr"
  by (simp_all add: requests_def)

lemma requests_append [simp]: "requests (xs @ ys) = requests xs + requests ys"
  by (simp add: requests_def)

definition politeTrace :: "string \<Rightarrow> httpEvent list \<Rightarrow> bool" where
  "politeTrace url tr = list_all (\<lambda>e. case e of Request u \<Rightarrow> u = url | Wait d \<Rightarrow> d \<le> 10000000000) tr"

lemma politeTrace_simps [simp]:
  "politeTrace url []" "politeTrace url (Request u # tr) \<longleftrightarrow> u = url \<and> politeTrace url tr"
  "politeTrace url (Wait d # tr) \<longleftrightarrow> d \<le> 10000000000 \<and> politeTrace url tr"
  by (simp_all add: politeTrace_def)

lemma retryLoop_bounds:
  "retryLoop f re dn h mr url n a l = (tr, res) \<Longrightarrow> requests tr \<le> n \<and> politeTrace url tr"
proof (induction n arbitrary: a l tr res)
  case (Suc n)
  show ?case using Suc.prems Suc.IH [of "Suc a"]
    by (auto simp: Let_def backoff_le split: option.splits sum.splits prod.splits if_splits)
qed auto

text \<open>What the request loop answers, read off the replies.\<close>

definition answeredBy :: "string \<Rightarrow> (nat \<Rightarrow> httpReply) \<Rightarrow> nat \<Rightarrow> nat \<Rightarrow> dhError + bytes \<Rightarrow> bool" where
  "answeredBy url h a k res \<longleftrightarrow>
     replyStep url (h (a + k)) = Inl res \<and> (\<forall>j<k. \<exists>e. replyStep url (h (a + j)) = Inr e)"

lemma answeredBy_0: "answeredBy url h a 0 res \<longleftrightarrow> replyStep url (h a) = Inl res"
  by (simp add: answeredBy_def)

lemma answeredBy_Suc:
  "answeredBy url h a (Suc k) res \<longleftrightarrow> (\<exists>e. replyStep url (h a) = Inr e) \<and> answeredBy url h (Suc a) k res"
  by (auto simp: answeredBy_def less_Suc_eq_0_disj)

lemma retryLoop_answered:
  assumes "answeredBy url h a k res" and "k < n" and "\<forall>j\<le>k. dn (a + j) = None"
  shows "\<exists>tr. retryLoop f None dn h mr url n a l = (tr, res) \<and> requests tr = Suc k"
  using assms
proof (induction k arbitrary: a l n)
  case 0
  then obtain n' where "n = Suc n'" by (cases n) auto
  with 0 show ?case by (auto simp: answeredBy_0 Let_def split: option.splits)
next
  case (Suc k)
  then obtain n' where n: "n = Suc n'" "k < n'" by (cases n) auto
  from Suc.prems obtain e where e: "replyStep url (h a) = Inr e" "answeredBy url h (Suc a) k res"
    by (auto simp: answeredBy_Suc)
  have "\<forall>j\<le>k. dn (Suc a + j) = None" using Suc.prems(3) by (metis add_Suc_shift Suc_le_mono)
  then obtain tr where "retryLoop f None dn h mr url n' (Suc a) (Some e) = (tr, res)" "requests tr = Suc k"
    using Suc.IH [OF e(2) n(2)] by blast
  moreover have "dn a = None" using Suc.prems(3) by (metis add.right_neutral le0)
  ultimately show ?case using e(1) n(1) by (auto simp: Let_def split: option.splits)
qed

lemma retryLoop_exhausted:
  assumes "\<forall>j<n. \<exists>e. replyStep url (h (a + j)) = Inr e" and "\<forall>j<n. dn (a + j) = None"
  shows "\<exists>tr l'. retryLoop f None dn h mr url n a l = (tr, Inl (EFailedAfter (mr + 1) l')) \<and> requests tr = n"
  using assms
proof (induction n arbitrary: a l)
  case (Suc n)
  have "\<forall>j<n. \<exists>e. replyStep url (h (Suc a + j)) = Inr e" "\<forall>j<n. dn (Suc a + j) = None"
    using Suc.prems by (metis add_Suc_shift Suc_less_eq)+
  moreover obtain e where e: "replyStep url (h a) = Inr e" "dn a = None"
    using Suc.prems by (metis add.right_neutral zero_less_Suc)
  ultimately obtain tr l' where
      "retryLoop f None dn h mr url n (Suc a) (Some e) = (tr, Inl (EFailedAfter (mr + 1) l'))" "requests tr = n"
    using Suc.IH by blast
  then show ?case using e by (auto simp: Let_def split: option.splits)
qed simp

lemma retryLoop_sound:
  "retryLoop f re dn h mr url n a l = (tr, Inr body) \<Longrightarrow>
     answeredBy url h a (requests tr - 1) (Inr body) \<and> 0 < requests tr"
proof (induction n arbitrary: a l tr)
  case (Suc n)
  show ?case
  proof (cases "replyStep url (h a)")
    case (Inl res)
    with Suc.prems show ?thesis
      by (auto simp: Let_def answeredBy_0 split: option.splits if_splits)
  next
    case (Inr e)
    obtain tr2 res2 where r2: "retryLoop f re dn h mr url n (Suc a) (Some e) = (tr2, res2)" by fastforce
    have "requests tr = Suc (requests tr2) \<and> res2 = Inr body"
      using Suc.prems Inr r2 by (auto simp: Let_def split: option.splits if_splits)
    moreover from this Suc.IH r2 have "answeredBy url h (Suc a) (requests tr2 - 1) (Inr body)" "0 < requests tr2"
      by blast+
    ultimately show ?thesis using Inr answeredBy_Suc [of url h a "requests tr2 - 1" "Inr body"] by simp
  qed
qed simp

text \<open>
  A GET is bounded and truthful, whatever the network and the context do: it sends at most
  \<open>maxRetries + 1\<close> requests, all to the given URL, and never waits more than ten seconds between two
  of them; and when it returns a body, this is the complete body of a reply with status 200, namely
  of the last request sent, and no earlier request had a final answer (200 or 404).
\<close>

theorem doGetWithRetry_bounded:
  "case doGetWithRetry w c url of (tr, res) \<Rightarrow>
     requests tr \<le> nat (maxRetries c + 1) \<and> politeTrace url tr
     \<and> (case res of Inr body \<Rightarrow> 0 < requests tr \<and> answeredBy url (http w url) 0 (requests tr - 1) (Inr body)
        | Inl e \<Rightarrow> True)"
proof -
  obtain tr res where r: "doGetWithRetry w c url = (tr, res)" by fastforce
  note loop = r [unfolded doGetWithRetry_def]
  show ?thesis using retryLoop_bounds [OF loop] retryLoop_sound [of _ _ _ _ _ _ _ _ _ tr] loop r
    by (auto split: sum.splits)
qed

text \<open>
  C38: A GET that is not cancelled makes progress. When the reply number \<open>k\<close>, within the configured
  attempts, is the first final one, the call returns its outcome after exactly \<open>k + 1\<close> requests: the
  body of a 200, or at once a not-found error for a 404. When every attempt fails transiently, it
  reports the failure after exactly \<open>maxRetries + 1\<close> requests.
\<close>

theorem doGetWithRetry_progress:
  assumes "reqErr w url = None" and "\<forall>i. ctxDone w url i = None"
  shows "(k \<le> nat (maxRetries c) \<and> 0 \<le> maxRetries c \<and> answeredBy url (http w url) 0 k res
           \<longrightarrow> (\<exists>tr. doGetWithRetry w c url = (tr, res) \<and> requests tr = Suc k))
       \<and> ((\<forall>j < nat (maxRetries c + 1). \<exists>e. replyStep url (http w url j) = Inr e)
           \<longrightarrow> (\<exists>tr l. doGetWithRetry w c url = (tr, Inl (EFailedAfter (maxRetries c + 1) l))
                 \<and> requests tr = nat (maxRetries c + 1)))"
proof (intro conjI impI)
  assume "k \<le> nat (maxRetries c) \<and> 0 \<le> maxRetries c \<and> answeredBy url (http w url) 0 k res"
  then show "\<exists>tr. doGetWithRetry w c url = (tr, res) \<and> requests tr = Suc k"
    using retryLoop_answered [of url "http w url" 0 k res "nat (maxRetries c + 1)" "ctxDone w url"] assms
    by (simp add: doGetWithRetry_def nat_add_distrib)
next
  assume "\<forall>j < nat (maxRetries c + 1). \<exists>e. replyStep url (http w url j) = Inr e"
  then show "\<exists>tr l. doGetWithRetry w c url = (tr, Inl (EFailedAfter (maxRetries c + 1) l))
                 \<and> requests tr = nat (maxRetries c + 1)"
    using retryLoop_exhausted [of "nat (maxRetries c + 1)" url "http w url" 0 "ctxDone w url"] assms
    by (simp add: doGetWithRetry_def)
qed

definition flakyNet :: net where
  "flakyNet = \<lparr>f2i = word_of_int, reqErr = \<lambda>_. None, ctxDone = \<lambda>_ _. None,
     http = \<lambda>_ i. if i = 0 then TransportFailed ''reset'' else if i = 1 then Reply 503 [] None
                  else Reply 200 [7, 8] None\<rparr>"

theorem doGetWithRetry_progress_witness:
  "(\<exists>tr. doGetWithRetry flakyNet (NewClient 5 3) ''http://hub'' = (tr, Inr [7, 8]) \<and> requests tr = 3)
   \<and> (\<exists>tr l. doGetWithRetry flakyNet (NewClient 5 1) ''http://hub'' = (tr, Inl (EFailedAfter 2 l)) \<and> requests tr = 2)"
proof
  have "answeredBy ''http://hub'' (http flakyNet ''http://hub'') 0 2 (Inr [7, 8])"
    by (auto simp: answeredBy_def replyStep_def flakyNet_def less_Suc_eq numeral_2_eq_2)
  then show "\<exists>tr. doGetWithRetry flakyNet (NewClient 5 3) ''http://hub'' = (tr, Inr [7, 8]) \<and> requests tr = 3"
    using doGetWithRetry_progress [of flakyNet "''http://hub''" 2 "NewClient 5 3" "Inr [7, 8]"]
    by (simp add: flakyNet_def NewClient_def)
  have "\<forall>j < 2. \<exists>e. replyStep ''http://hub'' (http flakyNet ''http://hub'' j) = Inr e"
    by (auto simp: replyStep_def flakyNet_def less_Suc_eq numeral_2_eq_2)
  then show "\<exists>tr l. doGetWithRetry flakyNet (NewClient 5 1) ''http://hub'' = (tr, Inl (EFailedAfter 2 l)) \<and> requests tr = 2"
    using doGetWithRetry_progress [of flakyNet "''http://hub''" 0 "NewClient 5 1" "Inr []"]
    by (simp add: flakyNet_def NewClient_def)
qed

end
