(* ===== verification/Blob_Store.thy ===== *)
theory Blob_Store
  imports Prelude
begin

text \<open>
  The blob store interface and its in-memory implementation (internal/store/subtree_store.go,
  internal/store/memory_blob.go), and what every blob store promises: a locale over the store
  operations with an abstract view, a map from keys to contents with their delete-at-height.
\<close>

section \<open>Options and errors\<close>

datatype blobErr =
    ErrBlobNotFound string
  | ErrBlobIO string

text \<open>
  The only option is \<open>WithDeleteAtHeight\<close>; applying the options in order to a zero \<open>blobOptions\<close>
  leaves the height of the last one.
\<close>

datatype BlobOption = WithDeleteAtHeight u64

record blobOptions =
  deleteAtHeight :: u64

primrec applyOption :: "BlobOption \<Rightarrow> blobOptions \<Rightarrow> blobOptions" where
  "applyOption (WithDeleteAtHeight height) o' = o'\<lparr>deleteAtHeight := height\<rparr>"

definition applyOptions :: "BlobOption list \<Rightarrow> blobOptions" where
  "applyOptions opts = fold applyOption opts \<lparr>deleteAtHeight = 0\<rparr>"

section \<open>Memory store\<close>

record MemoryBlobStore =
  mem_data :: "string \<rightharpoonup> bytes"
  mem_dah :: "string \<rightharpoonup> u64"
  mem_height :: u64

definition NewMemoryBlobStore :: MemoryBlobStore where
  "NewMemoryBlobStore = \<lparr>mem_data = Map.empty, mem_dah = Map.empty, mem_height = 0\<rparr>"

definition memSet :: "string \<Rightarrow> bytes \<Rightarrow> BlobOption list \<Rightarrow> MemoryBlobStore \<Rightarrow> blobErr option \<times> MemoryBlobStore" where
  "memSet key data opts m =
     (let o' = applyOptions opts;
          m = m\<lparr>mem_data := (mem_data m)(key \<mapsto> data)\<rparr>
      in (None, if deleteAtHeight o' > 0 then m\<lparr>mem_dah := (mem_dah m)(key \<mapsto> deleteAtHeight o')\<rparr> else m))"

text \<open>A reader is what \<open>io.ReadAll\<close> makes of it: its bytes or an error.\<close>

definition memSetFromReader ::
    "string \<Rightarrow> string + bytes \<Rightarrow> BlobOption list \<Rightarrow> MemoryBlobStore \<Rightarrow> blobErr option \<times> MemoryBlobStore" where
  "memSetFromReader key r opts m = (case r of
      Inl e \<Rightarrow> (Some (ErrBlobIO e), m)
    | Inr data \<Rightarrow> memSet key data opts m)"

definition memGet :: "string \<Rightarrow> MemoryBlobStore \<Rightarrow> blobErr + bytes" where
  "memGet key m = (case mem_data m key of None \<Rightarrow> Inl (ErrBlobNotFound key) | Some data \<Rightarrow> Inr data)"

definition memDel :: "string \<Rightarrow> MemoryBlobStore \<Rightarrow> blobErr option \<times> MemoryBlobStore" where
  "memDel key m = (None, m\<lparr>mem_data := (mem_data m)(key := None), mem_dah := (mem_dah m)(key := None)\<rparr>)"

text \<open>
  The pruning loop ranges over the delete-at-height map and deletes the entry of the visited key
  only, so its result does not depend on the order: an entry is dropped iff its height is reached.
\<close>

definition reached :: "u64 \<Rightarrow> u64 option \<Rightarrow> bool" where
  "reached height dah = (case dah of None \<Rightarrow> False | Some d \<Rightarrow> d \<le> height)"

definition memSetCurrentBlockHeight :: "u64 \<Rightarrow> MemoryBlobStore \<Rightarrow> MemoryBlobStore" where
  "memSetCurrentBlockHeight height m =
     m\<lparr>mem_height := height,
       mem_data := (\<lambda>k. if reached height (mem_dah m k) then None else mem_data m k),
       mem_dah := (\<lambda>k. if reached height (mem_dah m k) then None else mem_dah m k)\<rparr>"

section \<open>The contract of a blob store\<close>

text \<open>
  The abstract store maps a key to its content and, if it has one, the height at which it goes.
  Storing without a height keeps the height an earlier store of the key gave it.
\<close>

type_synonym absBlobs = "string \<rightharpoonup> bytes \<times> u64 option"

definition dueOf :: "absBlobs \<Rightarrow> string \<Rightarrow> u64 option" where
  "dueOf A k = (case A k of None \<Rightarrow> None | Some (d, h) \<Rightarrow> h)"

definition aSet :: "string \<Rightarrow> bytes \<Rightarrow> u64 \<Rightarrow> absBlobs \<Rightarrow> absBlobs" where
  "aSet k d h A = A(k \<mapsto> (d, if h > 0 then Some h else dueOf A k))"

definition aDel :: "string \<Rightarrow> absBlobs \<Rightarrow> absBlobs" where
  "aDel k A = A(k := None)"

definition aHeight :: "u64 \<Rightarrow> absBlobs \<Rightarrow> absBlobs" where
  "aHeight h A = (\<lambda>k. if reached h (dueOf A k) then None else A k)"

datatype blobOp = OSet string bytes "BlobOption list" | ODel string | OHeight u64

primrec aOp :: "blobOp \<Rightarrow> absBlobs \<Rightarrow> absBlobs" where
  "aOp (OSet k d opts) = aSet k d (deleteAtHeight (applyOptions opts))"
| "aOp (ODel k) = aDel k"
| "aOp (OHeight h) = aHeight h"

primrec opKey :: "blobOp \<Rightarrow> string option" where
  "opKey (OSet k d opts) = Some k"
| "opKey (ODel k) = Some k"
| "opKey (OHeight h) = None"

text \<open>Operations that leave the content of a key in place which goes at height \<open>due\<close>.\<close>

primrec keeps :: "string \<Rightarrow> u64 option \<Rightarrow> blobOp \<Rightarrow> bool" where
  "keeps key due (OSet k d opts) \<longleftrightarrow> k \<noteq> key"
| "keeps key due (ODel k) \<longleftrightarrow> k \<noteq> key"
| "keeps key due (OHeight h) \<longleftrightarrow> \<not> reached h due"

lemma aOp_keeps: "keeps key (dueOf A key) op \<Longrightarrow> aOp op A key = A key"
  by (cases op) (auto simp: aSet_def aDel_def aHeight_def)

lemma fold_aOp_keeps:
  "list_all (keeps key (dueOf A key)) ops \<Longrightarrow> fold aOp ops A key = A key"
proof (induction ops arbitrary: A)
  case (Cons op ops)
  then have "aOp op A key = A key" by (simp add: aOp_keeps)
  then have "dueOf (aOp op A) key = dueOf A key" by (simp add: dueOf_def)
  with Cons \<open>aOp op A key = A key\<close> show ?case by simp
qed simp

locale blob_store =
  fixes bSet :: "string \<Rightarrow> bytes \<Rightarrow> BlobOption list \<Rightarrow> 's \<Rightarrow> blobErr option \<times> 's"
    and bGet :: "string \<Rightarrow> 's \<Rightarrow> blobErr + bytes"
    and bDel :: "string \<Rightarrow> 's \<Rightarrow> blobErr option \<times> 's"
    and bHeight :: "u64 \<Rightarrow> 's \<Rightarrow> 's"
    and inv :: "'s \<Rightarrow> bool"
    and okKey :: "string \<Rightarrow> bool"
    and abs :: "'s \<Rightarrow> absBlobs"
  assumes get_abs: "inv s \<Longrightarrow> okKey k \<Longrightarrow>
        bGet k s = (case abs s k of None \<Rightarrow> Inl (ErrBlobNotFound k) | Some (d, h) \<Rightarrow> Inr d)"
    and set_abs: "inv s \<Longrightarrow> okKey k \<Longrightarrow> bSet k d opts s = (e, s') \<Longrightarrow>
        e = None \<and> inv s' \<and> abs s' = aSet k d (deleteAtHeight (applyOptions opts)) (abs s)"
    and del_abs: "inv s \<Longrightarrow> okKey k \<Longrightarrow> bDel k s = (e, s') \<Longrightarrow> e = None \<and> inv s' \<and> abs s' = aDel k (abs s)"
    and height_abs: "inv s \<Longrightarrow> inv (bHeight h s) \<and> abs (bHeight h s) = aHeight h (abs s)"
begin

primrec bOp :: "blobOp \<Rightarrow> 's \<Rightarrow> 's" where
  "bOp (OSet k d opts) s = snd (bSet k d opts s)"
| "bOp (ODel k) s = snd (bDel k s)"
| "bOp (OHeight h) s = bHeight h s"

lemma bOp_abs:
  assumes "inv s" and "case opKey op of None \<Rightarrow> True | Some k \<Rightarrow> okKey k"
  shows "inv (bOp op s) \<and> abs (bOp op s) = aOp op (abs s)"
proof (cases op)
  case (OSet k d opts)
  then show ?thesis using set_abs [of s k d opts "fst (bSet k d opts s)" "snd (bSet k d opts s)"] assms by simp
next
  case (ODel k)
  then show ?thesis using del_abs [of s k "fst (bDel k s)" "snd (bDel k s)"] assms by simp
next
  case (OHeight h)
  then show ?thesis using height_abs assms by simp
qed

lemma fold_bOp_abs:
  assumes "inv s" and "list_all (\<lambda>op. case opKey op of None \<Rightarrow> True | Some k \<Rightarrow> okKey k) ops"
  shows "inv (fold bOp ops s) \<and> abs (fold bOp ops s) = fold aOp ops (abs s)"
  using assms
proof (induction ops arbitrary: s)
  case (Cons op ops)
  then show ?case using bOp_abs [of s op] by simp
qed simp

text \<open>A stored blob is readable until its height is reached, whatever happens to other keys.\<close>

lemma retained:
  assumes "inv s" and "okKey key" and "bSet key d opts s = (e, s1)"
    and "list_all (\<lambda>op. case opKey op of None \<Rightarrow> True | Some k \<Rightarrow> okKey k) ops"
    and "list_all (keeps key (dueOf (abs s1) key)) ops"
  shows "bGet key (fold bOp ops s1) = Inr d"
proof -
  have s1: "inv s1" "abs s1 = aSet key d (deleteAtHeight (applyOptions opts)) (abs s)"
    using set_abs [OF assms(1,2,3)] by simp_all
  have "abs (fold bOp ops s1) key = abs s1 key"
    using fold_bOp_abs [OF s1(1) assms(4)] fold_aOp_keeps [OF assms(5)] by simp
  then show ?thesis
    using get_abs [of "fold bOp ops s1" key] fold_bOp_abs [OF s1(1) assms(4)] assms(2)
    by (simp add: s1(2) aSet_def)
qed

text \<open>A blob stored with a height is gone once that height is announced.\<close>

lemma pruned:
  assumes "inv s" and "okKey key" and "bSet key d opts s = (e, s1)"
    and "deleteAtHeight (applyOptions opts) = h" and "0 < h" and "h \<le> h'"
  shows "bGet key (bHeight h' s1) = Inl (ErrBlobNotFound key)"
proof -
  have s1: "inv s1" "abs s1 = aSet key d h (abs s)"
    using set_abs [OF assms(1,2,3)] assms(4) by simp_all
  have "dueOf (abs s1) key = Some h" using assms(5) by (simp add: s1(2) aSet_def dueOf_def)
  then show ?thesis
    using get_abs [of "bHeight h' s1" key] height_abs [OF s1(1), of h'] assms(2,6)
    by (simp add: aHeight_def reached_def)
qed

lemma deleted:
  assumes "inv s" and "okKey key" and "bDel key s = (e, s1)"
  shows "e = None \<and> bGet key s1 = Inl (ErrBlobNotFound key)"
  using get_abs [of s1 key] del_abs [OF assms] assms(2) by (simp add: aDel_def)

end

section \<open>The memory store meets the contract\<close>

definition memInv :: "MemoryBlobStore \<Rightarrow> bool" where
  "memInv m \<longleftrightarrow> (\<forall>k. mem_data m k = None \<longrightarrow> mem_dah m k = None)"

definition memAbs :: "MemoryBlobStore \<Rightarrow> absBlobs" where
  "memAbs m k = (case mem_data m k of None \<Rightarrow> None | Some d \<Rightarrow> Some (d, mem_dah m k))"

lemma memInv_New [simp]: "memInv NewMemoryBlobStore"
  by (simp add: memInv_def NewMemoryBlobStore_def)

lemma memDue: "memInv m \<Longrightarrow> dueOf (memAbs m) k = mem_dah m k"
  by (auto simp: dueOf_def memAbs_def memInv_def split: option.splits if_splits)

interpretation mem: blob_store memSet memGet memDel memSetCurrentBlockHeight memInv "\<lambda>_. True" memAbs
proof unfold_locales
  fix s k
  show "memGet k s = (case memAbs s k of None \<Rightarrow> Inl (ErrBlobNotFound k) | Some (d, h) \<Rightarrow> Inr d)"
    by (simp add: memGet_def memAbs_def split: option.splits if_splits)
next
  fix s k d opts e s'
  assume inv: "memInv s" and set: "memSet k d opts s = (e, s')"
  have "memAbs s' j = aSet k d (deleteAtHeight (applyOptions opts)) (memAbs s) j" for j
    using set memDue [OF inv, of k]
    by (cases "deleteAtHeight (applyOptions opts) > 0") (auto simp: memSet_def Let_def memAbs_def aSet_def split: option.splits if_splits)
  then show "e = None \<and> memInv s' \<and> memAbs s' = aSet k d (deleteAtHeight (applyOptions opts)) (memAbs s)"
    using set inv by (auto simp: memSet_def Let_def memInv_def split: if_splits)
next
  fix s k e s'
  assume inv: "memInv s" and del: "memDel k s = (e, s')"
  then show "e = None \<and> memInv s' \<and> memAbs s' = aDel k (memAbs s)"
    by (auto simp: memDel_def memInv_def memAbs_def aDel_def fun_eq_iff split: option.splits if_splits)
next
  fix s h
  assume inv: "memInv s"
  have "memAbs (memSetCurrentBlockHeight h s) j = aHeight h (memAbs s) j" for j
    using memDue [OF inv, of j] by (auto simp: memSetCurrentBlockHeight_def memAbs_def aHeight_def split: option.splits if_splits)
  then show "memInv (memSetCurrentBlockHeight h s) \<and> memAbs (memSetCurrentBlockHeight h s) = aHeight h (memAbs s)"
    using inv by (auto simp: memSetCurrentBlockHeight_def memInv_def)
qed

end
