(* ===== verification/Stump_Store.thy ===== *)
theory Stump_Store
  imports Blob_Store Go_Strings
begin

text \<open>
  The stores for STUMPs and for subtrees on top of a blob store (internal/store/stump_store.go,
  internal/store/subtree_store.go). Both are built over one shared blob store, as
  \<open>NewFromConfig\<close> does. The operations of the blob store are arguments, the Go interface
  \<open>BlobStore\<close>; SHA-256 is the argument \<open>sha256\<close>, of which nothing is assumed.
\<close>

section \<open>Hash sums\<close>

text \<open>The 32 bytes of a SHA-256 sum, most significant first.\<close>

definition sumBytes :: "256 word \<Rightarrow> bytes" where
  "sumBytes w = map (\<lambda>i. ucast (drop_bit (8 * (31 - i)) w)) [0..<32]"

section \<open>STUMP store\<close>

datatype stumpErr =
    ErrStumpNotFound string
  | EStoreStump string blobErr
  | EGetStump string blobErr
  | EDeleteStump string blobErr

definition stumpKeyPrefix :: string where
  "stumpKeyPrefix = ''stump/''"

definition StumpRefFor :: "(bytes \<Rightarrow> 256 word) \<Rightarrow> bytes \<Rightarrow> string" where
  "StumpRefFor sha256 data = hexEncode (sumBytes (sha256 data))"

record 's blobStumpStore =
  stumpBlobs :: 's
  stumpDahOffset :: u64

definition NewStumpStore :: "'s \<Rightarrow> u64 \<Rightarrow> 's blobStumpStore" where
  "NewStumpStore store dahOffset = \<lparr>stumpBlobs = store, stumpDahOffset = dahOffset\<rparr>"

definition stumpOpts :: "u64 \<Rightarrow> u64 \<Rightarrow> BlobOption list" where
  "stumpOpts dahOffset blockHeight =
     (if blockHeight > 0 \<and> dahOffset > 0 then [WithDeleteAtHeight (blockHeight + dahOffset)] else [])"

definition Put ::
    "(string \<Rightarrow> bytes \<Rightarrow> BlobOption list \<Rightarrow> 's \<Rightarrow> blobErr option \<times> 's) \<Rightarrow> (bytes \<Rightarrow> 256 word)
     \<Rightarrow> bytes \<Rightarrow> u64 \<Rightarrow> 's blobStumpStore \<Rightarrow> (stumpErr + string) \<times> 's blobStumpStore" where
  "Put bSet sha256 data blockHeight s =
     (let ref = StumpRefFor sha256 data;
          key = stumpKeyPrefix @ ref;
          (err, blobs) = bSet key data (stumpOpts (stumpDahOffset s) blockHeight) (stumpBlobs s)
      in (case err of Some e \<Rightarrow> Inl (EStoreStump ref e) | None \<Rightarrow> Inr ref, s\<lparr>stumpBlobs := blobs\<rparr>))"

definition stumpGet :: "(string \<Rightarrow> 's \<Rightarrow> blobErr + bytes) \<Rightarrow> string \<Rightarrow> 's blobStumpStore \<Rightarrow> stumpErr + bytes" where
  "stumpGet bGet ref s =
     (if ref = '''' then Inl (ErrStumpNotFound '''')
      else case bGet (stumpKeyPrefix @ ref) (stumpBlobs s) of
        Inl (ErrBlobNotFound k) \<Rightarrow> Inl (ErrStumpNotFound ref)
      | Inl e \<Rightarrow> Inl (EGetStump ref e)
      | Inr data \<Rightarrow> Inr data)"

definition Delete ::
    "(string \<Rightarrow> 's \<Rightarrow> blobErr option \<times> 's) \<Rightarrow> string \<Rightarrow> 's blobStumpStore \<Rightarrow> stumpErr option \<times> 's blobStumpStore" where
  "Delete bDel ref s =
     (if ref = '''' then (None, s)
      else let (err, blobs) = bDel (stumpKeyPrefix @ ref) (stumpBlobs s)
           in (map_option (EDeleteStump ref) err, s\<lparr>stumpBlobs := blobs\<rparr>))"

definition TrimStumpRefPrefix :: "string \<Rightarrow> string" where
  "TrimStumpRefPrefix ref =
     (if take (length stumpKeyPrefix) ref = stumpKeyPrefix then drop (length stumpKeyPrefix) ref else ref)"

section \<open>Subtree store\<close>

datatype subtreeErr =
    EStoreSubtree string blobErr
  | EStoreSubtreeReader string blobErr
  | EGetSubtree string blobErr
  | EGetSubtreeReader string blobErr
  | EDeleteSubtree string blobErr

record 's blobSubtreeStore =
  subtreeBlobs :: 's
  subtreeDahOffset :: u64
  currentHeight :: u64

definition NewSubtreeStore :: "'s \<Rightarrow> u64 \<Rightarrow> 's blobSubtreeStore" where
  "NewSubtreeStore store dahOffset = \<lparr>subtreeBlobs = store, subtreeDahOffset = dahOffset, currentHeight = 0\<rparr>"

definition subtreeOpts :: "u64 \<Rightarrow> u64 \<Rightarrow> BlobOption list" where
  "subtreeOpts dahOffset blockHeight =
     (if blockHeight > 0 then [WithDeleteAtHeight (blockHeight + dahOffset)] else [])"

definition StoreSubtree ::
    "(string \<Rightarrow> bytes \<Rightarrow> BlobOption list \<Rightarrow> 's \<Rightarrow> blobErr option \<times> 's)
     \<Rightarrow> string \<Rightarrow> bytes \<Rightarrow> u64 \<Rightarrow> 's blobSubtreeStore \<Rightarrow> subtreeErr option \<times> 's blobSubtreeStore" where
  "StoreSubtree bSet subtreeId data blockHeight s =
     (let (err, blobs) = bSet subtreeId data (subtreeOpts (subtreeDahOffset s) blockHeight) (subtreeBlobs s)
      in (map_option (EStoreSubtree subtreeId) err, s\<lparr>subtreeBlobs := blobs\<rparr>))"

definition StoreSubtreeFromReader ::
    "(string \<Rightarrow> string + bytes \<Rightarrow> BlobOption list \<Rightarrow> 's \<Rightarrow> blobErr option \<times> 's)
     \<Rightarrow> string \<Rightarrow> string + bytes \<Rightarrow> u64 \<Rightarrow> 's blobSubtreeStore \<Rightarrow> subtreeErr option \<times> 's blobSubtreeStore" where
  "StoreSubtreeFromReader bSetFromReader subtreeId r blockHeight s =
     (let dah = blockHeight + subtreeDahOffset s;
          (err, blobs) = bSetFromReader subtreeId r [WithDeleteAtHeight dah] (subtreeBlobs s)
      in (map_option (EStoreSubtreeReader subtreeId) err, s\<lparr>subtreeBlobs := blobs\<rparr>))"

definition GetSubtree ::
    "(string \<Rightarrow> 's \<Rightarrow> blobErr + bytes) \<Rightarrow> string \<Rightarrow> 's blobSubtreeStore \<Rightarrow> subtreeErr + bytes" where
  "GetSubtree bGet subtreeId s = map_sum (EGetSubtree subtreeId) id (bGet subtreeId (subtreeBlobs s))"

text \<open>A reader over the stored bytes; reading it to the end gives them.\<close>

definition GetSubtreeReader ::
    "(string \<Rightarrow> 's \<Rightarrow> blobErr + bytes) \<Rightarrow> string \<Rightarrow> 's blobSubtreeStore \<Rightarrow> subtreeErr + bytes" where
  "GetSubtreeReader bGetIoReader subtreeId s =
     map_sum (EGetSubtreeReader subtreeId) id (bGetIoReader subtreeId (subtreeBlobs s))"

definition DeleteSubtree ::
    "(string \<Rightarrow> 's \<Rightarrow> blobErr option \<times> 's) \<Rightarrow> string \<Rightarrow> 's blobSubtreeStore \<Rightarrow> subtreeErr option \<times> 's blobSubtreeStore" where
  "DeleteSubtree bDel subtreeId s =
     (let (err, blobs) = bDel subtreeId (subtreeBlobs s)
      in (map_option (EDeleteSubtree subtreeId) err, s\<lparr>subtreeBlobs := blobs\<rparr>))"

definition SetCurrentBlockHeight :: "(u64 \<Rightarrow> 's \<Rightarrow> 's) \<Rightarrow> u64 \<Rightarrow> 's blobSubtreeStore \<Rightarrow> 's blobSubtreeStore" where
  "SetCurrentBlockHeight bHeight height s =
     s\<lparr>currentHeight := height, subtreeBlobs := bHeight height (subtreeBlobs s)\<rparr>"

section \<open>Both stores over one blob store\<close>

text \<open>
  What the services do to the shared blob store: one value of the blob store type, wrapped by the
  STUMP store or by the subtree store for the length of a call.
\<close>

record dahConfig =
  DAHOffset :: u64
  StumpDAHOffset :: u64

datatype storeOp =
    PutStump bytes u64
  | DeleteStump string
  | PutSubtree string bytes u64
  | DropSubtree string
  | NewHeight u64

primrec runOp ::
    "(string \<Rightarrow> bytes \<Rightarrow> BlobOption list \<Rightarrow> 's \<Rightarrow> blobErr option \<times> 's) \<Rightarrow> (string \<Rightarrow> 's \<Rightarrow> blobErr option \<times> 's)
     \<Rightarrow> (u64 \<Rightarrow> 's \<Rightarrow> 's) \<Rightarrow> (bytes \<Rightarrow> 256 word) \<Rightarrow> dahConfig \<Rightarrow> storeOp \<Rightarrow> 's \<Rightarrow> 's" where
  "runOp bSet bDel bHeight sha cfg (PutStump d h) s = stumpBlobs (snd (Put bSet sha d h (NewStumpStore s (StumpDAHOffset cfg))))"
| "runOp bSet bDel bHeight sha cfg (DeleteStump r) s = stumpBlobs (snd (Delete bDel r (NewStumpStore s (StumpDAHOffset cfg))))"
| "runOp bSet bDel bHeight sha cfg (PutSubtree i d h) s = subtreeBlobs (snd (StoreSubtree bSet i d h (NewSubtreeStore s (DAHOffset cfg))))"
| "runOp bSet bDel bHeight sha cfg (DropSubtree i) s = subtreeBlobs (snd (DeleteSubtree bDel i (NewSubtreeStore s (DAHOffset cfg))))"
| "runOp bSet bDel bHeight sha cfg (NewHeight h) s = subtreeBlobs (SetCurrentBlockHeight bHeight h (NewSubtreeStore s (DAHOffset cfg)))"

primrec blobOps :: "(bytes \<Rightarrow> 256 word) \<Rightarrow> dahConfig \<Rightarrow> storeOp \<Rightarrow> blobOp list" where
  "blobOps sha cfg (PutStump d h) = [OSet (stumpKeyPrefix @ StumpRefFor sha d) d (stumpOpts (StumpDAHOffset cfg) h)]"
| "blobOps sha cfg (DeleteStump r) = (if r = '''' then [] else [ODel (stumpKeyPrefix @ r)])"
| "blobOps sha cfg (PutSubtree i d h) = [OSet i d (subtreeOpts (DAHOffset cfg) h)]"
| "blobOps sha cfg (DropSubtree i) = [ODel i]"
| "blobOps sha cfg (NewHeight h) = [OHeight h]"

text \<open>Subtree identifiers are hashes: no key of the STUMP store.\<close>

definition subtreeId :: "string \<Rightarrow> bool" where
  "subtreeId i \<longleftrightarrow> take (length stumpKeyPrefix) i \<noteq> stumpKeyPrefix"

lemma subtreeId_neq [simp]: "subtreeId i \<Longrightarrow> i \<noteq> stumpKeyPrefix @ r" "subtreeId i \<Longrightarrow> stumpKeyPrefix @ r \<noteq> i"
  by (auto simp: subtreeId_def)

text \<open>
  The operations that leave a STUMP alone that was stored with height \<open>h\<close>: other STUMPs, the same
  STUMP stored again for the same height, subtrees, and heights below its delete-at-height.
\<close>

primrec sparesStump :: "(bytes \<Rightarrow> 256 word) \<Rightarrow> dahConfig \<Rightarrow> bytes \<Rightarrow> u64 \<Rightarrow> storeOp \<Rightarrow> bool" where
  "sparesStump sha cfg d h (PutStump d' h') \<longleftrightarrow> StumpRefFor sha d' \<noteq> StumpRefFor sha d \<or> (d' = d \<and> h' = h)"
| "sparesStump sha cfg d h (DeleteStump r) \<longleftrightarrow> r \<noteq> StumpRefFor sha d"
| "sparesStump sha cfg d h (PutSubtree i d' h') \<longleftrightarrow> subtreeId i"
| "sparesStump sha cfg d h (DropSubtree i) \<longleftrightarrow> subtreeId i"
| "sparesStump sha cfg d h (NewHeight h') \<longleftrightarrow> h' < h + StumpDAHOffset cfg"

lemma stumpRef_nonempty [simp]: "StumpRefFor sha d \<noteq> ''''"
  by (simp add: StumpRefFor_def hexEncode_def sumBytes_def hexByte_def upt_rec)

lemma stumpOpts_dah [simp]:
  "0 < h \<Longrightarrow> 0 < off \<Longrightarrow> deleteAtHeight (applyOptions (stumpOpts off h)) = h + off"
  by (simp add: stumpOpts_def applyOptions_def)

locale stump_store = blob_store bSet bGet bDel bHeight inv okKey abs
  for bSet :: "string \<Rightarrow> bytes \<Rightarrow> BlobOption list \<Rightarrow> 's \<Rightarrow> blobErr option \<times> 's"
    and bGet :: "string \<Rightarrow> 's \<Rightarrow> blobErr + bytes"
    and bDel :: "string \<Rightarrow> 's \<Rightarrow> blobErr option \<times> 's"
    and bHeight :: "u64 \<Rightarrow> 's \<Rightarrow> 's"
    and inv :: "'s \<Rightarrow> bool" and okKey :: "string \<Rightarrow> bool" and abs :: "'s \<Rightarrow> absBlobs" +
  fixes sha256 :: "bytes \<Rightarrow> 256 word" and cfg :: dahConfig
  assumes okStump: "okKey (stumpKeyPrefix @ StumpRefFor sha256 d)"
begin

abbreviation run :: "storeOp \<Rightarrow> 's \<Rightarrow> 's" where
  "run \<equiv> runOp bSet bDel bHeight sha256 cfg"

abbreviation okOp :: "storeOp \<Rightarrow> bool" where
  "okOp op \<equiv> list_all (\<lambda>b. case opKey b of None \<Rightarrow> True | Some k \<Rightarrow> okKey k) (blobOps sha256 cfg op)"

lemma run_bOps: "run op s = fold bOp (blobOps sha256 cfg op) s"
  by (cases op)
    (auto simp: Put_def Delete_def StoreSubtree_def DeleteSubtree_def SetCurrentBlockHeight_def
      NewStumpStore_def NewSubtreeStore_def Let_def split: prod.splits option.splits)

lemma run_abs: "inv s \<Longrightarrow> okOp op \<Longrightarrow> inv (run op s) \<and> abs (run op s) = fold aOp (blobOps sha256 cfg op) (abs s)"
  by (simp add: run_bOps fold_bOp_abs)

lemma run_spares:
  assumes "inv s" and "okOp op" and "sparesStump sha256 cfg d h op"
    and "0 < h" and "0 < StumpDAHOffset cfg" and "0 < h + StumpDAHOffset cfg"
    and "abs s (stumpKeyPrefix @ StumpRefFor sha256 d) = Some (d, Some (h + StumpDAHOffset cfg))"
  shows "abs (run op s) (stumpKeyPrefix @ StumpRefFor sha256 d) = Some (d, Some (h + StumpDAHOffset cfg))"
  using assms run_abs [OF assms(1,2)]
  by (cases op) (auto simp: aSet_def aDel_def aHeight_def dueOf_def reached_def)

lemma runs_spare:
  assumes "inv s" and "list_all okOp ops" and "list_all (sparesStump sha256 cfg d h) ops"
    and "0 < h" and "0 < StumpDAHOffset cfg" and "0 < h + StumpDAHOffset cfg"
    and "abs s (stumpKeyPrefix @ StumpRefFor sha256 d) = Some (d, Some (h + StumpDAHOffset cfg))"
  shows "inv (fold run ops s) \<and>
     abs (fold run ops s) (stumpKeyPrefix @ StumpRefFor sha256 d) = Some (d, Some (h + StumpDAHOffset cfg))"
  using assms
proof (induction ops arbitrary: s)
  case (Cons op ops)
  then show ?case using run_spares [of s op d h] run_abs [of s op] by simp
qed simp

lemma put_abs:
  assumes "inv s" and "Put bSet sha256 d h (NewStumpStore s (StumpDAHOffset cfg)) = (r, st)"
    and "0 < h" and "0 < StumpDAHOffset cfg" and "0 < h + StumpDAHOffset cfg"
  shows "r = Inr (StumpRefFor sha256 d) \<and> inv (stumpBlobs st) \<and>
     abs (stumpBlobs st) (stumpKeyPrefix @ StumpRefFor sha256 d) = Some (d, Some (h + StumpDAHOffset cfg))"
  using set_abs [OF assms(1) okStump, of d d "stumpOpts (StumpDAHOffset cfg) h"] assms(2-)
  by (auto simp: Put_def NewStumpStore_def Let_def aSet_def split: prod.splits)

lemma get_ref:
  assumes "inv s" and "abs s (stumpKeyPrefix @ StumpRefFor sha256 d) = r"
  shows "stumpGet bGet (StumpRefFor sha256 d) (NewStumpStore s off) =
     (case r of None \<Rightarrow> Inl (ErrStumpNotFound (StumpRefFor sha256 d)) | Some (x, due) \<Rightarrow> Inr x)"
  using get_abs [OF assms(1) okStump, of d] assms(2)
  by (auto simp: stumpGet_def NewStumpStore_def split: option.splits)

text \<open>A STUMP can be read back until its delete-at-height, and is reported missing from then on.\<close>

lemma stump_lifetime:
  assumes "inv s" and "Put bSet sha256 d h (NewStumpStore s (StumpDAHOffset cfg)) = (r, st)"
    and "0 < h" and "0 < StumpDAHOffset cfg" and "0 < h + StumpDAHOffset cfg"
    and "list_all okOp ops" and "list_all (sparesStump sha256 cfg d h) ops" and "h + StumpDAHOffset cfg \<le> h'"
  shows "r = Inr (StumpRefFor sha256 d)
     \<and> stumpGet bGet (StumpRefFor sha256 d) (NewStumpStore (fold run ops (stumpBlobs st)) off) = Inr d
     \<and> stumpGet bGet (StumpRefFor sha256 d) (NewStumpStore (run (NewHeight h') (fold run ops (stumpBlobs st))) off)
         = Inl (ErrStumpNotFound (StumpRefFor sha256 d))"
proof -
  let ?s = "fold run ops (stumpBlobs st)"
  note put = put_abs [OF assms(1-5)]
  have at: "inv ?s" "abs ?s (stumpKeyPrefix @ StumpRefFor sha256 d) = Some (d, Some (h + StumpDAHOffset cfg))"
    using runs_spare [OF _ assms(6,7) assms(3-5), of "stumpBlobs st"] put by simp_all
  have "inv (run (NewHeight h') ?s) \<and> abs (run (NewHeight h') ?s) (stumpKeyPrefix @ StumpRefFor sha256 d) = None"
    using run_abs [OF at(1), of "NewHeight h'"] at(2) assms(8)
    by (auto simp: aHeight_def reached_def dueOf_def)
  then show ?thesis using get_ref [OF at] get_ref [of "run (NewHeight h') ?s" d None off] put by simp
qed

end

interpretation memStump: stump_store memSet memGet memDel memSetCurrentBlockHeight memInv "\<lambda>_. True" memAbs sha cfg
  for sha cfg
  by unfold_locales simp

section \<open>Lifetime of blobs\<close>

text \<open>
  On the memory store shared by STUMPs and subtrees, a STUMP stored for the block height \<open>h\<close> can
  be read back under its reference, unchanged, after any sequence of store operations of the services
  (other STUMPs, the same STUMP stored again by a retry, subtrees, deletions of others, new block
  heights) as long as the announced heights stay below \<open>h\<close> plus the configured offset. The first
  height at or above it makes the lookup answer that the STUMP is gone, the error on which delivery
  gives up, and not a transient error.
\<close>

theorem mem_stump_lifetime:
  assumes "memInv s"
    and "Put memSet sha d h (NewStumpStore s (StumpDAHOffset cfg)) = (r, st)"
    and "0 < h" and "0 < StumpDAHOffset cfg" and "0 < h + StumpDAHOffset cfg"
    and "list_all (sparesStump sha cfg d h) ops"
    and "h + StumpDAHOffset cfg \<le> h'"
  defines "s1 \<equiv> fold (runOp memSet memDel memSetCurrentBlockHeight sha cfg) ops (stumpBlobs st)"
  shows "r = Inr (StumpRefFor sha d)
    \<and> stumpGet memGet (StumpRefFor sha d) (NewStumpStore s1 off) = Inr d
    \<and> stumpGet memGet (StumpRefFor sha d)
         (NewStumpStore (runOp memSet memDel memSetCurrentBlockHeight sha cfg (NewHeight h') s1) off)
       = Inl (ErrStumpNotFound (StumpRefFor sha d))"
proof -
  have "list_all (\<lambda>op. list_all (\<lambda>b. case opKey b of None \<Rightarrow> True | Some k \<Rightarrow> True) (blobOps sha cfg op)) ops"
    by (simp add: list_all_iff split: option.splits)
  then show ?thesis using memStump.stump_lifetime [OF assms(1-5) _ assms(6,7), of off] by (simp add: s1_def)
qed

definition lifeSha :: "bytes \<Rightarrow> 256 word" where
  "lifeSha bs = of_nat (length bs)"

definition lifeCfg :: dahConfig where
  "lifeCfg = \<lparr>DAHOffset = 1, StumpDAHOffset = 6\<rparr>"

definition lifeOps :: "storeOp list" where
  "lifeOps = [NewHeight 100, PutSubtree ''ab'' [5] 100, PutStump [1, 2] 100, NewHeight 105, DropSubtree ''ab'']"

theorem mem_stump_lifetime_witness:
  "stumpGet memGet (StumpRefFor lifeSha [1, 2]) (NewStumpStore
     (fold (runOp memSet memDel memSetCurrentBlockHeight lifeSha lifeCfg) lifeOps
       (stumpBlobs (snd (Put memSet lifeSha [1, 2] 100 (NewStumpStore NewMemoryBlobStore 6))))) 0) = Inr [1, 2]"
proof -
  obtain r st where put: "Put memSet lifeSha [1, 2] 100 (NewStumpStore NewMemoryBlobStore 6) = (r, st)" by fastforce
  have "list_all (sparesStump lifeSha lifeCfg [1, 2] 100) lifeOps"
    by (simp add: lifeOps_def lifeCfg_def subtreeId_def stumpKeyPrefix_def)
  then show ?thesis
    using mem_stump_lifetime [of NewMemoryBlobStore lifeSha "[1, 2]" 100 lifeCfg r st lifeOps 106 0] put
    by (simp add: lifeCfg_def)
qed

text \<open>
  \<open>StoreSubtree\<close> keeps a subtree of unknown height for good; \<open>StoreSubtreeFromReader\<close> of the same
  subtree gives it the delete-at-height \<open>0 + dahOffset\<close>, so that the next announced height drops it.
\<close>

lemma StoreSubtreeFromReader_height_zero:
  assumes "memInv s" and "0 < off" and "off \<le> h"
  shows "GetSubtree memGet i (SetCurrentBlockHeight memSetCurrentBlockHeight h
            (snd (StoreSubtreeFromReader memSetFromReader i (Inr d) 0 (NewSubtreeStore s off))))
          = Inl (EGetSubtree i (ErrBlobNotFound i))"
  using assms
  by (simp add: GetSubtree_def SetCurrentBlockHeight_def StoreSubtreeFromReader_def memSetFromReader_def
      NewSubtreeStore_def memSet_def memGet_def memSetCurrentBlockHeight_def applyOptions_def reached_def Let_def)

lemma mem_heights_keep:
  "mem_dah s i = None \<Longrightarrow> mem_data (fold memSetCurrentBlockHeight hs s) i = mem_data s i
     \<and> mem_dah (fold memSetCurrentBlockHeight hs s) i = None"
  by (induction hs arbitrary: s) (simp_all add: memSetCurrentBlockHeight_def reached_def)

text \<open>
  C35: A subtree that arrives before its block, stored with height 0, survives every announced block
  height; once it is stored again for the block of height \<open>h\<close>, it is dropped as soon as a height of at
  least \<open>h + dahOffset\<close> is announced and not by the heights below.
\<close>

theorem subtree_kept_until_mined:
  fixes d :: bytes and hs :: "u64 list"
  assumes "memInv s" and "mem_dah s i = None" and "0 < h" and "0 < h + off"
  defines "s1 \<equiv> fold memSetCurrentBlockHeight hs
             (subtreeBlobs (snd (StoreSubtree memSet i d 0 (NewSubtreeStore s off))))"
  defines "s2 \<equiv> subtreeBlobs (snd (StoreSubtree memSet i d h (NewSubtreeStore s1 off)))"
  shows "GetSubtree memGet i (NewSubtreeStore s1 off) = Inr d
     \<and> GetSubtree memGet i (NewSubtreeStore (memSetCurrentBlockHeight h' s2) off)
         = (if h' < h + off then Inr d else Inl (EGetSubtree i (ErrBlobNotFound i)))"
proof -
  have "mem_data s1 i = Some d \<and> mem_dah s1 i = None"
    using mem_heights_keep [of "subtreeBlobs (snd (StoreSubtree memSet i d 0 (NewSubtreeStore s off)))" i hs] assms(2)
    by (simp add: s1_def StoreSubtree_def NewSubtreeStore_def memSet_def subtreeOpts_def applyOptions_def Let_def)
  moreover have "mem_data s2 i = Some d \<and> mem_dah s2 i = Some (h + off)"
    using assms(3,4)
    by (simp add: s2_def StoreSubtree_def NewSubtreeStore_def memSet_def subtreeOpts_def applyOptions_def Let_def)
  ultimately show ?thesis
    by (auto simp: GetSubtree_def NewSubtreeStore_def memGet_def memSetCurrentBlockHeight_def reached_def)
qed

theorem subtree_kept_until_mined_witness:
  "GetSubtree memGet ''aa'' (NewSubtreeStore (memSetCurrentBlockHeight 11
     (subtreeBlobs (snd (StoreSubtree memSet ''aa'' [9] 10 (NewSubtreeStore
        (fold memSetCurrentBlockHeight [3, 4] (subtreeBlobs (snd (StoreSubtree memSet ''aa'' [9] 0
           (NewSubtreeStore NewMemoryBlobStore 1))))) 1))))) 1)
   = Inl (EGetSubtree ''aa'' (ErrBlobNotFound ''aa''))"
  using subtree_kept_until_mined [of NewMemoryBlobStore "''aa''" 10 1 "[3, 4]" "[9]" 11]
  by (simp add: NewMemoryBlobStore_def memInv_def)

end
