(* ===== verification/File_Blob.thy ===== *)
theory File_Blob
  imports Stump_Store "HOL-Library.AList"
begin

text \<open>
  The file implementation of the blob store (internal/store/file_blob.go) with the part of the file
  system it uses: paths as \<open>filepath.Join\<close> cleans them, directories and files, and the system calls
  behind \<open>os.MkdirAll\<close>, \<open>os.WriteFile\<close>, \<open>os.ReadFile\<close> and \<open>os.Remove\<close>, each of which may fail.
\<close>

section \<open>Paths\<close>

fun splitSlash :: "string \<Rightarrow> string list" where
  "splitSlash [] = [[]]"
| "splitSlash (c # cs) =
     (if c = CHR ''/'' then [] # splitSlash cs
      else case splitSlash cs of [] \<Rightarrow> [[c]] | w # ws \<Rightarrow> (c # w) # ws)"

text \<open>A cleaned path: whether it is rooted, and its components.\<close>

type_synonym fpath = "bool \<times> string list"

definition cleanStep :: "bool \<Rightarrow> string list \<Rightarrow> string \<Rightarrow> string list" where
  "cleanStep rooted acc c =
     (if c = '''' \<or> c = ''.'' then acc
      else if c = ''..'' then
        (if acc \<noteq> [] \<and> last acc \<noteq> ''..'' then butlast acc
         else if rooted then acc else acc @ [c])
      else acc @ [c])"

definition isRooted :: "string \<Rightarrow> bool" where
  "isRooted s = (case s of [] \<Rightarrow> False | c # cs \<Rightarrow> c = CHR ''/'')"

definition Clean :: "string \<Rightarrow> fpath" where
  "Clean s = (isRooted s, foldl (cleanStep (isRooted s)) [] (splitSlash s))"

definition Join :: "string \<Rightarrow> string \<Rightarrow> fpath" where
  "Join dir key = Clean (if dir = '''' then key else if key = '''' then dir else dir @ ''/'' @ key)"

definition Dir_path :: "fpath \<Rightarrow> fpath" where
  "Dir_path p = (fst p, butlast (snd p))"

primrec joinSlash :: "string list \<Rightarrow> string" where
  "joinSlash [] = ''''"
| "joinSlash (c # cs) = (if cs = [] then c else c @ ''/'' @ joinSlash cs)"

definition pathString :: "fpath \<Rightarrow> string" where
  "pathString p = (if fst p then ''/'' @ joinSlash (snd p) else if snd p = [] then ''.'' else joinSlash (snd p))"

section \<open>File system calls\<close>

datatype fnode = File bytes | Dir

type_synonym disk = "(fpath \<times> fnode) list"

text \<open>The root, the working directory and its ancestors are directories.\<close>

definition isDir :: "disk \<Rightarrow> fpath \<Rightarrow> bool" where
  "isDir dsk p \<longleftrightarrow> list_all (\<lambda>c. c = ''..'') (snd p) \<or> map_of dsk p = Some Dir"

definition isFile :: "disk \<Rightarrow> fpath \<Rightarrow> bool" where
  "isFile dsk p = (case map_of dsk p of Some (File d) \<Rightarrow> True | _ \<Rightarrow> False)"

definition ancestors :: "fpath \<Rightarrow> fpath list" where
  "ancestors p = map (\<lambda>i. (fst p, take i (snd p))) [1..<Suc (length (snd p))]"

text \<open>A failing call: nothing happened, or the file was truncated and partly written.\<close>

datatype fault = CallFails string | WriteFails string nat

datatype osErr = NotExist | OsErr string

definition mkdirOne :: "fpath \<Rightarrow> disk \<Rightarrow> disk" where
  "mkdirOne q dsk = (if isDir dsk q then dsk else AList.update q Dir dsk)"

definition MkdirAll :: "fault option \<Rightarrow> fpath \<Rightarrow> disk \<Rightarrow> string option \<times> disk" where
  "MkdirAll flt p dsk = (case flt of
      Some (CallFails e) \<Rightarrow> (Some e, dsk)
    | Some (WriteFails e n) \<Rightarrow> (Some e, dsk)
    | None \<Rightarrow> if list_ex (isFile dsk) (ancestors p) then (Some ''not a directory'', dsk)
              else (None, fold mkdirOne (ancestors p) dsk))"

definition WriteFile :: "fault option \<Rightarrow> fpath \<Rightarrow> bytes \<Rightarrow> disk \<Rightarrow> string option \<times> disk" where
  "WriteFile flt p data dsk =
     (if isDir dsk p then (Some ''is a directory'', dsk)
      else if \<not> isDir dsk (Dir_path p) then (Some ''no such directory'', dsk)
      else case flt of
        Some (CallFails e) \<Rightarrow> (Some e, dsk)
      | Some (WriteFails e n) \<Rightarrow> (Some e, AList.update p (File (take n data)) dsk)
      | None \<Rightarrow> (None, AList.update p (File data) dsk))"

definition ReadFile :: "fault option \<Rightarrow> fpath \<Rightarrow> disk \<Rightarrow> osErr + bytes" where
  "ReadFile flt p dsk = (case flt of
      Some (CallFails e) \<Rightarrow> Inl (OsErr e)
    | Some (WriteFails e n) \<Rightarrow> Inl (OsErr e)
    | None \<Rightarrow> if isDir dsk p then Inl (OsErr ''is a directory'')
              else (case map_of dsk p of
                Some (File d) \<Rightarrow> Inr d
              | _ \<Rightarrow> if list_ex (isFile dsk) (ancestors p) then Inl (OsErr ''not a directory'') else Inl NotExist))"

definition emptyDir :: "disk \<Rightarrow> fpath \<Rightarrow> bool" where
  "emptyDir dsk p = list_all (\<lambda>(q, n). \<not> (fst q = fst p \<and> length (snd p) < length (snd q)
                                           \<and> take (length (snd p)) (snd q) = snd p)) dsk"

definition Remove :: "fault option \<Rightarrow> fpath \<Rightarrow> disk \<Rightarrow> osErr option \<times> disk" where
  "Remove flt p dsk = (case flt of
      Some (CallFails e) \<Rightarrow> (Some (OsErr e), dsk)
    | Some (WriteFails e n) \<Rightarrow> (Some (OsErr e), dsk)
    | None \<Rightarrow> (case map_of dsk p of
        Some (File d) \<Rightarrow> (None, AList.delete p dsk)
      | Some Dir \<Rightarrow> if emptyDir dsk p then (None, AList.delete p dsk) else (Some (OsErr ''directory not empty''), dsk)
      | None \<Rightarrow> if isDir dsk p then (Some (OsErr ''busy''), dsk)
                else if list_ex (isFile dsk) (ancestors p) then (Some (OsErr ''not a directory''), dsk)
                else (Some NotExist, dsk)))"

section \<open>The store\<close>

text \<open>The fields of \<open>FileBlobStore\<close>, and the disk it works on.\<close>

record FileBlobStore =
  fdir :: string
  fdah :: "(string \<times> u64) list"
  fheight :: u64
  fdisk :: disk

definition NewFileBlobStore :: "fault option \<Rightarrow> string \<Rightarrow> disk \<Rightarrow> blobErr + FileBlobStore" where
  "NewFileBlobStore flt dir dsk =
     (if dir = '''' then Inl (ErrBlobIO ''no such file or directory'')
      else case MkdirAll flt (Clean dir) dsk of
        (Some e, dsk') \<Rightarrow> Inl (ErrBlobIO e)
      | (None, dsk') \<Rightarrow> Inr \<lparr>fdir = dir, fdah = [], fheight = 0, fdisk = dsk'\<rparr>)"

definition fpath :: "FileBlobStore \<Rightarrow> string \<Rightarrow> fpath" where
  "fpath f key = Join (fdir f) key"

text \<open>\<open>flt i\<close> is the fault of the \<open>i\<close>-th system call of the operation.\<close>

definition fileSet ::
    "(nat \<Rightarrow> fault option) \<Rightarrow> string \<Rightarrow> bytes \<Rightarrow> BlobOption list \<Rightarrow> FileBlobStore \<Rightarrow> blobErr option \<times> FileBlobStore" where
  "fileSet flt key data opts f =
     (let o' = applyOptions opts;
          path = fpath f key;
          parent = Dir_path path;
          (err, dsk) = (if pathString parent \<noteq> '''' \<and> pathString parent \<noteq> fdir f
                        then MkdirAll (flt 0) parent (fdisk f) else (None, fdisk f))
      in case err of
           Some e \<Rightarrow> (Some (ErrBlobIO e), f\<lparr>fdisk := dsk\<rparr>)
         | None \<Rightarrow>
             (let (err, dsk) = WriteFile (flt 1) path data dsk
              in case err of
                   Some e \<Rightarrow> (Some (ErrBlobIO e), f\<lparr>fdisk := dsk\<rparr>)
                 | None \<Rightarrow> (None, f\<lparr>fdisk := dsk,
                     fdah := (if deleteAtHeight o' > 0 then AList.update key (deleteAtHeight o') (fdah f) else fdah f)\<rparr>)))"

definition fileSetFromReader ::
    "(nat \<Rightarrow> fault option) \<Rightarrow> string \<Rightarrow> string + bytes \<Rightarrow> BlobOption list \<Rightarrow> FileBlobStore \<Rightarrow> blobErr option \<times> FileBlobStore" where
  "fileSetFromReader flt key r opts f = (case r of
      Inl e \<Rightarrow> (Some (ErrBlobIO e), f)
    | Inr data \<Rightarrow> fileSet flt key data opts f)"

definition fileGet :: "fault option \<Rightarrow> string \<Rightarrow> FileBlobStore \<Rightarrow> blobErr + bytes" where
  "fileGet flt key f = (case ReadFile flt (fpath f key) (fdisk f) of
      Inl NotExist \<Rightarrow> Inl (ErrBlobNotFound key)
    | Inl (OsErr e) \<Rightarrow> Inl (ErrBlobIO e)
    | Inr d \<Rightarrow> Inr d)"

definition fileDel :: "fault option \<Rightarrow> string \<Rightarrow> FileBlobStore \<Rightarrow> blobErr option \<times> FileBlobStore" where
  "fileDel flt key f =
     (let f = f\<lparr>fdah := AList.delete key (fdah f)\<rparr>;
          (err, dsk) = Remove flt (fpath f key) (fdisk f)
      in (case err of Some (OsErr e) \<Rightarrow> Some (ErrBlobIO e) | _ \<Rightarrow> None, f\<lparr>fdisk := dsk\<rparr>))"

text \<open>One visit of the pruning loop; its errors are dropped.\<close>

definition pruneKey :: "(string \<Rightarrow> fault option) \<Rightarrow> u64 \<Rightarrow> string \<Rightarrow> FileBlobStore \<Rightarrow> FileBlobStore" where
  "pruneKey flt height key f =
     (if reached height (map_of (fdah f) key)
      then f\<lparr>fdisk := snd (Remove (flt key) (fpath f key) (fdisk f)), fdah := AList.delete key (fdah f)\<rparr>
      else f)"

definition fileSetCurrentBlockHeight ::
    "(nat \<Rightarrow> string list \<Rightarrow> string list) \<Rightarrow> (string \<Rightarrow> fault option) \<Rightarrow> u64 \<Rightarrow> FileBlobStore \<Rightarrow> FileBlobStore" where
  "fileSetCurrentBlockHeight ord flt height f =
     fold (pruneKey flt height) (ord 0 (map fst (fdah f))) (f\<lparr>fheight := height\<rparr>)"

section \<open>Paths of well-behaved keys\<close>

text \<open>
  The keys of the two stores: a file name in the root, other than the name of the STUMP directory,
  or a file name in the STUMP directory.
\<close>

definition plain :: "string \<Rightarrow> bool" where
  "plain c \<longleftrightarrow> c \<noteq> '''' \<and> c \<noteq> ''.'' \<and> c \<noteq> ''..''"

definition okKey :: "string \<Rightarrow> bool" where
  "okKey k \<longleftrightarrow> list_all plain (splitSlash k)
     \<and> (case splitSlash k of [c] \<Rightarrow> c \<noteq> ''stump'' | [p, c] \<Rightarrow> p = ''stump'' | _ \<Rightarrow> False)"

lemma splitSlash_nonempty [simp]: "splitSlash s \<noteq> []"
  by (cases s) (auto split: list.splits)

lemma splitSlash_append: "splitSlash (a @ ''/'' @ b) = splitSlash a @ splitSlash b"
proof (induction a)
  case (Cons c a)
  then show ?case by (cases "splitSlash a") (auto)
qed simp

lemma joinSlash_splitSlash: "joinSlash (splitSlash s) = s"
proof (induction s)
  case (Cons c s)
  then show ?case by (cases "splitSlash s") (auto split: list.splits)
qed simp

lemma splitSlash_inj: "splitSlash a = splitSlash b \<longleftrightarrow> a = b"
  by (metis joinSlash_splitSlash)

lemma splitSlash_plain: "CHR ''/'' \<notin> set s \<Longrightarrow> splitSlash s = [s]"
  by (induction s) auto

lemma foldl_cleanStep_plain: "list_all plain cs \<Longrightarrow> foldl (cleanStep r) acc cs = acc @ cs"
  by (induction cs arbitrary: acc) (auto simp: cleanStep_def plain_def)

lemma okKey_nonempty [simp]: "okKey k \<Longrightarrow> k \<noteq> ''''"
  by (auto simp: okKey_def plain_def)

lemma isRooted_append: "d \<noteq> '''' \<Longrightarrow> isRooted (d @ s) = isRooted d"
  by (cases d) (auto simp: isRooted_def)

lemma Join_okKey:
  assumes "d \<noteq> ''''" and "okKey k"
  shows "Join d k = (fst (Clean d), snd (Clean d) @ splitSlash k)"
  using assms splitSlash_append [of d k] isRooted_append [of d "''/'' @ k"]
  by (simp add: Join_def Clean_def okKey_def foldl_cleanStep_plain)

text \<open>The directory of a store is never mistaken for the STUMP directory inside it.\<close>

lemma splitSlash_no_slash: "\<forall>c \<in> set (splitSlash s). CHR ''/'' \<notin> set c"
proof (induction s)
  case (Cons a s)
  then show ?case by (cases "splitSlash s") auto
qed simp

lemma set_foldl_cleanStep: "set (foldl (cleanStep r) acc cs) \<subseteq> set acc \<union> set cs"
proof (induction cs arbitrary: acc)
  case (Cons c cs)
  have "set (cleanStep r acc c) \<subseteq> set acc \<union> {c}"
    by (auto simp: cleanStep_def dest: in_set_butlastD)
  then show ?case using Cons [of "cleanStep r acc c"] by auto
qed simp

lemma Clean_no_slash: "\<forall>c \<in> set (snd (Clean s)). CHR ''/'' \<notin> set c"
  using set_foldl_cleanStep [of "isRooted s" "[]" "splitSlash s"] splitSlash_no_slash [of s]
  by (auto simp: Clean_def)

lemma splitSlash_joinSlash:
  "cs \<noteq> [] \<Longrightarrow> \<forall>c \<in> set cs. CHR ''/'' \<notin> set c \<Longrightarrow> splitSlash (joinSlash cs) = cs"
proof (induction cs)
  case (Cons c cs)
  then show ?case using splitSlash_append [of c "joinSlash cs"] by (auto simp: splitSlash_plain)
qed simp

lemma clean_no_fix: "plain x \<Longrightarrow> foldl (cleanStep r) [] (cs @ [x]) \<noteq> cs"
proof (induction cs rule: length_induct)
  case (1 cs)
  show ?case
  proof
    assume eq: "foldl (cleanStep r) [] (cs @ [x]) = cs"
    then have cs: "cs = foldl (cleanStep r) [] cs @ [x]" using 1(2) by (simp add: cleanStep_def plain_def)
    define cs' where "cs' = foldl (cleanStep r) [] cs"
    have "cs = cs' @ [x]" using cs by (simp add: cs'_def)
    then have "foldl (cleanStep r) [] (cs' @ [x]) = cs'" by (simp add: cs'_def)
    with 1 \<open>cs = cs' @ [x]\<close> show False by auto
  qed
qed

lemma stump_dir_neq:
  "pathString (fst (Clean d), snd (Clean d) @ [''stump'']) \<noteq> d"
proof
  let ?r = "fst (Clean d)" and ?cs = "snd (Clean d)"
  assume eq: "pathString (?r, ?cs @ [''stump'']) = d"
  have "splitSlash (joinSlash (?cs @ [''stump''])) = ?cs @ [''stump'']"
    using Clean_no_slash [of d] by (intro splitSlash_joinSlash) auto
  then have "splitSlash d = (if ?r then [''''] else []) @ ?cs @ [''stump'']"
    by (subst eq [symmetric]) (simp add: pathString_def)
  moreover have "foldl (cleanStep ?r) [] (splitSlash d) = ?cs" by (simp add: Clean_def)
  moreover have "foldl (cleanStep ?r) [] ([''''] @ xs) = foldl (cleanStep ?r) [] xs" for xs
    by (simp add: cleanStep_def)
  ultimately have "foldl (cleanStep ?r) [] (?cs @ [''stump'']) = ?cs"
    by (simp split: if_splits)
  then show False using clean_no_fix [of "''stump''" ?r ?cs] by (simp add: plain_def)
qed

section \<open>The file store meets the contract\<close>

definition root :: "FileBlobStore \<Rightarrow> fpath" where
  "root f = Clean (fdir f)"

definition below :: "FileBlobStore \<Rightarrow> string list \<Rightarrow> fpath" where
  "below f cs = (fst (root f), snd (root f) @ cs)"

definition rootOk :: "FileBlobStore \<Rightarrow> disk \<Rightarrow> bool" where
  "rootOk f dsk \<longleftrightarrow> fdir f \<noteq> '''' \<and> isDir dsk (root f)
     \<and> (\<forall>q \<in> set (ancestors (root f)). isDir dsk q \<and> \<not> isFile dsk q)
     \<and> \<not> isFile dsk (below f [''stump''])
     \<and> (\<forall>k. okKey k \<longrightarrow> map_of dsk (below f (splitSlash k)) \<noteq> Some Dir)"

definition fileInv :: "FileBlobStore \<Rightarrow> bool" where
  "fileInv f \<longleftrightarrow> rootOk f (fdisk f)
     \<and> distinct (map fst (fdah f))
     \<and> (\<forall>k h. map_of (fdah f) k = Some h \<longrightarrow> okKey k \<and> isFile (fdisk f) (below f (splitSlash k)))"

definition fileAbs :: "FileBlobStore \<Rightarrow> absBlobs" where
  "fileAbs f k =
     (if okKey k
      then (case map_of (fdisk f) (below f (splitSlash k)) of Some (File d) \<Rightarrow> Some (d, map_of (fdah f) k) | _ \<Rightarrow> None)
      else None)"

lemma fpath_below: "fdir f \<noteq> '''' \<Longrightarrow> okKey k \<Longrightarrow> fpath f k = below f (splitSlash k)"
  by (simp add: fpath_def Join_okKey below_def root_def)

lemma root_simps [simp]:
  "root (f\<lparr>fdisk := x\<rparr>) = root f" "root (f\<lparr>fdah := y\<rparr>) = root f" "root (f\<lparr>fheight := h\<rparr>) = root f"
  by (simp_all add: root_def)

lemma below_simps [simp]:
  "below (f\<lparr>fdisk := x\<rparr>) = below f" "below (f\<lparr>fdah := y\<rparr>) = below f" "below (f\<lparr>fheight := h\<rparr>) = below f"
  by (simp_all add: below_def fun_eq_iff)

lemma below_inj [simp]: "below f cs = below f cs' \<longleftrightarrow> cs = cs'"
  by (simp add: below_def)

lemma below_root: "cs \<noteq> [] \<Longrightarrow> below f cs \<noteq> root f"
  by (cases "root f") (auto simp: below_def)

lemma ancestors_length: "q \<in> set (ancestors p) \<Longrightarrow> length (snd q) \<le> length (snd p)"
  by (auto simp: ancestors_def)

lemma below_ancestor: "cs \<noteq> [] \<Longrightarrow> below f cs \<notin> set (ancestors (root f))"
  using ancestors_length [of "below f cs" "root f"] by (auto simp: below_def)

lemma ancestors_snoc: "ancestors (r, cs @ [x]) = ancestors (r, cs) @ [(r, cs @ [x])]"
  by (auto simp: ancestors_def)

lemma okKey_cases:
  assumes "okKey k"
  obtains (name) c where "splitSlash k = [c]" "plain c" "c \<noteq> ''stump''"
    | (stump) c where "splitSlash k = [''stump'', c]" "plain c"
  using assms by (auto simp: okKey_def split: list.splits)

lemma not_isDir_below:
  assumes "okKey k" and "map_of dsk (below f (splitSlash k)) \<noteq> Some Dir"
  shows "\<not> isDir dsk (below f (splitSlash k))"
  using assms(1) by (rule okKey_cases) (use assms(2) in \<open>auto simp: isDir_def below_def plain_def\<close>)

text \<open>Storing a file for a key, and making the STUMP directory, keep the layout.\<close>

lemma rootOk_file:
  assumes "rootOk f dsk" and "okKey k"
  shows "rootOk f (AList.update (below f (splitSlash k)) (File d) dsk)"
proof -
  have "below f (splitSlash k) \<noteq> root f" "below f (splitSlash k) \<notin> set (ancestors (root f))"
    by (simp_all add: below_root below_ancestor)
  moreover have "splitSlash k \<noteq> [''stump'']" using assms(2) by (auto elim: okKey_cases)
  ultimately show ?thesis using assms
    by (auto simp: rootOk_def isDir_def isFile_def update_conv' splitSlash_inj)
qed

lemma rootOk_mkdir:
  assumes "rootOk f dsk"
  shows "rootOk f (mkdirOne (below f [''stump'']) dsk)"
proof -
  have "below f [''stump''] \<noteq> root f" "below f [''stump''] \<notin> set (ancestors (root f))"
    by (simp_all add: below_root below_ancestor)
  moreover have "splitSlash k \<noteq> [''stump'']" if "okKey k" for k using that by (auto elim: okKey_cases)
  ultimately show ?thesis using assms
    by (auto simp: rootOk_def mkdirOne_def isDir_def isFile_def update_conv')
qed

lemma rootOk_delete:
  assumes "rootOk f dsk" and "okKey k"
  shows "rootOk f (AList.delete (below f (splitSlash k)) dsk)"
proof -
  have "below f (splitSlash k) \<noteq> root f" "below f (splitSlash k) \<notin> set (ancestors (root f))"
    by (simp_all add: below_root below_ancestor)
  then show ?thesis using assms
    by (auto simp: rootOk_def isDir_def isFile_def AList.delete_conv')
qed

lemma fold_mkdirOne_dirs: "\<forall>q \<in> set qs. isDir dsk q \<Longrightarrow> fold mkdirOne qs dsk = dsk"
  by (induction qs) (auto simp: mkdirOne_def)

lemma MkdirAll_root: "rootOk f dsk \<Longrightarrow> MkdirAll None (root f) dsk = (None, dsk)"
  by (auto simp: MkdirAll_def rootOk_def list_ex_iff fold_mkdirOne_dirs)

lemma MkdirAll_stump:
  assumes "rootOk f dsk"
  shows "MkdirAll None (below f [''stump'']) dsk = (None, mkdirOne (below f [''stump'']) dsk)"
proof -
  have "ancestors (below f [''stump'']) = ancestors (root f) @ [below f [''stump'']]"
    using ancestors_snoc [of "fst (root f)" "snd (root f)" "''stump''"] by (simp add: below_def)
  then show ?thesis using assms
    by (auto simp: MkdirAll_def rootOk_def list_ex_iff fold_mkdirOne_dirs)
qed

lemma mkdirOne_isDir: "isDir (mkdirOne q dsk) q"
  by (simp add: mkdirOne_def isDir_def update_conv')

text \<open>What a store of a key does on a disk that does not fail.\<close>

lemma parent_below:
  assumes "okKey k"
  shows "Dir_path (below f (splitSlash k)) = root f \<or> Dir_path (below f (splitSlash k)) = below f [''stump'']"
  using assms
proof (cases rule: okKey_cases)
  case (name c)
  then show ?thesis by (simp add: Dir_path_def below_def)
next
  case (stump c)
  then show ?thesis by (simp add: Dir_path_def below_def butlast_append)
qed

lemma fileSet_effect:
  assumes "rootOk f (fdisk f)" and "okKey k"
  obtains dsk where "rootOk f dsk" "\<forall>j. okKey j \<longrightarrow> map_of dsk (below f (splitSlash j)) = map_of (fdisk f) (below f (splitSlash j))"
    "fileSet (\<lambda>_. None) k d opts f = (None, f\<lparr>fdisk := AList.update (below f (splitSlash k)) (File d) dsk,
        fdah := (if deleteAtHeight (applyOptions opts) > 0 then AList.update k (deleteAtHeight (applyOptions opts)) (fdah f) else fdah f)\<rparr>)"
proof -
  let ?p = "below f (splitSlash k)" and ?s = "below f [''stump'']"
  define dsk where "dsk = (if Dir_path ?p = root f then fdisk f else mkdirOne ?s (fdisk f))"
  have path: "fpath f k = ?p" using assms by (simp add: fpath_below rootOk_def)
  have ok: "rootOk f dsk" using assms(1) rootOk_mkdir by (simp add: dsk_def)
  have "splitSlash j \<noteq> [''stump'']" if "okKey j" for j using that by (auto elim: okKey_cases)
  then have same: "\<forall>j. okKey j \<longrightarrow> map_of dsk (below f (splitSlash j)) = map_of (fdisk f) (below f (splitSlash j))"
    by (auto simp: dsk_def mkdirOne_def update_conv')
  have mk: "(if pathString (Dir_path ?p) \<noteq> '''' \<and> pathString (Dir_path ?p) \<noteq> fdir f
             then MkdirAll None (Dir_path ?p) (fdisk f) else (None, fdisk f)) = (None, dsk)"
  proof (cases "Dir_path ?p = root f")
    case True
    then show ?thesis using MkdirAll_root [OF assms(1)] by (simp add: dsk_def)
  next
    case False
    then have st: "Dir_path ?p = ?s" using parent_below [OF assms(2)] by blast
    have "pathString ?s \<noteq> fdir f" using stump_dir_neq [of "fdir f"] by (simp add: below_def root_def)
    moreover have "joinSlash (xs @ [''stump'']) \<noteq> ''''" for xs by (induction xs) auto
    then have "pathString ?s \<noteq> ''''" by (simp add: pathString_def below_def)
    moreover have "root f \<noteq> ?s" using below_root [of "[''stump'']" f] by simp
    ultimately show ?thesis using MkdirAll_stump [OF assms(1)] st by (simp add: dsk_def)
  qed
  have "isDir dsk (Dir_path ?p)"
    using parent_below [OF assms(2), of f] ok mkdirOne_isDir [of ?s "fdisk f"]
    by (auto simp: dsk_def rootOk_def)
  moreover have "\<not> isDir dsk ?p" using not_isDir_below [OF assms(2)] ok assms(2) by (simp add: rootOk_def)
  ultimately have "WriteFile None ?p d dsk = (None, AList.update ?p (File d) dsk)" by (simp add: WriteFile_def)
  then have "fileSet (\<lambda>_. None) k d opts f = (None, f\<lparr>fdisk := AList.update ?p (File d) dsk,
        fdah := (if deleteAtHeight (applyOptions opts) > 0 then AList.update k (deleteAtHeight (applyOptions opts)) (fdah f) else fdah f)\<rparr>)"
    using mk by (simp add: fileSet_def path Let_def)
  with ok same show thesis by (rule that)
qed

lemma rootOk_cong [simp]:
  "rootOk (f\<lparr>fdisk := x\<rparr>) dsk = rootOk f dsk" "rootOk (f\<lparr>fdah := y\<rparr>) dsk = rootOk f dsk"
  "rootOk (f\<lparr>fheight := h\<rparr>) dsk = rootOk f dsk"
  by (simp_all add: rootOk_def)

lemma fileDue:
  assumes "fileInv f"
  shows "dueOf (fileAbs f) k = map_of (fdah f) k"
proof (cases "map_of (fdah f) k")
  case None
  then show ?thesis by (auto simp: dueOf_def fileAbs_def split: option.splits fnode.splits)
next
  case (Some h)
  then have "okKey k" "isFile (fdisk f) (below f (splitSlash k))" using assms by (auto simp: fileInv_def)
  then show ?thesis using Some
    by (auto simp: dueOf_def fileAbs_def isFile_def split: option.splits fnode.splits)
qed

lemma fileSet_abs:
  assumes "fileInv f" and "okKey k" and "fileSet (\<lambda>_. None) k d opts f = (e, f')"
  shows "e = None \<and> fileInv f' \<and> fileAbs f' = aSet k d (deleteAtHeight (applyOptions opts)) (fileAbs f)"
proof -
  let ?h = "deleteAtHeight (applyOptions opts)"
  have ok: "rootOk f (fdisk f)" using assms(1) by (simp add: fileInv_def)
  obtain dsk where dsk: "rootOk f dsk"
    "\<forall>j. okKey j \<longrightarrow> map_of dsk (below f (splitSlash j)) = map_of (fdisk f) (below f (splitSlash j))"
    "fileSet (\<lambda>_. None) k d opts f = (None, f\<lparr>fdisk := AList.update (below f (splitSlash k)) (File d) dsk,
        fdah := (if ?h > 0 then AList.update k ?h (fdah f) else fdah f)\<rparr>)"
    using fileSet_effect [OF ok assms(2)] by blast
  define dah where "dah = (if ?h > 0 then AList.update k ?h (fdah f) else fdah f)"
  have f': "f' = f\<lparr>fdisk := AList.update (below f (splitSlash k)) (File d) dsk, fdah := dah\<rparr>" and e: "e = None"
    using dsk(3) assms(3) by (simp_all add: dah_def)
  have dah: "map_of dah j = (if j = k \<and> ?h > 0 then Some ?h else map_of (fdah f) j)" for j
    by (simp add: dah_def update_conv')
  have "distinct (map fst dah)" using assms(1) by (simp add: dah_def fileInv_def distinct_update)
  then have "fileInv f'"
    using assms(1,2) rootOk_file [OF dsk(1) assms(2)] dsk(2)
    by (auto simp: fileInv_def f' isFile_def update_conv' splitSlash_inj dah)
  moreover have "fileAbs f' j = aSet k d ?h (fileAbs f) j" for j
    using fileDue [OF assms(1), of k] dsk(2) assms(2)
    by (auto simp: fileAbs_def f' aSet_def update_conv' splitSlash_inj dah split: option.split fnode.split)
  ultimately show ?thesis using e by auto
qed

lemma ancestors_below:
  assumes "okKey k" and "q \<in> set (ancestors (below f (splitSlash k)))"
  shows "q \<in> set (ancestors (root f)) \<or> q = below f [''stump''] \<or> q = below f (splitSlash k)"
  using assms(1)
proof (cases rule: okKey_cases)
  case (name c)
  then have "ancestors (below f (splitSlash k)) = ancestors (root f) @ [below f (splitSlash k)]"
    using ancestors_snoc [of "fst (root f)" "snd (root f)" c] by (simp add: below_def)
  with assms(2) show ?thesis by auto
next
  case (stump c)
  then have "ancestors (below f (splitSlash k)) = ancestors (root f) @ [below f [''stump''], below f (splitSlash k)]"
    using ancestors_snoc [of "fst (root f)" "snd (root f)" "''stump''"]
      ancestors_snoc [of "fst (root f)" "snd (root f) @ [''stump'']" c] by (simp add: below_def)
  with assms(2) show ?thesis by auto
qed

lemma no_file_above:
  assumes "rootOk f dsk" and "okKey k" and "map_of dsk (below f (splitSlash k)) = None"
  shows "\<not> list_ex (isFile dsk) (ancestors (below f (splitSlash k)))"
proof -
  have "\<not> isFile dsk q" if "q \<in> set (ancestors (below f (splitSlash k)))" for q
    using ancestors_below [OF assms(2) that] assms(1,3) by (auto simp: rootOk_def isFile_def)
  then show ?thesis by (simp add: list_ex_iff)
qed

lemma Remove_eq:
  assumes "rootOk f dsk" and "okKey k"
  shows "Remove None (below f (splitSlash k)) dsk =
    (if map_of dsk (below f (splitSlash k)) = None then (Some NotExist, dsk)
     else (None, AList.delete (below f (splitSlash k)) dsk))"
proof -
  let ?p = "below f (splitSlash k)"
  have nodir: "map_of dsk ?p \<noteq> Some Dir" using assms by (simp add: rootOk_def)
  have "\<not> isDir dsk ?p" using not_isDir_below [OF assms(2) nodir] .
  then show ?thesis
    using nodir no_file_above [OF assms] by (auto simp: Remove_def split: option.splits fnode.splits)
qed

lemma Remove_effect:
  assumes "rootOk f dsk" and "okKey k"
  shows "map_of (snd (Remove None (below f (splitSlash k)) dsk)) q
           = (if q = below f (splitSlash k) then None else map_of dsk q)"
    and "rootOk f (snd (Remove None (below f (splitSlash k)) dsk))"
  using rootOk_delete [OF assms] assms(1) by (auto simp: Remove_eq [OF assms] AList.delete_conv')

lemma fileGet_abs:
  assumes "fileInv f" and "okKey k"
  shows "fileGet None k f = (case fileAbs f k of None \<Rightarrow> Inl (ErrBlobNotFound k) | Some (d, h) \<Rightarrow> Inr d)"
proof -
  have ok: "rootOk f (fdisk f)" using assms(1) by (simp add: fileInv_def)
  have nodir: "map_of (fdisk f) (below f (splitSlash k)) \<noteq> Some Dir" using ok assms(2) by (simp add: rootOk_def)
  have "fpath f k = below f (splitSlash k)" using ok assms(2) by (simp add: fpath_below rootOk_def)
  then show ?thesis
    using nodir not_isDir_below [OF assms(2) nodir] no_file_above [OF ok assms(2)] assms(2)
    by (auto simp: fileGet_def ReadFile_def fileAbs_def split: option.splits fnode.splits)
qed

text \<open>Deleting a key and pruning it have the same effect on the store.\<close>

definition dropKey :: "string \<Rightarrow> FileBlobStore \<Rightarrow> FileBlobStore" where
  "dropKey k f = f\<lparr>fdisk := snd (Remove None (fpath f k) (fdisk f)), fdah := AList.delete k (fdah f)\<rparr>"

lemma dropKey_abs:
  assumes "fileInv f" and "okKey k"
  shows "fileInv (dropKey k f) \<and> fileAbs (dropKey k f) = aDel k (fileAbs f)"
proof -
  let ?d = "snd (Remove None (below f (splitSlash k)) (fdisk f))"
  have ok: "rootOk f (fdisk f)" using assms(1) by (simp add: fileInv_def)
  have eq: "dropKey k f = f\<lparr>fdisk := ?d, fdah := AList.delete k (fdah f)\<rparr>"
    using ok assms(2) by (simp add: dropKey_def fpath_below rootOk_def)
  note rem = Remove_effect [OF ok assms(2)]
  have "fileInv (dropKey k f)"
    using assms(1) rem by (auto simp: eq fileInv_def isFile_def AList.delete_conv' distinct_delete splitSlash_inj split: if_splits)
  moreover have "fileAbs (dropKey k f) j = aDel k (fileAbs f) j" for j
    using assms(2) rem(1)
    by (auto simp: eq fileAbs_def aDel_def AList.delete_conv' splitSlash_inj split: option.split fnode.split)
  ultimately show ?thesis by auto
qed

lemma fileDel_abs:
  assumes "fileInv f" and "okKey k" and "fileDel None k f = (e, f')"
  shows "e = None \<and> fileInv f' \<and> fileAbs f' = aDel k (fileAbs f)"
proof -
  have ok: "rootOk f (fdisk f)" using assms(1) by (simp add: fileInv_def)
  have "fpath f k = below f (splitSlash k)" "fpath (f\<lparr>fdah := AList.delete k (fdah f)\<rparr>) k = below f (splitSlash k)"
    using ok assms(2) by (simp_all add: fpath_below rootOk_def)
  then have "fileDel None k f = (None, dropKey k f)"
    using Remove_eq [OF ok assms(2)] by (simp add: fileDel_def dropKey_def Let_def)
  then show ?thesis using dropKey_abs [OF assms(1,2)] assms(3) by simp
qed

section \<open>Pruning in any order\<close>

definition aPrune :: "u64 \<Rightarrow> string \<Rightarrow> absBlobs \<Rightarrow> absBlobs" where
  "aPrune h k A = (if reached h (dueOf A k) then aDel k A else A)"

lemma reached_None [simp]: "\<not> reached h None"
  by (simp add: reached_def)

lemma fold_aPrune:
  "fold (aPrune h) ks A = (\<lambda>j. if j \<in> set ks \<and> reached h (dueOf A j) then None else A j)"
proof (induction ks arbitrary: A)
  case (Cons k ks)
  have due: "dueOf (aPrune h k A) j = (if j = k \<and> reached h (dueOf A k) then None else dueOf A j)" for j
    by (simp add: aPrune_def aDel_def dueOf_def)
  have at: "aPrune h k A j = (if j = k \<and> reached h (dueOf A k) then None else A j)" for j
    by (simp add: aPrune_def aDel_def)
  show ?case
  proof
    fix j
    show "fold (aPrune h) (k # ks) A j = (if j \<in> set (k # ks) \<and> reached h (dueOf A j) then None else A j)"
      unfolding fold_Cons comp_def Cons [of "aPrune h k A"] due at by auto
  qed
qed simp

lemma pruneKey_abs:
  assumes "fileInv f"
  shows "fileInv (pruneKey (\<lambda>_. None) h k f) \<and> fileAbs (pruneKey (\<lambda>_. None) h k f) = aPrune h k (fileAbs f)"
proof (cases "reached h (map_of (fdah f) k)")
  case True
  then have "okKey k" using assms by (auto simp: fileInv_def reached_def split: option.splits)
  moreover have "pruneKey (\<lambda>_. None) h k f = dropKey k f" using True by (simp add: pruneKey_def dropKey_def)
  ultimately show ?thesis using dropKey_abs [OF assms, of k] True fileDue [OF assms, of k] by (simp add: aPrune_def)
next
  case False
  then show ?thesis using assms fileDue [OF assms, of k] by (simp add: pruneKey_def aPrune_def)
qed

lemma fold_pruneKey_abs:
  assumes "fileInv f"
  shows "fileInv (fold (pruneKey (\<lambda>_. None) h) ks f)
    \<and> fileAbs (fold (pruneKey (\<lambda>_. None) h) ks f) = fold (aPrune h) ks (fileAbs f)"
  using assms
proof (induction ks arbitrary: f)
  case (Cons k ks)
  then show ?case using pruneKey_abs [of f h k] by simp
qed simp

lemma fileHeight_abs:
  assumes "fileInv f" and "range_order ord"
  shows "fileInv (fileSetCurrentBlockHeight ord (\<lambda>_. None) h f)
    \<and> fileAbs (fileSetCurrentBlockHeight ord (\<lambda>_. None) h f) = aHeight h (fileAbs f)"
proof -
  have inv: "fileInv (f\<lparr>fheight := h\<rparr>)" and abs: "fileAbs (f\<lparr>fheight := h\<rparr>) = fileAbs f"
    using assms(1) by (auto simp: fileInv_def fileAbs_def fun_eq_iff split: option.split fnode.split)
  have "j \<in> fst ` set (fdah f)" if "reached h (dueOf (fileAbs f) j)" for j
    using that fileDue [OF assms(1), of j] by (metis map_of_eq_None_iff reached_None)
  then show ?thesis
    using fold_pruneKey_abs [OF inv] assms(2)
    by (auto simp: fileSetCurrentBlockHeight_def fold_aPrune aHeight_def abs fun_eq_iff)
qed

locale file_disk =
  fixes ord :: "nat \<Rightarrow> string list \<Rightarrow> string list"
  assumes order: "range_order ord"

sublocale file_disk \<subseteq> files: blob_store "fileSet (\<lambda>_. None)" "fileGet None" "fileDel None"
    "fileSetCurrentBlockHeight ord (\<lambda>_. None)" fileInv okKey fileAbs
  by unfold_locales (fact fileGet_abs, fact fileSet_abs, fact fileDel_abs, fact fileHeight_abs [OF _ order])

interpretation disk: file_disk "\<lambda>_ ks. ks"
  by unfold_locales simp

text \<open>The key of a STUMP names a file of the STUMP directory.\<close>

lemma hexDigit_neq_slash:
  assumes "n < 16"
  shows "hexDigit n \<noteq> CHR ''/''"
proof
  assume "hexDigit n = CHR ''/''"
  then have "of_char (hexDigit n) = (47 :: nat)" by simp
  moreover have "of_char (hexDigit n) = (if n < 10 then 48 + n else 87 + n)"
    using assms by (simp add: hexDigit_def)
  ultimately show False by (simp split: if_splits)
qed

lemma hexEncode_no_slash: "CHR ''/'' \<notin> set (hexEncode bs)"
proof (induction bs)
  case (Cons b bs)
  have "unat b < 2 ^ LENGTH(8)" by (rule unsigned_less)
  then have "unat b div 16 < 16" by (intro less_mult_imp_div_less) simp
  then show ?case using Cons hexDigit_neq_slash [of "unat b div 16"] hexDigit_neq_slash [of "unat b mod 16"]
    by (auto simp: hexEncode_def hexByte_def)
qed (simp add: hexEncode_def)

lemma length_hexEncode: "length (hexEncode bs) = 2 * length bs"
  by (induction bs) (simp_all add: hexEncode_def hexByte_def)

lemma okKey_stump: "okKey (stumpKeyPrefix @ StumpRefFor sha d)"
proof -
  have "length (StumpRefFor sha d) = 64" by (simp add: StumpRefFor_def length_hexEncode sumBytes_def)
  then have "plain (StumpRefFor sha d)" by (auto simp: plain_def)
  moreover have "splitSlash (''stump'' @ ''/'' @ StumpRefFor sha d) = [''stump'', StumpRefFor sha d]"
    using hexEncode_no_slash unfolding splitSlash_append by (simp add: splitSlash_plain StumpRefFor_def)
  ultimately show ?thesis by (simp add: okKey_def stumpKeyPrefix_def plain_def)
qed

sublocale file_disk \<subseteq> fileStump: stump_store "fileSet (\<lambda>_. None)" "fileGet None" "fileDel None"
    "fileSetCurrentBlockHeight ord (\<lambda>_. None)" fileInv okKey fileAbs sha cfg for sha cfg
  by unfold_locales (rule okKey_stump)

context file_disk
begin

lemma stump_lifetime_on_disk:
  assumes "fileInv f"
    and "Put (fileSet (\<lambda>_. None)) sha d h (NewStumpStore f (StumpDAHOffset cfg)) = (r, st)"
    and "0 < h" and "0 < StumpDAHOffset cfg" and "0 < h + StumpDAHOffset cfg"
    and "list_all (\<lambda>op. list_all (\<lambda>b. case opKey b of None \<Rightarrow> True | Some k \<Rightarrow> okKey k) (blobOps sha cfg op)) ops"
    and "list_all (sparesStump sha cfg d h) ops"
    and "h + StumpDAHOffset cfg \<le> h'"
  defines "run \<equiv> runOp (fileSet (\<lambda>_. None)) (fileDel None) (fileSetCurrentBlockHeight ord (\<lambda>_. None)) sha cfg"
  shows "r = Inr (StumpRefFor sha d)
    \<and> stumpGet (fileGet None) (StumpRefFor sha d) (NewStumpStore (fold run ops (stumpBlobs st)) off) = Inr d
    \<and> stumpGet (fileGet None) (StumpRefFor sha d) (NewStumpStore (run (NewHeight h') (fold run ops (stumpBlobs st))) off)
       = Inl (ErrStumpNotFound (StumpRefFor sha d))"
  unfolding run_def by (rule fileStump.stump_lifetime [OF assms(1-8)])

end

section \<open>Lifetime of STUMPs on disk\<close>

lemma isDir_mkdirOne: "isDir (mkdirOne p dsk) q \<longleftrightarrow> isDir dsk q \<or> q = p"
  by (auto simp: mkdirOne_def isDir_def update_conv')

lemma isDir_fold_mkdirOne: "isDir (fold mkdirOne qs dsk) q \<longleftrightarrow> isDir dsk q \<or> q \<in> set qs"
  by (induction qs arbitrary: dsk) (auto simp: isDir_mkdirOne)

lemma map_of_fold_mkdirOne:
  "map_of (fold mkdirOne qs dsk) q = (if q \<in> set qs \<and> \<not> isDir dsk q then Some Dir else map_of dsk q)"
proof (induction qs arbitrary: dsk)
  case (Cons p qs)
  then show ?case by (auto simp: isDir_mkdirOne) (auto simp: mkdirOne_def update_conv')
qed simp

lemma emptyDir_None: "emptyDir dsk p \<Longrightarrow> cs \<noteq> [] \<Longrightarrow> map_of dsk (fst p, snd p @ cs) = None"
  by (fastforce simp: emptyDir_def list_all_iff map_of_eq_None_iff)

text \<open>A store opened on a directory that is empty or not there yet satisfies the invariant.\<close>

lemma NewFileBlobStore_inv:
  assumes "NewFileBlobStore None dir dsk = Inr f" and "emptyDir dsk (Clean dir)"
  shows "fileInv f"
proof -
  have dir: "dir \<noteq> ''''" and files: "\<not> list_ex (isFile dsk) (ancestors (Clean dir))"
    and f: "f = \<lparr>fdir = dir, fdah = [], fheight = 0, fdisk = fold mkdirOne (ancestors (Clean dir)) dsk\<rparr>"
    using assms(1) by (auto simp: NewFileBlobStore_def MkdirAll_def split: if_splits)
  have root: "root f = Clean dir" by (simp add: root_def f)
  have below: "map_of (fdisk f) (below f cs) = None" if "cs \<noteq> []" for cs
    using emptyDir_None [OF assms(2) that] below_ancestor [OF that, of f]
    by (simp add: f map_of_fold_mkdirOne below_def root_def)
  have "isDir (fdisk f) (Clean dir)"
  proof (cases "snd (Clean dir)")
    case (Cons c cs)
    then have "Clean dir \<in> set (ancestors (Clean dir))"
      by (cases "Clean dir") (auto simp: ancestors_def intro!: image_eqI [of _ _ "length (snd (Clean dir))"])
    then show ?thesis by (simp add: f isDir_fold_mkdirOne)
  qed (simp add: isDir_def)
  moreover have "\<forall>q \<in> set (ancestors (Clean dir)). isDir (fdisk f) q \<and> \<not> isFile (fdisk f) q"
    using files by (auto simp: f isFile_def map_of_fold_mkdirOne isDir_fold_mkdirOne list_ex_iff)
  moreover have "\<not> isFile (fdisk f) (below f [''stump''])" using below by (simp add: isFile_def)
  moreover have "fdir f \<noteq> ''''" using dir by (simp add: f)
  ultimately have "rootOk f (fdisk f)" using below unfolding rootOk_def root by simp
  then show ?thesis by (simp add: fileInv_def f)
qed

text \<open>
  C34: On the file store, whatever the iteration order of its delete-at-height map, a STUMP stored for
  the block height \<open>h\<close> can be read back unchanged after any sequence of operations of the STUMP and the
  subtree store on the same directory whose heights stay below \<open>h\<close> plus the configured offset, and is
  reported as missing (not as a transient error) once a height at or above it is announced. Keys are
  file names other than the name of the STUMP directory; the disk does not fail.
\<close>

theorem file_stump_lifetime:
  assumes "range_order ord" and "fileInv f"
    and "Put (fileSet (\<lambda>_. None)) sha d h (NewStumpStore f (StumpDAHOffset cfg)) = (r, st)"
    and "0 < h" and "0 < StumpDAHOffset cfg" and "0 < h + StumpDAHOffset cfg"
    and "list_all (\<lambda>op. list_all (\<lambda>b. case opKey b of None \<Rightarrow> True | Some k \<Rightarrow> okKey k) (blobOps sha cfg op)) ops"
    and "list_all (sparesStump sha cfg d h) ops"
    and "h + StumpDAHOffset cfg \<le> h'"
  defines "run \<equiv> runOp (fileSet (\<lambda>_. None)) (fileDel None) (fileSetCurrentBlockHeight ord (\<lambda>_. None)) sha cfg"
  shows "r = Inr (StumpRefFor sha d)
    \<and> stumpGet (fileGet None) (StumpRefFor sha d) (NewStumpStore (fold run ops (stumpBlobs st)) off) = Inr d
    \<and> stumpGet (fileGet None) (StumpRefFor sha d) (NewStumpStore (run (NewHeight h') (fold run ops (stumpBlobs st))) off)
       = Inl (ErrStumpNotFound (StumpRefFor sha d))"
  unfolding run_def by (rule file_disk.stump_lifetime_on_disk [OF file_disk.intro [OF assms(1)] assms(2-9)])

theorem file_stump_lifetime_witness:
  "\<exists>f. NewFileBlobStore None ''data'' [] = Inr f
    \<and> stumpGet (fileGet None) (StumpRefFor lifeSha [1, 2]) (NewStumpStore
       (fold (runOp (fileSet (\<lambda>_. None)) (fileDel None) (fileSetCurrentBlockHeight (\<lambda>_. rev) (\<lambda>_. None)) lifeSha lifeCfg) lifeOps
         (stumpBlobs (snd (Put (fileSet (\<lambda>_. None)) lifeSha [1, 2] 100 (NewStumpStore f 6))))) 0) = Inr [1, 2]"
proof -
  obtain f where f: "NewFileBlobStore None ''data'' [] = Inr f"
    by (simp add: NewFileBlobStore_def MkdirAll_def list_ex_iff isFile_def)
  have inv: "fileInv f" using NewFileBlobStore_inv [OF f] by (simp add: emptyDir_def)
  obtain r st where put: "Put (fileSet (\<lambda>_. None)) lifeSha [1, 2] 100 (NewStumpStore f 6) = (r, st)" by fastforce
  have "list_all (sparesStump lifeSha lifeCfg [1, 2] 100) lifeOps"
    by (simp add: lifeOps_def lifeCfg_def subtreeId_def stumpKeyPrefix_def)
  moreover have "list_all (\<lambda>op. list_all (\<lambda>b. case opKey b of None \<Rightarrow> True | Some k \<Rightarrow> okKey k) (blobOps lifeSha lifeCfg op)) lifeOps"
    using okKey_stump by (simp add: lifeOps_def lifeCfg_def) (simp add: okKey_def plain_def)
  ultimately show ?thesis
    using file_stump_lifetime [of "\<lambda>_. rev" f lifeSha "[1, 2]" 100 lifeCfg r st lifeOps 106 0] put inv f
    by (simp add: lifeCfg_def)
qed

text \<open>
  The delete-at-heights live in memory only. A store opened again on the same directory keeps every
  blob for good, whatever heights are announced.
\<close>

lemma reopened_store_never_prunes:
  assumes "range_order ord" and "NewFileBlobStore None dir dsk = Inr f"
  shows "fdisk (fileSetCurrentBlockHeight ord flt h f) = fdisk f"
proof -
  have "fdah f = []" using assms(2) by (auto simp: NewFileBlobStore_def split: if_splits prod.splits option.splits)
  then show ?thesis using assms(1) by (simp add: fileSetCurrentBlockHeight_def)
qed

end
