(* ===== verification/Sql_Stores.thy ===== *)
theory Sql_Stores
  imports Stump_Store "HOL-Library.AList"
begin

text \<open>
  The SQL backend (internal/store/sql): the tables of the initial migration as lists of rows, every
  store operation as its transaction on them, and the TTL sweeper.

  Times are seconds; the clock of the database is the argument \<open>now\<close>. A transaction may fail: with
  \<open>RolledBack\<close> nothing happened, with \<open>CommitUnknown\<close> it was committed but the caller got an error. A
  query without \<open>ORDER BY\<close> gives its rows in any order; the argument \<open>ro\<close> permutes them.
\<close>

section \<open>Tables and transactions\<close>

type_synonym expiry = "int option"

record entryRow =
  er_block :: string
  er_url :: string
  er_index :: int
  er_txids :: "string list"
  er_stump :: bytes

record db =
  registrations :: "(string \<times> expiry) list"
  registration_urls :: "(string \<times> string) list"
  callback_dedup :: "(string \<times> expiry) list"
  callback_urls :: "string list"
  seen_counters :: "(string \<times> bool) list"
  seen_counter_subtrees :: "(string \<times> string) list"
  subtree_counters :: "(string \<times> int \<times> expiry) list"
  callback_accumulator :: "(string \<times> expiry) list"
  callback_accumulator_entries :: "entryRow list"

definition emptyDb :: db where
  "emptyDb = \<lparr>registrations = [], registration_urls = [], callback_dedup = [], callback_urls = [],
     seen_counters = [], seen_counter_subtrees = [], subtree_counters = [], callback_accumulator = [],
     callback_accumulator_entries = []\<rparr>"

datatype sqlFault = RolledBack string | CommitUnknown string

datatype sqlErr = ErrNoRows | SqlErr string

text \<open>A transaction that returns a value or gives up; giving up rolls back.\<close>

definition sqlTx :: "sqlFault option \<Rightarrow> ('d \<Rightarrow> (sqlErr + 'a) \<times> 'd) \<Rightarrow> 'd \<Rightarrow> (sqlErr + 'a) \<times> 'd" where
  "sqlTx flt body d = (case flt of
      Some (RolledBack e) \<Rightarrow> (Inl (SqlErr e), d)
    | Some (CommitUnknown e) \<Rightarrow> (case body d of (Inl e', d') \<Rightarrow> (Inl e', d) | (Inr r, d') \<Rightarrow> (Inl (SqlErr e), d'))
    | None \<Rightarrow> (case body d of (Inl e', d') \<Rightarrow> (Inl e', d) | (Inr r, d') \<Rightarrow> (Inr r, d')))"

text \<open>A statement outside a transaction that only reads.\<close>

definition sqlRead :: "string option \<Rightarrow> 'a \<Rightarrow> sqlErr + 'a" where
  "sqlRead flt r = (case flt of Some e \<Rightarrow> Inl (SqlErr e) | None \<Rightarrow> Inr r)"

text \<open>\<open>INSERT ... ON CONFLICT DO NOTHING\<close> into a table that is only a key.\<close>

definition insertNew :: "'a \<Rightarrow> 'a list \<Rightarrow> 'a list" where
  "insertNew x xs = (if x \<in> set xs then xs else xs @ [x])"

text \<open>The same for a key with further columns, which get their defaults.\<close>

definition insertDefault :: "'k \<Rightarrow> 'v \<Rightarrow> ('k \<times> 'v) list \<Rightarrow> ('k \<times> 'v) list" where
  "insertDefault k v al = (if map_of al k = None then al @ [(k, v)] else al)"

definition intervalSeconds :: "int \<Rightarrow> int \<Rightarrow> expiry" where
  "intervalSeconds now s = Some (now + s)"

section \<open>Registrations\<close>

definition regAdd :: "sqlFault option \<Rightarrow> string \<Rightarrow> string \<Rightarrow> db \<Rightarrow> (sqlErr + unit) \<times> db" where
  "regAdd flt txid callbackURL =
     sqlTx flt (\<lambda>d. (Inr (), d\<lparr>registrations := insertDefault txid None (registrations d),
                               registration_urls := insertNew (txid, callbackURL) (registration_urls d)\<rparr>))"

definition regGet :: "(string list \<Rightarrow> string list) \<Rightarrow> string option \<Rightarrow> string \<Rightarrow> db \<Rightarrow> sqlErr + string list" where
  "regGet orderBy flt txid d =
     sqlRead flt (orderBy (map snd (filter (\<lambda>(t, u). t = txid) (registration_urls d))))"

definition addRow :: "string \<times> string \<Rightarrow> (string \<times> string list) list \<Rightarrow> (string \<times> string list) list" where
  "addRow row result = (case row of (txid, url) \<Rightarrow>
     AList.update txid ((case map_of result txid of None \<Rightarrow> [] | Some us \<Rightarrow> us) @ [url]) result)"

definition regBatchGet ::
    "((string \<times> string) list \<Rightarrow> (string \<times> string) list) \<Rightarrow> string option \<Rightarrow> string list \<Rightarrow> db
     \<Rightarrow> sqlErr + (string \<times> string list) list" where
  "regBatchGet ro flt txids d =
     (if txids = [] then Inr []
      else sqlRead flt (fold addRow (ro (filter (\<lambda>(t, u). t \<in> set txids) (registration_urls d))) []))"

definition regUpdateTTL :: "int \<Rightarrow> sqlFault option \<Rightarrow> string \<Rightarrow> int \<Rightarrow> db \<Rightarrow> (sqlErr + unit) \<times> db" where
  "regUpdateTTL now flt txid ttlSec =
     sqlTx flt (\<lambda>d. (Inr (), d\<lparr>registrations :=
        map (\<lambda>(t, e). (t, if t = txid then intervalSeconds now ttlSec else e)) (registrations d)\<rparr>))"

definition regBatchUpdateTTL :: "int \<Rightarrow> sqlFault option \<Rightarrow> string list \<Rightarrow> int \<Rightarrow> db \<Rightarrow> (sqlErr + unit) \<times> db" where
  "regBatchUpdateTTL now flt txids ttlSec d =
     (if txids = [] then (Inr (), d)
      else sqlTx flt (\<lambda>d. (Inr (), d\<lparr>registrations :=
        map (\<lambda>(t, e). (t, if t \<in> set txids then intervalSeconds now ttlSec else e)) (registrations d)\<rparr>)) d)"

section \<open>Callback deduplication\<close>

definition dedupKey :: "(string \<Rightarrow> 256 word) \<Rightarrow> string \<Rightarrow> string \<Rightarrow> string \<Rightarrow> string" where
  "dedupKey sha256 txid callbackURL statusType =
     hexEncode (sumBytes (sha256 (txid @ '':'' @ callbackURL @ '':'' @ statusType)))"

definition live :: "int \<Rightarrow> expiry \<Rightarrow> bool" where
  "live now e = (case e of None \<Rightarrow> True | Some t \<Rightarrow> now < t)"

definition dedupExists ::
    "(string \<Rightarrow> 256 word) \<Rightarrow> int \<Rightarrow> string option \<Rightarrow> string \<Rightarrow> string \<Rightarrow> string \<Rightarrow> db \<Rightarrow> sqlErr + bool" where
  "dedupExists sha256 now flt txid callbackURL statusType d =
     sqlRead flt (list_ex (\<lambda>(k, e). k = dedupKey sha256 txid callbackURL statusType \<and> live now e) (callback_dedup d))"

definition dedupRecord ::
    "(string \<Rightarrow> 256 word) \<Rightarrow> int \<Rightarrow> sqlFault option \<Rightarrow> string \<Rightarrow> string \<Rightarrow> string \<Rightarrow> int \<Rightarrow> db \<Rightarrow> (sqlErr + unit) \<times> db" where
  "dedupRecord sha256 now flt txid callbackURL statusType ttlSec =
     sqlTx flt (\<lambda>d. (Inr (), d\<lparr>callback_dedup :=
        AList.update (dedupKey sha256 txid callbackURL statusType)
          (if ttlSec > 0 then intervalSeconds now ttlSec else None) (callback_dedup d)\<rparr>))"

section \<open>Callback URL registry\<close>

definition urlAdd :: "sqlFault option \<Rightarrow> string \<Rightarrow> db \<Rightarrow> (sqlErr + unit) \<times> db" where
  "urlAdd flt callbackURL =
     sqlTx flt (\<lambda>d. (Inr (), d\<lparr>callback_urls := insertNew callbackURL (callback_urls d)\<rparr>))"

definition urlGetAll :: "(string list \<Rightarrow> string list) \<Rightarrow> string option \<Rightarrow> db \<Rightarrow> sqlErr + string list" where
  "urlGetAll orderBy flt d = sqlRead flt (orderBy (callback_urls d))"

section \<open>Seen counter\<close>

record IncrementResult =
  NewCount :: nat
  ThresholdReached :: bool

text \<open>
  The transaction of a call of \<open>Increment\<close> that no other call for the txid overlaps. Calls that overlap, statement by statement,
  are in Sql_Seen.
\<close>

definition seenIncrement ::
    "int \<Rightarrow> sqlFault option \<Rightarrow> string \<Rightarrow> string \<Rightarrow> db \<Rightarrow> (sqlErr + IncrementResult) \<times> db" where
  "seenIncrement threshold flt txid subtreeID =
     sqlTx flt (\<lambda>d.
       let d = d\<lparr>seen_counters := insertDefault txid False (seen_counters d)\<rparr>;
           d = d\<lparr>seen_counter_subtrees := insertNew (txid, subtreeID) (seen_counter_subtrees d)\<rparr>;
           cnt = length (filter (\<lambda>(t, s). t = txid) (seen_counter_subtrees d))
       in case map_of (seen_counters d) txid of
            None \<Rightarrow> (Inl ErrNoRows, d)
          | Some fired \<Rightarrow>
              if \<not> fired \<and> int cnt \<ge> threshold
              then (Inr \<lparr>NewCount = cnt, ThresholdReached = True\<rparr>,
                    d\<lparr>seen_counters := AList.update txid True (seen_counters d)\<rparr>)
              else (Inr \<lparr>NewCount = cnt, ThresholdReached = False\<rparr>, d))"

section \<open>Subtree counter\<close>

definition counterInit :: "int \<Rightarrow> int \<Rightarrow> sqlFault option \<Rightarrow> string \<Rightarrow> int \<Rightarrow> db \<Rightarrow> (sqlErr + unit) \<times> db" where
  "counterInit now ttlSec flt blockHash cnt =
     sqlTx flt (\<lambda>d. (Inr (), d\<lparr>subtree_counters :=
        AList.update blockHash (cnt, intervalSeconds now ttlSec) (subtree_counters d)\<rparr>))"

definition counterDecrement :: "sqlFault option \<Rightarrow> string \<Rightarrow> db \<Rightarrow> (sqlErr + int) \<times> db" where
  "counterDecrement flt blockHash =
     sqlTx flt (\<lambda>d. case map_of (subtree_counters d) blockHash of
         None \<Rightarrow> (Inl ErrNoRows, d)
       | Some (remaining, e) \<Rightarrow>
           (Inr (remaining - 1),
            d\<lparr>subtree_counters := AList.update blockHash (remaining - 1, e) (subtree_counters d)\<rparr>))"

section \<open>Callback accumulator\<close>

record AccumulatedCallbackEntry =
  acc_TxIDs :: "string list"
  acc_SubtreeIndex :: int
  acc_StumpData :: bytes

definition accAppend ::
    "int \<Rightarrow> int \<Rightarrow> sqlFault option \<Rightarrow> string \<Rightarrow> string \<Rightarrow> string list \<Rightarrow> int \<Rightarrow> bytes \<Rightarrow> db \<Rightarrow> (sqlErr + unit) \<times> db" where
  "accAppend now ttlSec flt blockHash callbackURL txids subtreeIndex stumpData =
     sqlTx flt (\<lambda>d. (Inr (), d\<lparr>callback_accumulator :=
          AList.update blockHash (intervalSeconds now ttlSec) (callback_accumulator d),
        callback_accumulator_entries := callback_accumulator_entries d @
          [\<lparr>er_block = blockHash, er_url = callbackURL, er_index = subtreeIndex, er_txids = txids, er_stump = stumpData\<rparr>]\<rparr>))"

definition addEntry ::
    "entryRow \<Rightarrow> (string \<times> AccumulatedCallbackEntry list) list \<Rightarrow> (string \<times> AccumulatedCallbackEntry list) list" where
  "addEntry r result =
     AList.update (er_url r)
       ((case map_of result (er_url r) of None \<Rightarrow> [] | Some es \<Rightarrow> es) @
        [\<lparr>acc_TxIDs = er_txids r, acc_SubtreeIndex = er_index r, acc_StumpData = er_stump r\<rparr>]) result"

definition accReadAndDelete ::
    "(entryRow list \<Rightarrow> entryRow list) \<Rightarrow> sqlFault option \<Rightarrow> string \<Rightarrow> db
     \<Rightarrow> (sqlErr + (string \<times> AccumulatedCallbackEntry list) list option) \<times> db" where
  "accReadAndDelete ro flt blockHash =
     sqlTx flt (\<lambda>d.
       let result = fold addEntry (ro (filter (\<lambda>r. er_block r = blockHash) (callback_accumulator_entries d))) []
       in (Inr (if result = [] then None else Some result),
           d\<lparr>callback_accumulator_entries := filter (\<lambda>r. er_block r \<noteq> blockHash) (callback_accumulator_entries d),
             callback_accumulator := AList.delete blockHash (callback_accumulator d)\<rparr>))"

section \<open>TTL sweeper\<close>

text \<open>\<open>DELETE ... LIMIT n\<close>: at most \<open>n\<close> matching rows go; the first component counts them.\<close>

fun deleteLimit :: "('r \<Rightarrow> bool) \<Rightarrow> nat \<Rightarrow> 'r list \<Rightarrow> nat \<times> 'r list" where
  "deleteLimit p n [] = (0, [])"
| "deleteLimit p n (r # rs) =
     (if p r \<and> n > 0 then (let (k, rs') = deleteLimit p (n - 1) rs in (Suc k, rs'))
      else (let (k, rs') = deleteLimit p n rs in (k, r # rs')))"

definition sweepBatch :: nat where
  "sweepBatch = 1000"

definition expired :: "int \<Rightarrow> expiry \<Rightarrow> bool" where
  "expired now e = (case e of None \<Rightarrow> False | Some t \<Rightarrow> t < now)"

text \<open>
  The loop of \<open>sweepTable\<close> with \<open>i\<close> rounds left; \<open>flt i\<close> says whether the statement fails, which ends
  the sweep of the table.
\<close>

primrec sweepLoop :: "(nat \<Rightarrow> bool) \<Rightarrow> ('r \<Rightarrow> expiry) \<Rightarrow> int \<Rightarrow> nat \<Rightarrow> 'r list \<Rightarrow> 'r list" where
  "sweepLoop flt exp now 0 rows = rows"
| "sweepLoop flt exp now (Suc i) rows =
     (if flt i then rows
      else let (n, rows) = deleteLimit (\<lambda>r. expired now (exp r)) sweepBatch rows
           in if n < sweepBatch then rows else sweepLoop flt exp now i rows)"

definition sweepTable :: "(nat \<Rightarrow> bool) \<Rightarrow> ('r \<Rightarrow> expiry) \<Rightarrow> int \<Rightarrow> 'r list \<Rightarrow> 'r list" where
  "sweepTable flt exp now rows = sweepLoop flt exp now 10 rows"

text \<open>The tables of \<open>ttlTables\<close> in turn; \<open>flt t\<close> are the faults while table number \<open>t\<close> is swept.\<close>

definition sweepOnce :: "(nat \<Rightarrow> nat \<Rightarrow> bool) \<Rightarrow> int \<Rightarrow> db \<Rightarrow> db" where
  "sweepOnce flt now d =
     (let d = d\<lparr>registrations := sweepTable (flt 0) snd now (registrations d)\<rparr>;
          d = d\<lparr>callback_dedup := sweepTable (flt 1) snd now (callback_dedup d)\<rparr>;
          d = d\<lparr>subtree_counters := sweepTable (flt 2) (snd \<circ> snd) now (subtree_counters d)\<rparr>
      in d\<lparr>callback_accumulator := sweepTable (flt 3) snd now (callback_accumulator d)\<rparr>)"

section \<open>The contract of a registration store\<close>

locale registration_store =
  fixes add :: "string \<Rightarrow> string \<Rightarrow> 's \<Rightarrow> ('e + unit) \<times> 's"
    and batchGet :: "string list \<Rightarrow> 's \<Rightarrow> 'e + (string \<times> string list) list"
    and inv :: "'s \<Rightarrow> bool"
    and urlsOf :: "'s \<Rightarrow> string \<Rightarrow> string set"
  assumes batch: "inv s \<Longrightarrow> batchGet txids s = Inr regs \<Longrightarrow> distinct (map fst regs)
        \<and> (\<forall>t. map_of regs t = None \<longleftrightarrow> t \<notin> set txids \<or> urlsOf s t = {})
        \<and> (\<forall>t us. map_of regs t = Some us \<longrightarrow> set us = urlsOf s t \<and> distinct us)"
    and add: "inv s \<Longrightarrow> add t u s = (Inr (), s') \<Longrightarrow> inv s' \<and> urlsOf s' = (urlsOf s)(t := insert u (urlsOf s t))"
begin

lemma found:
  assumes "inv s" and "batchGet txids s = Inr regs" and "t \<in> set txids"
  shows "{u. \<exists>us. (t, us) \<in> set regs \<and> u \<in> set us} = urlsOf s t"
proof (cases "map_of regs t")
  case None
  then have "t \<notin> fst ` set regs" by (simp add: map_of_eq_None_iff)
  then have "{u. \<exists>us. (t, us) \<in> set regs \<and> u \<in> set us} = {}" by force
  moreover have "urlsOf s t = {}" using batch [OF assms(1,2)] None assms(3) by blast
  ultimately show ?thesis by simp
next
  case (Some us)
  have d: "distinct (map fst regs)" using batch [OF assms(1,2)] by blast
  have "set us = urlsOf s t" using batch [OF assms(1,2)] Some by blast
  moreover have "(t, vs) \<in> set regs \<longleftrightarrow> vs = us" for vs
    using map_of_eq_Some_iff [OF d, of t vs] Some by auto
  ultimately show ?thesis by auto
qed

lemma asked_only:
  assumes "inv s" and "batchGet txids s = Inr regs" and "(t, us) \<in> set regs"
  shows "t \<in> set txids" and "us \<noteq> []" and "set us = urlsOf s t"
proof -
  note b = batch [OF assms(1,2)]
  have m: "map_of regs t = Some us" using b assms(3) by (simp add: map_of_is_SomeI)
  then show "t \<in> set txids" "set us = urlsOf s t" using b by (metis option.distinct(1))+
  moreover have "urlsOf s t \<noteq> {}" using b m by (metis option.distinct(1))
  ultimately show "us \<noteq> []" by auto
qed

lemma added_urls:
  assumes "inv s" and "add t u s = (Inr (), s')"
  shows "inv s'" and "urlsOf s' x = (if x = t then insert u (urlsOf s x) else urlsOf s x)"
  using add [OF assms] by auto

end

definition urlsIn :: "db \<Rightarrow> string \<Rightarrow> string set" where
  "urlsIn d t = {u. (t, u) \<in> set (registration_urls d)}"

definition regInv :: "db \<Rightarrow> bool" where
  "regInv d \<longleftrightarrow> distinct (registration_urls d)"

text \<open>Grouping the rows of a query by txid.\<close>

lemma addRow_map:
  "map_of (addRow (t, u) m) k = (if k = t then Some ((case map_of m t of None \<Rightarrow> [] | Some us \<Rightarrow> us) @ [u]) else map_of m k)"
  by (simp add: addRow_def update_conv')

lemma fold_addRow:
  "map_of (fold addRow rows m) k =
     (case map snd (filter (\<lambda>r. fst r = k) rows) of [] \<Rightarrow> map_of m k
      | us \<Rightarrow> Some ((case map_of m k of None \<Rightarrow> [] | Some vs \<Rightarrow> vs) @ us))"
proof (induction rows arbitrary: m)
  case (Cons r rows)
  obtain t u where r: "r = (t, u)" by (cases r)
  have "map_of (fold addRow (r # rows) m) k = map_of (fold addRow rows (addRow (t, u) m)) k" by (simp add: r)
  then show ?case
    using Cons [of "addRow (t, u) m"] by (auto simp: addRow_map r split: list.splits option.splits)
qed simp

lemma fold_addRow_distinct: "distinct (map fst m) \<Longrightarrow> distinct (map fst (fold addRow rows m))"
  by (induction rows arbitrary: m) (auto simp: addRow_def distinct_update split: prod.splits)

text \<open>The order in which a query gives its rows.\<close>

definition row_order :: "('r list \<Rightarrow> 'r list) \<Rightarrow> bool" where
  "row_order ro \<longleftrightarrow> (\<forall>rows. mset (ro rows) = mset rows)"

lemma row_orderD:
  assumes "row_order ro"
  shows "set (ro rows) = set rows" and "distinct (ro rows) = distinct rows" and "mset (ro rows) = mset rows"
  using assms by (metis row_order_def mset_eq_setD, metis row_order_def mset_eq_imp_distinct_iff, simp add: row_order_def)

lemma fold_addRow_None:
  "map_of (fold addRow rows []) k = None \<longleftrightarrow> k \<notin> fst ` set rows"
proof -
  have "filter (\<lambda>r. fst r = k) rows = [] \<longleftrightarrow> k \<notin> fst ` set rows" by (auto simp: filter_empty_conv)
  then show ?thesis by (cases "filter (\<lambda>r. fst r = k) rows") (simp_all add: fold_addRow)
qed

lemma fold_addRow_Some:
  "map_of (fold addRow rows []) k = Some us \<Longrightarrow> us = map snd (filter (\<lambda>r. fst r = k) rows)"
  by (simp add: fold_addRow split: list.splits)

locale sql_rows =
  fixes ro :: "(string \<times> string) list \<Rightarrow> (string \<times> string) list"
  assumes rows: "row_order ro"

sublocale sql_rows \<subseteq> registration_store "regAdd flt" "regBatchGet ro rflt" regInv urlsIn for flt rflt
proof unfold_locales
  fix s txids regs
  assume inv: "regInv s" and get: "regBatchGet ro rflt txids s = Inr regs"
  show "distinct (map fst regs)
        \<and> (\<forall>t. map_of regs t = None \<longleftrightarrow> t \<notin> set txids \<or> urlsIn s t = {})
        \<and> (\<forall>t us. map_of regs t = Some us \<longrightarrow> set us = urlsIn s t \<and> distinct us)"
  proof (cases "txids = []")
    case True
    then show ?thesis using get by (simp add: regBatchGet_def)
  next
    case False
    define q where "q = ro (filter (\<lambda>(t, u). t \<in> set txids) (registration_urls s))"
    have regs: "regs = fold addRow q []"
      using get False by (simp add: regBatchGet_def sqlRead_def q_def split: option.splits)
    have q: "set q = {(t, u). t \<in> set txids \<and> (t, u) \<in> set (registration_urls s)}" "distinct q"
      using row_orderD [OF rows] inv by (auto simp: q_def regInv_def)
    have "map_of regs t = None \<longleftrightarrow> t \<notin> set txids \<or> urlsIn s t = {}" for t
      unfolding regs fold_addRow_None by (force simp: q(1) urlsIn_def)
    moreover have "set us = urlsIn s t \<and> distinct us" if "map_of regs t = Some us" for t us
    proof -
      have us: "us = map snd (filter (\<lambda>r. fst r = t) q)" using that fold_addRow_Some by (simp add: regs)
      have "t \<in> set txids" using that calculation [of t] by (metis option.distinct(1))
      then have "set us = urlsIn s t" by (force simp: us q(1) urlsIn_def)
      moreover have "inj_on snd (set (filter (\<lambda>r. fst r = t) q))" by (auto simp: inj_on_def)
      ultimately show ?thesis using q(2) by (simp add: us distinct_map)
    qed
    moreover have "distinct (map fst regs)" by (simp add: regs fold_addRow_distinct)
    ultimately show ?thesis by blast
  qed
next
  fix s t u s'
  assume inv: "regInv s" and add: "regAdd flt t u s = (Inr (), s')"
  then have "registration_urls s' = insertNew (t, u) (registration_urls s)"
    by (auto simp: regAdd_def sqlTx_def split: option.splits sqlFault.splits)
  then show "regInv s' \<and> urlsIn s' = (urlsIn s)(t := insert u (urlsIn s t))"
    using inv by (auto simp: regInv_def urlsIn_def insertNew_def fun_eq_iff)
qed

interpretation rows: sql_rows id
  by unfold_locales (simp add: row_order_def)

context sql_rows
begin

lemma added_pairs:
  assumes "regInv d"
  shows "regInv (fold (\<lambda>(t, u) d. snd (regAdd None t u d)) ps d)
    \<and> urlsIn (fold (\<lambda>(t, u) d. snd (regAdd None t u d)) ps d) t = urlsIn d t \<union> {u. (t, u) \<in> set ps}"
  using assms
proof (induction ps arbitrary: d)
  case (Cons p ps)
  obtain t' u' where p: "p = (t', u')" by (cases p)
  obtain d' where d': "regAdd None t' u' d = (Inr (), d')" by (simp add: regAdd_def sqlTx_def)
  show ?case using Cons.IH [of d'] added_urls [OF Cons.prems d'] by (auto simp: p d')
qed simp

lemma batch_after_adds:
  assumes "regBatchGet ro None txids (fold (\<lambda>(t, u) d. snd (regAdd None t u d)) ps emptyDb) = Inr regs"
  shows "distinct (map fst regs)
    \<and> (\<forall>t us. (t, us) \<in> set regs \<longrightarrow> t \<in> set txids \<and> us \<noteq> [] \<and> distinct us)
    \<and> (\<forall>t \<in> set txids. {u. \<exists>us. (t, us) \<in> set regs \<and> u \<in> set us} = {u. (t, u) \<in> set ps})"
proof -
  let ?d = "fold (\<lambda>(t, u) d. snd (regAdd None t u d)) ps emptyDb"
  have inv: "regInv ?d" and urls: "urlsIn ?d t = {u. (t, u) \<in> set ps}" for t
    using added_pairs [of emptyDb ps] by (auto simp: regInv_def urlsIn_def emptyDb_def)
  have d: "distinct (map fst regs)" using batch [OF inv assms] by blast
  have "distinct us" if "(t, us) \<in> set regs" for t us
    using batch [OF inv assms] map_of_is_SomeI [OF d that] by blast
  then show ?thesis using d asked_only(1,2) [OF inv assms] found [OF inv assms] urls by blast
qed

end

text \<open>
  A batch lookup of the SQL registration store gives exactly what was registered. After any
  sequence of \<open>Add\<close> calls, in whatever order the database returns the rows, the result has an entry
  for a txid only if it was asked for and has a URL; the URLs of a txid are exactly those added for it,
  each once, however often the pair was added.
\<close>

theorem regBatchGet_exact:
  assumes "row_order ro"
  shows "\<exists>regs. regBatchGet ro None txids (fold (\<lambda>(t, u) d. snd (regAdd None t u d)) ps emptyDb) = Inr regs
    \<and> distinct (map fst regs)
    \<and> (\<forall>t us. (t, us) \<in> set regs \<longrightarrow> t \<in> set txids \<and> us \<noteq> [] \<and> distinct us)
    \<and> (\<forall>t \<in> set txids. {u. \<exists>us. (t, us) \<in> set regs \<and> u \<in> set us} = {u. (t, u) \<in> set ps})"
proof -
  obtain regs where "regBatchGet ro None txids (fold (\<lambda>(t, u) d. snd (regAdd None t u d)) ps emptyDb) = Inr regs"
    by (cases "txids = []") (auto simp: regBatchGet_def sqlRead_def)
  then show ?thesis using sql_rows.batch_after_adds [OF sql_rows.intro [OF assms]] by blast
qed

theorem regBatchGet_exact_witness:
  "\<exists>regs. regBatchGet rev None [''a'', ''b''] (fold (\<lambda>(t, u) d. snd (regAdd None t u d))
       [(''a'', ''x''), (''c'', ''y''), (''a'', ''x'')] emptyDb) = Inr regs
    \<and> {u. \<exists>us. (''a'', us) \<in> set regs \<and> u \<in> set us} = {''x''}
    \<and> {u. \<exists>us. (''b'', us) \<in> set regs \<and> u \<in> set us} = {}"
proof -
  have "row_order (rev :: (string \<times> string) list \<Rightarrow> _)" by (simp add: row_order_def)
  from regBatchGet_exact [OF this, of "[''a'', ''b'']" "[(''a'', ''x''), (''c'', ''y''), (''a'', ''x'')]"]
  show ?thesis by auto
qed

text \<open>
  The time to live of a registration has no effect on lookups: \<open>BatchGet\<close> reads the URL table, which
  has no expiry and is not swept.
\<close>

lemma registration_ttl_ineffective:
  "regBatchGet ro rflt txids (sweepOnce flt now' (snd (regBatchUpdateTTL now sflt ts ttl d))) = regBatchGet ro rflt txids d"
  by (auto simp: regBatchGet_def sweepOnce_def regBatchUpdateTTL_def sqlTx_def split: option.splits sqlFault.splits)

section \<open>The sweeper\<close>

lemma deleteLimit_spec:
  "case deleteLimit p n rows of (k, rows') \<Rightarrow>
     k = min n (length (filter p rows)) \<and> filter (\<lambda>r. \<not> p r) rows' = filter (\<lambda>r. \<not> p r) rows
     \<and> length (filter p rows') = length (filter p rows) - k"
proof (induction rows arbitrary: n)
  case (Cons r rows)
  show ?case using Cons [of n] Cons [of "n - 1"] by (cases n) (auto split: prod.splits)
qed simp

lemma sweepLoop_spec:
  assumes "\<And>i. \<not> flt i"
  shows "filter (\<lambda>r. \<not> expired now (exp r)) (sweepLoop flt exp now m rows) = filter (\<lambda>r. \<not> expired now (exp r)) rows
    \<and> length (filter (\<lambda>r. expired now (exp r)) (sweepLoop flt exp now m rows))
        = length (filter (\<lambda>r. expired now (exp r)) rows) - m * sweepBatch"
proof (induction m arbitrary: rows)
  case (Suc m)
  obtain k rows' where del: "deleteLimit (\<lambda>r. expired now (exp r)) sweepBatch rows = (k, rows')" by fastforce
  note spec = deleteLimit_spec [where p = "\<lambda>r. expired now (exp r)" and n = sweepBatch and rows = rows, unfolded del, simplified]
  show ?case using spec Suc [of rows'] assms by (auto simp: del Let_def)
qed simp

lemma sweepLoop_keeps:
  "filter (\<lambda>r. \<not> expired now (exp r)) (sweepLoop flt exp now m rows) = filter (\<lambda>r. \<not> expired now (exp r)) rows"
proof (induction m arbitrary: rows)
  case (Suc m)
  obtain k rows' where del: "deleteLimit (\<lambda>r. expired now (exp r)) sweepBatch rows = (k, rows')" by fastforce
  note spec = deleteLimit_spec [where p = "\<lambda>r. expired now (exp r)" and n = sweepBatch and rows = rows, unfolded del, simplified]
  show ?case using spec Suc [of rows'] by (auto simp: del Let_def)
qed simp

text \<open>
  The sweeper is safe and makes progress. Whatever statements fail, sweeping a table keeps every
  row that has not expired, in order; and when no statement fails, one pass removes all expired rows,
  or ten thousand of them if there are more.
\<close>

theorem sweepTable_exact:
  "filter (\<lambda>r. \<not> expired now (exp r)) (sweepTable flt exp now rows) = filter (\<lambda>r. \<not> expired now (exp r)) rows
   \<and> length (filter (\<lambda>r. expired now (exp r)) (sweepTable (\<lambda>_. False) exp now rows))
       = length (filter (\<lambda>r. expired now (exp r)) rows) - 10000"
proof -
  have "length (filter (\<lambda>r. expired now (exp r)) (sweepLoop (\<lambda>_. False) exp now 10 rows))
       = length (filter (\<lambda>r. expired now (exp r)) rows) - 10 * sweepBatch"
    using sweepLoop_spec [of "\<lambda>_. False" now exp 10 rows] by blast
  then show ?thesis by (simp add: sweepTable_def sweepLoop_keeps sweepBatch_def)
qed

section \<open>Deduplication window\<close>

lemma sweep_dedup_live:
  assumes "t \<le> now'"
  shows "list_ex (\<lambda>(k, e). k = key \<and> live now' e) (sweepTable flt snd t rows) = list_ex (\<lambda>(k, e). k = key \<and> live now' e) rows"
proof -
  have "live now' e \<longrightarrow> \<not> expired t e" for e using assms by (auto simp: live_def expired_def split: option.splits)
  then have ex: "list_ex (\<lambda>(k, e). k = key \<and> live now' e) xs
      = list_ex (\<lambda>(k, e). k = key \<and> live now' e) (filter (\<lambda>r. \<not> expired t (snd r)) xs)" for xs
    by (auto simp: list_ex_iff)
  show ?thesis using ex [of rows] ex [of "sweepTable flt snd t rows"] by (simp add: sweepTable_def sweepLoop_keeps)
qed

lemma sweeps_dedup_live:
  assumes "\<forall>t \<in> set ts. t \<le> now'"
  shows "list_ex (\<lambda>(k, e). k = key \<and> live now' e) (callback_dedup (fold (sweepOnce flt) ts d))
    = list_ex (\<lambda>(k, e). k = key \<and> live now' e) (callback_dedup d)"
  using assms
proof (induction ts arbitrary: d)
  case (Cons t ts)
  have "callback_dedup (sweepOnce flt t d) = sweepTable (flt 1) snd t (callback_dedup d)"
    by (simp add: sweepOnce_def Let_def)
  then show ?case using Cons sweep_dedup_live [of t now' key "flt 1" "callback_dedup d"] by simp
qed simp

lemma list_ex_update:
  assumes "distinct (map fst al)"
  shows "list_ex (\<lambda>(k, e). k = key \<and> P e) (AList.update j v al)
    = (if key = j then P v else list_ex (\<lambda>(k, e). k = key \<and> P e) al)"
proof -
  have ex: "list_ex (\<lambda>(k, e). k = key \<and> P e) xs \<longleftrightarrow> (\<exists>e. map_of xs key = Some e \<and> P e)"
    if "distinct (map fst xs)" for xs using that by (auto simp: list_ex_iff)
  show ?thesis using ex [OF assms] ex [OF distinct_update [OF assms]] by (auto simp: update_conv')
qed

text \<open>
  A recorded delivery suppresses its duplicates for exactly the given time. After \<open>Record\<close> at time
  \<open>t\<close> with a time to live, \<open>Exists\<close> answers yes for the same txid, URL and status until \<open>t + ttl\<close> and no
  afterwards, however often the sweeper runs in between; and the answer for a triple with another
  key does not change.
\<close>

theorem dedup_window:
  assumes "distinct (map fst (callback_dedup d))" and "0 < ttl" and "\<forall>\<tau> \<in> set sweeps. \<tau> \<le> now'"
  shows "dedupExists sha now' None txid' url' st' (fold (sweepOnce flt) sweeps (snd (dedupRecord sha t None txid url st ttl d)))
    = (if dedupKey sha txid' url' st' = dedupKey sha txid url st then Inr (now' < t + ttl)
       else dedupExists sha now' None txid' url' st' d)"
  using sweeps_dedup_live [OF assms(3)] list_ex_update [OF assms(1)] assms(2)
  by (simp add: dedupExists_def sqlRead_def dedupRecord_def sqlTx_def intervalSeconds_def live_def)

theorem dedup_window_witness:
  "dedupExists (\<lambda>s. of_nat (length s)) 9 None ''t'' ''u'' ''MINED''
     (fold (sweepOnce (\<lambda>_ _. False)) [3, 9] (snd (dedupRecord (\<lambda>s. of_nat (length s)) 0 None ''t'' ''u'' ''MINED'' 10 emptyDb))) = Inr True"
  using dedup_window [of emptyDb 10 "[3, 9]" 9 "\<lambda>s. of_nat (length s)" "''t''" "''u''" "''MINED''" "\<lambda>_ _. False" 0 "''t''" "''u''" "''MINED''"]
  by (simp add: emptyDb_def)

section \<open>Subtree counter\<close>

text \<open>The answers to a sequence of decrements, each of the counter of some block.\<close>

primrec decs :: "(string \<Rightarrow> 's \<Rightarrow> ('e + int) \<times> 's) \<Rightarrow> string list \<Rightarrow> 's \<Rightarrow> ('e + int) list" where
  "decs decrement [] s = []"
| "decs decrement (h # hs) s = fst (decrement h s) # decs decrement hs (snd (decrement h s))"

text \<open>The contract on which the emission of \<open>BLOCK_PROCESSED\<close> rests.\<close>

locale subtree_counter =
  fixes init :: "string \<Rightarrow> int \<Rightarrow> 's \<Rightarrow> ('e + unit) \<times> 's"
    and decrement :: "string \<Rightarrow> 's \<Rightarrow> ('e + int) \<times> 's"
    and remaining :: "'s \<Rightarrow> string \<Rightarrow> int option"
  assumes init: "init h n s = (Inr (), s') \<Longrightarrow> remaining s' = (remaining s)(h \<mapsto> n)"
    and decrement: "remaining s h = Some n \<Longrightarrow>
        \<exists>s'. decrement h s = (Inr (n - 1), s') \<and> remaining s' = (remaining s)(h \<mapsto> n - 1)"
    and decrement_missing: "remaining s h = None \<Longrightarrow>
        \<exists>e s'. decrement h s = (Inl e, s') \<and> remaining s' = remaining s"
begin

text \<open>The answers to the decrements of one block among those of others count down.\<close>

lemma decs_count_down:
  assumes "remaining s h = Some n"
  shows "map snd (filter (\<lambda>(h', r). h' = h) (zip hs (decs decrement hs s))) = map (\<lambda>i. Inr (n - 1 - int i)) [0..<count_list hs h]"
  using assms
proof (induction hs arbitrary: s n)
  case (Cons h' hs)
  show ?case
  proof (cases "h' = h")
    case True
    obtain s' where s': "decrement h s = (Inr (n - 1), s')" "remaining s' = (remaining s)(h \<mapsto> n - 1)"
      using decrement [OF Cons.prems] by blast
    have "map (\<lambda>i. Inr (n - 1 - int i) :: 'e + int) [0..<Suc k] = Inr (n - 1) # map (\<lambda>i. Inr (n - 1 - 1 - int i)) [0..<k]" for k
      by (simp only: upt_conv_Cons [of 0 "Suc k", OF zero_less_Suc] map_Suc_upt [symmetric])
        (simp add: comp_def algebra_simps del: map_Suc_upt)
    from this [of "count_list hs h"] show ?thesis using Cons.IH [of s' "n - 1"] s' True by simp
  next
    case False
    obtain r s' where s': "decrement h' s = (r, s')" "remaining s' h = Some n"
      using decrement [of s h'] decrement_missing [of s h'] Cons.prems False
      by (cases "remaining s h'") fastforce+
    then show ?thesis using Cons.IH [of s' n] False by simp
  qed
qed simp

end

definition remainingIn :: "db \<Rightarrow> string \<Rightarrow> int option" where
  "remainingIn d h = map_option fst (map_of (subtree_counters d) h)"

interpretation sqlCounter: subtree_counter "counterInit now ttl flt" "counterDecrement None" remainingIn for now ttl flt
proof unfold_locales
  fix h n s s'
  assume "counterInit now ttl flt h n s = (Inr (), s')"
  then show "remainingIn s' = (remainingIn s)(h \<mapsto> n)"
    by (auto simp: counterInit_def sqlTx_def remainingIn_def update_conv' fun_eq_iff split: option.splits sqlFault.splits)
next
  fix s h n
  assume "remainingIn s h = Some n"
  then show "\<exists>s'. counterDecrement None h s = (Inr (n - 1), s') \<and> remainingIn s' = (remainingIn s)(h \<mapsto> n - 1)"
    by (auto simp: counterDecrement_def sqlTx_def remainingIn_def update_conv' fun_eq_iff)
next
  fix s h
  assume "remainingIn s h = None"
  then show "\<exists>e s'. counterDecrement None h s = (Inl e, s') \<and> remainingIn s' = remainingIn s"
    by (auto simp: counterDecrement_def sqlTx_def remainingIn_def)
qed

text \<open>
  C19: The subtree counter of a block reaches zero exactly once. After \<open>Init\<close> with \<open>n\<close> subtrees, the
  answers to the decrements for this block, however they are interleaved with decrements for other
  blocks, are \<open>n - 1\<close>, \<open>n - 2\<close> and so on; so the answer 0, on which \<open>BLOCK_PROCESSED\<close> is sent, is given
  once when \<open>n\<close> decrements were made and not before.
\<close>

theorem counter_zero_once:
  assumes "counterInit now ttl None h n d = (Inr (), d')" and "0 < n"
  defines "answers \<equiv> \<lambda>hs. map snd (filter (\<lambda>(h', r). h' = h) (zip hs (decs (counterDecrement None) hs d')))"
  shows "answers hs = map (\<lambda>i. Inr (n - 1 - int i)) [0..<count_list hs h]
     \<and> count_list (answers hs) (Inr 0) = (if int (count_list hs h) < n then 0 else 1)"
proof -
  have "remainingIn d' h = Some n" using sqlCounter.init [OF assms(1)] by simp
  note down = sqlCounter.decs_count_down [OF this]
  have cl: "count_list (map (\<lambda>i. Inr (n - 1 - int i) :: sqlErr + int) [0..<k]) (Inr 0) = (if int k < n then 0 else 1)" for k
    using assms(2) by (induction k) auto
  show ?thesis unfolding answers_def down cl by simp
qed

theorem counter_zero_once_witness:
  "count_list (map snd (filter (\<lambda>(h', r). h' = ''b'') (zip [''b'', ''x'', ''b'']
     (decs (counterDecrement None) [''b'', ''x'', ''b''] (snd (counterInit 0 60 None ''b'' 2 emptyDb)))))) (Inr 0) = 1"
proof -
  obtain d' where d': "counterInit 0 60 None ''b'' 2 emptyDb = (Inr (), d')" by (simp add: counterInit_def sqlTx_def)
  show ?thesis using counter_zero_once [OF d', of "[''b'', ''x'', ''b'']"] by (simp add: d')
qed

section \<open>Seen counter\<close>

definition subsOf :: "db \<Rightarrow> string \<Rightarrow> string set" where
  "subsOf d t = {s. (t, s) \<in> set (seen_counter_subtrees d)}"

definition firedIn :: "db \<Rightarrow> string \<Rightarrow> bool" where
  "firedIn d t \<longleftrightarrow> map_of (seen_counters d) t = Some True"

definition seenCountInv :: "int \<Rightarrow> db \<Rightarrow> bool" where
  "seenCountInv threshold d \<longleftrightarrow> distinct (seen_counter_subtrees d)
     \<and> (\<forall>t. (\<not> firedIn d t) = (int (card (subsOf d t)) < threshold))"

lemma seenCountInvD: "seenCountInv threshold d \<Longrightarrow> firedIn d t \<longleftrightarrow> threshold \<le> int (card (subsOf d t))"
  unfolding seenCountInv_def by (metis not_less)

lemma finite_subsOf [simp]: "finite (subsOf d t)"
  by (rule finite_subset [of _ "snd ` set (seen_counter_subtrees d)"]) (force simp: subsOf_def)+

text \<open>The answers to a sequence of calls, each for a txid and a subtree, and how often the threshold was reported for a txid.\<close>

primrec seenRun :: "(string \<Rightarrow> string \<Rightarrow> 's \<Rightarrow> ('e + IncrementResult) \<times> 's) \<Rightarrow> (string \<times> string) list \<Rightarrow> 's \<Rightarrow> ('e + IncrementResult) list \<times> 's" where
  "seenRun increment [] s = ([], s)"
| "seenRun increment (c # cs) s =
     (let (r, s) = increment (fst c) (snd c) s; (rs, s) = seenRun increment cs s in (r # rs, s))"

definition fires :: "string \<Rightarrow> (string \<times> string) list \<Rightarrow> ('e + IncrementResult) list \<Rightarrow> nat" where
  "fires t cs rs = length (filter (\<lambda>(c, r). fst c = t \<and> (case r of Inr x \<Rightarrow> ThresholdReached x | Inl e \<Rightarrow> False)) (zip cs rs))"

text \<open>The contract of a seen counter, for calls one after the other.\<close>

locale seen_counter =
  fixes increment :: "string \<Rightarrow> string \<Rightarrow> 's \<Rightarrow> ('e + IncrementResult) \<times> 's" and threshold :: int
    and inv :: "'s \<Rightarrow> bool" and subs :: "'s \<Rightarrow> string \<Rightarrow> string set"
  assumes finite_subs: "inv s \<Longrightarrow> finite (subs s t)"
    and increment: "inv s \<Longrightarrow> \<exists>s'. increment t x s = (Inr \<lparr>NewCount = card (insert x (subs s t)),
          ThresholdReached = (int (card (subs s t)) < threshold \<and> threshold \<le> int (card (insert x (subs s t))))\<rparr>, s')
        \<and> inv s' \<and> subs s' = (subs s)(t := insert x (subs s t))"
begin

lemma run_fires:
  assumes "inv s"
  shows "fires t cs (fst (seenRun increment cs s)) =
    (if int (card (subs s t)) < threshold \<and> threshold \<le> int (card (subs s t \<union> {x. (t, x) \<in> set cs})) then 1 else 0)"
  using assms
proof (induction cs arbitrary: s)
  case Nil
  then show ?case by (auto simp: fires_def)
next
  case (Cons c cs)
  obtain t' x where c: "c = (t', x)" by (cases c)
  obtain s' where s': "increment t' x s = (Inr \<lparr>NewCount = card (insert x (subs s t')),
          ThresholdReached = (int (card (subs s t')) < threshold \<and> threshold \<le> int (card (insert x (subs s t'))))\<rparr>, s')"
      "inv s'" "subs s' = (subs s)(t' := insert x (subs s t'))" using increment [OF Cons.prems] by blast
  have un: "subs s' t \<union> {x. (t, x) \<in> set cs} = subs s t \<union> {x. (t, x) \<in> set (c # cs)}" by (auto simp: c s'(3))
  have "finite (subs s' t \<union> {x. (t, x) \<in> set cs})"
    using finite_subs [OF s'(2)] by (auto intro: finite_subset [of _ "snd ` set cs"] simp: rev_image_eqI)
  then have le: "card (subs s' t) \<le> card (subs s t \<union> {x. (t, x) \<in> set (c # cs)})" unfolding un [symmetric] by (intro card_mono) auto
  have le2: "card (subs s t) \<le> card (subs s' t)" using finite_subs [OF Cons.prems] by (auto simp: s'(3) intro: card_insert_le)
  have f: "fires t (c # cs) (fst (seenRun increment (c # cs) s)) =
      (if t' = t \<and> int (card (subs s t)) < threshold \<and> threshold \<le> int (card (subs s' t)) then 1 else 0)
        + fires t cs (fst (seenRun increment cs s'))"
    by (auto simp: fires_def c s'(1,3) Let_def split: prod.splits)
  have "t' \<noteq> t \<Longrightarrow> subs s' t = subs s t" by (simp add: s'(3))
  then show ?case unfolding f Cons.IH [OF s'(2)] un using le le2 by auto
qed

end

lemma card_rows:
  assumes "distinct rows"
  shows "length (filter (\<lambda>(t, s). t = txid) rows) = card {s. (txid, s) \<in> set rows}"
proof -
  let ?f = "filter (\<lambda>(t, s). t = txid) rows"
  have "{s. (txid, s) \<in> set rows} = snd ` set ?f" by force
  moreover have "inj_on snd (set ?f)" by (auto simp: inj_on_def)
  moreover have "length ?f = card (set ?f)" using assms by (intro distinct_card [symmetric]) simp
  ultimately show ?thesis by (simp only: card_image)
qed

lemma map_of_insertDefault: "map_of (insertDefault k v al) j = (if j = k \<and> map_of al k = None then Some v else map_of al j)"
  by (auto simp: insertDefault_def map_add_def split: option.splits)

lemma seenIncrement_spec:
  assumes inv: "seenCountInv threshold d" and step: "seenIncrement threshold None t s d = (r, d')"
    and fin: "\<And>t. finite (subsOf d t)"
  shows "seenCountInv threshold d' \<and> subsOf d' = (subsOf d)(t := insert s (subsOf d t))
    \<and> r = Inr \<lparr>NewCount = card (insert s (subsOf d t)), ThresholdReached = (firedIn d' t \<and> \<not> firedIn d t)\<rparr>
    \<and> (\<forall>t'. firedIn d t' \<longrightarrow> firedIn d' t')"
proof -
  define rows where "rows = insertNew (t, s) (seen_counter_subtrees d)"
  define sc where "sc = insertDefault t False (seen_counters d)"
  define hit where "hit = (\<not> firedIn d t \<and> int (card (insert s (subsOf d t))) \<ge> threshold)"
  have rows: "distinct rows" "{s'. (t', s') \<in> set rows} = ((subsOf d)(t := insert s (subsOf d t))) t'" for t'
    using inv by (auto simp: rows_def insertNew_def seenCountInv_def subsOf_def)
  have cnt: "length (filter (\<lambda>(t', s'). t' = t) rows) = card (insert s (subsOf d t))"
    using card_rows [OF rows(1)] rows(2) [of t] by simp
  have sc: "map_of sc t = Some (firedIn d t)" "map_of sc j = Some True \<longleftrightarrow> firedIn d j" for j
    by (auto simp: sc_def map_of_insertDefault firedIn_def)
  have d': "seen_counter_subtrees d' = rows \<and> seen_counters d' = (if hit then AList.update t True sc else sc)
      \<and> r = Inr \<lparr>NewCount = card (insert s (subsOf d t)), ThresholdReached = hit\<rparr>"
    using step sc(1) cnt
    by (auto simp: seenIncrement_def sqlTx_def Let_def rows_def [symmetric] sc_def [symmetric] hit_def split: if_splits)
  have subs: "subsOf d' = (subsOf d)(t := insert s (subsOf d t))"
    using rows(2) d' by (simp add: subsOf_def fun_eq_iff)
  have fired: "firedIn d' j \<longleftrightarrow> (if j = t \<and> hit then True else firedIn d j)" for j
    using d' sc(2) [of j] by (simp add: firedIn_def update_conv')
  have le: "card (subsOf d t) \<le> card (insert s (subsOf d t))" using fin by (simp add: card_insert_le)
  have old: "firedIn d j \<longleftrightarrow> \<not> int (card (subsOf d j)) < threshold" for j
    using inv by (simp add: seenCountInv_def) metis
  have "firedIn d' j \<longleftrightarrow> \<not> int (card (subsOf d' j)) < threshold" for j
  proof (cases "j = t")
    case True
    then show ?thesis using le old [of t] by (simp add: fired subs hit_def) linarith
  next
    case False
    then show ?thesis using old [of j] by (simp add: fired subs)
  qed
  then have "seenCountInv threshold d'" using rows(1) d' by (simp add: seenCountInv_def)
  moreover have "hit \<longleftrightarrow> firedIn d' t \<and> \<not> firedIn d t" by (auto simp: fired hit_def)
  ultimately show ?thesis using subs d' fired by simp
qed

interpretation sqlSeen: seen_counter "seenIncrement threshold None" threshold "seenCountInv threshold" subsOf for threshold
proof unfold_locales
  fix d t s
  assume inv: "seenCountInv threshold d"
  obtain r d' where step: "seenIncrement threshold None t s d = (r, d')" by fastforce
  note sp = seenIncrement_spec [OF inv step finite_subsOf]
  then have "firedIn d' t \<and> \<not> firedIn d t \<longleftrightarrow> int (card (subsOf d t)) < threshold \<and> threshold \<le> int (card (insert s (subsOf d t)))"
    using seenCountInvD [of threshold d' t] seenCountInvD [OF inv, of t] by auto
  then show "\<exists>d'. seenIncrement threshold None t s d = (Inr \<lparr>NewCount = card (insert s (subsOf d t)),
      ThresholdReached = (int (card (subsOf d t)) < threshold \<and> threshold \<le> int (card (insert s (subsOf d t))))\<rparr>, d')
    \<and> seenCountInv threshold d' \<and> subsOf d' = (subsOf d)(t := insert s (subsOf d t))"
    using sp by (simp add: step)
qed simp

text \<open>
  One after the other, the calls of \<open>Increment\<close> fire the threshold exactly once per txid. For any sequence of calls on an empty
  database, interleaved over txids and with repeated subtrees, the threshold is reported for a txid
  once if it was seen in at least \<open>threshold\<close> distinct subtrees and never otherwise.
\<close>

theorem seen_threshold_once:
  assumes "1 \<le> threshold"
  shows "fires t cs (fst (seenRun (seenIncrement threshold None) cs emptyDb)) =
    (if threshold \<le> int (card {s. (t, s) \<in> set cs}) then 1 else 0)"
proof -
  have e: "subsOf emptyDb t = {}" "\<not> firedIn emptyDb t" for t
    by (simp_all add: subsOf_def firedIn_def emptyDb_def)
  then have "seenCountInv threshold emptyDb" using assms by (simp add: seenCountInv_def emptyDb_def)
  from sqlSeen.run_fires [OF this, of t cs] show ?thesis using assms by (simp add: e)
qed

theorem seen_threshold_once_witness:
  "fires ''t'' [(''t'', ''s1''), (''x'', ''s1''), (''t'', ''s1''), (''t'', ''s2''), (''t'', ''s3'')]
     (fst (seenRun (seenIncrement 2 None) [(''t'', ''s1''), (''x'', ''s1''), (''t'', ''s1''), (''t'', ''s2''), (''t'', ''s3'')] emptyDb)) = 1"
proof -
  have "{s. s = ''s1'' \<or> s = ''s2'' \<or> s = ''s3''} = {''s1'', ''s2'', ''s3''}" by auto
  then show ?thesis
    using seen_threshold_once [of 2 "''t''" "[(''t'', ''s1''), (''x'', ''s1''), (''t'', ''s1''), (''t'', ''s2''), (''t'', ''s3'')]"]
    by simp
qed

end
