(* ===== verification/Sql_Seen.thy ===== *)
theory Sql_Seen
  imports Sql_Stores
begin

text \<open>
  Concurrent calls of \<open>Increment\<close> of the SQL seen counter (internal/store/sql/seen_counter.go), statement by statement.
  A transaction sees what is committed and its own changes, as under READ COMMITTED: every statement reads
  what is committed when it starts. An insert waits while another transaction has an uncommitted row with
  the same key, and \<open>FOR UPDATE\<close> waits while another one holds the row. On SQLite the first insert takes the write lock of the
  database, so that transactions do not overlap. A statement or the commit may fail at any time, and the acknowledgement of a commit
  may be lost. \<open>seenIncrement\<close> is the run of a call that no other one overlaps.
\<close>

section \<open>A call and its transaction\<close>

text \<open>
  Where a call is: it has run its inserts, with whether they added the rows of the txid and of the subtree, has counted, has read (and on
  PostgreSQL locked) the flag, or has returned.
\<close>

datatype incrPhase =
    Begun
  | ParentDone bool
  | SubtreeDone bool bool
  | Counted bool bool nat
  | Holding bool bool nat bool
  | Returned "sqlErr + IncrementResult"

type_synonym incrCall = "string \<times> string \<times> incrPhase"

fun newParent :: "incrPhase \<Rightarrow> bool" where
  "newParent (ParentDone np) = np"
| "newParent (SubtreeDone np ns) = np"
| "newParent (Counted np ns n) = np"
| "newParent (Holding np ns n f) = np"
| "newParent _ = False"

fun newSubtree :: "incrPhase \<Rightarrow> bool" where
  "newSubtree (SubtreeDone np ns) = ns"
| "newSubtree (Counted np ns n) = ns"
| "newSubtree (Holding np ns n f) = ns"
| "newSubtree _ = False"

fun holdsRow :: "incrPhase \<Rightarrow> bool" where
  "holdsRow (Holding np ns n f) = True"
| "holdsRow _ = False"

fun inTx :: "incrPhase \<Rightarrow> bool" where
  "inTx Begun = False"
| "inTx (Returned r) = False"
| "inTx _ = True"

text \<open>What is committed, the calls, and the txids whose flag was set by a commit that was not acknowledged.\<close>

record seenSys =
  ss_db :: db
  ss_calls :: "incrCall list"
  ss_lost :: "string list"

definition setPhase :: "nat \<Rightarrow> incrPhase \<Rightarrow> seenSys \<Rightarrow> seenSys" where
  "setPhase i ph s = s\<lparr>ss_calls := (ss_calls s)[i := (fst (ss_calls s ! i), fst (snd (ss_calls s ! i)), ph)]\<rparr>"

definition others :: "nat \<Rightarrow> seenSys \<Rightarrow> incrCall set" where
  "others i s = {ss_calls s ! j |j. j < length (ss_calls s) \<and> j \<noteq> i}"

definition reachedBy :: "int \<Rightarrow> nat \<Rightarrow> bool \<Rightarrow> bool" where
  "reachedBy threshold cnt fired \<longleftrightarrow> \<not> fired \<and> int cnt \<ge> threshold"

text \<open>The changes of a transaction when it is committed.\<close>

definition applyIncr :: "int \<Rightarrow> string \<Rightarrow> string \<Rightarrow> bool \<Rightarrow> bool \<Rightarrow> nat \<Rightarrow> bool \<Rightarrow> db \<Rightarrow> db" where
  "applyIncr threshold txid subtreeID np ns cnt fired d =
     (let d = (if np then d\<lparr>seen_counters := insertDefault txid False (seen_counters d)\<rparr> else d);
          d = (if ns then d\<lparr>seen_counter_subtrees := insertNew (txid, subtreeID) (seen_counter_subtrees d)\<rparr> else d)
      in if reachedBy threshold cnt fired then d\<lparr>seen_counters := AList.update txid True (seen_counters d)\<rparr> else d)"

definition incrResult :: "int \<Rightarrow> nat \<Rightarrow> bool \<Rightarrow> IncrementResult" where
  "incrResult threshold cnt fired = \<lparr>NewCount = cnt, ThresholdReached = reachedBy threshold cnt fired\<rparr>"

text \<open>The flag a transaction reads: of its own new row, or the committed one.\<close>

definition readFlag :: "bool \<Rightarrow> string \<Rightarrow> db \<Rightarrow> bool option" where
  "readFlag np txid d = (if np then Some False else map_of (seen_counters d) txid)"

inductive istep :: "bool \<Rightarrow> int \<Rightarrow> seenSys \<Rightarrow> seenSys \<Rightarrow> bool" for postgres threshold where
  insert_parent: "i < length (ss_calls s) \<Longrightarrow> ss_calls s ! i = (t, x, Begun) \<Longrightarrow>
     \<forall>(t', _, ph) \<in> others i s. \<not> (t' = t \<and> newParent ph) \<and> (postgres \<or> \<not> inTx ph) \<Longrightarrow>
     istep postgres threshold s (setPhase i (ParentDone (map_of (seen_counters (ss_db s)) t = None)) s)"
| insert_subtree: "i < length (ss_calls s) \<Longrightarrow> ss_calls s ! i = (t, x, ParentDone np) \<Longrightarrow>
     \<forall>(t', x', ph) \<in> others i s. \<not> (t' = t \<and> x' = x \<and> newSubtree ph) \<Longrightarrow>
     istep postgres threshold s (setPhase i (SubtreeDone np ((t, x) \<notin> set (seen_counter_subtrees (ss_db s)))) s)"
| count: "i < length (ss_calls s) \<Longrightarrow> ss_calls s ! i = (t, x, SubtreeDone np ns) \<Longrightarrow>
     istep postgres threshold s
       (setPhase i (Counted np ns (length (filter (\<lambda>(t', _). t' = t) (seen_counter_subtrees (ss_db s))) + (if ns then 1 else 0))) s)"
| read_flag: "i < length (ss_calls s) \<Longrightarrow> ss_calls s ! i = (t, x, Counted np ns n) \<Longrightarrow>
     \<forall>(t', _, ph) \<in> others i s. \<not> (postgres \<and> t' = t \<and> holdsRow ph) \<Longrightarrow> readFlag np t (ss_db s) = Some f \<Longrightarrow>
     istep postgres threshold s (setPhase i (Holding np ns n f) s)"
| no_flag: "i < length (ss_calls s) \<Longrightarrow> ss_calls s ! i = (t, x, Counted np ns n) \<Longrightarrow> readFlag np t (ss_db s) = None \<Longrightarrow>
     istep postgres threshold s (setPhase i (Returned (Inl ErrNoRows)) s)"
| commit: "i < length (ss_calls s) \<Longrightarrow> ss_calls s ! i = (t, x, Holding np ns n f) \<Longrightarrow>
     istep postgres threshold s
       (setPhase i (Returned (Inr (incrResult threshold n f))) s\<lparr>ss_db := applyIncr threshold t x np ns n f (ss_db s)\<rparr>)"
| commit_unknown: "i < length (ss_calls s) \<Longrightarrow> ss_calls s ! i = (t, x, Holding np ns n f) \<Longrightarrow>
     istep postgres threshold s
       (setPhase i (Returned (Inl (SqlErr e))) s\<lparr>ss_db := applyIncr threshold t x np ns n f (ss_db s),
         ss_lost := (if reachedBy threshold n f then [t] else []) @ ss_lost s\<rparr>)"
| rollback: "i < length (ss_calls s) \<Longrightarrow> ss_calls s ! i = (t, x, ph) \<Longrightarrow> ph = Begun \<or> inTx ph \<Longrightarrow>
     istep postgres threshold s (setPhase i (Returned (Inl (SqlErr e))) s)"

inductive ireach :: "bool \<Rightarrow> int \<Rightarrow> seenSys \<Rightarrow> seenSys \<Rightarrow> bool" for postgres threshold s0 where
  ireach0: "ireach postgres threshold s0 s0"
| ireachS: "ireach postgres threshold s0 s \<Longrightarrow> istep postgres threshold s s' \<Longrightarrow> ireach postgres threshold s0 s'"

definition seenInit :: "db \<Rightarrow> (string \<times> string) list \<Rightarrow> seenSys" where
  "seenInit d cs = \<lparr>ss_db = d, ss_calls = map (\<lambda>(t, x). (t, x, Begun)) cs, ss_lost = []\<rparr>"

section \<open>The invariant\<close>

text \<open>Two calls that cannot be where they are at the same time.\<close>

definition conflict :: "bool \<Rightarrow> incrCall \<Rightarrow> incrCall \<Rightarrow> bool" where
  "conflict postgres c c' \<longleftrightarrow> (case (c, c') of ((t, x, ph), (t', x', ph')) \<Rightarrow>
     t = t' \<and> (newParent ph \<and> newParent ph' \<or> x = x' \<and> newSubtree ph \<and> newSubtree ph' \<or> holdsRow ph \<and> holdsRow ph')
     \<or> \<not> postgres \<and> inTx ph \<and> inTx ph')"

definition apart :: "bool \<Rightarrow> incrCall list \<Rightarrow> bool" where
  "apart postgres cs \<longleftrightarrow> (\<forall>i < length cs. \<forall>j < length cs. i \<noteq> j \<longrightarrow> \<not> conflict postgres (cs ! i) (cs ! j))"

definition knows :: "db \<Rightarrow> string \<Rightarrow> bool" where
  "knows d t \<longleftrightarrow> map_of (seen_counters d) t \<noteq> None"

definition parentOk :: "db \<Rightarrow> string \<Rightarrow> bool \<Rightarrow> bool" where
  "parentOk d t np \<longleftrightarrow> np = (\<not> knows d t)"

definition subtreeOk :: "db \<Rightarrow> string \<Rightarrow> string \<Rightarrow> bool \<Rightarrow> bool" where
  "subtreeOk d t x ns \<longleftrightarrow> ns = (x \<notin> subsOf d t)"

definition countOk :: "bool \<Rightarrow> db \<Rightarrow> string \<Rightarrow> string \<Rightarrow> nat \<Rightarrow> bool" where
  "countOk postgres d t x n \<longleftrightarrow> n \<le> card (insert x (subsOf d t)) \<and> (\<not> postgres \<longrightarrow> n = card (insert x (subsOf d t)))"

fun callOk :: "bool \<Rightarrow> db \<Rightarrow> incrCall \<Rightarrow> bool" where
  "callOk postgres d (t, x, ParentDone np) \<longleftrightarrow> parentOk d t np"
| "callOk postgres d (t, x, SubtreeDone np ns) \<longleftrightarrow> parentOk d t np \<and> subtreeOk d t x ns"
| "callOk postgres d (t, x, Counted np ns n) \<longleftrightarrow> parentOk d t np \<and> subtreeOk d t x ns \<and> countOk postgres d t x n"
| "callOk postgres d (t, x, Holding np ns n f) \<longleftrightarrow>
     parentOk d t np \<and> subtreeOk d t x ns \<and> countOk postgres d t x n \<and> f = firedIn d t"
| "callOk postgres d (t, x, ph) \<longleftrightarrow> True"

definition rowsOk :: "bool \<Rightarrow> int \<Rightarrow> db \<Rightarrow> bool" where
  "rowsOk postgres threshold d \<longleftrightarrow> distinct (seen_counter_subtrees d)
     \<and> (\<forall>t. firedIn d t \<longrightarrow> threshold \<le> int (card (subsOf d t)))
     \<and> (\<not> postgres \<longrightarrow> (\<forall>t. threshold \<le> int (card (subsOf d t)) \<longrightarrow> firedIn d t))"

text \<open>The calls that reported the threshold for a txid.\<close>

fun reported :: "string \<Rightarrow> incrCall \<Rightarrow> nat" where
  "reported t (t', x, Returned (Inr r)) = (if t' = t \<and> ThresholdReached r then 1 else 0)"
| "reported t c = 0"

definition reports :: "string \<Rightarrow> seenSys \<Rightarrow> nat" where
  "reports t s = sum_list (map (reported t) (ss_calls s))"

definition incrInv :: "bool \<Rightarrow> int \<Rightarrow> db \<Rightarrow> seenSys \<Rightarrow> bool" where
  "incrInv postgres threshold d0 s \<longleftrightarrow> rowsOk postgres threshold (ss_db s)
     \<and> (\<forall>c \<in> set (ss_calls s). callOk postgres (ss_db s) c)
     \<and> apart postgres (ss_calls s)
     \<and> (\<forall>t. reports t s + count_list (ss_lost s) t + (if firedIn d0 t then 1 else 0) = (if firedIn (ss_db s) t then 1 else 0))"

text \<open>What a commit changes.\<close>

lemma applyIncr_effect:
  assumes "callOk postgres d (t, x, Holding np ns n f)"
  shows "subsOf (applyIncr threshold t x np ns n f d) = (subsOf d)(t := insert x (subsOf d t))"
    and "firedIn (applyIncr threshold t x np ns n f d) t' \<longleftrightarrow> firedIn d t' \<or> t' = t \<and> reachedBy threshold n f"
    and "knows (applyIncr threshold t x np ns n f d) t' \<longleftrightarrow> knows d t' \<or> t' = t"
    and "distinct (seen_counter_subtrees d) \<Longrightarrow> distinct (seen_counter_subtrees (applyIncr threshold t x np ns n f d))"
proof -
  have ok: "np = (map_of (seen_counters d) t = None)" "ns = ((t, x) \<notin> set (seen_counter_subtrees d))" "f = firedIn d t"
    using assms by (auto simp: parentOk_def knows_def subtreeOk_def subsOf_def)
  show "subsOf (applyIncr threshold t x np ns n f d) = (subsOf d)(t := insert x (subsOf d t))"
    using ok(2) by (auto simp: applyIncr_def subsOf_def insertNew_def Let_def fun_eq_iff)
  show "distinct (seen_counter_subtrees d) \<Longrightarrow> distinct (seen_counter_subtrees (applyIncr threshold t x np ns n f d))"
    using ok(2) by (simp add: applyIncr_def insertNew_def Let_def)
  have m: "map_of (seen_counters (applyIncr threshold t x np ns n f d)) t' =
      (if t' = t then Some (firedIn d t \<or> reachedBy threshold n f) else map_of (seen_counters d) t')" for t'
    using ok(1,3) by (auto simp: applyIncr_def map_of_insertDefault update_conv' firedIn_def reachedBy_def Let_def)
  show "firedIn (applyIncr threshold t x np ns n f d) t' \<longleftrightarrow> firedIn d t' \<or> t' = t \<and> reachedBy threshold n f"
    using m [of t'] by (auto simp: firedIn_def)
  show "knows (applyIncr threshold t x np ns n f d) t' \<longleftrightarrow> knows d t' \<or> t' = t" using m [of t'] by (simp add: knows_def)
qed

lemma card_insert_mono: "n \<le> card (insert x (subsOf d t)) \<Longrightarrow> n \<le> card (insert x (insert y (subsOf d t)))"
  by (metis card_insert_le finite_insert finite_subsOf insert_commute order_trans)

lemma callOk_commit:
  assumes "callOk postgres d (t, x, Holding np ns n f)" and "callOk postgres d c" and "\<not> conflict postgres (t, x, Holding np ns n f) c"
  shows "callOk postgres (applyIncr threshold t x np ns n f d) c"
proof -
  define d' where "d' = applyIncr threshold t x np ns n f d"
  note e = applyIncr_effect [OF assms(1), of threshold, folded d'_def]
  obtain t' x' ph where c: "c = (t', x', ph)" by (cases c) auto
  have own: "np = (\<not> knows d t)" "ns = (x \<notin> subsOf d t)" using assms(1) by (simp_all add: parentOk_def subtreeOk_def)
  have p: "parentOk d' t' b" if "parentOk d t' b" "newParent ph = b" for b
    using that assms(3) own(1) by (auto simp: c conflict_def parentOk_def e(3))
  have q: "subtreeOk d' t' x' b" if "subtreeOk d t' x' b" "newSubtree ph = b" for b
    using that assms(3) own(2) by (auto simp: c conflict_def subtreeOk_def e(1))
  have r: "countOk postgres d' t' x' k" if "countOk postgres d t' x' k" "inTx ph" for k
    using that assms(3) card_insert_mono by (auto simp: c conflict_def countOk_def e(1))
  have "callOk postgres d' c"
  proof (cases ph)
    case (Holding np' ns' n' f')
    then have "t' \<noteq> t" using assms(3) by (auto simp: c conflict_def)
    then show ?thesis using assms(2) p q r Holding by (simp add: c e(2))
  qed (use assms(2) p q r in \<open>auto simp: c\<close>)
  then show ?thesis by (simp add: d'_def)
qed

section \<open>Every step keeps the invariant\<close>

lemma setPhase_calls [simp]:
  "ss_db (setPhase i ph s) = ss_db s" "ss_lost (setPhase i ph s) = ss_lost s" "length (ss_calls (setPhase i ph s)) = length (ss_calls s)"
  by (simp_all add: setPhase_def)

lemma setPhase_nth:
  assumes "i < length (ss_calls s)" and "ss_calls s ! i = (t, x, ph0)"
  shows "ss_calls (setPhase i ph s) = (ss_calls s)[i := (t, x, ph)]"
    and "reports u (setPhase i ph s) + reported u (t, x, ph0) = reports u s + reported u (t, x, ph)"
  using assms sum_list_map_update [OF assms(1), of "reported u" "(t, x, ph)"] by (simp_all add: setPhase_def reports_def)

lemma conflict_sym: "conflict pg c c' \<Longrightarrow> conflict pg c' c"
  by (auto simp: conflict_def split: prod.splits)

lemma apart_update:
  assumes "apart pg cs" and "\<And>j. j < length cs \<Longrightarrow> j \<noteq> i \<Longrightarrow> \<not> conflict pg c (cs ! j)"
  shows "apart pg (cs[i := c])"
  unfolding apart_def
proof (intro allI impI)
  fix j k
  assume jk: "j < length (cs[i := c])" "k < length (cs[i := c])" "j \<noteq> k"
  then have "\<not> conflict pg (cs ! j) (cs ! k)" using assms(1) by (simp add: apart_def)
  then show "\<not> conflict pg (cs[i := c] ! j) (cs[i := c] ! k)"
    using jk assms(2) [of j] assms(2) [of k] conflict_sym [of pg "cs ! j" c] by (cases "j = i"; cases "k = i") auto
qed

lemma callOk_update:
  "\<forall>c \<in> set cs. callOk pg d c \<Longrightarrow> callOk pg d c' \<Longrightarrow> \<forall>c \<in> set (cs[i := c']). callOk pg d c"
  using set_update_subset_insert [of cs i c'] by auto

lemma incrInv_setPhase:
  assumes inv: "incrInv pg threshold d0 s" and i: "i < length (ss_calls s)" "ss_calls s ! i = (t, x, ph0)"
    and ok: "callOk pg (ss_db s) (t, x, ph)" "\<And>j. j < length (ss_calls s) \<Longrightarrow> j \<noteq> i \<Longrightarrow> \<not> conflict pg (t, x, ph) (ss_calls s ! j)"
    and "\<And>u. reported u (t, x, ph) = reported u (t, x, ph0)"
  shows "incrInv pg threshold d0 (setPhase i ph s)"
proof -
  note cs = setPhase_nth [OF i]
  have "reports u (setPhase i ph s) = reports u s" for u using cs(2) [of u ph] assms(6) by simp
  then show ?thesis using inv apart_update [of pg "ss_calls s" i "(t, x, ph)", OF _ ok(2)] callOk_update [OF _ ok(1), of "ss_calls s" i]
    by (simp add: incrInv_def cs(1))
qed

lemma rowsOk_commit:
  assumes "rowsOk pg threshold d" and "callOk pg d (t, x, Holding np ns n f)"
  shows "rowsOk pg threshold (applyIncr threshold t x np ns n f d)"
proof -
  define d' where "d' = applyIncr threshold t x np ns n f d"
  note e = applyIncr_effect [OF assms(2), of threshold, folded d'_def]
  have n: "n \<le> card (insert x (subsOf d t))" "\<not> pg \<Longrightarrow> n = card (insert x (subsOf d t))" "f = firedIn d t"
    using assms(2) by (simp_all add: countOk_def)
  have le: "card (subsOf d t) \<le> card (insert x (subsOf d t))" by (simp add: card_insert_le)
  have "rowsOk pg threshold d'" unfolding rowsOk_def
  proof (intro conjI allI impI)
    show "distinct (seen_counter_subtrees d')" using assms(1) e(4) by (simp add: rowsOk_def)
    fix u
    have d: "firedIn d u \<Longrightarrow> threshold \<le> int (card (subsOf d u))" using assms(1) by (simp add: rowsOk_def)
    show "threshold \<le> int (card (subsOf d' u))" if "firedIn d' u" using that d le n(1) by (auto simp: e(1,2) reachedBy_def)
    assume "\<not> pg" and th: "threshold \<le> int (card (subsOf d' u))"
    then have "threshold \<le> int (card (subsOf d u)) \<Longrightarrow> firedIn d u" using assms(1) by (simp add: rowsOk_def)
    then show "firedIn d' u" using th n(2,3) \<open>\<not> pg\<close> by (cases "u = t") (auto simp: e(1,2) reachedBy_def)
  qed
  then show ?thesis by (simp add: d'_def)
qed

lemma incrInv_commit:
  assumes inv: "incrInv pg threshold d0 s" and i: "i < length (ss_calls s)" "ss_calls s ! i = (t, x, Holding np ns n f)"
    and lost: "\<And>u. reported u (t, x, Returned r) + count_list lost u = (if u = t \<and> reachedBy threshold n f then 1 else 0)"
  shows "incrInv pg threshold d0 (setPhase i (Returned r) s\<lparr>ss_db := applyIncr threshold t x np ns n f (ss_db s), ss_lost := lost @ ss_lost s\<rparr>)"
proof -
  define d' where "d' = applyIncr threshold t x np ns n f (ss_db s)"
  let ?cs = "(ss_calls s)[i := (t, x, Returned r)]"
  have mine: "callOk pg (ss_db s) (t, x, Holding np ns n f)" using inv i nth_mem [OF i(1)] by (auto simp: incrInv_def)
  note e = applyIncr_effect [OF mine, of threshold, folded d'_def] and cs = setPhase_nth [OF i]
  have "callOk pg d' c" if "c \<in> set ?cs" for c
  proof -
    obtain j where j: "j < length (ss_calls s)" "c = ?cs ! j" using \<open>c \<in> set ?cs\<close> by (metis in_set_conv_nth length_list_update)
    show ?thesis
    proof (cases "j = i")
      case False
      then have c: "c = ss_calls s ! j" "callOk pg (ss_db s) c" using j inv by (auto simp: incrInv_def)
      have "\<not> conflict pg (t, x, Holding np ns n f) c" using inv i j(1) False c(1) unfolding incrInv_def apart_def by metis
      then show ?thesis unfolding d'_def by (rule callOk_commit [OF mine c(2)])
    qed (use j in simp)
  qed
  moreover have "apart pg ?cs" using inv by (intro apart_update) (auto simp: incrInv_def conflict_def)
  moreover have "f = firedIn (ss_db s) t" using mine by simp
  then have "reports u (setPhase i (Returned r) s) + count_list (lost @ ss_lost s) u + (if firedIn d0 u then 1 else 0) = (if firedIn d' u then 1 else 0)" for u
    using inv cs(2) [of u "Returned r"] lost [of u] by (auto simp: incrInv_def e(2) reachedBy_def split: if_splits)
  moreover have "rowsOk pg threshold d'" using rowsOk_commit mine inv by (simp add: incrInv_def d'_def)
  ultimately show ?thesis unfolding incrInv_def d'_def [symmetric] by (simp add: cs(1) reports_def)
qed

lemma length_rows:
  assumes "rowsOk pg threshold d" and "subtreeOk d t x ns"
  shows "length (filter (\<lambda>(t', _). t' = t) (seen_counter_subtrees d)) + (if ns then 1 else 0) = card (insert x (subsOf d t))"
proof -
  have "length (filter (\<lambda>(t', _). t' = t) (seen_counter_subtrees d)) = card (subsOf d t)"
    using card_rows [of "seen_counter_subtrees d" t] assms(1) by (simp add: rowsOk_def subsOf_def)
  then show ?thesis using assms(2) by (simp add: subtreeOk_def insert_absorb)
qed

lemma othersI: "j < length (ss_calls s) \<Longrightarrow> j \<noteq> i \<Longrightarrow> ss_calls s ! j \<in> others i s"
  by (auto simp: others_def)

lemma istep_incrInv:
  assumes "istep pg threshold s s'" and inv: "incrInv pg threshold d0 s"
  shows "incrInv pg threshold d0 s'"
  using assms(1)
proof cases
  case (insert_parent i t x)
  have "\<not> conflict pg (t, x, ParentDone (map_of (seen_counters (ss_db s)) t = None)) (ss_calls s ! j)" if "j < length (ss_calls s)" "j \<noteq> i" for j
    using insert_parent(4) othersI [OF that] by (auto simp: conflict_def split: prod.splits)
  then show ?thesis unfolding insert_parent(1)
    by (intro incrInv_setPhase [OF inv insert_parent(2,3)]) (auto simp: parentOk_def knows_def)
next
  case (insert_subtree i t x np)
  have mine: "callOk pg (ss_db s) (t, x, ParentDone np)" using inv insert_subtree(2,3) nth_mem by (fastforce simp: incrInv_def)
  have "\<not> conflict pg (t, x, SubtreeDone np ((t, x) \<notin> set (seen_counter_subtrees (ss_db s)))) (ss_calls s ! j)" if j: "j < length (ss_calls s)" "j \<noteq> i" for j
  proof -
    have "\<not> conflict pg (t, x, ParentDone np) (ss_calls s ! j)" using inv insert_subtree(2,3) j unfolding incrInv_def apart_def by metis
    then show ?thesis using insert_subtree(4) othersI [OF j] by (auto simp: conflict_def split: prod.splits)
  qed
  then show ?thesis unfolding insert_subtree(1) using mine
    by (intro incrInv_setPhase [OF inv insert_subtree(2,3)]) (auto simp: subtreeOk_def subsOf_def)
next
  case (count i t x np ns)
  have mine: "callOk pg (ss_db s) (t, x, SubtreeDone np ns)" using inv count(2,3) nth_mem by (fastforce simp: incrInv_def)
  have "\<not> conflict pg (t, x, SubtreeDone np ns) (ss_calls s ! j)" if "j < length (ss_calls s)" "j \<noteq> i" for j
    using inv count(2,3) that unfolding incrInv_def apart_def by metis
  moreover have "rowsOk pg threshold (ss_db s)" using inv by (simp add: incrInv_def)
  ultimately show ?thesis unfolding count(1) using mine length_rows [of pg threshold "ss_db s" t x ns]
    by (intro incrInv_setPhase [OF inv count(2,3)]) (auto simp: conflict_def countOk_def split: prod.splits)
next
  case (read_flag i t x np ns n f)
  have mine: "callOk pg (ss_db s) (t, x, Counted np ns n)" using inv read_flag(2,3) nth_mem by (fastforce simp: incrInv_def)
  have "\<not> conflict pg (t, x, Holding np ns n f) (ss_calls s ! j)" if j: "j < length (ss_calls s)" "j \<noteq> i" for j
  proof -
    have "\<not> conflict pg (t, x, Counted np ns n) (ss_calls s ! j)" using inv read_flag(2,3) j unfolding incrInv_def apart_def by metis
    moreover have "holdsRow ph \<Longrightarrow> inTx ph" for ph by (cases ph) simp_all
    ultimately show ?thesis using read_flag(4) othersI [OF j] by (auto simp: conflict_def split: prod.splits)
  qed
  moreover have "f = firedIn (ss_db s) t" using read_flag(5) mine by (auto simp: readFlag_def parentOk_def knows_def firedIn_def split: if_splits)
  ultimately show ?thesis unfolding read_flag(1) using mine by (intro incrInv_setPhase [OF inv read_flag(2,3)]) auto
next
  case (no_flag i t x np ns n)
  then show ?thesis unfolding no_flag(1) by (intro incrInv_setPhase [OF inv no_flag(2,3)]) (auto simp: conflict_def split: prod.splits)
next
  case (commit i t x np ns n f)
  have "incrInv pg threshold d0 (setPhase i (Returned (Inr (incrResult threshold n f))) s
      \<lparr>ss_db := applyIncr threshold t x np ns n f (ss_db s), ss_lost := [] @ ss_lost s\<rparr>)"
    by (rule incrInv_commit [OF inv commit(2,3)]) (auto simp: incrResult_def)
  moreover have "r\<lparr>ss_db := d, ss_lost := [] @ ss_lost s\<rparr> = r\<lparr>ss_db := d\<rparr>" if "ss_lost r = ss_lost s" for r :: seenSys and d
    by (rule seenSys.equality) (simp_all add: that)
  ultimately show ?thesis unfolding commit(1) using setPhase_calls(2) by metis
next
  case (commit_unknown i t x np ns n f e)
  show ?thesis unfolding commit_unknown(1) by (rule incrInv_commit [OF inv commit_unknown(2,3)]) auto
next
  case (rollback i t x ph e)
  have "reported u (t, x, ph) = 0" for u using rollback(4) by (cases ph) auto
  then show ?thesis unfolding rollback(1) by (intro incrInv_setPhase [OF inv rollback(2,3)]) (auto simp: conflict_def split: prod.splits)
qed

section \<open>A call that counts late enough fires\<close>

text \<open>A call that has counted, or is about to count, at least the threshold.\<close>

fun sureToFire :: "int \<Rightarrow> db \<Rightarrow> incrCall \<Rightarrow> bool" where
  "sureToFire threshold d (t, x, SubtreeDone np ns) \<longleftrightarrow> threshold \<le> int (card (insert x (subsOf d t)))"
| "sureToFire threshold d (t, x, Counted np ns n) \<longleftrightarrow> threshold \<le> int n"
| "sureToFire threshold d (t, x, Holding np ns n f) \<longleftrightarrow> threshold \<le> int n"
| "sureToFire threshold d (t, x, Returned (Inr r)) \<longleftrightarrow> firedIn d t"
| "sureToFire threshold d (t, x, Returned (Inl e)) \<longleftrightarrow> True"
| "sureToFire threshold d (t, x, ph) \<longleftrightarrow> False"

lemma sureToFire_mono:
  assumes "sureToFire threshold d c" and "\<And>t. subsOf d t \<subseteq> subsOf d' t" and "\<And>t. firedIn d t \<Longrightarrow> firedIn d' t"
  shows "sureToFire threshold d' c"
proof -
  have "card (insert x (subsOf d t)) \<le> card (insert x (subsOf d' t))" for t x using assms(2) by (intro card_mono) auto
  then have "threshold \<le> int (card (insert x (subsOf d t))) \<Longrightarrow> threshold \<le> int (card (insert x (subsOf d' t)))" for t x
    by (meson of_nat_mono order_trans)
  then show ?thesis using assms(1,3) by (cases "(threshold, d, c)" rule: sureToFire.cases) auto
qed

lemma istep_grows:
  assumes "istep pg threshold s s'" and "incrInv pg threshold d0 s"
  shows "subsOf (ss_db s) t \<subseteq> subsOf (ss_db s') t \<and> (firedIn (ss_db s) t \<longrightarrow> firedIn (ss_db s') t)
    \<and> length (ss_calls s') = length (ss_calls s)"
proof -
  have e: "subsOf (ss_db s) t \<subseteq> subsOf (applyIncr threshold u x np ns n f (ss_db s)) t
      \<and> (firedIn (ss_db s) t \<longrightarrow> firedIn (applyIncr threshold u x np ns n f (ss_db s)) t)"
    if "i < length (ss_calls s)" "ss_calls s ! i = (u, x, Holding np ns n f)" for i u x np ns n f
  proof -
    have "callOk pg (ss_db s) (u, x, Holding np ns n f)" using assms(2) that nth_mem by (fastforce simp: incrInv_def)
    from applyIncr_effect [OF this, of threshold] show ?thesis by auto
  qed
  show ?thesis using assms(1) by cases (simp_all add: e)
qed

lemma istep_sure:
  assumes step: "istep pg threshold s s'" and inv: "incrInv pg threshold d0 s" and k: "k < length (ss_calls s)"
    and sure: "sureToFire threshold (ss_db s) (ss_calls s ! k)"
  shows "sureToFire threshold (ss_db s') (ss_calls s' ! k)"
proof -
  have mono: "sureToFire threshold (ss_db s') (ss_calls s ! k)"
    by (rule sureToFire_mono [OF sure]) (use istep_grows [OF step inv] in auto)
  have set: "ss_calls (setPhase i ph s) ! k = (if k = i then (t, x, ph) else ss_calls s ! k)"
    if "i < length (ss_calls s)" "ss_calls s ! i = (t, x, ph0)" for i t x ph0 ph
    using that k by (simp add: setPhase_nth)
  have own: "callOk pg (ss_db s) (ss_calls s ! k)" using inv k by (simp add: incrInv_def)
  have rows: "rowsOk pg threshold (ss_db s)" using inv by (simp add: incrInv_def)
  show ?thesis
    using step
  proof cases
    case (count i t x np ns)
    then show ?thesis using mono sure own set [OF count(2,3)] length_rows [OF rows, of t x ns] by auto
  next
    case (commit i t x np ns n f)
    have mine: "callOk pg (ss_db s) (t, x, Holding np ns n f)" using inv commit(2,3) nth_mem by (fastforce simp: incrInv_def)
    have "threshold \<le> int n \<Longrightarrow> firedIn (applyIncr threshold t x np ns n f (ss_db s)) t"
      using applyIncr_effect(2) [OF mine, of threshold t] mine by (simp add: reachedBy_def)
    then show ?thesis using mono sure set [OF commit(2,3)] commit(1,3) by auto
  next
    case (commit_unknown i t x np ns n f e)
    then show ?thesis using mono set [OF commit_unknown(2,3)] by auto
  next
    case (rollback i t x ph e)
    then show ?thesis using mono set [OF rollback(2,3)] by auto
  qed (use mono sure set in \<open>auto split: if_splits\<close>)
qed

lemma ireach_incrInv: "ireach pg threshold s0 s \<Longrightarrow> incrInv pg threshold d0 s0 \<Longrightarrow> incrInv pg threshold d0 s"
  by (induction rule: ireach.induct) (use istep_incrInv in blast)+

lemma ireach_sure:
  assumes "ireach pg threshold s s'" and "incrInv pg threshold d0 s" and "k < length (ss_calls s)" and "sureToFire threshold (ss_db s) (ss_calls s ! k)"
  shows "sureToFire threshold (ss_db s') (ss_calls s' ! k) \<and> length (ss_calls s') = length (ss_calls s)"
  using assms(1)
proof induction
  case (ireachS s1 s2)
  have inv: "incrInv pg threshold d0 s1" by (rule ireach_incrInv [OF ireachS.hyps(1) assms(2)])
  show ?case using istep_sure [OF ireachS.hyps(2) inv, of k] istep_grows [OF ireachS.hyps(2) inv] ireachS.IH assms(3) by simp
qed (use assms(4) in simp)

lemma incrInv_init: "rowsOk pg threshold d \<Longrightarrow> incrInv pg threshold d (seenInit d cs)"
  by (auto simp: incrInv_def seenInit_def reports_def apart_def conflict_def split_def comp_def)

section \<open>A call on its own\<close>

lemma others_single: "length (ss_calls s) = 1 \<Longrightarrow> others 0 s = {}"
  by (auto simp: others_def)

abbreviation (input) single :: "db \<Rightarrow> string \<Rightarrow> string \<Rightarrow> incrPhase \<Rightarrow> string list \<Rightarrow> seenSys" where
  "single d t x ph lost \<equiv> \<lparr>ss_db = d, ss_calls = [(t, x, ph)], ss_lost = lost\<rparr>"

lemma single_simps:
  "setPhase 0 ph (single d t x ph0 lost) = single d t x ph lost"
  "others 0 (single d t x ph lost) = {}"
  by (simp_all add: setPhase_def others_def)

lemma single_count:
  "length (filter (\<lambda>(t', _). t' = t) (insertNew (t, x) rows)) = length (filter (\<lambda>(t', _). t' = t) rows) + (if (t, x) \<notin> set rows then 1 else 0)"
  by (simp add: insertNew_def)

lemma single_holding:
  assumes "np = (map_of (seen_counters d) t = None)" and "ns = ((t, x) \<notin> set (seen_counter_subtrees d))" and "f = firedIn d t"
  shows "ireach pg threshold (seenInit d [(t, x)])
    (single d t x (Holding np ns (length (filter (\<lambda>(t', _). t' = t) (insertNew (t, x) (seen_counter_subtrees d)))) f) [])"
proof -
  let ?s = "\<lambda>ph. single d t x ph []" and ?n = "length (filter (\<lambda>(t', _). t' = t) (insertNew (t, x) (seen_counter_subtrees d)))"
  have "ireach pg threshold (seenInit d [(t, x)]) (?s Begun)" by (simp add: seenInit_def ireach0)
  moreover have "istep pg threshold (?s Begun) (?s (ParentDone np))"
    using istep.insert_parent [of 0 "?s Begun" t x pg threshold] by (simp add: single_simps assms(1))
  moreover have "istep pg threshold (?s (ParentDone np)) (?s (SubtreeDone np ns))"
    using istep.insert_subtree [of 0 "?s (ParentDone np)" t x np pg threshold] by (simp add: single_simps assms(2))
  moreover have "istep pg threshold (?s (SubtreeDone np ns)) (?s (Counted np ns ?n))"
    using istep.count [of 0 "?s (SubtreeDone np ns)" t x np ns pg threshold] by (simp add: single_simps single_count assms(2))
  moreover have "readFlag np t d = Some f" using assms(1,3) by (auto simp: readFlag_def firedIn_def)
  then have "istep pg threshold (?s (Counted np ns ?n)) (?s (Holding np ns ?n f))"
    using istep.read_flag [of 0 "?s (Counted np ns ?n)" t x np ns ?n pg f threshold] by (simp add: single_simps)
  ultimately show ?thesis using ireachS by blast
qed

text \<open>The statements of a call, with no other call between them, are the transaction \<open>seenIncrement\<close>.\<close>

lemma increment_alone:
  assumes "seenIncrement threshold flt t x d = (r, d')"
  shows "\<exists>lost. ireach pg threshold (seenInit d [(t, x)]) (single d' t x (Returned r) lost)"
proof -
  define np ns f where ph: "np = (map_of (seen_counters d) t = None)" "ns = ((t, x) \<notin> set (seen_counter_subtrees d))" "f = firedIn d t"
  let ?n = "length (filter (\<lambda>(t', _). t' = t) (insertNew (t, x) (seen_counter_subtrees d)))"
  let ?s = "single d t x (Holding np ns ?n f) []" and ?d = "applyIncr threshold t x np ns ?n f d"
  have hold: "ireach pg threshold (seenInit d [(t, x)]) ?s" by (rule single_holding [OF ph])
  have read: "map_of (insertDefault t False (seen_counters d)) t = Some f" using ph(3) by (auto simp: map_of_insertDefault firedIn_def)
  have ins: "(if np then insertDefault t False (seen_counters d) else seen_counters d) = insertDefault t False (seen_counters d)"
    "(if ns then insertNew (t, x) (seen_counter_subtrees d) else seen_counter_subtrees d) = insertNew (t, x) (seen_counter_subtrees d)"
    by (simp_all add: ph(1,2) insertDefault_def insertNew_def)
  have body: "sqlTx None (\<lambda>_. (Inr (incrResult threshold ?n f), ?d)) d = seenIncrement threshold None t x d"
    using read ins
    by (auto simp: seenIncrement_def sqlTx_def applyIncr_def incrResult_def reachedBy_def Let_def split: if_splits)
  have call: "length (ss_calls ?s) = 1" "ss_calls ?s ! 0 = (t, x, Holding np ns ?n f)" by simp_all
  show ?thesis
  proof (cases flt)
    case None
    then have "r = Inr (incrResult threshold ?n f)" "d' = ?d" using assms body by (simp_all add: sqlTx_def)
    moreover have "istep pg threshold ?s (single ?d t x (Returned (Inr (incrResult threshold ?n f))) [])"
      using istep.commit [of 0 ?s t x np ns ?n f pg threshold] by (simp add: single_simps)
    ultimately show ?thesis using ireachS [OF hold] by blast
  next
    case (Some flt')
    show ?thesis
    proof (cases flt')
      case (RolledBack e)
      then have "r = Inl (SqlErr e)" "d' = d" using assms Some by (simp_all add: seenIncrement_def sqlTx_def)
      moreover have "istep pg threshold ?s (single d t x (Returned (Inl (SqlErr e))) [])"
        using istep.rollback [of 0 ?s t x _ pg threshold e] by (simp add: single_simps)
      ultimately show ?thesis using ireachS [OF hold] by blast
    next
      case (CommitUnknown e)
      have lost: "(case seenIncrement threshold None t x d of (Inr r, d1) \<Rightarrow> (Inl (SqlErr e), d1) | (Inl e', d1) \<Rightarrow> (Inl e', d)) = (r, d')"
        using assms Some CommitUnknown by (auto simp: seenIncrement_def sqlTx_def split: prod.splits sum.splits)
      have "seenIncrement threshold None t x d = (Inr (incrResult threshold ?n f), ?d)" using body by (simp add: sqlTx_def)
      then have "r = Inl (SqlErr e)" "d' = ?d" using lost by simp_all
      moreover have "istep pg threshold ?s (single ?d t x (Returned (Inl (SqlErr e))) ((if reachedBy threshold ?n f then [t] else []) @ []))"
        using istep.commit_unknown [of 0 ?s t x np ns ?n f pg threshold e] by (simp add: single_simps)
      ultimately show ?thesis using ireachS [OF hold] by blast
    qed
  qed
qed

text \<open>
  C20: The seen threshold under concurrent calls. For any number of overlapping calls of \<open>Increment\<close>, whose statements
  interleave, wait for each other, fail and lose acknowledgements, on a database that earlier calls left: for every txid the
  flag is set by exactly one commit, and that call reports the threshold, unless its acknowledgement was lost; no other call ever reports it. It
  is never reported before the committed subtrees are as many as the threshold. On SQLite the flag is set as soon as they are. On PostgreSQL a call
  counts before it locks the row, so calls that overlap may each miss the subtree of the other; but a call that counts when the committed subtrees
  and its own reach the threshold, and succeeds, leaves the flag set.
\<close>

theorem seen_threshold_concurrent:
  assumes "rowsOk postgres threshold d0" and "ireach postgres threshold (seenInit d0 cs) s"
  shows "reports t s + count_list (ss_lost s) t = (if firedIn (ss_db s) t \<and> \<not> firedIn d0 t then 1 else 0)
    \<and> (firedIn (ss_db s) t \<longrightarrow> threshold \<le> int (card (subsOf (ss_db s) t)))
    \<and> (\<not> postgres \<longrightarrow> threshold \<le> int (card (subsOf (ss_db s) t)) \<longrightarrow> firedIn (ss_db s) t)
    \<and> (\<forall>i x np ns s' x' r. i < length (ss_calls s) \<and> ss_calls s ! i = (t, x, SubtreeDone np ns) \<and> threshold \<le> int (card (insert x (subsOf (ss_db s) t)))
          \<and> ireach postgres threshold s s' \<and> ss_calls s' ! i = (t, x', Returned (Inr r)) \<longrightarrow> firedIn (ss_db s') t)"
proof -
  have inv: "incrInv postgres threshold d0 s" by (rule ireach_incrInv [OF assms(2) incrInv_init [OF assms(1)]])
  have "reports t s + count_list (ss_lost s) t + (if firedIn d0 t then 1 else 0) = (if firedIn (ss_db s) t then 1 else 0)"
    using inv by (simp add: incrInv_def)
  then have "reports t s + count_list (ss_lost s) t = (if firedIn (ss_db s) t \<and> \<not> firedIn d0 t then 1 else 0)" by (auto split: if_splits)
  moreover have "firedIn (ss_db s') t"
    if "i < length (ss_calls s)" "ss_calls s ! i = (t, x, SubtreeDone np ns)" "threshold \<le> int (card (insert x (subsOf (ss_db s) t)))"
      "ireach postgres threshold s s'" "ss_calls s' ! i = (t, x', Returned (Inr r))" for i x np ns s' x' r
    using ireach_sure [OF that(4) inv that(1)] that(2,3,5) by simp
  ultimately show ?thesis using inv by (auto simp: incrInv_def rowsOk_def)
qed

section \<open>Overlapping calls\<close>

text \<open>
  The calls for two more subtrees of a txid that was seen in one, with a threshold of three: both have inserted and counted before
  either commits.
\<close>

definition seenOnce :: db where
  "seenOnce = snd (seenIncrement 3 None ''t'' ''s1'' emptyDb)"

definition pair :: "db \<Rightarrow> incrPhase \<Rightarrow> incrPhase \<Rightarrow> seenSys" where
  "pair d p q = \<lparr>ss_db = d, ss_calls = [(''t'', ''s2'', p), (''t'', ''s3'', q)], ss_lost = []\<rparr>"

lemma pair_simps:
  "ss_calls (pair d p q) = [(''t'', ''s2'', p), (''t'', ''s3'', q)]" "ss_db (pair d p q) = d"
  "others 0 (pair d p q) = {(''t'', ''s3'', q)}" "others (Suc 0) (pair d p q) = {(''t'', ''s2'', p)}"
  "setPhase 0 ph (pair d p q) = pair d ph q" "setPhase (Suc 0) ph (pair d p q) = pair d p ph"
  "(pair d p q)\<lparr>ss_db := d'\<rparr> = pair d' p q"
proof -
  have two: "j < Suc (Suc 0) \<longleftrightarrow> j = 0 \<or> j = Suc 0" for j by auto
  show "others 0 (pair d p q) = {(''t'', ''s3'', q)}" "others (Suc 0) (pair d p q) = {(''t'', ''s2'', p)}"
    by (auto simp: others_def pair_def two intro: exI [of _ 0] exI [of _ "Suc 0"])
qed (simp_all add: pair_def setPhase_def)

lemma seenOnce_simps: "seen_counters seenOnce = [(''t'', False)]" "seen_counter_subtrees seenOnce = [(''t'', ''s1'')]"
  by (simp_all add: seenOnce_def seenIncrement_def sqlTx_def emptyDb_def insertDefault_def insertNew_def)

lemma overlap:
  "ireach True 3 (seenInit seenOnce [(''t'', ''s2''), (''t'', ''s3'')]) (pair seenOnce (SubtreeDone False True) (SubtreeDone False True))"
proof -
  have "ireach True 3 (seenInit seenOnce [(''t'', ''s2''), (''t'', ''s3'')]) (pair seenOnce Begun Begun)"
    by (simp add: seenInit_def pair_def ireach0)
  moreover have "istep True 3 (pair seenOnce Begun Begun) (pair seenOnce (ParentDone False) Begun)"
    using istep.insert_parent [of 0 "pair seenOnce Begun Begun" _ _ True 3] by (simp add: pair_simps seenOnce_simps)
  moreover have "istep True 3 (pair seenOnce (ParentDone False) Begun) (pair seenOnce (ParentDone False) (ParentDone False))"
    using istep.insert_parent [of "Suc 0" "pair seenOnce (ParentDone False) Begun" _ _ True 3] by (simp add: pair_simps seenOnce_simps)
  moreover have "istep True 3 (pair seenOnce (ParentDone False) (ParentDone False)) (pair seenOnce (SubtreeDone False True) (ParentDone False))"
    using istep.insert_subtree [of 0 "pair seenOnce (ParentDone False) (ParentDone False)" _ _ False True 3] by (simp add: pair_simps seenOnce_simps)
  moreover have "istep True 3 (pair seenOnce (SubtreeDone False True) (ParentDone False)) (pair seenOnce (SubtreeDone False True) (SubtreeDone False True))"
    using istep.insert_subtree [of "Suc 0" "pair seenOnce (SubtreeDone False True) (ParentDone False)" _ _ False True 3]
    by (simp add: pair_simps seenOnce_simps)
  ultimately show ?thesis using ireachS by blast
qed

text \<open>Then nobody reports the threshold, although the txid has been seen in three subtrees and no call failed.\<close>

lemma overlapping_calls_miss:
  "\<exists>s. ireach True 3 (seenInit seenOnce [(''t'', ''s2''), (''t'', ''s3'')]) s \<and> subsOf (ss_db s) ''t'' = {''s1'', ''s2'', ''s3''}
     \<and> reports ''t'' s = 0 \<and> \<not> firedIn (ss_db s) ''t'' \<and> list_all (\<lambda>(_, _, ph). ph = Returned (Inr \<lparr>NewCount = 2, ThresholdReached = False\<rparr>)) (ss_calls s)"
proof -
  let ?c = "Counted False True 2" and ?h = "Holding False True 2 False" and ?r = "Returned (Inr \<lparr>NewCount = 2, ThresholdReached = False\<rparr>)"
  let ?d1 = "applyIncr 3 ''t'' ''s2'' False True 2 False seenOnce"
  let ?d2 = "applyIncr 3 ''t'' ''s3'' False True 2 False ?d1"
  have d: "seen_counters ?d1 = [(''t'', False)]" "seen_counter_subtrees ?d1 = [(''t'', ''s1''), (''t'', ''s2'')]"
    "seen_counters ?d2 = [(''t'', False)]" "seen_counter_subtrees ?d2 = [(''t'', ''s1''), (''t'', ''s2''), (''t'', ''s3'')]"
    by (simp_all add: applyIncr_def reachedBy_def seenOnce_simps insertNew_def)
  have two: "incrResult 3 2 False = \<lparr>NewCount = 2, ThresholdReached = False\<rparr>" by (simp add: incrResult_def reachedBy_def)
  note overlap
  moreover have "istep True 3 (pair seenOnce (SubtreeDone False True) (SubtreeDone False True)) (pair seenOnce ?c (SubtreeDone False True))"
    using istep.count [of 0 "pair seenOnce (SubtreeDone False True) (SubtreeDone False True)" _ _ False True True 3] by (simp add: pair_simps seenOnce_simps numeral_2_eq_2)
  moreover have "istep True 3 (pair seenOnce ?c (SubtreeDone False True)) (pair seenOnce ?c ?c)"
    using istep.count [of "Suc 0" "pair seenOnce ?c (SubtreeDone False True)" _ _ False True True 3] by (simp add: pair_simps seenOnce_simps numeral_2_eq_2)
  moreover have "istep True 3 (pair seenOnce ?c ?c) (pair seenOnce ?h ?c)"
    using istep.read_flag [of 0 "pair seenOnce ?c ?c" _ _ False True 2 True False 3] by (simp add: pair_simps seenOnce_simps readFlag_def)
  moreover have "istep True 3 (pair seenOnce ?h ?c) (pair ?d1 ?r ?c)"
    using istep.commit [of 0 "pair seenOnce ?h ?c" _ _ False True 2 False True 3] by (simp add: pair_simps two)
  moreover have "istep True 3 (pair ?d1 ?r ?c) (pair ?d1 ?r ?h)"
    using istep.read_flag [of "Suc 0" "pair ?d1 ?r ?c" _ _ False True 2 True False 3] by (simp add: pair_simps readFlag_def d)
  moreover have "istep True 3 (pair ?d1 ?r ?h) (pair ?d2 ?r ?r)"
    using istep.commit [of "Suc 0" "pair ?d1 ?r ?h" _ _ False True 2 False True 3] by (simp add: pair_simps two)
  ultimately have "ireach True 3 (seenInit seenOnce [(''t'', ''s2''), (''t'', ''s3'')]) (pair ?d2 ?r ?r)" using ireachS by blast
  moreover have "subsOf ?d2 ''t'' = {''s1'', ''s2'', ''s3''}" "\<not> firedIn ?d2 ''t''" by (auto simp: subsOf_def firedIn_def d)
  ultimately show ?thesis by (intro exI [of _ "pair ?d2 ?r ?r"]) (simp add: pair_simps reports_def)
qed

theorem seen_threshold_concurrent_witness:
  "(\<exists>s. ireach True 3 (seenInit seenOnce [(''t'', ''s2''), (''t'', ''s3'')]) s
     \<and> reports ''t'' s + count_list (ss_lost s) ''t'' = 0 \<and> ss_calls s ! 0 = (''t'', ''s2'', SubtreeDone False True))
   \<and> (\<exists>s. ireach False 2 (seenInit seenOnce [(''t'', ''s2'')]) s \<and> reports ''t'' s + count_list (ss_lost s) ''t'' = 1)"
proof
  let ?s = "pair seenOnce (SubtreeDone False True) (SubtreeDone False True)"
  have f: "\<not> firedIn seenOnce t" for t by (simp add: firedIn_def seenOnce_simps)
  have "rowsOk True 3 seenOnce" by (simp add: rowsOk_def f seenOnce_simps)
  from seen_threshold_concurrent [OF this overlap, of "''t''"] overlap
  show "\<exists>s. ireach True 3 (seenInit seenOnce [(''t'', ''s2''), (''t'', ''s3'')]) s
     \<and> reports ''t'' s + count_list (ss_lost s) ''t'' = 0 \<and> ss_calls s ! 0 = (''t'', ''s2'', SubtreeDone False True)"
    by (intro exI [of _ ?s]) (simp add: pair_simps f)
  obtain r d where run: "seenIncrement 2 None ''t'' ''s2'' seenOnce = (r, d)" by fastforce
  then have d: "firedIn d ''t''" by (auto simp: firedIn_def seenIncrement_def sqlTx_def seenOnce_simps insertDefault_def insertNew_def)
  obtain lost where reach: "ireach False 2 (seenInit seenOnce [(''t'', ''s2'')]) (single d ''t'' ''s2'' (Returned r) lost)"
    using increment_alone [OF run] by blast
  have "card (subsOf seenOnce t) < 2" for t by (cases "t = ''t''") (simp_all add: subsOf_def seenOnce_simps)
  then have "rowsOk False 2 seenOnce" by (simp add: rowsOk_def f seenOnce_simps not_le)
  from seen_threshold_concurrent [OF this reach, of "''t''"] reach
  show "\<exists>s. ireach False 2 (seenInit seenOnce [(''t'', ''s2'')]) s \<and> reports ''t'' s + count_list (ss_lost s) ''t'' = 1"
    by (intro exI [of _ "single d ''t'' ''s2'' (Returned r) lost"]) (simp add: f d)
qed

end
