(* ===== verification/Kafka_Messages.thy ===== *)
theory Kafka_Messages
  imports Stump_Store "HOL-Library.List_Lexorder" "HOL-Library.Char_ord"
begin

text \<open>
  The messages of the Kafka topics, the producer and the consumer loop (internal/kafka). A topic is
  the list of the records published to it, each a partition key with a value; sending may fail. The
  JSON encoding of a message is left implicit here: a record carries the message itself, and a consumer
  gets the outcome of decoding it. Json_Messages models the encoding and shows that it loses nothing.
\<close>

section \<open>Messages\<close>

type_synonym CallbackType = string

definition CallbackSeenOnNetwork :: CallbackType where
  "CallbackSeenOnNetwork = ''SEEN_ON_NETWORK''"

definition CallbackSeenMultipleNodes :: CallbackType where
  "CallbackSeenMultipleNodes = ''SEEN_MULTIPLE_NODES''"

definition CallbackStump :: CallbackType where
  "CallbackStump = ''STUMP''"

definition CallbackBlockProcessed :: CallbackType where
  "CallbackBlockProcessed = ''BLOCK_PROCESSED''"

lemmas callback_types = CallbackSeenOnNetwork_def CallbackSeenMultipleNodes_def CallbackStump_def
  CallbackBlockProcessed_def

record SubtreeMessage =
  sm_Hash :: string
  sm_DataHubURL :: string
  sm_PeerID :: string
  sm_ClientName :: string
  sm_AttemptCount :: int

record BlockMessage =
  bm_Hash :: string
  bm_Height :: u32
  bm_Header :: string
  bm_Coinbase :: string
  bm_DataHubURL :: string
  bm_PeerID :: string
  bm_ClientName :: string

text \<open>The time of the next retry is in nanoseconds; \<open>None\<close> is the zero time.\<close>

record CallbackTopicMessage =
  CallbackURL :: string
  Type :: CallbackType
  msgTxID :: string
  msgTxIDs :: "string list"
  BlockHash :: string
  msgSubtreeIndex :: int
  StumpRef :: string
  RetryCount :: int
  NextRetryAt :: "int option"

record SubtreeWorkMessage =
  wm_BlockHash :: string
  wm_BlockHeight :: u32
  wm_SubtreeHash :: string
  wm_SubtreeIndex :: int
  wm_DataHubURL :: string

definition emptyCallback :: "string \<Rightarrow> CallbackType \<Rightarrow> CallbackTopicMessage" where
  "emptyCallback url t = \<lparr>CallbackURL = url, Type = t, msgTxID = '''', msgTxIDs = [], BlockHash = '''', msgSubtreeIndex = 0,
     StumpRef = '''', RetryCount = 0, NextRetryAt = None\<rparr>"

section \<open>Producer\<close>

type_synonym 'v topic = "(string \<times> 'v) list"

text \<open>The outcome of \<open>SendMessage\<close> is the argument \<open>err\<close>.\<close>

definition Publish :: "string option \<Rightarrow> string \<Rightarrow> 'v \<Rightarrow> 'v topic \<Rightarrow> string option \<times> 'v topic" where
  "Publish err key value t = (case err of Some e \<Rightarrow> (Some e, t) | None \<Rightarrow> (None, t @ [(key, value)]))"

definition HashPartitionKey :: "(string \<Rightarrow> 256 word) \<Rightarrow> string \<Rightarrow> string" where
  "HashPartitionKey sha256 s = hexEncode (take 8 (sumBytes (sha256 s)))"

definition PublishWithHashKey ::
    "(string \<Rightarrow> 256 word) \<Rightarrow> string option \<Rightarrow> string \<Rightarrow> 'v \<Rightarrow> 'v topic \<Rightarrow> string option \<times> 'v topic" where
  "PublishWithHashKey sha256 err key value t = Publish err (HashPartitionKey sha256 key) value t"

definition Int32FromHash :: "(string \<Rightarrow> 256 word) \<Rightarrow> string \<Rightarrow> int" where
  "Int32FromHash sha256 s = sint (ucast (drop_bit 224 (sha256 s)) :: u32)"

text \<open>A loop that publishes under the key of the URL; a failure is logged and skipped.\<close>

primrec publishAll ::
    "(string \<Rightarrow> 256 word) \<Rightarrow> (nat \<Rightarrow> string option) \<Rightarrow> nat \<Rightarrow> CallbackTopicMessage list
     \<Rightarrow> CallbackTopicMessage topic \<Rightarrow> CallbackTopicMessage topic" where
  "publishAll sha256 errs i [] t = t"
| "publishAll sha256 errs i (m # ms) t =
     publishAll sha256 errs (Suc i) ms (snd (PublishWithHashKey sha256 (errs i) (CallbackURL m) m t))"

lemma publishAll_topic:
  "publishAll sha256 errs i ms t =
     t @ map (\<lambda>(_, m). (HashPartitionKey sha256 (CallbackURL m), m)) (filter (\<lambda>(j, _). errs j = None) (enumerate i ms))"
  by (induction ms arbitrary: i t) (auto simp: PublishWithHashKey_def Publish_def split: option.splits)

section \<open>Consumer\<close>

text \<open>
  \<open>ConsumeClaim\<close> hands the messages of a partition to the handler one after the other and marks a
  message when the handler succeeds. Marking offset \<open>o\<close> commits every offset up to it.
\<close>

record 'v consumerMessage =
  cm_Offset :: nat
  cm_Value :: 'v

fun ConsumeClaim :: "('v consumerMessage \<Rightarrow> 's \<Rightarrow> 'e option \<times> 's) \<Rightarrow> 'v consumerMessage list \<Rightarrow> nat \<times> 's \<Rightarrow> nat \<times> 's" where
  "ConsumeClaim handler [] (committed, s) = (committed, s)"
| "ConsumeClaim handler (msg # msgs) (committed, s) =
     (case handler msg s of
        (Some err, s') \<Rightarrow> ConsumeClaim handler msgs (committed, s')
      | (None, s') \<Rightarrow> ConsumeClaim handler msgs (max committed (Suc (cm_Offset msg)), s'))"

lemma ConsumeClaim_append:
  "ConsumeClaim h (xs @ ys) st = ConsumeClaim h ys (ConsumeClaim h xs st)"
  by (induction h xs st rule: ConsumeClaim.induct) (auto split: prod.splits option.splits)

lemma ConsumeClaim_mono: "fst st \<le> fst (ConsumeClaim h msgs st)"
  by (induction h msgs st rule: ConsumeClaim.induct) (auto split: prod.splits option.splits)

text \<open>
  A message whose handler fails is not marked, but the next success commits past it: it is not
  consumed again.
\<close>

lemma failed_message_passed:
  assumes "\<And>s. fst (h m s) = Some e" and "\<And>s. fst (h m' s) = None" and "cm_Offset m < cm_Offset m'"
  shows "cm_Offset m < fst (ConsumeClaim h (m # m' # msgs) (c, s))"
proof -
  obtain s1 where s1: "h m s = (Some e, s1)" using assms(1) [of s] by (cases "h m s") auto
  obtain s2 where s2: "h m' s1 = (None, s2)" using assms(2) [of s1] by (cases "h m' s1") auto
  have "Suc (cm_Offset m') \<le> fst (ConsumeClaim h msgs (max c (Suc (cm_Offset m')), s2))"
    using ConsumeClaim_mono [of "(max c (Suc (cm_Offset m')), s2)" h msgs] by simp
  then show ?thesis using assms(3) by (simp add: s1 s2)
qed

section \<open>Keys of callback messages\<close>

text \<open>\<open>strconv.Itoa\<close>\<close>

fun natString :: "nat \<Rightarrow> string" where
  "natString n = (if n < 10 then [char_of (48 + n)] else natString (n div 10) @ [char_of (48 + n mod 10)])"

declare natString.simps [simp del]

definition Itoa :: "int \<Rightarrow> string" where
  "Itoa i = (if i < 0 then ''-'' @ natString (nat (- i)) else natString (nat i))"

primrec joinWith :: "string \<Rightarrow> string list \<Rightarrow> string" where
  "joinWith sep [] = ''''"
| "joinWith sep (x # xs) = (if xs = [] then x else x @ sep @ joinWith sep xs)"

definition hashTxIDs :: "(string \<Rightarrow> 256 word) \<Rightarrow> string list \<Rightarrow> string" where
  "hashTxIDs sha256 txids = hexEncode (take 8 (sumBytes (sha256 (joinWith '','' (sort txids)))))"

definition dedupKeyForMessage :: "(string \<Rightarrow> 256 word) \<Rightarrow> CallbackTopicMessage \<Rightarrow> string" where
  "dedupKeyForMessage sha256 msg =
     (if Type msg = CallbackBlockProcessed then BlockHash msg
      else if Type msg = CallbackStump then BlockHash msg @ '':'' @ Itoa (msgSubtreeIndex msg)
      else if msgTxIDs msg \<noteq> [] then hashTxIDs sha256 (msgTxIDs msg)
      else msgTxID msg)"

definition buildIdempotencyKey :: "(string \<Rightarrow> 256 word) \<Rightarrow> CallbackTopicMessage \<Rightarrow> string" where
  "buildIdempotencyKey sha256 msg =
     (if Type msg = CallbackBlockProcessed then BlockHash msg @ '':'' @ Type msg
      else if Type msg = CallbackStump then BlockHash msg @ '':'' @ Itoa (msgSubtreeIndex msg) @ '':STUMP''
      else if msgTxIDs msg \<noteq> [] then hashTxIDs sha256 (msgTxIDs msg) @ '':'' @ Type msg
      else if msgTxID msg \<noteq> '''' then msgTxID msg @ '':'' @ Type msg
      else '''')"

lemma hashTxIDs_perm: "mset xs = mset ys \<Longrightarrow> hashTxIDs sha xs = hashTxIDs sha ys"
  unfolding hashTxIDs_def by (metis sorted_list_of_multiset_mset)

lemma of_char_digit: "k < 10 \<Longrightarrow> of_char (char_of (48 + k) :: char) = (48 + k :: nat)"
  by (simp add: of_char_of)

primrec strVal :: "nat \<Rightarrow> string \<Rightarrow> nat" where
  "strVal acc [] = acc"
| "strVal acc (c # cs) = strVal (10 * acc + (of_char c - 48)) cs"

lemma strVal_append: "strVal acc (xs @ ys) = strVal (strVal acc xs) ys"
  by (induction xs arbitrary: acc) auto

lemma strVal_natString: "strVal 0 (natString n) = n"
proof (induction n rule: natString.induct)
  case (1 n)
  then show ?case using of_char_digit [of n] of_char_digit [of "n mod 10"]
    by (subst natString.simps) (auto simp: strVal_append)
qed

lemma natString_inj: "natString m = natString n \<longleftrightarrow> m = n"
  by (metis strVal_natString)

lemma natString_digits: "c \<in> set (natString n) \<Longrightarrow> 48 \<le> (of_char c :: nat) \<and> (of_char c :: nat) \<le> 57"
proof (induction n rule: natString.induct)
  case (1 n)
  then show ?case using of_char_digit [of n] of_char_digit [of "n mod 10"]
    by (subst (asm) (2) natString.simps) (auto split: if_splits)
qed

lemma natString_no_colon: "CHR '':'' \<notin> set (natString n)" and natString_no_minus: "CHR ''-'' \<notin> set (natString n)"
  using natString_digits [of "CHR '':''" n] natString_digits [of "CHR ''-''" n] by auto

lemma natString_nonempty: "natString n \<noteq> ''''"
  by (subst natString.simps) simp

lemma Itoa_inj: "Itoa i = Itoa j \<longleftrightarrow> i = j"
proof
  assume eq: "Itoa i = Itoa j"
  have neg: "''-'' @ natString m \<noteq> natString n" for m n
    using natString_no_minus [of n] by (metis append_Cons list.set_intros(1))
  show "i = j" using eq neg neg [symmetric] natString_inj by (auto simp: Itoa_def split: if_splits)
qed simp

lemma Itoa_no_colon: "CHR '':'' \<notin> set (Itoa i)"
  using natString_no_colon by (simp add: Itoa_def)

lemma split_last_colon:
  assumes "a @ '':'' @ b = a' @ '':'' @ b'" and "CHR '':'' \<notin> set b" and "CHR '':'' \<notin> set b'"
  shows "a = a' \<and> b = b'"
proof -
  have "rev b @ '':'' @ rev a = rev b' @ '':'' @ rev a'" using arg_cong [OF assms(1), of rev] by simp
  then have "takeWhile (\<lambda>c. c \<noteq> CHR '':'') (rev b @ '':'' @ rev a) = takeWhile (\<lambda>c. c \<noteq> CHR '':'') (rev b' @ '':'' @ rev a')"
    by simp
  moreover have "takeWhile (\<lambda>c. c \<noteq> CHR '':'') (rev x @ '':'' @ y) = rev x" if "CHR '':'' \<notin> set x" for x y
    using that by (subst takeWhile_append2) auto
  ultimately have "rev b = rev b'" using assms(2,3) by metis
  then show ?thesis using assms(1) by simp
qed

text \<open>STUMP messages of different blocks or subtrees have different keys.\<close>

lemma dedupKey_stump_inj:
  assumes "Type m = CallbackStump" and "Type m' = CallbackStump"
  shows "dedupKeyForMessage sha m = dedupKeyForMessage sha m' \<longleftrightarrow> BlockHash m = BlockHash m' \<and> msgSubtreeIndex m = msgSubtreeIndex m'"
proof
  assume eq: "dedupKeyForMessage sha m = dedupKeyForMessage sha m'"
  show "BlockHash m = BlockHash m' \<and> msgSubtreeIndex m = msgSubtreeIndex m'"
    using split_last_colon [of "BlockHash m" "Itoa (msgSubtreeIndex m)" "BlockHash m'" "Itoa (msgSubtreeIndex m')"]
      eq assms Itoa_no_colon Itoa_inj
    by (auto simp: dedupKeyForMessage_def callback_types)
qed (use assms in \<open>auto simp: dedupKeyForMessage_def callback_types\<close>)

end
