(* ===== verification/Delivery.thy ===== *)
theory Delivery
  imports Kafka_Messages Sql_Stores
begin

text \<open>
  Callback delivery (internal/callback/delivery.go) as one worker sees it: building and posting the
  payload, deduplication, the retry schedule and the dead-letter queue. How the workers and the
  consumer interleave is the subject of Stump_Gate.

  One call of \<open>processDelivery\<close> happens in an environment: the deduplication store as it answers
  then, the STUMP store, the reply of the callback receiver, the outcomes of the DLQ producer and the
  clock (in nanoseconds).
\<close>

section \<open>Configuration, environment and state\<close>

record CallbackConfig =
  MaxRetries :: int
  BackoffBaseSec :: int
  DedupTTLSec :: int
  DeliveryWorkers :: int
  MaxConnsPerHost :: int
  MaxIdleConnsPerHost :: int

text \<open>The defaults \<open>Init\<close> and \<open>Start\<close> put in for values that are not positive.\<close>

definition maxConnsPerHost :: "CallbackConfig \<Rightarrow> int" where
  "maxConnsPerHost cfg = (if MaxConnsPerHost cfg \<le> 0 then 32 else MaxConnsPerHost cfg)"

definition maxIdleConnsPerHost :: "CallbackConfig \<Rightarrow> int" where
  "maxIdleConnsPerHost cfg = (if MaxIdleConnsPerHost cfg \<le> 0 then 16 else MaxIdleConnsPerHost cfg)"

definition workerCount :: "CallbackConfig \<Rightarrow> nat" where
  "workerCount cfg = nat (if DeliveryWorkers cfg \<le> 0 then 64 else DeliveryWorkers cfg)"

record callbackPayload =
  pl_Type :: string
  pl_TxID :: string
  pl_TxIDs :: "string list"
  pl_BlockHash :: string
  pl_SubtreeIndex :: int
  pl_Stump :: string

record httpPost =
  postURL :: string
  postBody :: string
  postIdempotencyKey :: string

text \<open>A response body is the bytes that can be read and whether reading ends in an error.\<close>

datatype postReply = PostFailed string | PostReply int bytes bool

datatype deliveryErr = Permanent string | Transient string

definition isPermanentDeliveryError :: "deliveryErr \<Rightarrow> bool" where
  "isPermanentDeliveryError e = (case e of Permanent _ \<Rightarrow> True | Transient _ \<Rightarrow> False)"

text \<open>The interface \<open>CallbackDeduper\<close>, at the time of a call.\<close>

record 'd dedupOps =
  opExists :: "string \<Rightarrow> string \<Rightarrow> string \<Rightarrow> 'd \<Rightarrow> string + bool"
  opRecord :: "string \<Rightarrow> string \<Rightarrow> string \<Rightarrow> int \<Rightarrow> 'd \<Rightarrow> string option \<times> 'd"

record 'd env =
  eNow :: int
  eDedup :: "'d dedupOps option"
  eStump :: "(string \<Rightarrow> stumpErr + bytes) option"
  eMarshal :: "callbackPayload \<Rightarrow> string + string"
  eReqErr :: "string option"
  ePost :: "httpPost \<Rightarrow> postReply"
  eDlq :: "nat \<Rightarrow> string option"

record 'd DeliveryService =
  dsCfg :: CallbackConfig
  dsDedup :: 'd
  shuttingDown :: bool
  posts :: "httpPost list"
  parked :: "(CallbackTopicMessage \<times> int) list"
  dlqTopic :: "CallbackTopicMessage topic"
  messagesProcessed :: int
  messagesRetried :: int
  messagesFailed :: int
  messagesDedupe :: int

section \<open>Posting the payload\<close>

definition readBodyCapped :: "bytes \<Rightarrow> bool \<Rightarrow> nat \<Rightarrow> bytes \<times> bool" where
  "readBodyCapped body fails mx =
     (if fails \<and> length body < mx then (body, False) else (take mx body, mx < length body))"

definition statusError :: "int \<Rightarrow> bytes \<Rightarrow> bool \<Rightarrow> string" where
  "statusError status body fails =
     (let snippet = take 256 (fst (readBodyCapped body fails 4096))
      in if snippet = [] then ''callback returned non-2xx status: '' @ Itoa status
         else ''callback returned non-2xx status: '' @ Itoa status @ '': '' @ map (char_of \<circ> unat) snippet)"

text \<open>The STUMP part of the payload: the blob behind the reference, as hex.\<close>

definition stumpPayload :: "'d env \<Rightarrow> CallbackTopicMessage \<Rightarrow> deliveryErr + string" where
  "stumpPayload e msg =
     (if Type msg = CallbackStump \<and> StumpRef msg \<noteq> '''' then
        (case eStump e of
           None \<Rightarrow> Inl (Permanent ''stump store not configured for STUMP delivery'')
         | Some get \<Rightarrow> (case get (StumpRef msg) of
             Inl (ErrStumpNotFound r) \<Rightarrow> Inl (Permanent (''stump blob missing for ref '' @ StumpRef msg))
           | Inl err \<Rightarrow> Inl (Transient (''fetching stump ref '' @ StumpRef msg))
           | Inr bs \<Rightarrow> Inr (hexEncode bs)))
      else Inr '''')"

definition payloadFor :: "CallbackTopicMessage \<Rightarrow> string \<Rightarrow> callbackPayload" where
  "payloadFor msg stump = \<lparr>pl_Type = Type msg, pl_TxID = msgTxID msg, pl_TxIDs = msgTxIDs msg,
     pl_BlockHash = BlockHash msg, pl_SubtreeIndex = msgSubtreeIndex msg, pl_Stump = stump\<rparr>"

text \<open>Returns the request sent, if any, and the error, if any.\<close>

definition deliverCallback ::
    "(string \<Rightarrow> 256 word) \<Rightarrow> 'd env \<Rightarrow> CallbackTopicMessage \<Rightarrow> httpPost option \<times> deliveryErr option" where
  "deliverCallback sha256 e msg = (case stumpPayload e msg of
      Inl err \<Rightarrow> (None, Some err)
    | Inr stump \<Rightarrow> (case eMarshal e (payloadFor msg stump) of
        Inl err \<Rightarrow> (None, Some (Transient (''failed to marshal callback payload: '' @ err)))
      | Inr body \<Rightarrow> (case eReqErr e of
          Some err \<Rightarrow> (None, Some (Transient (''failed to create HTTP request: '' @ err)))
        | None \<Rightarrow>
            (let req = \<lparr>postURL = CallbackURL msg, postBody = body, postIdempotencyKey = buildIdempotencyKey sha256 msg\<rparr>
             in case ePost e req of
                  PostFailed err \<Rightarrow> (Some req, Some (Transient (''HTTP request failed: '' @ err)))
                | PostReply status rbody fails \<Rightarrow>
                    (Some req, if 200 \<le> status \<and> status < 300 then None
                               else Some (Transient (statusError status rbody fails)))))))"

section \<open>Retries and the dead-letter queue\<close>

definition scheduleRetry :: "CallbackTopicMessage \<Rightarrow> int \<Rightarrow> 'd DeliveryService \<Rightarrow> 'd DeliveryService" where
  "scheduleRetry msg delay s = (if shuttingDown s then s else s\<lparr>parked := parked s @ [(msg, delay)]\<rparr>)"

definition bumpRetry :: "CallbackConfig \<Rightarrow> int \<Rightarrow> CallbackTopicMessage \<Rightarrow> CallbackTopicMessage" where
  "bumpRetry cfg now msg =
     (let n = RetryCount msg + 1
      in msg\<lparr>RetryCount := n, NextRetryAt := Some (now + BackoffBaseSec cfg * n * 1000000000)\<rparr>)"

definition scheduleRetryAfterFailure :: "int \<Rightarrow> CallbackTopicMessage \<Rightarrow> 'd DeliveryService \<Rightarrow> 'd DeliveryService" where
  "scheduleRetryAfterFailure now msg s =
     (let msg' = bumpRetry (dsCfg s) now msg
      in scheduleRetry msg' (BackoffBaseSec (dsCfg s) * RetryCount msg' * 1000000000)
           (s\<lparr>messagesRetried := messagesRetried s + 1\<rparr>))"

text \<open>The callback of the retry timer: dropped on shutdown, otherwise back to the work channel.\<close>

definition timerFires :: "'d DeliveryService \<Rightarrow> CallbackTopicMessage list \<Rightarrow> CallbackTopicMessage list \<times> 'd DeliveryService" where
  "timerFires s workCh = (case parked s of
      [] \<Rightarrow> (workCh, s)
    | (msg, delay) # rest \<Rightarrow>
        (if shuttingDown s then workCh else workCh @ [msg], s\<lparr>parked := rest\<rparr>))"

definition dlqDelays :: "int list" where
  "dlqDelays = [0, 500000000, 1000000000, 2000000000]"

definition publishToDLQ ::
    "(string \<Rightarrow> 256 word) \<Rightarrow> string option \<Rightarrow> CallbackTopicMessage \<Rightarrow> CallbackTopicMessage topic
     \<Rightarrow> string option \<times> CallbackTopicMessage topic" where
  "publishToDLQ sha256 err msg t = PublishWithHashKey sha256 err (CallbackURL msg) msg t"

text \<open>The loop over the delays; \<open>i\<close> is the number of the attempt. The flag says whether it was published.\<close>

primrec dlqLoop ::
    "(string \<Rightarrow> 256 word) \<Rightarrow> (nat \<Rightarrow> string option) \<Rightarrow> CallbackTopicMessage \<Rightarrow> int list \<Rightarrow> nat
     \<Rightarrow> CallbackTopicMessage topic \<Rightarrow> bool \<times> CallbackTopicMessage topic" where
  "dlqLoop sha256 errs msg [] i t = (False, t)"
| "dlqLoop sha256 errs msg (delay # delays) i t =
     (case publishToDLQ sha256 (errs i) msg t of
        (Some err, t') \<Rightarrow> dlqLoop sha256 errs msg delays (Suc i) t'
      | (None, t') \<Rightarrow> (True, t'))"

definition publishToDLQWithRetry ::
    "(string \<Rightarrow> 256 word) \<Rightarrow> 'd env \<Rightarrow> CallbackTopicMessage \<Rightarrow> 'd DeliveryService \<Rightarrow> 'd DeliveryService" where
  "publishToDLQWithRetry sha256 e msg s = s\<lparr>dlqTopic := snd (dlqLoop sha256 (eDlq e) msg dlqDelays 0 (dlqTopic s))\<rparr>"

section \<open>Processing one message\<close>

text \<open>The answer of the duplicate check: no store or no key means not delivered yet.\<close>

definition checkDedup :: "(string \<Rightarrow> 256 word) \<Rightarrow> 'd env \<Rightarrow> CallbackTopicMessage \<Rightarrow> 'd \<Rightarrow> string + bool" where
  "checkDedup sha256 e msg d = (case eDedup e of
      None \<Rightarrow> Inr False
    | Some ops \<Rightarrow>
        (let key = dedupKeyForMessage sha256 msg
         in if key = '''' then Inr False else opExists ops key (CallbackURL msg) (Type msg) d))"

definition recordDedup :: "(string \<Rightarrow> 256 word) \<Rightarrow> 'd env \<Rightarrow> CallbackTopicMessage \<Rightarrow> 'd DeliveryService \<Rightarrow> 'd DeliveryService" where
  "recordDedup sha256 e msg s = (case eDedup e of
      None \<Rightarrow> s
    | Some ops \<Rightarrow>
        (let key = dedupKeyForMessage sha256 msg
         in if key = '''' then s
            else s\<lparr>dsDedup := snd (opRecord ops key (CallbackURL msg) (Type msg) (DedupTTLSec (dsCfg s)) (dsDedup s))\<rparr>))"

text \<open>\<open>processDelivery\<close> from the duplicate check on, behind the gate.\<close>

definition processDelivery ::
    "(string \<Rightarrow> 256 word) \<Rightarrow> 'd env \<Rightarrow> CallbackTopicMessage \<Rightarrow> 'd DeliveryService \<Rightarrow> 'd DeliveryService" where
  "processDelivery sha256 e msg s = (case checkDedup sha256 e msg (dsDedup s) of
      Inl err \<Rightarrow> scheduleRetryAfterFailure (eNow e) msg s
    | Inr True \<Rightarrow> s\<lparr>messagesDedupe := messagesDedupe s + 1\<rparr>
    | Inr False \<Rightarrow>
        (let (req, err) = deliverCallback sha256 e msg;
             s = s\<lparr>posts := posts s @ (case req of None \<Rightarrow> [] | Some r \<Rightarrow> [r])\<rparr>
         in case err of
              None \<Rightarrow> (let s = recordDedup sha256 e msg s in s\<lparr>messagesProcessed := messagesProcessed s + 1\<rparr>)
            | Some er \<Rightarrow>
                if isPermanentDeliveryError er \<or> RetryCount msg \<ge> MaxRetries (dsCfg s)
                then publishToDLQWithRetry sha256 e msg (s\<lparr>messagesFailed := messagesFailed s + 1\<rparr>)
                else scheduleRetryAfterFailure (eNow e) msg s))"

section \<open>Accepting a message\<close>

datatype handled = Rejected string | ParkedFor CallbackTopicMessage int | Dispatched CallbackTopicMessage bool

text \<open>
  What \<open>handleMessage\<close> does with a decoded record: a retry that is not due is parked, anything else
  goes to the workers; the flag says whether the gate is told of a STUMP on its first attempt.
\<close>

definition firstStump :: "CallbackTopicMessage \<Rightarrow> bool" where
  "firstStump msg \<longleftrightarrow> Type msg = CallbackStump \<and> RetryCount msg = 0"

definition handleMessage :: "int \<Rightarrow> string + CallbackTopicMessage \<Rightarrow> handled" where
  "handleMessage now decoded = (case decoded of
      Inl err \<Rightarrow> Rejected err
    | Inr msg \<Rightarrow> (case NextRetryAt msg of
        Some t \<Rightarrow> if now < t then ParkedFor msg (t - now) else Dispatched msg (firstStump msg)
      | None \<Rightarrow> Dispatched msg (firstStump msg)))"

definition Health :: "bool \<Rightarrow> string" where
  "Health isStarted = (if isStarted then ''healthy'' else ''unhealthy'')"

section \<open>Every message is settled\<close>

text \<open>
  The life of one message: processed in the first environment and, as long as it is parked for a
  retry, again in the next one. The second component is the message if it is still waiting.
\<close>

primrec drive ::
    "(string \<Rightarrow> 256 word) \<Rightarrow> 'd env list \<Rightarrow> CallbackTopicMessage \<Rightarrow> 'd DeliveryService
     \<Rightarrow> 'd DeliveryService \<times> CallbackTopicMessage option" where
  "drive sha [] msg s = (s, Some msg)"
| "drive sha (e # es) msg s =
     (let s' = processDelivery sha e msg s
      in case drop (length (parked s)) (parked s') of
           [] \<Rightarrow> (s', None)
         | (msg', delay) # _ \<Rightarrow> drive sha es msg' (s'\<lparr>parked := parked s\<rparr>))"

definition sameCallback :: "CallbackTopicMessage \<Rightarrow> CallbackTopicMessage \<Rightarrow> bool" where
  "sameCallback m m' \<longleftrightarrow> m' = m\<lparr>RetryCount := RetryCount m', NextRetryAt := NextRetryAt m'\<rparr>"

lemma sameCallback_refl [simp]: "sameCallback m m"
  by (simp add: sameCallback_def)

lemma sameCallback_bump: "sameCallback (bumpRetry cfg now m) m' \<Longrightarrow> sameCallback m m'"
  by (cases m, cases m') (auto simp: sameCallback_def bumpRetry_def Let_def)

lemma sameCallback_url: "sameCallback m m' \<Longrightarrow> CallbackURL m' = CallbackURL m"
  unfolding sameCallback_def by (metis CallbackTopicMessage.select_convs(1) CallbackTopicMessage.surjective
      CallbackTopicMessage.update_convs(8,9))

lemma bumpRetry_simps [simp]:
  "RetryCount (bumpRetry cfg now m) = RetryCount m + 1" "CallbackURL (bumpRetry cfg now m) = CallbackURL m"
  by (simp_all add: bumpRetry_def Let_def)

text \<open>The deduplication store answers, and the DLQ accepts one of the four attempts.\<close>

definition dedupUp :: "(string \<Rightarrow> 256 word) \<Rightarrow> 'd env \<Rightarrow> bool" where
  "dedupUp sha e \<longleftrightarrow> (\<forall>m d. \<exists>b. checkDedup sha e m d = Inr b)"

definition dlqUp :: "'d env \<Rightarrow> bool" where
  "dlqUp e \<longleftrightarrow> (\<exists>i<4. eDlq e i = None)"

lemma dlqLoop_up:
  assumes "\<exists>i<length delays. errs (k + i) = None"
  shows "dlqLoop sha errs m delays k t = (True, t @ [(HashPartitionKey sha (CallbackURL m), m)])"
  using assms
proof (induction delays arbitrary: k)
  case (Cons d ds)
  show ?case
  proof (cases "errs k")
    case None
    then show ?thesis by (simp add: publishToDLQ_def PublishWithHashKey_def Publish_def)
  next
    case (Some e)
    then obtain i where "i < length (d # ds)" "errs (k + i) = None" "i \<noteq> 0"
      using Cons.prems by (metis add.right_neutral option.distinct(1))
    then have "\<exists>i<length ds. errs (Suc k + i) = None" by (intro exI [of _ "i - 1"]) auto
    then show ?thesis using Cons.IH [of "Suc k"] Some
      by (simp add: publishToDLQ_def PublishWithHashKey_def Publish_def)
  qed
qed simp

lemma publishToDLQ_up:
  "dlqUp e \<Longrightarrow> dlqTopic (publishToDLQWithRetry sha e m s) = dlqTopic s @ [(HashPartitionKey sha (CallbackURL m), m)]"
proof -
  assume "dlqUp e"
  moreover have "length dlqDelays = 4" by (simp add: dlqDelays_def)
  ultimately have "\<exists>i<length dlqDelays. eDlq e (0 + i) = None" by (simp only: dlqUp_def add_0)
  from dlqLoop_up [OF this, of sha m "dlqTopic s"] show ?thesis by (simp add: publishToDLQWithRetry_def)
qed

lemma publishToDLQWithRetry_frame [simp]:
  "parked (publishToDLQWithRetry sha e m s) = parked s" "posts (publishToDLQWithRetry sha e m s) = posts s"
  "messagesFailed (publishToDLQWithRetry sha e m s) = messagesFailed s"
  "messagesProcessed (publishToDLQWithRetry sha e m s) = messagesProcessed s"
  "messagesDedupe (publishToDLQWithRetry sha e m s) = messagesDedupe s"
  "dsCfg (publishToDLQWithRetry sha e m s) = dsCfg s" "dsDedup (publishToDLQWithRetry sha e m s) = dsDedup s"
  by (simp_all add: publishToDLQWithRetry_def)

lemma recordDedup_frame [simp]:
  "parked (recordDedup sha e m s) = parked s" "posts (recordDedup sha e m s) = posts s"
  "messagesFailed (recordDedup sha e m s) = messagesFailed s"
  "messagesProcessed (recordDedup sha e m s) = messagesProcessed s"
  "messagesDedupe (recordDedup sha e m s) = messagesDedupe s"
  "dlqTopic (recordDedup sha e m s) = dlqTopic s" "dsCfg (recordDedup sha e m s) = dsCfg s"
  by (simp_all add: recordDedup_def Let_def split: option.split)

lemma scheduleRetryAfterFailure_frame [simp]:
  "posts (scheduleRetryAfterFailure now m s) = posts s"
  "messagesFailed (scheduleRetryAfterFailure now m s) = messagesFailed s"
  "messagesProcessed (scheduleRetryAfterFailure now m s) = messagesProcessed s"
  "messagesDedupe (scheduleRetryAfterFailure now m s) = messagesDedupe s"
  "dlqTopic (scheduleRetryAfterFailure now m s) = dlqTopic s"
  "dsCfg (scheduleRetryAfterFailure now m s) = dsCfg s"
  "dsDedup (scheduleRetryAfterFailure now m s) = dsDedup s"
  "shuttingDown (scheduleRetryAfterFailure now m s) = shuttingDown s"
  by (simp_all add: scheduleRetryAfterFailure_def scheduleRetry_def Let_def)

lemma scheduleRetryAfterFailure_parked:
  "\<not> shuttingDown s \<Longrightarrow> \<exists>delay. parked (scheduleRetryAfterFailure now m s) = parked s @ [(bumpRetry (dsCfg s) now m, delay)]"
  by (simp add: scheduleRetryAfterFailure_def scheduleRetry_def Let_def)

text \<open>What a message in state \<open>s\<close> has become in state \<open>s'\<close>.\<close>

definition settledAs :: "(string \<Rightarrow> 256 word) \<Rightarrow> CallbackTopicMessage \<Rightarrow> 'd DeliveryService \<Rightarrow> 'd DeliveryService \<Rightarrow> bool" where
  "settledAs sha m s s' \<longleftrightarrow>
     messagesProcessed s' = messagesProcessed s + 1 \<and> dlqTopic s' = dlqTopic s
   \<or> messagesDedupe s' = messagesDedupe s + 1 \<and> dlqTopic s' = dlqTopic s
   \<or> messagesFailed s' = messagesFailed s + 1
       \<and> (\<exists>m'. sameCallback m m' \<and> dlqTopic s' = dlqTopic s @ [(HashPartitionKey sha (CallbackURL m), m')])"

lemma processDelivery_cases:
  assumes "dedupUp sha e" and "dlqUp e" and "\<not> shuttingDown s" and "RetryCount m \<le> MaxRetries (dsCfg s)"
  obtains (settled) "settledAs sha m s (processDelivery sha e m s)" "parked (processDelivery sha e m s) = parked s"
      "length (posts (processDelivery sha e m s)) \<le> Suc (length (posts s))"
    | (retry) s1 delay where "processDelivery sha e m s = s1\<lparr>parked := parked s @ [(bumpRetry (dsCfg s) (eNow e) m, delay)]\<rparr>"
      "RetryCount m < MaxRetries (dsCfg s)" "length (posts s1) \<le> Suc (length (posts s))"
      "dsCfg s1 = dsCfg s" "\<not> shuttingDown s1" "dlqTopic s1 = dlqTopic s" "messagesProcessed s1 = messagesProcessed s"
      "messagesDedupe s1 = messagesDedupe s" "messagesFailed s1 = messagesFailed s"
proof -
  obtain b where b: "checkDedup sha e m (dsDedup s) = Inr b" using assms(1) by (auto simp: dedupUp_def)
  obtain req err where dc: "deliverCallback sha e m = (req, err)" by fastforce
  let ?s = "s\<lparr>posts := posts s @ (case req of None \<Rightarrow> [] | Some r \<Rightarrow> [r])\<rparr>"
  have len: "length (posts ?s) \<le> Suc (length (posts s))" by (simp split: option.split)
  consider "b" | "\<not> b" "err = None"
    | er where "\<not> b" "err = Some er" "isPermanentDeliveryError er \<or> RetryCount m \<ge> MaxRetries (dsCfg s)"
    | er where "\<not> b" "err = Some er" "\<not> (isPermanentDeliveryError er \<or> RetryCount m \<ge> MaxRetries (dsCfg s))"
    by (cases b; cases err) auto
  then show thesis
  proof cases
    case 1
    then show ?thesis using settled b by (simp add: processDelivery_def settledAs_def)
  next
    case 2
    then show ?thesis using settled b dc len by (simp add: processDelivery_def settledAs_def Let_def)
  next
    case (3 er)
    then have "processDelivery sha e m s = publishToDLQWithRetry sha e m (?s\<lparr>messagesFailed := messagesFailed s + 1\<rparr>)"
      using b dc by (simp add: processDelivery_def Let_def)
    then show ?thesis using settled len publishToDLQ_up [OF assms(2)] by (auto simp: settledAs_def)
  next
    case (4 er)
    then have p: "processDelivery sha e m s = scheduleRetryAfterFailure (eNow e) m ?s"
      using b dc by (simp add: processDelivery_def Let_def)
    obtain delay where "parked (scheduleRetryAfterFailure (eNow e) m ?s) = parked s @ [(bumpRetry (dsCfg s) (eNow e) m, delay)]"
      using scheduleRetryAfterFailure_parked [of ?s "eNow e" m] assms(3) by auto
    then show ?thesis using retry [of delay "scheduleRetryAfterFailure (eNow e) m ?s"] p 4 len assms(3)
      by (simp add: not_le)
  qed
qed

lemma drive_settles:
  assumes "\<not> shuttingDown s" and "RetryCount m \<le> MaxRetries (dsCfg s)"
    and "\<forall>e \<in> set es. dedupUp sha e \<and> dlqUp e" and "nat (MaxRetries (dsCfg s) - RetryCount m) < length es"
  shows "\<exists>s'. drive sha es m s = (s', None) \<and> settledAs sha m s s'
    \<and> length (posts s') \<le> length (posts s) + Suc (nat (MaxRetries (dsCfg s) - RetryCount m))"
  using assms
proof (induction es arbitrary: m s)
  case (Cons e es)
  have up: "dedupUp sha e" "dlqUp e" using Cons.prems(3) by auto
  from up Cons.prems(1,2) show ?case
  proof (cases rule: processDelivery_cases)
    case settled
    then show ?thesis by simp
  next
    case (retry s1 delay)
    let ?m = "bumpRetry (dsCfg s) (eNow e) m" and ?s = "s1\<lparr>parked := parked s\<rparr>"
    have "\<exists>s'. drive sha es ?m ?s = (s', None) \<and> settledAs sha ?m ?s s'
      \<and> length (posts s') \<le> length (posts ?s) + Suc (nat (MaxRetries (dsCfg ?s) - RetryCount ?m))"
      using retry Cons.prems by (intro Cons.IH) auto
    then obtain s' where s': "drive sha es ?m ?s = (s', None)" "settledAs sha ?m ?s s'"
      "length (posts s') \<le> length (posts ?s) + Suc (nat (MaxRetries (dsCfg ?s) - RetryCount ?m))" by blast
    have "settledAs sha m s s'" using s'(2) retry sameCallback_bump by (auto simp: settledAs_def)
    moreover have "nat (MaxRetries (dsCfg s) - RetryCount m) = Suc (nat (MaxRetries (dsCfg s) - RetryCount ?m))"
      using retry(2) by simp
    ultimately show ?thesis using s' retry by (simp add: Let_def)
  qed
qed simp

text \<open>
  C15: No callback is lost and none is retried for ever. While the service runs, the deduplication
  store answers and the dead-letter topic accepts one of the four attempts, a new message is settled
  after at most \<open>MaxRetries + 1\<close> rounds, whatever the receiver, the STUMP store and the network do: it
  was delivered (a 2xx reply), or it was recognised as a duplicate, or it is on the dead-letter topic
  under the partition key of its URL, unchanged but for its retry fields; and at most \<open>MaxRetries + 1\<close>
  requests were sent.
\<close>

theorem delivery_settles:
  assumes "\<not> shuttingDown s" and "RetryCount m = 0" and "0 \<le> MaxRetries (dsCfg s)"
    and "\<forall>e \<in> set es. dedupUp sha e \<and> dlqUp e" and "length es = nat (MaxRetries (dsCfg s)) + 1"
  shows "\<exists>s'. drive sha es m s = (s', None) \<and> settledAs sha m s s'
    \<and> length (posts s') \<le> length (posts s) + nat (MaxRetries (dsCfg s)) + 1"
  using drive_settles [of s m es sha] assms by simp

definition downEnv :: "unit env" where
  "downEnv = \<lparr>eNow = 0, eDedup = None, eStump = None, eMarshal = (\<lambda>p. Inr (pl_Type p)), eReqErr = None,
     ePost = (\<lambda>_. PostReply 503 [] False), eDlq = (\<lambda>i. if i = 0 then Some ''broker'' else None)\<rparr>"

definition idleService :: "CallbackConfig \<Rightarrow> 'd \<Rightarrow> 'd DeliveryService" where
  "idleService cfg d = \<lparr>dsCfg = cfg, dsDedup = d, shuttingDown = False, posts = [], parked = [], dlqTopic = [],
     messagesProcessed = 0, messagesRetried = 0, messagesFailed = 0, messagesDedupe = 0\<rparr>"

definition cfg2 :: CallbackConfig where
  "cfg2 = \<lparr>MaxRetries = 2, BackoffBaseSec = 30, DedupTTLSec = 600, DeliveryWorkers = 1, MaxConnsPerHost = 0, MaxIdleConnsPerHost = 0\<rparr>"

theorem delivery_settles_witness:
  "\<exists>s'. drive (\<lambda>_. 0) [downEnv, downEnv, downEnv] (emptyCallback ''http://cb'' CallbackSeenOnNetwork) (idleService cfg2 ()) = (s', None)
     \<and> settledAs (\<lambda>_. 0) (emptyCallback ''http://cb'' CallbackSeenOnNetwork) (idleService cfg2 ()) s' \<and> length (posts s') \<le> 3"
proof -
  have "dedupUp (\<lambda>_. 0) downEnv" by (auto simp: dedupUp_def downEnv_def checkDedup_def)
  moreover have "dlqUp downEnv" unfolding dlqUp_def by (intro exI [of _ 1]) (simp add: downEnv_def)
  ultimately have up: "\<forall>e \<in> set [downEnv, downEnv, downEnv]. dedupUp (\<lambda>_. 0) e \<and> dlqUp e" by simp
  have s: "\<not> shuttingDown (idleService cfg2 ())" "MaxRetries (dsCfg (idleService cfg2 ())) = 2" "posts (idleService cfg2 ()) = []"
    by (simp_all add: idleService_def cfg2_def)
  have "RetryCount (emptyCallback ''http://cb'' CallbackSeenOnNetwork) = 0" by (simp add: emptyCallback_def)
  from delivery_settles [OF s(1) this _ up] s(2,3) show ?thesis by (simp del: drive.simps add: eval_nat_numeral)
qed

text \<open>A failing duplicate check parks the message whatever its retry count.\<close>

lemma dedup_outage_retries:
  assumes "checkDedup sha e m (dsDedup s) = Inl err" and "\<not> shuttingDown s"
  shows "\<exists>delay. parked (processDelivery sha e m s) = parked s @ [(bumpRetry (dsCfg s) (eNow e) m, delay)]"
  using assms scheduleRetryAfterFailure_parked by (simp add: processDelivery_def)

section \<open>Deduplication\<close>

text \<open>
  What delivery relies on: \<open>ops t\<close> are the operations at time \<open>t\<close>, \<open>until d x\<close> is the time up to which
  the store remembers the triple \<open>x\<close> of key, URL and type.
\<close>

locale dedup_store =
  fixes ops :: "int \<Rightarrow> 'd dedupOps"
    and inv :: "'d \<Rightarrow> bool"
    and until :: "'d \<Rightarrow> string \<times> string \<times> string \<Rightarrow> int \<Rightarrow> bool"
  assumes exists: "inv d \<Longrightarrow> opExists (ops t) k u st d = Inr (until d (k, u, st) t)"
    and record_inv: "inv d \<Longrightarrow> inv (snd (opRecord (ops t) k u st ttl d))"
    and record_new: "inv d \<Longrightarrow> 0 < ttl \<Longrightarrow> t' < t + ttl \<Longrightarrow> until (snd (opRecord (ops t) k u st ttl d)) (k, u, st) t'"
    and record_old: "inv d \<Longrightarrow> 0 < ttl \<Longrightarrow> until d x t' \<Longrightarrow> t' < t + ttl \<Longrightarrow> until (snd (opRecord (ops t) k u st ttl d)) x t'"
begin

definition at :: "int \<Rightarrow> 'd env \<Rightarrow> bool" where
  "at t e \<longleftrightarrow> eDedup e = Some (ops t)"

lemma checkDedup_at:
  assumes "at t e" and "inv d" and "dedupKeyForMessage sha m \<noteq> ''''"
  shows "checkDedup sha e m d = Inr (until d (dedupKeyForMessage sha m, CallbackURL m, Type m) t)"
  using assms exists by (simp add: checkDedup_def at_def Let_def)

lemma recordDedup_at:
  assumes "at t e" and "inv (dsDedup s)" and "0 < DedupTTLSec (dsCfg s)"
  shows "inv (dsDedup (recordDedup sha e m s))"
    and "dedupKeyForMessage sha m \<noteq> '''' \<Longrightarrow> t' < t + DedupTTLSec (dsCfg s) \<Longrightarrow>
      until (dsDedup (recordDedup sha e m s)) (dedupKeyForMessage sha m, CallbackURL m, Type m) t'"
    and "until (dsDedup s) x t' \<Longrightarrow> t' < t + DedupTTLSec (dsCfg s) \<Longrightarrow> until (dsDedup (recordDedup sha e m s)) x t'"
  using assms record_inv record_new record_old by (simp_all add: recordDedup_def at_def Let_def)

text \<open>Processing a message either leaves the store alone or records its triple.\<close>

lemma processDelivery_dedup:
  "dsDedup (processDelivery sha e m s) = dsDedup s
   \<or> dsDedup (processDelivery sha e m s) = dsDedup (recordDedup sha e m s)"
proof -
  have "dsDedup (recordDedup sha e m (s\<lparr>posts := p\<rparr>)) = dsDedup (recordDedup sha e m s)" for p
    by (simp add: recordDedup_def Let_def split: option.split)
  then show ?thesis
    by (auto simp: processDelivery_def Let_def split: sum.splits bool.splits prod.splits option.splits)
qed

lemma processDelivery_keeps:
  assumes "at t e" and "inv (dsDedup s)" and "0 < DedupTTLSec (dsCfg s)"
  shows "inv (dsDedup (processDelivery sha e m s))"
    and "until (dsDedup s) x t' \<Longrightarrow> t' < t + DedupTTLSec (dsCfg s) \<Longrightarrow> until (dsDedup (processDelivery sha e m s)) x t'"
  using processDelivery_dedup [of sha e m s] recordDedup_at(1) [OF assms, of sha m]
    recordDedup_at(3) [OF assms, of x t' sha m] assms(2) by auto

lemma dsCfg_processDelivery [simp]: "dsCfg (processDelivery sha e m s) = dsCfg s"
  by (auto simp: processDelivery_def Let_def split: sum.splits bool.splits prod.splits option.splits)

definition runCalls :: "(string \<Rightarrow> 256 word) \<Rightarrow> (int \<times> 'd env \<times> CallbackTopicMessage) list \<Rightarrow> 'd DeliveryService \<Rightarrow> 'd DeliveryService" where
  "runCalls sha calls s = fold (\<lambda>(t, e, m) s. processDelivery sha e m s) calls s"

lemma runCalls_keeps:
  assumes "\<forall>(t, e, m) \<in> set calls. at t e \<and> t' < t + DedupTTLSec (dsCfg s)"
    and "inv (dsDedup s)" and "0 < DedupTTLSec (dsCfg s)" and "until (dsDedup s) x t'"
  shows "inv (dsDedup (runCalls sha calls s)) \<and> until (dsDedup (runCalls sha calls s)) x t'
    \<and> dsCfg (runCalls sha calls s) = dsCfg s"
  using assms
proof (induction calls arbitrary: s)
  case (Cons c calls)
  obtain t e m where c: "c = (t, e, m)" by (cases c)
  show ?case using Cons.IH [of "processDelivery sha e m s"] processDelivery_keeps [of t e s] Cons.prems
    by (simp add: runCalls_def c)
qed (simp add: runCalls_def)

text \<open>After a success, no message with the same triple is posted during the time to live.\<close>

lemma no_second_post:
  assumes "at t0 e0" and "inv (dsDedup s)" and "0 < DedupTTLSec (dsCfg s)"
    and "checkDedup sha e0 m (dsDedup s) = Inr False" and "snd (deliverCallback sha e0 m) = None"
    and "dedupKeyForMessage sha m \<noteq> ''''"
    and "(dedupKeyForMessage sha m', CallbackURL m', Type m') = (dedupKeyForMessage sha m, CallbackURL m, Type m)"
    and "\<forall>(t, e, m) \<in> set calls. at t e \<and> t0 \<le> t" and "at t e" and "t < t0 + DedupTTLSec (dsCfg s)"
  defines "s1 \<equiv> runCalls sha calls (processDelivery sha e0 m s)"
  shows "processDelivery sha e m' s1 = s1\<lparr>messagesDedupe := messagesDedupe s1 + 1\<rparr>"
proof -
  let ?x = "(dedupKeyForMessage sha m, CallbackURL m, Type m)" and ?p = "processDelivery sha e0 m s"
  have "dsDedup (recordDedup sha e0 m (s\<lparr>posts := p\<rparr>)) = dsDedup (recordDedup sha e0 m s)" for p
    by (simp add: recordDedup_def Let_def split: option.split)
  then have p: "dsDedup ?p = dsDedup (recordDedup sha e0 m s)"
    using assms(4,5) by (auto simp: processDelivery_def Let_def split: prod.splits)
  have inv: "inv (dsDedup ?p)" and u: "until (dsDedup ?p) ?x t"
    using recordDedup_at(1,2) [OF assms(1-3)] assms(6,10) by (simp_all add: p)
  have "\<forall>(t'', e, m) \<in> set calls. at t'' e \<and> t < t'' + DedupTTLSec (dsCfg ?p)" using assms(8,10) by auto
  then have "inv (dsDedup s1)" "until (dsDedup s1) ?x t"
    using runCalls_keeps [of calls t ?p ?x sha] inv u assms(3) by (simp_all add: s1_def)
  then have "checkDedup sha e m' (dsDedup s1) = Inr True"
    using checkDedup_at [OF assms(9)] assms(6,7) by simp
  then show ?thesis by (simp add: processDelivery_def)
qed

end

text \<open>The SQL store as the deduper of the delivery service.\<close>

definition sqlOps :: "(string \<Rightarrow> 256 word) \<Rightarrow> int \<Rightarrow> db dedupOps" where
  "sqlOps sha t = \<lparr>
     opExists = (\<lambda>k u st d. case dedupExists sha t None k u st d of Inl e \<Rightarrow> Inl ''sql'' | Inr b \<Rightarrow> Inr b),
     opRecord = (\<lambda>k u st ttl d. let (r, d') = dedupRecord sha t None k u st ttl d
                   in (case r of Inl e \<Rightarrow> Some ''sql'' | Inr _ \<Rightarrow> None, d'))\<rparr>"

definition sqlRemembers :: "(string \<Rightarrow> 256 word) \<Rightarrow> db \<Rightarrow> string \<times> string \<times> string \<Rightarrow> int \<Rightarrow> bool" where
  "sqlRemembers sha d x t = (case x of (k, u, st) \<Rightarrow>
     list_ex (\<lambda>(j, e). j = dedupKey sha k u st \<and> live t e) (callback_dedup d))"

lemma sqlRemembers_record:
  assumes "distinct (map fst (callback_dedup d))" and "0 < ttl"
  shows "sqlRemembers sha (snd (opRecord (sqlOps sha t) k u st ttl d)) (k', u', st') t' =
    (if dedupKey sha k' u' st' = dedupKey sha k u st then t' < t + ttl else sqlRemembers sha d (k', u', st') t')"
  using list_ex_update [OF assms(1)] assms(2)
  by (simp add: sqlRemembers_def sqlOps_def dedupRecord_def sqlTx_def intervalSeconds_def live_def)

interpretation sqlDedup: dedup_store "sqlOps sha" "\<lambda>d. distinct (map fst (callback_dedup d))" "sqlRemembers sha" for sha
proof unfold_locales
  fix d t k u st
  show "opExists (sqlOps sha t) k u st d = Inr (sqlRemembers sha d (k, u, st) t)"
    by (simp add: sqlOps_def dedupExists_def sqlRead_def sqlRemembers_def)
next
  fix d :: db and t k u st and ttl :: int
  assume "distinct (map fst (callback_dedup d))"
  then show "distinct (map fst (callback_dedup (snd (opRecord (sqlOps sha t) k u st ttl d))))"
    by (simp add: sqlOps_def dedupRecord_def sqlTx_def distinct_update)
next
  fix d :: db and ttl t' t :: int and k u st
  assume "distinct (map fst (callback_dedup d))" "0 < ttl" "t' < t + ttl"
  then show "sqlRemembers sha (snd (opRecord (sqlOps sha t) k u st ttl d)) (k, u, st) t'"
    by (simp add: sqlRemembers_record)
next
  fix d :: db and ttl t' t :: int and x k u st
  assume "distinct (map fst (callback_dedup d))" "0 < ttl" "sqlRemembers sha d x t'" "t' < t + ttl"
  then show "sqlRemembers sha (snd (opRecord (sqlOps sha t) k u st ttl d)) x t'"
    by (cases x) (simp add: sqlRemembers_record)
qed

text \<open>
  C9: A callback is not delivered twice. Once a message was delivered and recorded in the SQL store,
  processing another message with the same deduplication key, URL and type (a redelivery by Kafka, a
  retry, a second copy) sends no request and changes nothing but the duplicate counter, for the
  whole configured time to live, whatever other messages were processed in between.
\<close>

theorem no_second_delivery:
  assumes "eDedup e0 = Some (sqlOps shaD t0)" and "distinct (map fst (callback_dedup (dsDedup s)))"
    and "0 < DedupTTLSec (dsCfg s)"
    and "checkDedup sha e0 m (dsDedup s) = Inr False" and "snd (deliverCallback sha e0 m) = None"
    and "dedupKeyForMessage sha m \<noteq> ''''"
    and "(dedupKeyForMessage sha m', CallbackURL m', Type m') = (dedupKeyForMessage sha m, CallbackURL m, Type m)"
    and "\<forall>(t, e, m) \<in> set calls. eDedup e = Some (sqlOps shaD t) \<and> t0 \<le> t"
    and "eDedup e = Some (sqlOps shaD t)" and "t < t0 + DedupTTLSec (dsCfg s)"
  defines "s1 \<equiv> fold (\<lambda>(t, e, m) s. processDelivery sha e m s) calls (processDelivery sha e0 m s)"
  shows "processDelivery sha e m' s1 = s1\<lparr>messagesDedupe := messagesDedupe s1 + 1\<rparr>"
  using sqlDedup.no_second_post [of shaD t0 e0 s sha m m' calls t e] assms
  by (simp add: sqlDedup.at_def sqlDedup.runCalls_def)

definition okEnv :: "int \<Rightarrow> db env" where
  "okEnv t = \<lparr>eNow = t * 1000000000, eDedup = Some (sqlOps (\<lambda>s. of_nat (length s)) t), eStump = None,
     eMarshal = (\<lambda>p. Inr (pl_Type p)), eReqErr = None, ePost = (\<lambda>_. PostReply 200 [] False), eDlq = (\<lambda>_. None)\<rparr>"

definition bpMessage :: CallbackTopicMessage where
  "bpMessage = (emptyCallback ''http://cb'' CallbackBlockProcessed)\<lparr>BlockHash := ''00ab''\<rparr>"

theorem no_second_delivery_witness:
  "let s1 = processDelivery (\<lambda>_. 0) (okEnv 5) bpMessage (idleService cfg2 emptyDb)
   in processDelivery (\<lambda>_. 0) (okEnv 600) (bpMessage\<lparr>RetryCount := 1\<rparr>) s1 = s1\<lparr>messagesDedupe := messagesDedupe s1 + 1\<rparr>"
proof -
  have "checkDedup (\<lambda>_. 0) (okEnv 5) bpMessage (dsDedup (idleService cfg2 emptyDb)) = Inr False"
    by (simp add: checkDedup_def okEnv_def sqlOps_def dedupExists_def sqlRead_def idleService_def emptyDb_def
        dedupKeyForMessage_def bpMessage_def emptyCallback_def)
  moreover have "snd (deliverCallback (\<lambda>_. 0) (okEnv 5) bpMessage) = None"
    by (simp add: deliverCallback_def stumpPayload_def okEnv_def bpMessage_def emptyCallback_def callback_types Let_def)
  moreover have "dedupKeyForMessage (\<lambda>_. 0) bpMessage \<noteq> ''''"
    "dedupKeyForMessage (\<lambda>_. 0) (bpMessage\<lparr>RetryCount := 1\<rparr>) = dedupKeyForMessage (\<lambda>_. 0) bpMessage"
    by (simp_all add: dedupKeyForMessage_def bpMessage_def emptyCallback_def)
  moreover have "eDedup (okEnv t) = Some (sqlOps (\<lambda>s. of_nat (length s)) t)" for t by (simp add: okEnv_def)
  moreover have "distinct (map fst (callback_dedup (dsDedup (idleService cfg2 emptyDb))))"
    "DedupTTLSec (dsCfg (idleService cfg2 emptyDb)) = 600"
    by (simp_all add: idleService_def emptyDb_def cfg2_def)
  ultimately show ?thesis
    using no_second_delivery [of "okEnv 5" "\<lambda>s. of_nat (length s)" 5 "idleService cfg2 emptyDb" "\<lambda>_. 0" bpMessage
        "bpMessage\<lparr>RetryCount := 1\<rparr>" "[]" "okEnv 600" 600]
    by (simp add: Let_def)
qed

end
