(* ===== verification/Stump_Gate.thy ===== *)
theory Stump_Gate
  imports Delivery
begin

text \<open>
  The gate that orders STUMP and BLOCK_PROCESSED callbacks (\<open>stumpGate\<close> in
  internal/callback/delivery.go), with the goroutines that use it: the consumer of a partition, the
  work channel, the delivery workers and the retry timers, as a step relation. The methods of the
  gate are split where they leave the mutex, so that every interleaving of the code is a run.
\<close>

section \<open>The gate\<close>

text \<open>Where a worker is in \<open>processDelivery\<close>.\<close>

datatype wstate =
    Idle
  | AtStart CallbackTopicMessage
  | Waiting CallbackTopicMessage nat
  | Deleting CallbackTopicMessage
  | Delivering CallbackTopicMessage
  | Looking CallbackTopicMessage
  | Finishing CallbackTopicMessage nat

text \<open>
  \<open>gates\<close> maps a key to the number of its \<open>WaitGroup\<close> and \<open>wg\<close> gives the counter of each of them;
  \<open>attempted\<close> records the messages whose delivery was attempted, in order.
\<close>

record sys =
  inbox :: "CallbackTopicMessage list"
  pending :: "CallbackTopicMessage option"
  workCh :: "CallbackTopicMessage list"
  workers :: "wstate list"
  timers :: "CallbackTopicMessage list"
  gates :: "string \<rightharpoonup> nat"
  wg :: "nat \<Rightarrow> int"
  nextWg :: nat
  attempted :: "CallbackTopicMessage list"
  panicked :: bool

definition stumpGateKey :: "string \<Rightarrow> string \<Rightarrow> string" where
  "stumpGateKey blockHash callbackURL = blockHash @ ''|'' @ callbackURL"

definition gateKey :: "CallbackTopicMessage \<Rightarrow> string" where
  "gateKey m = stumpGateKey (BlockHash m) (CallbackURL m)"

definition gateAdd :: "string \<Rightarrow> sys \<Rightarrow> sys" where
  "gateAdd key s = (case gates s key of
      None \<Rightarrow> s\<lparr>gates := (gates s)(key \<mapsto> nextWg s), wg := (wg s)(nextWg s := 1), nextWg := Suc (nextWg s)\<rparr>
    | Some w \<Rightarrow> s\<lparr>wg := (wg s)(w := wg s w + 1)\<rparr>)"

text \<open>\<open>WaitGroup.Done\<close>: at zero every waiter is released, below zero it panics.\<close>

definition release :: "nat \<Rightarrow> wstate \<Rightarrow> wstate" where
  "release w x = (case x of Waiting m w' \<Rightarrow> if w' = w then Deleting m else x | _ \<Rightarrow> x)"

definition wgDone :: "nat \<Rightarrow> sys \<Rightarrow> sys" where
  "wgDone w s =
     (let c = wg s w - 1
      in s\<lparr>wg := (wg s)(w := c), panicked := (panicked s \<or> c < 0),
           workers := (if c = 0 then map (release w) (workers s) else workers s)\<rparr>)"

text \<open>The lookup of \<open>Wait\<close>: no group, an empty group, or a group to wait for.\<close>

definition gateWait :: "CallbackTopicMessage \<Rightarrow> sys \<Rightarrow> wstate" where
  "gateWait m s = (case gates s (gateKey m) of
      None \<Rightarrow> Delivering m
    | Some w \<Rightarrow> if wg s w = 0 then Deleting m else Waiting m w)"

definition afterStart :: "CallbackTopicMessage \<Rightarrow> sys \<Rightarrow> wstate" where
  "afterStart m s = (if Type m = CallbackBlockProcessed then gateWait m s else Delivering m)"

text \<open>The messages \<open>processDelivery\<close> parks for a retry.\<close>

definition retriesOf ::
    "(string \<Rightarrow> 256 word) \<Rightarrow> db env \<Rightarrow> CallbackTopicMessage \<Rightarrow> db DeliveryService \<Rightarrow> CallbackTopicMessage list" where
  "retriesOf sha e m ds = map fst (drop (length (parked ds)) (parked (processDelivery sha e m ds)))"

section \<open>Steps\<close>

text \<open>
  \<open>cap\<close> is the capacity of the work channel. The clock, the environment of a delivery and the order
  in which timers fire are free.
\<close>

inductive gstep :: "(string \<Rightarrow> 256 word) \<Rightarrow> nat \<Rightarrow> sys \<Rightarrow> sys \<Rightarrow> bool" for sha cap where
  dispatch: "inbox s = m # ms \<Longrightarrow> pending s = None \<Longrightarrow> handleMessage now (Inr m) = Dispatched m f \<Longrightarrow>
     t = (if f then gateAdd (gateKey m) s else s) \<Longrightarrow> gstep sha cap s (t\<lparr>inbox := ms, pending := Some m\<rparr>)"
| park: "inbox s = m # ms \<Longrightarrow> pending s = None \<Longrightarrow> handleMessage now (Inr m) = ParkedFor m d \<Longrightarrow>
     gstep sha cap s (s\<lparr>inbox := ms, timers := timers s @ [m]\<rparr>)"
| send: "pending s = Some m \<Longrightarrow> length (workCh s) < cap \<Longrightarrow> gstep sha cap s (s\<lparr>pending := None, workCh := workCh s @ [m]\<rparr>)"
| take: "workCh s = m # c \<Longrightarrow> i < length (workers s) \<Longrightarrow> workers s ! i = Idle \<Longrightarrow>
     gstep sha cap s (s\<lparr>workCh := c, workers := (workers s)[i := AtStart m]\<rparr>)"
| start: "i < length (workers s) \<Longrightarrow> workers s ! i = AtStart m \<Longrightarrow>
     gstep sha cap s (s\<lparr>workers := (workers s)[i := afterStart m s]\<rparr>)"
| delete: "i < length (workers s) \<Longrightarrow> workers s ! i = Deleting m \<Longrightarrow>
     gstep sha cap s (s\<lparr>gates := (gates s)(gateKey m := None), workers := (workers s)[i := Delivering m]\<rparr>)"
| deliver: "i < length (workers s) \<Longrightarrow> workers s ! i = Delivering m \<Longrightarrow> rs = retriesOf sha e m ds \<Longrightarrow>
     gstep sha cap s (s\<lparr>timers := timers s @ rs, attempted := attempted s @ [m],
       workers := (workers s)[i := if firstStump m then Looking m else Idle]\<rparr>)"
| lookup: "i < length (workers s) \<Longrightarrow> workers s ! i = Looking m \<Longrightarrow>
     gstep sha cap s (s\<lparr>workers := (workers s)[i := case gates s (gateKey m) of None \<Rightarrow> Idle | Some w \<Rightarrow> Finishing m w]\<rparr>)"
| finish: "i < length (workers s) \<Longrightarrow> workers s ! i = Finishing m w \<Longrightarrow> \<not> panicked s \<Longrightarrow>
     gstep sha cap s (wgDone w (s\<lparr>workers := (workers s)[i := Idle]\<rparr>))"
| fire: "timers s = xs @ m # ys \<Longrightarrow> length (workCh s) < cap \<Longrightarrow>
     gstep sha cap s (s\<lparr>timers := xs @ ys, workCh := workCh s @ [m]\<rparr>)"

definition initSys :: "nat \<Rightarrow> CallbackTopicMessage list \<Rightarrow> sys" where
  "initSys n msgs = \<lparr>inbox = msgs, pending = None, workCh = [], workers = replicate n Idle, timers = [],
     gates = Map.empty, wg = (\<lambda>_. 0), nextWg = 0, attempted = [], panicked = False\<rparr>"

inductive reachable :: "(string \<Rightarrow> 256 word) \<Rightarrow> nat \<Rightarrow> sys \<Rightarrow> sys \<Rightarrow> bool" for sha cap s0 where
  reach0: "reachable sha cap s0 s0"
| reachS: "reachable sha cap s0 s \<Longrightarrow> gstep sha cap s t \<Longrightarrow> reachable sha cap s0 t"

section \<open>Invariant\<close>

definition isBP :: "CallbackTopicMessage \<Rightarrow> bool" where
  "isBP m \<longleftrightarrow> Type m = CallbackBlockProcessed"

definition stumpOf :: "string \<Rightarrow> CallbackTopicMessage \<Rightarrow> bool" where
  "stumpOf k m \<longleftrightarrow> firstStump m \<and> gateKey m = k"

lemma BP_not_stump [simp]: "isBP m \<Longrightarrow> \<not> firstStump m" "isBP m \<Longrightarrow> \<not> stumpOf k m"
  by (simp_all add: isBP_def firstStump_def stumpOf_def callback_types)

text \<open>The number of STUMPs of a key between \<open>Add\<close> and \<open>Done\<close>.\<close>

definition cnt :: "string \<Rightarrow> CallbackTopicMessage list \<Rightarrow> nat" where
  "cnt k ms = length (filter (stumpOf k) ms)"

definition wF :: "string \<Rightarrow> wstate \<Rightarrow> nat" where
  "wF k w = (case w of AtStart m \<Rightarrow> cnt k [m] | Delivering m \<Rightarrow> cnt k [m] | Looking m \<Rightarrow> cnt k [m]
     | Finishing m _ \<Rightarrow> cnt k [m] | _ \<Rightarrow> 0)"

definition optList :: "'a option \<Rightarrow> 'a list" where
  "optList x = (case x of None \<Rightarrow> [] | Some y \<Rightarrow> [y])"

definition inflight :: "string \<Rightarrow> sys \<Rightarrow> nat" where
  "inflight k s = cnt k (optList (pending s)) + cnt k (workCh s) + sum_list (map (wF k) (workers s))"

text \<open>The message a worker has in hand.\<close>

definition wmsg :: "wstate \<Rightarrow> CallbackTopicMessage list" where
  "wmsg w = (case w of Idle \<Rightarrow> [] | AtStart m \<Rightarrow> [m] | Waiting m _ \<Rightarrow> [m] | Deleting m \<Rightarrow> [m] | Delivering m \<Rightarrow> [m]
     | Looking m \<Rightarrow> [m] | Finishing m _ \<Rightarrow> [m])"

definition active :: "sys \<Rightarrow> CallbackTopicMessage set" where
  "active s = set (optList (pending s)) \<union> set (workCh s) \<union> (\<Union>w \<in> set (workers s). set (wmsg w)) \<union> set (timers s)"

text \<open>What holds of each worker.\<close>

definition workerOk :: "sys \<Rightarrow> wstate \<Rightarrow> bool" where
  "workerOk s w = (case w of
      Waiting m g \<Rightarrow> isBP m \<and> gates s (gateKey m) = Some g \<and> wg s g \<noteq> 0
    | Deleting m \<Rightarrow> isBP m \<and> inflight (gateKey m) s = 0
    | Delivering m \<Rightarrow> isBP m \<longrightarrow> inflight (gateKey m) s = 0
    | Looking m \<Rightarrow> firstStump m
    | Finishing m g \<Rightarrow> firstStump m \<and> gates s (gateKey m) = Some g
    | _ \<Rightarrow> True)"

definition gatesOk :: "sys \<Rightarrow> bool" where
  "gatesOk s \<longleftrightarrow> (\<forall>k. case gates s k of None \<Rightarrow> inflight k s = 0
        | Some w \<Rightarrow> wg s w = int (inflight k s) \<and> w < nextWg s \<and> (\<forall>k'. gates s k' = Some w \<longrightarrow> k' = k))"

definition ordered :: "CallbackTopicMessage list \<Rightarrow> bool" where
  "ordered ms \<longleftrightarrow> sorted_wrt (\<lambda>m m'. isBP m \<longrightarrow> \<not> stumpOf (gateKey m) m') ms"

definition wfMsg :: "CallbackTopicMessage \<Rightarrow> bool" where
  "wfMsg m \<longleftrightarrow> 0 \<le> RetryCount m \<and> (NextRetryAt m \<noteq> None \<longrightarrow> 0 < RetryCount m)"

definition inv :: "sys \<Rightarrow> bool" where
  "inv s \<longleftrightarrow> gatesOk s \<and> (\<forall>w \<in> set (workers s). workerOk s w)
     \<and> ordered (inbox s) \<and> list_all wfMsg (inbox s)
     \<and> (\<forall>m \<in> active s. 0 \<le> RetryCount m \<and> (isBP m \<longrightarrow> (\<forall>m' \<in> set (inbox s). \<not> stumpOf (gateKey m) m')))
     \<and> (\<forall>m \<in> set (timers s). 0 < RetryCount m) \<and> \<not> panicked s"

lemma cnt_simps [simp]: "cnt k [] = 0" "cnt k (m # ms) = (if stumpOf k m then 1 else 0) + cnt k ms"
  "cnt k (xs @ ys) = cnt k xs + cnt k ys"
  by (simp_all add: cnt_def)

lemma optList_simps [simp]: "optList None = []" "optList (Some x) = [x]"
  by (simp_all add: optList_def)

lemma wF_update:
  "i < length ws \<Longrightarrow> sum_list (map (wF k) (ws[i := x])) + wF k (ws ! i) = sum_list (map (wF k) ws) + wF k x"
  by (rule sum_list_map_update)

lemma inflight_worker:
  assumes "i < length (workers s)" and "workers s ! i = w" and "wF k x = wF k w"
  shows "inflight k (s\<lparr>workers := (workers s)[i := x]\<rparr>) = inflight k s"
  using wF_update [OF assms(1), of k x] assms(2,3) by (simp add: inflight_def)

lemma wF_release [simp]: "wF k (release w x) = wF k x"
  by (simp add: wF_def release_def split: wstate.split)

lemma wmsg_release [simp]: "wmsg (release w x) = wmsg x"
  by (simp add: wmsg_def release_def split: wstate.split)

lemma inflight_cong:
  "pending t = pending s \<Longrightarrow> workCh t = workCh s \<Longrightarrow> workers t = workers s \<Longrightarrow> inflight k t = inflight k s"
  by (simp add: inflight_def)

lemma active_worker:
  assumes "i < length (workers s)" and "set (wmsg x) \<subseteq> set (wmsg (workers s ! i))"
  shows "active (s\<lparr>workers := (workers s)[i := x]\<rparr>) \<subseteq> active s"
proof -
  have "(\<Union>w \<in> set ((workers s)[i := x]). set (wmsg w)) \<subseteq> (\<Union>w \<in> set (workers s). set (wmsg w))"
    using assms nth_mem [OF assms(1)] by (fastforce dest: set_update_subset_insert [THEN subsetD])
  then show ?thesis by (auto simp: active_def)
qed

lemma wF_le_inflight: "w \<in> set (workers s) \<Longrightarrow> wF k w \<le> inflight k s"
  by (simp add: inflight_def member_le_sum_list trans_le_add2)

lemma gatesOkD:
  assumes "gatesOk s"
  shows "gates s k = None \<Longrightarrow> inflight k s = 0"
    and "gates s k = Some w \<Longrightarrow> wg s w = int (inflight k s) \<and> w < nextWg s"
    and "gates s k = Some w \<Longrightarrow> gates s k' = Some w \<Longrightarrow> k' = k"
proof -
  note at = assms [unfolded gatesOk_def, THEN spec, of k]
  show "gates s k = None \<Longrightarrow> inflight k s = 0" using at by simp
  assume k: "gates s k = Some w"
  note at' = at [unfolded k option.case]
  show "wg s w = int (inflight k s) \<and> w < nextWg s" using at' by blast
  show "gates s k' = Some w \<Longrightarrow> k' = k" using at' by blast
qed

lemma gatesOk_cong:
  assumes "\<And>k. inflight k t = inflight k s" and "gates t = gates s" and "wg t = wg s" and "nextWg t = nextWg s"
  shows "gatesOk t = gatesOk s"
  by (simp only: gatesOk_def assms)

lemma sameCallback_gate:
  assumes "sameCallback m m'"
  shows "gateKey m' = gateKey m" and "isBP m' = isBP m"
  using assms by (cases m; cases m'; simp add: sameCallback_def gateKey_def isBP_def)+

text \<open>Steps that leave the gates and the number of STUMPs in flight alone.\<close>

lemma inv_frame:
  assumes "inv s" and "\<And>k. inflight k t = inflight k s"
    and "gates t = gates s" and "wg t = wg s" and "nextWg t = nextWg s" and "inbox t = inbox s" and "panicked t = panicked s"
    and "\<And>m. m \<in> active t \<Longrightarrow> \<exists>m0 \<in> active s. sameCallback m0 m \<and> 0 \<le> RetryCount m"
    and "\<And>m. m \<in> set (timers t) \<Longrightarrow> 0 < RetryCount m"
    and "\<And>w. w \<in> set (workers t) \<Longrightarrow> w \<in> set (workers s) \<or> workerOk s w"
  shows "inv t"
proof -
  have ok: "workerOk t w = workerOk s w" for w
    by (simp add: workerOk_def assms(2-4) split: wstate.split)
  have "gatesOk t = gatesOk s" by (rule gatesOk_cong [OF assms(2-5)])
  then have "gatesOk t" using assms(1) by (simp add: inv_def)
  moreover have "\<forall>w \<in> set (workers t). workerOk t w" using assms(1,10) by (auto simp: inv_def ok)
  moreover have "0 \<le> RetryCount m \<and> (isBP m \<longrightarrow> (\<forall>m' \<in> set (inbox t). \<not> stumpOf (gateKey m) m'))" if m: "m \<in> active t" for m
  proof -
    obtain m0 where m0: "m0 \<in> active s" "sameCallback m0 m" "0 \<le> RetryCount m" using assms(8) [OF m] by blast
    then show ?thesis using assms(1,6) sameCallback_gate [OF m0(2)] by (auto simp: inv_def)
  qed
  ultimately show ?thesis using assms(1,6,7,9) by (auto simp: inv_def)
qed

lemma active_self: "\<And>m. m \<in> active s \<Longrightarrow> inv s \<Longrightarrow> \<exists>m0 \<in> active s. sameCallback m0 m \<and> 0 \<le> RetryCount m"
  unfolding inv_def using sameCallback_refl by blast

lemma worker_active:
  "i < length (workers s) \<Longrightarrow> m \<in> set (wmsg (workers s ! i)) \<Longrightarrow> m \<in> active s"
  using nth_mem [of i "workers s"] by (auto simp: active_def)

text \<open>A worker changes its state and keeps its message in hand, or drops it.\<close>

lemma inv_worker:
  assumes "inv s" and "i < length (workers s)" and "set (wmsg x) \<subseteq> set (wmsg (workers s ! i))"
    and "\<And>k. wF k x = wF k (workers s ! i)" and "workerOk s x"
  shows "inv (s\<lparr>workers := (workers s)[i := x]\<rparr>)"
proof (rule inv_frame [OF assms(1)])
  show "inflight k (s\<lparr>workers := (workers s)[i := x]\<rparr>) = inflight k s" for k
    using assms(2,4) by (intro inflight_worker) auto
  show "\<exists>m0 \<in> active s. sameCallback m0 m \<and> 0 \<le> RetryCount m" if "m \<in> active (s\<lparr>workers := (workers s)[i := x]\<rparr>)" for m
    using that active_worker [OF assms(2,3)] active_self [OF _ assms(1)] by blast
  show "w \<in> set (workers s) \<or> workerOk s w" if "w \<in> set (workers (s\<lparr>workers := (workers s)[i := x]\<rparr>))" for w
    using that assms(5) set_update_subset_insert [of "workers s" i x] by auto
qed (use assms(1) in \<open>auto simp: inv_def\<close>)

lemma inv_start:
  assumes "inv s" and "i < length (workers s)" and "workers s ! i = AtStart m"
  shows "inv (s\<lparr>workers := (workers s)[i := afterStart m s]\<rparr>)"
proof (rule inv_worker [OF assms(1,2)])
  have g: "gatesOk s" using assms(1) by (simp add: inv_def)
  show "set (wmsg (afterStart m s)) \<subseteq> set (wmsg (workers s ! i))"
    by (simp add: assms(3) afterStart_def gateWait_def wmsg_def split: option.split)
  show "wF k (afterStart m s) = wF k (workers s ! i)" for k
    by (auto simp: assms(3) afterStart_def gateWait_def wF_def isBP_def [symmetric] split: option.split)
  show "workerOk s (afterStart m s)"
    using gatesOkD(1,2) [OF g]
    by (auto simp: afterStart_def gateWait_def workerOk_def isBP_def split: option.split)
qed

lemma inv_lookup:
  assumes "inv s" and "i < length (workers s)" and "workers s ! i = Looking m"
  shows "inv (s\<lparr>workers := (workers s)[i := case gates s (gateKey m) of None \<Rightarrow> Idle | Some w \<Rightarrow> Finishing m w]\<rparr>)"
proof -
  have g: "gatesOk s" and fs: "firstStump m"
    using assms nth_mem [OF assms(2)] by (auto simp: inv_def workerOk_def dest: bspec [of _ _ "Looking m"])
  have "wF (gateKey m) (Looking m) \<le> inflight (gateKey m) s"
    using wF_le_inflight nth_mem [OF assms(2)] assms(3) by metis
  then have "inflight (gateKey m) s \<noteq> 0" using fs by (simp add: wF_def stumpOf_def)
  then obtain w where w: "gates s (gateKey m) = Some w" using gatesOkD(1) [OF g] by (cases "gates s (gateKey m)") auto
  show ?thesis
  proof (rule inv_worker [OF assms(1,2)])
    show "workerOk s (case gates s (gateKey m) of None \<Rightarrow> Idle | Some w \<Rightarrow> Finishing m w)"
      using fs w by (simp add: workerOk_def)
  qed (use w in \<open>auto simp: assms(3) wmsg_def wF_def\<close>)
qed

lemma scheduleRetry_parks:
  "parked (scheduleRetryAfterFailure now m d) = parked d
   \<or> (\<exists>delay. parked (scheduleRetryAfterFailure now m d) = parked d @ [(bumpRetry (dsCfg d) now m, delay)])"
  by (simp add: scheduleRetryAfterFailure_def scheduleRetry_def Let_def)

lemma processDelivery_parked:
  fixes s :: "'d DeliveryService"
  shows "parked (processDelivery sha e m s) = parked s
   \<or> (\<exists>cfg now delay. parked (processDelivery sha e m s) = parked s @ [(bumpRetry cfg now m, delay)])"
proof -
  have "\<exists>d :: 'd DeliveryService. parked d = parked s \<and> (parked (processDelivery sha e m s) = parked s
      \<or> parked (processDelivery sha e m s) = parked (scheduleRetryAfterFailure (eNow e) m d))"
  proof (cases "checkDedup sha e m (dsDedup s)")
    case (Inl err)
    then show ?thesis by (intro exI [of _ s]) (simp add: processDelivery_def)
  next
    case (Inr b)
    then show ?thesis
      by (intro exI [of _ "s\<lparr>posts := posts s @ (case fst (deliverCallback sha e m) of None \<Rightarrow> [] | Some r \<Rightarrow> [r])\<rparr>"])
        (cases b; simp add: processDelivery_def Let_def split: prod.split option.split)
  qed
  then show ?thesis using scheduleRetry_parks by metis
qed

lemma retriesOf_cases:
  assumes "r \<in> set (retriesOf sha e m ds)"
  shows "sameCallback m r \<and> RetryCount r = RetryCount m + 1"
proof -
  have same: "sameCallback m (bumpRetry cfg now m)" for cfg now
    by (cases m) (simp add: sameCallback_def bumpRetry_def Let_def)
  have "retriesOf sha e m ds = [] \<or> (\<exists>cfg now. retriesOf sha e m ds = [bumpRetry cfg now m])"
    using processDelivery_parked [of sha e m ds]
  proof (elim disjE exE)
    fix cfg now delay
    assume "parked (processDelivery sha e m ds) = parked ds @ [(bumpRetry cfg now m, delay)]"
    then have "retriesOf sha e m ds = [bumpRetry cfg now m]" by (simp add: retriesOf_def)
    then show ?thesis by blast
  qed (simp add: retriesOf_def)
  then show ?thesis using assms same by auto
qed

lemma inv_deliver:
  assumes "inv s" and "i < length (workers s)" and "workers s ! i = Delivering m" and "rs = retriesOf sha e m ds"
  shows "inv (s\<lparr>timers := timers s @ rs, attempted := attempted s @ [m],
       workers := (workers s)[i := if firstStump m then Looking m else Idle]\<rparr>)" (is "inv ?t")
proof -
  let ?x = "if firstStump m then Looking m else Idle"
  have m: "m \<in> active s" "0 \<le> RetryCount m"
    using worker_active [OF assms(2), of m] assms(1,3) by (auto simp: wmsg_def inv_def)
  have act: "active ?t \<subseteq> active s \<union> set rs"
  proof -
    have "active ?t = active (s\<lparr>workers := (workers s)[i := ?x]\<rparr>) \<union> set rs" by (auto simp: active_def)
    moreover have "set (wmsg ?x) \<subseteq> set (wmsg (workers s ! i))" by (simp add: assms(3) wmsg_def)
    ultimately show ?thesis using active_worker [OF assms(2), of ?x] by blast
  qed
  show ?thesis
  proof (rule inv_frame [OF assms(1)])
    show "inflight k ?t = inflight k s" for k
      using inflight_worker [OF assms(2,3), of k ?x] by (simp add: inflight_def wF_def stumpOf_def)
    show "\<exists>m0 \<in> active s. sameCallback m0 r \<and> 0 \<le> RetryCount r" if "r \<in> active ?t" for r
      using that act active_self [OF _ assms(1)] retriesOf_cases [of r sha e m ds] m assms(4) by fastforce
    show "0 < RetryCount r" if "r \<in> set (timers ?t)" for r
      using that assms(1) retriesOf_cases [of r sha e m ds] m(2) assms(4) by (auto simp: inv_def)
    show "w \<in> set (workers s) \<or> workerOk s w" if "w \<in> set (workers ?t)" for w
      using that set_update_subset_insert [of "workers s" i ?x] by (auto simp: workerOk_def split: if_splits)
  qed simp_all
qed

text \<open>The remaining steps, which move STUMPs in or out of flight or change the gates.\<close>

lemma inv_send:
  assumes "inv s" and "pending s = Some m"
  shows "inv (s\<lparr>pending := None, workCh := workCh s @ [m]\<rparr>)" (is "inv ?t")
proof (rule inv_frame [OF assms(1)])
  have "active ?t = active s" by (auto simp: active_def assms(2))
  then show "\<exists>m0 \<in> active s. sameCallback m0 r \<and> 0 \<le> RetryCount r" if "r \<in> active ?t" for r
    using that active_self [OF _ assms(1)] by simp
qed (use assms in \<open>auto simp: inflight_def inv_def\<close>)

lemma inv_take:
  assumes "inv s" and "workCh s = m # c" and "i < length (workers s)" and "workers s ! i = Idle"
  shows "inv (s\<lparr>workCh := c, workers := (workers s)[i := AtStart m]\<rparr>)" (is "inv ?t")
proof (rule inv_frame [OF assms(1)])
  show "inflight k ?t = inflight k s" for k
    using wF_update [OF assms(3), of k "AtStart m"] assms(2,4) by (simp add: inflight_def wF_def)
  have "active ?t \<subseteq> active s"
    using set_update_subset_insert [of "workers s" i "AtStart m"] by (fastforce simp: active_def assms(2) wmsg_def)
  then show "\<exists>m0 \<in> active s. sameCallback m0 r \<and> 0 \<le> RetryCount r" if "r \<in> active ?t" for r
    using that active_self [OF _ assms(1)] by blast
  show "w \<in> set (workers s) \<or> workerOk s w" if "w \<in> set (workers ?t)" for w
    using that set_update_subset_insert [of "workers s" i "AtStart m"] by (auto simp: workerOk_def)
qed (use assms in \<open>auto simp: inv_def\<close>)

lemma inv_fire:
  assumes "inv s" and "timers s = xs @ m # ys"
  shows "inv (s\<lparr>timers := xs @ ys, workCh := workCh s @ [m]\<rparr>)" (is "inv ?t")
proof (rule inv_frame [OF assms(1)])
  have "0 < RetryCount m" using assms by (simp add: inv_def)
  then have "\<not> stumpOf k m" for k by (simp add: stumpOf_def firstStump_def)
  then show "inflight k ?t = inflight k s" for k by (simp add: inflight_def)
  have "active ?t = active s" by (auto simp: active_def assms(2))
  then show "\<exists>m0 \<in> active s. sameCallback m0 r \<and> 0 \<le> RetryCount r" if "r \<in> active ?t" for r
    using that active_self [OF _ assms(1)] by simp
qed (use assms in \<open>auto simp: inv_def\<close>)

lemma inv_delete:
  assumes "inv s" and "i < length (workers s)" and "workers s ! i = Deleting m"
  shows "inv (s\<lparr>gates := (gates s)(gateKey m := None), workers := (workers s)[i := Delivering m]\<rparr>)" (is "inv ?t")
proof -
  let ?s = "s\<lparr>workers := (workers s)[i := Delivering m]\<rparr>"
  have m: "isBP m" "inflight (gateKey m) s = 0"
    using assms nth_mem [OF assms(2)] by (auto simp: inv_def workerOk_def dest!: bspec [of _ _ "Deleting m"])
  have inv: "inv ?s"
    using m assms(3) by (intro inv_worker [OF assms(1,2)]) (auto simp: wmsg_def wF_def workerOk_def)
  have fl: "inflight k ?t = inflight k ?s" for k by (rule inflight_cong) simp_all
  have z: "inflight (gateKey m) ?s = 0"
    using m inflight_worker [OF assms(2,3), of "gateKey m" "Delivering m"] by (simp add: wF_def)
  have ok: "workerOk ?t w" if "w \<in> set (workers ?s)" for w
  proof -
    have w: "workerOk ?s w" using inv that by (simp add: inv_def)
    have le: "wF (gateKey m) w = 0" using wF_le_inflight [OF that, of "gateKey m"] z by simp
    have g0: "wg ?s g = 0" if "gates ?s (gateKey m) = Some g" for g
      using gatesOkD(2) [of ?s "gateKey m" g] inv that z by (simp add: inv_def)
    show ?thesis
    proof (cases w)
      case (Waiting m' g)
      have k: "gateKey m' \<noteq> gateKey m"
      proof
        assume "gateKey m' = gateKey m"
        then show False using w g0 [of g] unfolding Waiting workerOk_def by simp
      qed
      then show ?thesis using w unfolding Waiting workerOk_def by simp
    next
      case (Finishing m' g)
      have "gateKey m' \<noteq> gateKey m"
      proof
        assume "gateKey m' = gateKey m"
        then have "\<not> firstStump m'" using le unfolding Finishing by (simp add: wF_def stumpOf_def split: if_splits)
        then show False using w unfolding Finishing workerOk_def by simp
      qed
      then show ?thesis using w unfolding Finishing workerOk_def by simp
    qed (use w in \<open>simp_all add: workerOk_def fl\<close>)
  qed
  have gs: "gatesOk ?s" using inv by (simp add: inv_def)
  have "case gates ?t k of None \<Rightarrow> inflight k ?t = 0
        | Some w \<Rightarrow> wg ?t w = int (inflight k ?t) \<and> w < nextWg ?t \<and> (\<forall>k'. gates ?t k' = Some w \<longrightarrow> k' = k)" for k
  proof (cases "k = gateKey m \<or> gates s k = None")
    case True
    then show ?thesis using z gatesOkD(1) [OF gs, of k] by (auto simp only: fl) simp_all
  next
    case False
    then obtain w where w: "gates s k = Some w" "k \<noteq> gateKey m" by blast
    have "wg s w = int (inflight k ?s) \<and> w < nextWg s" using gatesOkD(2) [OF gs, of k w] w(1) by simp
    moreover have "k' = k" if "gates ?t k' = Some w" for k'
      using gatesOkD(3) [OF gs, of k w k'] w(1) that by (simp split: if_splits)
    ultimately show ?thesis using w by (simp only: fl) simp
  qed
  then have "gatesOk ?t" unfolding gatesOk_def by blast
  moreover have "active ?t = active ?s" by (simp add: active_def)
  ultimately show ?thesis using inv ok by (simp add: inv_def)
qed

lemma gatesOkI:
  assumes "\<And>k. gates t k = None \<Longrightarrow> inflight k t = 0"
    and "\<And>k w. gates t k = Some w \<Longrightarrow> wg t w = int (inflight k t) \<and> w < nextWg t"
    and "\<And>k k' w. gates t k = Some w \<Longrightarrow> gates t k' = Some w \<Longrightarrow> k' = k"
  shows "gatesOk t"
  unfolding gatesOk_def
proof
  fix k
  show "case gates t k of None \<Rightarrow> inflight k t = 0
        | Some w \<Rightarrow> wg t w = int (inflight k t) \<and> w < nextWg t \<and> (\<forall>k'. gates t k' = Some w \<longrightarrow> k' = k)"
  proof (cases "gates t k")
    case None
    then show ?thesis using assms(1) by (simp only: option.case)
  next
    case (Some w)
    show ?thesis using assms(2) [OF Some] assms(3) [OF Some] unfolding Some option.case by blast
  qed
qed

lemma inflight_wgDone [simp]: "inflight k (wgDone w s) = inflight k s"
  by (simp add: inflight_def wgDone_def Let_def comp_def)

lemma active_wgDone [simp]: "active (wgDone w s) = active s"
  by (simp add: active_def wgDone_def Let_def)

lemma workerOk_mono:
  assumes "workerOk s x" and "gates t = gates s" and "\<And>k. inflight k t \<le> inflight k s"
    and "\<And>m g. x = Waiting m g \<Longrightarrow> wg t g \<noteq> 0"
  shows "workerOk t x"
  using assms(1,4) assms(3) [of "gateKey m" for m] unfolding workerOk_def assms(2)
  by (cases x) (simp_all, (metis le_zero_eq)+)

lemma inv_finish:
  assumes "inv s" and "i < length (workers s)" and "workers s ! i = Finishing m w"
  shows "inv (wgDone w (s\<lparr>workers := (workers s)[i := Idle]\<rparr>))" (is "inv (wgDone w ?s)")
proof -
  let ?t = "wgDone w ?s"
  have gs: "gatesOk s" and m: "firstStump m" "gates s (gateKey m) = Some w"
    using assms nth_mem [OF assms(2)] by (auto simp: inv_def workerOk_def dest!: bspec [of _ _ "Finishing m w"])
  have fl: "inflight k s = inflight k ?s + (if k = gateKey m then 1 else 0)" for k
    using wF_update [OF assms(2), of k Idle] m(1) by (cases "k = gateKey m") (simp_all add: assms(3) inflight_def wF_def stumpOf_def)
  note w = gatesOkD(2) [OF gs m(2)]
  have only: "k = gateKey m" if "gates s k = Some w" for k by (rule gatesOkD(3) [OF gs m(2) that])
  have t: "gates ?t = gates s" "nextWg ?t = nextWg s" "wg ?t = (wg s)(w := int (inflight (gateKey m) ?s))"
    using w fl [of "gateKey m"] by (simp_all add: wgDone_def Let_def)
  have gt: "gatesOk ?t"
  proof (rule gatesOkI)
    show "inflight k ?t = 0" if "gates ?t k = None" for k
      using gatesOkD(1) [OF gs, of k] that fl [of k] t(1) by simp
    show "wg ?t g = int (inflight k ?t) \<and> g < nextWg ?t" if "gates ?t k = Some g" for k g
      using gatesOkD(2) [OF gs, of k g] that t only [of k] fl [of k] m(2) by (cases "g = w") auto
    show "k' = k" if "gates ?t k = Some g" "gates ?t k' = Some g" for k k' g
      by (rule gatesOkD(3) [OF gs]) (use that t(1) in simp_all)
  qed
  have ok: "workerOk ?t y" if y: "y \<in> set (workers ?t)" for y
  proof -
    let ?c = "wg s w - 1"
    obtain x where x: "x \<in> set (workers s) \<or> x = Idle" "y = (if ?c = 0 then release w x else x)"
      using y set_update_subset_insert [of "workers s" i Idle] by (auto simp: wgDone_def Let_def split: if_splits)
    have xok: "workerOk s x" using x(1) assms(1) by (auto simp: inv_def workerOk_def)
    have le: "inflight k ?t \<le> inflight k s" for k using fl [of k] by simp
    have c: "?c = int (inflight (gateKey m) ?t)" using w fl [of "gateKey m"] by simp
    show ?thesis
    proof (cases "\<exists>m'. x = Waiting m' w")
      case True
      then obtain m' where m': "x = Waiting m' w" by blast
      have bp: "isBP m'" and kk: "gates s (gateKey m') = Some w" using xok unfolding m' workerOk_def by simp_all
      note k = only [OF kk]
      show ?thesis using bp kk c by (cases "?c = 0") (simp_all add: x(2) m' workerOk_def release_def k t)
    next
      case False
      then have "y = x" using x(2) by (auto simp: release_def split: wstate.split if_splits)
      moreover have "workerOk ?t x" using xok False by (intro workerOk_mono [OF xok t(1) le]) (auto simp: workerOk_def t)
      ultimately show ?thesis by simp
    qed
  qed
  have "\<not> panicked ?t" using assms(1) w fl [of "gateKey m"] by (simp add: wgDone_def Let_def inv_def)
  moreover have "active ?t \<subseteq> active s" using active_worker [OF assms(2), of Idle] by (simp add: wmsg_def)
  moreover have "inbox ?t = inbox s" "timers ?t = timers s" by (simp_all add: wgDone_def Let_def)
  ultimately show ?thesis using assms(1) gt ok unfolding inv_def by auto
qed


lemma handle_cases:
  "handleMessage now (Inr m) = Dispatched m' f \<Longrightarrow> m' = m \<and> f = firstStump m"
  "handleMessage now (Inr m) = ParkedFor m' d \<Longrightarrow> m' = m \<and> NextRetryAt m \<noteq> None"
  by (auto simp: handleMessage_def split: option.splits if_splits)

lemma inbox_step:
  assumes "inv s" and "inbox s = m # ms" and "m' \<in> active s \<union> {m}"
  shows "0 \<le> RetryCount m' \<and> (isBP m' \<longrightarrow> (\<forall>r \<in> set ms. \<not> stumpOf (gateKey m') r))"
proof (cases "m' \<in> active s")
  case True
  then show ?thesis using assms(1,2) by (auto simp: inv_def)
next
  case False
  then have "m' = m" using assms(3) by simp
  then show ?thesis using assms(1,2) by (auto simp: inv_def ordered_def wfMsg_def)
qed

lemma inv_park:
  assumes "inv s" and "inbox s = m # ms" and "NextRetryAt m \<noteq> None"
  shows "inv (s\<lparr>inbox := ms, timers := timers s @ [m]\<rparr>)" (is "inv ?t")
proof -
  have m: "0 < RetryCount m" using assms by (simp add: inv_def wfMsg_def)
  have fl: "inflight k ?t = inflight k s" for k by (rule inflight_cong) simp_all
  have ok: "workerOk ?t w = workerOk s w" for w by (simp add: workerOk_def fl split: wstate.split)
  have "gatesOk ?t = gatesOk s" by (rule gatesOk_cong [OF fl]) simp_all
  moreover have "active ?t = active s \<union> {m}" by (auto simp: active_def)
  moreover have "ordered ms" "list_all wfMsg ms" using assms(1,2) by (simp_all add: inv_def ordered_def)
  ultimately show ?thesis using assms(1) m inbox_step [OF assms(1,2)] unfolding inv_def ok by auto
qed

lemma inflight_pending:
  "pending s = None \<Longrightarrow> inflight k (s\<lparr>inbox := ms, pending := Some m\<rparr>) = inflight k s + (if stumpOf k m then 1 else 0)"
  by (simp add: inflight_def)

lemma gateAdd_frame [simp]:
  "inbox (gateAdd k s) = inbox s" "pending (gateAdd k s) = pending s" "workCh (gateAdd k s) = workCh s"
  "workers (gateAdd k s) = workers s" "timers (gateAdd k s) = timers s" "attempted (gateAdd k s) = attempted s"
  "panicked (gateAdd k s) = panicked s"
  by (simp_all add: gateAdd_def split: option.split)

lemma gateAdd_gates:
  "gates (gateAdd k s) k' = (if k' = k \<and> gates s k = None then Some (nextWg s) else gates s k')"
  by (simp add: gateAdd_def split: option.split)

lemma gateAdd_wg:
  assumes "gatesOk s"
  shows "wg (gateAdd k s) g = (if gates (gateAdd k s) k = Some g then int (inflight k s) + 1 else wg s g)"
proof (cases "gates s k")
  case None
  then show ?thesis using gatesOkD(1) [OF assms None] by (simp add: gateAdd_def)
next
  case (Some w)
  then show ?thesis using gatesOkD(2) [OF assms Some] by (simp add: gateAdd_def)
qed

lemma gateAdd_nextWg: "nextWg s \<le> nextWg (gateAdd k s)" "gates s k = None \<Longrightarrow> nextWg (gateAdd k s) = Suc (nextWg s)"
  by (simp_all add: gateAdd_def split: option.split)

lemma gatesOk_add:
  assumes gs: "gatesOk s" and fl: "\<And>k'. inflight k' t = inflight k' s + (if k' = k then 1 else 0)"
    and t: "gates t = gates (gateAdd k s)" "wg t = wg (gateAdd k s)" "nextWg t = nextWg (gateAdd k s)"
  shows "gatesOk t"
proof -
  have inj: "k1 = k2" if "gates t k1 = Some w" "gates t k2 = Some w" for k1 k2 w
    using that gatesOkD(3) [OF gs, of k2 w k1] gatesOkD(2) [OF gs, of k1 "nextWg s"] gatesOkD(2) [OF gs, of k2 "nextWg s"]
    by (auto simp: t gateAdd_gates split: if_splits)
  show ?thesis
  proof (rule gatesOkI)
    show "inflight k' t = 0" if "gates t k' = None" for k'
      using that gatesOkD(1) [OF gs, of k'] fl [of k'] by (simp add: t gateAdd_gates split: if_splits)
    show "wg t w = int (inflight k' t) \<and> w < nextWg t" if w: "gates t k' = Some w" for k' w
    proof
      show "wg t w = int (inflight k' t)"
      proof (cases "k' = k")
        case True
        then show ?thesis using w fl [of k] by (simp add: t gateAdd_wg [OF gs])
      next
        case False
        then have "gates t k \<noteq> Some w" "gates s k' = Some w" using inj [OF w, of k] w by (auto simp: t gateAdd_gates)
        then show ?thesis using gatesOkD(2) [OF gs, of k' w] fl [of k'] False by (simp add: t gateAdd_wg [OF gs])
      qed
      show "w < nextWg t"
        using w gatesOkD(2) [OF gs, of k' w] gateAdd_nextWg [of s k] by (auto simp: t gateAdd_gates split: if_splits)
    qed
    show "k1 = k2" if "gates t k2 = Some w" "gates t k1 = Some w" for k1 k2 w by (rule inj [OF that(2,1)])
  qed
qed


lemma inv_dispatch:
  assumes "inv s" and "inbox s = m # ms" and "pending s = None"
    and "t = (if firstStump m then gateAdd (gateKey m) s else s)"
  shows "inv (t\<lparr>inbox := ms, pending := Some m\<rparr>)" (is "inv ?t")
proof -
  have gs: "gatesOk s" using assms(1) by (simp add: inv_def)
  have t [simp]: "pending t = pending s" "workCh t = workCh s" "workers t = workers s" "timers t = timers s" "panicked t = panicked s"
    by (simp_all add: assms(4))
  have fl: "inflight k ?t = inflight k s + (if stumpOf k m then 1 else 0)" for k
    using inflight_pending [of t k m ms] assms(3) inflight_cong [of t s k] by simp
  have gt: "gatesOk ?t"
  proof (cases "firstStump m")
    case True
    have "inflight k ?t = inflight k s + (if k = gateKey m then 1 else 0)" for k using fl [of k] True by (simp add: stumpOf_def eq_commute)
    then show ?thesis by (rule gatesOk_add [OF gs]) (simp_all add: assms(4) True)
  next
    case False
    have "inflight k ?t = inflight k s" for k using fl [of k] False by (simp add: stumpOf_def)
    then have "gatesOk ?t = gatesOk s" by (rule gatesOk_cong) (simp_all add: False assms(4))
    then show ?thesis using gs by simp
  qed
  have ok: "workerOk ?t w" if w: "w \<in> set (workers s)" for w
  proof -
    have wok: "workerOk s w" using assms(1) w by (simp add: inv_def)
    have bp: "\<not> stumpOf (gateKey m') m" if "isBP m'" "m' \<in> set (wmsg w)" for m'
      using assms(1,2) that w by (auto simp: inv_def active_def)
    have new: "gates ?t k = gates s k" if "\<not> stumpOf k m" for k
      using that by (auto simp: assms(4) gateAdd_gates stumpOf_def)
    have old: "gates ?t k = Some g" if "gates s k = Some g" for k g
      using that by (auto simp: assms(4) gateAdd_gates)
    have wgs: "wg ?t g = wg s g" if "gates s k = Some g" "\<not> stumpOf k m" for k g
    proof (cases "firstStump m")
      case True
      then have "gates (gateAdd (gateKey m) s) (gateKey m) \<noteq> Some g"
        using that gatesOkD(2) [OF gs that(1)] gatesOkD(3) [OF gs that(1), of "gateKey m"]
        by (auto simp: gateAdd_gates stumpOf_def)
      then show ?thesis using True by (simp add: assms(4) gateAdd_wg [OF gs])
    qed (simp add: assms(4))
    show ?thesis
    proof (cases w)
      case (Waiting m' g)
      have a: "isBP m'" "gates s (gateKey m') = Some g" "wg s g \<noteq> 0" using wok by (simp_all add: Waiting workerOk_def)
      have "\<not> stumpOf (gateKey m') m" using bp a(1) by (simp add: Waiting wmsg_def)
      then show ?thesis using a old [OF a(2)] wgs [OF a(2)] by (simp add: Waiting workerOk_def)
    next
      case (Deleting m')
      then show ?thesis using wok bp [of m'] by (simp add: workerOk_def fl wmsg_def)
    next
      case (Delivering m')
      then show ?thesis using wok bp [of m'] by (simp add: workerOk_def fl wmsg_def)
    next
      case (Finishing m' g)
      then show ?thesis using wok old [of "gateKey m'" g] by (simp add: workerOk_def)
    qed (use wok in \<open>simp_all add: workerOk_def\<close>)
  qed
  have "active ?t = active s \<union> {m}" using assms(3) by (auto simp: active_def)
  moreover have "ordered ms" "list_all wfMsg ms" using assms(1,2) by (simp_all add: inv_def ordered_def)
  ultimately show ?thesis using assms(1) gt ok inbox_step [OF assms(1,2)] unfolding inv_def by auto
qed

lemma gstep_inv:
  assumes "gstep sha cap s t" and "inv s"
  shows "inv t"
  using assms
proof (cases rule: gstep.cases)
  case (dispatch m ms now f t')
  then show ?thesis using inv_dispatch [OF assms(2) dispatch(2,3)] handle_cases(1) [OF dispatch(4)] by simp
next
  case (park m ms now d)
  then show ?thesis using inv_park [OF assms(2) park(2)] handle_cases(2) [OF park(4)] by simp
qed (use assms(2) inv_send inv_take inv_start inv_delete inv_deliver inv_lookup inv_finish inv_fire in \<open>simp_all\<close>)

lemma inv_init:
  assumes "ordered msgs" and "list_all wfMsg msgs"
  shows "inv (initSys n msgs)"
proof -
  have "inflight k (initSys n msgs) = 0" for k by (simp add: inflight_def initSys_def wF_def)
  then have "gatesOk (initSys n msgs)" by (intro gatesOkI) (simp_all add: initSys_def)
  moreover have "active (initSys n msgs) = {}" by (auto simp: active_def initSys_def wmsg_def)
  ultimately show ?thesis using assms by (simp add: inv_def workerOk_def) (simp add: initSys_def)
qed


section \<open>Order and progress\<close>

text \<open>
  The messages on their way to the workers, in order. A BLOCK_PROCESSED message never overtakes the
  STUMPs of its key, so a worker that waits only waits for other workers.
\<close>

definition line :: "sys \<Rightarrow> CallbackTopicMessage list" where
  "line s = workCh s @ optList (pending s) @ inbox s"

definition taken :: "sys \<Rightarrow> CallbackTopicMessage set" where
  "taken s = (\<Union>w \<in> set (workers s). set (wmsg w))"

definition noStump :: "CallbackTopicMessage \<Rightarrow> CallbackTopicMessage list \<Rightarrow> bool" where
  "noStump m ms \<longleftrightarrow> (isBP m \<longrightarrow> (\<forall>m' \<in> set ms. \<not> stumpOf (gateKey m) m'))"

definition lineOk :: "sys \<Rightarrow> bool" where
  "lineOk s \<longleftrightarrow> ordered (line s) \<and> (\<forall>m \<in> taken s. noStump m (line s))
     \<and> (\<forall>m \<in> set (timers s). noStump m (optList (pending s) @ inbox s))"

lemma noStump_simps [simp]:
  "noStump m []" "noStump m (x # xs) \<longleftrightarrow> (isBP m \<longrightarrow> \<not> stumpOf (gateKey m) x) \<and> noStump m xs"
  "noStump m (xs @ ys) \<longleftrightarrow> noStump m xs \<and> noStump m ys"
  by (auto simp: noStump_def)

lemma ordered_simps [simp]:
  "ordered []" "ordered (x # xs) \<longleftrightarrow> noStump x xs \<and> ordered xs"
  "ordered (xs @ ys) \<longleftrightarrow> ordered xs \<and> ordered ys \<and> (\<forall>x \<in> set xs. noStump x ys)"
  by (auto simp: ordered_def noStump_def sorted_wrt_append)

lemma noStump_same: "noStump m ms \<Longrightarrow> sameCallback m m' \<Longrightarrow> noStump m' ms"
  using sameCallback_gate [of m m'] by (simp add: noStump_def)

lemma taken_update:
  assumes "i < length (workers s)" and "workers t = (workers s)[i := x]" and "set (wmsg x) \<subseteq> set (wmsg (workers s ! i)) \<union> A"
  shows "taken t \<subseteq> taken s \<union> A"
proof
  fix m
  assume "m \<in> taken t"
  then obtain w where "w \<in> set ((workers s)[i := x])" "m \<in> set (wmsg w)" by (auto simp: taken_def assms(2))
  then have "w \<in> set (workers s) \<or> m \<in> set (wmsg (workers s ! i)) \<union> A"
    using set_update_subset_insert [of "workers s" i x] assms(3) by auto
  then show "m \<in> taken s \<union> A" using nth_mem [OF assms(1)] \<open>m \<in> set (wmsg w)\<close> by (auto simp: taken_def)
qed

text \<open>Steps that only shorten what a worker has in hand.\<close>

lemma lineOk_worker:
  assumes "lineOk s" and "taken t \<subseteq> taken s" and "workCh t = workCh s" "pending t = pending s" "inbox t = inbox s" "timers t = timers s"
  shows "lineOk t"
  using assms by (auto simp: lineOk_def line_def)

lemma lineOk_step:
  assumes "gstep sha cap s t" and "inv s" and "lineOk s"
  shows "lineOk t"
  using assms(1)
proof (cases rule: gstep.cases)
  case (dispatch m ms now f t')
  have [simp]: "workCh t' = workCh s" "workers t' = workers s" "timers t' = timers s" by (simp_all add: dispatch(5))
  show ?thesis using assms(3) dispatch(2,3) by (simp add: dispatch(1) lineOk_def line_def taken_def)
next
  case (park m ms now d)
  then show ?thesis using assms(3) by (auto simp: lineOk_def line_def taken_def)
next
  case (send m)
  then show ?thesis using assms(3) by (auto simp: lineOk_def line_def taken_def)
next
  case (take m c i)
  have "taken t \<subseteq> taken s \<union> {m}" by (rule taken_update [OF take(3), of _ "AtStart m"]) (simp_all add: take wmsg_def)
  then show ?thesis using assms(3) take(2) by (fastforce simp: take(1) lineOk_def line_def)
next
  case (deliver i m rs e ds)
  have t: "taken t \<subseteq> taken s"
    using taken_update [OF deliver(2), of t "if firstStump m then Looking m else Idle" "{}"] by (simp add: deliver wmsg_def)
  have "m \<in> taken s" using nth_mem [OF deliver(2)] deliver(3) by (force simp: taken_def wmsg_def)
  then have "noStump m (line s)" using assms(3) by (simp add: lineOk_def)
  then have "noStump r (line s)" if "r \<in> set rs" for r using that noStump_same retriesOf_cases deliver(4) by metis
  then show ?thesis using assms(3) t by (auto simp: deliver(1) lineOk_def line_def)
next
  case (fire xs m ys)
  have "0 < RetryCount m" using assms(2) fire by (simp add: inv_def)
  then have "\<not> stumpOf k m" for k by (simp add: stumpOf_def firstStump_def)
  then show ?thesis using assms(3) fire by (auto simp: lineOk_def line_def taken_def)
next
  case (start i m)
  show ?thesis
    by (rule lineOk_worker [OF assms(3)])
      (use taken_update [OF start(2), of t "afterStart m s" "{}"] in
        \<open>simp_all add: start afterStart_def gateWait_def wmsg_def split: option.splits if_splits\<close>)
next
  case (delete i m)
  show ?thesis
    by (rule lineOk_worker [OF assms(3)])
      (use taken_update [OF delete(2), of t "Delivering m" "{}"] in \<open>simp_all add: delete wmsg_def\<close>)
next
  case (lookup i m)
  show ?thesis
    by (rule lineOk_worker [OF assms(3)])
      (use taken_update [OF lookup(2), of t "case gates s (gateKey m) of None \<Rightarrow> Idle | Some w \<Rightarrow> Finishing m w" "{}"] in
        \<open>simp_all add: lookup wmsg_def split: option.splits\<close>)
next
  case (finish i m w)
  have "taken t = taken (s\<lparr>workers := (workers s)[i := Idle]\<rparr>)" by (simp add: finish(1) taken_def wgDone_def Let_def)
  then have "taken t \<subseteq> taken s"
    using taken_update [OF finish(2), of "s\<lparr>workers := (workers s)[i := Idle]\<rparr>" Idle "{}"] by (simp add: wmsg_def)
  then show ?thesis by (rule lineOk_worker [OF assms(3)]) (simp_all add: finish(1) wgDone_def Let_def)
qed


text \<open>Where a first-attempt STUMP is: not yet consumed, on its way, in hand, or attempted.\<close>

definition wAt :: "CallbackTopicMessage \<Rightarrow> wstate \<Rightarrow> nat" where
  "wAt m w = (case w of AtStart x \<Rightarrow> count_list [x] m | Waiting x _ \<Rightarrow> count_list [x] m | Deleting x \<Rightarrow> count_list [x] m
     | Delivering x \<Rightarrow> count_list [x] m | _ \<Rightarrow> 0)"

definition located :: "CallbackTopicMessage \<Rightarrow> sys \<Rightarrow> nat" where
  "located m s = count_list (line s) m + sum_list (map (wAt m) (workers s)) + count_list (attempted s) m"

lemma wAt_update:
  "i < length ws \<Longrightarrow> sum_list (map (wAt m) (ws[i := x])) + wAt m (ws ! i) = sum_list (map (wAt m) ws) + wAt m x"
  by (rule sum_list_map_update)

lemma wAt_release [simp]: "wAt m (release w x) = wAt m x"
  by (simp add: wAt_def release_def split: wstate.split)

lemma located_step:
  assumes "gstep sha cap s t" and "inv s" and "firstStump m"
  shows "located m t = located m s"
  using assms(1)
proof (cases rule: gstep.cases)
  case (dispatch m' ms now f t')
  have [simp]: "workCh t' = workCh s" "workers t' = workers s" "attempted t' = attempted s" by (simp_all add: dispatch(5))
  show ?thesis using dispatch(2,3) by (simp add: dispatch(1) located_def line_def)
next
  case (park m' ms now d)
  have "0 < RetryCount m'" using assms(2) park(2) handle_cases(2) [OF park(4)] by (simp add: inv_def wfMsg_def)
  then have "m' \<noteq> m" using assms(3) by (auto simp: firstStump_def)
  then show ?thesis using park by (simp add: located_def line_def)
next
  case (send m')
  then show ?thesis by (simp add: located_def line_def)
next
  case (take m' c i)
  then show ?thesis using wAt_update [OF take(3), of m "AtStart m'"] by (simp add: located_def line_def wAt_def)
next
  case (deliver i m' rs e ds)
  then show ?thesis
    using wAt_update [OF deliver(2), of m "if firstStump m' then Looking m' else Idle"]
    by (simp add: located_def line_def wAt_def split: if_splits)
next
  case (fire xs m' ys)
  have "0 < RetryCount m'" using assms(2) fire by (simp add: inv_def)
  then have "m' \<noteq> m" using assms(3) by (auto simp: firstStump_def)
  then show ?thesis using fire by (simp add: located_def line_def)
next
  case (start i m')
  have "wAt m (afterStart m' s) = wAt m (AtStart m')"
    by (simp add: wAt_def afterStart_def gateWait_def split: option.split)
  then show ?thesis using wAt_update [OF start(2), of m "afterStart m' s"] start by (simp add: located_def line_def)
next
  case (delete i m')
  then show ?thesis using wAt_update [OF delete(2), of m "Delivering m'"] by (simp add: located_def line_def wAt_def)
next
  case (lookup i m')
  let ?x = "case gates s (gateKey m') of None \<Rightarrow> Idle | Some w \<Rightarrow> Finishing m' w"
  have "wAt m ?x = wAt m (Looking m')" by (simp add: wAt_def split: option.split)
  then show ?thesis using wAt_update [OF lookup(2), of m ?x] lookup by (simp add: located_def line_def)
next
  case (finish i m' w)
  have "wAt m Idle = wAt m (Finishing m' w)" by (simp add: wAt_def)
  then show ?thesis
    using wAt_update [OF finish(2), of m Idle] finish by (simp add: located_def line_def wgDone_def Let_def comp_def)
qed

lemma workers_length: "gstep sha cap s t \<Longrightarrow> length (workers t) = length (workers s)"
  by (auto elim!: gstep.cases simp: wgDone_def Let_def)

lemma reachable_inv:
  assumes "reachable sha cap (initSys n msgs) s" and "ordered msgs" and "list_all wfMsg msgs"
  shows "inv s \<and> lineOk s \<and> length (workers s) = n \<and> (\<forall>m. firstStump m \<longrightarrow> located m s = count_list msgs m)"
  using assms(1)
proof induction
  case reach0
  have "sum_list (map (wAt m) (replicate n Idle)) = 0" for m by (simp add: wAt_def)
  then show ?case
    using inv_init [OF assms(2,3), of n] assms(2)
    by (simp add: lineOk_def located_def) (simp add: line_def initSys_def taken_def wmsg_def)
next
  case (reachS s t)
  then show ?case using gstep_inv lineOk_step located_step workers_length by metis
qed

lemma settled_stumps:
  assumes "inv s" and "inflight (gateKey m) s = 0" and "\<forall>m' \<in> set (inbox s). \<not> stumpOf (gateKey m) m'"
    and "firstStump m'" and "gateKey m' = gateKey m"
  shows "located m' s = count_list (attempted s) m'"
proof -
  have st: "stumpOf (gateKey m) m'" using assms(4,5) by (simp add: stumpOf_def)
  have zero: "count_list xs m' = 0" if "cnt (gateKey m) xs = 0" for xs
    using that st by (induction xs) (auto split: if_splits)
  have "cnt (gateKey m) (inbox s) = 0" using assms(3) by (simp add: cnt_def)
  then have "count_list (line s) m' = 0"
    using assms(2) zero [of "workCh s"] zero [of "optList (pending s)"] zero [of "inbox s"]
    by (simp add: line_def inflight_def)
  moreover have "wAt m' w = 0" if w: "w \<in> set (workers s)" for w
  proof -
    have "workerOk s w" "wF (gateKey m) w = 0"
      using assms(1,2) w wF_le_inflight [OF w, of "gateKey m"] by (simp_all add: inv_def)
    then show ?thesis
      using st assms(4) by (cases w) (auto simp: wAt_def wF_def workerOk_def split: if_splits)
  qed
  ultimately show ?thesis by (simp add: located_def)
qed


text \<open>A run of one worker over a STUMP and the BLOCK_PROCESSED of its block.\<close>

definition stumpMessage :: CallbackTopicMessage where
  "stumpMessage = (emptyCallback ''http://cb'' CallbackStump)\<lparr>BlockHash := ''00ab''\<rparr>"

definition upEnv :: "db env" where
  "upEnv = \<lparr>eNow = 0, eDedup = None, eStump = None, eMarshal = (\<lambda>p. Inr (pl_Type p)), eReqErr = None,
     ePost = (\<lambda>_. PostReply 200 [] False), eDlq = (\<lambda>_. None)\<rparr>"

definition at1 ::
    "CallbackTopicMessage list \<Rightarrow> CallbackTopicMessage option \<Rightarrow> CallbackTopicMessage list \<Rightarrow> wstate \<Rightarrow> bool \<Rightarrow> int
     \<Rightarrow> CallbackTopicMessage list \<Rightarrow> sys" where
  "at1 ib pd ch w g c att = \<lparr>inbox = ib, pending = pd, workCh = ch, workers = [w], timers = [],
     gates = (if g then [gateKey stumpMessage \<mapsto> 0] else Map.empty), wg = (\<lambda>_. 0)(0 := c), nextWg = 1, attempted = att, panicked = False\<rparr>"

lemma run_key: "gateKey bpMessage = gateKey stumpMessage" "firstStump stumpMessage" "\<not> firstStump bpMessage" "isBP bpMessage"
    "\<not> isBP stumpMessage" "NextRetryAt stumpMessage = None" "NextRetryAt bpMessage = None"
    "RetryCount stumpMessage = 0" "RetryCount bpMessage = 0"
  by (simp_all add: gateKey_def stumpMessage_def bpMessage_def emptyCallback_def firstStump_def isBP_def callback_types)

lemma run_inbox: "ordered [stumpMessage, bpMessage]" "list_all wfMsg [stumpMessage, bpMessage]"
  by (simp_all add: run_key wfMsg_def)

lemma upEnv_no_retry:
  "retriesOf (\<lambda>_. 0) upEnv stumpMessage (idleService cfg2 emptyDb) = []"
  "retriesOf (\<lambda>_. 0) upEnv bpMessage (idleService cfg2 emptyDb) = []"
  by (simp_all add: retriesOf_def processDelivery_def checkDedup_def upEnv_def deliverCallback_def stumpPayload_def stumpMessage_def
      bpMessage_def emptyCallback_def callback_types Let_def idleService_def recordDedup_def)

lemma run_next: "reachable sha cap s0 s \<Longrightarrow> gstep sha cap s t \<Longrightarrow> t = t' \<Longrightarrow> reachable sha cap s0 t'"
  using reachS by metis

lemma run_to_bp: "reachable (\<lambda>_. 0) 1 (initSys 1 [stumpMessage, bpMessage]) (at1 [] None [] (Delivering bpMessage) False 0 [stumpMessage])"
proof -
  let ?r = "reachable (\<lambda>_. 0) 1 (initSys 1 [stumpMessage, bpMessage])"
  have h: "handleMessage 0 (Inr stumpMessage) = Dispatched stumpMessage True" "handleMessage 0 (Inr bpMessage) = Dispatched bpMessage False"
    by (simp_all add: handleMessage_def run_key)
  have "?r (at1 [bpMessage] (Some stumpMessage) [] Idle True 1 [])"
    by (rule run_next [OF reach0 gstep.dispatch [OF _ _ h(1)]])
      (auto simp: initSys_def at1_def gateAdd_def)
  then have "?r (at1 [bpMessage] None [stumpMessage] Idle True 1 [])"
    by (rule run_next [OF _ gstep.send [of _ stumpMessage]]) (auto simp: at1_def)
  then have "?r (at1 [bpMessage] None [] (AtStart stumpMessage) True 1 [])"
    by (rule run_next [OF _ gstep.take [of _ stumpMessage "[]" 0]]) (auto simp: at1_def)
  then have "?r (at1 [bpMessage] None [] (Delivering stumpMessage) True 1 [])"
    by (rule run_next [OF _ gstep.start [of 0 _ stumpMessage]]) (auto simp: at1_def afterStart_def run_key [unfolded isBP_def])
  then have "?r (at1 [bpMessage] None [] (Looking stumpMessage) True 1 [stumpMessage])"
    by (rule run_next [OF _ gstep.deliver [OF _ _ upEnv_no_retry(1) [symmetric], of 0]]) (auto simp: at1_def run_key)
  then have "?r (at1 [bpMessage] None [] (Finishing stumpMessage 0) True 1 [stumpMessage])"
    by (rule run_next [OF _ gstep.lookup [of 0 _ stumpMessage]]) (auto simp: at1_def)
  then have "?r (at1 [bpMessage] None [] Idle True 0 [stumpMessage])"
    by (rule run_next [OF _ gstep.finish [of 0 _ stumpMessage 0]]) (auto simp: at1_def wgDone_def release_def)
  then have "?r (at1 [] (Some bpMessage) [] Idle True 0 [stumpMessage])"
    by (rule run_next [OF _ gstep.dispatch [OF _ _ h(2)]]) (auto simp: at1_def)
  then have "?r (at1 [] None [bpMessage] Idle True 0 [stumpMessage])"
    by (rule run_next [OF _ gstep.send [of _ bpMessage]]) (auto simp: at1_def)
  then have "?r (at1 [] None [] (AtStart bpMessage) True 0 [stumpMessage])"
    by (rule run_next [OF _ gstep.take [of _ bpMessage "[]" 0]]) (auto simp: at1_def)
  then have "?r (at1 [] None [] (Deleting bpMessage) True 0 [stumpMessage])"
    by (rule run_next [OF _ gstep.start [of 0 _ bpMessage]]) (auto simp: at1_def afterStart_def gateWait_def run_key run_key [unfolded isBP_def])
  then show ?thesis
    by (rule run_next [OF _ gstep.delete [of 0 _ bpMessage]]) (auto simp: at1_def run_key fun_eq_iff)
qed

lemma bp_after_stumps:
  assumes "reachable sha cap (initSys n msgs) s" and "ordered msgs" and "list_all wfMsg msgs"
    and "i < length (workers s)" and "workers s ! i = Delivering bp" and "isBP bp"
    and "m \<in> set msgs" and "firstStump m" and "gateKey m = gateKey bp"
  shows "count_list (attempted s) m = count_list msgs m \<and> \<not> panicked s"
proof -
  have r: "inv s" "located m s = count_list msgs m" using reachable_inv [OF assms(1-3)] assms(8) by blast+
  have "workerOk s (Delivering bp)" using r(1) nth_mem [OF assms(4)] assms(5) by (auto simp: inv_def)
  then have "inflight (gateKey bp) s = 0" using assms(6) by (simp add: workerOk_def)
  moreover have "bp \<in> active s" using worker_active [OF assms(4)] assms(5) by (simp add: wmsg_def)
  then have "\<forall>m' \<in> set (inbox s). \<not> stumpOf (gateKey bp) m'" using r(1) assms(6) by (simp add: inv_def)
  ultimately have "located m s = count_list (attempted s) m" using settled_stumps [OF r(1)] assms(8,9) by blast
  then show ?thesis using r by (simp add: inv_def)
qed

text \<open>
  C4: For a partition in which no first-attempt STUMP of a block and URL follows the BLOCK_PROCESSED
  of that block and URL, whatever the interleaving of consumer, workers and timers: when a worker is
  about to deliver a BLOCK_PROCESSED, every first-attempt STUMP of the partition for the same gate
  key has been through its delivery attempt, as often as it is in the partition, and no
  \<open>WaitGroup\<close> has gone below zero.
\<close>

theorem gate_order:
  assumes "reachable sha cap (initSys n msgs) s" and "ordered msgs" and "list_all wfMsg msgs"
    and "i < length (workers s)" and "workers s ! i = Delivering bp" and "isBP bp"
    and "m \<in> set msgs" and "firstStump m" and "gateKey m = gateKey bp"
  shows "count_list (attempted s) m = count_list msgs m \<and> \<not> panicked s"
  by (rule bp_after_stumps [OF assms])

theorem gate_order_witness:
  "count_list (attempted (at1 [] None [] (Delivering bpMessage) False 0 [stumpMessage])) stumpMessage
     = count_list [stumpMessage, bpMessage] stumpMessage
   \<and> \<not> panicked (at1 [] None [] (Delivering bpMessage) False 0 [stumpMessage])"
  by (rule gate_order [OF run_to_bp run_inbox, of 0 bpMessage]) (simp_all add: at1_def run_key)

text \<open>Workers that all wait or idle are idle: who waits, waits for a STUMP that another one has in hand.\<close>

lemma stuck_idle:
  assumes "inv s" and "lineOk s" and "\<And>w. w \<in> set (workers s) \<Longrightarrow> w = Idle \<or> (\<exists>m g. w = Waiting m g)" and "w \<in> set (workers s)"
  shows "w = Idle"
proof (rule ccontr)
  assume "w \<noteq> Idle"
  then obtain m g where m: "w = Waiting m g" using assms(3) [OF assms(4)] by blast
  then have ok: "isBP m" "gates s (gateKey m) = Some g" "wg s g \<noteq> 0"
    using assms(1,4) by (auto simp: inv_def workerOk_def dest!: bspec)
  then have "0 < inflight (gateKey m) s" using gatesOkD(2) [OF _ ok(2)] assms(1) by (simp add: inv_def)
  moreover have "wF (gateKey m) v = 0" if "v \<in> set (workers s)" for v using assms(3) [OF that] by (auto simp: wF_def)
  then have "sum_list (map (wF (gateKey m)) (workers s)) = 0" by (simp add: sum_list_eq_0_iff)
  moreover have "m \<in> taken s" using assms(4) m by (force simp: taken_def wmsg_def)
  then have "noStump m (line s)" using assms(2) by (simp add: lineOk_def)
  then have "cnt (gateKey m) (optList (pending s)) = 0" "cnt (gateKey m) (workCh s) = 0"
    using ok(1) by (auto simp: noStump_def line_def cnt_def)
  ultimately show False by (simp add: inflight_def)
qed

text \<open>
  C11: The gate never blocks the service: with at least one worker and room in the channel, every
  state the service reaches either has a next step or is at rest, with nothing left to consume,
  dispatch, deliver or retry and every first-attempt STUMP attempted. A worker that waits only waits
  for STUMPs other workers have in hand, even with a single worker, because the channel is first in,
  first out.
\<close>

theorem gate_no_deadlock:
  assumes "reachable sha cap (initSys n msgs) s" and "ordered msgs" and "list_all wfMsg msgs"
    and "0 < n" and "0 < cap" and "\<nexists>t. gstep sha cap s t"
  shows "inbox s = [] \<and> pending s = None \<and> workCh s = [] \<and> timers s = [] \<and> set (workers s) = {Idle}
    \<and> (\<forall>m \<in> set msgs. firstStump m \<longrightarrow> count_list (attempted s) m = count_list msgs m)"
proof -
  note stuck = assms(6) [simplified not_ex, THEN spec]
  have r: "inv s" "lineOk s" "length (workers s) = n" "\<And>m. firstStump m \<Longrightarrow> located m s = count_list msgs m"
    using reachable_inv [OF assms(1-3)] by blast+
  have state: "w = Idle \<or> (\<exists>m g. w = Waiting m g)" if "w \<in> set (workers s)" for w
  proof -
    obtain i where i: "i < length (workers s)" "workers s ! i = w" using \<open>w \<in> set (workers s)\<close> by (auto simp: in_set_conv_nth)
    have "\<not> panicked s" using r(1) by (simp add: inv_def)
    then show ?thesis
      using i stuck gstep.start gstep.delete gstep.deliver [OF _ _ refl] gstep.lookup gstep.finish by (cases w) metis+
  qed
  have idle: "w = Idle" if "w \<in> set (workers s)" for w by (rule stuck_idle [OF r(1,2) _ that]) (rule state)
  have i0: "0 < length (workers s)" "workers s ! 0 = Idle" using r(3) assms(4) idle [of "workers s ! 0"] by simp_all
  have ch: "workCh s = []" using gstep.take [OF _ i0] stuck by (cases "workCh s") blast+
  have pn: "pending s = None" using gstep.send [of s _ cap sha] ch assms(5) stuck by (cases "pending s") auto
  have tm: "timers s = []" using gstep.fire [of s "[]" _ _ cap sha] ch assms(5) stuck by (cases "timers s") auto
  have ib: "inbox s = []"
  proof (cases "inbox s")
    case (Cons m ms)
    have "handleMessage (the (NextRetryAt m)) (Inr m) = Dispatched m (firstStump m)"
      by (simp add: handleMessage_def split: option.split)
    then show ?thesis using gstep.dispatch [OF Cons pn _ refl] stuck by blast
  qed
  have ws: "set (workers s) = {Idle}" using idle nth_mem [OF i0(1)] i0(2) by force
  have "sum_list (map (wAt m) (workers s)) = 0" for m
    unfolding sum_list_eq_0_iff by (auto dest!: idle simp: wAt_def)
  then have "located m s = count_list (attempted s) m" for m by (simp add: located_def line_def ch pn ib)
  then show ?thesis using r(4) ch pn tm ib ws by auto
qed


theorem gate_no_deadlock_witness:
  "let s = at1 [] None [] Idle False 0 [stumpMessage, bpMessage] in
     inbox s = [] \<and> pending s = None \<and> workCh s = [] \<and> timers s = [] \<and> set (workers s) = {Idle}
     \<and> (\<forall>m \<in> set [stumpMessage, bpMessage]. firstStump m \<longrightarrow> count_list (attempted s) m = count_list [stumpMessage, bpMessage] m)"
proof -
  let ?s = "at1 [] None [] Idle False 0 [stumpMessage, bpMessage]"
  have r: "reachable (\<lambda>_. 0) 1 (initSys 1 [stumpMessage, bpMessage]) ?s"
    by (rule run_next [OF run_to_bp gstep.deliver [OF _ _ upEnv_no_retry(2) [symmetric], of 0]]) (auto simp: at1_def run_key)
  have "\<nexists>t. gstep (\<lambda>_. 0) 1 ?s t" by (auto elim!: gstep.cases simp: at1_def)
  from gate_no_deadlock [OF r run_inbox _ _ this] show ?thesis by (simp only: Let_def) simp
qed

end
