(* ===== verification/Block_Subtree.thy ===== *)
theory Block_Subtree
  imports Stump_Merge Datahub Stump_Store Sql_Stores
begin

text \<open>
  Processing of one subtree of a mined block (internal/block/subtree_processor.go): the subtree is
  read from the blob store or fetched from the DataHub, its txids are looked up in the registration
  store, and for the registered ones a STUMP and the callback groups are made.

  What the function is given, and the code outside the repository that it calls, are the fields of
  \<open>subtreeDeps\<close>: \<open>sdHashString\<close> is \<open>chainhash.Hash.String\<close> and \<open>sdTree\<close> is go-subtree's
  \<open>BuildMerkleTreeStoreFromBytes\<close>. A nil slice of \<open>GetSubtree\<close> is \<open>None\<close>; \<open>sdRegOrd k\<close> is the order in
  which the \<open>k\<close>-th loop ranges over the map of registrations.
\<close>

section \<open>Operations\<close>

record SubtreeResult =
  CallbackGroups :: "string \<rightharpoonup> string list"
  SubtreeHash :: string
  StumpData :: bytes

record ('b, 'r, 'e) subtreeDeps =
  sdNet :: net
  sdClient :: Client
  sdHashString :: "bytes \<Rightarrow> string"
  sdTree :: "Node list \<Rightarrow> string + bytes list"
  sdGetSubtree :: "string \<Rightarrow> 'b \<Rightarrow> subtreeErr + bytes option"
  sdStoreSubtree :: "string \<Rightarrow> bytes \<Rightarrow> u64 \<Rightarrow> 'b \<Rightarrow> subtreeErr option \<times> 'b"
  sdBatchGet :: "string list \<Rightarrow> 'r \<Rightarrow> 'e + (string \<times> string list) list"
  sdBatchUpdateTTL :: "string list \<Rightarrow> int \<Rightarrow> 'r \<Rightarrow> ('e + unit) \<times> 'r"
  sdLevelOrd :: "nat \<Rightarrow> nat list \<Rightarrow> nat list"
  sdRegOrd :: "nat \<Rightarrow> (string \<times> string list) list \<Rightarrow> (string \<times> string list) list"

datatype 'e blockErr =
    EFetchSubtree string dhError
  | EParseSubtree string dhError
  | EBatchGet string 'e
  | EMerkleTree string string
  | EPanicked go_panic

text \<open>The data of the subtree: stored, or fetched and then stored for the block's height.\<close>

definition retrieveSubtree ::
    "('b, 'r, 'e) subtreeDeps \<Rightarrow> string \<Rightarrow> u64 \<Rightarrow> string \<Rightarrow> 'b \<Rightarrow> ('e blockErr + bytes) \<times> 'b" where
  "retrieveSubtree d subtreeHash blockHeight dataHubURL b = (case sdGetSubtree d subtreeHash b of
      Inr (Some rawData) \<Rightarrow> (Inr rawData, b)
    | _ \<Rightarrow> (case snd (FetchSubtreeRaw (sdNet d) (sdClient d) dataHubURL subtreeHash) of
        Inl err \<Rightarrow> (Inl (EFetchSubtree subtreeHash err), b)
      | Inr rawData \<Rightarrow> (Inr rawData, snd (sdStoreSubtree d subtreeHash rawData blockHeight b))))"

text \<open>The map \<open>txidToIndex\<close>: of equal txids the last index stays.\<close>

definition txidToIndex :: "string list \<Rightarrow> string \<rightharpoonup> nat" where
  "txidToIndex txids = map_of (rev (zip txids [0..<length txids]))"

definition registeredIndices :: "string list \<Rightarrow> (string \<times> string list) list \<Rightarrow> (nat \<times> string) list" where
  "registeredIndices txids regs =
     fold (\<lambda>(txid, _) m. case txidToIndex txids txid of None \<Rightarrow> m | Some idx \<Rightarrow> AList.update idx txid m) regs []"

definition ProcessBlockSubtree ::
    "('b, 'r, 'e) subtreeDeps \<Rightarrow> string \<Rightarrow> u64 \<Rightarrow> string \<Rightarrow> int \<Rightarrow> 'b \<Rightarrow> 'r
     \<Rightarrow> ('e blockErr + SubtreeResult option) \<times> 'b \<times> 'r" where
  "ProcessBlockSubtree d subtreeHash blockHeight dataHubURL postMineTTLSec b r =
     (case retrieveSubtree d subtreeHash blockHeight dataHubURL b of
        (Inl err, b) \<Rightarrow> (Inl err, b, r)
      | (Inr rawData, b) \<Rightarrow> (case ParseRawNodes rawData of
          Inl err \<Rightarrow> (Inl (EParseSubtree subtreeHash err), b, r)
        | Inr nodes \<Rightarrow>
            if nodes = [] then (Inr None, b, r)
            else (let txids = map (\<lambda>node. sdHashString d (Node.Hash node)) nodes
              in case sdBatchGet d txids r of
                   Inl err \<Rightarrow> (Inl (EBatchGet subtreeHash err), b, r)
                 | Inr regs \<Rightarrow>
                     if regs = [] then (Inr None, b, r)
                     else (case sdTree d nodes of
                         Inl err \<Rightarrow> (Inl (EMerkleTree subtreeHash err), b, r)
                       | Inr internalNodes \<Rightarrow>
                           (case Build (sdLevelOrd d) blockHeight (map Node.Hash nodes) internalNodes
                                   (registeredIndices txids (sdRegOrd d 0 regs)) of
                              Inl p \<Rightarrow> (Inl (EPanicked p), b, r)
                            | Inr None \<Rightarrow> (Inr None, b, r)
                            | Inr (Some s) \<Rightarrow>
                                (Inr (Some \<lparr>CallbackGroups = GroupByCallback (sdRegOrd d 1 regs),
                                            SubtreeHash = subtreeHash, StumpData = Encode (Some s)\<rparr>),
                                 b,
                                 if postMineTTLSec > 0
                                 then snd (sdBatchUpdateTTL d (map fst (sdRegOrd d 2 regs)) postMineTTLSec r)
                                 else r))))))"

section \<open>Indices of registered txids\<close>

lemma txidToIndex_Some:
  assumes "txidToIndex txids t = Some i"
  shows "i < length txids" and "txids ! i = t"
proof -
  have "(t, i) \<in> set (zip txids [0..<length txids])" using map_of_SomeD [OF assms [unfolded txidToIndex_def]] by simp
  then show "i < length txids" "txids ! i = t" by (auto simp: in_set_zip)
qed

lemma txidToIndex_None: "txidToIndex txids t = None \<longleftrightarrow> t \<notin> set txids"
proof -
  have "fst ` set (zip txids [0..<length txids]) = set txids" by (metis length_map map_fst_zip map_nth set_map)
  then show ?thesis by (simp add: txidToIndex_def map_of_eq_None_iff)
qed

lemma registeredIndices_keys:
  "fst ` set (registeredIndices txids regs) = {i. \<exists>t \<in> fst ` set regs. txidToIndex txids t = Some i}"
proof -
  have "fst ` set (fold (\<lambda>(txid, _) m. case txidToIndex txids txid of None \<Rightarrow> m | Some idx \<Rightarrow> AList.update idx txid m) regs m)
      = fst ` set m \<union> {i. \<exists>t \<in> fst ` set regs. txidToIndex txids t = Some i}" for m
  proof (induction regs arbitrary: m)
    case (Cons r regs)
    obtain t us where r: "r = (t, us)" by (cases r)
    show ?case
      by (cases "txidToIndex txids t")
        (simp_all only: r fold_simps prod.case option.case Cons dom_update list.set image_insert fst_conv bex_simps Un_assoc, auto)
  qed simp
  then show ?thesis by (simp add: registeredIndices_def)
qed

lemma indices_of_registered:
  assumes "fst ` set regs \<subseteq> set txids"
  shows "(!) txids ` fst ` set (registeredIndices txids regs) = fst ` set regs"
    and "fst ` set (registeredIndices txids regs) \<subseteq> {..<length txids}"
proof -
  have "\<exists>i. txidToIndex txids t = Some i" if "t \<in> fst ` set regs" for t
    using that assms txidToIndex_None [of txids t] by (cases "txidToIndex txids t") auto
  then show "(!) txids ` fst ` set (registeredIndices txids regs) = fst ` set regs"
    unfolding registeredIndices_keys using txidToIndex_Some(2) by force
  show "fst ` set (registeredIndices txids regs) \<subseteq> {..<length txids}"
    unfolding registeredIndices_keys using txidToIndex_Some(1) by force
qed

section \<open>The proof reaches exactly the registered txids\<close>

text \<open>What a result promises: a decodable proof for the txids \<open>ts\<close>, and for every URL its txids.\<close>

definition provesFor ::
    "(bytes \<Rightarrow> bytes \<Rightarrow> bytes) \<Rightarrow> (bytes \<Rightarrow> string) \<Rightarrow> bytes list \<Rightarrow> (string \<Rightarrow> string set) \<Rightarrow> SubtreeResult \<Rightarrow> bool" where
  "provesFor H hashString hs urls res \<longleftrightarrow>
     (\<exists>s. decodeSTUMP (StumpData res) = Some (s, []) \<and> verifyBUMPProof H s (merkleRoot H hs)
        \<and> hashString ` Leaf.Hash ` set (filter TxID (Leaves (hd (Paths s)))) = {t \<in> hashString ` set hs. urls t \<noteq> {}})
     \<and> (\<forall>url. CallbackGroups res url = None \<longleftrightarrow> {t \<in> hashString ` set hs. url \<in> urls t} = {})
     \<and> (\<forall>url ts. CallbackGroups res url = Some ts \<longrightarrow> set ts = {t \<in> hashString ` set hs. url \<in> urls t} \<and> distinct ts)"


lemma nodes_of_hashes:
  assumes "\<forall>h \<in> set hs. length h = HashSize"
  shows "ParseRawNodes (concat hs) = Inr (map (\<lambda>h. \<lparr>Node.Hash = h, Fee = 0, SizeInBytes = 0\<rparr>) hs)"
  using ParseRawNodes_concat [OF assms] .

definition nodesOf :: "bytes list \<Rightarrow> Node list" where
  "nodesOf hs = map (\<lambda>h. \<lparr>Node.Hash = h, Fee = 0, SizeInBytes = 0\<rparr>) hs"

lemma nodesOf_simps [simp]: "map Node.Hash (nodesOf hs) = hs" "map (\<lambda>n. f (Node.Hash n)) (nodesOf hs) = map f hs"
  "nodesOf hs = [] \<longleftrightarrow> hs = []"
  by (simp_all add: nodesOf_def comp_def)

text \<open>The documented layout of the store of internal nodes, whose elements are 32-byte hashes.\<close>

definition treeOk :: "(bytes \<Rightarrow> bytes \<Rightarrow> bytes) \<Rightarrow> (Node list \<Rightarrow> string + bytes list) \<Rightarrow> bytes list \<Rightarrow> bool" where
  "treeOk H tree hs \<longleftrightarrow> (\<exists>inner. tree (nodesOf hs) = Inr inner \<and> merkleStore H hs inner \<and> (\<forall>h \<in> set inner. length h = 32))"

context registration_store
begin

lemma process_none:
  assumes "inv r" and "sdBatchGet d = batchGet" and "fst (retrieveSubtree d st ht url b) = Inr (concat hs)"
    and "\<forall>h \<in> set hs. length h = 32" and "batchGet (map (sdHashString d) hs) r = Inr regs"
    and "\<forall>h \<in> set hs. urlsOf r (sdHashString d h) = {}"
  shows "fst (ProcessBlockSubtree d st ht url ttl b r) = Inr None"
proof -
  obtain b' where b': "retrieveSubtree d st ht url b = (Inr (concat hs), b')" using assms(3) by (cases "retrieveSubtree d st ht url b") auto
  have "regs = []"
  proof (rule ccontr)
    assume "regs \<noteq> []"
    then obtain t us where r: "(t, us) \<in> set regs" by (cases regs) auto
    then show False using asked_only [OF assms(1,5) r] assms(6) by auto
  qed
  then show ?thesis
    using nodes_of_hashes [of hs] assms(2,4,5) by (simp add: ProcessBlockSubtree_def b' nodesOf_def [symmetric] HashSize_def Let_def)
qed

lemma process_some:
  assumes "inv r" and "sdBatchGet d = batchGet" and "fst (retrieveSubtree d st ht url b) = Inr (concat hs)"
    and "\<forall>h \<in> set hs. length h = 32" and "batchGet (map (sdHashString d) hs) r = Inr regs"
    and "h \<in> set hs" and "urlsOf r (sdHashString d h) \<noteq> {}"
    and "2 \<le> length hs" and "length hs \<le> 2 ^ 62"
    and "treeOk H (sdTree d) hs" and "\<And>a b. length (H a b) = 32"
    and "range_order (sdLevelOrd d)" and "range_order (sdRegOrd d)"
  shows "\<exists>res. fst (ProcessBlockSubtree d st ht url ttl b r) = Inr (Some res)
     \<and> provesFor H (sdHashString d) hs (urlsOf r) res"
proof -
  let ?ts = "map (sdHashString d) hs" and ?reg = "registeredIndices (map (sdHashString d) hs) (sdRegOrd d 0 regs)"
  obtain b' where b': "retrieveSubtree d st ht url b = (Inr (concat hs), b')" using assms(3) by (cases "retrieveSubtree d st ht url b") auto
  obtain inner where inner: "sdTree d (nodesOf hs) = Inr inner" "merkleStore H hs inner" "\<forall>h \<in> set inner. length h = 32"
    using assms(10) by (auto simp: treeOk_def)
  have regs: "distinct (map fst regs)" "fst ` set regs = {t \<in> sdHashString d ` set hs. urlsOf r t \<noteq> {}}"
  proof -
    note bt = batch [OF assms(1,5)]
    show "distinct (map fst regs)" using bt by blast
    have "t \<in> fst ` set regs \<longleftrightarrow> map_of regs t \<noteq> None" for t by (simp add: map_of_eq_None_iff)
    then show "fst ` set regs = {t \<in> sdHashString d ` set hs. urlsOf r t \<noteq> {}}" using bt by auto
  qed
  then have ne: "regs \<noteq> []" using assms(6,7) by auto
  have sub: "fst ` set (sdRegOrd d 0 regs) \<subseteq> set ?ts" using regs(2) by (simp add: assms(13))
  note idx = indices_of_registered [OF sub]
  have img: "(!) ?ts ` fst ` set ?reg = fst ` set regs" using idx(1) by (simp add: assms(13))
  have ok: "regOk hs ?reg" using idx(2) img ne assms(9) by (auto simp: regOk_def)
  obtain s where s: "Build (sdLevelOrd d) ht hs inner ?reg = Inr (Some s)" "verifyBUMPProof H s (merkleRoot H hs)"
    "Leaf.Hash ` set (filter TxID (Leaves (hd (Paths s)))) = (!) hs ` fst ` set ?reg"
    using Build_flags [OF assms(12) ok assms(8) inner(2) assms(11,4)] by blast
  have "sdHashString d ` (!) hs ` fst ` set ?reg = (!) ?ts ` fst ` set ?reg"
    using idx(2) by (auto simp: image_image intro!: image_cong)
  then have flagged: "sdHashString d ` Leaf.Hash ` set (filter TxID (Leaves (hd (Paths s)))) = fst ` set regs"
    using s(3) img by simp
  have dec: "decodeSTUMP (Encode (Some s)) = Some (s, [])"
    using decodeSTUMP_encode [OF wfSTUMP_Build [OF assms(12) ok assms(4) inner(3) s(1)], of "[]"] by simp
  define res where "res = \<lparr>CallbackGroups = GroupByCallback (sdRegOrd d 1 regs), SubtreeHash = st, StumpData = Encode (Some s)\<rparr>"
  have fin: "fst (ProcessBlockSubtree d st ht url ttl b r) = Inr (Some res)"
    using nodes_of_hashes [of hs] assms(2,4,5,8) ne inner(1) s(1)
    by (auto simp: ProcessBlockSubtree_def b' nodesOf_def [symmetric] HashSize_def Let_def res_def)
  have grp: "set (txidsOf (sdRegOrd d 1 regs) u) = {t \<in> sdHashString d ` set hs. u \<in> urlsOf r t}" for u
  proof -
    have "(\<exists>us. (t, us) \<in> set regs \<and> u \<in> set us) \<longleftrightarrow> t \<in> sdHashString d ` set hs \<and> u \<in> urlsOf r t" for t
      using asked_only(1,3) [OF assms(1,5)] found [OF assms(1,5), of t] by auto
    then show ?thesis by (simp add: set_txidsOf assms(13))
  qed
  have "distinct us" if "(t, us) \<in> set regs" for t us
    using batch [OF assms(1,5)] map_of_is_SomeI [OF regs(1) that] by blast
  then have dst: "distinct (txidsOf (sdRegOrd d 1 regs) u)" for u
    using regs(1) mset_eq_imp_distinct_iff [of "map fst (sdRegOrd d 1 regs)" "map fst regs"]
      range_order_mset [OF assms(13), of 1 regs] by (intro distinct_txidsOf) (auto simp: assms(13))
  have empty: "txidsOf (sdRegOrd d 1 regs) u = [] \<longleftrightarrow> {t \<in> sdHashString d ` set hs. u \<in> urlsOf r t} = {}" for u
    unfolding grp [symmetric] set_empty ..
  have "CallbackGroups res u = None \<longleftrightarrow> {t \<in> sdHashString d ` set hs. u \<in> urlsOf r t} = {}" for u
    unfolding empty [symmetric] by (simp add: res_def GroupByCallback_txidsOf)
  moreover have "set ts = {t \<in> sdHashString d ` set hs. u \<in> urlsOf r t} \<and> distinct ts" if "CallbackGroups res u = Some ts" for u ts
    using that grp [of u] dst [of u] by (auto simp: res_def GroupByCallback_txidsOf split: if_splits)
  ultimately have "provesFor H (sdHashString d) hs (urlsOf r) res"
    unfolding provesFor_def using s(2) flagged dec regs(2) by (auto simp: res_def)
  then show ?thesis using fin by blast
qed

end

context sql_rows
begin

lemma subtree_proof:
  assumes "regInv r" and "sdBatchGet d = regBatchGet ro None"
    and "fst (retrieveSubtree d st ht url b) = Inr (concat hs)"
    and "\<forall>h \<in> set hs. length h = 32" and "2 \<le> length hs" and "length hs \<le> 2 ^ 62"
    and "treeOk H (sdTree d) hs" and "\<And>a b. length (H a b) = 32"
    and "range_order (sdLevelOrd d)" and "range_order (sdRegOrd d)"
  shows "if \<forall>h \<in> set hs. urlsIn r (sdHashString d h) = {}
     then fst (ProcessBlockSubtree d st ht url ttl b r) = Inr None
     else \<exists>res. fst (ProcessBlockSubtree d st ht url ttl b r) = Inr (Some res)
            \<and> provesFor H (sdHashString d) hs (urlsIn r) res"
proof -
  obtain regs where g: "regBatchGet ro None (map (sdHashString d) hs) r = Inr regs"
    by (cases "map (sdHashString d) hs = []") (auto simp: regBatchGet_def sqlRead_def)
  show ?thesis
  proof (cases "\<forall>h \<in> set hs. urlsIn r (sdHashString d h) = {}")
    case True
    then show ?thesis using process_none [OF assms(1-4) g True] by simp
  next
    case False
    then obtain h where h: "h \<in> set hs" "urlsIn r (sdHashString d h) \<noteq> {}" by blast
    have "\<exists>res. fst (ProcessBlockSubtree d st ht url ttl b r) = Inr (Some res) \<and> provesFor H (sdHashString d) hs (urlsIn r) res"
      by (rule process_some [OF assms(1-4) g h assms(5-10)])
    then show ?thesis unfolding if_not_P [OF False] .
  qed
qed

end

text \<open>
  C2: Processing a mined subtree against the SQL registration store gives the receivers a proof of
  exactly what they registered. For a subtree of at least two 32-byte hashes, read from the blob
  store or fetched: if no txid of it is registered nothing is produced; otherwise the result carries
  bytes that decode to a BRC-74 path which verifies against the merkle root of the subtree and flags
  exactly the registered txids, a URL has a callback group if and only if it is registered for a txid
  of the subtree, and its group lists these txids, each once. This holds in every iteration order of
  the maps and every row order of the database.
\<close>

theorem block_subtree_proof:
  assumes "row_order ro" and "regInv r" and "sdBatchGet d = regBatchGet ro None"
    and "fst (retrieveSubtree d st ht url b) = Inr (concat hs)"
    and "\<forall>h \<in> set hs. length h = 32" and "2 \<le> length hs" and "length hs \<le> 2 ^ 62"
    and "treeOk H (sdTree d) hs" and "\<And>a b. length (H a b) = 32"
    and "range_order (sdLevelOrd d)" and "range_order (sdRegOrd d)"
  shows "if \<forall>h \<in> set hs. urlsIn r (sdHashString d h) = {}
     then fst (ProcessBlockSubtree d st ht url ttl b r) = Inr None
     else \<exists>res. fst (ProcessBlockSubtree d st ht url ttl b r) = Inr (Some res)
            \<and> provesFor H (sdHashString d) hs (urlsIn r) res"
  by (rule sql_rows.subtree_proof [OF sql_rows.intro [OF assms(1)] assms(2-11)])

text \<open>Three leaves in the blob store, the first and the last of them registered.\<close>

definition exH :: "bytes \<Rightarrow> bytes \<Rightarrow> bytes" where
  "exH a b = copy32 (rev b @ a)"

definition exHashes :: "bytes list" where
  "exHashes = [replicate 32 1, replicate 32 2, replicate 32 3]"

definition exDeps :: "(MemoryBlobStore blobSubtreeStore, db, sqlErr) subtreeDeps" where
  "exDeps = \<lparr>sdNet = flakyNet, sdClient = NewClient 10 0, sdHashString = (\<lambda>h. hexEncode (take 1 h)),
     sdTree = (\<lambda>nodes. case map Node.Hash nodes of [a, b, c] \<Rightarrow> Inr [exH a b, exH c c, exH (exH a b) (exH c c)] | _ \<Rightarrow> Inl ''''),
     sdGetSubtree = (\<lambda>i s. map_sum id Some (GetSubtree memGet i s)), sdStoreSubtree = StoreSubtree memSet,
     sdBatchGet = regBatchGet rev None, sdBatchUpdateTTL = regBatchUpdateTTL 0 None,
     sdLevelOrd = (\<lambda>_. rev), sdRegOrd = (\<lambda>_. rev)\<rparr>"

definition exBlobs :: "MemoryBlobStore blobSubtreeStore" where
  "exBlobs = snd (StoreSubtree memSet ''st'' (concat exHashes) 0 (NewSubtreeStore NewMemoryBlobStore 3))"

definition exDb :: db where
  "exDb = emptyDb\<lparr>registration_urls := [(hexEncode [1], ''http://a''), (hexEncode [3], ''http://b''), (hexEncode [3], ''http://c'')]\<rparr>"

lemma length_exH: "length (exH a b) = 32"
  by (simp add: exH_def)

lemma exSubtree:
  "fst (retrieveSubtree exDeps ''st'' 100 ''http://hub'' exBlobs) = Inr (concat exHashes)"
  "treeOk exH (sdTree exDeps) exHashes"
  "\<not> (\<forall>h \<in> set exHashes. urlsIn exDb (sdHashString exDeps h) = {})"
proof -
  show "fst (retrieveSubtree exDeps ''st'' 100 ''http://hub'' exBlobs) = Inr (concat exHashes)"
    by (simp add: retrieveSubtree_def exDeps_def exBlobs_def GetSubtree_def StoreSubtree_def NewSubtreeStore_def
        memSet_def memGet_def NewMemoryBlobStore_def subtreeOpts_def Let_def)
  show "treeOk exH (sdTree exDeps) exHashes"
    unfolding treeOk_def exHashes_def using merkleStore_3 [of exH] length_exH by (auto simp: exDeps_def nodesOf_def)
  show "\<not> (\<forall>h \<in> set exHashes. urlsIn exDb (sdHashString exDeps h) = {})"
    by (auto simp: exHashes_def exDb_def exDeps_def urlsIn_def)
qed

lemma exSubtree_ok:
  "row_order (rev :: (string \<times> string) list \<Rightarrow> _)" "regInv exDb" "sdBatchGet exDeps = regBatchGet rev None"
  "\<forall>h \<in> set exHashes. length h = 32" "2 \<le> length exHashes" "length exHashes \<le> 2 ^ 62"
  "range_order (sdLevelOrd exDeps)" "range_order (sdRegOrd exDeps)"
  by (simp_all add: row_order_def regInv_def exDb_def exDeps_def exHashes_def)

lemma exProcess:
  "\<exists>res. fst (ProcessBlockSubtree exDeps ''st'' 100 ''http://hub'' 60 exBlobs exDb) = Inr (Some res)"
  using sql_rows.subtree_proof [OF sql_rows.intro [OF exSubtree_ok(1)] exSubtree_ok(2,3) exSubtree(1) exSubtree_ok(4-6)
      exSubtree(2) length_exH exSubtree_ok(7,8), of 60]
  unfolding if_not_P [OF exSubtree(3)] by blast

theorem block_subtree_proof_witness:
  "\<exists>res. fst (ProcessBlockSubtree exDeps ''st'' 100 ''http://hub'' 60 exBlobs exDb) = Inr (Some res)
     \<and> provesFor exH (sdHashString exDeps) exHashes (urlsIn exDb) res"
  using block_subtree_proof [OF exSubtree_ok(1-3) exSubtree(1) exSubtree_ok(4-6) exSubtree(2) length_exH exSubtree_ok(7,8), of 60]
  unfolding if_not_P [OF exSubtree(3)] .

end
