(* ===== verification/Block_Flow.thy ===== *)
theory Block_Flow
  imports Block_Subtree Stump_Gate Dedup_Cache
begin

text \<open>
  From a block announcement to the callback topic: the handler of the block processor
  (internal/block/processor.go), which initialises the subtree counter and publishes one work message
  per subtree, and the handler of the subtree workers (internal/block/subtree_worker.go), which
  publishes the STUMP callbacks of a subtree, decrements the counter and emits BLOCK_PROCESSED at
  zero. The handlers are given as a whole and, for the workers of a deployment, as a step relation in
  which the messages, the decrements and the emissions of concurrent handlers interleave.
\<close>

section \<open>Block processor\<close>

text \<open>
  The outcomes of one call: the DataHub, the functions of go-bt and Teranode it uses, the counter
  store (\<open>None\<close> for a nil store), the outcome of encoding and publishing the \<open>i\<close>-th work message, and
  the effect of announcing a height to the subtree store.
\<close>

record ('c, 'b, 'e) blockDeps =
  bdNet :: net
  bdClient :: Client
  bdHashString :: "bytes \<Rightarrow> string"
  bdNewBlock :: "bytes \<Rightarrow> string + modelBlock"
  bdInit :: "(string \<Rightarrow> int \<Rightarrow> 'c \<Rightarrow> ('e + unit) \<times> 'c) option"
  bdPublish :: "nat \<Rightarrow> string option"
  bdSetHeight :: "u64 \<Rightarrow> 'b \<Rightarrow> 'b"

record ('c, 'b) Processor =
  bpDedup :: "DedupCache option"
  bpCounter :: 'c
  bpSubtrees :: 'b
  workTopic :: "SubtreeWorkMessage topic"

datatype 'e processorErr =
    EDecodeBlock string
  | EBlockMetadata string dhError
  | EInitCounter string 'e

definition workMessage :: "BlockMessage \<Rightarrow> BlockMetadata \<Rightarrow> nat \<Rightarrow> string \<Rightarrow> SubtreeWorkMessage" where
  "workMessage blockMsg meta i stHash = \<lparr>wm_BlockHash = bm_Hash blockMsg, wm_BlockHeight = Height meta,
     wm_SubtreeHash = stHash, wm_SubtreeIndex = int i, wm_DataHubURL = bm_DataHubURL blockMsg\<rparr>"

text \<open>The loop over the subtree hashes; a message that cannot be published is logged and skipped.\<close>

primrec publishWork ::
    "(string \<Rightarrow> 256 word) \<Rightarrow> (nat \<Rightarrow> string option) \<Rightarrow> BlockMessage \<Rightarrow> BlockMetadata \<Rightarrow> nat \<Rightarrow> string list
     \<Rightarrow> SubtreeWorkMessage topic \<Rightarrow> SubtreeWorkMessage topic" where
  "publishWork sha256 errs blockMsg meta i [] t = t"
| "publishWork sha256 errs blockMsg meta i (stHash # rest) t =
     publishWork sha256 errs blockMsg meta (Suc i) rest
       (snd (PublishWithHashKey sha256 (errs i) stHash (workMessage blockMsg meta i stHash) t))"

definition handleBlock ::
    "(string \<Rightarrow> 256 word) \<Rightarrow> ('c, 'b, 'e) blockDeps \<Rightarrow> string + BlockMessage \<Rightarrow> ('c, 'b) Processor
     \<Rightarrow> 'e processorErr option \<times> ('c, 'b) Processor" where
  "handleBlock sha256 d decoded p = (case decoded of
      Inl err \<Rightarrow> (Some (EDecodeBlock err), p)
    | Inr blockMsg \<Rightarrow>
        if (case bpDedup p of None \<Rightarrow> False | Some c \<Rightarrow> Contains (bm_Hash blockMsg) c) then (None, p)
        else (case snd (FetchBlockMetadata (bdNet d) (bdHashString d) (bdNewBlock d) (bdClient d)
                          (bm_DataHubURL blockMsg) (bm_Hash blockMsg)) of
            Inl err \<Rightarrow> (Some (EBlockMetadata (bm_Hash blockMsg) err), p)
          | Inr meta \<Rightarrow>
              if Subtrees meta = [] then (None, p)
              else (case (case bdInit d of None \<Rightarrow> (Inr (), bpCounter p)
                           | Some init \<Rightarrow> init (bm_Hash blockMsg) (int (length (Subtrees meta))) (bpCounter p)) of
                  (Inl err, c) \<Rightarrow> (Some (EInitCounter (bm_Hash blockMsg) err), p\<lparr>bpCounter := c\<rparr>)
                | (Inr _, c) \<Rightarrow>
                    (None, p\<lparr>bpCounter := c,
                             workTopic := publishWork sha256 (bdPublish d) blockMsg meta 0 (Subtrees meta) (workTopic p),
                             bpSubtrees := bdSetHeight d (ucast (Height meta)) (bpSubtrees p),
                             bpDedup := map_option (\<lambda>c. snd (Add (bm_Hash blockMsg) c)) (bpDedup p)\<rparr>))))"

section \<open>Subtree worker\<close>

text \<open>
  The stores and outcomes of one call: \<open>wdPut\<close> is \<open>stumpStore.Put\<close> and \<open>wdDecrement\<close> the counter, \<open>None\<close>
  for a nil store; \<open>wdGetAll\<close> is \<open>urlRegistry.GetAll\<close>; \<open>wdUrls\<close> lists the keys of the map of callback
  groups in the order of the loop; \<open>wdPublish k i\<close> is the outcome of publishing the \<open>i\<close>-th message of
  the loop over STUMPs (0) or BLOCK_PROCESSED (1).
\<close>

record ('b, 'r, 'e, 'p, 'c) workerDeps =
  wdSubtree :: "('b, 'r, 'e) subtreeDeps"
  wdTTL :: int
  wdPut :: "(bytes \<Rightarrow> u64 \<Rightarrow> 'p \<Rightarrow> (stumpErr + string) \<times> 'p) option"
  wdDecrement :: "(string \<Rightarrow> 'c \<Rightarrow> ('e + int) \<times> 'c) option"
  wdGetAll :: "('e + string list) option"
  wdUrls :: "(string \<rightharpoonup> string list) \<Rightarrow> string list"
  wdPublish :: "nat \<Rightarrow> nat \<Rightarrow> string option"

record ('b, 'r, 'p, 'c) SubtreeWorker =
  swSubtrees :: 'b
  swRegs :: 'r
  swStumps :: 'p
  swCounter :: 'c
  callbackTopic :: "CallbackTopicMessage topic"

definition stumpMessages :: "SubtreeWorkMessage \<Rightarrow> string \<Rightarrow> string list \<Rightarrow> CallbackTopicMessage list" where
  "stumpMessages workMsg stumpRef urls = map (\<lambda>callbackURL. (emptyCallback callbackURL CallbackStump)
     \<lparr>BlockHash := wm_BlockHash workMsg, msgSubtreeIndex := wm_SubtreeIndex workMsg, StumpRef := stumpRef\<rparr>) urls"

definition bpMessages :: "string \<Rightarrow> string list \<Rightarrow> CallbackTopicMessage list" where
  "bpMessages blockHash urls =
     map (\<lambda>callbackURL. (emptyCallback callbackURL CallbackBlockProcessed)\<lparr>BlockHash := blockHash\<rparr>) urls"

text \<open>The messages \<open>publishSubtreeCallbacks\<close> goes on to publish, after it stored the STUMP.\<close>

definition storeStump ::
    "('b, 'r, 'e, 'p, 'c) workerDeps \<Rightarrow> SubtreeWorkMessage \<Rightarrow> SubtreeResult \<Rightarrow> 'p \<Rightarrow> CallbackTopicMessage list \<times> 'p" where
  "storeStump d workMsg result stumps = (case wdPut d of
      None \<Rightarrow> ([], stumps)
    | Some put \<Rightarrow> (case put (StumpData result) (ucast (wm_BlockHeight workMsg)) stumps of
        (Inl err, stumps) \<Rightarrow> ([], stumps)
      | (Inr stumpRef, stumps) \<Rightarrow> (stumpMessages workMsg stumpRef (wdUrls d (CallbackGroups result)), stumps)))"

definition publishSubtreeCallbacks ::
    "(string \<Rightarrow> 256 word) \<Rightarrow> ('b, 'r, 'e, 'p, 'c) workerDeps \<Rightarrow> SubtreeWorkMessage \<Rightarrow> SubtreeResult
     \<Rightarrow> ('b, 'r, 'p, 'c) SubtreeWorker \<Rightarrow> ('b, 'r, 'p, 'c) SubtreeWorker" where
  "publishSubtreeCallbacks sha256 d workMsg result w =
     (let (ms, stumps) = storeStump d workMsg result (swStumps w)
      in w\<lparr>swStumps := stumps, callbackTopic := publishAll sha256 (wdPublish d 0) 0 ms (callbackTopic w)\<rparr>)"

definition emitBlockProcessed ::
    "(string \<Rightarrow> 256 word) \<Rightarrow> ('b, 'r, 'e, 'p, 'c) workerDeps \<Rightarrow> string
     \<Rightarrow> ('b, 'r, 'p, 'c) SubtreeWorker \<Rightarrow> ('b, 'r, 'p, 'c) SubtreeWorker" where
  "emitBlockProcessed sha256 d blockHash w = (case wdGetAll d of
      Some (Inr urls) \<Rightarrow>
        w\<lparr>callbackTopic := publishAll sha256 (wdPublish d 1) 0 (bpMessages blockHash urls) (callbackTopic w)\<rparr>
    | _ \<Rightarrow> w)"

text \<open>The handler; once a message is decoded it reports no error, so that the counter always moves on.\<close>

definition handleWork ::
    "(string \<Rightarrow> 256 word) \<Rightarrow> ('b, 'r, 'e, 'p, 'c) workerDeps \<Rightarrow> string + SubtreeWorkMessage
     \<Rightarrow> ('b, 'r, 'p, 'c) SubtreeWorker \<Rightarrow> string option \<times> ('b, 'r, 'p, 'c) SubtreeWorker" where
  "handleWork sha256 d decoded w = (case decoded of
      Inl err \<Rightarrow> (Some err, w)
    | Inr workMsg \<Rightarrow>
        (let (result, b, r) = ProcessBlockSubtree (wdSubtree d) (wm_SubtreeHash workMsg) (ucast (wm_BlockHeight workMsg))
                                (wm_DataHubURL workMsg) (wdTTL d) (swSubtrees w) (swRegs w);
             w = w\<lparr>swSubtrees := b, swRegs := r\<rparr>;
             w = (case result of
                    Inr (Some res) \<Rightarrow>
                      if wdUrls d (CallbackGroups res) \<noteq> [] then publishSubtreeCallbacks sha256 d workMsg res w else w
                  | _ \<Rightarrow> w)
         in (None, case wdDecrement d of
                None \<Rightarrow> w
              | Some decrement \<Rightarrow>
                  (case decrement (wm_BlockHash workMsg) (swCounter w) of
                     (Inl err, c) \<Rightarrow> w\<lparr>swCounter := c\<rparr>
                   | (Inr remaining, c) \<Rightarrow>
                       if remaining = 0 then emitBlockProcessed sha256 d (wm_BlockHash workMsg) (w\<lparr>swCounter := c\<rparr>)
                       else w\<lparr>swCounter := c\<rparr>))))"

section \<open>Dispatch of a block\<close>

text \<open>The work messages that were published, in order.\<close>

definition workList ::
    "(string \<Rightarrow> 256 word) \<Rightarrow> (nat \<Rightarrow> string option) \<Rightarrow> BlockMessage \<Rightarrow> BlockMetadata \<Rightarrow> nat \<Rightarrow> string list
     \<Rightarrow> SubtreeWorkMessage topic" where
  "workList sha errs bm meta i sts = map (\<lambda>(j, st). (HashPartitionKey sha st, workMessage bm meta j st))
     (filter (\<lambda>(j, _). errs j = None) (enumerate i sts))"

lemma publishWork_topic: "publishWork sha errs bm meta i sts t = t @ workList sha errs bm meta i sts"
  by (induction sts arbitrary: i t) (auto simp: workList_def PublishWithHashKey_def Publish_def split: option.splits)

lemma workList_block: "(k, wm) \<in> set (workList sha errs bm meta i sts) \<Longrightarrow> wm_BlockHash wm = bm_Hash bm"
  by (auto simp: workList_def workMessage_def)

lemma length_workList: "length (workList sha errs bm meta i sts) \<le> length sts"
  using length_filter_le [of "\<lambda>(j, _). errs j = None" "enumerate i sts"] by (simp add: workList_def)

lemma workList_complete:
  "\<forall>j < length sts. errs (i + j) = None \<Longrightarrow> map snd (workList sha errs bm meta i sts) = map (\<lambda>(j, st). workMessage bm meta j st) (enumerate i sts)"
  by (induction sts arbitrary: i) (force simp: workList_def comp_def split_def)+

text \<open>
  C21: Dispatch of a block with the SQL counter, on every path. A known block, and one whose metadata has no
  subtrees, is acknowledged and nothing changes. If the metadata cannot be fetched or the counter cannot be set, the
  call fails, publishes nothing and does not mark the block, so that a redelivery tries again (a counter
  whose commit was not confirmed may have been set). In all other cases the call succeeds: it has set the
  counter of the block to the number of its subtrees, left all other counters alone, appended one
  message per subtree to the work topic in order, up to those the broker refused, announced the height to the
  subtree store, and marked the block: handling it again, whatever the outside does then, changes nothing.
\<close>

theorem block_dispatch:
  assumes "bdInit d = Some (counterInit now ttl flt)" and "bpDedup p = Some c" and "dedup_invar c"
  shows "if Contains (bm_Hash bm) c then handleBlock sha d (Inr bm) p = (None, p)
    else (case snd (FetchBlockMetadata (bdNet d) (bdHashString d) (bdNewBlock d) (bdClient d) (bm_DataHubURL bm) (bm_Hash bm)) of
      Inl e \<Rightarrow> handleBlock sha d (Inr bm) p = (Some (EBlockMetadata (bm_Hash bm) e), p)
    | Inr meta \<Rightarrow>
        if Subtrees meta = [] then handleBlock sha d (Inr bm) p = (None, p)
        else case handleBlock sha d (Inr bm) p of
            (Some err, p') \<Rightarrow> (\<exists>e. flt = Some e \<and> err = EInitCounter (bm_Hash bm) (SqlErr (case e of RolledBack m \<Rightarrow> m | CommitUnknown m \<Rightarrow> m)))
              \<and> p' = p\<lparr>bpCounter := bpCounter p'\<rparr>
              \<and> remainingIn (bpCounter p') \<in> {remainingIn (bpCounter p), (remainingIn (bpCounter p))(bm_Hash bm \<mapsto> int (length (Subtrees meta)))}
          | (None, p') \<Rightarrow> flt = None
              \<and> remainingIn (bpCounter p') = (remainingIn (bpCounter p))(bm_Hash bm \<mapsto> int (length (Subtrees meta)))
              \<and> workTopic p' = workTopic p @ workList sha (bdPublish d) bm meta 0 (Subtrees meta)
              \<and> bpSubtrees p' = bdSetHeight d (ucast (Height meta)) (bpSubtrees p)
              \<and> (\<forall>d'. handleBlock sha d' (Inr bm) p' = (None, p')))"
proof -
  let ?f = "snd (FetchBlockMetadata (bdNet d) (bdHashString d) (bdNewBlock d) (bdClient d) (bm_DataHubURL bm) (bm_Hash bm))"
  consider (known) "Contains (bm_Hash bm) c" | (err) e where "\<not> Contains (bm_Hash bm) c" "?f = Inl e"
    | (empty) m where "\<not> Contains (bm_Hash bm) c" "?f = Inr m" "Subtrees m = []"
    | (go) m where "\<not> Contains (bm_Hash bm) c" "?f = Inr m" "Subtrees m \<noteq> []"
    by (cases ?f) auto
  then show ?thesis
  proof cases
    case (go m)
    obtain r c' where ci: "counterInit now ttl flt (bm_Hash bm) (int (length (Subtrees m))) (bpCounter p) = (r, c')" by fastforce
    show ?thesis
    proof (cases flt)
      case (Some e)
      then have "r = Inl (SqlErr (case e of RolledBack m \<Rightarrow> m | CommitUnknown m \<Rightarrow> m))"
        using ci by (auto simp: counterInit_def sqlTx_def split: sqlFault.splits)
      moreover have "remainingIn c' \<in> {remainingIn (bpCounter p), (remainingIn (bpCounter p))(bm_Hash bm \<mapsto> int (length (Subtrees m)))}"
        using ci Some by (cases e) (auto simp: counterInit_def sqlTx_def remainingIn_def update_conv' fun_eq_iff)
      ultimately show ?thesis using go ci Some by (simp add: handleBlock_def assms(1,2))
    next
      case None
      then have r: "r = Inr ()" using ci by (simp add: counterInit_def sqlTx_def)
      have "remainingIn c' = (remainingIn (bpCounter p))(bm_Hash bm \<mapsto> int (length (Subtrees m)))"
        using sqlCounter.init [of now ttl flt "bm_Hash bm" _ "bpCounter p" c'] ci r by simp
      moreover have "Contains (bm_Hash bm) (snd (Add (bm_Hash bm) c))" by (rule dedup.contains_add [OF assms(3)])
      ultimately show ?thesis
        using go ci r None by (simp add: handleBlock_def assms(1,2) publishWork_topic)
    qed
  qed (simp_all add: handleBlock_def assms(1,2))
qed


section \<open>Concurrent workers\<close>

text \<open>
  A handler of a work message between its effects on what is shared: it has the STUMP messages of
  its subtree still to publish, then decrements the counter, then has BLOCK_PROCESSED messages to
  publish. The stores it reads (subtrees, registrations, STUMPs, URLs) are whatever the other
  processes have made of them.
\<close>

datatype job =
    Queued SubtreeWorkMessage
  | Publishing SubtreeWorkMessage "CallbackTopicMessage list"
  | Emitting "CallbackTopicMessage list"
  | Finished

text \<open>\<open>emitted\<close> records the blocks for which \<open>emitBlockProcessed\<close> was called.\<close>

record 'c flow =
  jobs :: "job list"
  callbacks :: "CallbackTopicMessage topic"
  counters :: 'c
  emitted :: "string list"

type_synonym deps = "(MemoryBlobStore blobSubtreeStore, db, sqlErr, MemoryBlobStore blobStumpStore, db) workerDeps"

definition preparedMessages ::
    "('b, 'r, 'e, 'p, 'c) workerDeps \<Rightarrow> SubtreeWorkMessage \<Rightarrow> 'b \<Rightarrow> 'r \<Rightarrow> 'p \<Rightarrow> CallbackTopicMessage list" where
  "preparedMessages d workMsg b r stumps =
     (case fst (ProcessBlockSubtree (wdSubtree d) (wm_SubtreeHash workMsg) (ucast (wm_BlockHeight workMsg))
                  (wm_DataHubURL workMsg) (wdTTL d) b r) of
        Inr (Some res) \<Rightarrow> if wdUrls d (CallbackGroups res) \<noteq> [] then fst (storeStump d workMsg res stumps) else []
      | _ \<Rightarrow> [])"

definition emission :: "('b, 'r, 'e, 'p, 'c) workerDeps \<Rightarrow> string \<Rightarrow> CallbackTopicMessage list" where
  "emission d blockHash = (case wdGetAll d of Some (Inr urls) \<Rightarrow> bpMessages blockHash urls | _ \<Rightarrow> [])"

text \<open>
  \<open>decrement f\<close> is the decrement of the counter with outcome \<open>f\<close>. A job that ends early (a crash) is
  a job that takes no more steps.
\<close>

inductive fstep ::
    "('f \<Rightarrow> string \<Rightarrow> 'c \<Rightarrow> ('e + int) \<times> 'c) \<Rightarrow> (string \<Rightarrow> 256 word) \<Rightarrow> 'c flow \<Rightarrow> 'c flow \<Rightarrow> bool"
  for decrement sha where
  prepare: "i < length (jobs s) \<Longrightarrow> jobs s ! i = Queued wm \<Longrightarrow> ms = preparedMessages (d :: deps) wm b r st \<Longrightarrow>
     fstep decrement sha s (s\<lparr>jobs := (jobs s)[i := Publishing wm ms]\<rparr>)"
| publish: "i < length (jobs s) \<Longrightarrow> jobs s ! i = Publishing wm (m # ms) \<Longrightarrow>
     fstep decrement sha s (s\<lparr>jobs := (jobs s)[i := Publishing wm ms],
       callbacks := snd (PublishWithHashKey sha err (CallbackURL m) m (callbacks s))\<rparr>)"
| failed: "i < length (jobs s) \<Longrightarrow> jobs s ! i = Publishing wm [] \<Longrightarrow>
     decrement f (wm_BlockHash wm) (counters s) = (Inl e, c) \<Longrightarrow>
     fstep decrement sha s (s\<lparr>jobs := (jobs s)[i := Finished], counters := c\<rparr>)"
| counted: "i < length (jobs s) \<Longrightarrow> jobs s ! i = Publishing wm [] \<Longrightarrow>
     decrement f (wm_BlockHash wm) (counters s) = (Inr n, c) \<Longrightarrow> n \<noteq> 0 \<Longrightarrow>
     fstep decrement sha s (s\<lparr>jobs := (jobs s)[i := Finished], counters := c\<rparr>)"
| last: "i < length (jobs s) \<Longrightarrow> jobs s ! i = Publishing wm [] \<Longrightarrow>
     decrement f (wm_BlockHash wm) (counters s) = (Inr 0, c) \<Longrightarrow>
     fstep decrement sha s (s\<lparr>jobs := (jobs s)[i := Emitting (emission (d :: deps) (wm_BlockHash wm))], counters := c,
       emitted := emitted s @ [wm_BlockHash wm]\<rparr>)"
| emit: "i < length (jobs s) \<Longrightarrow> jobs s ! i = Emitting (m # ms) \<Longrightarrow>
     fstep decrement sha s (s\<lparr>jobs := (jobs s)[i := Emitting ms],
       callbacks := snd (PublishWithHashKey sha err (CallbackURL m) m (callbacks s))\<rparr>)"

inductive freach ::
    "('f \<Rightarrow> string \<Rightarrow> 'c \<Rightarrow> ('e + int) \<times> 'c) \<Rightarrow> (string \<Rightarrow> 256 word) \<Rightarrow> 'c flow \<Rightarrow> 'c flow \<Rightarrow> bool"
  for decrement sha s0 where
  freach0: "freach decrement sha s0 s0"
| freachS: "freach decrement sha s0 s \<Longrightarrow> fstep decrement sha s t \<Longrightarrow> freach decrement sha s0 t"

definition flowInit :: "SubtreeWorkMessage list \<Rightarrow> 'c \<Rightarrow> 'c flow" where
  "flowInit wms c = \<lparr>jobs = map Queued wms, callbacks = [], counters = c, emitted = []\<rparr>"

text \<open>The handlers of a block that have not decremented its counter.\<close>

definition uncountedJob :: "string \<Rightarrow> job \<Rightarrow> nat" where
  "uncountedJob h j = (case j of Queued wm \<Rightarrow> (if wm_BlockHash wm = h then 1 else 0)
     | Publishing wm _ \<Rightarrow> (if wm_BlockHash wm = h then 1 else 0) | _ \<Rightarrow> 0)"

definition uncounted :: "string \<Rightarrow> job list \<Rightarrow> nat" where
  "uncounted h js = sum_list (map (uncountedJob h) js)"

text \<open>The messages a job has in hand are its own: STUMPs of its block, or BLOCK_PROCESSED of an emitted block.\<close>

definition freshMsg :: "CallbackType \<Rightarrow> CallbackTopicMessage \<Rightarrow> bool" where
  "freshMsg t m \<longleftrightarrow> Type m = t \<and> RetryCount m = 0 \<and> NextRetryAt m = None"

definition jobOk :: "string list \<Rightarrow> job \<Rightarrow> bool" where
  "jobOk em j = (case j of
      Publishing wm ms \<Rightarrow> (\<forall>m \<in> set ms. freshMsg CallbackStump m \<and> BlockHash m = wm_BlockHash wm)
    | Emitting ms \<Rightarrow> (\<forall>m \<in> set ms. freshMsg CallbackBlockProcessed m \<and> BlockHash m \<in> set em)
    | _ \<Rightarrow> True)"

definition msgOk :: "string set \<Rightarrow> string list \<Rightarrow> CallbackTopicMessage \<Rightarrow> bool" where
  "msgOk H em m \<longleftrightarrow> BlockHash m \<in> H \<and> (freshMsg CallbackStump m \<or> freshMsg CallbackBlockProcessed m \<and> BlockHash m \<in> set em)"

lemma uncounted_update:
  "i < length js \<Longrightarrow> uncounted h (js[i := j]) + uncountedJob h (js ! i) = uncounted h js + uncountedJob h j"
  unfolding uncounted_def by (induction js arbitrary: i) (auto split: nat.splits)

lemma stumpMessages_fresh:
  "m \<in> set (stumpMessages wm ref urls) \<Longrightarrow> freshMsg CallbackStump m \<and> BlockHash m = wm_BlockHash wm"
  by (auto simp: stumpMessages_def freshMsg_def emptyCallback_def)

lemma storeStump_messages: "\<exists>ref urls. fst (storeStump d wm res st) = stumpMessages wm ref urls"
proof -
  have "[] = stumpMessages wm ref []" for ref by (simp add: stumpMessages_def)
  then show ?thesis
    by (cases "wdPut d"; cases "the (wdPut d) (StumpData res) (ucast (wm_BlockHeight wm)) st"; cases "fst (the (wdPut d) (StumpData res) (ucast (wm_BlockHeight wm)) st)")
      (simp_all add: storeStump_def, blast+)
qed

lemma preparedMessages_fresh:
  assumes "m \<in> set (preparedMessages d wm b r st)"
  shows "freshMsg CallbackStump m \<and> BlockHash m = wm_BlockHash wm"
proof -
  obtain res where "m \<in> set (fst (storeStump d wm res st))"
    using assms by (auto simp: preparedMessages_def split: sum.splits option.splits if_splits)
  then show ?thesis using storeStump_messages [of d wm res st] stumpMessages_fresh by metis
qed

lemma emission_fresh:
  "m \<in> set (emission d h) \<Longrightarrow> freshMsg CallbackBlockProcessed m \<and> BlockHash m = h"
  by (auto simp: emission_def bpMessages_def freshMsg_def emptyCallback_def split: sum.splits option.splits)


lemma gateKey_block:
  assumes "gateKey m = gateKey m'" and "CHR ''|'' \<notin> set (BlockHash m)" and "CHR ''|'' \<notin> set (BlockHash m')"
  shows "BlockHash m = BlockHash m'"
proof -
  have tw: "takeWhile (\<lambda>c. c \<noteq> CHR ''|'') (h @ CHR ''|'' # u) = h" if "CHR ''|'' \<notin> set h" for h u :: string
    using that by (simp add: takeWhile_append)
  have "BlockHash m @ CHR ''|'' # CallbackURL m = BlockHash m' @ CHR ''|'' # CallbackURL m'"
    using assms(1) by (simp add: gateKey_def stumpGateKey_def)
  then show ?thesis using tw [OF assms(2), of "CallbackURL m"] tw [OF assms(3), of "CallbackURL m'"] by metis
qed

lemma fresh_types:
  "freshMsg CallbackStump m \<Longrightarrow> \<not> isBP m" "freshMsg CallbackBlockProcessed m \<Longrightarrow> isBP m"
  by (simp_all add: freshMsg_def isBP_def callback_types)

definition topicOk :: "(string \<Rightarrow> 256 word) \<Rightarrow> string set \<Rightarrow> string list \<Rightarrow> CallbackTopicMessage topic \<Rightarrow> bool" where
  "topicOk sha H em t \<longleftrightarrow> ordered (map snd t) \<and> (\<forall>(k, m) \<in> set t. msgOk H em m \<and> k = HashPartitionKey sha (CallbackURL m))"

lemma topicOk_stump:
  assumes "topicOk sha H em t" and "freshMsg CallbackStump m" and "BlockHash m \<in> H" and "BlockHash m \<notin> set em"
    and "\<forall>h \<in> H. CHR ''|'' \<notin> set h"
  shows "topicOk sha H em (t @ [(HashPartitionKey sha (CallbackURL m), m)])"
proof -
  have "noStump x [m]" if x: "x \<in> snd ` set t" for x
  proof (cases "isBP x")
    case True
    then have "BlockHash x \<in> H" "BlockHash x \<in> set em" using assms(1) x fresh_types by (auto simp: topicOk_def msgOk_def)
    then have "gateKey m \<noteq> gateKey x" using gateKey_block [of m x] assms(3-5) by metis
    then show ?thesis by (simp add: stumpOf_def)
  qed simp
  then show ?thesis using assms(1-3) by (auto simp: topicOk_def msgOk_def)
qed

lemma topicOk_bp:
  assumes "topicOk sha H em t" and "freshMsg CallbackBlockProcessed m" and "BlockHash m \<in> H" and "BlockHash m \<in> set em"
  shows "topicOk sha H em (t @ [(HashPartitionKey sha (CallbackURL m), m)])"
  using assms fresh_types(2) [OF assms(2)] by (auto simp: topicOk_def msgOk_def)

lemma topicOk_publish:
  assumes "topicOk sha H em t" and "topicOk sha H em (t @ [(HashPartitionKey sha (CallbackURL m), m)])"
  shows "topicOk sha H em (snd (PublishWithHashKey sha err (CallbackURL m) m t))"
  using assms by (simp add: PublishWithHashKey_def Publish_def split: option.split)

section \<open>Order of the callback topic\<close>

text \<open>
  A counter whose decrements may fail: a failure may or may not have decremented (a commit whose
  acknowledgement is lost), and an answer is the new value.
\<close>

locale flaky_counter =
  fixes decrement :: "'f \<Rightarrow> string \<Rightarrow> 'c \<Rightarrow> ('e + int) \<times> 'c"
    and remaining :: "'c \<Rightarrow> string \<Rightarrow> int option"
  assumes others: "h' \<noteq> h \<Longrightarrow> remaining (snd (decrement f h c)) h' = remaining c h'"
    and answer: "fst (decrement f h c) = Inr k \<Longrightarrow> remaining c h = Some (k + 1) \<and> remaining (snd (decrement f h c)) h = Some k"
    and failure: "fst (decrement f h c) = Inl e \<Longrightarrow>
        remaining (snd (decrement f h c)) h = remaining c h \<or>
        (\<exists>n. remaining c h = Some n \<and> remaining (snd (decrement f h c)) h = Some (n - 1))"
begin

definition flowInv :: "(string \<Rightarrow> 256 word) \<Rightarrow> string set \<Rightarrow> 'c flow \<Rightarrow> bool" where
  "flowInv sha H s \<longleftrightarrow> (\<forall>h n. remaining (counters s) h = Some n \<longrightarrow> int (uncounted h (jobs s)) \<le> n)
     \<and> (\<forall>j \<in> set (jobs s). jobOk (emitted s) j) \<and> (\<forall>h. 0 < uncounted h (jobs s) \<longrightarrow> h \<in> H)
     \<and> set (emitted s) \<subseteq> H \<and> (\<forall>h \<in> set (emitted s). uncounted h (jobs s) = 0) \<and> distinct (emitted s)
     \<and> topicOk sha H (emitted s) (callbacks s)"

lemma remaining_step:
  assumes "decrement f h c = (r, c')" and "\<forall>h n. remaining c h = Some n \<longrightarrow> int (uncounted h js) \<le> n"
    and "\<And>h'. uncounted h' js = uncounted h' js' + (if h' = h then 1 else 0)"
  shows "\<forall>h n. remaining c' h = Some n \<longrightarrow> int (uncounted h js') \<le> n"
proof (intro allI impI)
  fix h' n
  assume n: "remaining c' h' = Some n"
  show "int (uncounted h' js') \<le> n"
  proof (cases "h' = h")
    case False
    then show ?thesis using others [OF False, of f c] assms n by (auto dest!: spec [of _ h'])
  next
    case True
    have "remaining c h = Some n \<or> remaining c h = Some (n + 1)"
      using answer [of f h c] failure [of f h c] n assms(1) True by (cases r) auto
    then show ?thesis using assms(2) [rule_format, of h n] assms(2) [rule_format, of h "n + 1"] assms(3) [of h] True by auto
  qed
qed


lemma flowInv_worker:
  assumes "flowInv sha H s" and "\<And>h. uncounted h js = uncounted h (jobs s)" and "\<And>j. j \<in> set js \<Longrightarrow> j \<in> set (jobs s) \<or> jobOk (emitted s) j"
    and "topicOk sha H (emitted s) t"
  shows "flowInv sha H (s\<lparr>jobs := js, callbacks := t\<rparr>)"
proof -
  have "\<forall>j \<in> set js. jobOk (emitted s) j" using assms(1,3) by (auto simp: flowInv_def)
  then show ?thesis using assms(1,4) by (simp add: flowInv_def assms(2))
qed

lemma flowInv_counted:
  assumes "flowInv sha H s" and "i < length (jobs s)" and "jobs s ! i = Publishing wm []"
    and "decrement f (wm_BlockHash wm) (counters s) = (r, c)"
  shows "flowInv sha H (s\<lparr>jobs := (jobs s)[i := Finished], counters := c\<rparr>)"
proof -
  have u: "uncounted h (jobs s) = uncounted h ((jobs s)[i := Finished]) + (if h = wm_BlockHash wm then 1 else 0)" for h
    using uncounted_update [OF assms(2), of h Finished] assms(3) by (auto simp: uncountedJob_def split: if_splits)
  have "\<forall>h n. remaining c h = Some n \<longrightarrow> int (uncounted h ((jobs s)[i := Finished])) \<le> n"
    by (rule remaining_step [OF assms(4) _ u]) (use assms(1) in \<open>simp add: flowInv_def\<close>)
  moreover have le: "uncounted h ((jobs s)[i := Finished]) \<le> uncounted h (jobs s)" for h using u [of h] by simp
  moreover have "uncounted h ((jobs s)[i := Finished]) = 0" if "h \<in> set (emitted s)" for h using assms(1) le [of h] that by (simp add: flowInv_def)
  moreover have "h \<in> H" if "0 < uncounted h ((jobs s)[i := Finished])" for h using assms(1) le [of h] that unfolding flowInv_def by (meson less_le_trans)
  moreover have "\<forall>j \<in> set ((jobs s)[i := Finished]). jobOk (emitted s) j"
    using assms(1) set_update_subset_insert [of "jobs s" i Finished] by (auto simp: flowInv_def jobOk_def)
  ultimately show ?thesis using assms(1) unfolding flowInv_def by auto
qed

lemma flowInv_last:
  assumes "flowInv sha H s" and "i < length (jobs s)" and "jobs s ! i = Publishing wm []"
    and "decrement f (wm_BlockHash wm) (counters s) = (Inr 0, c)"
    and "\<And>m. m \<in> set ms \<Longrightarrow> freshMsg CallbackBlockProcessed m \<and> BlockHash m = wm_BlockHash wm"
  shows "flowInv sha H (s\<lparr>jobs := (jobs s)[i := Emitting ms], counters := c, emitted := emitted s @ [wm_BlockHash wm]\<rparr>)"
proof -
  let ?h = "wm_BlockHash wm" and ?js = "(jobs s)[i := Emitting ms]"
  have u: "uncounted h (jobs s) = uncounted h ?js + (if h = ?h then 1 else 0)" for h
    using uncounted_update [OF assms(2), of h "Emitting ms"] assms(3) by (auto simp: uncountedJob_def split: if_splits)
  have rem: "\<forall>h n. remaining c h = Some n \<longrightarrow> int (uncounted h ?js) \<le> n"
    by (rule remaining_step [OF assms(4) _ u]) (use assms(1) in \<open>simp add: flowInv_def\<close>)
  have z: "uncounted ?h ?js = 0" using answer [of f ?h "counters s" 0] rem [rule_format, of ?h 0] assms(4) by simp
  have new: "?h \<in> H" "?h \<notin> set (emitted s)" using assms(1) u [of ?h] by (auto simp: flowInv_def)
  have le: "uncounted h ?js \<le> uncounted h (jobs s)" for h using u [of h] by simp
  have js: "jobOk (emitted s @ [?h]) j" if "j \<in> set ?js" for j
  proof (cases "j = Emitting ms")
    case True
    then show ?thesis using assms(5) by (auto simp: jobOk_def)
  next
    case False
    then have "jobOk (emitted s) j" using that assms(1) set_update_subset_insert [of "jobs s" i "Emitting ms"] by (auto simp: flowInv_def)
    then show ?thesis by (cases j) (auto simp: jobOk_def)
  qed
  have "topicOk sha H (emitted s @ [?h]) (callbacks s)"
    using assms(1) by (auto simp: flowInv_def topicOk_def msgOk_def)
  moreover have "uncounted h ?js = 0" if "h \<in> set (emitted s)" for h using assms(1) le [of h] that by (simp add: flowInv_def)
  moreover have "h \<in> H" if "0 < uncounted h ?js" for h using assms(1) le [of h] that unfolding flowInv_def by (meson less_le_trans)
  ultimately show ?thesis using assms(1) rem js z new unfolding flowInv_def by auto
qed

lemma flowInv_step:
  assumes "fstep decrement sha s t" and "flowInv sha H s" and "\<forall>h \<in> H. CHR ''|'' \<notin> set h"
  shows "flowInv sha H t"
  using assms(1)
proof (cases rule: fstep.cases)
  case (prepare i wm ms d b r st)
  have ok: "jobOk (emitted s) (Publishing wm ms)" using preparedMessages_fresh [of _ d wm b r st] prepare(4) by (auto simp: jobOk_def)
  have "flowInv sha H (s\<lparr>jobs := (jobs s)[i := Publishing wm ms], callbacks := callbacks s\<rparr>)"
  proof (rule flowInv_worker [OF assms(2)])
    show "uncounted h ((jobs s)[i := Publishing wm ms]) = uncounted h (jobs s)" for h
      using uncounted_update [OF prepare(2), of h "Publishing wm ms"] prepare(3) by (simp add: uncountedJob_def)
  qed (use ok set_update_subset_insert [of "jobs s" i "Publishing wm ms"] assms(2) in \<open>auto simp: flowInv_def\<close>)
  then show ?thesis by (simp add: prepare(1))
next
  case (publish i wm m ms err)
  have j: "jobOk (emitted s) (Publishing wm (m # ms))" using assms(2) nth_mem [OF publish(2)] publish(3) by (auto simp: flowInv_def)
  have "0 < uncounted (wm_BlockHash wm) (jobs s)"
    using uncounted_update [OF publish(2), of "wm_BlockHash wm" Finished] publish(3) by (simp add: uncountedJob_def)
  then have "BlockHash m \<in> H" "BlockHash m \<notin> set (emitted s)" using assms(2) j by (auto simp: flowInv_def jobOk_def)
  then have top: "topicOk sha H (emitted s) (snd (PublishWithHashKey sha err (CallbackURL m) m (callbacks s)))"
    using topicOk_publish topicOk_stump assms(2,3) j by (auto simp: flowInv_def jobOk_def)
  show ?thesis unfolding publish(1)
  proof (rule flowInv_worker [OF assms(2)])
    show "uncounted h ((jobs s)[i := Publishing wm ms]) = uncounted h (jobs s)" for h
      using uncounted_update [OF publish(2), of h "Publishing wm ms"] publish(3) by (simp add: uncountedJob_def)
    show "j \<in> set (jobs s) \<or> jobOk (emitted s) j" if "j \<in> set ((jobs s)[i := Publishing wm ms])" for j
      using that set_update_subset_insert [of "jobs s" i "Publishing wm ms"] \<open>jobOk (emitted s) (Publishing wm (m # ms))\<close>
      by (auto simp: jobOk_def)
  qed (rule top)
next
  case (emit i m ms err)
  have j: "jobOk (emitted s) (Emitting (m # ms))" using assms(2) nth_mem [OF emit(2)] emit(3) by (auto simp: flowInv_def)
  then have top: "topicOk sha H (emitted s) (snd (PublishWithHashKey sha err (CallbackURL m) m (callbacks s)))"
    using topicOk_publish topicOk_bp assms(2,3) by (auto simp: flowInv_def jobOk_def)
  show ?thesis unfolding emit(1)
  proof (rule flowInv_worker [OF assms(2)])
    show "uncounted h ((jobs s)[i := Emitting ms]) = uncounted h (jobs s)" for h
      using uncounted_update [OF emit(2), of h "Emitting ms"] emit(3) by (simp add: uncountedJob_def)
    show "j \<in> set (jobs s) \<or> jobOk (emitted s) j" if "j \<in> set ((jobs s)[i := Emitting ms])" for j
      using that set_update_subset_insert [of "jobs s" i "Emitting ms"] \<open>jobOk (emitted s) (Emitting (m # ms))\<close>
      by (auto simp: jobOk_def)
  qed (rule top)
next
  case (last i wm f c d)
  show ?thesis unfolding last(1) by (rule flowInv_last [OF assms(2) last(2-4)]) (rule emission_fresh)
qed (use flowInv_counted [OF assms(2)] in simp_all)

end


context flaky_counter
begin

lemma flow_reach:
  assumes "freach decrement sha (flowInit wms c) s"
    and "\<forall>h n. remaining c h = Some n \<longrightarrow> int (length (filter (\<lambda>wm. wm_BlockHash wm = h) wms)) \<le> n"
    and "\<forall>wm \<in> set wms. CHR ''|'' \<notin> set (wm_BlockHash wm)"
  shows "flowInv sha (wm_BlockHash ` set wms) s"
  using assms(1)
proof induction
  case freach0
  have u: "uncounted h (jobs (flowInit wms c)) = length (filter (\<lambda>wm. wm_BlockHash wm = h) wms)" for h
    unfolding flowInit_def uncounted_def by (induction wms) (simp_all add: uncountedJob_def)
  have "h \<in> wm_BlockHash ` set wms" if "0 < uncounted h (jobs (flowInit wms c))" for h
    using that unfolding u by (auto simp: filter_empty_conv)
  moreover have "topicOk sha H [] []" for H by (simp add: topicOk_def)
  ultimately show ?case using assms(2) u by (auto simp: flowInv_def flowInit_def jobOk_def)
next
  case (freachS s t)
  then show ?case using flowInv_step assms(3) by blast
qed

text \<open>What the invariant says of a partition, the messages whose keys satisfy \<open>P\<close>.\<close>

lemma flow_partition:
  assumes "flowInv sha H s"
  shows "ordered (map snd (filter (P \<circ> fst) (callbacks s)))" and "list_all wfMsg (map snd (filter (P \<circ> fst) (callbacks s)))"
    and "(k, m) \<in> set (callbacks s) \<Longrightarrow> k = HashPartitionKey sha (CallbackURL m)" and "distinct (emitted s)"
proof -
  have t: "topicOk sha H (emitted s) (callbacks s)" using assms by (simp add: flowInv_def)
  have "sorted_wrt R (map f (filter Q xs))" if "sorted_wrt R (map f xs)" for R f Q and xs :: "(string \<times> CallbackTopicMessage) list"
    using that by (induction xs) auto
  then show "ordered (map snd (filter (P \<circ> fst) (callbacks s)))" using t unfolding topicOk_def ordered_def by blast
  show "list_all wfMsg (map snd (filter (P \<circ> fst) (callbacks s)))"
    using t by (auto simp: topicOk_def list_all_iff wfMsg_def msgOk_def freshMsg_def)
  show "k = HashPartitionKey sha (CallbackURL m)" if "(k, m) \<in> set (callbacks s)" using t that by (auto simp: topicOk_def)
  show "distinct (emitted s)" using assms by (simp add: flowInv_def)
qed

end

interpretation sqlFlaky: flaky_counter counterDecrement remainingIn
proof unfold_locales
  fix h' h :: string and f c
  assume "h' \<noteq> h"
  then show "remainingIn (snd (counterDecrement f h c)) h' = remainingIn c h'"
    by (auto simp: counterDecrement_def sqlTx_def remainingIn_def update_conv' split: option.splits sqlFault.splits)
next
  fix f h c k
  assume "fst (counterDecrement f h c) = Inr k"
  then show "remainingIn c h = Some (k + 1) \<and> remainingIn (snd (counterDecrement f h c)) h = Some k"
    by (auto simp: counterDecrement_def sqlTx_def remainingIn_def update_conv' split: option.splits sqlFault.splits)
next
  fix f h c e
  show "remainingIn (snd (counterDecrement f h c)) h = remainingIn c h \<or>
     (\<exists>n. remainingIn c h = Some n \<and> remainingIn (snd (counterDecrement f h c)) h = Some (n - 1))"
    by (auto simp: counterDecrement_def sqlTx_def remainingIn_def update_conv' split: option.splits sqlFault.splits)
qed

text \<open>
  C7: What the workers write is what the gate of the delivery service needs. Let the counter of each
  block be at least the number of its work messages, each of which is handled once, by handlers that
  run concurrently in any interleaving, with failing decrements, lost acknowledgements, failing
  publications and crashes. Then in every partition of the callback topic no first-attempt STUMP of
  a block and URL comes after the BLOCK_PROCESSED of that block and URL, and BLOCK_PROCESSED is
  emitted at most once per block.
\<close>

theorem callback_topic_ordered:
  assumes "freach counterDecrement sha (flowInit wms d) s"
    and "\<forall>h n. remainingIn d h = Some n \<longrightarrow> int (length (filter (\<lambda>wm. wm_BlockHash wm = h) wms)) \<le> n"
    and "\<forall>wm \<in> set wms. CHR ''|'' \<notin> set (wm_BlockHash wm)"
  shows "ordered (map snd (filter (P \<circ> fst) (callbacks s))) \<and> list_all wfMsg (map snd (filter (P \<circ> fst) (callbacks s)))
    \<and> distinct (emitted s)"
  using sqlFlaky.flow_partition [OF sqlFlaky.flow_reach [OF assms]] by blast


text \<open>A block of two subtrees, announced once.\<close>

definition exNet :: net where
  "exNet = \<lparr>f2i = of_int, reqErr = (\<lambda>_. None), ctxDone = (\<lambda>_ _. None), http = (\<lambda>_ _. Reply 200 [] None)\<rparr>"

definition exBlockDeps :: "(db, unit, sqlErr) blockDeps" where
  "exBlockDeps = \<lparr>bdNet = exNet, bdClient = NewClient 10 0, bdHashString = hexEncode,
     bdNewBlock = (\<lambda>_. Inr \<lparr>blkHeight = 7, blkSubtrees = [[1], [2]], blkTransactionCount = 9\<rparr>),
     bdInit = Some (counterInit 0 600 None), bdPublish = (\<lambda>_. None), bdSetHeight = (\<lambda>_ b. b)\<rparr>"

definition exAnnounce :: BlockMessage where
  "exAnnounce = \<lparr>bm_Hash = ''00ab'', bm_Height = 7, bm_Header = '''', bm_Coinbase = '''', bm_DataHubURL = ''http://hub'',
     bm_PeerID = '''', bm_ClientName = ''''\<rparr>"

definition exProcessor :: "(db, unit) Processor" where
  "exProcessor = \<lparr>bpDedup = Some (NewDedupCache 10), bpCounter = emptyDb, bpSubtrees = (), workTopic = []\<rparr>"

lemma exFetch:
  "snd (FetchBlockMetadata (bdNet exBlockDeps) (bdHashString exBlockDeps) (bdNewBlock exBlockDeps) (bdClient exBlockDeps)
     (bm_DataHubURL exAnnounce) (bm_Hash exAnnounce)) =
   Inr \<lparr>Height = 7, Header = None, Subtrees = [hexEncode [1], hexEncode [2]], TransactionCount = 9\<rparr>"
  by (simp add: FetchBlockMetadata_def exBlockDeps_def exAnnounce_def exNet_def doGetWithRetry_def NewClient_def
      replyStep_def ParseBinaryBlockMetadata_def)

theorem block_dispatch_witness:
  "\<exists>p'. handleBlock (\<lambda>_. 0) exBlockDeps (Inr exAnnounce) exProcessor = (None, p')
     \<and> remainingIn (bpCounter p') ''00ab'' = Some 2 \<and> map (wm_SubtreeIndex \<circ> snd) (workTopic p') = [0, 1]
     \<and> handleBlock (\<lambda>_. 0) exBlockDeps (Inr exAnnounce) p' = (None, p')"
proof -
  have new: "\<not> Contains (bm_Hash exAnnounce) (NewDedupCache 10)" by (simp add: Contains_def NewDedupCache_def)
  have deps: "bdInit exBlockDeps = Some (counterInit 0 600 None)" "bpDedup exProcessor = Some (NewDedupCache 10)"
    by (simp_all add: exBlockDeps_def exProcessor_def)
  note all = block_dispatch [OF deps dedup_invar_New, where bm = exAnnounce and sha = "\<lambda>_. 0",
      unfolded exFetch sum.case if_not_P [OF new] BlockMetadata.simps if_not_P [OF list.distinct(2)]]
  obtain r p' where p': "handleBlock (\<lambda>_. 0) exBlockDeps (Inr exAnnounce) exProcessor = (r, p')" by fastforce
  have "r = None" using all p' by (cases r) simp_all
  then show ?thesis using all p'
    by (auto simp: exAnnounce_def workList_def workMessage_def exBlockDeps_def exProcessor_def)
qed


text \<open>The run of one worker over the only subtree of a block, with one registered URL.\<close>

definition exWork :: SubtreeWorkMessage where
  "exWork = \<lparr>wm_BlockHash = ''00ab'', wm_BlockHeight = 100, wm_SubtreeHash = ''st'', wm_SubtreeIndex = 0, wm_DataHubURL = ''http://hub''\<rparr>"

definition exWorker :: deps where
  "exWorker = \<lparr>wdSubtree = exDeps, wdTTL = 60, wdPut = Some (\<lambda>data ht p. (Inr '''', p)),
     wdDecrement = Some (counterDecrement None), wdGetAll = Some (Inr [''http://cb'']),
     wdUrls = (\<lambda>_. [''http://cb'']), wdPublish = (\<lambda>_ _. None)\<rparr>"

definition exCount :: db where
  "exCount = snd (counterInit 0 600 None ''00ab'' 1 emptyDb)"

lemma exPrepared: "preparedMessages exWorker exWork exBlobs exDb p = [stumpMessage]"
proof -
  obtain res where "fst (ProcessBlockSubtree exDeps ''st'' 100 ''http://hub'' 60 exBlobs exDb) = Inr (Some res)"
    using exProcess by blast
  then show ?thesis
    by (simp add: preparedMessages_def exWorker_def exWork_def storeStump_def stumpMessages_def stumpMessage_def emptyCallback_def)
qed

lemma flow_next: "freach decrement sha s0 s \<Longrightarrow> fstep decrement sha s t \<Longrightarrow> t = t' \<Longrightarrow> freach decrement sha s0 t'"
  using freachS by metis

lemma exFlow_any:
  assumes c: "decrement f ''00ab'' c0 = (Inr 0, c)"
  shows "\<exists>s. freach decrement (\<lambda>_. 0) (flowInit [exWork] c0) s
     \<and> callbacks s = [(HashPartitionKey (\<lambda>_. 0) ''http://cb'', stumpMessage), (HashPartitionKey (\<lambda>_. 0) ''http://cb'', bpMessage)]
     \<and> emitted s = [''00ab'']"
proof -
  let ?k = "HashPartitionKey (\<lambda>_. 0) ''http://cb''" and ?r = "freach decrement (\<lambda>_. 0) (flowInit [exWork] c0)"
  have u: "CallbackURL stumpMessage = ''http://cb''" "CallbackURL bpMessage = ''http://cb''" "wm_BlockHash exWork = ''00ab''"
    by (simp_all add: stumpMessage_def bpMessage_def emptyCallback_def exWork_def)
  have e: "emission exWorker ''00ab'' = [bpMessage]" by (simp add: emission_def exWorker_def bpMessages_def bpMessage_def)
  have "?r \<lparr>jobs = [Publishing exWork [stumpMessage]], callbacks = [], counters = c0, emitted = []\<rparr>"
    by (rule flow_next [OF freach0 fstep.prepare [of 0 _ exWork, OF _ _ exPrepared [symmetric]]]) (simp_all add: flowInit_def)
  then have "?r \<lparr>jobs = [Publishing exWork []], callbacks = [(?k, stumpMessage)], counters = c0, emitted = []\<rparr>"
    by (rule flow_next [OF _ fstep.publish [of 0 _ exWork stumpMessage "[]" _ _ None]]) (simp_all add: u PublishWithHashKey_def Publish_def)
  then have "?r \<lparr>jobs = [Emitting [bpMessage]], callbacks = [(?k, stumpMessage)], counters = c, emitted = [''00ab'']\<rparr>"
    by (rule flow_next [OF _ fstep.last [of 0 _ exWork decrement f c _ exWorker]]) (simp_all add: u c e)
  then have "?r \<lparr>jobs = [Emitting []], callbacks = [(?k, stumpMessage), (?k, bpMessage)], counters = c, emitted = [''00ab'']\<rparr>"
    by (rule flow_next [OF _ fstep.emit [of 0 _ bpMessage "[]" _ _ None]]) (simp_all add: u PublishWithHashKey_def Publish_def)
  then show ?thesis by force
qed

lemma exFlow:
  "\<exists>s. freach counterDecrement (\<lambda>_. 0) (flowInit [exWork] exCount) s
     \<and> callbacks s = [(HashPartitionKey (\<lambda>_. 0) ''http://cb'', stumpMessage), (HashPartitionKey (\<lambda>_. 0) ''http://cb'', bpMessage)]
     \<and> emitted s = [''00ab'']"
proof -
  obtain c where "counterDecrement None ''00ab'' exCount = (Inr 0, c)"
    by (simp add: counterDecrement_def sqlTx_def exCount_def counterInit_def emptyDb_def)
  then show ?thesis by (rule exFlow_any)
qed

lemma exFlow_ok:
  "\<forall>h n. remainingIn exCount h = Some n \<longrightarrow> int (length (filter (\<lambda>wm. wm_BlockHash wm = h) [exWork])) \<le> n"
  "\<forall>wm \<in> set [exWork]. CHR ''|'' \<notin> set (wm_BlockHash wm)"
  by (auto simp: exCount_def exWork_def counterInit_def sqlTx_def remainingIn_def emptyDb_def split: if_splits)

theorem callback_topic_ordered_witness:
  "\<exists>s. freach counterDecrement (\<lambda>_. 0) (flowInit [exWork] exCount) s \<and> map snd (callbacks s) = [stumpMessage, bpMessage]
     \<and> ordered (map snd (filter ((\<lambda>_. True) \<circ> fst) (callbacks s))) \<and> distinct (emitted s)"
proof -
  obtain s where s: "freach counterDecrement (\<lambda>_. 0) (flowInit [exWork] exCount) s" "map snd (callbacks s) = [stumpMessage, bpMessage]"
    using exFlow by auto
  note ok = callback_topic_ordered [OF s(1) exFlow_ok, of "\<lambda>_. True"]
  show ?thesis by (intro exI [of _ s] conjI s ok [THEN conjunct1] ok [THEN conjunct2, THEN conjunct2])
qed

end
