(* ===== verification/Subtree_Fetcher.thy ===== *)
theory Subtree_Fetcher
  imports Registration_Cache Dedup_Cache Datahub Stump_Merge Sql_Stores Kafka_Messages
begin

text \<open>
  The subtree fetcher (internal/subtree/processor.go): for an announced subtree it fetches and stores
  the data, finds the registered txids through the registration cache and the registration store,
  publishes batched SEEN_ON_NETWORK and SEEN_MULTIPLE_NODES callbacks, and on a transient failure puts
  the message back on its topic or, after the configured number of attempts, on the dead-letter topic.

  A call depends on the fields of \<open>fetchDeps\<close>: \<open>fdBatchGet k\<close> is the \<open>k\<close>-th call of \<open>BatchGet\<close>,
  \<open>fdRegOrd k\<close> and \<open>fdUrls k\<close> are the orders in which the \<open>k\<close>-th loop over a map visits it, and
  \<open>fdPublish k i\<close> is the outcome of encoding and publishing the \<open>i\<close>-th callback of the \<open>k\<close>-th loop.
\<close>

section \<open>Data\<close>

text \<open>The interface \<open>RegCache\<close>.\<close>

record 'k regCacheOps =
  opFilterUncached :: "string list \<Rightarrow> 'k \<Rightarrow> (string list \<times> string list) go"
  opSetMultiRegistered :: "string list \<Rightarrow> 'k \<Rightarrow> 'k go"
  opSetMultiNotRegistered :: "string list \<Rightarrow> 'k \<Rightarrow> 'k go"

record ('k, 'b, 'r, 'e) fetchDeps =
  fdNet :: net
  fdClient :: Client
  fdHashString :: "bytes \<Rightarrow> string"
  fdStorageMode :: string
  fdMaxAttempts :: int
  fdStoreSubtree :: "string \<Rightarrow> bytes \<Rightarrow> u64 \<Rightarrow> 'b \<Rightarrow> subtreeErr option \<times> 'b"
  fdRegCache :: "'k regCacheOps option"
  fdBatchGet :: "nat \<Rightarrow> string list \<Rightarrow> 'r \<Rightarrow> 'e + (string \<times> string list) list"
  fdIncrement :: "string \<Rightarrow> string \<Rightarrow> 'r \<Rightarrow> ('e + IncrementResult) \<times> 'r"
  fdRegOrd :: "nat \<Rightarrow> (string \<times> string list) list \<Rightarrow> (string \<times> string list) list"
  fdUrls :: "nat \<Rightarrow> (string \<rightharpoonup> string list) \<Rightarrow> string list"
  fdPublish :: "nat \<Rightarrow> nat \<Rightarrow> string option"
  fdRetryErr :: "string option"
  fdDlqErr :: "string option"

record ('k, 'b, 'r) Fetcher =
  ftDedup :: "DedupCache option"
  ftCache :: 'k
  ftSubtrees :: 'b
  ftDb :: 'r
  ftCallbacks :: "CallbackTopicMessage topic"
  ftRetries :: "SubtreeMessage topic"
  ftDlq :: "SubtreeMessage topic"
  ftProcessed :: int
  ftRetried :: int
  ftDLQd :: int

datatype fetchErr = EPublishRetry string | EPublishDlq string

section \<open>Transient failures\<close>

definition maxAttempts :: "('k, 'b, 'r, 'e) fetchDeps \<Rightarrow> int" where
  "maxAttempts d = (if fdMaxAttempts d \<le> 0 then 10 else fdMaxAttempts d)"

definition handleTransientFailure ::
    "('k, 'b, 'r, 'e) fetchDeps \<Rightarrow> SubtreeMessage \<Rightarrow> ('k, 'b, 'r) Fetcher \<Rightarrow> fetchErr option \<times> ('k, 'b, 'r) Fetcher" where
  "handleTransientFailure d subtreeMsg p =
     (let nextAttempt = sm_AttemptCount subtreeMsg + 1;
          msg = subtreeMsg\<lparr>sm_AttemptCount := nextAttempt\<rparr>
      in if nextAttempt \<ge> maxAttempts d then
           (case Publish (fdDlqErr d) (sm_Hash msg) msg (ftDlq p) of
              (Some err, t) \<Rightarrow> (Some (EPublishDlq err), p\<lparr>ftDlq := t\<rparr>)
            | (None, t) \<Rightarrow> (None, p\<lparr>ftDlq := t, ftDLQd := ftDLQd p + 1\<rparr>))
         else
           (case Publish (fdRetryErr d) (sm_Hash msg) msg (ftRetries p) of
              (Some err, t) \<Rightarrow> (Some (EPublishRetry err), p\<lparr>ftRetries := t\<rparr>)
            | (None, t) \<Rightarrow> (None, p\<lparr>ftRetries := t, ftRetried := ftRetried p + 1\<rparr>)))"

section \<open>Registered txids\<close>

text \<open>
  \<open>findRegisteredTxids\<close>: the map of the registered txids and the updated cache. The cache is updated
  from the first batch; a failing second batch is only logged.
\<close>

definition updateCache ::
    "'k regCacheOps \<Rightarrow> string list \<Rightarrow> (string \<times> string list) list \<Rightarrow> 'k \<Rightarrow> 'k go" where
  "updateCache ops uncached fromStore k =
     (let foundTxids = filter (\<lambda>txid. map_of fromStore txid \<noteq> None) uncached;
          notFoundTxids = filter (\<lambda>txid. map_of fromStore txid = None) uncached
      in go_bind (if foundTxids \<noteq> [] then opSetMultiRegistered ops foundTxids k else Inr k) (\<lambda>k.
           if notFoundTxids \<noteq> [] then opSetMultiNotRegistered ops notFoundTxids k else Inr k))"

definition combine ::
    "('k, 'b, 'r, 'e) fetchDeps \<Rightarrow> string list \<Rightarrow> (string \<times> string list) list \<Rightarrow> 'r \<Rightarrow> (string \<times> string list) list" where
  "combine d cachedRegistered fromStore r =
     (if cachedRegistered = [] then fromStore
      else (case fdBatchGet d 1 cachedRegistered r of
         Inl err \<Rightarrow> fromStore
       | Inr cachedURLs \<Rightarrow> fold (\<lambda>(txid, urls). AList.update txid urls) cachedURLs fromStore))"

definition findRegisteredTxids ::
    "('k, 'b, 'r, 'e) fetchDeps \<Rightarrow> string list \<Rightarrow> 'k \<Rightarrow> 'r \<Rightarrow> (('e + (string \<times> string list) list) \<times> 'k) go" where
  "findRegisteredTxids d txids k r =
     go_bind (case fdRegCache d of None \<Rightarrow> Inr (txids, []) | Some ops \<Rightarrow> opFilterUncached ops txids k)
       (\<lambda>(uncached, cachedRegistered).
         case (if uncached = [] then Inr [] else fdBatchGet d 0 uncached r) of
           Inl err \<Rightarrow> Inr (Inl err, k)
         | Inr fromStore \<Rightarrow>
             go_bind (case fdRegCache d of None \<Rightarrow> Inr k | Some ops \<Rightarrow> updateCache ops uncached fromStore k) (\<lambda>k.
               Inr (Inr (combine d cachedRegistered fromStore r), k)))"

section \<open>Callbacks\<close>

definition callbackBatchChunkSize :: nat where
  "callbackBatchChunkSize = 5000"

text \<open>The loop of \<open>chunkTxIDs\<close>, for a positive size.\<close>

function chunkLoop :: "'a list \<Rightarrow> nat \<Rightarrow> nat \<Rightarrow> 'a list list" where
  "chunkLoop txids sz i =
     (if sz = 0 \<or> length txids \<le> i then []
      else (let end' = (if i + sz > length txids then length txids else i + sz)
            in take (end' - i) (drop i txids) # chunkLoop txids sz (i + sz)))"
  by pat_completeness auto
termination
  by (relation "measure (\<lambda>(txids, sz, i). length txids - i)") auto

declare chunkLoop.simps [simp del]

definition chunkTxIDs :: "'a list \<Rightarrow> nat \<Rightarrow> 'a list list" where
  "chunkTxIDs txids sz = (if length txids \<le> sz then [txids] else chunkLoop txids sz 0)"

text \<open>The messages of one kind: for each URL its txids in chunks.\<close>

definition batchMessages :: "CallbackType \<Rightarrow> (string \<rightharpoonup> string list) \<Rightarrow> string list \<Rightarrow> CallbackTopicMessage list" where
  "batchMessages typ groups urls = concat (map (\<lambda>callbackURL.
     map (\<lambda>chunk. (emptyCallback callbackURL typ)\<lparr>msgTxIDs := chunk\<rparr>)
       (chunkTxIDs (case groups callbackURL of None \<Rightarrow> [] | Some txids \<Rightarrow> txids) callbackBatchChunkSize)) urls)"

definition seenGroups :: "(string \<times> string list) list \<Rightarrow> string \<rightharpoonup> string list" where
  "seenGroups regs = foldl (\<lambda>m (txid, callbackURLs). fold (addToGroup txid) callbackURLs m) Map.empty regs"

text \<open>The loop that increments the seen counters and collects the txids at the threshold.\<close>

fun countLoop ::
    "(string \<Rightarrow> string \<Rightarrow> 'r \<Rightarrow> ('e + IncrementResult) \<times> 'r) \<Rightarrow> string \<Rightarrow> (string \<times> string list) list
     \<Rightarrow> (string \<rightharpoonup> string list) \<Rightarrow> 'r \<Rightarrow> (string \<rightharpoonup> string list) \<times> 'r" where
  "countLoop increment subtreeID [] groups r = (groups, r)"
| "countLoop increment subtreeID ((txid, callbackURLs) # rest) groups r =
     (case increment txid subtreeID r of
        (Inl err, r) \<Rightarrow> countLoop increment subtreeID rest groups r
      | (Inr result, r) \<Rightarrow>
          countLoop increment subtreeID rest
            (if ThresholdReached result then fold (addToGroup txid) callbackURLs groups else groups) r)"

definition emitBatchedSeenCallbacks ::
    "(string \<Rightarrow> 256 word) \<Rightarrow> ('k, 'b, 'r, 'e) fetchDeps \<Rightarrow> (string \<times> string list) list \<Rightarrow> string
     \<Rightarrow> ('k, 'b, 'r) Fetcher \<Rightarrow> ('k, 'b, 'r) Fetcher" where
  "emitBatchedSeenCallbacks sha256 d regs subtreeID p =
     (if regs = [] then p
      else
        (let groups = seenGroups (fdRegOrd d 0 regs);
             t = publishAll sha256 (fdPublish d 0) 0 (batchMessages CallbackSeenOnNetwork groups (fdUrls d 0 groups)) (ftCallbacks p);
             (thresholdGroups, r) = countLoop (fdIncrement d) subtreeID (fdRegOrd d 1 regs) Map.empty (ftDb p);
             t = publishAll sha256 (fdPublish d 1) 0
                   (batchMessages CallbackSeenMultipleNodes thresholdGroups (fdUrls d 1 thresholdGroups)) t
         in p\<lparr>ftDb := r, ftCallbacks := t\<rparr>))"

section \<open>The handler\<close>

definition markProcessed :: "string \<Rightarrow> ('k, 'b, 'r) Fetcher \<Rightarrow> ('k, 'b, 'r) Fetcher" where
  "markProcessed h p = p\<lparr>ftDedup := map_option (\<lambda>c. snd (Add h c)) (ftDedup p), ftProcessed := ftProcessed p + 1\<rparr>"

definition handleSubtree ::
    "(string \<Rightarrow> 256 word) \<Rightarrow> ('k, 'b, 'r, 'e) fetchDeps \<Rightarrow> string + SubtreeMessage \<Rightarrow> ('k, 'b, 'r) Fetcher
     \<Rightarrow> (fetchErr option \<times> ('k, 'b, 'r) Fetcher) go" where
  "handleSubtree sha256 d decoded p = (case decoded of
      Inl err \<Rightarrow> Inr (None, p)
    | Inr msg \<Rightarrow>
        if (case ftDedup p of None \<Rightarrow> False | Some c \<Rightarrow> Contains (sm_Hash msg) c) then Inr (None, p)
        else (case snd (FetchSubtreeRaw (fdNet d) (fdClient d) (sm_DataHubURL msg) (sm_Hash msg)) of
            Inl err \<Rightarrow> Inr (handleTransientFailure d msg p)
          | Inr rawData \<Rightarrow>
              (let (storeErr, b) = (if fdStorageMode d = ''realtime'' then fdStoreSubtree d (sm_Hash msg) rawData 0 (ftSubtrees p)
                                    else (None, ftSubtrees p));
                   p = p\<lparr>ftSubtrees := b\<rparr>
               in case storeErr of
                    Some err \<Rightarrow> Inr (handleTransientFailure d msg p)
                  | None \<Rightarrow> (case ParseRawTxids (fdHashString d) rawData of
                      Inl err \<Rightarrow> Inr (handleTransientFailure d msg p)
                    | Inr txids \<Rightarrow>
                        if txids = [] then Inr (None, markProcessed (sm_Hash msg) p)
                        else go_bind (findRegisteredTxids d txids (ftCache p) (ftDb p)) (\<lambda>(found, k).
                          let p = p\<lparr>ftCache := k\<rparr>
                          in Inr (case found of
                               Inl err \<Rightarrow> handleTransientFailure d msg p
                             | Inr regs \<Rightarrow> (None, markProcessed (sm_Hash msg) (emitBatchedSeenCallbacks sha256 d regs (sm_Hash msg) p))))))))"

section \<open>Chunks and groups\<close>

lemma chunkLoop_spec:
  assumes "0 < n"
  shows "concat (chunkLoop xs n i) = drop i xs \<and> (\<forall>c \<in> set (chunkLoop xs n i). length c \<le> n)"
  using assms
proof (induction xs n i rule: chunkLoop.induct)
  case (1 xs n i)
  show ?case
  proof (cases "length xs \<le> i")
    case True
    then show ?thesis by (simp add: chunkLoop.simps [of xs n i])
  next
    case False
    have "(if i + n > length xs then length xs else i + n) - i = min n (length xs - i)" by auto
    then have s: "chunkLoop xs n i = take n (drop i xs) # chunkLoop xs n (i + n)"
      using False 1(2) by (subst chunkLoop.simps) (simp add: Let_def min_def)
    have "take n (drop i xs) @ drop (i + n) xs = drop i xs" by (metis add.commute append_take_drop_id drop_drop)
    then show ?thesis using 1 False by (auto simp: s)
  qed
qed

lemma chunkTxIDs_spec:
  assumes "0 < n"
  shows "concat (chunkTxIDs xs n) = xs" and "c \<in> set (chunkTxIDs xs n) \<Longrightarrow> length c \<le> n"
  using chunkLoop_spec [OF assms, of xs 0] by (auto simp: chunkTxIDs_def split: if_splits)

lemma seenGroups_txidsOf: "seenGroups regs url = (if txidsOf regs url = [] then None else Some (txidsOf regs url))"
  by (simp add: seenGroups_def foldl_GroupByCallback)

text \<open>The txids that the messages of a list carry to a URL.\<close>

definition sentTo :: "string \<Rightarrow> CallbackTopicMessage list \<Rightarrow> string list" where
  "sentTo url ms = concat (map msgTxIDs (filter (\<lambda>m. CallbackURL m = url) ms))"

lemma sentTo_append [simp]: "sentTo url (xs @ ys) = sentTo url xs @ sentTo url ys"
  by (simp add: sentTo_def)

lemma sentTo_batch:
  assumes "distinct urls" and "set urls = dom groups"
  shows "sentTo url (batchMessages typ groups urls) = (case groups url of None \<Rightarrow> [] | Some ts \<Rightarrow> ts)"
proof -
  have one: "sentTo url (map (\<lambda>chunk. (emptyCallback u typ)\<lparr>msgTxIDs := chunk\<rparr>) (chunkTxIDs ts callbackBatchChunkSize)) =
      (if u = url then ts else [])" for u ts
    using chunkTxIDs_spec(1) [of callbackBatchChunkSize ts]
    by (simp add: sentTo_def filter_map emptyCallback_def comp_def callbackBatchChunkSize_def)
  have nil: "sentTo url [] = []" by (simp add: sentTo_def)
  have "sentTo url (batchMessages typ groups urls) = (if url \<in> set urls then (case groups url of None \<Rightarrow> [] | Some ts \<Rightarrow> ts) else [])"
    using assms(1) by (induction urls) (auto simp: batchMessages_def one nil)
  then show ?thesis using assms(2) by (auto split: option.splits)
qed

lemma batch_message:
  "m \<in> set (batchMessages typ groups urls) \<Longrightarrow> Type m = typ \<and> length (msgTxIDs m) \<le> 5000 \<and> RetryCount m = 0 \<and> NextRetryAt m = None"
  using chunkTxIDs_spec(2) [of callbackBatchChunkSize]
  by (auto simp: batchMessages_def emptyCallback_def callbackBatchChunkSize_def)

section \<open>Thresholds\<close>

definition reaches :: "int \<Rightarrow> string \<Rightarrow> string set \<Rightarrow> bool" where
  "reaches threshold sub S \<longleftrightarrow> int (card S) < threshold \<and> threshold \<le> int (card (insert sub S))"

context seen_counter
begin

lemma count_groups:
  assumes "inv s" and "distinct (map fst regs)"
  shows "fst (countLoop increment sub regs g s) =
    foldl (\<lambda>m (txid, urls). fold (addToGroup txid) urls m) g (filter (\<lambda>(t, _). reaches threshold sub (subs s t)) regs)"
  using assms
proof (induction regs arbitrary: g s)
  case (Cons x regs)
  obtain t us where x: "x = (t, us)" by (cases x)
  obtain s' where s': "increment t sub s = (Inr \<lparr>NewCount = card (insert sub (subs s t)), ThresholdReached = reaches threshold sub (subs s t)\<rparr>, s')"
      "inv s'" "subs s' = (subs s)(t := insert sub (subs s t))"
    using increment [OF Cons.prems(1)] unfolding reaches_def by blast
  have "filter (\<lambda>(t, _). reaches threshold sub (subs s' t)) regs = filter (\<lambda>(t, _). reaches threshold sub (subs s t)) regs"
    using Cons.prems(2) by (intro filter_cong) (auto simp: x s'(3) image_iff)
  then show ?case using Cons.IH [OF s'(2)] Cons.prems(2) s'(1) by (simp add: x)
qed simp

lemma count_keeps:
  assumes "inv s" and "\<And>s t x r s'. inv s \<Longrightarrow> increment t x s = (r, s') \<Longrightarrow> P s \<Longrightarrow> P s'" and "P s"
  shows "P (snd (countLoop increment sub regs g s))"
  using assms(1,3)
proof (induction regs arbitrary: g s)
  case (Cons x regs)
  obtain t us where x: "x = (t, us)" by (cases x)
  obtain r s' where s': "increment t sub s = (Inr r, s')" "inv s'" using increment [OF Cons.prems(1)] by blast
  show ?case using Cons.IH [OF s'(2) assms(2) [OF Cons.prems(1) s'(1) Cons.prems(2)]] s'(1) by (simp add: x)
qed simp

end

section \<open>The contract of the registration cache\<close>

text \<open>
  A cache of answers: it may forget, and it may fail to take a new answer and keep the earlier one, but it
  answers nothing else. The laws are for txids in \<open>T\<close>, on which the cache can tell txids apart.
\<close>

locale reg_cache =
  fixes ops :: "'k regCacheOps" and kinv :: "'k \<Rightarrow> bool" and answer :: "'k \<Rightarrow> string \<Rightarrow> bool option" and T :: "string set"
  assumes filter_uncached: "kinv k \<Longrightarrow> opFilterUncached ops ts k =
        Inr (filter (\<lambda>t. answer k t = None) ts, filter (\<lambda>t. answer k t = Some True) ts)"
    and set_registered: "kinv k \<Longrightarrow> set ts \<subseteq> T \<Longrightarrow> \<exists>k'. opSetMultiRegistered ops ts k = Inr k' \<and> kinv k'
        \<and> (\<forall>t \<in> T. answer k' t \<in> {None, answer k t} \<or> t \<in> set ts \<and> answer k' t = Some True)"
    and set_not_registered: "kinv k \<Longrightarrow> set ts \<subseteq> T \<Longrightarrow> \<exists>k'. opSetMultiNotRegistered ops ts k = Inr k' \<and> kinv k'
        \<and> (\<forall>t \<in> T. answer k' t \<in> {None, answer k t} \<or> t \<in> set ts \<and> answer k' t = Some False)"
begin

lemma update_cache:
  assumes "kinv k" and "set uncached \<subseteq> T"
  shows "\<exists>k'. updateCache ops uncached fs k = Inr k' \<and> kinv k'
     \<and> (\<forall>t \<in> T. answer k' t = Some False \<longrightarrow> answer k t = Some False \<or> t \<in> set uncached \<and> map_of fs t = None)"
proof -
  let ?f = "filter (\<lambda>t. map_of fs t \<noteq> None) uncached" and ?n = "filter (\<lambda>t. map_of fs t = None) uncached"
  have sub: "set ?f \<subseteq> T" "set ?n \<subseteq> T" using assms(2) by auto
  obtain k1 where k1: "(if ?f \<noteq> [] then opSetMultiRegistered ops ?f k else Inr k) = Inr k1" "kinv k1"
    "\<forall>t \<in> T. answer k1 t = Some False \<longrightarrow> answer k t = Some False"
  proof (cases "?f = []")
    case True
    then show thesis using that [of k] assms(1) by simp
  next
    case False
    obtain k' where k': "opSetMultiRegistered ops ?f k = Inr k'" "kinv k'"
      "\<forall>t \<in> T. answer k' t \<in> {None, answer k t} \<or> t \<in> set ?f \<and> answer k' t = Some True"
      using set_registered [OF assms(1) sub(1)] by blast
    have "answer k t = Some False" if "t \<in> T" "answer k' t = Some False" for t
      using k'(3) [rule_format, OF that(1)] that(2) by (auto split: if_splits)
    then show thesis using that [of k'] k'(1,2) False by simp
  qed
  obtain k2 where k2: "(if ?n \<noteq> [] then opSetMultiNotRegistered ops ?n k1 else Inr k1) = Inr k2" "kinv k2"
    "\<forall>t \<in> T. answer k2 t = Some False \<longrightarrow> answer k1 t = Some False \<or> t \<in> set ?n"
  proof (cases "?n = []")
    case True
    then show thesis using that [of k1] k1(2) by simp
  next
    case False
    obtain k' where k': "opSetMultiNotRegistered ops ?n k1 = Inr k'" "kinv k'"
      "\<forall>t \<in> T. answer k' t \<in> {None, answer k1 t} \<or> t \<in> set ?n \<and> answer k' t = Some False"
      using set_not_registered [OF k1(2) sub(2)] by blast
    have "answer k1 t = Some False \<or> t \<in> set ?n" if "t \<in> T" "answer k' t = Some False" for t
      using k'(3) [rule_format, OF that(1)] that(2) by (auto split: if_splits)
    then show thesis using that [of k'] k'(1,2) False by simp
  qed
  show ?thesis
    by (rule exI [of _ k2]) (use k1 k2 in \<open>auto simp: updateCache_def Let_def\<close>)
qed

end

lemma map_of_fold_update: "map_of (fold (\<lambda>(t, us). AList.update t us) xs m) = map_of m ++ map_of (rev xs)"
  by (induction xs arbitrary: m) (auto simp: update_conv' fun_eq_iff map_add_def split: option.splits)

lemma distinct_fold_update: "distinct (map fst m) \<Longrightarrow> distinct (map fst (fold (\<lambda>(t, us). AList.update t us) xs m))"
  by (induction xs arbitrary: m) (auto simp: distinct_update)

lemma map_of_rev_keys:
  assumes "distinct (map fst xs)"
  shows "map_of (rev xs) = map_of xs"
proof
  fix k
  have d: "distinct (map fst (rev xs))" using assms by (simp add: rev_map [symmetric])
  have "map_of (rev xs) k = Some v \<longleftrightarrow> map_of xs k = Some v" for v
    using map_of_eq_Some_iff [OF d, of k v] map_of_eq_Some_iff [OF assms, of k v] by simp
  then show "map_of (rev xs) k = map_of xs k" by (metis not_None_eq)
qed

text \<open>What the result of a look-up has to be.\<close>

definition exactFor :: "(string \<Rightarrow> string set) \<Rightarrow> string set \<Rightarrow> (string \<times> string list) list \<Rightarrow> bool" where
  "exactFor urls A regs \<longleftrightarrow> distinct (map fst regs) \<and> (\<forall>t. map_of regs t = None \<longleftrightarrow> t \<notin> A \<or> urls t = {})
     \<and> (\<forall>t us. map_of regs t = Some us \<longrightarrow> set us = urls t \<and> distinct us)"

lemma exactFor_union:
  assumes "exactFor urls A xs" and "exactFor urls B ys"
  shows "exactFor urls (A \<union> B) (fold (\<lambda>(t, us). AList.update t us) ys xs)"
proof -
  have "map_of (rev ys) = map_of ys" using assms(2) by (simp add: exactFor_def map_of_rev_keys)
  then have m: "map_of (fold (\<lambda>(t, us). AList.update t us) ys xs) = map_of xs ++ map_of ys" by (simp add: map_of_fold_update)
  have n: "map_of xs t = None \<longleftrightarrow> t \<notin> A \<or> urls t = {}" "map_of ys t = None \<longleftrightarrow> t \<notin> B \<or> urls t = {}" for t
    using assms unfolding exactFor_def by blast+
  have so: "set us = urls t \<and> distinct us" if "map_of xs t = Some us \<or> map_of ys t = Some us" for t us
    using assms that unfolding exactFor_def by blast
  have "set us = urls t \<and> distinct us" if "map_of (fold (\<lambda>(t, us). AList.update t us) ys xs) t = Some us" for t us
    using that so [of t us] unfolding m map_add_Some_iff by blast
  moreover have "map_of (fold (\<lambda>(t, us). AList.update t us) ys xs) t = None \<longleftrightarrow> t \<notin> A \<union> B \<or> urls t = {}" for t
    unfolding m map_add_None using n [of t] by blast
  moreover have "distinct (map fst xs)" using assms(1) unfolding exactFor_def by blast
  ultimately show ?thesis using distinct_fold_update [of xs ys] unfolding exactFor_def by blast
qed


lemma exactFor_mono:
  assumes "exactFor urls A regs" and "\<And>t. t \<in> A \<Longrightarrow> t \<in> B" and "\<And>t. t \<in> B \<Longrightarrow> t \<notin> A \<Longrightarrow> urls t = {}"
  shows "exactFor urls B regs"
proof -
  have "map_of regs t = None \<longleftrightarrow> t \<notin> B \<or> urls t = {}" for t
  proof -
    have "map_of regs t = None \<longleftrightarrow> t \<notin> A \<or> urls t = {}" using assms(1) unfolding exactFor_def by blast
    then show ?thesis using assms(2,3) [of t] by blast
  qed
  then show ?thesis using assms(1) unfolding exactFor_def by blast
qed

locale fetching = reg_cache ops kinv answer T + registration_store add batchGet rinv urlsOf
  for ops :: "'k regCacheOps" and kinv answer T
    and add :: "string \<Rightarrow> string \<Rightarrow> 'r \<Rightarrow> ('e + unit) \<times> 'r" and batchGet rinv urlsOf +
  assumes available: "rinv r \<Longrightarrow> \<exists>regs. batchGet ts r = Inr regs"
begin

lemma batch_exact: "rinv r \<Longrightarrow> batchGet ts r = Inr regs \<Longrightarrow> exactFor (urlsOf r) (set ts) regs"
  unfolding exactFor_def by (rule batch)

text \<open>The cache never hides a registration.\<close>

definition coherent :: "'k \<Rightarrow> 'r \<Rightarrow> bool" where
  "coherent k r \<longleftrightarrow> (\<forall>t \<in> T. answer k t = Some False \<longrightarrow> urlsOf r t = {})"

lemma find_exact:
  assumes "kinv k" and "rinv r" and "coherent k r" and "set txids \<subseteq> T"
    and "fdRegCache d = Some ops" and "\<And>i. fdBatchGet d i = batchGet"
  shows "\<exists>regs k'. findRegisteredTxids d txids k r = Inr (Inr regs, k') \<and> exactFor (urlsOf r) (set txids) regs
    \<and> kinv k' \<and> coherent k' r"
proof -
  let ?u = "filter (\<lambda>t. answer k t = None) txids" and ?c = "filter (\<lambda>t. answer k t = Some True) txids"
  have none: "exactFor (urlsOf r) {} []" by (simp add: exactFor_def)
  obtain fs where fs: "(if ?u = [] then Inr [] else batchGet ?u r) = Inr fs" "exactFor (urlsOf r) (set ?u) fs"
  proof (cases "?u = []")
    case True
    then show thesis using that [of "[]"] none by (simp only: True) simp
  next
    case False
    obtain regs where regs: "batchGet ?u r = Inr regs" using available [OF assms(2)] by blast
    show thesis using that [OF _ batch_exact [OF assms(2) regs]] regs False by simp
  qed
  have sub: "set ?u \<subseteq> T" using assms(4) by auto
  obtain k' where k': "updateCache ops ?u fs k = Inr k'" "kinv k'"
    "\<forall>t \<in> T. answer k' t = Some False \<longrightarrow> answer k t = Some False \<or> t \<in> set ?u \<and> map_of fs t = None"
    using update_cache [OF assms(1) sub, of fs] by blast
  have "urlsOf r t = {}" if "t \<in> set ?u" "map_of fs t = None" for t
    using fs(2) that unfolding exactFor_def by blast
  then have coh: "coherent k' r" using assms(3) k'(3) unfolding coherent_def by blast
  obtain cs where cs: "combine d ?c fs r = fold (\<lambda>(t, us). AList.update t us) cs fs" "exactFor (urlsOf r) (set ?c) cs"
  proof (cases "?c = []")
    case True
    then show thesis using that [of "[]"] none by (simp only: True combine_def) simp
  next
    case False
    obtain regs where regs: "batchGet ?c r = Inr regs" using available [OF assms(2)] by blast
    show thesis using that [OF _ batch_exact [OF assms(2) regs]] regs False by (simp add: combine_def assms(6))
  qed
  have "exactFor (urlsOf r) (set txids) (combine d ?c fs r)"
  proof (rule exactFor_mono [OF exactFor_union [OF fs(2) cs(2), folded cs(1)]])
    fix t
    show "t \<in> set txids" if "t \<in> set ?u \<union> set ?c" using that by auto
    show "urlsOf r t = {}" if "t \<in> set txids" "t \<notin> set ?u \<union> set ?c"
    proof -
      have "answer k t = Some False" using that by auto
      then show ?thesis using assms(3,4) that(1) unfolding coherent_def by blast
    qed
  qed
  moreover have "findRegisteredTxids d txids k r = Inr (Inr (combine d ?c fs r), k')"
    unfolding findRegisteredTxids_def assms(5,6) option.case filter_uncached [OF assms(1)] go_bind_simps prod.case fs(1) sum.case k'(1) ..
  ultimately show ?thesis using k'(2) coh by blast
qed

end


section \<open>The contract holds for the registration cache\<close>

lemma hexDecode_hexEncode: "hexDecode (hexEncode bs) = Some bs"
proof (induction bs)
  case (Cons b bs)
  have "unat b div 16 < 16" using unsigned_less [of b, where ?'a = nat] by (simp add: less_mult_imp_div_less)
  moreover have "(of_nat (unat b) :: byte) = b" by simp
  ultimately show ?case
    using Cons by (simp add: hexEncode_def hexByte_def hexVal_hexDigit)
qed (simp add: hexEncode_def)

definition hexTxids :: "string set" where
  "hexTxids = hexEncode ` {b. length b = 32}"

lemma hexTxids_decode: "t \<in> hexTxids \<Longrightarrow> \<exists>b. t = hexEncode b \<and> hexDecode t = Some b \<and> length t < 1000"
proof -
  have "length (hexEncode b) = 2 * length b" for b by (induction b) (simp_all add: hexEncode_def hexByte_def)
  then show "t \<in> hexTxids \<Longrightarrow> ?thesis" by (auto simp: hexTxids_def hexDecode_hexEncode)
qed

text \<open>\<open>ok reg\<close> tells which memory mappings are granted to the batch that sets the flag \<open>reg\<close>.\<close>

definition realOps :: "(bool \<Rightarrow> nat \<Rightarrow> nat \<Rightarrow> bool) \<Rightarrow> (bytes \<Rightarrow> u64) \<Rightarrow> RegistrationCache regCacheOps" where
  "realOps ok hf = \<lparr>opFilterUncached = FilterUncached hf, opSetMultiRegistered = SetMultiRegistered hf (ok True),
     opSetMultiNotRegistered = SetMultiNotRegistered hf (ok False)\<rparr>"

definition flagsOnly :: "(bytes \<Rightarrow> u64) \<Rightarrow> RegistrationCache \<Rightarrow> bool" where
  "flagsOnly hf rc \<longleftrightarrow> (\<exists>f. rcOk hf rc f)"

lemma known_rcOk:
  assumes "rcOk hf rc f" and "known hf rc t = Some r"
  shows "\<exists>key. hexDecode t = Some key \<and> r \<in> f key"
proof -
  have "cacheInv (rc_cache rc)" using assms(1) by (simp add: rcOk_def)
  then have "GetCached hf t rc = Inr (r, True)" using GetCached_known assms(2) by simp
  then show ?thesis by (rule rcOk_GetCached [OF assms(1)])
qed

lemma setMulti_answers:
  assumes "flagsOnly hf rc" and "set ts \<subseteq> hexTxids" and "flag = (if reg then registered else notRegistered)"
  shows "\<exists>rc'. setMultiFlag hf ok flag ts rc = Inr rc' \<and> flagsOnly hf rc'
     \<and> (\<forall>t \<in> hexTxids. known hf rc' t \<in> {None, known hf rc t} \<or> t \<in> set ts \<and> known hf rc' t = Some reg)"
proof -
  define f where "f = (\<lambda>key. set_option (known hf rc (hexEncode key)))"
  have "rcOk hf rc f"
    using assms(1) unfolding flagsOnly_def rcOk_def f_def known_def hexDecode_hexEncode option.case by fastforce
  then obtain rc' where rc': "setMultiFlag hf ok flag ts rc = Inr rc'"
      "rcOk hf rc' (\<lambda>key. if Some key \<notin> hexDecode ` set ts then f key else if takenWhole (ok, reg, ts) then {reg} else insert reg (f key))"
    using rcOk_batch [OF _ assms(3)] by blast
  have new: "known hf rc' t = known hf rc t \<or> t \<in> set ts \<and> r = reg" if t: "t \<in> hexTxids" "known hf rc' t = Some r" for t r
  proof -
    obtain b where b: "t = hexEncode b" "hexDecode t = Some b" using hexTxids_decode [OF t(1)] by blast
    have "Some b \<in> hexDecode ` set ts \<longleftrightarrow> t \<in> set ts"
    proof
      assume "Some b \<in> hexDecode ` set ts"
      then obtain t' where t': "t' \<in> set ts" "hexDecode t' = Some b" by auto
      then show "t \<in> set ts" using hexTxids_decode [of t'] assms(2) b by auto
    qed (use b in force)
    then show ?thesis using known_rcOk [OF rc'(2) t(2)] b t(2) by (auto simp: f_def split: if_splits)
  qed
  have "known hf rc' t \<in> {None, known hf rc t} \<or> t \<in> set ts \<and> known hf rc' t = Some reg" if "t \<in> hexTxids" for t
    using new [OF that] by (cases "known hf rc' t") auto
  then show ?thesis using rc' unfolding flagsOnly_def by blast
qed

interpretation txCache: reg_cache "realOps ok hf" "flagsOnly hf" "known hf" hexTxids for ok hf
proof unfold_locales
  fix k ts
  assume k: "flagsOnly hf k"
  show "opFilterUncached (realOps ok hf) ts k =
      Inr (filter (\<lambda>t. known hf k t = None) ts, filter (\<lambda>t. known hf k t = Some True) ts)"
    using k filterLoop_known [of k hf ts "[]" "[]"] by (auto simp: realOps_def FilterUncached_def flagsOnly_def rcOk_def)
  assume ts: "set ts \<subseteq> hexTxids"
  show "\<exists>k'. opSetMultiRegistered (realOps ok hf) ts k = Inr k' \<and> flagsOnly hf k'
      \<and> (\<forall>t \<in> hexTxids. known hf k' t \<in> {None, known hf k t} \<or> t \<in> set ts \<and> known hf k' t = Some True)"
    using setMulti_answers [OF k ts, of registered True] by (simp add: realOps_def SetMultiRegistered_def)
  show "\<exists>k'. opSetMultiNotRegistered (realOps ok hf) ts k = Inr k' \<and> flagsOnly hf k'
      \<and> (\<forall>t \<in> hexTxids. known hf k' t \<in> {None, known hf k t} \<or> t \<in> set ts \<and> known hf k' t = Some False)"
    using setMulti_answers [OF k ts, of notRegistered False] by (simp add: realOps_def SetMultiNotRegistered_def)
qed


sublocale sql_rows \<subseteq> fetch: fetching "realOps ok hf" "flagsOnly hf" "known hf" hexTxids "regAdd flt" "regBatchGet ro None" regInv urlsIn
  for ok hf flt
proof unfold_locales
  fix r ts
  show "\<exists>regs. regBatchGet ro None ts r = Inr regs"
    by (cases "ts = []") (auto simp: regBatchGet_def sqlRead_def)
qed

section \<open>Callbacks of one subtree\<close>

lemma exactFor_None: "exactFor urls A regs \<Longrightarrow> map_of regs t = None \<longleftrightarrow> t \<notin> A \<or> urls t = {}"
  by (simp add: exactFor_def)

lemma exactFor_txidsOf:
  assumes "exactFor urls A regs"
  shows "set (txidsOf regs u) = {t \<in> A. u \<in> urls t}" and "distinct (txidsOf regs u)"
proof -
  have d: "distinct (map fst regs)" using assms by (simp add: exactFor_def)
  have us: "set us = urls t \<and> distinct us" if "(t, us) \<in> set regs" for t us
    using assms map_of_is_SomeI [OF d that] unfolding exactFor_def by blast
  have "(\<exists>us. (t, us) \<in> set regs \<and> u \<in> set us) \<longleftrightarrow> t \<in> A \<and> u \<in> urls t" for t
  proof
    assume "\<exists>us. (t, us) \<in> set regs \<and> u \<in> set us"
    then obtain vs where vs: "(t, vs) \<in> set regs" "u \<in> set vs" by blast
    have "map_of regs t \<noteq> None" using map_of_is_SomeI [OF d vs(1)] by simp
    then have "t \<in> A" using exactFor_None [OF assms, of t] by simp
    then show "t \<in> A \<and> u \<in> urls t" using us [OF vs(1)] vs(2) by simp
  next
    assume t: "t \<in> A \<and> u \<in> urls t"
    then have "map_of regs t \<noteq> None" using exactFor_None [OF assms, of t] by auto
    then obtain vs where vs: "map_of regs t = Some vs" by blast
    then show "\<exists>us. (t, us) \<in> set regs \<and> u \<in> set us" using us [OF map_of_SomeD [OF vs]] t map_of_SomeD [OF vs] by auto
  qed
  then show "set (txidsOf regs u) = {t \<in> A. u \<in> urls t}" by (simp add: set_txidsOf)
  show "distinct (txidsOf regs u)" using d us by (intro distinct_txidsOf) auto
qed

lemma exactFor_perm:
  assumes "exactFor urls A regs" and "mset regs' = mset regs"
  shows "exactFor urls A regs'"
proof -
  have d: "distinct (map fst regs)" using assms(1) by (simp add: exactFor_def)
  moreover have "mset (map fst regs') = mset (map fst regs)" using assms(2) by simp
  ultimately have d': "distinct (map fst regs')" using mset_eq_imp_distinct_iff by blast
  have "map_of regs' = map_of regs" using map_of_inject_set [OF d' d] mset_eq_setD [OF assms(2)] by simp
  then show ?thesis using assms(1) d' by (simp add: exactFor_def)
qed

lemma exactFor_filter:
  assumes "exactFor urls A regs"
  shows "exactFor urls {t \<in> A. P t} (filter (\<lambda>(t, _). P t) regs)"
proof -
  have d: "distinct (map fst regs)" using assms by (simp add: exactFor_def)
  have m: "map_of (filter (\<lambda>(t, _). P t) regs) t = (if P t then map_of regs t else None)" for t
    by (induction regs) auto
  have "distinct (map fst (filter (\<lambda>(t, _). P t) regs))" using d by (simp add: distinct_map_filter)
  then show ?thesis using assms unfolding exactFor_def m by auto
qed

text \<open>The keys of a finite map in some order.\<close>

definition keyOrder :: "(nat \<Rightarrow> (string \<rightharpoonup> string list) \<Rightarrow> string list) \<Rightarrow> bool" where
  "keyOrder ks \<longleftrightarrow> (\<forall>i g. finite (dom g) \<longrightarrow> distinct (ks i g) \<and> set (ks i g) = dom g)"

lemma finite_groups: "finite (dom (seenGroups regs))"
proof -
  have "url \<in> (\<Union>r \<in> set regs. set (snd r))" if "url \<in> dom (seenGroups regs)" for url
  proof -
    have "txidsOf regs url \<noteq> []" using that by (auto simp: seenGroups_txidsOf split: if_splits)
    then have "set (txidsOf regs url) \<noteq> {}" by simp
    then show ?thesis unfolding set_txidsOf by force
  qed
  then have "dom (seenGroups regs) \<subseteq> (\<Union>r \<in> set regs. set (snd r))" by (rule subsetI)
  then show ?thesis by (rule finite_subset) simp
qed

text \<open>
  What a call adds to the callback topic: for each URL exactly the given txids, each once, in messages
  of at most 5000 txids that the delivery service takes as new.
\<close>

definition sentExactly ::
    "(string \<Rightarrow> string set) \<Rightarrow> string set \<Rightarrow> CallbackType \<Rightarrow> CallbackTopicMessage list \<Rightarrow> bool" where
  "sentExactly urls A typ ms \<longleftrightarrow>
     (\<forall>m \<in> set ms. Type m = typ \<and> length (msgTxIDs m) \<le> 5000 \<and> RetryCount m = 0 \<and> NextRetryAt m = None)
     \<and> (\<forall>url. distinct (sentTo url ms) \<and> set (sentTo url ms) = {t \<in> A. url \<in> urls t})"

lemma sentExactly_batch:
  assumes "exactFor urls A regs" and "keyOrder ks"
  shows "sentExactly urls A typ (batchMessages typ (seenGroups regs) (ks i (seenGroups regs)))"
proof -
  have ks: "distinct (ks i (seenGroups regs))" "set (ks i (seenGroups regs)) = dom (seenGroups regs)"
    using assms(2) finite_groups unfolding keyOrder_def by blast+
  have "sentTo url (batchMessages typ (seenGroups regs) (ks i (seenGroups regs))) = txidsOf regs url" for url
    unfolding sentTo_batch [OF ks] by (simp add: seenGroups_txidsOf)
  then show ?thesis using exactFor_txidsOf [OF assms(1)] batch_message by (simp add: sentExactly_def)
qed

lemma publishAll_ok:
  "publishAll sha (\<lambda>_. None) i ms t = t @ map (\<lambda>m. (HashPartitionKey sha (CallbackURL m), m)) ms"
  by (induction ms arbitrary: i t) (simp_all add: PublishWithHashKey_def Publish_def)


section \<open>The handler on a backend\<close>

text \<open>
  A backend is a registration store that is available and a seen counter that leaves the registrations
  alone; the cache is the registration cache of the service.
\<close>

definition cacheCoherent :: "(bytes \<Rightarrow> u64) \<Rightarrow> RegistrationCache \<Rightarrow> (string \<Rightarrow> string set) \<Rightarrow> bool" where
  "cacheCoherent hf rc urls \<longleftrightarrow> (\<forall>t \<in> hexTxids. known hf rc t = Some False \<longrightarrow> urls t = {})"

locale backend = fetching "realOps ok hf" "flagsOnly hf" "known hf" hexTxids add batchGet rinv urlsOf
    + seen_counter increment threshold sinv subs
  for ok hf and add :: "string \<Rightarrow> string \<Rightarrow> 'r \<Rightarrow> ('e + unit) \<times> 'r" and batchGet rinv urlsOf
    and increment :: "string \<Rightarrow> string \<Rightarrow> 'r \<Rightarrow> ('e + IncrementResult) \<times> 'r" and threshold sinv subs +
  assumes seen_keeps: "rinv r \<Longrightarrow> sinv r \<Longrightarrow> increment t x r = (res, r') \<Longrightarrow> rinv r' \<and> urlsOf r' = urlsOf r"
begin

lemma coherent_iff: "coherent rc r \<longleftrightarrow> cacheCoherent hf rc (urlsOf r)"
  by (simp add: coherent_def cacheCoherent_def)

lemma emit_exact:
  assumes "exactFor urls A regs" and "range_order (fdRegOrd d)" and "keyOrder (fdUrls d)" and "\<And>k i. fdPublish d k i = None"
    and "fdIncrement d = increment" and "sinv (ftDb p)"
  shows "\<exists>seen multi. map snd (ftCallbacks (emitBatchedSeenCallbacks sha d regs sub p)) = map snd (ftCallbacks p) @ seen @ multi
     \<and> sentExactly urls A CallbackSeenOnNetwork seen
     \<and> sentExactly urls {t \<in> A. reaches threshold sub (subs (ftDb p) t)} CallbackSeenMultipleNodes multi"
proof (cases "regs = []")
  case True
  then have "t \<notin> A \<or> urls t = {}" for t using exactFor_None [OF assms(1), of t] by simp
  then have "sentExactly urls B ty []" if "B \<subseteq> A" for ty B using that by (auto simp: sentExactly_def sentTo_def)
  then show ?thesis using True by (intro exI [of _ "[]"]) (auto simp: emitBatchedSeenCallbacks_def)
next
  case False
  have pub: "fdPublish d k = (\<lambda>_. None)" for k using assms(4) by (simp add: fun_eq_iff)
  have ex: "exactFor urls A (fdRegOrd d k regs)" for k
    by (rule exactFor_perm [OF assms(1)]) (rule range_order_mset [OF assms(2)])
  let ?hit = "filter (\<lambda>(t, _). reaches threshold sub (subs (ftDb p) t)) (fdRegOrd d 1 regs)"
  have "distinct (map fst (fdRegOrd d 1 regs))" using ex [of 1] by (simp add: exactFor_def)
  then have th: "fst (countLoop (fdIncrement d) sub (fdRegOrd d 1 regs) Map.empty (ftDb p)) = seenGroups ?hit"
    using count_groups [OF assms(6)] by (simp add: assms(5) seenGroups_def)
  let ?g = "seenGroups (fdRegOrd d 0 regs)"
  let ?seen = "batchMessages CallbackSeenOnNetwork ?g (fdUrls d 0 ?g)"
  let ?multi = "batchMessages CallbackSeenMultipleNodes (seenGroups ?hit) (fdUrls d 1 (seenGroups ?hit))"
  have "sentExactly urls A CallbackSeenOnNetwork ?seen" by (rule sentExactly_batch [OF ex assms(3)])
  moreover have "sentExactly urls {t \<in> A. reaches threshold sub (subs (ftDb p) t)} CallbackSeenMultipleNodes ?multi"
    by (rule sentExactly_batch [OF exactFor_filter [OF ex] assms(3)])
  moreover have "map snd (ftCallbacks (emitBatchedSeenCallbacks sha d regs sub p)) = map snd (ftCallbacks p) @ ?seen @ ?multi"
    using False th by (simp add: emitBatchedSeenCallbacks_def Let_def split_def publishAll_ok pub comp_def)
  ultimately show ?thesis by blast
qed

lemma emit_keeps:
  assumes "fdIncrement d = increment" and "sinv (ftDb p)" and "rinv (ftDb p)"
  shows "urlsOf (ftDb (emitBatchedSeenCallbacks sha d regs sub p)) = urlsOf (ftDb p)"
proof -
  have "(\<lambda>r. rinv r \<and> urlsOf r = urlsOf (ftDb p)) (snd (countLoop increment sub (fdRegOrd d 1 regs) Map.empty (ftDb p)))"
    by (rule count_keeps [OF assms(2)]) (use seen_keeps assms(3) in metis)+
  then show ?thesis by (simp add: emitBatchedSeenCallbacks_def Let_def split_def assms(1))
qed

lemma seen_exact:
  assumes "\<And>h. fdHashString d h = hexEncode (rev h)"
    and "fdRegCache d = Some (realOps ok hf)" and "\<And>i. fdBatchGet d i = batchGet" and "fdIncrement d = increment"
    and "range_order (fdRegOrd d)" and "keyOrder (fdUrls d)" and "\<And>k i. fdPublish d k i = None"
    and "snd (FetchSubtreeRaw (fdNet d) (fdClient d) (sm_DataHubURL msg) (sm_Hash msg)) = Inr (concat hs)" and "\<forall>h \<in> set hs. length h = 32"
    and "fdStorageMode d = ''realtime'' \<Longrightarrow> fst (fdStoreSubtree d (sm_Hash msg) (concat hs) 0 (ftSubtrees p)) = None"
    and "\<And>c. ftDedup p = Some c \<Longrightarrow> \<not> Contains (sm_Hash msg) c"
    and "flagsOnly hf (ftCache p)" and "rinv (ftDb p)" and "cacheCoherent hf (ftCache p) (urlsOf (ftDb p))" and "sinv (ftDb p)"
  shows "\<exists>p' seen multi. handleSubtree sha d (Inr msg) p = Inr (None, p')
     \<and> map snd (ftCallbacks p') = map snd (ftCallbacks p) @ seen @ multi
     \<and> sentExactly (urlsOf (ftDb p)) ((\<lambda>h. hexEncode (rev h)) ` set hs) CallbackSeenOnNetwork seen
     \<and> sentExactly (urlsOf (ftDb p)) {t \<in> (\<lambda>h. hexEncode (rev h)) ` set hs. reaches threshold (sm_Hash msg) (subs (ftDb p) t)} CallbackSeenMultipleNodes multi
     \<and> flagsOnly hf (ftCache p') \<and> cacheCoherent hf (ftCache p') (urlsOf (ftDb p'))"
proof -
  let ?ts = "map (\<lambda>h. hexEncode (rev h)) hs"
  have hs: "fdHashString d = (\<lambda>h. hexEncode (rev h))" using assms(1) by (simp add: fun_eq_iff)
  have ded: "(case ftDedup p of None \<Rightarrow> False | Some c \<Rightarrow> Contains (sm_Hash msg) c) = False"
    using assms(11) by (cases "ftDedup p") auto
  have parse: "ParseRawTxids (fdHashString d) (concat hs) = Inr ?ts"
    using ParseRawTxids_concat [of hs] assms(9) by (simp add: hs HashSize_def)
  obtain b where b: "(if fdStorageMode d = ''realtime'' then fdStoreSubtree d (sm_Hash msg) (concat hs) 0 (ftSubtrees p) else (None, ftSubtrees p)) = (None, b)"
    using assms(10) by (cases "fdStoreSubtree d (sm_Hash msg) (concat hs) 0 (ftSubtrees p)"; cases "fdStorageMode d = ''realtime''") simp_all
  have nil: "sentExactly u {} ty []" for u ty by (simp add: sentExactly_def sentTo_def)
  show ?thesis
  proof (cases "hs = []")
    case True
    then have "handleSubtree sha d (Inr msg) p = Inr (None, markProcessed (sm_Hash msg) (p\<lparr>ftSubtrees := b\<rparr>))"
      unfolding handleSubtree_def sum.case ded assms(8) b parse by simp
    then show ?thesis using True nil assms(12,14)
      by (intro exI [of _ "markProcessed (sm_Hash msg) (p\<lparr>ftSubtrees := b\<rparr>)"] exI [of _ "[]"]) (simp add: markProcessed_def)
  next
    case False
    have sub: "set ?ts \<subseteq> hexTxids" using assms(9) by (auto simp: hexTxids_def)
    obtain regs k' where f: "findRegisteredTxids d ?ts (ftCache p) (ftDb p) = Inr (Inr regs, k')"
      "exactFor (urlsOf (ftDb p)) (set ?ts) regs" "flagsOnly hf k'" "cacheCoherent hf k' (urlsOf (ftDb p))"
      using find_exact [OF assms(12,13) _ sub assms(2,3)] assms(14) unfolding coherent_iff by blast
    let ?p = "p\<lparr>ftSubtrees := b, ftCache := k'\<rparr>"
    let ?e = "emitBatchedSeenCallbacks sha d regs (sm_Hash msg) ?p"
    have inv: "sinv (ftDb ?p)" "rinv (ftDb ?p)" using assms(13,15) by simp_all
    obtain seen multi where sm: "map snd (ftCallbacks ?e) = map snd (ftCallbacks ?p) @ seen @ multi"
      "sentExactly (urlsOf (ftDb p)) (set ?ts) CallbackSeenOnNetwork seen"
      "sentExactly (urlsOf (ftDb p)) {t \<in> set ?ts. reaches threshold (sm_Hash msg) (subs (ftDb ?p) t)} CallbackSeenMultipleNodes multi"
      using emit_exact [OF f(2) assms(5,6,7,4) inv(1)] by blast
    have "handleSubtree sha d (Inr msg) p = Inr (None, markProcessed (sm_Hash msg) ?e)"
      using False f(1) unfolding handleSubtree_def sum.case ded assms(8) b parse by simp
    moreover have "cacheCoherent hf k' (urlsOf (ftDb ?e))" using f(4) emit_keeps [OF assms(4) inv] by simp
    moreover have "ftCache ?e = k'" by (simp add: emitBatchedSeenCallbacks_def Let_def split_def)
    ultimately show ?thesis using sm f(3)
      by (intro exI [of _ "markProcessed (sm_Hash msg) ?e"] exI [of _ seen] exI [of _ multi]) (simp add: markProcessed_def)
  qed
qed

end

sublocale sql_rows \<subseteq> sql: backend ok hf "regAdd flt" "regBatchGet ro None" regInv urlsIn "seenIncrement threshold None" threshold
    "seenCountInv threshold" subsOf
  for ok hf flt threshold
proof unfold_locales
  fix r t x res r'
  assume "regInv r" and inc: "seenIncrement threshold None t x r = (res, r')"
  have "registration_urls r' = registration_urls r"
    using inc by (auto simp: seenIncrement_def sqlTx_def Let_def split: option.splits if_splits sum.splits)
  then show "regInv r' \<and> urlsIn r' = urlsIn r" using \<open>regInv r\<close> by (simp add: regInv_def urlsIn_def fun_eq_iff)
qed

context sql_rows
begin

lemmas seen_exact_sql = sql.seen_exact

end

text \<open>
  C6: An announced subtree is reported to exactly those who asked. Let the subtree be fetched, stored
  and published without failures, the cache be coherent (it hides no registration) and the registrations
  be in the SQL store. Then for every URL the SEEN_ON_NETWORK messages carry the txids of the subtree
  that are registered with this URL, each once; the SEEN_MULTIPLE_NODES messages carry those of them
  that reach the threshold with this subtree; no message has more than 5000 txids; and the cache is
  coherent again. Map orders, row order, what the cache has forgotten and memory mappings it is refused make
  no difference.
\<close>

theorem seen_callbacks_exact:
  assumes "row_order ro" and "\<And>h. fdHashString d h = hexEncode (rev h)"
    and "fdRegCache d = Some (realOps ok hf)" and "\<And>i. fdBatchGet d i = regBatchGet ro None" and "fdIncrement d = seenIncrement threshold None"
    and "range_order (fdRegOrd d)" and "keyOrder (fdUrls d)" and "\<And>k i. fdPublish d k i = None"
    and "snd (FetchSubtreeRaw (fdNet d) (fdClient d) (sm_DataHubURL msg) (sm_Hash msg)) = Inr (concat hs)" and "\<forall>h \<in> set hs. length h = 32"
    and "fdStorageMode d = ''realtime'' \<Longrightarrow> fst (fdStoreSubtree d (sm_Hash msg) (concat hs) 0 (ftSubtrees p)) = None"
    and "\<And>c. ftDedup p = Some c \<Longrightarrow> \<not> Contains (sm_Hash msg) c"
    and "flagsOnly hf (ftCache p)" and "regInv (ftDb p)" and "cacheCoherent hf (ftCache p) (urlsIn (ftDb p))" and "seenCountInv threshold (ftDb p)"
  shows "\<exists>p' seen multi. handleSubtree sha d (Inr msg) p = Inr (None, p')
     \<and> map snd (ftCallbacks p') = map snd (ftCallbacks p) @ seen @ multi
     \<and> sentExactly (urlsIn (ftDb p)) ((\<lambda>h. hexEncode (rev h)) ` set hs) CallbackSeenOnNetwork seen
     \<and> sentExactly (urlsIn (ftDb p)) {t \<in> (\<lambda>h. hexEncode (rev h)) ` set hs. reaches threshold (sm_Hash msg) (subsOf (ftDb p) t)} CallbackSeenMultipleNodes multi
     \<and> flagsOnly hf (ftCache p') \<and> cacheCoherent hf (ftCache p') (urlsIn (ftDb p'))"
  by (rule sql_rows.seen_exact_sql [OF sql_rows.intro [OF assms(1)] assms(2-16)])

section \<open>Attempts\<close>

context reg_cache
begin

lemma find_total:
  assumes "kinv k" and "set txids \<subseteq> T" and "fdRegCache d = Some ops"
  shows "\<exists>res k'. findRegisteredTxids d txids k r = Inr (res, k') \<and> kinv k'"
proof -
  let ?u = "filter (\<lambda>t. answer k t = None) txids" and ?c = "filter (\<lambda>t. answer k t = Some True) txids"
  show ?thesis
  proof (cases "if ?u = [] then Inr [] else fdBatchGet d 0 ?u r")
    case (Inl e)
    have "findRegisteredTxids d txids k r = Inr (Inl e, k)"
      unfolding findRegisteredTxids_def assms(3) option.case filter_uncached [OF assms(1)] go_bind_simps prod.case Inl sum.case ..
    then show ?thesis using assms(1) by blast
  next
    case (Inr fs)
    have sub: "set ?u \<subseteq> T" using assms(2) by auto
    obtain k' where k': "updateCache ops ?u fs k = Inr k'" "kinv k'" using update_cache [OF assms(1) sub, of fs] by blast
    have "findRegisteredTxids d txids k r = Inr (Inr (combine d ?c fs r), k')"
      unfolding findRegisteredTxids_def assms(3) option.case filter_uncached [OF assms(1)] go_bind_simps prod.case Inr sum.case k'(1) ..
    then show ?thesis using k'(2) by blast
  qed
qed

end

text \<open>What a call leaves alone until it hands the message on.\<close>

definition sameTopics :: "('k, 'b, 'r) Fetcher \<Rightarrow> ('k, 'b, 'r) Fetcher \<Rightarrow> bool" where
  "sameTopics p p' \<longleftrightarrow> ftRetries p' = ftRetries p \<and> ftDlq p' = ftDlq p"

text \<open>The set-up on which a message is settled: both topics accept it, and the real cache is used.\<close>

definition fetchUp :: "(bytes \<Rightarrow> u64) \<Rightarrow> (RegistrationCache, 'b, 'r, 'e) fetchDeps \<Rightarrow> bool" where
  "fetchUp hf d \<longleftrightarrow> fdRetryErr d = None \<and> fdDlqErr d = None \<and> (\<exists>ok. fdRegCache d = Some (realOps ok hf))
     \<and> fdHashString d = (\<lambda>h. hexEncode (rev h))"

lemma ParseRawTxids_hex:
  assumes "ParseRawTxids (\<lambda>h. hexEncode (rev h)) raw = Inr ts"
  shows "set ts \<subseteq> hexTxids"
proof -
  have "length raw mod HashSize = 0" using assms by (auto simp: ParseRawTxids_def split: if_splits)
  then obtain hs where hs: "raw = concat hs" "\<forall>h \<in> set hs. length h = HashSize" by (rule hashes_of_data)
  then have "ts = map (\<lambda>h. hexEncode (rev h)) hs" using ParseRawTxids_concat [OF hs(2)] assms by simp
  then show ?thesis using hs(2) by (auto simp: hexTxids_def HashSize_def)
qed

lemma handleSubtree_cases:
  assumes "flagsOnly hf (ftCache p)" and "fetchUp hf d"
  obtains (dup) c where "handleSubtree sha d (Inr msg) p = Inr (None, p)" "ftDedup p = Some c" "Contains (sm_Hash msg) c"
  | (fail) p0 where "handleSubtree sha d (Inr msg) p = Inr (handleTransientFailure d msg p0)" "flagsOnly hf (ftCache p0)"
      "sameTopics p p0" "ftProcessed p0 = ftProcessed p"
  | (ok) p0 where "handleSubtree sha d (Inr msg) p = Inr (None, p0)" "sameTopics p p0" "ftProcessed p0 = ftProcessed p + 1"
proof -
  obtain ok where c: "fdRegCache d = Some (realOps ok hf)" and h: "fdHashString d = (\<lambda>h. hexEncode (rev h))" using assms(2) by (auto simp: fetchUp_def)
  define ded where "ded = (case ftDedup p of None \<Rightarrow> False | Some c \<Rightarrow> Contains (sm_Hash msg) c)"
  show thesis
  proof (cases ded)
    case True
    then show thesis using dup by (auto simp: handleSubtree_def ded_def split: option.splits)
  next
    case ndup: False
    show thesis
    proof (cases "snd (FetchSubtreeRaw (fdNet d) (fdClient d) (sm_DataHubURL msg) (sm_Hash msg))")
      case (Inl e)
      have "handleSubtree sha d (Inr msg) p = Inr (handleTransientFailure d msg p)"
        using ndup unfolding handleSubtree_def sum.case ded_def [symmetric] Inl by simp
      then show thesis using fail assms(1) by (simp add: sameTopics_def)
    next
      case (Inr raw)
      obtain se b where b: "(if fdStorageMode d = ''realtime'' then fdStoreSubtree d (sm_Hash msg) raw 0 (ftSubtrees p) else (None, ftSubtrees p)) = (se, b)"
        by fastforce
      let ?p = "p\<lparr>ftSubtrees := b\<rparr>"
      note start = handleSubtree_def sum.case ded_def [symmetric] Inr b
      have p: "flagsOnly hf (ftCache ?p)" "sameTopics p ?p" "ftProcessed ?p = ftProcessed p" using assms(1) by (simp_all add: sameTopics_def)
      show thesis
      proof (cases "se \<noteq> None \<or> (\<exists>e. ParseRawTxids (fdHashString d) raw = Inl e)")
        case True
        then have "handleSubtree sha d (Inr msg) p = Inr (handleTransientFailure d msg ?p)"
          using ndup unfolding start by (cases se) (auto simp: Let_def)
        then show thesis using fail p by blast
      next
        case False
        then obtain ts where ts: "se = None" "ParseRawTxids (fdHashString d) raw = Inr ts" by (cases "ParseRawTxids (fdHashString d) raw") auto
        show thesis
        proof (cases "ts = []")
          case True
          then have "handleSubtree sha d (Inr msg) p = Inr (None, markProcessed (sm_Hash msg) ?p)"
            using ndup unfolding start ts by simp
          then show thesis using ok p by (simp add: markProcessed_def sameTopics_def)
        next
          case ne: False
          have "set ts \<subseteq> hexTxids" using ParseRawTxids_hex ts(2) h by simp
          then obtain res k' where f: "findRegisteredTxids d ts (ftCache p) (ftDb p) = Inr (res, k')" "flagsOnly hf k'"
            using txCache.find_total [OF assms(1) _ c] by blast
          let ?q = "p\<lparr>ftSubtrees := b, ftCache := k'\<rparr>"
          have all: "handleSubtree sha d (Inr msg) p = Inr (case res of Inl err \<Rightarrow> handleTransientFailure d msg ?q
              | Inr regs \<Rightarrow> (None, markProcessed (sm_Hash msg) (emitBatchedSeenCallbacks sha d regs (sm_Hash msg) ?q)))"
            using ndup ne f(1) unfolding start ts by (simp add: Let_def)
          show thesis
          proof (cases res)
            case (Inl e)
            then show thesis using fail [of ?q] all f(2) by (simp add: sameTopics_def)
          next
            case (Inr regs)
            have "sameTopics p (markProcessed h (emitBatchedSeenCallbacks sha d regs h ?q))"
              "ftProcessed (markProcessed h (emitBatchedSeenCallbacks sha d regs h ?q)) = ftProcessed p + 1" for h
              by (simp_all add: sameTopics_def markProcessed_def emitBatchedSeenCallbacks_def Let_def split_def)
            then show thesis using ok all Inr by simp
          qed
        qed
      qed
    qed
  qed
qed


text \<open>
  The life of one announcement: handled in the first environment and, as long as a call puts it back on
  its topic, again in the next one. The second component is the message if it is still waiting.
\<close>

primrec driveSubtree ::
    "(string \<Rightarrow> 256 word) \<Rightarrow> ('k, 'b, 'r, 'e) fetchDeps list \<Rightarrow> SubtreeMessage \<Rightarrow> ('k, 'b, 'r) Fetcher
     \<Rightarrow> (('k, 'b, 'r) Fetcher \<times> SubtreeMessage option) go" where
  "driveSubtree sha [] msg p = Inr (p, Some msg)"
| "driveSubtree sha (e # es) msg p =
     go_bind (handleSubtree sha e (Inr msg) p) (\<lambda>(err, p').
       if err \<noteq> None then Inr (p', Some msg)
       else if length (ftRetries p') = length (ftRetries p) then Inr (p', None)
       else driveSubtree sha es (snd (last (ftRetries p'))) p')"

definition settledSubtree :: "int \<Rightarrow> SubtreeMessage \<Rightarrow> ('k, 'b, 'r) Fetcher \<Rightarrow> ('k, 'b, 'r) Fetcher \<Rightarrow> bool" where
  "settledSubtree M msg p p' \<longleftrightarrow>
     ftDlq p' = ftDlq p \<and> (ftProcessed p' = ftProcessed p + 1 \<or> (\<exists>c. ftDedup p' = Some c \<and> Contains (sm_Hash msg) c))
     \<or> ftDlq p' = ftDlq p @ [(sm_Hash msg, msg\<lparr>sm_AttemptCount := M\<rparr>)] \<and> ftProcessed p' = ftProcessed p"

lemma driveSubtree_settles:
  assumes "\<forall>e \<in> set es. fetchUp hf e \<and> fdMaxAttempts e = M" and "flagsOnly hf (ftCache p)" and "0 < M"
    and "sm_AttemptCount msg < M" and "length es = nat (M - sm_AttemptCount msg)"
  shows "\<exists>p'. driveSubtree sha es msg p = Inr (p', None) \<and> settledSubtree M msg p p'
     \<and> length (ftRetries p') < length (ftRetries p) + nat (M - sm_AttemptCount msg)"
  using assms
proof (induction es arbitrary: msg p)
  case (Cons e es)
  let ?n = "sm_AttemptCount msg + 1"
  have up: "fetchUp hf e" and M: "maxAttempts e = M" using Cons.prems(1,3) by (simp_all add: maxAttempts_def)
  show ?case
  proof (rule handleSubtree_cases [OF Cons.prems(2) up, of sha msg])
    fix c
    assume "handleSubtree sha e (Inr msg) p = Inr (None, p)" "ftDedup p = Some c" "Contains (sm_Hash msg) c"
    then show ?thesis using Cons.prems(4) by (simp add: settledSubtree_def)
  next
    fix p0
    assume "handleSubtree sha e (Inr msg) p = Inr (None, p0)" "sameTopics p p0" "ftProcessed p0 = ftProcessed p + 1"
    then show ?thesis using Cons.prems(4) by (simp add: settledSubtree_def sameTopics_def)
  next
    fix p0
    assume h: "handleSubtree sha e (Inr msg) p = Inr (handleTransientFailure e msg p0)" and p0: "flagsOnly hf (ftCache p0)"
      "sameTopics p p0" "ftProcessed p0 = ftProcessed p"
    show ?thesis
    proof (cases "M \<le> ?n")
      case True
      then have "?n = M" using Cons.prems(4) by simp
      then show ?thesis
        using h p0 up True Cons.prems(4)
        by (simp add: handleTransientFailure_def Let_def M fetchUp_def Publish_def settledSubtree_def sameTopics_def)
    next
      case False
      define p1 where "p1 = p0\<lparr>ftRetries := ftRetries p0 @ [(sm_Hash msg, msg\<lparr>sm_AttemptCount := ?n\<rparr>)], ftRetried := ftRetried p0 + 1\<rparr>"
      have h1: "handleSubtree sha e (Inr msg) p = Inr (None, p1)"
        using h up False by (simp add: handleTransientFailure_def Let_def M fetchUp_def Publish_def p1_def)
      have "length es = nat (M - sm_AttemptCount (msg\<lparr>sm_AttemptCount := ?n\<rparr>))" using Cons.prems(4,5) by simp
      then obtain p' where p': "driveSubtree sha es (msg\<lparr>sm_AttemptCount := ?n\<rparr>) p1 = Inr (p', None)"
        "settledSubtree M (msg\<lparr>sm_AttemptCount := ?n\<rparr>) p1 p'"
        "length (ftRetries p') < length (ftRetries p1) + nat (M - ?n)"
        using Cons.IH [of p1 "msg\<lparr>sm_AttemptCount := ?n\<rparr>"] Cons.prems(1,3) p0(1) False by (auto simp: p1_def)
      have "driveSubtree sha (e # es) msg p = Inr (p', None)"
        using h1 p'(1) p0(2) by (simp add: p1_def sameTopics_def)
      moreover have "settledSubtree M msg p p'" using p'(2) p0 by (simp add: settledSubtree_def p1_def sameTopics_def)
      moreover have "length (ftRetries p') < length (ftRetries p) + nat (M - sm_AttemptCount msg)"
        using p'(3) p0(2) False by (simp add: p1_def sameTopics_def)
      ultimately show ?thesis by blast
    qed
  qed
qed simp

text \<open>
  C22: A subtree announcement is never lost and never retried for ever. With the real cache and topics
  that accept messages, whatever the DataHub, the stores and the data do: a new announcement is
  settled after at most \<open>MaxAttempts\<close> calls. It was processed, or it is a known duplicate, or it is on the
  dead-letter topic with its attempts counted; it was put back on its own topic fewer than
  \<open>MaxAttempts\<close> times; and no call panics.
\<close>

theorem subtree_settles:
  assumes "\<forall>e \<in> set es. fetchUp hf e \<and> fdMaxAttempts e = M" and "flagsOnly hf (ftCache p)" and "0 < M"
    and "sm_AttemptCount msg = 0" and "length es = nat M"
  shows "\<exists>p'. driveSubtree sha es msg p = Inr (p', None) \<and> settledSubtree M msg p p'
     \<and> length (ftRetries p') < length (ftRetries p) + nat M"
  using driveSubtree_settles [OF assms(1-3), of msg] assms(3-5) by simp


text \<open>A new cache and a subtree of one registered txid, fetched at once; and a DataHub that is down.\<close>

lemma new_cache:
  "\<exists>rc. NewRegistrationCache (\<lambda>_. True) 1 = Inr (Inr rc) \<and> flagsOnly hf rc \<and> (\<forall>t. known hf rc t = None)"
proof -
  obtain c where c: "New (\<lambda>_. True) (1 * 1024 * 1024) Unallocated = Inr (Inr c)"
    using New_exists [of "1 * 1024 * 1024" Unallocated] by auto
  let ?rc = "RegistrationCache.make c"
  have ok: "rcOk hf ?rc (\<lambda>_. {})" using New_inv [OF c, of hf] by (simp add: rcOk_def RegistrationCache.make_def)
  then have "known hf ?rc t = None" for t using known_rcOk [OF ok, of t] by (cases "known hf ?rc t") auto
  moreover have "NewRegistrationCache (\<lambda>_. True) 1 = Inr (Inr ?rc)" using c by (simp add: NewRegistrationCache_def)
  ultimately show ?thesis using ok unfolding flagsOnly_def by blast
qed

definition hubNet :: "httpReply \<Rightarrow> net" where
  "hubNet reply = \<lparr>f2i = of_int, reqErr = (\<lambda>_. None), ctxDone = (\<lambda>_ _. None), http = (\<lambda>_ _. reply)\<rparr>"

definition keysOf :: "nat \<Rightarrow> (string \<rightharpoonup> string list) \<Rightarrow> string list" where
  "keysOf i g = sorted_list_of_set (dom g)"

definition exFetchOn :: "(string list \<Rightarrow> 'r \<Rightarrow> 'e + (string \<times> string list) list) \<Rightarrow> (string \<Rightarrow> string \<Rightarrow> 'r \<Rightarrow> ('e + IncrementResult) \<times> 'r)
    \<Rightarrow> httpReply \<Rightarrow> (RegistrationCache, MemoryBlobStore blobSubtreeStore, 'r, 'e) fetchDeps" where
  "exFetchOn batchGet increment reply = \<lparr>fdNet = hubNet reply, fdClient = NewClient 10 0, fdHashString = (\<lambda>h. hexEncode (rev h)), fdStorageMode = ''realtime'',
     fdMaxAttempts = 2, fdStoreSubtree = StoreSubtree memSet, fdRegCache = Some (realOps (\<lambda>_ _ _. True) (\<lambda>k. of_nat (length k))),
     fdBatchGet = (\<lambda>_. batchGet), fdIncrement = increment, fdRegOrd = (\<lambda>_. rev), fdUrls = keysOf,
     fdPublish = (\<lambda>_ _. None), fdRetryErr = None, fdDlqErr = None\<rparr>"

abbreviation exFetch :: "httpReply \<Rightarrow> (RegistrationCache, MemoryBlobStore blobSubtreeStore, db, sqlErr) fetchDeps" where
  "exFetch \<equiv> exFetchOn (regBatchGet rev None) (seenIncrement 1 None)"

definition exTx :: bytes where
  "exTx = replicate 32 7"

definition exFetcherOn :: "'r \<Rightarrow> RegistrationCache \<Rightarrow> (RegistrationCache, MemoryBlobStore blobSubtreeStore, 'r) Fetcher" where
  "exFetcherOn d rc = \<lparr>ftDedup = Some (NewDedupCache 10), ftCache = rc, ftSubtrees = NewSubtreeStore NewMemoryBlobStore 3,
     ftDb = d, ftCallbacks = [], ftRetries = [], ftDlq = [],
     ftProcessed = 0, ftRetried = 0, ftDLQd = 0\<rparr>"

abbreviation exFetcher :: "RegistrationCache \<Rightarrow> (RegistrationCache, MemoryBlobStore blobSubtreeStore, db) Fetcher" where
  "exFetcher \<equiv> exFetcherOn (emptyDb\<lparr>registration_urls := [(hexEncode (rev exTx), ''http://a'')]\<rparr>)"

definition exSubtreeMsg :: SubtreeMessage where
  "exSubtreeMsg = \<lparr>sm_Hash = ''5e'', sm_DataHubURL = ''http://hub'', sm_PeerID = '''', sm_ClientName = '''', sm_AttemptCount = 0\<rparr>"

lemma seenCountInv_fresh: "1 \<le> th \<Longrightarrow> seen_counters d = [] \<Longrightarrow> seen_counter_subtrees d = [] \<Longrightarrow> seenCountInv th d"
  by (simp add: seenCountInv_def firedIn_def subsOf_def)

lemma exRaw:
  "snd (FetchSubtreeRaw (fdNet (exFetchOn bg inc (Reply 200 exTx None))) (fdClient (exFetchOn bg inc (Reply 200 exTx None)))
     (sm_DataHubURL exSubtreeMsg) (sm_Hash exSubtreeMsg)) = Inr (concat [exTx])"
  by (simp add: FetchSubtreeRaw_def doGetWithRetry_def exFetchOn_def hubNet_def NewClient_def replyStep_def)

lemma keysOf_order: "keyOrder keysOf"
  by (simp add: keyOrder_def keysOf_def)

theorem seen_callbacks_exact_witness:
  "\<exists>rc p' seen multi. handleSubtree (\<lambda>_. 0) (exFetch (Reply 200 exTx None)) (Inr exSubtreeMsg) (exFetcher rc) = Inr (None, p')
     \<and> map snd (ftCallbacks p') = seen @ multi
     \<and> set (sentTo ''http://a'' seen) = {hexEncode (rev exTx)} \<and> set (sentTo ''http://a'' multi) = {hexEncode (rev exTx)}"
proof -
  let ?hf = "\<lambda>k :: bytes. of_nat (length k) :: u64" and ?d = "exFetch (Reply 200 exTx None)"
  obtain rc where rc: "flagsOnly ?hf rc" "\<forall>t. known ?hf rc t = None" using new_cache by blast
  let ?p = "exFetcher rc" and ?t = "hexEncode (rev exTx)"
  have "\<exists>p' seen multi. handleSubtree (\<lambda>_. 0) ?d (Inr exSubtreeMsg) ?p = Inr (None, p')
     \<and> map snd (ftCallbacks p') = map snd (ftCallbacks ?p) @ seen @ multi
     \<and> sentExactly (urlsIn (ftDb ?p)) ((\<lambda>h. hexEncode (rev h)) ` set [exTx]) CallbackSeenOnNetwork seen
     \<and> sentExactly (urlsIn (ftDb ?p)) {t \<in> (\<lambda>h. hexEncode (rev h)) ` set [exTx]. reaches 1 (sm_Hash exSubtreeMsg) (subsOf (ftDb ?p) t)} CallbackSeenMultipleNodes multi
     \<and> flagsOnly ?hf (ftCache p') \<and> cacheCoherent ?hf (ftCache p') (urlsIn (ftDb p'))"
    by (rule seen_callbacks_exact [where ro = rev, OF _ _ _ _ _ _ _ _ exRaw])
      (auto simp: row_order_def exFetchOn_def keysOf_order exTx_def exFetcherOn_def rc Contains_def NewDedupCache_def cacheCoherent_def
        regInv_def emptyDb_def StoreSubtree_def memSet_def Let_def split_def intro: seenCountInv_fresh)
  moreover have url: "urlsIn (ftDb ?p) ?t = {''http://a''}" by (auto simp: exFetcherOn_def urlsIn_def emptyDb_def)
  moreover have hit: "reaches 1 h (subsOf (ftDb ?p) ?t)" for h by (simp add: reaches_def firedIn_def subsOf_def exFetcherOn_def emptyDb_def)
  moreover have "ftCallbacks ?p = []" by (simp add: exFetcherOn_def)
  ultimately obtain p' seen multi where r: "handleSubtree (\<lambda>_. 0) ?d (Inr exSubtreeMsg) ?p = Inr (None, p')" "map snd (ftCallbacks p') = seen @ multi"
    "set (sentTo ''http://a'' seen) = {t \<in> (\<lambda>h. hexEncode (rev h)) ` set [exTx]. ''http://a'' \<in> urlsIn (ftDb ?p) t}"
    "set (sentTo ''http://a'' multi) = {t \<in> {t \<in> (\<lambda>h. hexEncode (rev h)) ` set [exTx]. reaches 1 (sm_Hash exSubtreeMsg) (subsOf (ftDb ?p) t)}. ''http://a'' \<in> urlsIn (ftDb ?p) t}"
    unfolding sentExactly_def by (auto simp only: list.map append_Nil)
  have "set (sentTo ''http://a'' seen) = {?t}" "set (sentTo ''http://a'' multi) = {?t}" using r(3,4) url hit by auto
  then show ?thesis using r(1,2) by blast
qed

theorem subtree_settles_witness:
  "\<exists>rc p'. driveSubtree (\<lambda>_. 0) [exFetch (TransportFailed ''down''), exFetch (TransportFailed ''down'')] exSubtreeMsg (exFetcher rc) = Inr (p', None)
     \<and> settledSubtree 2 exSubtreeMsg (exFetcher rc) p' \<and> length (ftRetries p') < 2"
proof -
  let ?hf = "\<lambda>k :: bytes. of_nat (length k) :: u64" and ?d = "exFetch (TransportFailed ''down'')"
  obtain rc where rc: "flagsOnly ?hf rc" using new_cache by blast
  have up: "\<forall>e \<in> set [?d, ?d]. fetchUp ?hf e \<and> fdMaxAttempts e = 2" by (auto simp: fetchUp_def exFetchOn_def)
  have "\<exists>p'. driveSubtree (\<lambda>_. 0) [?d, ?d] exSubtreeMsg (exFetcher rc) = Inr (p', None) \<and> settledSubtree 2 exSubtreeMsg (exFetcher rc) p'
      \<and> length (ftRetries p') < length (ftRetries (exFetcher rc)) + nat 2"
    by (rule subtree_settles [OF up]) (simp_all add: rc exFetcherOn_def exSubtreeMsg_def)
  moreover have "length (ftRetries (exFetcher rc)) + nat 2 = 2" by (simp add: exFetcherOn_def)
  ultimately show ?thesis by metis
qed

end
