(* ===== verification/Aerospike.thy ===== *)
theory Aerospike
  imports Sql_Stores
begin

text \<open>
  The stores on Aerospike (internal/store/registration.go, seen_counter.go, subtree_counter.go,
  callback_dedup.go, callback_url_registry.go, callback_accumulator.go, aerospike.go). The Aerospike
  client library is not part of the repository: it is the parameter \<open>asClient\<close>, a record of the
  calls the stores make, over an arbitrary state \<open>'c\<close> of the cluster. What the stores rely on is stated
  in the locale \<open>aerospike\<close>: a call is atomic on one record, a call that fails may have been applied or
  not, and a call that is retried by the client may be applied up to once per attempt.
\<close>

section \<open>The client library\<close>

text \<open>The values a bin can hold, and what the type assertions of the stores tell apart.\<close>

datatype asValue = AInt int | AStr string | ABytes bytes | AList "asValue list" | AMap "(asValue \<times> asValue) list"

type_synonym asBins = "string \<rightharpoonup> asValue"

text \<open>Namespace, set and user key.\<close>

type_synonym asKey = "string \<times> string \<times> string"

datatype asErr = KEY_NOT_FOUND_ERROR | FAIL_FORBIDDEN | AsErr string

datatype asExistsAction = UPDATE | UPDATE_ONLY

record asWritePolicy =
  wpMaxRetries :: int
  wpSleepBetweenRetries :: int
  wpRecordExistsAction :: asExistsAction
  wpExpiration :: u32

record asBatchPolicy =
  bpMaxRetries :: int
  bpSleepBetweenRetries :: int

datatype asListOrder = ListOrderUnordered | ListOrderOrdered

datatype asListFlag = ListWriteFlagsAddUnique | ListWriteFlagsNoFail

datatype asOperation =
    ListAppendWithPolicyOp asListOrder "asListFlag list" string asValue
  | ListAppendOp string asValue
  | ListSizeOp string
  | GetBinOp string
  | AddOp string int
  | GetOp
  | TouchOp

record 'c asClient =
  asNewKey :: "string \<Rightarrow> string \<Rightarrow> string \<Rightarrow> asErr + asKey"
  asNewWritePolicy :: asWritePolicy
  asNewBatchPolicy :: asBatchPolicy
  asOperate :: "asWritePolicy \<Rightarrow> asKey \<Rightarrow> asOperation list \<Rightarrow> 'c \<Rightarrow> (asErr + asBins) \<times> 'c"
  asPut :: "asWritePolicy \<Rightarrow> asKey \<Rightarrow> (string \<times> asValue) list \<Rightarrow> 'c \<Rightarrow> asErr option \<times> 'c"
  asDelete :: "asWritePolicy \<Rightarrow> asKey \<Rightarrow> 'c \<Rightarrow> asErr option \<times> 'c"
  asGet :: "asKey \<Rightarrow> string \<Rightarrow> 'c \<Rightarrow> asErr + asBins option"
  asBatchGet :: "asBatchPolicy \<Rightarrow> asKey list \<Rightarrow> string \<Rightarrow> 'c \<Rightarrow> asErr + asBins option list"
  asExists :: "asKey \<Rightarrow> 'c \<Rightarrow> asErr + bool"
  asIsConnected :: "'c \<Rightarrow> bool"

section \<open>The wrapper and the stores\<close>

record 'c AerospikeClient =
  ac_client :: "'c asClient"
  ac_namespace :: string

definition AsHealthy :: "'c AerospikeClient \<Rightarrow> 'c \<Rightarrow> bool" where
  "AsHealthy ac c = asIsConnected (ac_client ac) c"

definition WritePolicy :: "'c AerospikeClient \<Rightarrow> int \<Rightarrow> int \<Rightarrow> asWritePolicy" where
  "WritePolicy ac maxRetries retryBaseMs =
     (asNewWritePolicy (ac_client ac))\<lparr>wpMaxRetries := maxRetries, wpSleepBetweenRetries := retryBaseMs * 1000000\<rparr>"

definition BatchPolicy :: "'c AerospikeClient \<Rightarrow> int \<Rightarrow> int \<Rightarrow> asBatchPolicy" where
  "BatchPolicy ac maxRetries retryBaseMs =
     (asNewBatchPolicy (ac_client ac))\<lparr>bpMaxRetries := maxRetries, bpSleepBetweenRetries := retryBaseMs * 1000000\<rparr>"

text \<open>
  The fields the stores share; the counter and the accumulator have a time to live in seconds besides,
  the seen counter has its threshold.
\<close>

record 'c aerospikeStore =
  as_client :: "'c AerospikeClient"
  as_setName :: string
  as_maxRetries :: int
  as_retryBaseMs :: int

record 'c aerospikeTtlStore = "'c aerospikeStore" +
  as_ttlSec :: int

record 'c aerospikeSeenCounter = "'c aerospikeStore" +
  as_threshold :: int

datatype asStoreErr = ECreateKey asErr | EClient asErr | EUnexpectedType

definition storeKey :: "('c, 'x) aerospikeStore_scheme \<Rightarrow> string \<Rightarrow> asErr + asKey" where
  "storeKey s k = asNewKey (ac_client (as_client s)) (ac_namespace (as_client s)) (as_setName s) k"

definition storePolicy :: "('c, 'x) aerospikeStore_scheme \<Rightarrow> asWritePolicy" where
  "storePolicy s = WritePolicy (as_client s) (as_maxRetries s) (as_retryBaseMs s)"

definition seconds32 :: "int \<Rightarrow> u32" where
  "seconds32 ttl = word_of_int (ttl div 1000000000)"

text \<open>The strings of a list value.\<close>

fun stringsOf :: "asValue list \<Rightarrow> string list" where
  "stringsOf [] = []"
| "stringsOf (AStr s # vs) = s # stringsOf vs"
| "stringsOf (_ # vs) = stringsOf vs"

subsection \<open>Registrations\<close>

definition callbacksBin :: string where
  "callbacksBin = ''callbacks''"

text \<open>The append that both the registrations and the URL registry use.\<close>

definition asSetInsert ::
    "('c, 'x) aerospikeStore_scheme \<Rightarrow> string \<Rightarrow> string \<Rightarrow> string \<Rightarrow> 'c \<Rightarrow> (asStoreErr + unit) \<times> 'c" where
  "asSetInsert s userKey bin v c = (case storeKey s userKey of
      Inl err \<Rightarrow> (Inl (ECreateKey err), c)
    | Inr key \<Rightarrow>
        (let wp = (storePolicy s)\<lparr>wpRecordExistsAction := UPDATE\<rparr>;
             ops = [ListAppendWithPolicyOp ListOrderOrdered [ListWriteFlagsAddUnique, ListWriteFlagsNoFail] bin (AStr v)]
         in case asOperate (ac_client (as_client s)) wp key ops c of
              (Inl err, c) \<Rightarrow> (Inl (EClient err), c)
            | (Inr _, c) \<Rightarrow> (Inr (), c)))"

text \<open>Reading such a list; \<open>None\<close> is a nil slice.\<close>

definition asSetRead ::
    "('c, 'x) aerospikeStore_scheme \<Rightarrow> string \<Rightarrow> string \<Rightarrow> 'c \<Rightarrow> asStoreErr + string list option" where
  "asSetRead s userKey bin c = (case storeKey s userKey of
      Inl err \<Rightarrow> Inl (ECreateKey err)
    | Inr key \<Rightarrow> (case asGet (ac_client (as_client s)) key bin c of
        Inl err \<Rightarrow> Inl (EClient err)
      | Inr None \<Rightarrow> Inr None
      | Inr (Some bins) \<Rightarrow> (case bins bin of
          None \<Rightarrow> Inr None
        | Some (AList vs) \<Rightarrow> Inr (Some (stringsOf vs))
        | Some _ \<Rightarrow> Inl EUnexpectedType)))"

definition asRegAdd :: "('c, 'x) aerospikeStore_scheme \<Rightarrow> string \<Rightarrow> string \<Rightarrow> 'c \<Rightarrow> (asStoreErr + unit) \<times> 'c" where
  "asRegAdd s txid callbackURL = asSetInsert s txid callbacksBin callbackURL"

definition asRegGet :: "('c, 'x) aerospikeStore_scheme \<Rightarrow> string \<Rightarrow> 'c \<Rightarrow> asStoreErr + string list option" where
  "asRegGet s txid = asSetRead s txid callbacksBin"

text \<open>The loop that makes the keys; the first error ends it.\<close>

fun batchKeys :: "('c, 'x) aerospikeStore_scheme \<Rightarrow> string list \<Rightarrow> asErr + asKey list" where
  "batchKeys s [] = Inr []"
| "batchKeys s (txid # txids) = (case storeKey s txid of
      Inl err \<Rightarrow> Inl err
    | Inr key \<Rightarrow> (case batchKeys s txids of Inl err \<Rightarrow> Inl err | Inr keys \<Rightarrow> Inr (key # keys)))"

text \<open>The loop over the records, of which the client returns one for each key.\<close>

definition addRecord :: "string \<times> asBins option \<Rightarrow> (string \<times> string list) list \<Rightarrow> (string \<times> string list) list" where
  "addRecord r result = (case snd r of
      None \<Rightarrow> result
    | Some bins \<Rightarrow> (case bins callbacksBin of
        Some (AList vs) \<Rightarrow> (let urls = stringsOf vs in if urls \<noteq> [] then AList.update (fst r) urls result else result)
      | _ \<Rightarrow> result))"

definition asRegBatchGet ::
    "('c, 'x) aerospikeStore_scheme \<Rightarrow> string list \<Rightarrow> 'c \<Rightarrow> asStoreErr + (string \<times> string list) list" where
  "asRegBatchGet s txids c =
     (if txids = [] then Inr []
      else (case batchKeys s txids of
          Inl err \<Rightarrow> Inl (ECreateKey err)
        | Inr keys \<Rightarrow>
            (let bp = BatchPolicy (as_client s) (as_maxRetries s) (as_retryBaseMs s)
             in case asBatchGet (ac_client (as_client s)) bp keys callbacksBin c of
                  Inl err \<Rightarrow> Inl (EClient err)
                | Inr records \<Rightarrow> Inr (fold addRecord (zip txids records) []))))"

text \<open>A time to live is in nanoseconds; the policy has whole seconds in 32 bits.\<close>

definition asRegUpdateTTL :: "('c, 'x) aerospikeStore_scheme \<Rightarrow> string \<Rightarrow> int \<Rightarrow> 'c \<Rightarrow> (asStoreErr + unit) \<times> 'c" where
  "asRegUpdateTTL s txid ttl c = (case storeKey s txid of
      Inl err \<Rightarrow> (Inl (ECreateKey err), c)
    | Inr key \<Rightarrow>
        (let wp = (storePolicy s)\<lparr>wpExpiration := seconds32 ttl\<rparr>
         in case asOperate (ac_client (as_client s)) wp key [TouchOp] c of
              (Inl err, c) \<Rightarrow> (Inl (EClient err), c)
            | (Inr _, c) \<Rightarrow> (Inr (), c)))"

text \<open>A failing update is logged and skipped.\<close>

definition asRegBatchUpdateTTL :: "('c, 'x) aerospikeStore_scheme \<Rightarrow> string list \<Rightarrow> int \<Rightarrow> 'c \<Rightarrow> (asStoreErr + unit) \<times> 'c" where
  "asRegBatchUpdateTTL s txids ttl c = (Inr (), fold (\<lambda>txid c. snd (asRegUpdateTTL s txid ttl c)) txids c)"

subsection \<open>URL registry\<close>

definition callbackURLRegistryKey :: string where
  "callbackURLRegistryKey = ''__all_urls__''"

definition callbackURLsBin :: string where
  "callbackURLsBin = ''urls''"

definition asUrlAdd :: "('c, 'x) aerospikeStore_scheme \<Rightarrow> string \<Rightarrow> 'c \<Rightarrow> (asStoreErr + unit) \<times> 'c" where
  "asUrlAdd r callbackURL = asSetInsert r callbackURLRegistryKey callbackURLsBin callbackURL"

definition asUrlGetAll :: "('c, 'x) aerospikeStore_scheme \<Rightarrow> 'c \<Rightarrow> asStoreErr + string list option" where
  "asUrlGetAll r = asSetRead r callbackURLRegistryKey callbackURLsBin"

subsection \<open>Callback deduplication\<close>

definition dedupMarkerBin :: string where
  "dedupMarkerBin = ''d''"

definition asDedupExists ::
    "(string \<Rightarrow> 256 word) \<Rightarrow> ('c, 'x) aerospikeStore_scheme \<Rightarrow> string \<Rightarrow> string \<Rightarrow> string \<Rightarrow> 'c \<Rightarrow> asStoreErr + bool" where
  "asDedupExists sha256 s txid callbackURL statusType c =
     (case storeKey s (dedupKey sha256 txid callbackURL statusType) of
        Inl err \<Rightarrow> Inl (ECreateKey err)
      | Inr key \<Rightarrow> (case asExists (ac_client (as_client s)) key c of
          Inl err \<Rightarrow> Inl (EClient err)
        | Inr ex \<Rightarrow> Inr ex))"

definition asDedupRecord ::
    "(string \<Rightarrow> 256 word) \<Rightarrow> ('c, 'x) aerospikeStore_scheme \<Rightarrow> string \<Rightarrow> string \<Rightarrow> string \<Rightarrow> int \<Rightarrow> 'c \<Rightarrow> (asStoreErr + unit) \<times> 'c" where
  "asDedupRecord sha256 s txid callbackURL statusType ttl c =
     (case storeKey s (dedupKey sha256 txid callbackURL statusType) of
        Inl err \<Rightarrow> (Inl (ECreateKey err), c)
      | Inr key \<Rightarrow>
          (let wp = (if ttl > 0 then (storePolicy s)\<lparr>wpExpiration := seconds32 ttl\<rparr> else storePolicy s);
               bins = [(dedupMarkerBin, AInt 1)]
           in case asPut (ac_client (as_client s)) wp key bins c of
                (None, c) \<Rightarrow> (Inr (), c)
              | (Some err, c) \<Rightarrow>
                  if err = FAIL_FORBIDDEN \<and> ttl > 0 then
                    (case asPut (ac_client (as_client s)) (storePolicy s) key bins c of
                       (Some err2, c) \<Rightarrow> (Inl (EClient err2), c)
                     | (None, c) \<Rightarrow> (Inr (), c))
                  else (Inl (EClient err), c)))"

subsection \<open>Seen counter\<close>

definition seenSubtreesBin :: string where
  "seenSubtreesBin = ''subtrees''"

definition seenThresholdFired :: string where
  "seenThresholdFired = ''tfired''"

text \<open>The size after the append, out of the results of the operations.\<close>

definition newSizeOf :: "asBins \<Rightarrow> asStoreErr + int" where
  "newSizeOf bins = (case bins seenSubtreesBin of
      Some (AInt v) \<Rightarrow> Inr v
    | Some (AList v) \<Rightarrow>
        if length v < 2 then Inl EUnexpectedType
        else (case v ! 1 of AInt sz \<Rightarrow> Inr sz | _ \<Rightarrow> Inl EUnexpectedType)
    | _ \<Rightarrow> Inl EUnexpectedType)"

text \<open>
  \<open>Increment\<close> is two calls, between which other clients may run: \<open>seenOperate\<close> appends and reads,
  \<open>seenMark\<close> sets the flag when the threshold is reached. The error of the second call is ignored.
\<close>

definition seenOperate ::
    "('c, 'x) aerospikeSeenCounter_scheme \<Rightarrow> asKey \<Rightarrow> string \<Rightarrow> 'c \<Rightarrow> (asStoreErr + IncrementResult) \<times> 'c" where
  "seenOperate s key subtreeID c =
     (let wp = (storePolicy s)\<lparr>wpRecordExistsAction := UPDATE\<rparr>;
          ops = [ListAppendWithPolicyOp ListOrderUnordered [ListWriteFlagsAddUnique, ListWriteFlagsNoFail] seenSubtreesBin (AStr subtreeID),
                 ListSizeOp seenSubtreesBin, GetBinOp seenThresholdFired]
      in case asOperate (ac_client (as_client s)) wp key ops c of
           (Inl err, c) \<Rightarrow> (Inl (EClient err), c)
         | (Inr bins, c) \<Rightarrow> (case newSizeOf bins of
             Inl err \<Rightarrow> (Inl err, c)
           | Inr newSize \<Rightarrow>
               (let alreadyFired = (bins seenThresholdFired = Some (AInt 1))
                in (Inr \<lparr>NewCount = nat newSize, ThresholdReached = (newSize \<ge> as_threshold s \<and> \<not> alreadyFired)\<rparr>, c))))"

definition seenMark :: "('c, 'x) aerospikeSeenCounter_scheme \<Rightarrow> asKey \<Rightarrow> IncrementResult \<Rightarrow> 'c \<Rightarrow> 'c" where
  "seenMark s key r c =
     (if ThresholdReached r
      then snd (asPut (ac_client (as_client s)) ((storePolicy s)\<lparr>wpRecordExistsAction := UPDATE\<rparr>) key [(seenThresholdFired, AInt 1)] c)
      else c)"

definition asSeenIncrement ::
    "('c, 'x) aerospikeSeenCounter_scheme \<Rightarrow> string \<Rightarrow> string \<Rightarrow> 'c \<Rightarrow> (asStoreErr + IncrementResult) \<times> 'c" where
  "asSeenIncrement s txid subtreeID c = (case storeKey s txid of
      Inl err \<Rightarrow> (Inl (ECreateKey err), c)
    | Inr key \<Rightarrow> (case seenOperate s key subtreeID c of
        (Inl err, c) \<Rightarrow> (Inl err, c)
      | (Inr r, c) \<Rightarrow> (Inr r, seenMark s key r c)))"

subsection \<open>Subtree counter\<close>

definition subtreeCounterBin :: string where
  "subtreeCounterBin = ''remaining''"

definition asCounterInit :: "('c, 'x) aerospikeTtlStore_scheme \<Rightarrow> string \<Rightarrow> int \<Rightarrow> 'c \<Rightarrow> (asStoreErr + unit) \<times> 'c" where
  "asCounterInit s blockHash cnt c = (case storeKey s blockHash of
      Inl err \<Rightarrow> (Inl (ECreateKey err), c)
    | Inr key \<Rightarrow>
        (let wp = (storePolicy s)\<lparr>wpRecordExistsAction := UPDATE, wpExpiration := word_of_int (as_ttlSec s)\<rparr>
         in case asPut (ac_client (as_client s)) wp key [(subtreeCounterBin, AInt cnt)] c of
              (Some err, c) \<Rightarrow> (Inl (EClient err), c)
            | (None, c) \<Rightarrow> (Inr (), c)))"

definition asCounterDecrement :: "('c, 'x) aerospikeTtlStore_scheme \<Rightarrow> string \<Rightarrow> 'c \<Rightarrow> (asStoreErr + int) \<times> 'c" where
  "asCounterDecrement s blockHash c = (case storeKey s blockHash of
      Inl err \<Rightarrow> (Inl (ECreateKey err), c)
    | Inr key \<Rightarrow>
        (let wp = (storePolicy s)\<lparr>wpRecordExistsAction := UPDATE_ONLY\<rparr>
         in case asOperate (ac_client (as_client s)) wp key [AddOp subtreeCounterBin (- 1), GetOp] c of
              (Inl err, c) \<Rightarrow> (Inl (EClient err), c)
            | (Inr bins, c) \<Rightarrow> (case bins subtreeCounterBin of
                Some (AInt v) \<Rightarrow> (Inr v, c)
              | _ \<Rightarrow> (Inl EUnexpectedType, c))))"

subsection \<open>Callback accumulator\<close>

definition accumEntriesBin :: string where
  "accumEntriesBin = ''entries''"

definition entryValue :: "string \<Rightarrow> string list \<Rightarrow> int \<Rightarrow> bytes \<Rightarrow> asValue" where
  "entryValue callbackURL txids subtreeIndex stumpData =
     AMap [(AStr ''u'', AStr callbackURL), (AStr ''t'', AList (map AStr txids)), (AStr ''i'', AInt subtreeIndex),
           (AStr ''s'', ABytes stumpData)]"

definition asAccAppend ::
    "('c, 'x) aerospikeTtlStore_scheme \<Rightarrow> string \<Rightarrow> string \<Rightarrow> string list \<Rightarrow> int \<Rightarrow> bytes \<Rightarrow> 'c \<Rightarrow> (asStoreErr + unit) \<times> 'c" where
  "asAccAppend s blockHash callbackURL txids subtreeIndex stumpData c = (case storeKey s blockHash of
      Inl err \<Rightarrow> (Inl (ECreateKey err), c)
    | Inr key \<Rightarrow>
        (let wp = (storePolicy s)\<lparr>wpRecordExistsAction := UPDATE, wpExpiration := word_of_int (as_ttlSec s)\<rparr>
         in case asOperate (ac_client (as_client s)) wp key
                   [ListAppendOp accumEntriesBin (entryValue callbackURL txids subtreeIndex stumpData)] c of
              (Inl err, c) \<Rightarrow> (Inl (EClient err), c)
            | (Inr _, c) \<Rightarrow> (Inr (), c)))"

text \<open>One item of the list; an item that is not a map or has no URL is skipped.\<close>

definition parseEntry :: "(asValue \<times> asValue) list \<Rightarrow> AccumulatedCallbackEntry" where
  "parseEntry em =
     \<lparr>acc_TxIDs = (case map_of em (AStr ''t'') of Some (AList vs) \<Rightarrow> stringsOf vs | _ \<Rightarrow> []),
      acc_SubtreeIndex = (case map_of em (AStr ''i'') of Some (AInt i) \<Rightarrow> i | _ \<Rightarrow> 0),
      acc_StumpData = (case map_of em (AStr ''s'') of Some (ABytes d) \<Rightarrow> d | _ \<Rightarrow> [])\<rparr>"

definition addItem ::
    "asValue \<Rightarrow> (string \<times> AccumulatedCallbackEntry list) list \<Rightarrow> (string \<times> AccumulatedCallbackEntry list) list" where
  "addItem item result = (case item of
      AMap em \<Rightarrow>
        (let url = (case map_of em (AStr ''u'') of Some (AStr u) \<Rightarrow> u | _ \<Rightarrow> '''')
         in if url = '''' then result
            else AList.update url ((case map_of result url of None \<Rightarrow> [] | Some es \<Rightarrow> es) @ [parseEntry em]) result)
    | _ \<Rightarrow> result)"

text \<open>A failing delete is logged. \<open>None\<close> is a nil map.\<close>

definition asAccReadAndDelete ::
    "('c, 'x) aerospikeTtlStore_scheme \<Rightarrow> string \<Rightarrow> 'c
     \<Rightarrow> (asStoreErr + (string \<times> AccumulatedCallbackEntry list) list option) \<times> 'c" where
  "asAccReadAndDelete s blockHash c = (case storeKey s blockHash of
      Inl err \<Rightarrow> (Inl (ECreateKey err), c)
    | Inr key \<Rightarrow> (case asGet (ac_client (as_client s)) key accumEntriesBin c of
        Inl err \<Rightarrow> (if err = KEY_NOT_FOUND_ERROR then Inr None else Inl (EClient err), c)
      | Inr None \<Rightarrow> (Inr None, c)
      | Inr (Some bins) \<Rightarrow>
          (let c = snd (asDelete (ac_client (as_client s)) (storePolicy s) key c)
           in case bins accumEntriesBin of
                None \<Rightarrow> (Inr None, c)
              | Some (AList vs) \<Rightarrow> (Inr (Some (fold addItem vs [])), c)
              | Some _ \<Rightarrow> (Inl EUnexpectedType, c))))"

section \<open>Documented behaviour of the client library\<close>

text \<open>
  What one operation does to the bins of a record, and the results it returns. A list with order or
  with the unique flag keeps its elements, in an order the stores do not rely on.
\<close>

definition listIn :: "asBins \<Rightarrow> string \<Rightarrow> asValue list option" where
  "listIn b bin = (case b bin of None \<Rightarrow> Some [] | Some (AList vs) \<Rightarrow> Some vs | Some _ \<Rightarrow> None)"

fun docOp :: "asOperation \<Rightarrow> asBins \<Rightarrow> (string \<times> asValue) list \<Rightarrow> asBins \<Rightarrow> bool" where
  "docOp (ListAppendWithPolicyOp ord flags bin v) b res b' \<longleftrightarrow>
     (\<exists>vs vs'. listIn b bin = Some vs \<and> b' = b(bin \<mapsto> AList vs') \<and> res = [(bin, AInt (int (length vs')))]
        \<and> (if v \<in> set vs \<and> ListWriteFlagsAddUnique \<in> set flags
           then ListWriteFlagsNoFail \<in> set flags \<and> mset vs' = mset vs else mset vs' = add_mset v (mset vs)))"
| "docOp (ListAppendOp bin v) b res b' \<longleftrightarrow>
     (\<exists>vs. listIn b bin = Some vs \<and> b' = b(bin \<mapsto> AList (vs @ [v])) \<and> res = [(bin, AInt (int (length vs) + 1))])"
| "docOp (ListSizeOp bin) b res b' \<longleftrightarrow> (\<exists>vs. b bin = Some (AList vs) \<and> b' = b \<and> res = [(bin, AInt (int (length vs)))])"
| "docOp (GetBinOp bin) b res b' \<longleftrightarrow> b' = b \<and> res = (case b bin of None \<Rightarrow> [] | Some v \<Rightarrow> [(bin, v)])"
| "docOp (AddOp bin n) b res b' \<longleftrightarrow>
     (\<exists>i. b bin = Some (AInt i) \<and> b' = b(bin \<mapsto> AInt (i + n)) \<or> b bin = None \<and> i = 0 \<and> b' = b(bin \<mapsto> AInt n)) \<and> res = []"
| "docOp GetOp b res b' \<longleftrightarrow> b' = b \<and> distinct (map fst res) \<and> map_of res = b"
| "docOp TouchOp b res b' \<longleftrightarrow> b' = b \<and> res = []"

primrec docOps :: "asOperation list \<Rightarrow> asBins \<Rightarrow> (string \<times> asValue) list \<Rightarrow> asBins \<Rightarrow> bool" where
  "docOps [] b res b' \<longleftrightarrow> b' = b \<and> res = []"
| "docOps (op # ops) b res b' \<longleftrightarrow> (\<exists>r1 b1 r2. docOp op b r1 b1 \<and> docOps ops b1 r2 b' \<and> res = r1 @ r2)"

text \<open>A call that is applied \<open>n\<close> times before the attempt that is answered: the replies were lost.\<close>

primrec docRuns :: "nat \<Rightarrow> asOperation list \<Rightarrow> asBins \<Rightarrow> (string \<times> asValue) list \<Rightarrow> asBins \<Rightarrow> bool" where
  "docRuns 0 ops b res b' \<longleftrightarrow> docOps ops b res b'"
| "docRuns (Suc n) ops b res b' \<longleftrightarrow> (\<exists>r1 b1. docOps ops b r1 b1 \<and> docRuns n ops b1 res b')"

text \<open>The record a call returns: several results for one bin become a list.\<close>

definition opResults :: "(string \<times> asValue) list \<Rightarrow> asBins" where
  "opResults res bin = (case map snd (filter (\<lambda>r. fst r = bin) res) of [] \<Rightarrow> None | [v] \<Rightarrow> Some v | vs \<Rightarrow> Some (AList vs))"

definition binsOf :: "asBins option \<Rightarrow> asBins" where
  "binsOf r = (case r of None \<Rightarrow> Map.empty | Some b \<Rightarrow> b)"

definition opApplied ::
    "('c \<Rightarrow> asKey \<Rightarrow> asBins option) \<Rightarrow> asWritePolicy \<Rightarrow> asKey \<Rightarrow> asOperation list \<Rightarrow> 'c \<Rightarrow> (string \<times> asValue) list \<Rightarrow> 'c \<Rightarrow> bool" where
  "opApplied recs wp key ops c res c' \<longleftrightarrow> (wpRecordExistsAction wp = UPDATE_ONLY \<longrightarrow> recs c key \<noteq> None)
     \<and> (\<exists>n b. n \<le> nat (wpMaxRetries wp) \<and> docRuns n ops (binsOf (recs c key)) res b \<and> recs c' = (recs c)(key \<mapsto> b))"

definition readsBin :: "asBins option \<Rightarrow> string \<Rightarrow> asBins option \<Rightarrow> bool" where
  "readsBin stored bin r = (case stored of None \<Rightarrow> r = None | Some b \<Rightarrow> (\<exists>r'. r = Some r' \<and> r' bin = b bin))"

locale aerospike =
  fixes as :: "'c asClient" and recs :: "'c \<Rightarrow> asKey \<Rightarrow> asBins option"
  assumes new_key: "asNewKey as ns st k = Inr (ns, st, k)"
    and operate: "asOperate as wp key ops c = (Inr r, c') \<Longrightarrow> \<exists>res. opApplied recs wp key ops c res c' \<and> r = opResults res"
    and operate_failed: "asOperate as wp key ops c = (Inl e, c') \<Longrightarrow> recs c' = recs c \<or> (\<exists>res. opApplied recs wp key ops c res c')"
    and put: "asPut as wp key bs c = (None, c') \<Longrightarrow> recs c' = (recs c)(key \<mapsto> binsOf (recs c key) ++ map_of bs)"
    and put_failed: "asPut as wp key bs c = (Some e, c') \<Longrightarrow>
        recs c' = recs c \<or> recs c' = (recs c)(key \<mapsto> binsOf (recs c key) ++ map_of bs)"
    and delete: "asDelete as wp key c = (None, c') \<Longrightarrow> recs c' = (recs c)(key := None)"
    and delete_failed: "asDelete as wp key c = (Some e, c') \<Longrightarrow> recs c' = recs c \<or> recs c' = (recs c)(key := None)"
    and get: "asGet as key bin c = Inr ro \<Longrightarrow> readsBin (recs c key) bin ro"
    and get_missing: "asGet as key bin c = Inl KEY_NOT_FOUND_ERROR \<Longrightarrow> recs c key = None"
    and batch_get: "asBatchGet as bp keys bin c = Inr rs \<Longrightarrow> list_all2 (\<lambda>key r. readsBin (recs c key) bin r) keys rs"
    and exist: "asExists as key c = Inr ex \<Longrightarrow> ex \<longleftrightarrow> recs c key \<noteq> None"

text \<open>
  A client that does what is documented, on a cluster that is a list of records. The argument
  \<open>lost\<close> says how many replies are lost before one gets through.
\<close>

type_synonym cluster = "(asKey \<times> (string \<times> asValue) list) list"

definition clusterRecs :: "cluster \<Rightarrow> asKey \<Rightarrow> asBins option" where
  "clusterRecs c key = map_option map_of (map_of c key)"

fun runOp :: "asOperation \<Rightarrow> (string \<times> asValue) list \<Rightarrow> ((string \<times> asValue) list \<times> (string \<times> asValue) list) option" where
  "runOp (ListAppendWithPolicyOp ord flags bin v) b = (case listIn (map_of b) bin of
      None \<Rightarrow> None
    | Some vs \<Rightarrow>
        if v \<in> set vs \<and> ListWriteFlagsAddUnique \<in> set flags
        then (if ListWriteFlagsNoFail \<in> set flags then Some ([(bin, AInt (int (length vs)))], AList.update bin (AList vs) b) else None)
        else Some ([(bin, AInt (int (length vs) + 1))], AList.update bin (AList (vs @ [v])) b))"
| "runOp (ListAppendOp bin v) b = (case listIn (map_of b) bin of
      None \<Rightarrow> None | Some vs \<Rightarrow> Some ([(bin, AInt (int (length vs) + 1))], AList.update bin (AList (vs @ [v])) b))"
| "runOp (ListSizeOp bin) b = (case map_of b bin of Some (AList vs) \<Rightarrow> Some ([(bin, AInt (int (length vs)))], b) | _ \<Rightarrow> None)"
| "runOp (GetBinOp bin) b = Some (case map_of b bin of None \<Rightarrow> [] | Some v \<Rightarrow> [(bin, v)], b)"
| "runOp (AddOp bin n) b = (case map_of b bin of
      None \<Rightarrow> Some ([], AList.update bin (AInt n) b) | Some (AInt i) \<Rightarrow> Some ([], AList.update bin (AInt (i + n)) b) | Some _ \<Rightarrow> None)"
| "runOp GetOp b = Some (AList.clearjunk b, b)"
| "runOp TouchOp b = Some ([], b)"

primrec runOps :: "asOperation list \<Rightarrow> (string \<times> asValue) list \<Rightarrow> ((string \<times> asValue) list \<times> (string \<times> asValue) list) option" where
  "runOps [] b = Some ([], b)"
| "runOps (op # ops) b = (case runOp op b of
      None \<Rightarrow> None
    | Some (r1, b1) \<Rightarrow> (case runOps ops b1 of None \<Rightarrow> None | Some (r2, b2) \<Rightarrow> Some (r1 @ r2, b2)))"

primrec runRuns :: "nat \<Rightarrow> asOperation list \<Rightarrow> (string \<times> asValue) list \<Rightarrow> ((string \<times> asValue) list \<times> (string \<times> asValue) list) option" where
  "runRuns 0 ops b = runOps ops b"
| "runRuns (Suc n) ops b = (case runOps ops b of None \<Rightarrow> None | Some (r1, b1) \<Rightarrow> runRuns n ops b1)"

definition storedBins :: "cluster \<Rightarrow> asKey \<Rightarrow> (string \<times> asValue) list" where
  "storedBins c key = (case map_of c key of None \<Rightarrow> [] | Some b \<Rightarrow> b)"

definition clusterOperate :: "nat \<Rightarrow> asWritePolicy \<Rightarrow> asKey \<Rightarrow> asOperation list \<Rightarrow> cluster \<Rightarrow> (asErr + asBins) \<times> cluster" where
  "clusterOperate lost wp key ops c =
     (if wpRecordExistsAction wp = UPDATE_ONLY \<and> map_of c key = None then (Inl KEY_NOT_FOUND_ERROR, c)
      else (case runRuns (min lost (nat (wpMaxRetries wp))) ops (storedBins c key) of
          None \<Rightarrow> (Inl (AsErr ''bin type''), c)
        | Some (res, b) \<Rightarrow> (Inr (opResults res), AList.update key b c)))"

definition cluster :: "nat \<Rightarrow> cluster asClient" where
  "cluster lost =
     \<lparr>asNewKey = \<lambda>ns st k. Inr (ns, st, k),
      asNewWritePolicy = \<lparr>wpMaxRetries = 0, wpSleepBetweenRetries = 0, wpRecordExistsAction = UPDATE, wpExpiration = 0\<rparr>,
      asNewBatchPolicy = \<lparr>bpMaxRetries = 2, bpSleepBetweenRetries = 0\<rparr>,
      asOperate = clusterOperate lost,
      asPut = \<lambda>wp key bs c. (None, AList.update key (fold (\<lambda>(bin, v). AList.update bin v) (rev bs) (storedBins c key)) c),
      asDelete = \<lambda>wp key c. (None, AList.delete key c),
      asGet = \<lambda>key bin c. (case map_of c key of None \<Rightarrow> Inl KEY_NOT_FOUND_ERROR | Some b \<Rightarrow> Inr (Some (map_of b))),
      asBatchGet = \<lambda>bp keys bin c. Inr (map (\<lambda>key. map_option map_of (map_of c key)) keys),
      asExists = \<lambda>key c. Inr (map_of c key \<noteq> None),
      asIsConnected = \<lambda>c. True\<rparr>"

lemma runOp_doc: "runOp op b = Some (res, b') \<Longrightarrow> docOp op (map_of b) res (map_of b')"
  by (cases op) (auto simp: update_conv' map_of_clearjunk distinct_clearjunk split: option.splits if_splits asValue.splits)

lemma runOps_doc: "runOps ops b = Some (res, b') \<Longrightarrow> docOps ops (map_of b) res (map_of b')"
  by (induction ops arbitrary: b res) (fastforce dest: runOp_doc split: option.splits)+

lemma runRuns_doc: "runRuns n ops b = Some (res, b') \<Longrightarrow> docRuns n ops (map_of b) res (map_of b')"
  by (induction n arbitrary: b) (auto dest: runOps_doc split: option.splits)

lemma binsOf_cluster: "binsOf (clusterRecs c key) = map_of (storedBins c key)"
  by (auto simp: binsOf_def clusterRecs_def storedBins_def split: option.splits)

lemma clusterRecs_update: "clusterRecs (AList.update key b c) = (clusterRecs c)(key \<mapsto> map_of b)"
  by (auto simp: clusterRecs_def update_conv' fun_eq_iff)

interpretation cluster: aerospike "cluster lost" clusterRecs for lost
proof unfold_locales
  fix wp key ops c r c'
  assume "asOperate (cluster lost) wp key ops c = (Inr r, c')"
  then obtain res b where *: "runRuns (min lost (nat (wpMaxRetries wp))) ops (storedBins c key) = Some (res, b)"
      "r = opResults res" "c' = AList.update key b c" "wpRecordExistsAction wp = UPDATE_ONLY \<longrightarrow> map_of c key \<noteq> None"
    by (auto simp: cluster_def clusterOperate_def split: if_splits option.splits)
  then have "opApplied clusterRecs wp key ops c res c'"
    using runRuns_doc [OF *(1)] unfolding opApplied_def binsOf_cluster clusterRecs_update
    by (auto simp: clusterRecs_def clusterRecs_update intro!: exI [of _ "min lost (nat (wpMaxRetries wp))"])
  then show "\<exists>res. opApplied clusterRecs wp key ops c res c' \<and> r = opResults res" using *(2) by blast
next
  fix wp key bs c c'
  have m: "map_of (fold (\<lambda>(bin, v). AList.update bin v) (rev bs) b) = map_of b ++ map_of bs" for b :: "(string \<times> asValue) list"
    by (induction bs arbitrary: b) (auto simp: update_conv' fun_eq_iff map_add_def split: option.splits)
  assume "asPut (cluster lost) wp key bs c = (None, c')"
  then show "clusterRecs c' = (clusterRecs c)(key \<mapsto> binsOf (clusterRecs c key) ++ map_of bs)"
    by (auto simp: cluster_def clusterRecs_update m binsOf_cluster)
next
  fix bp keys bin c rs
  assume "asBatchGet (cluster lost) bp keys bin c = Inr rs"
  then show "list_all2 (\<lambda>key r. readsBin (clusterRecs c key) bin r) keys rs"
    by (auto simp: cluster_def list_all2_conv_all_nth readsBin_def clusterRecs_def split: option.splits)
qed (auto simp: cluster_def clusterOperate_def clusterRecs_def readsBin_def delete_conv' fun_eq_iff split: if_splits option.splits)

section \<open>Types of the bins\<close>

text \<open>What each bin holds. The bins of the stores have different names, so this also holds when stores share a set.\<close>

definition stringBins :: "string set" where
  "stringBins = {callbacksBin, callbackURLsBin, seenSubtreesBin}"

definition binTyped :: "string \<Rightarrow> asValue \<Rightarrow> bool" where
  "binTyped bin v \<longleftrightarrow> (bin \<in> stringBins \<longrightarrow> (\<exists>us. v = AList (map AStr us) \<and> distinct us))
     \<and> (bin = subtreeCounterBin \<longrightarrow> (\<exists>i. v = AInt i))
     \<and> (bin = seenThresholdFired \<longrightarrow> v = AInt 1)
     \<and> (bin = accumEntriesBin \<longrightarrow> (\<exists>es. v = AList (map (\<lambda>(u, ts, i, d). entryValue u ts i d) es)))"

definition binsTyped :: "asBins \<Rightarrow> bool" where
  "binsTyped b \<longleftrightarrow> (\<forall>bin v. b bin = Some v \<longrightarrow> binTyped bin v)"

lemmas bin_names = callbacksBin_def callbackURLsBin_def seenSubtreesBin_def subtreeCounterBin_def seenThresholdFired_def
  accumEntriesBin_def dedupMarkerBin_def

lemma binsTyped_empty [simp]: "binsTyped Map.empty"
  by (simp add: binsTyped_def)

lemma binsTyped_update: "binsTyped b \<Longrightarrow> binTyped bin v \<Longrightarrow> binsTyped (b(bin \<mapsto> v))"
  by (simp add: binsTyped_def)

text \<open>The operations the stores send.\<close>

fun opTyped :: "asOperation \<Rightarrow> bool" where
  "opTyped (ListAppendWithPolicyOp ord flags bin v) \<longleftrightarrow> bin \<in> stringBins \<and> (\<exists>u. v = AStr u)
     \<and> ListWriteFlagsAddUnique \<in> set flags \<and> ListWriteFlagsNoFail \<in> set flags"
| "opTyped (ListAppendOp bin v) \<longleftrightarrow> bin = accumEntriesBin \<and> (\<exists>u ts i d. v = entryValue u ts i d)"
| "opTyped (AddOp bin n) \<longleftrightarrow> bin = subtreeCounterBin"
| "opTyped _ \<longleftrightarrow> True"

text \<open>A list of strings as a set.\<close>

definition strSet :: "asBins \<Rightarrow> string \<Rightarrow> string set" where
  "strSet b bin = {u. \<exists>vs. b bin = Some (AList vs) \<and> AStr u \<in> set vs}"

lemma stringsOf_AStr [simp]: "stringsOf (map AStr us) = us"
  by (induction us) auto

lemma stringList_bin:
  assumes "binsTyped b" and "bin \<in> stringBins" and "listIn b bin = Some vs"
  obtains us where "vs = map AStr us" "distinct us" "set us = strSet b bin"
proof (cases "b bin")
  case None
  then show thesis using that [of "[]"] assms(3) by (simp add: listIn_def strSet_def)
next
  case (Some v)
  then obtain us where us: "v = AList (map AStr us)" "distinct us" using assms(1,2) by (auto simp: binsTyped_def binTyped_def)
  then show thesis using that [of us] assms(3) Some by (auto simp: listIn_def strSet_def)
qed

lemma strings_of_mset:
  assumes "mset vs = mset (map AStr us)"
  shows "\<exists>us'. vs = map AStr us' \<and> mset us' = mset us"
proof -
  have vs: "vs = map AStr (stringsOf vs)"
  proof -
    have "set vs \<subseteq> range AStr" using mset_eq_setD [OF assms] by auto
    then show ?thesis by (induction vs) auto
  qed
  have "image_mset AStr (mset (stringsOf vs)) = image_mset AStr (mset us)"
    using assms by (subst (asm) vs) simp
  then have "mset (stringsOf vs) = mset us"
    by (rule injD [OF multiset.inj_map, rotated]) (simp add: inj_def)
  then show ?thesis using vs by blast
qed

lemma append_unique:
  assumes "binsTyped b" and "bin \<in> stringBins" and "ListWriteFlagsAddUnique \<in> set flags"
    and "docOp (ListAppendWithPolicyOp ord flags bin (AStr u)) b res b'"
  shows "\<exists>us. b' = b(bin \<mapsto> AList (map AStr us)) \<and> distinct us \<and> set us = insert u (strSet b bin)
     \<and> res = [(bin, AInt (int (length us)))]"
proof -
  obtain vs vs' where vs: "listIn b bin = Some vs" "b' = b(bin \<mapsto> AList vs')" "res = [(bin, AInt (int (length vs')))]"
      "if AStr u \<in> set vs then mset vs' = mset vs else mset vs' = add_mset (AStr u) (mset vs)"
    using assms(3,4) by (auto split: if_splits)
  obtain us where us: "vs = map AStr us" "distinct us" "set us = strSet b bin" by (rule stringList_bin [OF assms(1,2) vs(1)])
  let ?us = "if u \<in> set us then us else u # us"
  have "mset vs' = mset (map AStr ?us)" using vs(4) us(1) by (auto split: if_splits)
  then obtain us' where us': "vs' = map AStr us'" "mset us' = mset ?us" using strings_of_mset by blast
  have "distinct us'" using us' us(2) mset_eq_imp_distinct_iff by (metis distinct.simps(2))
  moreover have "set us' = insert u (strSet b bin)" using mset_eq_setD [OF us'(2)] us(3) by auto
  ultimately show ?thesis using vs(2,3) us'(1) by auto
qed

lemma strSet_list [simp]: "strSet (b(bin \<mapsto> AList (map AStr us))) bin' = (if bin' = bin then set us else strSet b bin')"
  by (auto simp: strSet_def)

lemma docOp_typed:
  assumes "opTyped op" and "binsTyped b" and "docOp op b res b'"
  shows "binsTyped b'"
proof (cases op)
  case (ListAppendWithPolicyOp ord flags bin v)
  then obtain us where us: "b' = b(bin \<mapsto> AList (map AStr us))" "distinct us" "bin \<in> stringBins"
    using append_unique assms by (metis opTyped.simps(1))
  have "binTyped bin (AList (map AStr us))" using us(2,3) by (auto simp: binTyped_def stringBins_def bin_names)
  then show ?thesis using us(1) assms(2) by (simp add: binsTyped_update)
next
  case (ListAppendOp bin v)
  then obtain vs u ts i d where vs: "listIn b bin = Some vs" "b' = b(bin \<mapsto> AList (vs @ [v]))" "bin = accumEntriesBin" "v = entryValue u ts i d"
    using assms(1,3) by auto
  obtain es where "vs = map (\<lambda>(u, ts, i, d). entryValue u ts i d) es"
    using assms(2) vs(1,3) by (auto simp: listIn_def binsTyped_def binTyped_def split: option.splits asValue.splits)
  then have "vs @ [v] = map (\<lambda>(u, ts, i, d). entryValue u ts i d) (es @ [(u, ts, i, d)])" using vs(4) by simp
  then have "\<exists>es. AList (vs @ [v]) = AList (map (\<lambda>(u, ts, i, d). entryValue u ts i d) es)" by blast
  then have "binTyped bin (AList (vs @ [v]))" unfolding vs(3) by (simp add: binTyped_def stringBins_def bin_names)
  then show ?thesis using vs(2) assms(2) by (simp add: binsTyped_update)
next
  case (AddOp bin n)
  have "binTyped subtreeCounterBin (AInt i)" for i by (simp add: binTyped_def stringBins_def bin_names)
  then show ?thesis using AddOp assms by (auto simp: binsTyped_update)
qed (use assms in auto)

lemma docOps_typed: "list_all opTyped ops \<Longrightarrow> binsTyped b \<Longrightarrow> docOps ops b res b' \<Longrightarrow> binsTyped b'"
  by (induction ops arbitrary: b res) (auto dest: docOp_typed)

lemma docRuns_typed: "list_all opTyped ops \<Longrightarrow> binsTyped b \<Longrightarrow> docRuns n ops b res b' \<Longrightarrow> binsTyped b'"
  by (induction n arbitrary: b) (auto dest: docOps_typed)


text \<open>A call that is applied several times: appending a string to a set once more changes nothing.\<close>

lemma docOps_single [simp]: "docOps [op] b res b' \<longleftrightarrow> docOp op b res b'"
  by auto

lemma docRuns_last:
  assumes "docRuns n ops b res b'" and "list_all opTyped ops" and "binsTyped b"
  obtains b1 where "binsTyped b1" "docOps ops b1 res b'"
  using assms by (induction n arbitrary: b) (auto dest: docOps_typed)

lemma docRuns_insert:
  assumes "binsTyped b" and "bin \<in> stringBins" and "ListWriteFlagsAddUnique \<in> set flags" and "ListWriteFlagsNoFail \<in> set flags"
    and "docRuns n (ListAppendWithPolicyOp ord flags bin (AStr u) # ops) b res b'"
    and "\<And>b res b'. docOps ops b res b' \<Longrightarrow> b' = b"
  shows "\<exists>us res'. b' = b(bin \<mapsto> AList (map AStr us)) \<and> distinct us \<and> set us = insert u (strSet b bin)
    \<and> docOps ops b' res' b' \<and> res = (bin, AInt (int (length us))) # res'"
  using assms(1,5)
proof (induction n arbitrary: b)
  case 0
  then obtain r1 b1 r2 where r: "docOp (ListAppendWithPolicyOp ord flags bin (AStr u)) b r1 b1" "docOps ops b1 r2 b'" "res = r1 @ r2"
    unfolding docRuns.simps docOps.simps by blast
  have "b' = b1" by (rule assms(6) [OF r(2)])
  then show ?case using append_unique [OF 0(1) assms(2,3) r(1)] r(2,3) by (metis append_Cons append_Nil)
next
  case (Suc n)
  let ?op = "ListAppendWithPolicyOp ord flags bin (AStr u)"
  obtain r1 b1 where r: "docOps (?op # ops) b r1 b1" "docRuns n (?op # ops) b1 res b'" using Suc.prems(2) unfolding docRuns.simps by blast
  obtain s1 b2 s2 where s: "docOp ?op b s1 b2" "docOps ops b2 s2 b1" using r(1) unfolding docOps.simps by blast
  have b1: "b1 = b2" by (rule assms(6) [OF s(2)])
  obtain us where us: "b1 = b(bin \<mapsto> AList (map AStr us))" "distinct us" "set us = insert u (strSet b bin)"
    using append_unique [OF Suc.prems(1) assms(2,3) s(1)] b1 by auto
  have "opTyped ?op" using assms(2-4) by simp
  then have "binsTyped b1" using docOp_typed [OF _ Suc.prems(1) s(1)] b1 by blast
  note IH = Suc.IH [OF this r(2)]
  have "insert u (strSet b1 bin) = insert u (strSet b bin)" using us(3) by (simp add: us(1))
  moreover have "b1(bin \<mapsto> v) = b(bin \<mapsto> v)" for v by (simp add: us(1))
  ultimately show ?case using IH by (simp only: )
qed

section \<open>Every store keeps the types\<close>

definition clusterTyped :: "('c \<Rightarrow> asKey \<Rightarrow> asBins option) \<Rightarrow> 'c \<Rightarrow> bool" where
  "clusterTyped recs c \<longleftrightarrow> (\<forall>key b. recs c key = Some b \<longrightarrow> binsTyped b)"

context aerospike
begin

lemma typed_bins: "clusterTyped recs c \<Longrightarrow> binsTyped (binsOf (recs c key))"
  by (cases "recs c key") (simp_all add: clusterTyped_def binsOf_def, metis surj_pair)

lemma typed_update: "clusterTyped recs c \<Longrightarrow> recs c' = (recs c)(key \<mapsto> b) \<Longrightarrow> binsTyped b \<Longrightarrow> clusterTyped recs c'"
  by (auto simp: clusterTyped_def)

lemma operate_typed:
  assumes "clusterTyped recs c" and "asOperate as wp key ops c = (r, c')" and "list_all opTyped ops"
  shows "clusterTyped recs c'"
proof -
  have "clusterTyped recs c'" if "opApplied recs wp key ops c res c'" for res
    using that typed_update [OF assms(1)] docRuns_typed [OF assms(3) typed_bins [OF assms(1)]] unfolding opApplied_def by blast
  moreover have "clusterTyped recs c'" if "recs c' = recs c" using that assms(1) by (simp add: clusterTyped_def)
  ultimately show ?thesis using operate operate_failed assms(2) by (cases r) blast+
qed

lemma put_typed:
  assumes "clusterTyped recs c" and "asPut as wp key [(bin, v)] c = (e, c')" and "binTyped bin v"
  shows "clusterTyped recs c'"
proof -
  have "clusterTyped recs c'" if "recs c' = (recs c)(key \<mapsto> binsOf (recs c key) ++ map_of [(bin, v)])"
    by (rule typed_update [OF assms(1) that]) (simp add: binsTyped_update [OF typed_bins [OF assms(1)] assms(3)])
  moreover have "clusterTyped recs c'" if "recs c' = recs c" using that assms(1) by (simp add: clusterTyped_def)
  ultimately show ?thesis using put put_failed assms(2) by (cases e) blast+
qed

lemma delete_typed:
  assumes "clusterTyped recs c" and "asDelete as wp key c = (e, c')"
  shows "clusterTyped recs c'"
proof -
  have "recs c' = recs c \<or> recs c' = (recs c)(key := None)" using assms(2) delete delete_failed by (cases e) blast+
  then show ?thesis using assms(1) by (auto simp: clusterTyped_def split: if_splits)
qed

end

locale aerospike_store = aerospike "ac_client (as_client s)" recs
  for s :: "('c, 'x) aerospikeStore_scheme" and recs
begin

definition recOf :: "'c \<Rightarrow> string \<Rightarrow> asBins" where
  "recOf c k = binsOf (recs c (ac_namespace (as_client s), as_setName s, k))"

lemma storeKey_ok: "storeKey s k = Inr (ac_namespace (as_client s), as_setName s, k)"
  by (simp add: storeKey_def new_key)

lemma recOf_typed: "clusterTyped recs c \<Longrightarrow> binsTyped (recOf c k)"
  by (simp add: recOf_def typed_bins)

lemma recOf_update:
  "recs c' = (recs c)((ac_namespace (as_client s), as_setName s, k) \<mapsto> b) \<Longrightarrow> recOf c' = (recOf c)(k := b)"
  by (auto simp: recOf_def binsOf_def fun_eq_iff)

lemma setInsert_typed:
  assumes "clusterTyped recs c" and "asSetInsert s k bin v c = (r, c')" and "bin \<in> stringBins"
  shows "clusterTyped recs c'"
proof -
  let ?ops = "[ListAppendWithPolicyOp ListOrderOrdered [ListWriteFlagsAddUnique, ListWriteFlagsNoFail] bin (AStr v)]"
  obtain wp key x where op: "asOperate (ac_client (as_client s)) wp key ?ops c = (x, c')"
    using assms(2) by (auto simp: asSetInsert_def storeKey_ok Let_def split: prod.splits sum.splits)
  show ?thesis by (rule operate_typed [OF assms(1) op]) (simp add: assms(3))
qed

lemma insert_applied:
  assumes "clusterTyped recs c" and "bin \<in> stringBins"
    and "opApplied recs wp (ac_namespace (as_client s), as_setName s, k)
      [ListAppendWithPolicyOp ListOrderOrdered [ListWriteFlagsAddUnique, ListWriteFlagsNoFail] bin (AStr v)] c res c'"
  shows "\<exists>us. recOf c' = (recOf c)(k := (recOf c k)(bin \<mapsto> AList (map AStr us))) \<and> set us = insert v (strSet (recOf c k) bin)"
proof -
  let ?ops = "[ListAppendWithPolicyOp ListOrderOrdered [ListWriteFlagsAddUnique, ListWriteFlagsNoFail] bin (AStr v)]"
  let ?key = "(ac_namespace (as_client s), as_setName s, k)"
  obtain n b where b: "docRuns n ?ops (recOf c k) res b" "recs c' = (recs c)(?key \<mapsto> b)"
    using assms(3) unfolding opApplied_def recOf_def by blast
  have nothing: "b1 = b0" if "docOps [] b0 r0 b1" for b0 r0 b1 using that by simp
  obtain us where "b = (recOf c k)(bin \<mapsto> AList (map AStr us))" "set us = insert v (strSet (recOf c k) bin)"
    using docRuns_insert [OF recOf_typed [OF assms(1)] assms(2) _ _ b(1) nothing] by auto
  then show ?thesis using recOf_update [OF b(2)] by auto
qed

lemma setInsert_effect:
  assumes "clusterTyped recs c" and "asSetInsert s k bin v c = (Inr (), c')" and "bin \<in> stringBins"
  shows "\<exists>us. recOf c' = (recOf c)(k := (recOf c k)(bin \<mapsto> AList (map AStr us))) \<and> set us = insert v (strSet (recOf c k) bin)"
proof -
  let ?ops = "[ListAppendWithPolicyOp ListOrderOrdered [ListWriteFlagsAddUnique, ListWriteFlagsNoFail] bin (AStr v)]"
  obtain wp x where "asOperate (ac_client (as_client s)) wp (ac_namespace (as_client s), as_setName s, k) ?ops c = (Inr x, c')"
    using assms(2) by (auto simp: asSetInsert_def storeKey_ok Let_def split: prod.splits sum.splits)
  from operate [OF this] show ?thesis using insert_applied [OF assms(1,3)] by blast
qed

lemma setInsert_failed:
  assumes "clusterTyped recs c" and "asSetInsert s k bin v c = (Inl e, c')" and "bin \<in> stringBins"
  shows "recOf c' = recOf c
    \<or> (\<exists>us. recOf c' = (recOf c)(k := (recOf c k)(bin \<mapsto> AList (map AStr us))) \<and> set us = insert v (strSet (recOf c k) bin))"
proof -
  let ?ops = "[ListAppendWithPolicyOp ListOrderOrdered [ListWriteFlagsAddUnique, ListWriteFlagsNoFail] bin (AStr v)]"
  obtain wp x where "asOperate (ac_client (as_client s)) wp (ac_namespace (as_client s), as_setName s, k) ?ops c = (Inl x, c')"
    using assms(2) by (auto simp: asSetInsert_def storeKey_ok Let_def split: prod.splits sum.splits)
  from operate_failed [OF this] show ?thesis
  proof
    assume "recs c' = recs c"
    then show ?thesis by (simp add: recOf_def fun_eq_iff)
  qed (use insert_applied [OF assms(1,3)] in blast)
qed

lemma setRead_spec:
  assumes "clusterTyped recs c" and "bin \<in> stringBins"
  shows "asSetRead s k bin c \<noteq> Inl EUnexpectedType"
    and "asSetRead s k bin c = Inr r \<Longrightarrow> distinct (case r of None \<Rightarrow> [] | Some us \<Rightarrow> us)
       \<and> set (case r of None \<Rightarrow> [] | Some us \<Rightarrow> us) = strSet (recOf c k) bin"
proof -
  let ?key = "(ac_namespace (as_client s), as_setName s, k)"
  have *: "asSetRead s k bin c \<noteq> Inl EUnexpectedType \<and> (asSetRead s k bin c = Inr r \<longrightarrow>
     distinct (case r of None \<Rightarrow> [] | Some us \<Rightarrow> us) \<and> set (case r of None \<Rightarrow> [] | Some us \<Rightarrow> us) = strSet (recOf c k) bin)" for r
  proof (cases "asGet (ac_client (as_client s)) ?key bin c")
    case (Inl e)
    then show ?thesis by (simp add: asSetRead_def storeKey_ok)
  next
    case (Inr ro)
    note rd = get [OF Inr]
    show ?thesis
    proof (cases ro)
      case None
      then have "recs c ?key = None" using rd by (auto simp: readsBin_def split: option.splits)
      then have "strSet (recOf c k) bin = {}" by (simp add: recOf_def binsOf_def strSet_def)
      then show ?thesis using Inr None by (auto simp: asSetRead_def storeKey_ok)
    next
      case (Some bins)
      then have eq: "bins bin = recOf c k bin" using rd by (auto simp: readsBin_def recOf_def binsOf_def split: option.splits)
      show ?thesis
      proof (cases "recOf c k bin")
        case None
        then show ?thesis using Inr Some eq by (auto simp: asSetRead_def storeKey_ok strSet_def)
      next
        case (Some v)
        then obtain us where "v = AList (map AStr us)" "distinct us"
          using recOf_typed [OF assms(1), of k] assms(2) by (auto simp: binsTyped_def binTyped_def)
        then show ?thesis using Inr \<open>ro = Some bins\<close> eq Some by (auto simp: asSetRead_def storeKey_ok strSet_def)
      qed
    qed
  qed
  show "asSetRead s k bin c \<noteq> Inl EUnexpectedType" using * by blast
  show "asSetRead s k bin c = Inr r \<Longrightarrow> distinct (case r of None \<Rightarrow> [] | Some us \<Rightarrow> us)
       \<and> set (case r of None \<Rightarrow> [] | Some us \<Rightarrow> us) = strSet (recOf c k) bin" using * by blast
qed

end


section \<open>Registrations\<close>

definition recordUrls :: "asBins \<Rightarrow> string list" where
  "recordUrls b = (case b callbacksBin of Some (AList vs) \<Rightarrow> stringsOf vs | _ \<Rightarrow> [])"

lemma addRecord_urls:
  "readsBin stored callbacksBin r \<Longrightarrow>
     addRecord (t, r) m = (if recordUrls (binsOf stored) = [] then m else AList.update t (recordUrls (binsOf stored)) m)"
  by (auto simp: addRecord_def readsBin_def recordUrls_def binsOf_def split: option.splits asValue.splits)

lemma recordUrls_typed:
  assumes "binsTyped b"
  shows "distinct (recordUrls b)" and "set (recordUrls b) = strSet b callbacksBin"
proof -
  have "distinct (recordUrls b) \<and> set (recordUrls b) = strSet b callbacksBin"
  proof (cases "b callbacksBin")
    case (Some v)
    then obtain us where "v = AList (map AStr us)" "distinct us"
      using assms by (auto simp: binsTyped_def binTyped_def stringBins_def)
    then show ?thesis using Some by (auto simp: recordUrls_def strSet_def)
  qed (simp add: recordUrls_def strSet_def)
  then show "distinct (recordUrls b)" "set (recordUrls b) = strSet b callbacksBin" by blast+
qed

lemma fold_addRecord:
  assumes "list_all2 (\<lambda>t r. readsBin (f t) callbacksBin r) txids rs"
  shows "map_of (fold addRecord (zip txids rs) m) t =
      (if t \<in> set txids \<and> recordUrls (binsOf (f t)) \<noteq> [] then Some (recordUrls (binsOf (f t))) else map_of m t)"
    and "distinct (map fst m) \<Longrightarrow> distinct (map fst (fold addRecord (zip txids rs) m))"
  using assms
proof (induction arbitrary: m rule: list_all2_induct)
  case (Cons t' ts r rs)
  { case 1 show ?case using Cons(1,3) by (auto simp: addRecord_urls [OF Cons(1)] update_conv') }
  { case 2 then show ?case using Cons(1,4) by (auto simp: addRecord_urls [OF Cons(1)] distinct_update) }
qed auto

definition asUrlsOf :: "('c \<Rightarrow> asKey \<Rightarrow> asBins option) \<Rightarrow> ('c, 'x) aerospikeStore_scheme \<Rightarrow> 'c \<Rightarrow> string \<Rightarrow> string set" where
  "asUrlsOf recs s c t = strSet (binsOf (recs c (ac_namespace (as_client s), as_setName s, t))) callbacksBin"

lemma callbacks_string: "callbacksBin \<in> stringBins" and urls_string: "callbackURLsBin \<in> stringBins"
  and subtrees_string: "seenSubtreesBin \<in> stringBins"
  by (simp_all add: stringBins_def)

context aerospike_store
begin

lemma asUrlsOf_recOf: "asUrlsOf recs s c t = strSet (recOf c t) callbacksBin"
  by (simp add: asUrlsOf_def recOf_def)

lemma batchKeys_ok: "batchKeys s txids = Inr (map (\<lambda>t. (ac_namespace (as_client s), as_setName s, t)) txids)"
  by (induction txids) (simp_all add: storeKey_ok)

lemma batchGet_spec:
  assumes "clusterTyped recs c" and "asRegBatchGet s txids c = Inr regs"
  shows "distinct (map fst regs)" and "map_of regs t = (if t \<in> set txids \<and> recordUrls (recOf c t) \<noteq> [] then Some (recordUrls (recOf c t)) else None)"
proof -
  let ?key = "\<lambda>t. (ac_namespace (as_client s), as_setName s, t)"
  have "distinct (map fst regs) \<and> map_of regs t = (if t \<in> set txids \<and> recordUrls (recOf c t) \<noteq> [] then Some (recordUrls (recOf c t)) else None)"
  proof (cases "txids = []")
    case True
    then show ?thesis using assms(2) by (simp add: asRegBatchGet_def)
  next
    case False
    obtain bp rs where rs: "asBatchGet (ac_client (as_client s)) bp (map ?key txids) callbacksBin c = Inr rs"
        "regs = fold addRecord (zip txids rs) []"
      using assms(2) False by (auto simp: asRegBatchGet_def batchKeys_ok Let_def split: sum.splits)
    have l: "list_all2 (\<lambda>t r. readsBin (recs c (?key t)) callbacksBin r) txids rs"
      using batch_get [OF rs(1)] by (simp add: list_all2_map1)
    show ?thesis using fold_addRecord [OF l, of "[]"] by (simp add: rs(2) recOf_def)
  qed
  then show "distinct (map fst regs)" "map_of regs t = (if t \<in> set txids \<and> recordUrls (recOf c t) \<noteq> [] then Some (recordUrls (recOf c t)) else None)"
    by blast+
qed

end

sublocale aerospike_store \<subseteq> regs: registration_store "asRegAdd s" "asRegBatchGet s" "clusterTyped recs" "asUrlsOf recs s"
proof unfold_locales
  fix c txids regs
  assume inv: "clusterTyped recs c" and get: "asRegBatchGet s txids c = Inr regs"
  note b = batchGet_spec [OF inv get]
  have u: "set (recordUrls (recOf c t)) = asUrlsOf recs s c t" "distinct (recordUrls (recOf c t))" for t
    using recordUrls_typed [OF recOf_typed [OF inv]] by (simp_all add: asUrlsOf_recOf)
  have e: "recordUrls (recOf c t) = [] \<longleftrightarrow> asUrlsOf recs s c t = {}" for t using u(1) [of t] by (metis set_empty)
  show "distinct (map fst regs) \<and> (\<forall>t. (map_of regs t = None) = (t \<notin> set txids \<or> asUrlsOf recs s c t = {}))
      \<and> (\<forall>t us. map_of regs t = Some us \<longrightarrow> set us = asUrlsOf recs s c t \<and> distinct us)"
    using b(1) u unfolding b(2) e by auto
next
  fix c t u c'
  assume inv: "clusterTyped recs c" and add: "asRegAdd s t u c = (Inr (), c')"
  obtain us where us: "recOf c' = (recOf c)(t := (recOf c t)(callbacksBin \<mapsto> AList (map AStr us)))" "set us = insert u (strSet (recOf c t) callbacksBin)"
    using setInsert_effect [OF inv add [unfolded asRegAdd_def] callbacks_string] by blast
  have "asUrlsOf recs s c' = (asUrlsOf recs s c)(t := insert u (asUrlsOf recs s c t))"
    by (rule ext) (simp add: asUrlsOf_recOf us)
  then show "clusterTyped recs c' \<and> asUrlsOf recs s c' = (asUrlsOf recs s c)(t := insert u (asUrlsOf recs s c t))"
    using setInsert_typed [OF inv add [unfolded asRegAdd_def] callbacks_string] by blast
qed


section \<open>Seen counter\<close>

definition asSubs :: "('c \<Rightarrow> asKey \<Rightarrow> asBins option) \<Rightarrow> ('c, 'x) aerospikeStore_scheme \<Rightarrow> 'c \<Rightarrow> string \<Rightarrow> string set" where
  "asSubs recs s c t = strSet (binsOf (recs c (ac_namespace (as_client s), as_setName s, t))) seenSubtreesBin"

definition asFired :: "('c \<Rightarrow> asKey \<Rightarrow> asBins option) \<Rightarrow> ('c, 'x) aerospikeStore_scheme \<Rightarrow> 'c \<Rightarrow> string \<Rightarrow> bool" where
  "asFired recs s c t \<longleftrightarrow> binsOf (recs c (ac_namespace (as_client s), as_setName s, t)) seenThresholdFired = Some (AInt 1)"

text \<open>The flag is set exactly for the txids that have reached the threshold.\<close>

definition asSeenInv :: "('c \<Rightarrow> asKey \<Rightarrow> asBins option) \<Rightarrow> ('c, 'x) aerospikeSeenCounter_scheme \<Rightarrow> 'c \<Rightarrow> bool" where
  "asSeenInv recs s c \<longleftrightarrow> clusterTyped recs c \<and> (\<forall>t. asFired recs s c t = (as_threshold s \<le> int (card (asSubs recs s c t))))"

definition seenOps :: "string \<Rightarrow> asOperation list" where
  "seenOps subtreeID =
     [ListAppendWithPolicyOp ListOrderUnordered [ListWriteFlagsAddUnique, ListWriteFlagsNoFail] seenSubtreesBin (AStr subtreeID),
      ListSizeOp seenSubtreesBin, GetBinOp seenThresholdFired]"

lemma list_all_seenOps: "list_all opTyped (seenOps x)"
  by (simp add: seenOps_def subtrees_string)

lemma docRuns_seen:
  assumes "binsTyped b" and "docRuns n (seenOps x) b res b'"
  shows "\<exists>us. b' = b(seenSubtreesBin \<mapsto> AList (map AStr us)) \<and> distinct us \<and> set us = insert x (strSet b seenSubtreesBin)
    \<and> newSizeOf (opResults res) = Inr (int (length us)) \<and> opResults res seenThresholdFired = b seenThresholdFired"
proof -
  let ?rest = "[ListSizeOp seenSubtreesBin, GetBinOp seenThresholdFired]"
  have "\<exists>us res'. b' = b(seenSubtreesBin \<mapsto> AList (map AStr us)) \<and> distinct us \<and> set us = insert x (strSet b seenSubtreesBin)
      \<and> docOps ?rest b' res' b' \<and> res = (seenSubtreesBin, AInt (int (length us))) # res'"
    by (rule docRuns_insert [OF assms(1) subtrees_string _ _ assms(2) [unfolded seenOps_def]]) auto
  then obtain us res' where us: "b' = b(seenSubtreesBin \<mapsto> AList (map AStr us))" "distinct us" "set us = insert x (strSet b seenSubtreesBin)"
      "docOps ?rest b' res' b'" "res = (seenSubtreesBin, AInt (int (length us))) # res'" by blast
  have ne: "seenThresholdFired \<noteq> seenSubtreesBin" by (simp add: bin_names)
  have "b' seenSubtreesBin = Some (AList (map AStr us))" "b' seenThresholdFired = b seenThresholdFired" using us(1) ne by simp_all
  then have "res' = (seenSubtreesBin, AInt (int (length us))) # (case b seenThresholdFired of None \<Rightarrow> [] | Some v \<Rightarrow> [(seenThresholdFired, v)])"
    using us(4) by simp
  then have "newSizeOf (opResults res) = Inr (int (length us)) \<and> opResults res seenThresholdFired = b seenThresholdFired"
    using ne by (auto simp: us(5) newSizeOf_def opResults_def split: option.splits)
  then show ?thesis using us(1-3) by blast
qed

lemma fired_typed: "binTyped seenThresholdFired (AInt 1)"
  by (simp add: binTyped_def stringBins_def bin_names)

context aerospike_store
begin

lemma asSubs_recOf: "asSubs recs s c t = strSet (recOf c t) seenSubtreesBin"
  by (simp add: asSubs_def recOf_def)

lemma asFired_recOf: "asFired recs s c t \<longleftrightarrow> recOf c t seenThresholdFired = Some (AInt 1)"
  by (simp add: asFired_def recOf_def)

lemma finite_asSubs: "finite (asSubs recs s c t)"
proof (cases "recOf c t seenSubtreesBin")
  case (Some v)
  have "{u. AStr u \<in> set vs} \<subseteq> set (stringsOf vs)" for vs by (induction vs rule: stringsOf.induct) auto
  then have "finite {u. AStr u \<in> set vs}" for vs by (rule finite_subset) simp
  then show ?thesis using Some by (cases v) (simp_all add: asSubs_recOf strSet_def)
qed (simp add: asSubs_recOf strSet_def)

end

text \<open>A cluster that answers: a call the stores make does not fail.\<close>

fun sizesOk :: "string set \<Rightarrow> asOperation list \<Rightarrow> bool" where
  "sizesOk B [] \<longleftrightarrow> True"
| "sizesOk B (ListAppendWithPolicyOp ord flags bin v # ops) \<longleftrightarrow> sizesOk (insert bin B) ops"
| "sizesOk B (ListSizeOp bin # ops) \<longleftrightarrow> bin \<in> stringBins \<and> bin \<in> B \<and> sizesOk B ops"
| "sizesOk B (_ # ops) \<longleftrightarrow> sizesOk B ops"

locale aerospike_up = aerospike as recs for as :: "'c asClient" and recs +
  assumes operate_up: "clusterTyped recs c \<Longrightarrow> list_all opTyped ops \<Longrightarrow> sizesOk {} ops
        \<Longrightarrow> (wpRecordExistsAction wp = UPDATE_ONLY \<longrightarrow> recs c key \<noteq> None) \<Longrightarrow> \<exists>r c'. asOperate as wp key ops c = (Inr r, c')"
    and put_up: "\<exists>c'. asPut as wp key bs c = (None, c')"
    and delete_up: "\<exists>c'. asDelete as wp key c = (None, c')"
    and get_up: "recs c key \<noteq> None \<Longrightarrow> \<exists>r. asGet as key bin c = Inr (Some r)"
    and get_up_missing: "recs c key = None \<Longrightarrow> asGet as key bin c = Inl KEY_NOT_FOUND_ERROR"
    and batch_up: "\<exists>rs. asBatchGet as bp keys bin c = Inr rs"

lemma binsTypedD: "binsTyped b \<Longrightarrow> b bin = Some v \<Longrightarrow> binTyped bin v"
  by (simp add: binsTyped_def)

lemma listIn_typed: "opTyped (ListAppendWithPolicyOp ord flags bin v) \<Longrightarrow> binsTyped b \<Longrightarrow> listIn b bin \<noteq> None"
  using binsTypedD [of b bin] by (cases "b bin") (auto simp: listIn_def binTyped_def)

lemma listIn_typed_entries: "opTyped (ListAppendOp bin v) \<Longrightarrow> binsTyped b \<Longrightarrow> listIn b bin \<noteq> None"
  using binsTypedD [of b bin] by (cases "b bin") (auto simp: listIn_def binTyped_def)

lemma runOp_up:
  assumes "opTyped op" and "binsTyped (map_of b)" and "\<And>bin. op = ListSizeOp bin \<Longrightarrow> bin \<in> stringBins \<and> map_of b bin \<noteq> None"
  shows "\<exists>res b'. runOp op b = Some (res, b') \<and> binsTyped (map_of b') \<and> dom (map_of b) \<subseteq> dom (map_of b')
    \<and> (\<forall>ord flags bin v. op = ListAppendWithPolicyOp ord flags bin v \<longrightarrow> map_of b' bin \<noteq> None)"
proof -
  have "\<exists>res b'. runOp op b = Some (res, b') \<and> dom (map_of b) \<subseteq> dom (map_of b')
    \<and> (\<forall>ord flags bin v. op = ListAppendWithPolicyOp ord flags bin v \<longrightarrow> map_of b' bin \<noteq> None)"
  proof (cases op)
    case (ListAppendWithPolicyOp ord flags bin v)
    then show ?thesis using listIn_typed [of ord flags bin v "map_of b"] assms(1,2) by (auto simp: update_conv')
  next
    case (ListAppendOp bin v)
    then show ?thesis using listIn_typed_entries [of bin v "map_of b"] assms(1,2) by (auto simp: update_conv')
  next
    case (ListSizeOp bin)
    then obtain v where v: "map_of b bin = Some v" "bin \<in> stringBins" using assms(3) by blast
    then obtain us where "v = AList (map AStr us)" using assms(2) by (auto simp: binsTyped_def binTyped_def)
    then show ?thesis using v ListSizeOp by simp
  next
    case (AddOp bin n)
    then have "map_of b bin = None \<or> (\<exists>i. map_of b bin = Some (AInt i))"
      using assms(1,2) by (cases "map_of b bin") (auto simp: binsTyped_def binTyped_def)
    then show ?thesis using AddOp by (auto simp: update_conv')
  qed auto
  then show ?thesis using docOp_typed [OF assms(1,2)] runOp_doc by blast
qed

lemma runOps_up:
  assumes "list_all opTyped ops" and "sizesOk B ops" and "binsTyped (map_of b)" and "B \<subseteq> dom (map_of b)"
  shows "\<exists>res b'. runOps ops b = Some (res, b') \<and> binsTyped (map_of b')"
  using assms
proof (induction ops arbitrary: B b)
  case (Cons op ops)
  have sz: "bin \<in> stringBins \<and> map_of b bin \<noteq> None" if "op = ListSizeOp bin" for bin
    using Cons.prems(2,4) that by auto
  obtain res b' where r: "runOp op b = Some (res, b')" "binsTyped (map_of b')" "dom (map_of b) \<subseteq> dom (map_of b')"
      "\<forall>ord flags bin v. op = ListAppendWithPolicyOp ord flags bin v \<longrightarrow> map_of b' bin \<noteq> None"
    using runOp_up [OF _ Cons.prems(3) sz] Cons.prems(1) by (simp only: list.pred_inject) blast
  obtain B' where "sizesOk B' ops" "B' \<subseteq> dom (map_of b')"
  proof (cases op)
    case (ListAppendWithPolicyOp ord flags bin v)
    then show thesis using that [of "insert bin B"] Cons.prems(2,4) r(3,4) by auto
  qed (use that [of B] Cons.prems(2,4) r(3) in auto)
  from Cons.IH [OF _ this(1) r(2) this(2)] Cons.prems(1) show ?case by (auto simp: r(1))
qed simp

lemma runRuns_up:
  assumes "list_all opTyped ops" and "sizesOk {} ops" and "binsTyped (map_of b)"
  shows "runRuns n ops b \<noteq> None"
  using assms(3)
proof (induction n arbitrary: b)
  case (Suc n)
  obtain res b' where "runOps ops b = Some (res, b')" "binsTyped (map_of b')" using runOps_up [OF assms(1,2) Suc.prems] by auto
  then show ?case using Suc.IH by simp
qed (use runOps_up [OF assms(1,2)] in fastforce)

interpretation cluster_up: aerospike_up "cluster lost" clusterRecs for lost
proof unfold_locales
  fix c ops key and wp :: asWritePolicy
  assume c: "clusterTyped clusterRecs c" "list_all opTyped ops" "sizesOk {} ops" "wpRecordExistsAction wp = UPDATE_ONLY \<longrightarrow> clusterRecs c key \<noteq> None"
  have "binsTyped (map_of (storedBins c key))" using cluster.typed_bins [OF c(1), of key] by (simp add: binsOf_cluster)
  then obtain r where "runRuns (min lost (nat (wpMaxRetries wp))) ops (storedBins c key) = Some r" using runRuns_up [OF c(2,3)] by blast
  then show "\<exists>r c'. asOperate (cluster lost) wp key ops c = (Inr r, c')"
    using c(4) by (cases r) (auto simp: cluster_def clusterOperate_def clusterRecs_def)
qed (auto simp: cluster_def clusterRecs_def)


text \<open>The stores on a cluster that answers.\<close>

locale aerospike_store_up = aerospike_up "ac_client (as_client s)" recs + aerospike_store s recs
  for s :: "('c, 'x) aerospikeStore_scheme" and recs

locale aerospike_seen = aerospike_store_up s recs
  for s :: "('c, 'x) aerospikeSeenCounter_scheme" and recs
begin

lemma seenOperate_effect:
  assumes "clusterTyped recs c"
  shows "\<exists>c' us. seenOperate s (ac_namespace (as_client s), as_setName s, t) x c =
      (Inr \<lparr>NewCount = length us, ThresholdReached = (int (length us) \<ge> as_threshold s \<and> \<not> asFired recs s c t)\<rparr>, c')
    \<and> clusterTyped recs c' \<and> distinct us \<and> set us = insert x (asSubs recs s c t)
    \<and> recOf c' = (recOf c)(t := (recOf c t)(seenSubtreesBin \<mapsto> AList (map AStr us)))"
proof -
  let ?key = "(ac_namespace (as_client s), as_setName s, t)" and ?wp = "(storePolicy s)\<lparr>wpRecordExistsAction := UPDATE\<rparr>"
  obtain r c' where op: "asOperate (ac_client (as_client s)) ?wp ?key (seenOps x) c = (Inr r, c')"
    using operate_up [OF assms list_all_seenOps, of x ?wp ?key] by (auto simp: seenOps_def subtrees_string)
  from operate [OF this] obtain n res b where b: "docRuns n (seenOps x) (recOf c t) res b" "recs c' = (recs c)(?key \<mapsto> b)" "r = opResults res"
    unfolding opApplied_def recOf_def by blast
  obtain us where us: "b = (recOf c t)(seenSubtreesBin \<mapsto> AList (map AStr us))" "distinct us" "set us = insert x (strSet (recOf c t) seenSubtreesBin)"
      "newSizeOf (opResults res) = Inr (int (length us))" "opResults res seenThresholdFired = recOf c t seenThresholdFired"
    using docRuns_seen [OF recOf_typed [OF assms] b(1)] by blast
  have "seenOperate s ?key x c =
      (Inr \<lparr>NewCount = length us, ThresholdReached = (int (length us) \<ge> as_threshold s \<and> \<not> asFired recs s c t)\<rparr>, c')"
    using op unfolding seenOperate_def seenOps_def [symmetric] by (simp add: b(3) us(4,5) asFired_recOf)
  moreover have "clusterTyped recs c'" by (rule operate_typed [OF assms op list_all_seenOps])
  moreover have "recOf c' = (recOf c)(t := b)" by (rule recOf_update [OF b(2)])
  ultimately show ?thesis using us(1-3) unfolding asSubs_recOf by blast
qed

lemma seenMark_effect:
  assumes "clusterTyped recs c"
  shows "clusterTyped recs (seenMark s (ac_namespace (as_client s), as_setName s, t) r c)"
    and "recOf (seenMark s (ac_namespace (as_client s), as_setName s, t) r c) =
      (if ThresholdReached r then (recOf c)(t := (recOf c t)(seenThresholdFired \<mapsto> AInt 1)) else recOf c)"
proof -
  let ?key = "(ac_namespace (as_client s), as_setName s, t)" and ?wp = "(storePolicy s)\<lparr>wpRecordExistsAction := UPDATE\<rparr>"
  obtain c' where p: "asPut (ac_client (as_client s)) ?wp ?key [(seenThresholdFired, AInt 1)] c = (None, c')" using put_up by blast
  have "clusterTyped recs c'" by (rule put_typed [OF assms p fired_typed])
  then show "clusterTyped recs (seenMark s ?key r c)" using assms p by (simp add: seenMark_def)
  have "recOf c' = (recOf c)(t := (recOf c t)(seenThresholdFired \<mapsto> AInt 1))"
    using recOf_update [OF put [OF p]] by (simp add: recOf_def)
  then show "recOf (seenMark s ?key r c) =
      (if ThresholdReached r then (recOf c)(t := (recOf c t)(seenThresholdFired \<mapsto> AInt 1)) else recOf c)"
    using p by (simp add: seenMark_def)
qed

end

sublocale aerospike_seen \<subseteq> seen: seen_counter "asSeenIncrement s" "as_threshold s" "asSeenInv recs s" "asSubs recs s"
proof unfold_locales
  fix c t
  show "finite (asSubs recs s c t)" by (rule finite_asSubs)
next
  fix c and t x :: string
  let ?key = "(ac_namespace (as_client s), as_setName s, t)"
  assume inv: "asSeenInv recs s c"
  then have typed: "clusterTyped recs c" by (simp add: asSeenInv_def)
  have fired: "asFired recs s c t' = (as_threshold s \<le> int (card (asSubs recs s c t')))" for t' using inv by (simp add: asSeenInv_def)
  obtain c1 us where c1: "seenOperate s ?key x c =
      (Inr \<lparr>NewCount = length us, ThresholdReached = (int (length us) \<ge> as_threshold s \<and> \<not> asFired recs s c t)\<rparr>, c1)"
      "clusterTyped recs c1" "distinct us" "set us = insert x (asSubs recs s c t)"
      "recOf c1 = (recOf c)(t := (recOf c t)(seenSubtreesBin \<mapsto> AList (map AStr us)))"
    using seenOperate_effect [OF typed] by blast
  define hit where "hit \<longleftrightarrow> int (length us) \<ge> as_threshold s \<and> \<not> asFired recs s c t"
  let ?r = "\<lparr>NewCount = length us, ThresholdReached = hit\<rparr>"
  define c2 where "c2 = seenMark s ?key ?r c1"
  have len: "length us = card (insert x (asSubs recs s c t))" using distinct_card [OF c1(3)] c1(4) by simp
  have ne: "seenSubtreesBin \<noteq> seenThresholdFired" by (simp add: bin_names)
  have rec2: "recOf c2 = (if hit then (recOf c1)(t := (recOf c1 t)(seenThresholdFired \<mapsto> AInt 1)) else recOf c1)"
    using seenMark_effect(2) [OF c1(2), of t ?r] by (simp add: c2_def)
  have "strSet (recOf c2 t') seenSubtreesBin = (if t' = t then set us else strSet (recOf c t') seenSubtreesBin)" for t'
    unfolding rec2 c1(5) using ne by (auto simp: strSet_def)
  then have subs: "asSubs recs s c2 = (asSubs recs s c)(t := insert x (asSubs recs s c t))"
    using c1(4) by (simp add: asSubs_recOf fun_eq_iff)
  have fired2: "asFired recs s c2 t' = (if t' = t then asFired recs s c t \<or> hit else asFired recs s c t')" for t'
    unfolding asFired_recOf rec2 c1(5) using ne by auto
  have "card (asSubs recs s c t) \<le> card (insert x (asSubs recs s c t))" by (rule card_insert_le)
  then have "asFired recs s c2 t' = (as_threshold s \<le> int (card (asSubs recs s c2 t')))" for t'
    unfolding fired2 subs using fired [of t] fired [of t'] len by (auto simp: hit_def)
  then have "asSeenInv recs s c2" using seenMark_effect(1) [OF c1(2)] by (simp add: asSeenInv_def c2_def)
  moreover have "asSeenIncrement s t x c = (Inr ?r, c2)" by (simp add: asSeenIncrement_def storeKey_ok c1(1) hit_def c2_def)
  moreover have "hit = (int (card (asSubs recs s c t)) < as_threshold s \<and> as_threshold s \<le> int (card (insert x (asSubs recs s c t))))"
    using fired [of t] len by (auto simp: hit_def)
  ultimately show "\<exists>c'. asSeenIncrement s t x c = (Inr \<lparr>NewCount = card (insert x (asSubs recs s c t)),
      ThresholdReached = (int (card (asSubs recs s c t)) < as_threshold s \<and> as_threshold s \<le> int (card (insert x (asSubs recs s c t))))\<rparr>, c')
    \<and> asSeenInv recs s c' \<and> asSubs recs s c' = (asSubs recs s c)(t := insert x (asSubs recs s c t))"
    using subs len by (simp only:) blast
qed


section \<open>Subtree counter\<close>

text \<open>A record without the counter bin counts as zero, as the add operation takes it.\<close>

definition counterOf :: "asBins \<Rightarrow> int" where
  "counterOf b = (case b subtreeCounterBin of Some (AInt i) \<Rightarrow> i | _ \<Rightarrow> 0)"

definition asRemaining :: "('c \<Rightarrow> asKey \<Rightarrow> asBins option) \<Rightarrow> ('c, 'x) aerospikeStore_scheme \<Rightarrow> 'c \<Rightarrow> string \<Rightarrow> int option" where
  "asRemaining recs s c h = map_option counterOf (recs c (ac_namespace (as_client s), as_setName s, h))"

definition decOps :: "asOperation list" where
  "decOps = [AddOp subtreeCounterBin (- 1), GetOp]"

lemma docOps_dec:
  assumes "docOps decOps b res b'"
  shows "counterOf b' = counterOf b - 1" and "opResults res subtreeCounterBin = Some (AInt (counterOf b'))"
proof -
  have d: "distinct (map fst res)" "map_of res = b'" using assms by (auto simp: decOps_def)
  have b': "b' subtreeCounterBin = Some (AInt (counterOf b - 1))" using assms by (auto simp: decOps_def counterOf_def simp del: map_of_eq_Some_iff)
  show "counterOf b' = counterOf b - 1" using b' by (simp add: counterOf_def)
  have "filter (\<lambda>r. fst r = k) xs = (case map_of xs k of None \<Rightarrow> [] | Some v \<Rightarrow> [(k, v)])"
    if "distinct (map fst xs)" for xs :: "(string \<times> asValue) list" and k
    using that by (induction xs) (auto simp: filter_empty_conv rev_image_eqI split: option.splits)
  from this [OF d(1), of subtreeCounterBin] show "opResults res subtreeCounterBin = Some (AInt (counterOf b'))"
    using b' d(2) \<open>counterOf b' = counterOf b - 1\<close> by (simp add: opResults_def)
qed

lemma docRuns_dec:
  assumes "docRuns n decOps b res b'"
  shows "counterOf b' = counterOf b - 1 - int n \<and> opResults res subtreeCounterBin = Some (AInt (counterOf b'))"
  using assms
proof (induction n arbitrary: b)
  case (Suc n)
  then obtain r1 b1 where "docOps decOps b r1 b1" "docRuns n decOps b1 res b'" by auto
  then show ?case using Suc.IH [of b1] docOps_dec(1) [of b r1 b1] by simp
qed (simp add: docOps_dec)

context aerospike_store
begin

lemma asRemaining_update:
  "recs c' = (recs c)((ac_namespace (as_client s), as_setName s, h) \<mapsto> b) \<Longrightarrow> asRemaining recs s c' = (asRemaining recs s c)(h \<mapsto> counterOf b)"
  by (simp add: asRemaining_def fun_eq_iff)

lemma operate_dec:
  assumes "opApplied recs wp (ac_namespace (as_client s), as_setName s, h) decOps c res c'"
    and "wpRecordExistsAction wp = UPDATE_ONLY" and "wpMaxRetries wp = as_maxRetries s"
  shows "\<exists>i n. n \<le> nat (as_maxRetries s) \<and> asRemaining recs s c h = Some i \<and> opResults res subtreeCounterBin = Some (AInt (i - 1 - int n))
    \<and> asRemaining recs s c' = (asRemaining recs s c)(h \<mapsto> i - 1 - int n)"
proof -
  let ?key = "(ac_namespace (as_client s), as_setName s, h)"
  obtain b0 n b where b: "recs c ?key = Some b0" "n \<le> nat (as_maxRetries s)" "docRuns n decOps b0 res b" "recs c' = (recs c)(?key \<mapsto> b)"
    using assms by (auto simp: opApplied_def binsOf_def)
  show ?thesis
    using docRuns_dec [OF b(3)] asRemaining_update [OF b(4)] b(1,2)
    by (intro exI [of _ "counterOf b0"] exI [of _ n]) (simp add: asRemaining_def)
qed

lemma storePolicy_retries [simp]: "wpMaxRetries (storePolicy s) = as_maxRetries s"
  by (simp add: storePolicy_def WritePolicy_def)

end

locale aerospike_ttl = aerospike_store s recs for s :: "('c, 'x) aerospikeTtlStore_scheme" and recs
begin

lemma decrement_ok:
  assumes "asCounterDecrement s h c = (Inr v, c')"
  shows "\<exists>i n. n \<le> nat (as_maxRetries s) \<and> asRemaining recs s c h = Some i \<and> v = i - 1 - int n
    \<and> asRemaining recs s c' = (asRemaining recs s c)(h \<mapsto> v)"
proof -
  let ?key = "(ac_namespace (as_client s), as_setName s, h)" and ?wp = "(storePolicy s)\<lparr>wpRecordExistsAction := UPDATE_ONLY\<rparr>"
  obtain r where r: "asOperate (ac_client (as_client s)) ?wp ?key decOps c = (Inr r, c')" "r subtreeCounterBin = Some (AInt v)"
    using assms by (auto simp: asCounterDecrement_def storeKey_ok decOps_def Let_def split: prod.splits sum.splits option.splits asValue.splits)
  obtain res where res: "opApplied recs ?wp ?key decOps c res c'" "r = opResults res" using operate [OF r(1)] by blast
  show ?thesis using operate_dec [OF res(1)] res(2) r(2) by auto
qed

lemma decrement_failed:
  assumes "asCounterDecrement s h c = (Inl e, c')"
  shows "asRemaining recs s c' = asRemaining recs s c \<or>
    (\<exists>i n. n \<le> nat (as_maxRetries s) \<and> asRemaining recs s c h = Some i \<and> asRemaining recs s c' = (asRemaining recs s c)(h \<mapsto> i - 1 - int n))"
proof -
  let ?key = "(ac_namespace (as_client s), as_setName s, h)" and ?wp = "(storePolicy s)\<lparr>wpRecordExistsAction := UPDATE_ONLY\<rparr>"
  obtain r where r: "asOperate (ac_client (as_client s)) ?wp ?key decOps c = (r, c')"
    using assms by (auto simp: asCounterDecrement_def storeKey_ok decOps_def Let_def split: prod.splits sum.splits option.splits asValue.splits)
  then have "recs c' = recs c \<or> (\<exists>res. opApplied recs ?wp ?key decOps c res c')" using operate operate_failed by (cases r) blast+
  then show ?thesis
  proof
    assume "\<exists>res. opApplied recs ?wp ?key decOps c res c'"
    then obtain res where res: "opApplied recs ?wp ?key decOps c res c'" by blast
    show ?thesis using operate_dec [OF res] by simp blast
  qed (simp add: asRemaining_def fun_eq_iff)
qed

lemma init_ok:
  assumes "asCounterInit s h n c = (Inr (), c')"
  shows "asRemaining recs s c' = (asRemaining recs s c)(h \<mapsto> n)"
proof -
  let ?key = "(ac_namespace (as_client s), as_setName s, h)"
  obtain wp where "asPut (ac_client (as_client s)) wp ?key [(subtreeCounterBin, AInt n)] c = (None, c')"
    using assms by (auto simp: asCounterInit_def storeKey_ok Let_def split: prod.splits option.splits)
  from asRemaining_update [OF put [OF this]] show ?thesis by (simp add: counterOf_def)
qed

end


section \<open>Callback accumulator\<close>

definition rowValue :: "entryRow \<Rightarrow> asValue" where
  "rowValue r = entryValue (er_url r) (er_txids r) (er_index r) (er_stump r)"

definition entryOf :: "entryRow \<Rightarrow> AccumulatedCallbackEntry" where
  "entryOf r = \<lparr>acc_TxIDs = er_txids r, acc_SubtreeIndex = er_index r, acc_StumpData = er_stump r\<rparr>"

lemma fold_addItem: "fold addItem (map rowValue rows) result = fold addEntry (filter (\<lambda>r. er_url r \<noteq> '''') rows) result"
proof -
  have "addItem (rowValue r) m = (if er_url r = '''' then m else addEntry r m)" for r m
    by (simp add: addItem_def addEntry_def rowValue_def entryValue_def parseEntry_def Let_def)
  then show ?thesis by (induction rows arbitrary: result) simp_all
qed

lemma fold_addEntry_nonempty: "fold addEntry rows result = [] \<longleftrightarrow> rows = [] \<and> result = []"
proof -
  have "addEntry r m \<noteq> []" for r m by (cases m) (auto simp: addEntry_def)
  then show ?thesis by (induction rows arbitrary: result) auto
qed

text \<open>How often an answer has an entry for a URL; both answers are Go maps, so the order of the URLs does not matter.\<close>

definition entryCount :: "(string \<times> AccumulatedCallbackEntry list) list option \<Rightarrow> string \<Rightarrow> AccumulatedCallbackEntry \<Rightarrow> nat" where
  "entryCount x u e = (case x of None \<Rightarrow> 0 | Some m \<Rightarrow> (case map_of m u of None \<Rightarrow> 0 | Some es \<Rightarrow> count_list es e))"

lemma entryCount_fold:
  "entryCount (Some (fold addEntry rows result)) u e =
     entryCount (Some result) u e + size (filter_mset (\<lambda>r. er_url r = u \<and> entryOf r = e) (mset rows))"
proof (induction rows arbitrary: result)
  case (Cons r rows)
  have "entryCount (Some (addEntry r result)) u e = entryCount (Some result) u e + (if er_url r = u \<and> entryOf r = e then 1 else 0)"
    by (auto simp: entryCount_def addEntry_def entryOf_def update_conv' split: option.splits)
  then show ?case using Cons by simp
qed simp

text \<open>
  The record of a block holds the rows of the SQL table for this block, each as often as the client has applied the
  call: at least once and at most \<open>n\<close> times.
\<close>

definition repeated :: "nat \<Rightarrow> 'a multiset \<Rightarrow> 'a multiset \<Rightarrow> bool" where
  "repeated n A B \<longleftrightarrow> A \<subseteq># B \<and> B \<subseteq># repeat_mset n A"

lemma filter_repeat: "filter_mset P (repeat_mset n A) = repeat_mset n (filter_mset P A)"
  by (induction n) simp_all

lemma repeated_size:
  assumes "repeated n A B"
  shows "size (filter_mset P A) \<le> size (filter_mset P B) \<and> size (filter_mset P B) \<le> n * size (filter_mset P A)"
proof -
  have "size (repeat_mset n M) = n * size M" for M :: "'a multiset" by (induction n) simp_all
  moreover have "filter_mset P A \<subseteq># filter_mset P B" "filter_mset P B \<subseteq># filter_mset P (repeat_mset n A)"
    using assms by (simp_all add: repeated_def multiset_filter_mono)
  ultimately show ?thesis using size_mset_mono by (metis filter_repeat)
qed

lemma repeated_empty: "repeated n A B \<Longrightarrow> A = {#} \<longleftrightarrow> B = {#}"
  by (auto simp: repeated_def)

lemma repeated_add:
  assumes "repeated n A B" and "k < n"
  shows "repeated n (add_mset x A) (B + replicate_mset (Suc k) x)"
proof -
  have "repeat_mset n (add_mset x A) = repeat_mset n A + replicate_mset n x" by (induction n) simp_all
  moreover have "replicate_mset (Suc k) x \<subseteq># replicate_mset n x" using assms(2) by (simp only: count_le_replicate_mset_subset_eq [symmetric] count_replicate_mset) simp
  ultimately have "B + replicate_mset (Suc k) x \<subseteq># repeat_mset n (add_mset x A)"
    using assms(1) unfolding repeated_def by (metis subset_mset.add_mono)
  moreover have "add_mset x A \<subseteq># B + replicate_mset (Suc k) x" using assms(1) by (simp add: repeated_def subset_mset.add_increasing2)
  ultimately show ?thesis by (simp add: repeated_def)
qed

definition blockRows :: "string \<Rightarrow> db \<Rightarrow> entryRow list" where
  "blockRows h d = filter (\<lambda>r. er_block r = h) (callback_accumulator_entries d)"

definition sameEntries :: "nat \<Rightarrow> ('c \<Rightarrow> asKey \<Rightarrow> asBins option) \<Rightarrow> ('c, 'x) aerospikeStore_scheme \<Rightarrow> 'c \<Rightarrow> db \<Rightarrow> bool" where
  "sameEntries n recs s c d \<longleftrightarrow> (\<forall>h. \<exists>rows. repeated n (mset (blockRows h d)) (mset rows)
     \<and> map_option (\<lambda>b. b accumEntriesBin) (recs c (ac_namespace (as_client s), as_setName s, h)) =
         (if rows = [] then None else Some (Some (AList (map rowValue rows)))))"

lemma docRuns_append:
  "docRuns n [ListAppendOp bin v] b res b' \<Longrightarrow> listIn b bin = Some vs \<Longrightarrow> b' bin = Some (AList (vs @ replicate (Suc n) v))"
proof (induction n arbitrary: b vs)
  case (Suc n)
  obtain b1 where b1: "b1 = b(bin \<mapsto> AList (vs @ [v]))" "docRuns n [ListAppendOp bin v] b1 res b'" using Suc.prems by auto
  have "listIn b1 bin = Some (vs @ [v])" by (simp add: b1(1) listIn_def)
  from Suc.IH [OF b1(2) this] show ?case by simp
qed auto

text \<open>
  Two answers agree up to repetitions: neither is an error, both are nil or none is, and every entry of a URL is in the
  first at least as often as in the second and at most \<open>n\<close> times as often. The Aerospike store leaves out what has no URL.
\<close>

definition answersAgree ::
    "nat \<Rightarrow> (string \<times> AccumulatedCallbackEntry list) list option option \<Rightarrow> (string \<times> AccumulatedCallbackEntry list) list option option \<Rightarrow> bool" where
  "answersAgree n a b \<longleftrightarrow> (case (a, b) of
      (Some x, Some y) \<Rightarrow> (x = None \<longleftrightarrow> y = None) \<and> (\<forall>e. entryCount x '''' e = 0)
        \<and> (\<forall>u e. u \<noteq> '''' \<longrightarrow> entryCount y u e \<le> entryCount x u e \<and> entryCount x u e \<le> n * entryCount y u e)
    | _ \<Rightarrow> False)"

lemma agree_rows:
  assumes "repeated n (mset rows) (mset rows')" and "rows \<noteq> []" and "mset perm = mset rows"
  shows "answersAgree n (Some (Some (fold addItem (map rowValue rows') []))) (Some (Some (fold addEntry perm [])))"
proof -
  have nil: "entryCount (Some []) u e = 0" for u e by (simp add: entryCount_def)
  have "filter_mset (\<lambda>r. er_url r = u \<and> entryOf r = e) (mset (filter (\<lambda>r. er_url r \<noteq> '''') rows')) =
      (if u = '''' then {#} else filter_mset (\<lambda>r. er_url r = u \<and> entryOf r = e) (mset rows'))" for u e
    by (induction rows') auto
  then show ?thesis using repeated_size [OF assms(1)]
    by (simp add: answersAgree_def fold_addItem entryCount_fold nil assms(3))
qed

locale aerospike_ttl_up = aerospike_store_up s recs + aerospike_ttl s recs
  for s :: "('c, 'x) aerospikeTtlStore_scheme" and recs
begin

lemma append_simulates:
  assumes "sameEntries (Suc (nat (as_maxRetries s))) recs s c d" and "clusterTyped recs c"
    and "accAppend now ttl None h url txids i stump d = (r, d')"
  shows "\<exists>c'. asAccAppend s h url txids i stump c = (Inr (), c') \<and> r = Inr ()
    \<and> sameEntries (Suc (nat (as_maxRetries s))) recs s c' d' \<and> clusterTyped recs c'"
proof -
  let ?n = "Suc (nat (as_maxRetries s))" and ?key = "\<lambda>h. (ac_namespace (as_client s), as_setName s, h)" and ?v = "entryValue url txids i stump"
  let ?wp = "(storePolicy s)\<lparr>wpRecordExistsAction := UPDATE, wpExpiration := word_of_int (as_ttlSec s)\<rparr>"
  let ?ops = "[ListAppendOp accumEntriesBin ?v]"
  have typed: "list_all opTyped ?ops" by auto
  obtain x c' where op: "asOperate (ac_client (as_client s)) ?wp (?key h) ?ops c = (Inr x, c')"
    using operate_up [OF assms(2) typed, of ?wp "?key h"] by auto
  obtain res k b where b: "k < ?n" "docRuns k ?ops (binsOf (recs c (?key h))) res b" "recs c' = (recs c)(?key h \<mapsto> b)"
    using operate [OF op] unfolding opApplied_def by (auto simp: less_Suc_eq_le simp del: docRuns.simps)
  let ?row = "\<lparr>er_block = h, er_url = url, er_index = i, er_txids = txids, er_stump = stump\<rparr>"
  have d': "r = Inr ()" "blockRows h' d' = blockRows h' d @ (if h' = h then [?row] else [])" for h'
    using assms(3) by (auto simp: accAppend_def sqlTx_def blockRows_def)
  have "\<exists>rows. repeated ?n (mset (blockRows h' d')) (mset rows)
      \<and> map_option (\<lambda>b. b accumEntriesBin) (recs c' (?key h')) = (if rows = [] then None else Some (Some (AList (map rowValue rows))))" for h'
  proof -
    obtain rows where rows: "repeated ?n (mset (blockRows h' d)) (mset rows)"
      "map_option (\<lambda>b. b accumEntriesBin) (recs c (?key h')) = (if rows = [] then None else Some (Some (AList (map rowValue rows))))"
      using assms(1) unfolding sameEntries_def by blast
    show ?thesis
    proof (cases "h' = h")
      case False
      then show ?thesis using rows by (intro exI [of _ rows]) (simp add: b(3) d'(2))
    next
      case True
      have "listIn (binsOf (recs c (?key h))) accumEntriesBin = Some (map rowValue rows)"
        using rows(2) True by (auto simp: listIn_def binsOf_def split: if_splits)
      from docRuns_append [OF b(2) this] have "b accumEntriesBin = Some (AList (map rowValue (rows @ replicate (Suc k) ?row)))"
        by (simp add: rowValue_def)
      then show ?thesis using True repeated_add [OF rows(1) b(1), of ?row]
        by (intro exI [of _ "rows @ replicate (Suc k) ?row"]) (simp add: b(3) d'(2) add_ac)
    qed
  qed
  moreover have "clusterTyped recs c'" by (rule operate_typed [OF assms(2) op typed])
  moreover have "asAccAppend s h url txids i stump c = (Inr (), c')" using op by (simp add: asAccAppend_def storeKey_ok Let_def)
  ultimately show ?thesis using d'(1) unfolding sameEntries_def by blast
qed

lemma read_simulates:
  assumes "sameEntries n recs s c d" and "clusterTyped recs c" and "row_order ro" and "accReadAndDelete ro None h d = (Inr y, d')"
  shows "\<exists>x c'. asAccReadAndDelete s h c = (Inr x, c') \<and> answersAgree n (Some x) (Some y) \<and> sameEntries n recs s c' d' \<and> clusterTyped recs c'"
proof -
  let ?key = "\<lambda>h. (ac_namespace (as_client s), as_setName s, h)"
  have perm: "mset (ro (blockRows h d)) = mset (blockRows h d)" using assms(3) by (simp add: row_order_def)
  have y: "y = (if blockRows h d = [] then None else Some (fold addEntry (ro (blockRows h d)) []))"
    using assms(4) fold_addEntry_nonempty [of "ro (blockRows h d)" "[]"] perm
    by (auto simp: accReadAndDelete_def sqlTx_def Let_def blockRows_def [symmetric])
  have d': "blockRows h' d' = (if h' = h then [] else blockRows h' d)" for h'
    using assms(4) by (auto simp: accReadAndDelete_def sqlTx_def Let_def blockRows_def filter_empty_conv intro: filter_cong)
  obtain rows where rows: "repeated n (mset (blockRows h d)) (mset rows)"
    "map_option (\<lambda>b. b accumEntriesBin) (recs c (?key h)) = (if rows = [] then None else Some (Some (AList (map rowValue rows))))"
    using assms(1) unfolding sameEntries_def by blast
  have empty: "blockRows h d = [] \<longleftrightarrow> rows = []" using repeated_empty [OF rows(1)] by simp
  have keep: "sameEntries n recs s c' d'" if "recs c' = (recs c)(?key h := None)" for c'
    using assms(1) that unfolding sameEntries_def d' by (auto simp: repeated_def)
  show ?thesis
  proof (cases "rows = []")
    case True
    then have none: "recs c (?key h) = None" using rows(2) by simp
    then have "asAccReadAndDelete s h c = (Inr None, c)" using get_up_missing [OF none] by (simp add: asAccReadAndDelete_def storeKey_ok)
    moreover have "answersAgree n (Some None) (Some y)" using y empty True by (simp add: answersAgree_def entryCount_def)
    moreover have "recs c = (recs c)(?key h := None)" using none by (simp add: fun_eq_iff)
    ultimately show ?thesis using keep assms(2) by blast
  next
    case False
    then obtain b where b: "recs c (?key h) = Some b" "b accumEntriesBin = Some (AList (map rowValue rows))" using rows(2) by auto
    obtain bins where bins: "asGet (ac_client (as_client s)) (?key h) accumEntriesBin c = Inr (Some bins)" using get_up [of c "?key h"] b(1) by blast
    have eq: "bins accumEntriesBin = b accumEntriesBin" using get [OF bins] b(1) by (simp add: readsBin_def)
    obtain c' where c': "asDelete (ac_client (as_client s)) (storePolicy s) (?key h) c = (None, c')" using delete_up by blast
    have "asAccReadAndDelete s h c = (Inr (Some (fold addItem (map rowValue rows) [])), c')"
      by (simp add: asAccReadAndDelete_def storeKey_ok bins c' eq b(2) Let_def)
    moreover have "answersAgree n (Some (Some (fold addItem (map rowValue rows) []))) (Some y)"
      using agree_rows [OF rows(1) _ perm] False empty y by simp
    ultimately show ?thesis using keep [OF delete [OF c']] delete_typed [OF assms(2) c'] by blast
  qed
qed

end

text \<open>A sequence of calls on an accumulator and its answers; \<open>None\<close> is an error.\<close>

datatype accCall = AccAppend string string "string list" int bytes | AccReadAndDelete string

primrec accRun ::
    "(string \<Rightarrow> string \<Rightarrow> string list \<Rightarrow> int \<Rightarrow> bytes \<Rightarrow> 's \<Rightarrow> ('e + unit) \<times> 's)
     \<Rightarrow> (string \<Rightarrow> 's \<Rightarrow> ('e + (string \<times> AccumulatedCallbackEntry list) list option) \<times> 's)
     \<Rightarrow> accCall list \<Rightarrow> 's \<Rightarrow> (string \<times> AccumulatedCallbackEntry list) list option option list" where
  "accRun appendTo readFrom [] s = []"
| "accRun appendTo readFrom (call # calls) s = (case call of
      AccAppend h url txids i stump \<Rightarrow>
        (let (r, s) = appendTo h url txids i stump s
         in (case r of Inl e \<Rightarrow> None | Inr _ \<Rightarrow> Some None) # accRun appendTo readFrom calls s)
    | AccReadAndDelete h \<Rightarrow>
        (let (r, s) = readFrom h s
         in (case r of Inl e \<Rightarrow> None | Inr x \<Rightarrow> Some x) # accRun appendTo readFrom calls s))"

context aerospike_ttl_up
begin

lemma accRun_simulates:
  assumes "sameEntries (Suc (nat (as_maxRetries s))) recs s c d" and "clusterTyped recs c" and "row_order ro"
  shows "list_all2 (answersAgree (Suc (nat (as_maxRetries s)))) (accRun (asAccAppend s) (asAccReadAndDelete s) calls c)
    (accRun (accAppend now ttl None) (accReadAndDelete ro None) calls d)"
  using assms(1,2)
proof (induction calls arbitrary: c d)
  case (Cons call calls)
  show ?case
  proof (cases call)
    case (AccAppend h url txids i stump)
    obtain r d' where d': "accAppend now ttl None h url txids i stump d = (r, d')" by fastforce
    have "answersAgree n (Some None) (Some None)" for n by (simp add: answersAgree_def entryCount_def)
    then show ?thesis using append_simulates [OF Cons.prems d'] Cons.IH by (auto simp: AccAppend d')
  next
    case (AccReadAndDelete h)
    obtain y d' where d': "accReadAndDelete ro None h d = (Inr y, d')" by (simp add: accReadAndDelete_def sqlTx_def Let_def)
    from read_simulates [OF Cons.prems assms(3) d'] Cons.IH show ?thesis by (auto simp: AccReadAndDelete d')
  qed
qed simp

end

lemma empty_cluster:
  assumes "\<forall>key. recs c key = None"
  shows "clusterTyped recs c" and "sameEntries n recs s c emptyDb"
  using assms by (simp_all add: clusterTyped_def sameEntries_def emptyDb_def blockRows_def repeated_def exI [of _ "[]"])

text \<open>
  C33: The two accumulators agree up to repetitions. Take any sequence of \<open>Append\<close> and \<open>ReadAndDelete\<close> calls, interleaved over
  blocks, on the Aerospike store with an empty cluster that answers (after lost replies that the client retries, if need
  be) and on the SQL store with an empty database whose transactions succeed and whose query may give the rows in any order. No
  call fails, a read gives nil from one store exactly if it does from the other, and for every non-empty URL the
  Aerospike store gives each entry at least as often as the SQL store and at most \<open>1 + maxRetries\<close> times as often; so
  without retries the groups are the same up to the order of their entries. Entries with an empty URL are given
  by the SQL store only. The STUMP data of an entry is not nil.
\<close>

theorem accumulators_agree:
  assumes "aerospike_up (ac_client (as_client s)) recs" and "\<forall>key. recs c key = None" and "row_order ro"
  shows "list_all2 (answersAgree (Suc (nat (as_maxRetries s)))) (accRun (asAccAppend s) (asAccReadAndDelete s) calls c)
    (accRun (accAppend now ttl None) (accReadAndDelete ro None) calls emptyDb)"
proof -
  have st: "aerospike_store s recs" using assms(1) by (simp add: aerospike_store_def aerospike_up_def)
  then have up: "aerospike_ttl_up s recs"
    using assms(1) by (simp add: aerospike_ttl_up_def aerospike_store_up_def aerospike_ttl_def)
  have same: "clusterTyped recs c" "sameEntries n recs s c emptyDb" for n using empty_cluster [of recs c] assms(2) by blast+
  show ?thesis by (rule aerospike_ttl_up.accRun_simulates [OF up same(2,1) assms(3)])
qed

definition exTtlStore :: "nat \<Rightarrow> int \<Rightarrow> cluster aerospikeTtlStore" where
  "exTtlStore lost retries =
     \<lparr>as_client = \<lparr>ac_client = cluster lost, ac_namespace = ''merkle''\<rparr>, as_setName = ''set'', as_maxRetries = retries, as_retryBaseMs = 100, as_ttlSec = 3600\<rparr>"

theorem accumulators_agree_witness:
  "list_all2 (answersAgree 4)
     (accRun (asAccAppend (exTtlStore 1 3)) (asAccReadAndDelete (exTtlStore 1 3))
       [AccAppend ''b'' ''http://u'' [''t''] 0 [1], AccAppend ''c'' ''http://u'' [] 1 [2], AccReadAndDelete ''b'', AccReadAndDelete ''b''] [])
     [Some None, Some None, Some (Some [(''http://u'', [\<lparr>acc_TxIDs = [''t''], acc_SubtreeIndex = 0, acc_StumpData = [1]\<rparr>])]), Some None]"
proof -
  let ?calls = "[AccAppend ''b'' ''http://u'' [''t''] 0 [1], AccAppend ''c'' ''http://u'' [] 1 [2], AccReadAndDelete ''b'', AccReadAndDelete ''b'']"
  have up: "aerospike_up (ac_client (as_client (exTtlStore 1 3))) clusterRecs"
    using cluster_up.aerospike_up_axioms by (simp add: exTtlStore_def)
  have r: "row_order (rev :: entryRow list \<Rightarrow> _)" by (simp add: row_order_def)
  have n: "Suc (nat (as_maxRetries (exTtlStore 1 3))) = 4" by (simp add: exTtlStore_def)
  have "accRun (accAppend 0 0 None) (accReadAndDelete rev None) ?calls emptyDb =
      [Some None, Some None, Some (Some [(''http://u'', [\<lparr>acc_TxIDs = [''t''], acc_SubtreeIndex = 0, acc_StumpData = [1]\<rparr>])]), Some None]"
    by (simp add: accAppend_def accReadAndDelete_def sqlTx_def emptyDb_def addEntry_def Let_def)
  then show ?thesis using accumulators_agree [OF up _ r, of "[]" ?calls 0 0] unfolding n by (simp add: clusterRecs_def)
qed

text \<open>
  With retries by the client a reply that is lost makes the call apply twice. A counter of two
  subtrees then answers zero to the first decrement, and an entry is accumulated twice.
\<close>

lemma retried_decrement:
  "\<exists>c. asCounterInit (exTtlStore 1 3) ''b'' 2 [] = (Inr (), c) \<and> fst (asCounterDecrement (exTtlStore 1 3) ''b'' c) = Inr 0"
  by (simp add: asCounterInit_def asCounterDecrement_def exTtlStore_def storeKey_def storePolicy_def WritePolicy_def cluster_def
      storedBins_def clusterOperate_def subtreeCounterBin_def opResults_def)

end
