(* ===== verification/Aerospike_Backend.thy ===== *)
theory Aerospike_Backend
  imports Aerospike Block_Flow Subtree_Fetcher
begin

text \<open>
  The services on the Aerospike stores. The stores meet the contracts under which the subtree fetcher
  and the subtree workers were verified, so the same theorems hold for them: for the fetcher on a
  cluster that answers, for the workers when the client does not retry. The types of all bins are
  shown to fit the type assertions of the code after any sequence of calls.
\<close>

section \<open>The counter of the workers\<close>

locale aerospike_counter = aerospike_ttl s recs for s :: "('c, 'x) aerospikeTtlStore_scheme" and recs +
  assumes no_retries: "as_maxRetries s \<le> 0"

sublocale aerospike_counter \<subseteq> flaky: flaky_counter "\<lambda>_ :: unit. asCounterDecrement s" "asRemaining recs s"
proof unfold_locales
  fix h' h :: string and c
  obtain r c' where d: "asCounterDecrement s h c = (r, c')" by fastforce
  assume "h' \<noteq> h"
  then show "asRemaining recs s (snd (asCounterDecrement s h c)) h' = asRemaining recs s c h'"
    using decrement_ok [of h c] decrement_failed [of h c] d by (cases r) fastforce+
next
  fix h c k
  assume a: "fst (asCounterDecrement s h c) = Inr k"
  then have "asCounterDecrement s h c = (Inr k, snd (asCounterDecrement s h c))" by (simp add: prod_eq_iff)
  from decrement_ok [OF this] no_retries
  show "asRemaining recs s c h = Some (k + 1) \<and> asRemaining recs s (snd (asCounterDecrement s h c)) h = Some k" by auto
next
  fix h c e
  assume a: "fst (asCounterDecrement s h c) = Inl e"
  then have "asCounterDecrement s h c = (Inl e, snd (asCounterDecrement s h c))" by (simp add: prod_eq_iff)
  from decrement_failed [OF this] no_retries
  show "asRemaining recs s (snd (asCounterDecrement s h c)) h = asRemaining recs s c h \<or>
      (\<exists>n. asRemaining recs s c h = Some n \<and> asRemaining recs s (snd (asCounterDecrement s h c)) h = Some (n - 1))"
    by auto
qed

context aerospike_counter
begin

lemmas topic_ordered = flaky.flow_partition [OF flaky.flow_reach]

end

interpretation exCounter: aerospike_counter "exTtlStore lost 0" clusterRecs for lost
proof -
  have "aerospike (ac_client (as_client (exTtlStore lost 0))) clusterRecs"
    using cluster.aerospike_axioms by (simp add: exTtlStore_def)
  then show "aerospike_counter (exTtlStore lost 0) clusterRecs"
    by (simp add: aerospike_counter_def aerospike_counter_axioms_def aerospike_ttl_def aerospike_store_def exTtlStore_def)
qed

text \<open>
  C17: With the Aerospike counter the callback topic is ordered as with the SQL counter, provided the
  client does not retry a decrement: in every interleaving of concurrent workers, with calls that fail
  after or before they took effect, no first-attempt STUMP of a block and URL follows the
  BLOCK_PROCESSED of that block and URL in a partition, and BLOCK_PROCESSED is emitted at most once
  per block.
\<close>

theorem aerospike_topic_ordered:
  assumes "aerospike (ac_client (as_client st)) recs" and "as_maxRetries st \<le> 0"
    and "freach (\<lambda>_ :: unit. asCounterDecrement st) sha (flowInit wms c) s"
    and "\<forall>h n. asRemaining recs st c h = Some n \<longrightarrow> int (length (filter (\<lambda>wm. wm_BlockHash wm = h) wms)) \<le> n"
    and "\<forall>wm \<in> set wms. CHR ''|'' \<notin> set (wm_BlockHash wm)"
  shows "ordered (map snd (filter (P \<circ> fst) (callbacks s))) \<and> list_all wfMsg (map snd (filter (P \<circ> fst) (callbacks s)))
    \<and> distinct (emitted s)"
proof -
  have "aerospike_counter st recs"
    using assms(1,2) by (simp add: aerospike_counter_def aerospike_counter_axioms_def aerospike_ttl_def aerospike_store_def)
  from aerospike_counter.topic_ordered [OF this assms(3-5)] show ?thesis by blast
qed

definition exCluster :: cluster where
  "exCluster = snd (asCounterInit (exTtlStore 0 0) ''00ab'' 1 [])"

lemmas cluster_eval = asCounterInit_def asCounterDecrement_def exTtlStore_def storeKey_def storePolicy_def WritePolicy_def cluster_def
  storedBins_def clusterOperate_def opResults_def

lemma exCluster_counts:
  "fst (asCounterDecrement (exTtlStore 0 0) ''00ab'' exCluster) = Inr 0"
  "asRemaining clusterRecs (exTtlStore 0 0) exCluster h = (if h = ''00ab'' then Some 1 else None)"
  by (simp_all add: exCluster_def cluster_eval subtreeCounterBin_def asRemaining_def clusterRecs_def counterOf_def)

theorem aerospike_topic_ordered_witness:
  "\<exists>s. freach (\<lambda>_ :: unit. asCounterDecrement (exTtlStore 0 0)) (\<lambda>_. 0) (flowInit [exWork] exCluster) s
     \<and> map snd (callbacks s) = [stumpMessage, bpMessage]
     \<and> ordered (map snd (filter ((\<lambda>_. True) \<circ> fst) (callbacks s))) \<and> distinct (emitted s)"
proof -
  obtain c where c: "asCounterDecrement (exTtlStore 0 0) ''00ab'' exCluster = (Inr 0, c)"
    using exCluster_counts(1) by (metis prod.collapse)
  have "\<exists>s. freach (\<lambda>_ :: unit. asCounterDecrement (exTtlStore 0 0)) (\<lambda>_. 0) (flowInit [exWork] exCluster) s
     \<and> callbacks s = [(HashPartitionKey (\<lambda>_. 0) ''http://cb'', stumpMessage), (HashPartitionKey (\<lambda>_. 0) ''http://cb'', bpMessage)]
     \<and> emitted s = [''00ab'']" by (rule exFlow_any) (rule c)
  then obtain s where s: "freach (\<lambda>_ :: unit. asCounterDecrement (exTtlStore 0 0)) (\<lambda>_. 0) (flowInit [exWork] exCluster) s"
      "map snd (callbacks s) = [stumpMessage, bpMessage]" by auto
  have as: "aerospike (ac_client (as_client (exTtlStore 0 0))) clusterRecs" using cluster.aerospike_axioms by (simp add: exTtlStore_def)
  have ok: "\<forall>h n. asRemaining clusterRecs (exTtlStore 0 0) exCluster h = Some n \<longrightarrow> int (length (filter (\<lambda>wm. wm_BlockHash wm = h) [exWork])) \<le> n"
      "\<forall>wm \<in> set [exWork]. CHR ''|'' \<notin> set (wm_BlockHash wm)" "as_maxRetries (exTtlStore 0 0) \<le> 0"
    unfolding exCluster_counts(2) by (auto simp: exWork_def exTtlStore_def split: if_splits)
  note o = aerospike_topic_ordered [OF as ok(3) s(1) ok(1,2), of "\<lambda>_. True"]
  show ?thesis by (intro exI [of _ s] conjI s o [THEN conjunct1] o [THEN conjunct2, THEN conjunct2])
qed

section \<open>The stores of the fetcher\<close>

text \<open>The bins an operation writes.\<close>

fun opBins :: "asOperation \<Rightarrow> string set" where
  "opBins (ListAppendWithPolicyOp ord flags bin v) = {bin}"
| "opBins (ListAppendOp bin v) = {bin}"
| "opBins (AddOp bin n) = {bin}"
| "opBins _ = {}"

lemma docOp_other: "docOp op b res b' \<Longrightarrow> bin \<notin> opBins op \<Longrightarrow> b' bin = b bin"
  by (cases op) auto

lemma docOps_other: "docOps ops b res b' \<Longrightarrow> \<forall>op \<in> set ops. bin \<notin> opBins op \<Longrightarrow> b' bin = b bin"
proof (induction ops arbitrary: b res)
  case (Cons op ops)
  then obtain r1 b1 r2 where "docOp op b r1 b1" "docOps ops b1 r2 b'" by auto
  then show ?case using Cons docOp_other [of op b r1 b1 bin] by (metis list.set_intros)
qed simp

lemma docRuns_other: "docRuns n ops b res b' \<Longrightarrow> \<forall>op \<in> set ops. bin \<notin> opBins op \<Longrightarrow> b' bin = b bin"
proof (induction n arbitrary: b)
  case (Suc n)
  then obtain r1 b1 where "docOps ops b r1 b1" "docRuns n ops b1 res b'" by auto
  then show ?case using Suc docOps_other [of ops b r1 b1 bin] by metis
qed (simp add: docOps_other)

context aerospike
begin

lemma operate_other:
  assumes "asOperate as wp key ops c = (r, c')" and "\<forall>op \<in> set ops. bin \<notin> opBins op"
  shows "binsOf (recs c' k) bin = binsOf (recs c k) bin"
proof -
  have "binsOf (recs c' k) bin = binsOf (recs c k) bin" if "opApplied recs wp key ops c res c'" for res
  proof -
    from that obtain n b where b: "docRuns n ops (binsOf (recs c key)) res b" "recs c' = (recs c)(key \<mapsto> b)"
      unfolding opApplied_def by blast
    show ?thesis using docRuns_other [OF b(1) assms(2)] by (simp add: b(2) binsOf_def)
  qed
  moreover have "recs c' = recs c \<or> (\<exists>res. opApplied recs wp key ops c res c')" using assms(1) operate operate_failed by (cases r) blast+
  ultimately show ?thesis by metis
qed

lemma put_other:
  assumes "asPut as wp key [(bin', v)] c = (e, c')" and "bin \<noteq> bin'"
  shows "binsOf (recs c' k) bin = binsOf (recs c k) bin"
proof -
  have "recs c' = recs c \<or> recs c' = (recs c)(key \<mapsto> binsOf (recs c key) ++ map_of [(bin', v)])"
    using assms(1) put put_failed by (cases e) blast+
  then show ?thesis using assms(2) by (auto simp: binsOf_def)
qed

end

context aerospike_seen
begin

lemma increment_other:
  assumes "asSeenIncrement s t x c = (r, c')" and "bin \<noteq> seenSubtreesBin" and "bin \<noteq> seenThresholdFired"
  shows "binsOf (recs c' k) bin = binsOf (recs c k) bin"
proof -
  obtain r1 c1 where c1: "seenOperate s (ac_namespace (as_client s), as_setName s, t) x c = (r1, c1)" by fastforce
  then obtain wp key r2 where "asOperate (ac_client (as_client s)) wp key (seenOps x) c = (r2, c1)"
    by (auto simp: seenOperate_def seenOps_def Let_def split: prod.splits sum.splits)
  then have 1: "binsOf (recs c1 k) bin = binsOf (recs c k) bin" by (rule operate_other) (simp add: seenOps_def assms(2))
  have "c' = c1 \<or> (\<exists>wp key e. asPut (ac_client (as_client s)) wp key [(seenThresholdFired, AInt 1)] c1 = (e, c'))"
    using assms(1) c1 by (auto simp: asSeenIncrement_def storeKey_ok seenMark_def split: sum.splits if_splits) (metis prod.collapse)
  then have "binsOf (recs c' k) bin = binsOf (recs c1 k) bin" using put_other assms(3) by blast
  then show ?thesis using 1 by simp
qed

end

locale aerospike_backend = store: aerospike_store_up s recs + aerospike_seen q recs
  for s :: "('c, 'x) aerospikeStore_scheme" and q :: "('c, 'y) aerospikeSeenCounter_scheme" and recs

sublocale aerospike_backend \<subseteq> be: backend ok hf "asRegAdd s" "asRegBatchGet s" "clusterTyped recs" "asUrlsOf recs s"
    "asSeenIncrement q" "as_threshold q" "asSeenInv recs q" "asSubs recs q" for ok hf
proof unfold_locales
  fix c txids
  obtain rs where "asBatchGet (ac_client (as_client s)) (BatchPolicy (as_client s) (as_maxRetries s) (as_retryBaseMs s))
      (map (\<lambda>t. (ac_namespace (as_client s), as_setName s, t)) txids) callbacksBin c = Inr rs"
    using store.batch_up by blast
  then show "\<exists>regs. asRegBatchGet s txids c = Inr regs" by (simp add: asRegBatchGet_def store.batchKeys_ok)
next
  fix c t x res c'
  assume inv: "asSeenInv recs q c" and inc: "asSeenIncrement q t x c = (res, c')"
  have "asSeenInv recs q c'" using seen.increment [OF inv, of t x] inc by auto
  moreover have "binsOf (recs c' k) callbacksBin = binsOf (recs c k) callbacksBin" for k
    by (rule increment_other [OF inc]) (simp_all add: bin_names)
  then have "asUrlsOf recs s c' = asUrlsOf recs s c" by (simp add: asUrlsOf_def strSet_def fun_eq_iff)
  ultimately show "clusterTyped recs c' \<and> asUrlsOf recs s c' = asUrlsOf recs s c" by (simp add: asSeenInv_def)
qed


context aerospike_backend
begin

lemmas seen_exact_as = be.seen_exact

end

lemma aerospike_backendI:
  assumes "aerospike_up (ac_client (as_client s)) recs" and "ac_client (as_client q) = ac_client (as_client s)"
  shows "aerospike_backend s q recs"
  using assms
  by (simp add: aerospike_backend_def aerospike_seen_def aerospike_store_up_def aerospike_store_def aerospike_up_def)

text \<open>
  C16: On the Aerospike stores, too, an announced subtree is reported to exactly those who asked. With a
  cluster that answers and one client for both stores, under the same conditions as for the SQL stores:
  for every URL the SEEN_ON_NETWORK messages carry the txids of the subtree registered with this URL,
  each once; the SEEN_MULTIPLE_NODES messages carry those of them that reach the threshold with this
  subtree; and the cache stays coherent. It makes no difference how often the client retries, or
  whether the two stores share a set.
\<close>

theorem aerospike_seen_exact:
  assumes "aerospike_up (ac_client (as_client s)) recs" and "ac_client (as_client q) = ac_client (as_client s)"
    and "\<And>h. fdHashString d h = hexEncode (rev h)"
    and "fdRegCache d = Some (realOps ok hf)" and "\<And>i. fdBatchGet d i = asRegBatchGet s" and "fdIncrement d = asSeenIncrement q"
    and "range_order (fdRegOrd d)" and "keyOrder (fdUrls d)" and "\<And>k i. fdPublish d k i = None"
    and "snd (FetchSubtreeRaw (fdNet d) (fdClient d) (sm_DataHubURL msg) (sm_Hash msg)) = Inr (concat hs)" and "\<forall>h \<in> set hs. length h = 32"
    and "fdStorageMode d = ''realtime'' \<Longrightarrow> fst (fdStoreSubtree d (sm_Hash msg) (concat hs) 0 (ftSubtrees p)) = None"
    and "\<And>c. ftDedup p = Some c \<Longrightarrow> \<not> Contains (sm_Hash msg) c"
    and "flagsOnly hf (ftCache p)" and "clusterTyped recs (ftDb p)" and "cacheCoherent hf (ftCache p) (asUrlsOf recs s (ftDb p))"
    and "asSeenInv recs q (ftDb p)"
  shows "\<exists>p' seen multi. handleSubtree sha d (Inr msg) p = Inr (None, p')
     \<and> map snd (ftCallbacks p') = map snd (ftCallbacks p) @ seen @ multi
     \<and> sentExactly (asUrlsOf recs s (ftDb p)) ((\<lambda>h. hexEncode (rev h)) ` set hs) CallbackSeenOnNetwork seen
     \<and> sentExactly (asUrlsOf recs s (ftDb p)) {t \<in> (\<lambda>h. hexEncode (rev h)) ` set hs. reaches (as_threshold q) (sm_Hash msg) (asSubs recs q (ftDb p) t)}
          CallbackSeenMultipleNodes multi
     \<and> flagsOnly hf (ftCache p') \<and> cacheCoherent hf (ftCache p') (asUrlsOf recs s (ftDb p'))"
  by (rule aerospike_backend.seen_exact_as [OF aerospike_backendI [OF assms(1,2)] assms(3-17)])

definition exStore :: "nat \<Rightarrow> cluster aerospikeStore" where
  "exStore lost = \<lparr>as_client = \<lparr>ac_client = cluster lost, ac_namespace = ''merkle''\<rparr>, as_setName = ''registrations'', as_maxRetries = 3, as_retryBaseMs = 100\<rparr>"

definition exSeen :: "nat \<Rightarrow> int \<Rightarrow> cluster aerospikeSeenCounter" where
  "exSeen lost threshold = \<lparr>as_client = \<lparr>ac_client = cluster lost, ac_namespace = ''merkle''\<rparr>, as_setName = ''seen'', as_maxRetries = 3, as_retryBaseMs = 100,
     as_threshold = threshold\<rparr>"

definition exRegistered :: cluster where
  "exRegistered = [((''merkle'', ''registrations'', hexEncode (rev exTx)), [(callbacksBin, AList [AStr ''http://a''])])]"

lemma exRegistered_facts:
  "clusterTyped clusterRecs exRegistered" "asUrlsOf clusterRecs (exStore 2) exRegistered t = (if t = hexEncode (rev exTx) then {''http://a''} else {})"
  "asSubs clusterRecs (exSeen 2 1) exRegistered t = {}" "asSeenInv clusterRecs (exSeen 2 1) exRegistered"
proof -
  have "binTyped callbacksBin (AList [AStr ''http://a''])"
    by (auto simp: binTyped_def bin_names stringBins_def intro!: exI [of _ "[''http://a'']"])
  then show typed: "clusterTyped clusterRecs exRegistered"
    by (auto simp: clusterTyped_def exRegistered_def clusterRecs_def binsTyped_def)
  show "asUrlsOf clusterRecs (exStore 2) exRegistered t = (if t = hexEncode (rev exTx) then {''http://a''} else {})"
    by (auto simp: asUrlsOf_def exStore_def exRegistered_def clusterRecs_def strSet_def binsOf_def)
  have subs: "asSubs clusterRecs (exSeen 2 1) exRegistered t = {}" for t
    by (simp add: asSubs_def exSeen_def exRegistered_def clusterRecs_def strSet_def binsOf_def)
  show "asSubs clusterRecs (exSeen 2 1) exRegistered t = {}" by (rule subs)
  have "\<not> asFired clusterRecs (exSeen 2 1) exRegistered t" for t by (simp add: asFired_def exSeen_def exRegistered_def clusterRecs_def binsOf_def)
  then show "asSeenInv clusterRecs (exSeen 2 1) exRegistered" using typed subs by (simp add: asSeenInv_def exSeen_def)
qed

theorem aerospike_seen_exact_witness:
  "\<exists>rc p' seen multi. handleSubtree (\<lambda>_. 0) (exFetchOn (asRegBatchGet (exStore 2)) (asSeenIncrement (exSeen 2 1)) (Reply 200 exTx None)) (Inr exSubtreeMsg)
       (exFetcherOn exRegistered rc) = Inr (None, p')
     \<and> map snd (ftCallbacks p') = seen @ multi
     \<and> set (sentTo ''http://a'' seen) = {hexEncode (rev exTx)} \<and> set (sentTo ''http://a'' multi) = {hexEncode (rev exTx)}"
proof -
  let ?hf = "\<lambda>k :: bytes. of_nat (length k) :: u64" and ?d = "exFetchOn (asRegBatchGet (exStore 2)) (asSeenIncrement (exSeen 2 1)) (Reply 200 exTx None)"
  obtain rc where rc: "flagsOnly ?hf rc" "\<forall>t. known ?hf rc t = None" using new_cache by blast
  let ?p = "exFetcherOn exRegistered rc" and ?t = "hexEncode (rev exTx)"
  have up: "aerospike_up (ac_client (as_client (exStore 2))) clusterRecs"
    using cluster_up.aerospike_up_axioms by (simp add: exStore_def)
  have db: "ftDb ?p = exRegistered" "ftCallbacks ?p = []" by (simp_all add: exFetcherOn_def)
  have one: "ac_client (as_client (exSeen 2 1)) = ac_client (as_client (exStore 2))" by (simp add: exSeen_def exStore_def)
  have "\<exists>p' seen multi. handleSubtree (\<lambda>_. 0) ?d (Inr exSubtreeMsg) ?p = Inr (None, p')
     \<and> map snd (ftCallbacks p') = map snd (ftCallbacks ?p) @ seen @ multi
     \<and> sentExactly (asUrlsOf clusterRecs (exStore 2) (ftDb ?p)) ((\<lambda>h. hexEncode (rev h)) ` set [exTx]) CallbackSeenOnNetwork seen
     \<and> sentExactly (asUrlsOf clusterRecs (exStore 2) (ftDb ?p)) {t \<in> (\<lambda>h. hexEncode (rev h)) ` set [exTx].
          reaches (as_threshold (exSeen 2 1)) (sm_Hash exSubtreeMsg) (asSubs clusterRecs (exSeen 2 1) (ftDb ?p) t)} CallbackSeenMultipleNodes multi
     \<and> flagsOnly ?hf (ftCache p') \<and> cacheCoherent ?hf (ftCache p') (asUrlsOf clusterRecs (exStore 2) (ftDb p'))"
    by (rule aerospike_seen_exact [OF up one _ _ _ _ _ _ _ exRaw])
      (simp_all add: db exRegistered_facts exFetchOn_def keysOf_order exTx_def exFetcherOn_def rc
        Contains_def NewDedupCache_def cacheCoherent_def StoreSubtree_def memSet_def Let_def split_def)
  then obtain p' seen multi where r: "handleSubtree (\<lambda>_. 0) ?d (Inr exSubtreeMsg) ?p = Inr (None, p')" "map snd (ftCallbacks p') = seen @ multi"
      "set (sentTo ''http://a'' seen) = {t \<in> {?t}. ''http://a'' \<in> asUrlsOf clusterRecs (exStore 2) exRegistered t}"
      "set (sentTo ''http://a'' multi) = {t \<in> {t \<in> {?t}. reaches (as_threshold (exSeen 2 1)) (sm_Hash exSubtreeMsg) (asSubs clusterRecs (exSeen 2 1) exRegistered t)}.
         ''http://a'' \<in> asUrlsOf clusterRecs (exStore 2) exRegistered t}"
    unfolding sentExactly_def db by (auto simp only: list.map append_Nil list.set image_insert image_empty)
  have "reaches (as_threshold (exSeen 2 1)) h {}" for h by (simp add: reaches_def exSeen_def)
  then have "set (sentTo ''http://a'' seen) = {?t}" "set (sentTo ''http://a'' multi) = {?t}"
    using r(3,4) unfolding exRegistered_facts(2,3) by auto
  then show ?thesis using r(1,2) by blast
qed


section \<open>Types\<close>

text \<open>The stores of a registry, the calls on them and the error of a call.\<close>

record 'c asStores =
  rgRegistration :: "'c aerospikeStore"
  rgCallbackDedup :: "'c aerospikeStore"
  rgCallbackURLRegistry :: "'c aerospikeStore"
  rgCallbackAccumulator :: "'c aerospikeTtlStore"
  rgSeenCounter :: "'c aerospikeSeenCounter"
  rgSubtreeCounter :: "'c aerospikeTtlStore"

datatype asCall =
    CallRegAdd string string | CallRegGet string | CallRegUpdateTTL "string list" int
  | CallUrlAdd string | CallUrlGetAll
  | CallDedupRecord string string string int
  | CallIncrement string string
  | CallInit string int | CallDecrement string
  | CallAppend string string "string list" int bytes | CallReadAndDelete string

definition errOf :: "'e + 'a \<Rightarrow> 'e option" where
  "errOf r = (case r of Inl e \<Rightarrow> Some e | Inr _ \<Rightarrow> None)"

fun asCallStep :: "(string \<Rightarrow> 256 word) \<Rightarrow> 'c asStores \<Rightarrow> asCall \<Rightarrow> 'c \<Rightarrow> asStoreErr option \<times> 'c" where
  "asCallStep sha r (CallRegAdd t u) c = apfst errOf (asRegAdd (rgRegistration r) t u c)"
| "asCallStep sha r (CallRegGet t) c = (errOf (asRegGet (rgRegistration r) t c), c)"
| "asCallStep sha r (CallRegUpdateTTL ts ttl) c = apfst errOf (asRegBatchUpdateTTL (rgRegistration r) ts ttl c)"
| "asCallStep sha r (CallUrlAdd u) c = apfst errOf (asUrlAdd (rgCallbackURLRegistry r) u c)"
| "asCallStep sha r CallUrlGetAll c = (errOf (asUrlGetAll (rgCallbackURLRegistry r) c), c)"
| "asCallStep sha r (CallDedupRecord t u st ttl) c = apfst errOf (asDedupRecord sha (rgCallbackDedup r) t u st ttl c)"
| "asCallStep sha r (CallIncrement t x) c = apfst errOf (asSeenIncrement (rgSeenCounter r) t x c)"
| "asCallStep sha r (CallInit h n) c = apfst errOf (asCounterInit (rgSubtreeCounter r) h n c)"
| "asCallStep sha r (CallDecrement h) c = apfst errOf (asCounterDecrement (rgSubtreeCounter r) h c)"
| "asCallStep sha r (CallAppend h u ts i d) c = apfst errOf (asAccAppend (rgCallbackAccumulator r) h u ts i d c)"
| "asCallStep sha r (CallReadAndDelete h) c = apfst errOf (asAccReadAndDelete (rgCallbackAccumulator r) h c)"

primrec asRun :: "(string \<Rightarrow> 256 word) \<Rightarrow> 'c asStores \<Rightarrow> asCall list \<Rightarrow> 'c \<Rightarrow> asStoreErr option list \<times> 'c" where
  "asRun sha r [] c = ([], c)"
| "asRun sha r (call # calls) c = (let (e, c) = asCallStep sha r call c; (es, c) = asRun sha r calls c in (e # es, c))"

text \<open>All stores of a registry are built on the same client.\<close>

definition sameClient :: "'c asClient \<Rightarrow> 'c asStores \<Rightarrow> bool" where
  "sameClient as r \<longleftrightarrow> ac_client (as_client (rgRegistration r)) = as \<and> ac_client (as_client (rgCallbackDedup r)) = as
     \<and> ac_client (as_client (rgCallbackURLRegistry r)) = as \<and> ac_client (as_client (rgCallbackAccumulator r)) = as
     \<and> ac_client (as_client (rgSeenCounter r)) = as \<and> ac_client (as_client (rgSubtreeCounter r)) = as"

text \<open>A call keeps the types and does not find a wrong one.\<close>

definition wellTyped :: "('c \<Rightarrow> asKey \<Rightarrow> asBins option) \<Rightarrow> asStoreErr option \<times> 'c \<Rightarrow> bool" where
  "wellTyped recs r \<longleftrightarrow> fst r \<noteq> Some EUnexpectedType \<and> clusterTyped recs (snd r)"

lemma wellTyped_pair [simp]: "wellTyped recs (e, c) \<longleftrightarrow> e \<noteq> Some EUnexpectedType \<and> clusterTyped recs c"
  by (simp add: wellTyped_def)

lemma errOf_simps [simp]: "errOf (Inl e) = Some e" "errOf (Inr x) = None"
  by (simp_all add: errOf_def)

context aerospike_store
begin

lemma setInsert_wellTyped:
  assumes "clusterTyped recs c" and "bin \<in> stringBins"
  shows "wellTyped recs (apfst errOf (asSetInsert s k bin v c))"
  using setInsert_typed [OF assms(1) prod.collapse [symmetric] assms(2), of k v]
  by (auto simp: wellTyped_def asSetInsert_def storeKey_ok Let_def split: prod.splits sum.splits)

lemma updateTTL_typed: "clusterTyped recs c \<Longrightarrow> clusterTyped recs (snd (asRegUpdateTTL s t ttl c))"
  using operate_typed [of c _ _ "[TouchOp]"]
  by (auto simp: asRegUpdateTTL_def storeKey_ok Let_def split: prod.splits sum.splits)

lemma batchUpdateTTL_typed: "clusterTyped recs c \<Longrightarrow> clusterTyped recs (snd (asRegBatchUpdateTTL s ts ttl c))"
  by (simp add: asRegBatchUpdateTTL_def) (induction ts arbitrary: c, simp_all add: updateTTL_typed)

lemma dedupRecord_wellTyped:
  assumes "clusterTyped recs c"
  shows "wellTyped recs (apfst errOf (asDedupRecord sha s t u st ttl c))"
proof -
  have b: "binTyped dedupMarkerBin (AInt 1)" by (simp add: binTyped_def stringBins_def bin_names)
  let ?key = "(ac_namespace (as_client s), as_setName s, dedupKey sha t u st)" and ?b = "[(dedupMarkerBin, AInt 1)]"
  let ?wp = "if ttl > 0 then (storePolicy s)\<lparr>wpExpiration := seconds32 ttl\<rparr> else storePolicy s"
  obtain e c1 where 1: "asPut (ac_client (as_client s)) ?wp ?key ?b c = (e, c1)" by fastforce
  have c1: "clusterTyped recs c1" by (rule put_typed [OF assms 1 b])
  obtain e' c2 where 2: "asPut (ac_client (as_client s)) (storePolicy s) ?key ?b c1 = (e', c2)" by fastforce
  have c2: "clusterTyped recs c2" by (rule put_typed [OF c1 2 b])
  show ?thesis unfolding asDedupRecord_def storeKey_ok sum.case Let_def 1 prod.case
    using c1 c2 by (auto simp: 2 split: option.splits)
qed

end

context aerospike_ttl
begin

lemma init_wellTyped:
  assumes "clusterTyped recs c"
  shows "wellTyped recs (apfst errOf (asCounterInit s h n c))"
proof -
  have b: "binTyped subtreeCounterBin (AInt n)" by (simp add: binTyped_def stringBins_def bin_names)
  show ?thesis using put_typed [OF assms _ b]
    by (auto simp: asCounterInit_def storeKey_ok Let_def split: prod.splits option.splits)
qed

lemma decrement_wellTyped:
  assumes "clusterTyped recs c"
  shows "wellTyped recs (apfst errOf (asCounterDecrement s h c))"
proof -
  let ?key = "(ac_namespace (as_client s), as_setName s, h)" and ?wp = "(storePolicy s)\<lparr>wpRecordExistsAction := UPDATE_ONLY\<rparr>"
  obtain r c' where r: "asOperate (ac_client (as_client s)) ?wp ?key decOps c = (r, c')" by fastforce
  have typed: "clusterTyped recs c'" by (rule operate_typed [OF assms r]) (simp add: decOps_def)
  show ?thesis
  proof (cases r)
    case (Inr bins)
    then obtain res where res: "opApplied recs ?wp ?key decOps c res c'" "bins = opResults res" using operate r by blast
    obtain i where "bins subtreeCounterBin = Some (AInt i)" using operate_dec [OF res(1)] res(2) by auto
    then show ?thesis using r Inr typed by (simp add: asCounterDecrement_def storeKey_ok decOps_def)
  qed (use r typed in \<open>simp add: asCounterDecrement_def storeKey_ok decOps_def\<close>)
qed

lemma append_wellTyped:
  assumes "clusterTyped recs c"
  shows "wellTyped recs (apfst errOf (asAccAppend s h u ts i d c))"
proof -
  have "list_all opTyped [ListAppendOp accumEntriesBin (entryValue u ts i d)]" by auto
  from operate_typed [OF assms _ this] show ?thesis
    by (auto simp: asAccAppend_def storeKey_ok Let_def split: prod.splits sum.splits)
qed

lemma read_wellTyped:
  assumes "clusterTyped recs c"
  shows "wellTyped recs (apfst errOf (asAccReadAndDelete s h c))"
proof -
  let ?key = "(ac_namespace (as_client s), as_setName s, h)"
  have del: "clusterTyped recs (snd (asDelete (ac_client (as_client s)) (storePolicy s) ?key c))"
    by (rule delete_typed [OF assms prod.collapse [symmetric]])
  have "\<exists>vs. v = AList vs" if "asGet (ac_client (as_client s)) ?key accumEntriesBin c = Inr (Some bins)" "bins accumEntriesBin = Some v" for bins v
  proof -
    have "binsOf (recs c ?key) accumEntriesBin = Some v" using get [OF that(1)] that(2) by (auto simp: readsBin_def binsOf_def split: option.splits)
    from binsTypedD [OF typed_bins [OF assms] this] show ?thesis by (auto simp: binTyped_def)
  qed
  then show ?thesis using assms del
    by (auto simp: asAccReadAndDelete_def storeKey_ok Let_def split: sum.splits option.splits asValue.splits)
qed

end


locale aerospike_seen_store = aerospike_store s recs for s :: "('c, 'x) aerospikeSeenCounter_scheme" and recs
begin

lemma seenOperate_wellTyped:
  assumes "clusterTyped recs c"
  shows "wellTyped recs (apfst errOf (seenOperate s key x c))"
proof -
  let ?wp = "(storePolicy s)\<lparr>wpRecordExistsAction := UPDATE\<rparr>"
  obtain r c' where r: "asOperate (ac_client (as_client s)) ?wp key (seenOps x) c = (r, c')" by fastforce
  have typed: "clusterTyped recs c'" by (rule operate_typed [OF assms r list_all_seenOps])
  show ?thesis
  proof (cases r)
    case (Inr bins)
    then obtain res n b where res: "docRuns n (seenOps x) (binsOf (recs c key)) res b" "bins = opResults res"
      using operate r unfolding opApplied_def by blast
    obtain k where "newSizeOf bins = Inr k" using docRuns_seen [OF typed_bins [OF assms] res(1)] res(2) by auto
    then show ?thesis using r Inr typed by (simp add: seenOperate_def seenOps_def [symmetric] Let_def)
  qed (use r typed in \<open>simp add: seenOperate_def seenOps_def [symmetric] Let_def\<close>)
qed

lemma increment_wellTyped:
  assumes "clusterTyped recs c"
  shows "wellTyped recs (apfst errOf (asSeenIncrement s t x c))"
proof -
  let ?key = "(ac_namespace (as_client s), as_setName s, t)"
  obtain r c' where r: "seenOperate s ?key x c = (r, c')" by fastforce
  have w: "wellTyped recs (errOf r, c')" using seenOperate_wellTyped [OF assms, of ?key x] by (simp add: r)
  have "clusterTyped recs (seenMark s ?key y c')" for y
    using w put_typed [OF _ prod.collapse [symmetric] fired_typed, of c'] by (simp add: seenMark_def)
  then show ?thesis using w by (cases r) (simp_all add: asSeenIncrement_def storeKey_ok r)
qed

end

lemma asCallStep_wellTyped:
  assumes "aerospike as recs" and "sameClient as r" and "clusterTyped recs c"
  shows "wellTyped recs (asCallStep sha r call c)"
proof -
  have st: "aerospike_store (rgRegistration r) recs" "aerospike_store (rgCallbackDedup r) recs" "aerospike_store (rgCallbackURLRegistry r) recs"
      "aerospike_ttl (rgCallbackAccumulator r) recs" "aerospike_ttl (rgSubtreeCounter r) recs" "aerospike_seen_store (rgSeenCounter r) recs"
    using assms(1,2) by (simp_all add: sameClient_def aerospike_store_def aerospike_ttl_def aerospike_seen_store_def)
  note c = assms(3)
  have rd: "errOf (asSetRead s k bin c) \<noteq> Some EUnexpectedType" if "aerospike_store s recs" "bin \<in> stringBins" for s :: "'a aerospikeStore" and k bin
    using aerospike_store.setRead_spec(1) [OF that(1) c that(2)] by (auto simp: errOf_def split: sum.splits)
  show ?thesis
  proof (cases call)
    case (CallRegUpdateTTL ts ttl)
    then show ?thesis using aerospike_store.batchUpdateTTL_typed [OF st(1) c, of ts ttl]
      by (simp add: wellTyped_def) (simp add: asRegBatchUpdateTTL_def)
  qed (use c st(1-3) rd callbacks_string urls_string aerospike_store.setInsert_wellTyped [OF _ c] aerospike_store.dedupRecord_wellTyped [OF st(2) c]
      aerospike_ttl.init_wellTyped [OF st(5) c] aerospike_ttl.decrement_wellTyped [OF st(5) c] aerospike_ttl.append_wellTyped [OF st(4) c]
      aerospike_ttl.read_wellTyped [OF st(4) c] aerospike_seen_store.increment_wellTyped [OF st(6) c]
      in \<open>simp_all add: asRegAdd_def asRegGet_def asUrlAdd_def asUrlGetAll_def\<close>)
qed

text \<open>
  C18: The type assertions of the Aerospike stores never fail. Start from a cluster without records and
  make any sequence of calls on the stores of a registry, through a client whose calls may fail, with
  or without having taken effect, or be applied several times: no call returns an error for an
  unexpected bin type, and every bin holds what its store writes there. The stores may even share a
  set, since their bins have different names.
\<close>

theorem aerospike_types:
  assumes "aerospike as recs" and "sameClient as r" and "\<forall>key. recs c key = None"
  shows "Some EUnexpectedType \<notin> set (fst (asRun sha r calls c)) \<and> clusterTyped recs (snd (asRun sha r calls c))"
proof -
  have "Some EUnexpectedType \<notin> set (fst (asRun sha r calls c)) \<and> clusterTyped recs (snd (asRun sha r calls c))"
    if "clusterTyped recs c" for c
    using that
  proof (induction calls arbitrary: c)
    case (Cons call calls)
    obtain e c' where e: "asCallStep sha r call c = (e, c')" by fastforce
    have "e \<noteq> Some EUnexpectedType" "clusterTyped recs c'" using asCallStep_wellTyped [OF assms(1,2) Cons.prems, of sha call] by (simp_all add: e)
    then show ?case using Cons.IH by (auto simp: e split_def Let_def)
  qed simp
  moreover have "clusterTyped recs c" by (rule empty_cluster(1)) (use assms(3) in blast)
  ultimately show ?thesis by blast
qed

definition exRegistry :: "cluster asStores" where
  "exRegistry = \<lparr>rgRegistration = exStore 2, rgCallbackDedup = exStore 2, rgCallbackURLRegistry = exStore 2, rgCallbackAccumulator = exTtlStore 2 3,
     rgSeenCounter = exSeen 2 2, rgSubtreeCounter = exTtlStore 2 3\<rparr>"

theorem aerospike_types_witness:
  "Some EUnexpectedType \<notin> set (fst (asRun (\<lambda>_. 0) exRegistry
     [CallRegAdd ''t'' ''u'', CallRegGet ''t'', CallUrlAdd ''u'', CallUrlGetAll, CallInit ''b'' 2, CallDecrement ''b'', CallAppend ''b'' ''u'' [] 0 [],
      CallReadAndDelete ''b'', CallIncrement ''t'' ''s''] []))"
proof -
  have "sameClient (cluster 2) exRegistry" by (simp add: sameClient_def exRegistry_def exStore_def exTtlStore_def exSeen_def)
  moreover have "\<forall>key. clusterRecs [] key = None" by (simp add: clusterRecs_def)
  ultimately show ?thesis using aerospike_types [OF cluster.aerospike_axioms] by blast
qed

section \<open>Concurrent increments\<close>

text \<open>
  \<open>Increment\<close> is not atomic. When two fetchers see a txid at the same time, in two subtrees, both
  append before either sets the flag, and both report the threshold.
\<close>

lemma seen_race:
  "\<exists>c c1 c2 r1 r2. fst (asSeenIncrement (exSeen 0 2) ''t'' ''s0'' []) = Inr \<lparr>NewCount = 1, ThresholdReached = False\<rparr>
     \<and> c = snd (asSeenIncrement (exSeen 0 2) ''t'' ''s0'' [])
     \<and> seenOperate (exSeen 0 2) (''merkle'', ''seen'', ''t'') ''s1'' c = (Inr r1, c1)
     \<and> seenOperate (exSeen 0 2) (''merkle'', ''seen'', ''t'') ''s2'' c1 = (Inr r2, c2)
     \<and> ThresholdReached r1 \<and> ThresholdReached r2"
  by (simp add: asSeenIncrement_def seenOperate_def seenMark_def exSeen_def storeKey_def storePolicy_def WritePolicy_def cluster_def clusterOperate_def
      storedBins_def listIn_def opResults_def newSizeOf_def bin_names)

text \<open>A client that reports a missing record makes \<open>Get\<close> fail for a txid nobody registered.\<close>

lemma missing_registration: "asRegGet (exStore 0) ''t'' [] = Inl (EClient KEY_NOT_FOUND_ERROR)"
  by (simp add: asRegGet_def asSetRead_def exStore_def storeKey_def cluster_def)


end
