(* ===== verification/Services.thy ===== *)
theory Services
  imports Kafka_Messages
begin

text \<open>
  The life cycle the services share (internal/service, and the \<open>Start\<close>, \<open>Stop\<close> and \<open>Health\<close> methods of
  internal/subtree, internal/block and internal/callback), the registry of stores that is closed at
  the end (internal/store/registry.go), and the start of a Kafka consumer with the channel that
  reports it ready (internal/kafka/consumer.go).
\<close>

section \<open>Base service\<close>

record HealthStatus =
  hs_Name :: string
  hs_Status :: string
  hs_Details :: "(string \<times> string) list"

text \<open>The logger is the name it was made for; the context is absent, live (\<open>False\<close>) or cancelled (\<open>True\<close>).\<close>

record BaseService =
  bs_Name :: string
  bs_Logger :: "string option"
  bs_ctx :: "bool option"
  bs_started :: bool

definition InitBase :: "string \<Rightarrow> BaseService \<Rightarrow> BaseService" where
  "InitBase name b =
     b\<lparr>bs_Name := name, bs_Logger := (case bs_Logger b of None \<Rightarrow> Some name | Some l \<Rightarrow> Some l),
       bs_ctx := Some False, bs_started := False\<rparr>"

definition Cancel :: "BaseService \<Rightarrow> BaseService" where
  "Cancel b = (case bs_ctx b of None \<Rightarrow> b | Some _ \<Rightarrow> b\<lparr>bs_ctx := Some True\<rparr>)"

definition IsStarted :: "BaseService \<Rightarrow> bool" where
  "IsStarted b = bs_started b"

definition SetStarted :: "bool \<Rightarrow> BaseService \<Rightarrow> BaseService" where
  "SetStarted st b = b\<lparr>bs_started := st\<rparr>"

text \<open>\<open>WaitForShutdown\<close> returns when a signal arrives or the context ends, and never (\<open>None\<close>) without either.\<close>

datatype wake = GotSignal string | ContextDone

definition WaitForShutdown :: "wake option \<Rightarrow> BaseService \<Rightarrow> BaseService option" where
  "WaitForShutdown w b = map_option (\<lambda>_. Cancel b) w"

section \<open>Stopping\<close>

text \<open>
  The resources a service closes in order, \<open>None\<close> for one that was never made. A failure does not stop
  the others and the first error is returned.
\<close>

fun closeAll :: "('s \<Rightarrow> 'e option \<times> 's) option list \<Rightarrow> 'e option \<Rightarrow> 's \<Rightarrow> 'e option \<times> 's" where
  "closeAll [] firstErr s = (firstErr, s)"
| "closeAll (None # cs) firstErr s = closeAll cs firstErr s"
| "closeAll (Some close # cs) firstErr s =
     (let (err, s) = close s
      in closeAll cs (case firstErr of None \<Rightarrow> err | Some e \<Rightarrow> Some e) s)"

text \<open>\<open>Stop\<close> of the subtree fetcher and of the delivery service (after its own goroutines ended).\<close>

definition stopThenCancel ::
    "('s \<Rightarrow> 'e option \<times> 's) option list \<Rightarrow> BaseService \<Rightarrow> 's \<Rightarrow> 'e option \<times> BaseService \<times> 's" where
  "stopThenCancel closers b s =
     (let (firstErr, s) = closeAll closers None s in (firstErr, Cancel (SetStarted False b), s))"

text \<open>\<open>Stop\<close> of the subtree worker; the block processor uses its consumer without a nil check.\<close>

definition workerStop :: "('s \<Rightarrow> 'e option \<times> 's) option list \<Rightarrow> BaseService \<Rightarrow> 's \<Rightarrow> 'e option \<times> BaseService \<times> 's" where
  "workerStop closers b s = (let (firstErr, s) = closeAll closers None s in (firstErr, SetStarted False b, s))"

definition blockStop ::
    "('s \<Rightarrow> 'e option \<times> 's) option \<Rightarrow> ('s \<Rightarrow> 'e option \<times> 's) option \<Rightarrow> BaseService \<Rightarrow> 's \<Rightarrow> ('e option \<times> BaseService \<times> 's) go" where
  "blockStop consumer producer b s = (case consumer of
      None \<Rightarrow> Inl NilDereference
    | Some _ \<Rightarrow> Inr (workerStop [consumer, producer] b s))"

text \<open>The block processor and the worker count as started before their consumer is; the others after it.\<close>

definition startBefore :: "'e option \<Rightarrow> BaseService \<Rightarrow> 'e option \<times> BaseService" where
  "startBefore consumerErr b = (consumerErr, SetStarted True b)"

definition startAfter :: "'e option \<Rightarrow> BaseService \<Rightarrow> 'e option \<times> BaseService" where
  "startAfter consumerErr b = (case consumerErr of Some err \<Rightarrow> (Some err, b) | None \<Rightarrow> (None, SetStarted True b))"

section \<open>Health\<close>

definition healthWord :: "BaseService \<Rightarrow> string" where
  "healthWord b = (if IsStarted b then ''healthy'' else ''unhealthy'')"

definition fetcherHealth :: "BaseService \<Rightarrow> int \<Rightarrow> HealthStatus" where
  "fetcherHealth b processed = \<lparr>hs_Name = bs_Name b, hs_Status = healthWord b, hs_Details = [(''messagesProcessed'', Itoa processed)]\<rparr>"

definition blockHealth :: "BaseService \<Rightarrow> HealthStatus" where
  "blockHealth b = \<lparr>hs_Name = ''block-processor'', hs_Status = healthWord b, hs_Details = []\<rparr>"

definition workerHealth :: "BaseService \<Rightarrow> HealthStatus" where
  "workerHealth b = \<lparr>hs_Name = ''subtree-worker'', hs_Status = healthWord b, hs_Details = []\<rparr>"

section \<open>Registry\<close>

text \<open>Only the closers of the registry have behaviour; its other fields are the stores.\<close>

record ('s, 'e) Registry =
  closers :: "('s \<Rightarrow> 'e option \<times> 's) list"

definition AddCloser :: "('s \<Rightarrow> 'e option \<times> 's) option \<Rightarrow> ('s, 'e, 'z) Registry_scheme \<Rightarrow> ('s, 'e, 'z) Registry_scheme" where
  "AddCloser fn r = (case fn of None \<Rightarrow> r | Some f \<Rightarrow> r\<lparr>closers := closers r @ [f]\<rparr>)"

text \<open>The loop of \<open>Close\<close>, from index \<open>i - 1\<close> down.\<close>

primrec closeLoop :: "('s \<Rightarrow> 'e option \<times> 's) list \<Rightarrow> nat \<Rightarrow> 'e option \<Rightarrow> 's \<Rightarrow> 'e option \<times> 's" where
  "closeLoop cs 0 firstErr s = (firstErr, s)"
| "closeLoop cs (Suc i) firstErr s =
     (let (err, s) = (cs ! i) s
      in closeLoop cs i (if err \<noteq> None \<and> firstErr = None then err else firstErr) s)"

definition RegistryClose :: "('s, 'e, 'z) Registry_scheme \<Rightarrow> 's \<Rightarrow> 'e option \<times> ('s, 'e, 'z) Registry_scheme \<times> 's" where
  "RegistryClose r s = (let (firstErr, s) = closeLoop (closers r) (length (closers r)) None s in (firstErr, r\<lparr>closers := []\<rparr>, s))"

lemma closeLoop_rev: "n \<le> length cs \<Longrightarrow> closeLoop cs n e s = closeAll (map Some (rev (take n cs))) e s"
proof (induction n arbitrary: e s)
  case (Suc n)
  have "rev (take (Suc n) cs) = cs ! n # rev (take n cs)" using Suc.prems by (simp add: take_Suc_conv_app_nth)
  moreover have "(if err \<noteq> None \<and> e = None then err else e) = (case e of None \<Rightarrow> err | Some x \<Rightarrow> Some x)" for err
    by (cases e; cases err) auto
  ultimately show ?case using Suc by simp
qed simp

text \<open>
  \<open>Close\<close> runs every closer once, the last added first, whatever fails, and returns the first error in
  this order; a second \<open>Close\<close> does nothing.
\<close>

lemma RegistryClose_reverse:
  "RegistryClose r s = (let (err, s') = closeAll (map Some (rev (closers r))) None s in (err, r\<lparr>closers := []\<rparr>, s'))"
  by (simp add: RegistryClose_def closeLoop_rev)

lemma RegistryClose_once: "RegistryClose (fst (snd (RegistryClose r s))) s' = (None, r\<lparr>closers := []\<rparr>, s')"
  by (simp add: RegistryClose_def split_def Let_def)

text \<open>What the closers of a list do to a log of the resources they close.\<close>

lemma closeAll_runs_all:
  "closeAll (map (\<lambda>(x, err). Some (\<lambda>log. (err, log @ [x]))) xs) e log =
     (case e of Some e' \<Rightarrow> Some e' | None \<Rightarrow> (case dropWhile (\<lambda>(x, err). err = None) xs of [] \<Rightarrow> None | (x, err) # _ \<Rightarrow> err), log @ map fst xs)"
proof (induction xs arbitrary: e log)
  case (Cons x xs)
  then show ?case by (cases x; cases "snd x"; cases e) (auto split: option.splits)
qed (simp split: option.splits)

section \<open>Starting a consumer\<close>

text \<open>
  \<open>Consumer.Start\<close> waits on the channel that the field \<open>ready\<close> holds when it gets there; the loop closes
  the channel of its current handler when the group calls \<open>Setup\<close>, and after \<open>Consume\<close> returned puts a
  new channel into the field. Channels are numbered in the order they are made.
\<close>

datatype starter = Spawned | Waiting nat | Returned

datatype consumeLoop = TopOfLoop | Consuming nat bool | LoopEnded

record consumer =
  cs_ready :: nat
  cs_closed :: "nat set"
  cs_starter :: starter
  cs_loop :: consumeLoop
  cs_cancelled :: bool

definition newConsumer :: consumer where
  "newConsumer = \<lparr>cs_ready = 0, cs_closed = {}, cs_starter = Spawned, cs_loop = TopOfLoop, cs_cancelled = False\<rparr>"

inductive cstep :: "consumer \<Rightarrow> consumer \<Rightarrow> bool" where
  wait: "cs_starter s = Spawned \<Longrightarrow> cstep s (s\<lparr>cs_starter := Waiting (cs_ready s)\<rparr>)"
| returns: "cs_starter s = Waiting k \<Longrightarrow> k \<in> cs_closed s \<Longrightarrow> cstep s (s\<lparr>cs_starter := Returned\<rparr>)"
| consume: "cs_loop s = TopOfLoop \<Longrightarrow> cstep s (s\<lparr>cs_loop := Consuming (cs_ready s) False\<rparr>)"
| set_up: "cs_loop s = Consuming k False \<Longrightarrow> cstep s (s\<lparr>cs_loop := Consuming k True, cs_closed := insert k (cs_closed s)\<rparr>)"
| again: "cs_loop s = Consuming k b \<Longrightarrow> \<not> cs_cancelled s \<Longrightarrow> cstep s (s\<lparr>cs_loop := TopOfLoop, cs_ready := cs_ready s + 1\<rparr>)"
| ended: "cs_loop s = Consuming k b \<Longrightarrow> cs_cancelled s \<Longrightarrow> cstep s (s\<lparr>cs_loop := LoopEnded\<rparr>)"
| cancel: "cstep s (s\<lparr>cs_cancelled := True\<rparr>)"

inductive creach :: "consumer \<Rightarrow> bool" where
  creach0: "creach newConsumer"
| creachS: "creach s \<Longrightarrow> cstep s t \<Longrightarrow> creach t"

text \<open>No channel is closed twice, and only channels that were made are.\<close>

lemma consumer_channels:
  assumes "creach s"
  shows "cs_closed s \<subseteq> {..cs_ready s} \<and> (cs_loop s = TopOfLoop \<longrightarrow> cs_ready s \<notin> cs_closed s)
    \<and> (\<forall>k. cs_loop s = Consuming k False \<longrightarrow> k = cs_ready s \<and> k \<notin> cs_closed s)
    \<and> (\<forall>k. cs_loop s = Consuming k True \<longrightarrow> k = cs_ready s)"
  using assms
proof induction
  case (creachS s t)
  from creachS(2) show ?case
  proof (cases rule: cstep.cases)
    case (again k b)
    then show ?thesis using creachS.IH by (cases b) auto
  qed (use creachS.IH in auto)
qed (simp add: newConsumer_def)

text \<open>
  When the first \<open>Consume\<close> fails before \<open>Setup\<close> and \<open>Start\<close> already waits, it waits on a channel that
  nobody closes any more: \<open>Start\<close> never returns, although later sessions are set up.
\<close>

lemma stale_channel:
  assumes "cstep s t" and "cs_starter s = Waiting k" and "k \<notin> cs_closed s" and "k < cs_ready s"
    and "\<forall>j b. cs_loop s = Consuming j b \<longrightarrow> j = cs_ready s"
  shows "cs_starter t = Waiting k \<and> k \<notin> cs_closed t \<and> k < cs_ready t \<and> (\<forall>j b. cs_loop t = Consuming j b \<longrightarrow> j = cs_ready t)"
  using assms by (cases rule: cstep.cases) auto

lemma start_can_hang:
  "\<exists>s. creach s \<and> cs_starter s = Waiting 0 \<and> cs_loop s = Consuming 1 True \<and> 0 \<notin> cs_closed s
    \<and> (\<forall>t. cstep\<^sup>*\<^sup>* s t \<longrightarrow> cs_starter t = Waiting 0)"
proof -
  let ?s = "\<lparr>cs_ready = 1, cs_closed = {1}, cs_starter = Waiting 0, cs_loop = Consuming 1 True, cs_cancelled = False\<rparr>"
  have "creach (newConsumer\<lparr>cs_starter := Waiting 0\<rparr>)"
    using creachS [OF creach0 cstep.wait] by (simp add: newConsumer_def)
  then have "creach (newConsumer\<lparr>cs_starter := Waiting 0, cs_loop := Consuming 0 False\<rparr>)"
    using creachS [OF _ cstep.consume] by (fastforce simp: newConsumer_def)
  then have "creach (newConsumer\<lparr>cs_starter := Waiting 0, cs_ready := 1\<rparr>)"
    using creachS [OF _ cstep.again [of _ 0 False]] by (fastforce simp: newConsumer_def)
  then have "creach (newConsumer\<lparr>cs_starter := Waiting 0, cs_ready := 1, cs_loop := Consuming 1 False\<rparr>)"
    using creachS [OF _ cstep.consume] by (fastforce simp: newConsumer_def)
  then have r: "creach ?s" using creachS [OF _ cstep.set_up [of _ 1]] by (fastforce simp: newConsumer_def)
  have "cs_starter t = Waiting 0 \<and> 0 \<notin> cs_closed t \<and> 0 < cs_ready t \<and> (\<forall>j b. cs_loop t = Consuming j b \<longrightarrow> j = cs_ready t)"
    if "cstep\<^sup>*\<^sup>* ?s t" for t
    using that
  proof induction
    case (step t u)
    then show ?case using stale_channel [OF step.hyps(2), of 0] by blast
  qed simp
  then show ?thesis using r by (intro exI [of _ ?s]) auto
qed

end
