(* ===== verification/P2p.thy ===== *)
theory P2p
  imports Services
begin

text \<open>
  The client of the Teranode network (internal/p2p/client.go): announcements of subtrees and blocks
  are copied to their Kafka topics. The network library is not part of the repository; what it
  delivers is the sequence of events on the two typed channels.
\<close>

section \<open>Data\<close>

text \<open>The messages of the network library, with the fields the client reads.\<close>

record teranodeSubtree =
  ts_Hash :: string
  ts_DataHubURL :: string
  ts_PeerID :: string
  ts_ClientName :: string

record teranodeBlock =
  tb_Hash :: string
  tb_Height :: u32
  tb_Header :: string
  tb_Coinbase :: string
  tb_DataHubURL :: string
  tb_PeerID :: string
  tb_ClientName :: string

definition maxPublishRetries :: nat where
  "maxPublishRetries = 5"

definition baseRetryDelay :: int where
  "baseRetryDelay = 500 * 1000000"

section \<open>Publishing\<close>

text \<open>
  \<open>publishWithRetry\<close> from attempt \<open>attempt\<close> on: the topic, the delays slept and whether the message was
  accepted. \<open>errs a\<close> is the outcome of attempt \<open>a\<close>. The delays stay below ten seconds, where doubling
  in floating point is exact.
\<close>

function publishLoop ::
    "(nat \<Rightarrow> string option) \<Rightarrow> string \<Rightarrow> 'v \<Rightarrow> nat \<Rightarrow> int \<Rightarrow> 'v topic \<Rightarrow> 'v topic \<times> int list \<times> bool" where
  "publishLoop errs key val attempt delay t =
     (if attempt > maxPublishRetries then (t, [], False)
      else (case Publish (errs attempt) key val t of
          (None, t) \<Rightarrow> (t, [], True)
        | (Some err, t) \<Rightarrow>
            if attempt = maxPublishRetries then (t, [], False)
            else (let (t, ds, ok) = publishLoop errs key val (attempt + 1) (min (delay * 2) (10 * 1000000000)) t
                  in (t, delay # ds, ok))))"
  by pat_completeness auto
termination
  by (relation "measure (\<lambda>(_, _, _, attempt, _, _). maxPublishRetries - attempt)") (auto simp: maxPublishRetries_def)

declare publishLoop.simps [simp del]

definition publishWithRetry :: "(nat \<Rightarrow> string option) \<Rightarrow> string \<Rightarrow> 'v \<Rightarrow> 'v topic \<Rightarrow> 'v topic \<times> int list \<times> bool" where
  "publishWithRetry errs key val t = publishLoop errs key val 1 baseRetryDelay t"

section \<open>Handlers\<close>

definition toSubtreeMessage :: "teranodeSubtree \<Rightarrow> SubtreeMessage" where
  "toSubtreeMessage msg = \<lparr>sm_Hash = ts_Hash msg, sm_DataHubURL = ts_DataHubURL msg, sm_PeerID = ts_PeerID msg,
     sm_ClientName = ts_ClientName msg, sm_AttemptCount = 0\<rparr>"

definition toBlockMessage :: "teranodeBlock \<Rightarrow> BlockMessage" where
  "toBlockMessage msg = \<lparr>bm_Hash = tb_Hash msg, bm_Height = tb_Height msg, bm_Header = tb_Header msg, bm_Coinbase = tb_Coinbase msg,
     bm_DataHubURL = tb_DataHubURL msg, bm_PeerID = tb_PeerID msg, bm_ClientName = tb_ClientName msg\<rparr>"

text \<open>Encoding these messages, structs of strings and integers, does not fail.\<close>

definition handleSubtreeMessage :: "(nat \<Rightarrow> string option) \<Rightarrow> teranodeSubtree \<Rightarrow> SubtreeMessage topic \<Rightarrow> SubtreeMessage topic" where
  "handleSubtreeMessage errs msg t = fst (publishWithRetry errs (ts_Hash msg) (toSubtreeMessage msg) t)"

definition handleBlockMessage :: "(nat \<Rightarrow> string option) \<Rightarrow> teranodeBlock \<Rightarrow> BlockMessage topic \<Rightarrow> BlockMessage topic" where
  "handleBlockMessage errs msg t = fst (publishWithRetry errs (tb_Hash msg) (toBlockMessage msg) t)"

text \<open>
  The loops over the channels: they end when the channel is closed or the context is done. When both a
  message and the end of the context are ready, the runtime chooses, so an event sequence may have
  messages after the point where the context ended only before its \<open>CtxDone\<close>.
\<close>

datatype 'm chanEvent = Received 'm | Closed | CtxDone

fun processMessages :: "(nat \<Rightarrow> 'm \<Rightarrow> 't \<Rightarrow> 't) \<Rightarrow> nat \<Rightarrow> 'm chanEvent list \<Rightarrow> 't \<Rightarrow> 't" where
  "processMessages handle n [] t = t"
| "processMessages handle n (Received msg # es) t = processMessages handle (n + 1) es (handle n msg t)"
| "processMessages handle n (Closed # es) t = t"
| "processMessages handle n (CtxDone # es) t = t"

definition processSubtreeMessages :: "(nat \<Rightarrow> nat \<Rightarrow> string option) \<Rightarrow> teranodeSubtree chanEvent list \<Rightarrow> SubtreeMessage topic \<Rightarrow> SubtreeMessage topic" where
  "processSubtreeMessages errs = processMessages (\<lambda>n. handleSubtreeMessage (errs n)) 0"

definition processBlockMessages :: "(nat \<Rightarrow> nat \<Rightarrow> string option) \<Rightarrow> teranodeBlock chanEvent list \<Rightarrow> BlockMessage topic \<Rightarrow> BlockMessage topic" where
  "processBlockMessages errs = processMessages (\<lambda>n. handleBlockMessage (errs n)) 0"

section \<open>Life cycle\<close>

record p2pClient =
  pc_base :: BaseService
  pc_network :: string
  pc_hasSubtreeProducer :: bool
  pc_hasBlockProducer :: bool
  pc_peers :: "nat option"
  pc_connected :: bool

datatype p2pErr = ESubtreeProducerRequired | EBlockProducerRequired | EInitialize string

definition p2pInit :: "p2pClient \<Rightarrow> p2pErr option" where
  "p2pInit c = (if \<not> pc_hasSubtreeProducer c then Some ESubtreeProducerRequired
     else if \<not> pc_hasBlockProducer c then Some EBlockProducerRequired else None)"

definition p2pNetwork :: "p2pClient \<Rightarrow> string" where
  "p2pNetwork c = (if pc_network c = '''' then ''main'' else pc_network c)"

text \<open>\<open>initialize network\<close> is the library's \<open>Initialize\<close>: an error, or a client that sees some peers.\<close>

definition p2pStart :: "(string \<Rightarrow> string + nat) \<Rightarrow> p2pClient \<Rightarrow> p2pErr option \<times> p2pClient" where
  "p2pStart initialize c = (case initialize (p2pNetwork c) of
      Inl err \<Rightarrow> (Some (EInitialize err), c)
    | Inr peers \<Rightarrow> (None, c\<lparr>pc_peers := Some peers, pc_base := SetStarted True (pc_base c), pc_connected := True\<rparr>))"

definition p2pStop :: "p2pClient \<Rightarrow> p2pClient" where
  "p2pStop c = c\<lparr>pc_base := SetStarted False (pc_base c), pc_connected := False\<rparr>"

definition p2pHealth :: "p2pClient \<Rightarrow> HealthStatus" where
  "p2pHealth c =
     (let peerCount = (case pc_peers c of None \<Rightarrow> 0 | Some n \<Rightarrow> n);
          status = (if \<not> pc_connected c then ''unhealthy'' else ''healthy'');
          details = [(''peerCount'', natString peerCount), (''connection'', if \<not> pc_connected c then ''disconnected'' else ''connected'')]
      in if peerCount = 0
         then \<lparr>hs_Name = ''p2p-client'', hs_Status = ''degraded'', hs_Details = details @ [(''peers'', ''no peers connected'')]\<rparr>
         else \<lparr>hs_Name = ''p2p-client'', hs_Status = status, hs_Details = details\<rparr>)"

text \<open>A client that was never started reports degraded, not unhealthy.\<close>

lemma p2pHealth_unstarted: "pc_peers c = None \<Longrightarrow> hs_Status (p2pHealth c) = ''degraded''"
  by (simp add: p2pHealth_def)

section \<open>Announcements reach their topic\<close>

lemma publishLoop_failed:
  assumes "attempt < maxPublishRetries" and "errs attempt = Some e"
  shows "publishLoop errs key val attempt delay t =
    (let (t, ds, ok) = publishLoop errs key val (attempt + 1) (min (delay * 2) (10 * 1000000000)) t in (t, delay # ds, ok))"
  using assms by (subst publishLoop.simps) (simp add: Publish_def)

lemma publishLoop_spec:
  assumes "attempt \<le> maxPublishRetries"
  shows "\<exists>ds. publishLoop errs key val attempt delay t =
      (if \<exists>a \<in> {attempt..maxPublishRetries}. errs a = None then (t @ [(key, val)], ds, True) else (t, ds, False))
    \<and> length ds \<le> maxPublishRetries - attempt"
  using assms
proof (induction "maxPublishRetries - attempt" arbitrary: attempt delay)
  case 0
  then have a: "attempt = maxPublishRetries" by simp
  show ?case by (subst publishLoop.simps) (auto simp: a Publish_def split: option.splits)
next
  case (Suc n)
  have lt: "attempt < maxPublishRetries" and n: "n = maxPublishRetries - (attempt + 1)" using Suc.hyps(2) by simp_all
  show ?case
  proof (cases "errs attempt")
    case None
    then show ?thesis using lt by (subst publishLoop.simps) (auto simp: Publish_def)
  next
    case (Some e)
    let ?d = "min (delay * 2) (10 * 1000000000)"
    have split: "(\<exists>a \<in> {attempt..maxPublishRetries}. errs a = None) \<longleftrightarrow> (\<exists>a \<in> {attempt + 1..maxPublishRetries}. errs a = None)"
      using Some by (metis Suc_eq_plus1 Suc_leD Suc_leI atLeastAtMost_iff le_neq_implies_less option.distinct(1))
    obtain ds where ds: "publishLoop errs key val (attempt + 1) ?d t =
        (if \<exists>a \<in> {attempt + 1..maxPublishRetries}. errs a = None then (t @ [(key, val)], ds, True) else (t, ds, False))"
        "length ds \<le> maxPublishRetries - (attempt + 1)"
      using Suc.hyps(1) [of "attempt + 1" ?d] n lt by auto
    show ?thesis
      using ds lt unfolding split publishLoop_failed [where errs = errs, OF lt Some] by (intro exI [of _ "delay # ds"]) auto
  qed
qed

lemma publishLoop_delays:
  assumes "0 \<le> delay" and "delay \<le> 10 * 1000000000"
  shows "\<forall>d \<in> set (fst (snd (publishLoop errs key val attempt delay t))). delay \<le> d \<and> d \<le> 10 * 1000000000"
  using assms
proof (induction "maxPublishRetries - attempt" arbitrary: attempt delay)
  case 0
  then show ?case by (subst publishLoop.simps) (auto simp: Publish_def split: option.splits)
next
  case (Suc n)
  have lt: "attempt < maxPublishRetries" and n: "n = maxPublishRetries - (attempt + 1)" using Suc.hyps(2) by simp_all
  let ?d = "min (delay * 2) (10 * 1000000000)"
  have rec: "\<forall>d \<in> set (fst (snd (publishLoop errs key val (attempt + 1) ?d t))). ?d \<le> d \<and> d \<le> 10 * 1000000000"
    by (rule Suc.hyps(1) [OF n]) (use Suc.prems in simp_all)
  have le: "delay \<le> ?d" using Suc.prems by simp
  show ?case
  proof (cases "errs attempt")
    case None
    then show ?thesis using lt by (subst publishLoop.simps) (simp add: Publish_def)
  next
    case (Some e)
    have "set (fst (snd (publishLoop errs key val attempt delay t))) =
        insert delay (set (fst (snd (publishLoop errs key val (attempt + 1) ?d t))))"
      unfolding publishLoop_failed [where errs = errs, OF lt Some] by (simp add: split_def Let_def)
    then show ?thesis using rec le Suc.prems order.trans by blast
  qed
qed

text \<open>
  An announcement is copied to its topic once if any of five attempts gets through, and otherwise
  dropped; either way at most four waits are made, none longer than ten seconds, and nothing else is
  written.
\<close>

theorem publishWithRetry_spec:
  "(if list_ex (\<lambda>a. errs a = None) [1..<6] then fst (publishWithRetry errs key val t) = t @ [(key, val)] \<and> snd (snd (publishWithRetry errs key val t))
     else fst (publishWithRetry errs key val t) = t \<and> \<not> snd (snd (publishWithRetry errs key val t)))
   \<and> length (fst (snd (publishWithRetry errs key val t))) \<le> 4
   \<and> list_all (\<lambda>d. 500 * 1000000 \<le> d \<and> d \<le> 10 * 1000000000) (fst (snd (publishWithRetry errs key val t)))"
proof -
  obtain ds where "publishLoop errs key val 1 baseRetryDelay t =
      (if \<exists>a \<in> {1..maxPublishRetries}. errs a = None then (t @ [(key, val)], ds, True) else (t, ds, False))" "length ds \<le> maxPublishRetries - 1"
    using publishLoop_spec [of 1 errs key val baseRetryDelay t] by (auto simp: maxPublishRetries_def)
  moreover have "\<forall>d \<in> set (fst (snd (publishLoop errs key val 1 baseRetryDelay t))). baseRetryDelay \<le> d \<and> d \<le> 10 * 1000000000"
    by (rule publishLoop_delays) (simp_all add: baseRetryDelay_def)
  moreover have "list_ex (\<lambda>a. errs a = None) [1..<6] \<longleftrightarrow> (\<exists>a \<in> {1..maxPublishRetries}. errs a = None)"
    by (auto simp: list_ex_iff maxPublishRetries_def atLeastAtMost_def lessThan_def Bex_def)
  ultimately show ?thesis by (simp add: publishWithRetry_def maxPublishRetries_def baseRetryDelay_def list_all_iff)
qed

end
