(* ===== verification/Api.thy ===== *)
theory Api
  imports Services Aerospike_Backend
begin

text \<open>
  The HTTP service (internal/api): the handlers, the routes and the health report, over the operations
  of a registration store and a URL registry. The decoder gives the request or an error; \<open>parseURL\<close> is
  what \<open>url.Parse\<close> gives of a URL that is read here: its scheme and host.
\<close>

section \<open>Data\<close>

record WatchRequest =
  wr_TxID :: string
  wr_CallbackURL :: string

datatype apiBody =
    ErrorResponse string
  | WatchResponse string string
  | HealthResponse string "(string \<times> string) list"
  | LookupResponse string "string list"
  | Html

record response =
  rp_status :: nat
  rp_contentType :: string
  rp_body :: apiBody

definition writeJSON :: "nat \<Rightarrow> apiBody \<Rightarrow> response" where
  "writeJSON status v = \<lparr>rp_status = status, rp_contentType = ''application/json'', rp_body = v\<rparr>"

text \<open>The operations of the stores the server calls; \<open>None\<close> in a result is a nil slice.\<close>

record ('s, 'e) regOps =
  roAdd :: "string \<Rightarrow> string \<Rightarrow> 's \<Rightarrow> ('e + unit) \<times> 's"
  roGet :: "string \<Rightarrow> 's \<Rightarrow> 'e + string list option"

record ('s, 'e) Server =
  sv_base :: BaseService
  sv_regStore :: "('s, 'e) regOps option"
  sv_urlRegistry :: "(string \<Rightarrow> 's \<Rightarrow> ('e + unit) \<times> 's) option"
  sv_health :: "('s \<Rightarrow> bool) option"

definition NewServer ::
    "('s, 'e) regOps option \<Rightarrow> (string \<Rightarrow> 's \<Rightarrow> ('e + unit) \<times> 's) option \<Rightarrow> ('s \<Rightarrow> bool) option \<Rightarrow> string option \<Rightarrow> ('s, 'e) Server" where
  "NewServer regStore urlRegistry health logger =
     (let b = InitBase ''api-server'' \<lparr>bs_Name = '''', bs_Logger = None, bs_ctx = None, bs_started = False\<rparr>
      in \<lparr>sv_base = (case logger of None \<Rightarrow> b | Some l \<Rightarrow> b\<lparr>bs_Logger := Some l\<rparr>),
          sv_regStore = regStore, sv_urlRegistry = urlRegistry, sv_health = health\<rparr>)"

section \<open>Handlers\<close>

text \<open>\<open>txidRegex\<close>: 64 characters, each a hexadecimal digit of either case.\<close>

definition isHexChar :: "char \<Rightarrow> bool" where
  "isHexChar c = (let n = (of_char c :: nat) in 97 \<le> n \<and> n \<le> 102 \<or> 65 \<le> n \<and> n \<le> 70 \<or> 48 \<le> n \<and> n \<le> 57)"

definition txidRegex :: "string \<Rightarrow> bool" where
  "txidRegex s = (length s = 64 \<and> list_all isHexChar s)"

definition badTxid :: string where
  "badTxid = ''invalid txid format: must be a 64-character hex string''"

definition validURL :: "(string \<Rightarrow> (string \<times> string) option) \<Rightarrow> string \<Rightarrow> bool" where
  "validURL parseURL u = (case parseURL u of
      None \<Rightarrow> False
    | Some (scheme, host) \<Rightarrow> \<not> (scheme \<noteq> ''http'' \<and> scheme \<noteq> ''https'') \<and> host \<noteq> '''')"

text \<open>The checks of a watch request in their order: the first failure.\<close>

definition watchError :: "(string \<Rightarrow> (string \<times> string) option) \<Rightarrow> 'd + WatchRequest \<Rightarrow> string option" where
  "watchError parseURL body = (case body of
      Inl _ \<Rightarrow> Some ''invalid request body''
    | Inr req \<Rightarrow>
        if wr_TxID req = '''' then Some ''txid is required''
        else if \<not> txidRegex (wr_TxID req) then Some badTxid
        else if wr_CallbackURL req = '''' then Some ''callbackUrl is required''
        else if \<not> validURL parseURL (wr_CallbackURL req) then Some ''invalid callbackUrl: must be a valid HTTP/HTTPS URL''
        else None)"

text \<open>A server without a registration store panics in \<open>handleWatch\<close>.\<close>

definition handleWatch ::
    "(string \<Rightarrow> (string \<times> string) option) \<Rightarrow> ('s, 'e) Server \<Rightarrow> 'd + WatchRequest \<Rightarrow> 's \<Rightarrow> (response \<times> 's) go" where
  "handleWatch parseURL sv body s = (case watchError parseURL body of
      Some err \<Rightarrow> Inr (writeJSON 400 (ErrorResponse err), s)
    | None \<Rightarrow> (case sv_regStore sv of
        None \<Rightarrow> Inl NilDereference
      | Some ops \<Rightarrow> (case roAdd ops (wr_TxID (projr body)) (wr_CallbackURL (projr body)) s of
            (Inl err, s) \<Rightarrow> Inr (writeJSON 500 (ErrorResponse ''internal server error''), s)
          | (Inr _, s) \<Rightarrow>
              (let s = (case sv_urlRegistry sv of None \<Rightarrow> s | Some add \<Rightarrow> snd (add (wr_CallbackURL (projr body)) s))
               in Inr (writeJSON 200 (WatchResponse ''ok'' ''registration successful''), s)))))"

definition handleLookup :: "('s, 'e) Server \<Rightarrow> string \<Rightarrow> 's \<Rightarrow> response" where
  "handleLookup sv txid s =
     (if \<not> txidRegex txid then writeJSON 400 (ErrorResponse badTxid)
      else (case sv_regStore sv of
          None \<Rightarrow> writeJSON 503 (ErrorResponse ''registration store not available'')
        | Some ops \<Rightarrow> (case roGet ops txid s of
            Inl err \<Rightarrow> writeJSON 500 (ErrorResponse ''internal server error'')
          | Inr urls \<Rightarrow> writeJSON 200 (LookupResponse txid (case urls of None \<Rightarrow> [] | Some us \<Rightarrow> us)))))"

definition apiHealth :: "('s, 'e) Server \<Rightarrow> 's \<Rightarrow> HealthStatus" where
  "apiHealth sv s =
     (let down = (case sv_health sv of None \<Rightarrow> False | Some healthy \<Rightarrow> \<not> healthy s)
      in \<lparr>hs_Name = ''api-server'', hs_Status = (if down then ''unhealthy'' else ''healthy''),
          hs_Details = [(''backend'', if down then ''disconnected'' else ''connected'')]\<rparr>)"

definition handleHealth :: "('s, 'e) Server \<Rightarrow> 's \<Rightarrow> response" where
  "handleHealth sv s =
     (let health = apiHealth sv s
      in writeJSON (if hs_Status health \<noteq> ''healthy'' then 503 else 200) (HealthResponse (hs_Status health) (hs_Details health)))"

definition handleDashboard :: response where
  "handleDashboard = \<lparr>rp_status = 200, rp_contentType = ''text/html; charset=utf-8'', rp_body = Html\<rparr>"

section \<open>Routes and life cycle\<close>

text \<open>
  A request as the router hands it to a handler. The router's Recoverer turns a panic into the status
  500; the response then has no body of the service. \<open>None\<close> is this response.
\<close>

datatype 'd request =
    GetDashboard
  | PostWatch "'d + WatchRequest"
  | GetHealth
  | GetLookup string

definition serve ::
    "(string \<Rightarrow> (string \<times> string) option) \<Rightarrow> ('s, 'e) Server \<Rightarrow> 'd request \<Rightarrow> 's \<Rightarrow> response option \<times> 's" where
  "serve parseURL sv rq s = (case rq of
      GetDashboard \<Rightarrow> (Some handleDashboard, s)
    | PostWatch body \<Rightarrow> (case handleWatch parseURL sv body s of Inl _ \<Rightarrow> (None, s) | Inr (rp, s) \<Rightarrow> (Some rp, s))
    | GetHealth \<Rightarrow> (Some (handleHealth sv s), s)
    | GetLookup txid \<Rightarrow> (Some (handleLookup sv txid s), s))"

definition apiStart :: "('s, 'e) Server \<Rightarrow> ('s, 'e) Server" where
  "apiStart sv = sv\<lparr>sv_base := SetStarted True (sv_base sv)\<rparr>"

definition apiStop :: "'e option \<Rightarrow> ('s, 'e) Server \<Rightarrow> 'e option \<times> ('s, 'e) Server" where
  "apiStop shutdownErr sv = (shutdownErr, sv\<lparr>sv_base := SetStarted False (sv_base sv)\<rparr>)"

text \<open>
  A sequence of requests, with the stores as they behave for each of them: the stores of request \<open>i\<close> may
  fail where those of others do not.
\<close>

fun serveAll ::
    "(string \<Rightarrow> (string \<times> string) option) \<Rightarrow> (nat \<Rightarrow> ('s, 'e) Server) \<Rightarrow> nat \<Rightarrow> 'd request list \<Rightarrow> 's \<Rightarrow> response option list \<times> 's" where
  "serveAll parseURL sv i [] s = ([], s)"
| "serveAll parseURL sv i (rq # rqs) s =
     (let (rp, s) = serve parseURL (sv i) rq s; (rps, s) = serveAll parseURL sv (i + 1) rqs s in (rp # rps, s))"

section \<open>What the service promises\<close>

text \<open>The registrations asked for by the requests that were answered with a given status.\<close>

definition watched :: "nat \<Rightarrow> string \<Rightarrow> ('d request \<times> response option) list \<Rightarrow> string set" where
  "watched status t hist = {u. \<exists>rq rp. (PostWatch (Inr rq), Some rp) \<in> set hist \<and> rp_status rp = status \<and> wr_TxID rq = t \<and> wr_CallbackURL rq = u}"

lemma watched_Nil [simp]: "watched st t [] = {}"
  by (simp add: watched_def)

lemma watched_Cons:
  "watched st t ((rq, rp) # hist) = (case (rq, rp) of (PostWatch (Inr q), Some r) \<Rightarrow>
      (if rp_status r = st \<and> wr_TxID q = t then insert (wr_CallbackURL q) (watched st t hist) else watched st t hist) | _ \<Rightarrow> watched st t hist)"
  by (auto simp: watched_def split: request.splits option.splits sum.splits)

text \<open>The contract of the stores behind the service, as they behave for request \<open>i\<close>.\<close>

locale watch_store =
  fixes ops :: "nat \<Rightarrow> ('s, 'e) regOps" and addURL :: "nat \<Rightarrow> string \<Rightarrow> 's \<Rightarrow> ('e + unit) \<times> 's"
    and inv :: "'s \<Rightarrow> bool" and urlsOf :: "'s \<Rightarrow> string \<Rightarrow> string set"
  assumes added: "inv s \<Longrightarrow> roAdd (ops i) t u s = (Inr (), s') \<Longrightarrow> inv s' \<and> urlsOf s' = (urlsOf s)(t := insert u (urlsOf s t))"
    and add_failed: "inv s \<Longrightarrow> roAdd (ops i) t u s = (Inl e, s') \<Longrightarrow>
        inv s' \<and> (urlsOf s' = urlsOf s \<or> urlsOf s' = (urlsOf s)(t := insert u (urlsOf s t)))"
    and got: "inv s \<Longrightarrow> roGet (ops i) t s = Inr found \<Longrightarrow> set (case found of None \<Rightarrow> [] | Some us \<Rightarrow> us) = urlsOf s t
        \<and> distinct (case found of None \<Rightarrow> [] | Some us \<Rightarrow> us)"
    and url_added: "inv s \<Longrightarrow> addURL i u s = (r, s') \<Longrightarrow> inv s' \<and> urlsOf s' = urlsOf s"
begin

lemma watch_cases:
  assumes "inv s" and "sv_regStore sv = Some (ops i)" and "sv_urlRegistry sv = None \<or> sv_urlRegistry sv = Some (addURL i)"
    and "serve parseURL sv (PostWatch body) s = (rp, s')"
  shows "(\<exists>err. watchError parseURL body = Some err \<and> rp = Some (writeJSON 400 (ErrorResponse err)) \<and> s' = s)
    \<or> (\<exists>q. body = Inr q \<and> watchError parseURL body = None \<and> inv s' \<and>
        (rp = Some (writeJSON 200 (WatchResponse ''ok'' ''registration successful''))
           \<and> urlsOf s' = (urlsOf s)(wr_TxID q := insert (wr_CallbackURL q) (urlsOf s (wr_TxID q)))
         \<or> rp = Some (writeJSON 500 (ErrorResponse ''internal server error''))
           \<and> (urlsOf s' = urlsOf s \<or> urlsOf s' = (urlsOf s)(wr_TxID q := insert (wr_CallbackURL q) (urlsOf s (wr_TxID q))))))"
proof (cases "watchError parseURL body")
  case (Some err)
  then show ?thesis using assms(4) by (simp add: serve_def handleWatch_def)
next
  case None
  then obtain q where q: "body = Inr q" by (cases body) (simp_all add: watchError_def)
  obtain r s1 where add: "roAdd (ops i) (wr_TxID q) (wr_CallbackURL q) s = (r, s1)" by (cases "roAdd (ops i) (wr_TxID q) (wr_CallbackURL q) s")
  show ?thesis
  proof (cases r)
    case (Inl e)
    then have "rp = Some (writeJSON 500 (ErrorResponse ''internal server error''))" "s' = s1"
      using assms(2,4) None q add by (simp_all add: serve_def handleWatch_def)
    then show ?thesis using add_failed [OF assms(1), of i "wr_TxID q" "wr_CallbackURL q" e s1] add Inl None q by simp
  next
    case (Inr x)
    have 1: "inv s1 \<and> urlsOf s1 = (urlsOf s)(wr_TxID q := insert (wr_CallbackURL q) (urlsOf s (wr_TxID q)))"
      using added [OF assms(1)] add Inr by simp
    have rp: "rp = Some (writeJSON 200 (WatchResponse ''ok'' ''registration successful''))"
      and s': "s' = (case sv_urlRegistry sv of None \<Rightarrow> s1 | Some f \<Rightarrow> snd (f (wr_CallbackURL q) s1))"
      using assms(2,4) None q add Inr by (auto simp: serve_def handleWatch_def Let_def split: option.splits)
    have "inv s' \<and> urlsOf s' = urlsOf s1"
      using assms(3) 1 url_added [of s1 i "wr_CallbackURL q" "fst (addURL i (wr_CallbackURL q) s1)" s'] by (auto simp: s')
    then show ?thesis using 1 rp None q by simp
  qed
qed

lemma read_only: "\<forall>body. rq \<noteq> PostWatch body \<Longrightarrow> snd (serve parseURL sv rq s) = s"
  by (cases rq) (simp_all add: serve_def)

lemma history:
  assumes "inv s" and "\<And>i. sv_regStore (sv i) = Some (ops i)" and "\<And>i. sv_urlRegistry (sv i) = None \<or> sv_urlRegistry (sv i) = Some (addURL i)"
    and "serveAll parseURL sv i rqs s = (rps, s')"
  shows "inv s'" and "urlsOf s t \<union> watched 200 t (zip rqs rps) \<subseteq> urlsOf s' t"
    and "urlsOf s' t \<subseteq> urlsOf s t \<union> watched 200 t (zip rqs rps) \<union> watched 500 t (zip rqs rps)"
proof -
  have "inv s' \<and> urlsOf s t \<union> watched 200 t (zip rqs rps) \<subseteq> urlsOf s' t
      \<and> urlsOf s' t \<subseteq> urlsOf s t \<union> watched 200 t (zip rqs rps) \<union> watched 500 t (zip rqs rps)"
    using assms(1,4)
  proof (induction rqs arbitrary: i s rps)
    case (Cons rq rqs)
    obtain rp s1 where 1: "serve parseURL (sv i) rq s = (rp, s1)" by (cases "serve parseURL (sv i) rq s")
    obtain rps1 where 2: "serveAll parseURL sv (i + 1) rqs s1 = (rps1, s')" and rps: "rps = rp # rps1"
      using Cons.prems(2) 1 by (cases "serveAll parseURL sv (i + 1) rqs s1") (auto simp: Let_def)
    have w: "watched st t (zip (rq # rqs) rps) = watched st t [(rq, rp)] \<union> watched st t (zip rqs rps1)" for st
      by (auto simp: rps watched_def)
    have step: "inv s1 \<and> urlsOf s t \<union> watched 200 t [(rq, rp)] \<subseteq> urlsOf s1 t
        \<and> urlsOf s1 t \<subseteq> urlsOf s t \<union> watched 200 t [(rq, rp)] \<union> watched 500 t [(rq, rp)]"
    proof (cases "\<exists>body. rq = PostWatch body")
      case True
      then obtain body where "rq = PostWatch body" by blast
      then show ?thesis using watch_cases [OF Cons.prems(1) assms(2,3) 1 [unfolded \<open>rq = PostWatch body\<close>]] Cons.prems(1)
        by (auto simp: watched_Cons writeJSON_def split: sum.splits if_splits)
    next
      case False
      then have "s1 = s" using read_only [of rq parseURL "sv i" s] 1 by simp
      then show ?thesis using False Cons.prems(1) by (cases rq) (auto simp: watched_Cons)
    qed
    show ?case using Cons.IH [OF _ 2] step unfolding w by blast
  qed simp
  then show "inv s'" "urlsOf s t \<union> watched 200 t (zip rqs rps) \<subseteq> urlsOf s' t"
    "urlsOf s' t \<subseteq> urlsOf s t \<union> watched 200 t (zip rqs rps) \<union> watched 500 t (zip rqs rps)" by blast+
qed

end

section \<open>The contract holds for both backends\<close>

definition nilIfEmpty :: "'a list \<Rightarrow> 'a list option" where
  "nilIfEmpty xs = (if xs = [] then None else Some xs)"

definition sqlRegOps :: "(string list \<Rightarrow> string list) \<Rightarrow> sqlFault option \<Rightarrow> string option \<Rightarrow> (db, sqlErr) regOps" where
  "sqlRegOps orderBy flt rflt = \<lparr>roAdd = regAdd flt, roGet = (\<lambda>t d. map_sum id nilIfEmpty (regGet orderBy rflt t d))\<rparr>"

text \<open>A server on the SQL backend, whose store operations fail as the arguments say.\<close>

definition sqlServer :: "(string list \<Rightarrow> string list) \<Rightarrow> sqlFault option \<Rightarrow> string option \<Rightarrow> sqlFault option \<Rightarrow> (db, sqlErr) Server" where
  "sqlServer orderBy flt rflt uflt = NewServer (Some (sqlRegOps orderBy flt rflt)) (Some (urlAdd uflt)) None None"

lemma sqlTx_failed:
  assumes "sqlTx flt (\<lambda>d. (Inr (), f d)) d = (r, d')"
  shows "d' = d \<or> d' = f d"
  using assms by (auto simp: sqlTx_def split: option.splits sqlFault.splits)

locale sql_order =
  fixes orderBy :: "string list \<Rightarrow> string list"
  assumes order: "row_order orderBy"

sublocale sql_order \<subseteq> watch_store "\<lambda>i. sqlRegOps orderBy (flt i) (rflt i)" "\<lambda>i. urlAdd (uflt i)" regInv urlsIn for flt rflt uflt
proof unfold_locales
  fix s t u s' i
  assume "regInv s"
  let ?added = "s\<lparr>registrations := insertDefault t None (registrations s), registration_urls := insertNew (t, u) (registration_urls s)\<rparr>"
  have ins: "regInv ?added \<and> urlsIn ?added = (urlsIn s)(t := insert u (urlsIn s t))"
    using \<open>regInv s\<close> by (auto simp: regInv_def urlsIn_def insertNew_def fun_eq_iff)
  show "regInv s' \<and> urlsIn s' = (urlsIn s)(t := insert u (urlsIn s t))" if "roAdd (sqlRegOps orderBy (flt i) (rflt i)) t u s = (Inr (), s')"
    using rows.added_urls [OF \<open>regInv s\<close>, of "flt i" t u s'] that by (simp add: sqlRegOps_def fun_eq_iff)
  show "regInv s' \<and> (urlsIn s' = urlsIn s \<or> urlsIn s' = (urlsIn s)(t := insert u (urlsIn s t)))"
    if "roAdd (sqlRegOps orderBy (flt i) (rflt i)) t u s = (Inl e, s')" for e
  proof -
    have "s' = s \<or> s' = ?added" using that by (auto simp: sqlRegOps_def regAdd_def dest: sqlTx_failed)
    then show ?thesis using ins \<open>regInv s\<close> by auto
  qed
next
  fix s t found i
  assume inv: "regInv s" and get: "roGet (sqlRegOps orderBy (flt i) (rflt i)) t s = Inr found"
  define q where "q = map snd (filter (\<lambda>(t', u). t' = t) (registration_urls s))"
  have f: "found = nilIfEmpty (orderBy q)"
    using get by (auto simp: sqlRegOps_def regGet_def sqlRead_def q_def split: option.splits)
  have "set q = urlsIn s t" by (force simp: q_def urlsIn_def)
  moreover have "inj_on snd (set (filter (\<lambda>(t', u). t' = t) (registration_urls s)))" by (auto simp: inj_on_def)
  then have "distinct q" using inv by (simp add: q_def distinct_map regInv_def)
  ultimately show "set (case found of None \<Rightarrow> [] | Some us \<Rightarrow> us) = urlsIn s t \<and> distinct (case found of None \<Rightarrow> [] | Some us \<Rightarrow> us)"
    using row_orderD [OF order, of q] by (auto simp: f nilIfEmpty_def)
next
  fix s i u r s'
  assume "regInv s" and "urlAdd (uflt i) u s = (r, s')"
  then have "s' = s \<or> s' = s\<lparr>callback_urls := insertNew u (callback_urls s)\<rparr>" by (auto simp: urlAdd_def dest: sqlTx_failed)
  then show "regInv s' \<and> urlsIn s' = urlsIn s" using \<open>regInv s\<close> by (auto simp: regInv_def urlsIn_def fun_eq_iff)
qed

interpretation sqlWatch: sql_order id
  by unfold_locales (simp add: row_order_def)

definition asOps :: "('c, 'x) aerospikeStore_scheme \<Rightarrow> ('c, asStoreErr) regOps" where
  "asOps s = \<lparr>roAdd = asRegAdd s, roGet = asRegGet s\<rparr>"

text \<open>The registrations and the URL registry over one client.\<close>

locale aerospike_watch = aerospike_store s recs + urls: aerospike_store r recs
  for s :: "('c, 'x) aerospikeStore_scheme" and r :: "('c, 'y) aerospikeStore_scheme" and recs

sublocale aerospike_watch \<subseteq> watch: watch_store "\<lambda>_. asOps s" "\<lambda>_. asUrlAdd r" "clusterTyped recs" "asUrlsOf recs s"
proof unfold_locales
  fix c t u c' and i :: nat
  assume inv: "clusterTyped recs c"
  show "clusterTyped recs c' \<and> asUrlsOf recs s c' = (asUrlsOf recs s c)(t := insert u (asUrlsOf recs s c t))"
    if "roAdd (asOps s) t u c = (Inr (), c')"
    using regs.add [OF inv] that by (simp add: asOps_def)
  show "clusterTyped recs c' \<and> (asUrlsOf recs s c' = asUrlsOf recs s c \<or> asUrlsOf recs s c' = (asUrlsOf recs s c)(t := insert u (asUrlsOf recs s c t)))"
    if "roAdd (asOps s) t u c = (Inl e, c')" for e
  proof -
    have f: "asSetInsert s t callbacksBin u c = (Inl e, c')" using that by (simp add: asOps_def asRegAdd_def)
    have "clusterTyped recs c'" by (rule setInsert_typed [OF inv f callbacks_string])
    moreover have u: "asUrlsOf recs s x = (\<lambda>t. strSet (recOf x t) callbacksBin)" for x by (rule ext) (rule asUrlsOf_recOf)
    have "asUrlsOf recs s c' = (asUrlsOf recs s c)(t := insert u (asUrlsOf recs s c t))"
      if "recOf c' = (recOf c)(t := (recOf c t)(callbacksBin \<mapsto> AList (map AStr us)))" "set us = insert u (strSet (recOf c t) callbacksBin)" for us
      by (rule ext) (simp add: u that)
    moreover have "asUrlsOf recs s c' = asUrlsOf recs s c" if "recOf c' = recOf c" by (simp add: u that)
    ultimately show ?thesis using setInsert_failed [OF inv f callbacks_string] by blast
  qed
next
  fix c t found and i :: nat
  assume inv: "clusterTyped recs c" and get: "roGet (asOps s) t c = Inr found"
  show "set (case found of None \<Rightarrow> [] | Some us \<Rightarrow> us) = asUrlsOf recs s c t \<and> distinct (case found of None \<Rightarrow> [] | Some us \<Rightarrow> us)"
    using setRead_spec(2) [OF inv callbacks_string, of t found] get by (auto simp: asOps_def asRegGet_def asUrlsOf_recOf)
next
  fix c u x c' and i :: nat
  assume inv: "clusterTyped recs c" and add: "asUrlAdd r u c = (x, c')"
  let ?ops = "[ListAppendWithPolicyOp ListOrderOrdered [ListWriteFlagsAddUnique, ListWriteFlagsNoFail] callbackURLsBin (AStr u)]"
  obtain wp key y where op: "asOperate (ac_client (as_client r)) wp key ?ops c = (y, c')"
    using add by (auto simp: asUrlAdd_def asSetInsert_def urls.storeKey_ok Let_def split: prod.splits sum.splits)
  have "binsOf (recs c' k) callbacksBin = binsOf (recs c k) callbacksBin" for k
    by (rule urls.operate_other [OF op]) (simp add: bin_names)
  then have "asUrlsOf recs s c' = asUrlsOf recs s c" by (simp add: asUrlsOf_def strSet_def fun_eq_iff)
  moreover have "clusterTyped recs c'" using urls.setInsert_typed [OF inv add [unfolded asUrlAdd_def] urls_string] .
  ultimately show "clusterTyped recs c' \<and> asUrlsOf recs s c' = asUrlsOf recs s c" by blast
qed

interpretation exWatch: aerospike_watch "exStore lost" "exStore lost" clusterRecs for lost
  by (simp add: aerospike_watch_def aerospike_store_def exStore_def cluster.aerospike_axioms)

section \<open>Histories\<close>

context sql_order
begin

lemma sql_history:
  assumes "serveAll parseURL (\<lambda>i. sqlServer orderBy (flt i) (rflt i) (uflt i)) 0 rqs emptyDb = (rps, d)"
  shows "regInv d" and "watched 200 t (zip rqs rps) \<subseteq> urlsIn d t"
    and "urlsIn d t \<subseteq> watched 200 t (zip rqs rps) \<union> watched 500 t (zip rqs rps)"
proof -
  have e: "regInv emptyDb" "urlsIn emptyDb t = {}" by (auto simp: regInv_def urlsIn_def emptyDb_def)
  have sv: "sv_regStore (sqlServer orderBy (flt i) (rflt i) (uflt i)) = Some (sqlRegOps orderBy (flt i) (rflt i))"
      "sv_urlRegistry (sqlServer orderBy (flt i) (rflt i) (uflt i)) = None \<or> sv_urlRegistry (sqlServer orderBy (flt i) (rflt i) (uflt i)) = Some (urlAdd (uflt i))" for i
    by (simp_all add: sqlServer_def NewServer_def Let_def)
  note h = history [where flt = flt and rflt = rflt and uflt = uflt, OF e(1) sv assms]
  show "regInv d" using h(1) .
  show "watched 200 t (zip rqs rps) \<subseteq> urlsIn d t" using h(2) [of t] by blast
  show "urlsIn d t \<subseteq> watched 200 t (zip rqs rps) \<union> watched 500 t (zip rqs rps)" using h(3) [of t] e(2) by blast
qed

lemma sql_lookup:
  assumes "regInv d" and "txidRegex t"
  shows "\<exists>us. handleLookup (sqlServer orderBy flt' None uflt') t d = writeJSON 200 (LookupResponse t us) \<and> distinct us \<and> set us = urlsIn d t"
proof -
  obtain found where f: "roGet (sqlRegOps orderBy flt' None) t d = Inr found" by (simp add: sqlRegOps_def regGet_def sqlRead_def)
  let ?us = "case found of None \<Rightarrow> [] | Some us \<Rightarrow> us"
  have "handleLookup (sqlServer orderBy flt' None uflt') t d = writeJSON 200 (LookupResponse t ?us)"
    using assms(2) f by (simp add: handleLookup_def sqlServer_def NewServer_def Let_def)
  then show ?thesis using got [where flt = "\<lambda>_. flt'" and rflt = "\<lambda>_. None", OF assms(1) f] by blast
qed

end

text \<open>
  C8: The service remembers what it accepted. Let it answer any sequence of requests, valid or not,
  with a SQL backend whose statements may fail. A later lookup of a well-formed txid that reaches the
  database lists, without repetition, every URL whose registration for this txid was answered with 200,
  and otherwise only URLs whose registration was answered with 500 (their transaction may have been
  committed before the connection broke): rejected requests leave no trace, and neither does the URL
  registry.
\<close>

theorem watch_history:
  assumes "row_order orderBy" and "txidRegex t"
    and "serveAll parseURL (\<lambda>i. sqlServer orderBy (flt i) (rflt i) (uflt i)) 0 rqs emptyDb = (rps, d)"
  shows "\<exists>us. handleLookup (sqlServer orderBy flt' None uflt') t d = writeJSON 200 (LookupResponse t us) \<and> distinct us
    \<and> watched 200 t (zip rqs rps) \<subseteq> set us \<and> set us \<subseteq> watched 200 t (zip rqs rps) \<union> watched 500 t (zip rqs rps)"
proof -
  have so: "sql_order orderBy" using assms(1) by (simp add: sql_order_def)
  note h = sql_order.sql_history [OF so assms(3)]
  show ?thesis using sql_order.sql_lookup [OF so h(1) assms(2)] h(2,3) [of t] by metis
qed


definition exTxid :: string where
  "exTxid = replicate 64 CHR ''a''"

definition exParse :: "string \<Rightarrow> (string \<times> string) option" where
  "exParse u = (if take 7 u = ''http://'' then Some (''http'', drop 7 u) else None)"

theorem watch_history_witness:
  "\<exists>us. handleLookup (sqlServer id None None None) exTxid
      (snd (serveAll exParse (\<lambda>_. sqlServer id None None None) 0
        [PostWatch (Inl ()), PostWatch (Inr \<lparr>wr_TxID = exTxid, wr_CallbackURL = ''http://a''\<rparr>), PostWatch (Inr \<lparr>wr_TxID = ''ab'', wr_CallbackURL = ''http://a''\<rparr>),
         PostWatch (Inr \<lparr>wr_TxID = exTxid, wr_CallbackURL = ''ftp://b''\<rparr>)] emptyDb)) = writeJSON 200 (LookupResponse exTxid us) \<and> set us = {''http://a''}"
proof -
  let ?rqs = "[PostWatch (Inl ()), PostWatch (Inr \<lparr>wr_TxID = exTxid, wr_CallbackURL = ''http://a''\<rparr>), PostWatch (Inr \<lparr>wr_TxID = ''ab'', wr_CallbackURL = ''http://a''\<rparr>),
         PostWatch (Inr \<lparr>wr_TxID = exTxid, wr_CallbackURL = ''ftp://b''\<rparr>)]"
  let ?run = "serveAll exParse (\<lambda>_. sqlServer id None None None) 0 ?rqs emptyDb"
  have t: "txidRegex exTxid" "exTxid \<noteq> ''''" "\<not> txidRegex ''ab''" by (simp_all add: txidRegex_def exTxid_def isHexChar_def list_all_iff)
  have h: "fst ?run = [Some (writeJSON 400 (ErrorResponse ''invalid request body'')), Some (writeJSON 200 (WatchResponse ''ok'' ''registration successful'')),
      Some (writeJSON 400 (ErrorResponse badTxid)), Some (writeJSON 400 (ErrorResponse ''invalid callbackUrl: must be a valid HTTP/HTTPS URL''))]"
    using t by (simp add: serve_def handleWatch_def watchError_def validURL_def exParse_def sqlServer_def NewServer_def sqlRegOps_def
      regAdd_def urlAdd_def sqlTx_def Let_def split_def)
  obtain d where d: "?run = (fst ?run, d)" by (metis prod.collapse)
  have "row_order id" by (simp add: row_order_def)
  from watch_history [OF this t(1) d, of None None] obtain us where us:
      "handleLookup (sqlServer id None None None) exTxid d = writeJSON 200 (LookupResponse exTxid us)"
      "watched 200 exTxid (zip ?rqs (fst ?run)) \<subseteq> set us"
      "set us \<subseteq> watched 200 exTxid (zip ?rqs (fst ?run)) \<union> watched 500 exTxid (zip ?rqs (fst ?run))" by blast
  have "watched 200 exTxid (zip ?rqs (fst ?run)) = {''http://a''}" "watched 500 exTxid (zip ?rqs (fst ?run)) = {}"
    unfolding h by (simp_all add: watched_Cons writeJSON_def)
  moreover have "snd ?run = d" using d by (metis snd_conv)
  ultimately show ?thesis using us by auto
qed

section \<open>Registered and reported txids\<close>

text \<open>
  The service accepts hexadecimal digits of either case and stores the txid as it was sent; a subtree's
  txids are compared with it in lower case. An accepted txid can be found in a subtree only if it has no
  upper-case letter.
\<close>

definition isUpper :: "char \<Rightarrow> bool" where
  "isUpper c = (65 \<le> (of_char c :: nat) \<and> (of_char c :: nat) \<le> 90)"

lemma hexDigit_lower: "n < 16 \<Longrightarrow> isHexChar (hexDigit n) \<and> \<not> isUpper (hexDigit n)"
  by (auto simp: isHexChar_def isUpper_def hexDigit_def Let_def of_char_of)

lemma hexDigit_of_lower:
  assumes "isHexChar c" and "\<not> isUpper c"
  obtains n where "n < 16" "c = hexDigit n"
proof -
  define n where "n = (of_char c :: nat)"
  have c: "c = char_of n" by (simp add: n_def)
  have "48 \<le> n \<and> n \<le> 57 \<or> 97 \<le> n \<and> n \<le> 102" using assms by (auto simp: isHexChar_def isUpper_def n_def Let_def)
  then show thesis
  proof
    assume "48 \<le> n \<and> n \<le> 57"
    then have "n - 48 < 16" "n - 48 < 10" "48 + (n - 48) = n" by arith+
    then show thesis using that [of "n - 48"] by (simp add: hexDigit_def c)
  next
    assume "97 \<le> n \<and> n \<le> 102"
    then have "n - 87 < 16" "\<not> n - 87 < 10" "87 + (n - 87) = n" by arith+
    then show thesis using that [of "n - 87"] by (simp add: hexDigit_def c)
  qed
qed

lemma hexEncode_lower: "c \<in> set (hexEncode b) \<Longrightarrow> isHexChar c \<and> \<not> isUpper c"
proof (induction b)
  case (Cons x b)
  have "unat x div 16 < 16" using unsigned_less [of x, where ?'a = nat] by (simp add: less_mult_imp_div_less)
  then show ?case using Cons hexDigit_lower [of "unat x div 16"] hexDigit_lower [of "unat x mod 16"]
    by (auto simp: hexEncode_def hexByte_def)
qed (simp add: hexEncode_def)

lemma hexEncode_of_lower:
  "even (length t) \<Longrightarrow> list_all isHexChar t \<Longrightarrow> \<forall>c \<in> set t. \<not> isUpper c \<Longrightarrow> \<exists>b. hexEncode b = t \<and> length t = 2 * length b"
proof (induction t rule: hexDecode.induct)
  case (3 c d cs)
  obtain x where x: "x < 16" "c = hexDigit x" using hexDigit_of_lower [of c] "3.prems" by auto
  obtain y where y: "y < 16" "d = hexDigit y" using hexDigit_of_lower [of d] "3.prems" by auto
  obtain b where b: "hexEncode b = cs" "length cs = 2 * length b" using 3 by auto
  have "unat (of_nat (16 * x + y) :: byte) = 16 * x + y" using x(1) y(1) by (simp only: unat_of_nat) simp
  then have "hexByte (of_nat (16 * x + y)) = [c, d]" using x y unfolding hexByte_def by simp
  then show ?case using b by (intro exI [of _ "of_nat (16 * x + y) # b"]) (simp add: hexEncode_def)
qed (simp_all add: hexEncode_def)

lemma hexTxids_accepted: "t \<in> hexTxids \<Longrightarrow> txidRegex t"
proof -
  have "length (hexEncode b) = 2 * length b" for b by (induction b) (simp_all add: hexEncode_def hexByte_def)
  then show "t \<in> hexTxids \<Longrightarrow> txidRegex t" using hexEncode_lower by (auto simp: hexTxids_def txidRegex_def list_all_iff)
qed

lemma accepted_txids:
  assumes "txidRegex t"
  shows "t \<in> hexTxids \<longleftrightarrow> (\<forall>c \<in> set t. \<not> isUpper c)"
proof
  assume "t \<in> hexTxids"
  then show "\<forall>c \<in> set t. \<not> isUpper c" using hexEncode_lower by (auto simp: hexTxids_def)
next
  assume "\<forall>c \<in> set t. \<not> isUpper c"
  then obtain b where "hexEncode b = t" "length t = 2 * length b"
    using hexEncode_of_lower [of t] assms by (auto simp: txidRegex_def)
  then show "t \<in> hexTxids" using assms by (auto simp: txidRegex_def hexTxids_def)
qed

end
