(* ===== verification/Sql_Setup.thy ===== *)
theory Sql_Setup
  imports Sql_Stores Kafka_Messages Go_Strings
begin

text \<open>
  Setting up the SQL backend (internal/store/sql/dialect.go, migrate.go and the driver choice of sql.go):
  reading the embedded migrations, rewriting and splitting their text, and applying the pending ones,
  by one service and by several services that start at the same time.

  Text is ASCII, as the migrations are. What a statement does to the database is the parameter \<open>exec\<close>;
  the table of the applied versions is modelled. The first migration creates this table, too, but only
  if it does not exist, and it does exist then.
\<close>

section \<open>Dialects\<close>

record dialect =
  dl_name :: string
  dl_placeholder :: "nat \<Rightarrow> string"
  dl_now :: string
  dl_intervalSeconds :: "int \<Rightarrow> string"
  dl_onConflictDoNothing :: string
  dl_rewrite :: "string \<Rightarrow> string"

definition postgresDialect :: dialect where
  "postgresDialect = \<lparr>dl_name = ''postgres'', dl_placeholder = (\<lambda>n. CHR ''$'' # natString n), dl_now = ''now()'',
     dl_intervalSeconds = (\<lambda>s. ''now() + ('' @ Itoa s @ '' * interval '' @ [CHR 39] @ ''1 second'' @ [CHR 39] @ '')''),
     dl_onConflictDoNothing = '' ON CONFLICT DO NOTHING'',
     dl_rewrite = replaceAll [(''${BYTEA}'', ''bytea''), (''${TIMESTAMPTZ}'', ''timestamptz''), (''${AUTOINC}'', ''bigserial''),
       (''${IF_NOT_EXISTS_INDEX}'', ''IF NOT EXISTS'')]\<rparr>"

definition sqliteDialect :: dialect where
  "sqliteDialect = \<lparr>dl_name = ''sqlite'', dl_placeholder = (\<lambda>n. ''?''), dl_now = ''CURRENT_TIMESTAMP'',
     dl_intervalSeconds = (\<lambda>s. ''datetime(CURRENT_TIMESTAMP, '' @ [CHR 39] @ (if s < 0 then ''-'' else ''+'') @ Itoa \<bar>s\<bar> @ '' seconds'' @ [CHR 39] @ '')''),
     dl_onConflictDoNothing = '' ON CONFLICT DO NOTHING'',
     dl_rewrite = replaceAll [(''${BYTEA}'', ''blob''), (''${TIMESTAMPTZ}'', ''datetime''), (''${AUTOINC}'', ''integer primary key autoincrement''),
       (''${IF_NOT_EXISTS_INDEX}'', ''IF NOT EXISTS'')]\<rparr>"

definition isPostgres :: "dialect option \<Rightarrow> bool" where
  "isPostgres d = (case d of None \<Rightarrow> False | Some d \<Rightarrow> dl_name d = ''postgres'')"

definition resolveDriver :: "string \<Rightarrow> (dialect \<times> string) option" where
  "resolveDriver name =
     (if name = ''postgres'' \<or> name = ''pgx'' \<or> name = '''' then Some (postgresDialect, ''pgx'')
      else if name = ''sqlite'' \<or> name = ''sqlite3'' then Some (sqliteDialect, ''sqlite'')
      else None)"

text \<open>\<open>duration\<close> is \<open>time.ParseDuration\<close>, in nanoseconds.\<close>

definition parseDuration :: "(string \<Rightarrow> int option) \<Rightarrow> string \<Rightarrow> int \<Rightarrow> int" where
  "parseDuration duration s def =
     (if s = '''' then def else (case duration s of None \<Rightarrow> def | Some d \<Rightarrow> if d \<le> 0 then def else d))"

section \<open>Migrations\<close>

record migration =
  mg_version :: int
  mg_name :: string
  mg_body :: string

datatype migErr = EMigrationName string | EMigrationVersion string | EReadMigration string string | EMigrationLock string
  | EBootstrap string | ESelectVersions string | EApply migration sqlErr

text \<open>An entry of the embedded directory: its name, whether it is a directory, and what reading it gives.\<close>

fun loadEntries :: "(string \<times> bool \<times> (string + string)) list \<Rightarrow> migErr + migration list" where
  "loadEntries [] = Inr []"
| "loadEntries ((name, isDir, content) # es) =
     (if isDir \<or> \<not> hasSuffix ''.sql'' name then loadEntries es
      else (case cutAt CHR ''_'' name of
          None \<Rightarrow> Inl (EMigrationName name)
        | Some (number, rest) \<Rightarrow> (case Atoi number of
            None \<Rightarrow> Inl (EMigrationVersion name)
          | Some v \<Rightarrow> (case content of
              Inl err \<Rightarrow> Inl (EReadMigration name err)
            | Inr body \<Rightarrow> (case loadEntries es of
                Inl e \<Rightarrow> Inl e
              | Inr out \<Rightarrow> Inr (\<lparr>mg_version = v, mg_name = rest, mg_body = body\<rparr> # out))))))"

text \<open>\<open>srt\<close> is \<open>sort.Slice\<close> by version, which may order equal versions in any way.\<close>

definition loadMigrations :: "(migration list \<Rightarrow> migration list) \<Rightarrow> (string \<times> bool \<times> (string + string)) list \<Rightarrow> migErr + migration list" where
  "loadMigrations srt entries = map_sum id srt (loadEntries entries)"

definition sortsByVersion :: "(migration list \<Rightarrow> migration list) \<Rightarrow> bool" where
  "sortsByVersion srt \<longleftrightarrow> (\<forall>ms. mset (srt ms) = mset ms \<and> sorted (map mg_version (srt ms)))"

definition splitStatements :: "string \<Rightarrow> string list" where
  "splitStatements body =
     splitOn CHR '';'' (concat (map (\<lambda>line. line @ [CHR 10]) (filter (\<lambda>line. \<not> hasPrefix ''--'' (trimSpace line)) (splitOn (CHR 10) body))))"

definition migrationStatements :: "dialect \<Rightarrow> migration \<Rightarrow> string list" where
  "migrationStatements d m = filter (\<lambda>stmt. trimSpace stmt \<noteq> '''') (splitStatements (dl_rewrite d (mg_body m)))"

text \<open>The database: the table of the applied versions, absent at first, and everything else.\<close>

record 's schemaDb =
  sd_versions :: "int list option"
  sd_rest :: 's

fun execAll :: "(string \<Rightarrow> 's \<Rightarrow> string + 's) \<Rightarrow> string list \<Rightarrow> 's \<Rightarrow> string + 's" where
  "execAll exec [] s = Inr s"
| "execAll exec (stmt # stmts) s = (case exec stmt s of Inl err \<Rightarrow> Inl err | Inr s \<Rightarrow> execAll exec stmts s)"

text \<open>One migration in one transaction, which records its version; the version is a primary key.\<close>

definition applyMigration :: "(string \<Rightarrow> 's \<Rightarrow> string + 's) \<Rightarrow> sqlFault option \<Rightarrow> dialect \<Rightarrow> migration \<Rightarrow> 's schemaDb \<Rightarrow> (sqlErr + unit) \<times> 's schemaDb" where
  "applyMigration exec flt d m = sqlTx flt (\<lambda>db. case execAll exec (migrationStatements d m) (sd_rest db) of
      Inl err \<Rightarrow> (Inl (SqlErr err), db)
    | Inr rest \<Rightarrow> (case sd_versions db of
        None \<Rightarrow> (Inl (SqlErr ''no such table: schema_migrations''), db)
      | Some vs \<Rightarrow> if mg_version m \<in> set vs then (Inl (SqlErr ''UNIQUE constraint failed: schema_migrations.version''), db)
          else (Inr (), db\<lparr>sd_rest := rest, sd_versions := Some (vs @ [mg_version m])\<rparr>)))"

definition isMissingTable :: "string \<Rightarrow> bool" where
  "isMissingTable lowered = list_ex (\<lambda>p. list_ex (\<lambda>i. hasPrefix p (drop i lowered)) [0..<length lowered]) [''no such table'', ''does not exist'', ''undefined_table'']"

definition queryAppliedVersions :: "string option \<Rightarrow> 's schemaDb \<Rightarrow> migErr + int list" where
  "queryAppliedVersions flt db = (case flt of
      Some err \<Rightarrow> if isMissingTable err then Inr [] else Inl (ESelectVersions err)
    | None \<Rightarrow> Inr (case sd_versions db of None \<Rightarrow> [] | Some vs \<Rightarrow> vs))"

definition bootstrap :: "'s schemaDb \<Rightarrow> 's schemaDb" where
  "bootstrap db = db\<lparr>sd_versions := Some (case sd_versions db of None \<Rightarrow> [] | Some vs \<Rightarrow> vs)\<rparr>"

text \<open>The loop over the migrations; \<open>flts\<close> says how the transaction of each ends.\<close>

fun applyPending ::
    "(string \<Rightarrow> 's \<Rightarrow> string + 's) \<Rightarrow> (migration \<Rightarrow> sqlFault option) \<Rightarrow> dialect \<Rightarrow> int list \<Rightarrow> migration list \<Rightarrow> 's schemaDb \<Rightarrow> (migErr + unit) \<times> 's schemaDb" where
  "applyPending exec flts d applied [] db = (Inr (), db)"
| "applyPending exec flts d applied (m # ms) db =
     (if mg_version m \<in> set applied then applyPending exec flts d applied ms db
      else (case applyMigration exec (flts m) d m db of
          (Inl err, db) \<Rightarrow> (Inl (EApply m err), db)
        | (Inr _, db) \<Rightarrow> applyPending exec flts d applied ms db))"

record migFaults =
  mf_lock :: "string option"
  mf_bootstrap :: "string option"
  mf_query :: "string option"
  mf_apply :: "migration \<Rightarrow> sqlFault option"

definition runMigrations ::
    "(string \<Rightarrow> 's \<Rightarrow> string + 's) \<Rightarrow> migFaults \<Rightarrow> dialect \<Rightarrow> migErr + migration list \<Rightarrow> 's schemaDb \<Rightarrow> (migErr + unit) \<times> 's schemaDb" where
  "runMigrations exec f d loaded db = (case loaded of
      Inl err \<Rightarrow> (Inl err, db)
    | Inr migs \<Rightarrow>
        if migs = [] then (Inr (), db)
        else (case (if isPostgres (Some d) then mf_lock f else None) of
            Some err \<Rightarrow> (Inl (EMigrationLock err), db)
          | None \<Rightarrow> (case mf_bootstrap f of
              Some err \<Rightarrow> (Inl (EBootstrap err), db)
            | None \<Rightarrow>
                (let db = bootstrap db
                 in case queryAppliedVersions (mf_query f) db of
                      Inl err \<Rightarrow> (Inl err, db)
                    | Inr applied \<Rightarrow> applyPending exec (mf_apply f) d applied migs db))))"

section \<open>Services that start together\<close>

text \<open>
  The same, for any number of services that run it at the same time, with a step for every access to
  the database. On PostgreSQL a service waits for the advisory lock, which is released when it is done
  or its session ends; the lock is tied to the service here, while the code takes it on a separate connection, whose loss alone
  is not a step. On SQLite \<open>acquireMigrationLock\<close> does nothing. A service can stop at any moment, by
  an error or because its process ends.
\<close>

datatype startState = Waiting | Locked | Booted | Applying "int list" "migration list" | Finished | Stopped

record 's msys =
  ms_lock :: "nat option"
  ms_db :: "'s schemaDb"
  ms_procs :: "startState list"

definition move :: "nat \<Rightarrow> startState \<Rightarrow> 's msys \<Rightarrow> 's msys" where
  "move i p s = s\<lparr>ms_procs := (ms_procs s)[i := p]\<rparr>"

definition unlock :: "nat \<Rightarrow> 's msys \<Rightarrow> 's msys" where
  "unlock i s = s\<lparr>ms_lock := (if ms_lock s = Some i then None else ms_lock s)\<rparr>"

fun holdsLock :: "startState \<Rightarrow> bool" where
  "holdsLock Waiting = False"
| "holdsLock Finished = False"
| "holdsLock Stopped = False"
| "holdsLock _ = True"

inductive mstep :: "(string \<Rightarrow> 's \<Rightarrow> string + 's) \<Rightarrow> dialect \<Rightarrow> migration list \<Rightarrow> 's msys \<Rightarrow> 's msys \<Rightarrow> bool"
  for exec d migs where
  acquire: "i < length (ms_procs s) \<Longrightarrow> ms_procs s ! i = Waiting \<Longrightarrow> (isPostgres (Some d) \<longrightarrow> ms_lock s = None)
    \<Longrightarrow> mstep exec d migs s (move i Locked (s\<lparr>ms_lock := (if isPostgres (Some d) then Some i else ms_lock s)\<rparr>))"
| boot: "i < length (ms_procs s) \<Longrightarrow> ms_procs s ! i = Locked \<Longrightarrow> mstep exec d migs s (move i Booted (s\<lparr>ms_db := bootstrap (ms_db s)\<rparr>))"
| query: "i < length (ms_procs s) \<Longrightarrow> ms_procs s ! i = Booted \<Longrightarrow> queryAppliedVersions None (ms_db s) = Inr applied
    \<Longrightarrow> mstep exec d migs s (move i (Applying applied migs) s)"
| skip: "i < length (ms_procs s) \<Longrightarrow> ms_procs s ! i = Applying applied (m # ms) \<Longrightarrow> mg_version m \<in> set applied
    \<Longrightarrow> mstep exec d migs s (move i (Applying applied ms) s)"
| migrate: "i < length (ms_procs s) \<Longrightarrow> ms_procs s ! i = Applying applied (m # ms) \<Longrightarrow> mg_version m \<notin> set applied
    \<Longrightarrow> applyMigration exec flt d m (ms_db s) = (Inr (), db) \<Longrightarrow> mstep exec d migs s (move i (Applying applied ms) (s\<lparr>ms_db := db\<rparr>))"
| migrate_failed: "i < length (ms_procs s) \<Longrightarrow> ms_procs s ! i = Applying applied (m # ms) \<Longrightarrow> mg_version m \<notin> set applied
    \<Longrightarrow> applyMigration exec flt d m (ms_db s) = (Inl err, db) \<Longrightarrow> mstep exec d migs s (unlock i (move i Stopped (s\<lparr>ms_db := db\<rparr>)))"
| finish: "i < length (ms_procs s) \<Longrightarrow> ms_procs s ! i = Applying applied [] \<Longrightarrow> mstep exec d migs s (unlock i (move i Finished s))"
| stop: "i < length (ms_procs s) \<Longrightarrow> holdsLock (ms_procs s ! i) \<Longrightarrow> mstep exec d migs s (unlock i (move i Stopped s))"

inductive mreach :: "(string \<Rightarrow> 's \<Rightarrow> string + 's) \<Rightarrow> dialect \<Rightarrow> migration list \<Rightarrow> 's msys \<Rightarrow> 's msys \<Rightarrow> bool"
  for exec d migs s0 where
  here: "mreach exec d migs s0 s0"
| step: "mreach exec d migs s0 s \<Longrightarrow> mstep exec d migs s t \<Longrightarrow> mreach exec d migs s0 t"

definition starters :: "nat \<Rightarrow> 's schemaDb \<Rightarrow> 's msys" where
  "starters n db = \<lparr>ms_lock = None, ms_db = db, ms_procs = replicate n Waiting\<rparr>"

text \<open>The database after the first \<open>k\<close> migrations, from the empty schema \<open>s0\<close>.\<close>

definition migrated :: "(string \<Rightarrow> 's \<Rightarrow> string + 's) \<Rightarrow> dialect \<Rightarrow> migration list \<Rightarrow> 's \<Rightarrow> nat \<Rightarrow> 's schemaDb \<Rightarrow> bool" where
  "migrated exec d migs s0 k db \<longleftrightarrow> k \<le> length migs
     \<and> (case sd_versions db of None \<Rightarrow> k = 0 | Some vs \<Rightarrow> vs = map mg_version (take k migs))
     \<and> execAll exec (concat (map (migrationStatements d) (take k migs))) s0 = Inr (sd_rest db)"

lemma execAll_append:
  "execAll exec (xs @ ys) s = (case execAll exec xs s of Inl e \<Rightarrow> Inl e | Inr s \<Rightarrow> execAll exec ys s)"
  by (induction xs arbitrary: s) (auto split: sum.splits)

text \<open>A transaction moves the database to the next migration or leaves it.\<close>

lemma applyMigration_next:
  assumes "migrated exec d migs s0 k db" and "k < length migs" and "sd_versions db \<noteq> None"
    and "applyMigration exec flt d (migs ! k) db = (r, db')"
  shows "db' = db \<and> r \<noteq> Inr () \<or> migrated exec d migs s0 (k + 1) db' \<and> sd_versions db' \<noteq> None"
proof -
  have take: "take (k + 1) migs = take k migs @ [migs ! k]" using assms(2) by (simp add: take_Suc_conv_app_nth)
  obtain vs where vs: "sd_versions db = Some vs" "vs = map mg_version (take k migs)"
    using assms(1,3) by (auto simp: migrated_def)
  show ?thesis
  proof (cases "execAll exec (migrationStatements d (migs ! k)) (sd_rest db)")
    case (Inl e)
    then show ?thesis using assms(4) by (auto simp: applyMigration_def sqlTx_def split: option.splits sqlFault.splits)
  next
    case (Inr rest)
    let ?db = "db\<lparr>sd_rest := rest, sd_versions := Some (vs @ [mg_version (migs ! k)])\<rparr>"
    have "migrated exec d migs s0 (k + 1) ?db"
      using assms(1,2) vs(2) Inr unfolding migrated_def take by (simp add: execAll_append)
    moreover have "db' = db \<and> r \<noteq> Inr () \<or> db' = ?db"
      using assms(4) Inr vs(1) by (auto simp: applyMigration_def sqlTx_def split: option.splits sqlFault.splits if_splits)
    ultimately show ?thesis by auto
  qed
qed

text \<open>Without a fault and with statements that work, recording the version does not conflict.\<close>

lemma applyMigration_works:
  assumes "migrated exec d migs s0 k db" and "k < length migs" and "sd_versions db \<noteq> None" and "distinct (map mg_version migs)"
    and "execAll exec (migrationStatements d (migs ! k)) (sd_rest db) = Inr rest"
  shows "\<exists>db'. applyMigration exec None d (migs ! k) db = (Inr (), db')"
proof -
  obtain vs where vs: "sd_versions db = Some vs" "vs = map mg_version (take k migs)"
    using assms(1,3) by (auto simp: migrated_def)
  have "distinct (map mg_version (take (k + 1) migs))" using assms(4) by (metis distinct_take take_map)
  then have "mg_version (migs ! k) \<notin> set vs" using assms(2) by (simp add: vs(2) take_Suc_conv_app_nth)
  then show ?thesis using assms(5) vs(1) by (simp add: applyMigration_def sqlTx_def)
qed

section \<open>Every migration runs once\<close>

text \<open>What a service that holdsLock the lock knows: it has dealt with the first \<open>j\<close> migrations.\<close>

fun progress :: "migration list \<Rightarrow> nat \<Rightarrow> 's schemaDb \<Rightarrow> startState \<Rightarrow> bool" where
  "progress migs k db Booted \<longleftrightarrow> sd_versions db \<noteq> None"
| "progress migs k db (Applying applied ms) \<longleftrightarrow> sd_versions db \<noteq> None
     \<and> (\<exists>k0 j. applied = map mg_version (take k0 migs) \<and> ms = drop j migs \<and> k0 \<le> length migs \<and> j \<le> length migs \<and> k = max k0 j)"
| "progress migs k db _ \<longleftrightarrow> True"

definition startInv :: "(string \<Rightarrow> 's \<Rightarrow> string + 's) \<Rightarrow> dialect \<Rightarrow> migration list \<Rightarrow> 's \<Rightarrow> nat \<Rightarrow> 's msys \<Rightarrow> bool" where
  "startInv exec d migs s0 k s \<longleftrightarrow> migrated exec d migs s0 k (ms_db s)
     \<and> (\<forall>i < length (ms_procs s). (holdsLock (ms_procs s ! i) \<longrightarrow> ms_lock s = Some i)
          \<and> progress migs k (ms_db s) (ms_procs s ! i) \<and> (ms_procs s ! i = Finished \<longrightarrow> k = length migs))"

lemma progressI:
  assumes "sd_versions db \<noteq> None" and "applied = map mg_version (take k0 migs)" and "ms = drop j migs"
    and "k0 \<le> length migs" and "j \<le> length migs" and "k = max k0 j"
  shows "progress migs k db (Applying applied ms)"
  unfolding progress.simps using assms by blast

lemma progress_free: "\<not> holdsLock p \<Longrightarrow> progress migs k db p"
  by (cases p) simp_all

text \<open>A step of one service keeps the invariant if it does so for this service.\<close>

lemma startInv_move:
  assumes "startInv exec d migs s0 k s" and "i < length (ms_procs s)"
    and "ms_lock s = Some i \<or> ms_lock s = None" and "migrated exec d migs s0 k' db" and "k \<le> k'" and "k' \<le> length migs"
    and "holdsLock p \<longrightarrow> l = Some i" and "progress migs k' db p" and "p = Finished \<longrightarrow> k' = length migs"
  shows "startInv exec d migs s0 k' \<lparr>ms_lock = l, ms_db = db, ms_procs = (ms_procs s)[i := p]\<rparr>"
proof -
  have "(holdsLock ((ms_procs s)[i := p] ! j) \<longrightarrow> l = Some j) \<and> progress migs k' db ((ms_procs s)[i := p] ! j)
      \<and> ((ms_procs s)[i := p] ! j = Finished \<longrightarrow> k' = length migs)" if j: "j < length (ms_procs s)" for j
  proof (cases "j = i")
    case True
    then show ?thesis using assms(2,7-9) by simp
  next
    case False
    note o = assms(1) [unfolded startInv_def, THEN conjunct2, rule_format, OF j]
    have "\<not> holdsLock (ms_procs s ! j)" using o assms(3) False by auto
    then show ?thesis using False progress_free o assms(5,6) by auto
  qed
  then show ?thesis using assms(4) by (simp add: startInv_def)
qed

lemma move_eq: "move i p s = \<lparr>ms_lock = ms_lock s, ms_db = ms_db s, ms_procs = (ms_procs s)[i := p]\<rparr>"
  by (simp add: move_def)

lemmas msys_eq = move_eq unlock_def

lemma drop_Cons_nth: "m # ms = drop j xs \<Longrightarrow> j < length xs \<and> xs ! j = m \<and> ms = drop (j + 1) xs"
  by (metis Cons_nth_drop_Suc Suc_eq_plus1 drop_all list.inject list.simps(3) not_le_imp_less)

lemma version_known:
  assumes "mg_version (migs ! j) \<in> set (map mg_version (take k migs))" and "j < length migs" and "distinct (map mg_version migs)"
  shows "j < k"
proof -
  obtain l where l: "l < k" "l < length migs" "mg_version (migs ! l) = mg_version (migs ! j)"
    using assms(1) [unfolded in_set_conv_nth] by auto
  then show ?thesis using assms(2,3) nth_eq_iff_index_eq [of "map mg_version migs" l j] by simp
qed

lemma version_unknown:
  assumes "mg_version (migs ! j) \<notin> set (map mg_version (take k migs))" and "j < length migs"
  shows "k \<le> j"
proof (rule ccontr)
  assume "\<not> k \<le> j"
  then have "migs ! j \<in> set (take k migs)" using assms(2) by (auto simp: in_set_conv_nth intro!: exI [of _ j])
  then show False using assms(1) by simp
qed

lemma startInv_step:
  assumes "mstep exec d migs s t" and "startInv exec d migs s0 k s" and "isPostgres (Some d)" and "distinct (map mg_version migs)"
  shows "\<exists>k'. k \<le> k' \<and> startInv exec d migs s0 k' t"
proof -
  have mig: "migrated exec d migs s0 k (ms_db s)" and le: "k \<le> length migs" using assms(2) by (simp_all add: startInv_def migrated_def)
  have at: "ms_lock s = Some i" "progress migs k (ms_db s) (ms_procs s ! i)" if "i < length (ms_procs s)" "holdsLock (ms_procs s ! i)" for i
    using assms(2) that by (auto simp: startInv_def)
  note mv = startInv_move [OF assms(2)]
  from assms(1) show ?thesis
  proof cases
    case (acquire i)
    then show ?thesis using mv [of i k "ms_db s" Locked "Some i"] mig le assms(3) by (auto simp: msys_eq)
  next
    case (boot i)
    have "migrated exec d migs s0 k (bootstrap (ms_db s))"
      using mig by (auto simp: migrated_def bootstrap_def split: option.splits)
    then show ?thesis using boot at [of i] mv [of i k "bootstrap (ms_db s)" Booted "Some i"] le by (auto simp: msys_eq bootstrap_def)
  next
    case (query i applied)
    have p: "ms_lock s = Some i" "sd_versions (ms_db s) \<noteq> None" using at [of i] query by auto
    have ap: "applied = map mg_version (take k migs)" using p(2) mig query by (auto simp: queryAppliedVersions_def migrated_def)
    have pr: "progress migs k (ms_db s) (Applying applied migs)" by (rule progressI [where k0 = k and j = 0]) (use ap p(2) le in simp_all)
    have "startInv exec d migs s0 k t" using mv [OF _ _ mig _ le _ pr, of i "Some i"] query p(1) by (simp add: msys_eq)
    then show ?thesis by blast
  next
    case (skip i applied m ms)
    have "holdsLock (ms_procs s ! i)" using skip by simp
    then obtain k0 j where p: "ms_lock s = Some i" "sd_versions (ms_db s) \<noteq> None" "applied = map mg_version (take k0 migs)"
        "m # ms = drop j migs" "k0 \<le> length migs" "k = max k0 j"
      using at [of i] skip by auto
    note nxt = drop_Cons_nth [OF p(4)]
    have jk: "j < k0" using version_known [of migs j k0] assms(4) nxt skip p(3,5) by simp
    have pr: "progress migs k (ms_db s) (Applying applied ms)" using progressI [of "ms_db s" applied k0 migs ms "j + 1" k] p nxt jk by simp
    have "startInv exec d migs s0 k t" using mv [OF _ _ mig _ le _ pr, of i "Some i"] skip p(1) by (simp add: msys_eq)
    then show ?thesis by blast
  next
    case (migrate i applied m ms flt db)
    have "holdsLock (ms_procs s ! i)" using migrate by simp
    then obtain k0 j where p: "ms_lock s = Some i" "sd_versions (ms_db s) \<noteq> None" "applied = map mg_version (take k0 migs)"
        "m # ms = drop j migs" "k0 \<le> length migs" "k = max k0 j"
      using at [of i] migrate by auto
    note nxt = drop_Cons_nth [OF p(4)]
    have kj: "k = j" using version_unknown [of migs j k0] nxt migrate p(3,6) by simp
    then have new: "migrated exec d migs s0 (k + 1) db" "sd_versions db \<noteq> None"
      using applyMigration_next [OF mig _ p(2)] migrate nxt by blast+
    have pr: "progress migs (k + 1) db (Applying applied ms)" using progressI [of db applied k0 migs ms "j + 1" "k + 1"] p nxt new(2) kj by simp
    have "startInv exec d migs s0 (k + 1) t" using mv [OF _ _ new(1) _ _ _ pr, of i "Some i"] migrate p(1) nxt kj by (simp add: msys_eq)
    then show ?thesis by (intro exI [of _ "k + 1"]) simp
  next
    case (migrate_failed i applied m ms flt err db)
    have "holdsLock (ms_procs s ! i)" using migrate_failed by simp
    then obtain k0 j where p: "ms_lock s = Some i" "sd_versions (ms_db s) \<noteq> None" "applied = map mg_version (take k0 migs)"
        "m # ms = drop j migs" "k0 \<le> length migs" "k = max k0 j"
      using at [of i] migrate_failed by auto
    note nxt = drop_Cons_nth [OF p(4)]
    have kj: "k = j" using version_unknown [of migs j k0] nxt migrate_failed p(3,6) by simp
    have "db = ms_db s \<or> migrated exec d migs s0 (k + 1) db"
      using applyMigration_next [OF mig _ p(2)] migrate_failed nxt kj by blast
    then obtain k' where "migrated exec d migs s0 k' db" "k \<le> k'" "k' \<le> length migs" using mig le nxt kj by (metis Suc_eq_plus1 Suc_leI le_add1 order_refl)
    then have "startInv exec d migs s0 k' t" "k \<le> k'" using mv [of i k' db Stopped None] migrate_failed p(1) by (simp_all add: msys_eq)
    then show ?thesis by blast
  next
    case (finish i applied)
    have "k = length migs" using at [of i] finish by auto
    then show ?thesis using finish at [of i] mig mv [of i k "ms_db s" Finished None] by (auto simp: msys_eq)
  next
    case (stop i)
    then show ?thesis using at [of i] mig le mv [of i k "ms_db s" Stopped None] by (auto simp: msys_eq)
  qed
qed


lemma startInv_reach:
  assumes "mreach exec d migs (starters n db0) s" and "isPostgres (Some d)" and "distinct (map mg_version migs)"
    and "migrated exec d migs s0 k0 db0"
  shows "\<exists>k \<ge> k0. startInv exec d migs s0 k s"
  using assms(1)
proof induction
  case here
  show ?case using assms(4) by (auto simp: startInv_def starters_def)
next
  case (step s t)
  then show ?case using startInv_step [OF step.hyps(2) _ assms(2,3)] order.trans by blast
qed

text \<open>
  C10: On PostgreSQL the migrations run once and in order. Any number of services may start at the same
  time, from a database to which the first \<open>k0\<close> migrations were applied; statements and connections may
  fail and services may stop anywhere. At every moment the database is the result of the first \<open>k\<close>
  migrations, each applied once, and its version table says so, with \<open>k\<close> at least \<open>k0\<close>; a service has
  finished only if all of them are applied; and a service that is about to apply a migration whose
  statements work does not fail because of the others. The code holds the advisory lock on a connection of its own; that
  this connection is not lost while the service goes on migrating is part of the model.
\<close>

theorem migrations_once:
  assumes "mreach exec d migs (starters n db0) s" and "isPostgres (Some d)" and "distinct (map mg_version migs)"
    and "migrated exec d migs s0 k0 db0"
  shows "\<exists>k \<ge> k0. migrated exec d migs s0 k (ms_db s)
    \<and> (Finished \<in> set (ms_procs s) \<longrightarrow> k = length migs)
    \<and> (\<forall>i applied m ms rest. i < length (ms_procs s) \<longrightarrow> ms_procs s ! i = Applying applied (m # ms) \<longrightarrow> mg_version m \<notin> set applied
         \<longrightarrow> execAll exec (migrationStatements d m) (sd_rest (ms_db s)) = Inr rest
         \<longrightarrow> (\<exists>db. applyMigration exec None d m (ms_db s) = (Inr (), db)))"
proof -
  obtain k where k: "k0 \<le> k" "startInv exec d migs s0 k s" using startInv_reach [OF assms] by blast
  have mig: "migrated exec d migs s0 k (ms_db s)" using k(2) by (simp add: startInv_def)
  have "\<exists>db. applyMigration exec None d m (ms_db s) = (Inr (), db)"
    if a: "i < length (ms_procs s)" "ms_procs s ! i = Applying applied (m # ms)" "mg_version m \<notin> set applied"
      "execAll exec (migrationStatements d m) (sd_rest (ms_db s)) = Inr rest" for i applied m ms rest
  proof -
    have "progress migs k (ms_db s) (Applying applied (m # ms))" using k(2) a(1,2) by (metis startInv_def)
    then obtain l j where p: "sd_versions (ms_db s) \<noteq> None" "applied = map mg_version (take l migs)" "m # ms = drop j migs" "k = max l j"
      by auto
    note nxt = drop_Cons_nth [OF p(3)]
    have "l \<le> j" using version_unknown [of migs j l] nxt a(3) unfolding p(2) by blast
    then show ?thesis using applyMigration_works [OF mig _ p(1) assms(3)] nxt p(4) a(4) by auto
  qed
  moreover have "Finished \<in> set (ms_procs s) \<longrightarrow> k = length migs" using k(2) by (auto simp: startInv_def in_set_conv_nth)
  ultimately show ?thesis using k(1) mig by blast
qed


text \<open>Two services start on a fresh PostgreSQL database; the first stops after it applied the first of two migrations.\<close>

definition exMigs :: "migration list" where
  "exMigs = [\<lparr>mg_version = 1, mg_name = ''a.sql'', mg_body = ''A''\<rparr>, \<lparr>mg_version = 2, mg_name = ''b.sql'', mg_body = ''B;''\<rparr>]"

definition exExec :: "string \<Rightarrow> string list \<Rightarrow> string + string list" where
  "exExec stmt log = Inr (log @ [trimSpace stmt])"

lemma exStatements:
  "migrationStatements postgresDialect (exMigs ! 0) = [''A'' @ [CHR 10]]" "migrationStatements postgresDialect (exMigs ! 1) = [''B'']"
  "migrationStatements sqliteDialect (exMigs ! 0) = [''A'' @ [CHR 10]]"
  by (simp_all add: postgresDialect_def sqliteDialect_def migrationStatements_def exMigs_def splitStatements_def hasPrefix_def trimSpace_def isSpace_def)

definition mdb :: "int list option \<Rightarrow> string list \<Rightarrow> string list schemaDb" where
  "mdb vs log = \<lparr>sd_versions = vs, sd_rest = log\<rparr>"

definition sysAt :: "nat option \<Rightarrow> string list schemaDb \<Rightarrow> startState list \<Rightarrow> string list msys" where
  "sysAt l db ps = \<lparr>ms_lock = l, ms_db = db, ms_procs = ps\<rparr>"

lemma sysAt_steps:
  "i < length ps \<Longrightarrow> ps ! i = Waiting \<Longrightarrow> (isPostgres (Some d) \<longrightarrow> l = None) \<Longrightarrow> mstep exec d migs (sysAt l db ps) (sysAt (if isPostgres (Some d) then Some i else l) db (ps[i := Locked]))"
  "i < length ps \<Longrightarrow> ps ! i = Locked \<Longrightarrow> mstep exec d migs (sysAt l db ps) (sysAt l (bootstrap db) (ps[i := Booted]))"
  "i < length ps \<Longrightarrow> ps ! i = Booted \<Longrightarrow> sd_versions db = Some vs \<Longrightarrow> mstep exec d migs (sysAt l db ps) (sysAt l db (ps[i := Applying vs migs]))"
  "i < length ps \<Longrightarrow> ps ! i = Applying vs (m # ms) \<Longrightarrow> mg_version m \<notin> set vs \<Longrightarrow> applyMigration exec None d m db = (Inr (), db') \<Longrightarrow>
     mstep exec d migs (sysAt l db ps) (sysAt l db' (ps[i := Applying vs ms]))"
  "i < length ps \<Longrightarrow> ps ! i = Applying vs [] \<Longrightarrow> mstep exec d migs (sysAt (Some i) db ps) (sysAt None db (ps[i := Finished]))"
  using mstep.acquire [of i "sysAt l db ps" d exec migs] mstep.boot [of i "sysAt l db ps" exec d migs] mstep.query [of i "sysAt l db ps" vs exec d migs]
    mstep.migrate [of i "sysAt l db ps" vs m ms exec None d db' migs] mstep.finish [of i "sysAt (Some i) db ps" vs exec d migs]
  by (cases "isPostgres (Some d)"; simp add: sysAt_def msys_eq queryAppliedVersions_def)+


lemma ex_apply:
  "applyMigration exExec None postgresDialect (exMigs ! 0) (mdb (Some []) []) = (Inr (), mdb (Some [1]) [''A''])"
  "applyMigration exExec None postgresDialect (exMigs ! 1) (mdb (Some [1]) [''A'']) = (Inr (), mdb (Some [1, 2]) [''A'', ''B''])"
  "applyMigration exExec None sqliteDialect (exMigs ! 0) (mdb (Some []) []) = (Inr (), mdb (Some [1]) [''A''])"
  "applyMigration exExec None sqliteDialect (exMigs ! 0) (mdb (Some [1]) [''A'']) = (Inl (SqlErr ''UNIQUE constraint failed: schema_migrations.version''), mdb (Some [1]) [''A''])"
  unfolding applyMigration_def exStatements by (simp_all add: sqlTx_def exExec_def mdb_def exMigs_def trimSpace_def isSpace_def)

theorem migrations_once_witness:
  "\<exists>s. mreach exExec postgresDialect exMigs (starters 2 (mdb None [])) s \<and> ms_procs s = [Stopped, Finished] \<and> migrated exExec postgresDialect exMigs [] 2 (ms_db s)"
proof -
  let ?m = "mstep exExec postgresDialect exMigs"
  have pg: "isPostgres (Some postgresDialect)" by (simp add: isPostgres_def postgresDialect_def)
  have ms: "exMigs = [exMigs ! 0, exMigs ! 1]" "mg_version (exMigs ! 0) = 1" "mg_version (exMigs ! 1) = 2" by (simp_all add: exMigs_def)
  have b: "bootstrap (mdb None []) = mdb (Some []) []" "bootstrap (mdb (Some vs) l) = mdb (Some vs) l" "sd_versions (mdb v l) = v" for vs v l
    by (simp_all add: bootstrap_def mdb_def)
  let ?d0 = "mdb None []" and ?d1 = "mdb (Some []) []" and ?d2 = "mdb (Some [1]) [''A'']" and ?d3 = "mdb (Some [1, 2]) [''A'', ''B'']"
  have init: "starters 2 ?d0 = sysAt None ?d0 [Waiting, Waiting]" by (simp add: starters_def sysAt_def numeral_2_eq_2)
  note go = mreach.step [where exec = exExec and d = postgresDialect and migs = exMigs and ?s0.0 = "starters 2 ?d0"]
  have "mreach exExec postgresDialect exMigs (starters 2 ?d0) (sysAt None ?d0 [Waiting, Waiting])"
    unfolding init by (rule mreach.here)
  from go [OF this sysAt_steps(1) [of 0]] have "mreach exExec postgresDialect exMigs (starters 2 ?d0) (sysAt (Some 0) ?d0 [Locked, Waiting])"
    by (simp add: pg)
  from go [OF this sysAt_steps(2) [of 0]] have "mreach exExec postgresDialect exMigs (starters 2 ?d0) (sysAt (Some 0) ?d1 [Booted, Waiting])"
    by (simp add: b)
  from go [OF this sysAt_steps(3) [of 0]] have "mreach exExec postgresDialect exMigs (starters 2 ?d0) (sysAt (Some 0) ?d1 [Applying [] exMigs, Waiting])"
    by (simp add: b)
  from go [OF this sysAt_steps(4) [of 0 _ "[]" "exMigs ! 0" "[exMigs ! 1]", OF _ _ _ ex_apply(1)]]
  have "mreach exExec postgresDialect exMigs (starters 2 ?d0) (sysAt (Some 0) ?d2 [Applying [] [exMigs ! 1], Waiting])"
    using ms(1) by simp
  moreover have "?m (sysAt (Some 0) ?d2 [Applying [] [exMigs ! 1], Waiting]) (sysAt None ?d2 [Stopped, Waiting])"
    using mstep.stop [of 0 "sysAt (Some 0) ?d2 [Applying [] [exMigs ! 1], Waiting]" exExec postgresDialect exMigs] by (simp add: sysAt_def msys_eq)
  ultimately have "mreach exExec postgresDialect exMigs (starters 2 ?d0) (sysAt None ?d2 [Stopped, Waiting])" by (rule go)
  from go [OF this sysAt_steps(1) [of 1]] have "mreach exExec postgresDialect exMigs (starters 2 ?d0) (sysAt (Some 1) ?d2 [Stopped, Locked])"
    by (simp add: pg)
  from go [OF this sysAt_steps(2) [of 1]] have "mreach exExec postgresDialect exMigs (starters 2 ?d0) (sysAt (Some 1) ?d2 [Stopped, Booted])"
    by (simp add: b)
  from go [OF this sysAt_steps(3) [of 1]] have "mreach exExec postgresDialect exMigs (starters 2 ?d0) (sysAt (Some 1) ?d2 [Stopped, Applying [1] exMigs])"
    by (simp add: b)
  moreover have "?m (sysAt (Some 1) ?d2 [Stopped, Applying [1] exMigs]) (sysAt (Some 1) ?d2 [Stopped, Applying [1] [exMigs ! 1]])"
    using mstep.skip [of 1 "sysAt (Some 1) ?d2 [Stopped, Applying [1] exMigs]" "[1]" "exMigs ! 0" "[exMigs ! 1]" exExec postgresDialect exMigs] ms
    by (simp add: sysAt_def msys_eq)
  ultimately have "mreach exExec postgresDialect exMigs (starters 2 ?d0) (sysAt (Some 1) ?d2 [Stopped, Applying [1] [exMigs ! 1]])" by (rule go)
  from go [OF this sysAt_steps(4) [of 1 _ "[1]" "exMigs ! 1" "[]", OF _ _ _ ex_apply(2)]]
  have "mreach exExec postgresDialect exMigs (starters 2 ?d0) (sysAt (Some 1) ?d3 [Stopped, Applying [1] []])" using ms by simp
  from go [OF this sysAt_steps(5) [of 1]] have r: "mreach exExec postgresDialect exMigs (starters 2 ?d0) (sysAt None ?d3 [Stopped, Finished])" by simp
  have "migrated exExec postgresDialect exMigs [] 0 ?d0" by (simp add: migrated_def mdb_def)
  from migrations_once [OF r pg _ this] have "migrated exExec postgresDialect exMigs [] 2 ?d3" by (auto simp: sysAt_def exMigs_def numeral_2_eq_2)
  then show ?thesis using r by (intro exI [of _ "sysAt None ?d3 [Stopped, Finished]"]) (simp add: sysAt_def)
qed


text \<open>
  On SQLite there is no lock. Two services that start together on a fresh database can both find no
  version applied; the second then fails although every statement works.
\<close>

lemma sqlite_race:
  "\<exists>s. mreach exExec sqliteDialect exMigs (starters 2 (mdb None [])) s
     \<and> ms_procs s = [Applying [] [exMigs ! 1], Applying [] exMigs]
     \<and> applyMigration exExec None sqliteDialect (exMigs ! 0) (ms_db s) = (Inl (SqlErr ''UNIQUE constraint failed: schema_migrations.version''), ms_db s)"
proof -
  have lite: "\<not> isPostgres (Some sqliteDialect)" by (simp add: isPostgres_def sqliteDialect_def)
  have ms: "exMigs = [exMigs ! 0, exMigs ! 1]" by (simp add: exMigs_def)
  have b: "bootstrap (mdb None []) = mdb (Some []) []" "bootstrap (mdb (Some vs) l) = mdb (Some vs) l" "sd_versions (mdb v l) = v" for vs v l
    by (simp_all add: bootstrap_def mdb_def)
  let ?d0 = "mdb None []" and ?d1 = "mdb (Some []) []" and ?d2 = "mdb (Some [1]) [''A'']"
  let ?reach = "mreach exExec sqliteDialect exMigs (starters 2 ?d0)"
  have init: "starters 2 ?d0 = sysAt None ?d0 [Waiting, Waiting]" by (simp add: starters_def sysAt_def numeral_2_eq_2)
  note go = mreach.step [where exec = exExec and d = sqliteDialect and migs = exMigs and ?s0.0 = "starters 2 ?d0"]
  have "?reach (sysAt None ?d0 [Waiting, Waiting])" unfolding init by (rule mreach.here)
  from go [OF this sysAt_steps(1) [of 0]] have "?reach (sysAt None ?d0 [Locked, Waiting])" by (simp add: lite)
  from go [OF this sysAt_steps(1) [of 1]] have "?reach (sysAt None ?d0 [Locked, Locked])" by (simp add: lite)
  from go [OF this sysAt_steps(2) [of 0]] have "?reach (sysAt None ?d1 [Booted, Locked])" by (simp add: b)
  from go [OF this sysAt_steps(2) [of 1]] have "?reach (sysAt None ?d1 [Booted, Booted])" by (simp add: b)
  from go [OF this sysAt_steps(3) [of 0]] have "?reach (sysAt None ?d1 [Applying [] exMigs, Booted])" by (simp add: b)
  from go [OF this sysAt_steps(3) [of 1]] have "?reach (sysAt None ?d1 [Applying [] exMigs, Applying [] exMigs])" by (simp add: b)
  from go [OF this sysAt_steps(4) [of 0 _ "[]" "exMigs ! 0" "[exMigs ! 1]", OF _ _ _ ex_apply(3)]]
  have "?reach (sysAt None ?d2 [Applying [] [exMigs ! 1], Applying [] exMigs])" using ms by simp
  then show ?thesis using ex_apply(4) by (intro exI [of _ "sysAt None ?d2 [Applying [] [exMigs ! 1], Applying [] exMigs]"]) (simp add: sysAt_def)
qed

text \<open>One service alone: when it returns without an error every migration is applied, and an error leaves a prefix.\<close>

lemma applyPending_prefix:
  assumes "migrated exec d migs s0 (max k0 j) db" and "sd_versions db \<noteq> None" and "distinct (map mg_version migs)"
    and "k0 \<le> length migs" and "j \<le> length migs"
    and "applyPending exec flts d (map mg_version (take k0 migs)) (drop j migs) db = (r, db')"
  shows "\<exists>k \<ge> max k0 j. migrated exec d migs s0 k db' \<and> (r = Inr () \<longrightarrow> k = length migs)"
  using assms(1,2,5,6)
proof (induction "length migs - j" arbitrary: j db)
  case 0
  then have "max k0 j = length migs" "drop j migs = []" using assms(4) by simp_all
  then show ?case using 0 by auto
next
  case (Suc n)
  have j: "j < length migs" "drop j migs = migs ! j # drop (j + 1) migs" "n = length migs - (j + 1)" "j + 1 \<le> length migs"
    using Suc.hyps(2) by (simp_all add: Cons_nth_drop_Suc)
  show ?case
  proof (cases "mg_version (migs ! j) \<in> set (map mg_version (take k0 migs))")
    case True
    then have "max k0 (j + 1) = max k0 j" using version_known [OF _ j(1) assms(3), of k0] by simp
    then show ?thesis using Suc.hyps(1) [OF j(3) _ Suc.prems(2) j(4)] Suc.prems(1,4) True j(2) by simp
  next
    case False
    then have k0: "k0 \<le> j" using version_unknown j(1) by blast
    obtain r1 db1 where a: "applyMigration exec (flts (migs ! j)) d (migs ! j) db = (r1, db1)" by fastforce
    have "migrated exec d migs s0 j db" using Suc.prems(1) k0 by (simp add: max_def split: if_splits)
    note nxt = applyMigration_next [OF this j(1) Suc.prems(2) a]
    show ?thesis
    proof (cases r1)
      case (Inl e)
      then have "db' = db1" "r \<noteq> Inr ()" using Suc.prems(4) False j(2) a by auto
      then show ?thesis using nxt Suc.prems(1) k0 by (metis le_add1 max.absorb2 order_refl)
    next
      case (Inr x)
      then have "migrated exec d migs s0 (max k0 (j + 1)) db1" "sd_versions db1 \<noteq> None" using nxt k0 by (auto simp: max_def)
      then show ?thesis using Suc.hyps(1) [OF j(3) _ _ j(4)] Suc.prems(4) False j(2) a Inr k0 by fastforce
    qed
  qed
qed

lemma runMigrations_prefix:
  assumes "migrated exec d migs s0 k0 db" and "distinct (map mg_version migs)" and "mf_query f = None" and "runMigrations exec f d (Inr migs) db = (r, db')"
  shows "\<exists>k \<ge> k0. migrated exec d migs s0 k db' \<and> (r = Inr () \<longrightarrow> k = length migs)"
proof (cases "migs = [] \<or> (isPostgres (Some d) \<and> mf_lock f \<noteq> None) \<or> mf_bootstrap f \<noteq> None")
  case True
  then have "db' = db \<and> (r = Inr () \<longrightarrow> migs = [])" using assms(4) by (auto simp: runMigrations_def split: option.splits if_splits)
  then show ?thesis using assms(1) by (auto simp: migrated_def)
next
  case False
  let ?b = "bootstrap db"
  have b: "migrated exec d migs s0 (max k0 0) ?b" "sd_versions ?b \<noteq> None"
    using assms(1) by (auto simp: migrated_def bootstrap_def split: option.splits)
  have "queryAppliedVersions (mf_query f) ?b = Inr (map mg_version (take k0 migs))"
    using b by (auto simp: queryAppliedVersions_def assms(3) migrated_def)
  then have "applyPending exec (mf_apply f) d (map mg_version (take k0 migs)) (drop 0 migs) ?b = (r, db')"
    using assms(4) False by (auto simp: runMigrations_def Let_def split: if_splits)
  then show ?thesis using applyPending_prefix [OF b assms(2)] assms(1) by (auto simp: migrated_def)
qed

end
