(* ===== verification/Concurrent_Blob.thy ===== *)
theory Concurrent_Blob
  imports Blob_Store
begin

text \<open>
  The wrapper that shares concurrent reads of one key (\<open>ConcurrentBlobStore\<close> of
  internal/store/subtree_store.go). A \<open>Get\<close> is split where it leaves the mutex, reads the store or
  wakes its waiters; the goroutines that run it interleave with each other and with the operations the
  wrapper passes on to the store.
\<close>

section \<open>The wrapper\<close>

record 's BlobStore =
  store_Set :: "string \<Rightarrow> bytes \<Rightarrow> BlobOption list \<Rightarrow> 's \<Rightarrow> blobErr option \<times> 's"
  store_SetFromReader :: "string \<Rightarrow> string + bytes \<Rightarrow> BlobOption list \<Rightarrow> 's \<Rightarrow> blobErr option \<times> 's"
  store_Get :: "string \<Rightarrow> 's \<Rightarrow> blobErr + bytes"
  store_GetIoReader :: "string \<Rightarrow> 's \<Rightarrow> blobErr + bytes"
  store_Del :: "string \<Rightarrow> 's \<Rightarrow> blobErr option \<times> 's"
  store_SetCurrentBlockHeight :: "u64 \<Rightarrow> 's \<Rightarrow> 's"

text \<open>
  A \<open>call\<close> object is made by one goroutine, whose number is its address. Its wait group is at zero once
  \<open>cl_done\<close>; \<open>cl_ret\<close> is its pair of value and error, at first \<open>nil, nil\<close>.
\<close>

record blobCall =
  cl_done :: bool
  cl_ret :: "blobErr + bytes"

record 's ConcurrentBlobStore =
  conc_store :: 's
  conc_inflight :: "string \<rightharpoonup> nat"
  conc_calls :: "nat \<Rightarrow> blobCall"

definition newCall :: blobCall where
  "newCall = \<lparr>cl_done = False, cl_ret = Inr []\<rparr>"

definition NewConcurrentBlobStore :: "'s \<Rightarrow> 's ConcurrentBlobStore" where
  "NewConcurrentBlobStore s = \<lparr>conc_store = s, conc_inflight = Map.empty, conc_calls = (\<lambda>_. newCall)\<rparr>"

definition concSet :: "'s BlobStore \<Rightarrow> string \<Rightarrow> bytes \<Rightarrow> BlobOption list \<Rightarrow> 's ConcurrentBlobStore \<Rightarrow> blobErr option \<times> 's ConcurrentBlobStore" where
  "concSet B key data opts c = (let (e, s) = store_Set B key data opts (conc_store c) in (e, c\<lparr>conc_store := s\<rparr>))"

definition concSetFromReader ::
    "'s BlobStore \<Rightarrow> string \<Rightarrow> string + bytes \<Rightarrow> BlobOption list \<Rightarrow> 's ConcurrentBlobStore \<Rightarrow> blobErr option \<times> 's ConcurrentBlobStore" where
  "concSetFromReader B key r opts c = (let (e, s) = store_SetFromReader B key r opts (conc_store c) in (e, c\<lparr>conc_store := s\<rparr>))"

definition concGetIoReader :: "'s BlobStore \<Rightarrow> string \<Rightarrow> 's ConcurrentBlobStore \<Rightarrow> blobErr + bytes" where
  "concGetIoReader B key c = store_GetIoReader B key (conc_store c)"

definition concDel :: "'s BlobStore \<Rightarrow> string \<Rightarrow> 's ConcurrentBlobStore \<Rightarrow> blobErr option \<times> 's ConcurrentBlobStore" where
  "concDel B key c = (let (e, s) = store_Del B key (conc_store c) in (e, c\<lparr>conc_store := s\<rparr>))"

definition concSetCurrentBlockHeight :: "'s BlobStore \<Rightarrow> u64 \<Rightarrow> 's ConcurrentBlobStore \<Rightarrow> 's ConcurrentBlobStore" where
  "concSetCurrentBlockHeight B h c = c\<lparr>conc_store := store_SetCurrentBlockHeight B h (conc_store c)\<rparr>"

section \<open>Get and its interleavings\<close>

text \<open>
  Where a goroutine stands in \<open>Get(key)\<close>: before the call, reading the store, before \<open>wg.Done\<close>, before
  the key is deleted from \<open>inflight\<close>, at \<open>wg.Wait\<close> of another goroutine's call, or back. The last number
  of a running call is the moment it began; a finished one has its result, that moment and the moment it
  returned.
\<close>

datatype getPc =
    Ready string
  | Fetching string nat
  | Fetched string nat
  | Notified string nat
  | Waiting string nat nat
  | Returned string "blobErr + bytes" nat nat

text \<open>The part of \<open>Get\<close> under the first lock: \<open>None\<close> when the goroutine leads, else the one it waits for.\<close>

definition getEnter :: "nat \<Rightarrow> string \<Rightarrow> 's ConcurrentBlobStore \<Rightarrow> nat option \<times> 's ConcurrentBlobStore" where
  "getEnter i key c = (case conc_inflight c key of
      Some j \<Rightarrow> (Some j, c)
    | None \<Rightarrow> (None, c\<lparr>conc_inflight := (conc_inflight c)(key \<mapsto> i), conc_calls := (conc_calls c)(i := newCall)\<rparr>))"

definition getFetch :: "'s BlobStore \<Rightarrow> nat \<Rightarrow> string \<Rightarrow> 's ConcurrentBlobStore \<Rightarrow> 's ConcurrentBlobStore" where
  "getFetch B i key c = c\<lparr>conc_calls := (conc_calls c)(i := (conc_calls c i)\<lparr>cl_ret := store_Get B key (conc_store c)\<rparr>)\<rparr>"

definition getDone :: "nat \<Rightarrow> 's ConcurrentBlobStore \<Rightarrow> 's ConcurrentBlobStore" where
  "getDone i c = c\<lparr>conc_calls := (conc_calls c)(i := (conc_calls c i)\<lparr>cl_done := True\<rparr>)\<rparr>"

definition getForget :: "string \<Rightarrow> 's ConcurrentBlobStore \<Rightarrow> 's ConcurrentBlobStore" where
  "getForget key c = c\<lparr>conc_inflight := (conc_inflight c)(key := None)\<rparr>"

text \<open>
  The goroutines with the wrapper. The moments are the positions in \<open>cs_hist\<close>, the contents of the store
  after every step.
\<close>

record 's concSys =
  cs_conc :: "'s ConcurrentBlobStore"
  cs_pcs :: "getPc list"
  cs_hist :: "'s list"

definition concInit :: "'s \<Rightarrow> string list \<Rightarrow> 's concSys" where
  "concInit s keys = \<lparr>cs_conc = NewConcurrentBlobStore s, cs_pcs = map Ready keys, cs_hist = [s]\<rparr>"

definition moveTo :: "nat \<Rightarrow> getPc \<Rightarrow> 's ConcurrentBlobStore \<Rightarrow> 's concSys \<Rightarrow> 's concSys" where
  "moveTo i pc c x = \<lparr>cs_conc = c, cs_pcs = (cs_pcs x)[i := pc], cs_hist = cs_hist x @ [conc_store c]\<rparr>"

definition onStore :: "'s ConcurrentBlobStore \<Rightarrow> 's concSys \<Rightarrow> 's concSys" where
  "onStore c x = \<lparr>cs_conc = c, cs_pcs = cs_pcs x, cs_hist = cs_hist x @ [conc_store c]\<rparr>"

inductive getStep :: "'s BlobStore \<Rightarrow> 's concSys \<Rightarrow> 's concSys \<Rightarrow> bool" for B where
  lead: "\<lbrakk>i < length (cs_pcs x); cs_pcs x ! i = Ready k; getEnter i k (cs_conc x) = (None, c)\<rbrakk>
    \<Longrightarrow> getStep B x (moveTo i (Fetching k (length (cs_hist x))) c x)"
| join: "\<lbrakk>i < length (cs_pcs x); cs_pcs x ! i = Ready k; getEnter i k (cs_conc x) = (Some j, c)\<rbrakk>
    \<Longrightarrow> getStep B x (moveTo i (Waiting k j (length (cs_hist x))) c x)"
| fetch: "\<lbrakk>i < length (cs_pcs x); cs_pcs x ! i = Fetching k b\<rbrakk>
    \<Longrightarrow> getStep B x (moveTo i (Fetched k b) (getFetch B i k (cs_conc x)) x)"
| notify: "\<lbrakk>i < length (cs_pcs x); cs_pcs x ! i = Fetched k b\<rbrakk>
    \<Longrightarrow> getStep B x (moveTo i (Notified k b) (getDone i (cs_conc x)) x)"
| forget: "\<lbrakk>i < length (cs_pcs x); cs_pcs x ! i = Notified k b\<rbrakk>
    \<Longrightarrow> getStep B x (moveTo i (Returned k (cl_ret (conc_calls (cs_conc x) i)) b (length (cs_hist x))) (getForget k (cs_conc x)) x)"
| wake: "\<lbrakk>i < length (cs_pcs x); cs_pcs x ! i = Waiting k j b; cl_done (conc_calls (cs_conc x) j)\<rbrakk>
    \<Longrightarrow> getStep B x (moveTo i (Returned k (cl_ret (conc_calls (cs_conc x) j)) b (length (cs_hist x))) (cs_conc x) x)"

inductive concStep :: "'s BlobStore \<Rightarrow> 's concSys \<Rightarrow> 's concSys \<Rightarrow> bool" for B where
  get: "getStep B x y \<Longrightarrow> concStep B x y"
| set: "concSet B k d opts (cs_conc x) = (e, c) \<Longrightarrow> concStep B x (onStore c x)"
| setReader: "concSetFromReader B k r opts (cs_conc x) = (e, c) \<Longrightarrow> concStep B x (onStore c x)"
| del: "concDel B k (cs_conc x) = (e, c) \<Longrightarrow> concStep B x (onStore c x)"
| height: "concStep B x (onStore (concSetCurrentBlockHeight B h (cs_conc x)) x)"

definition concReach :: "'s BlobStore \<Rightarrow> 's concSys \<Rightarrow> 's concSys \<Rightarrow> bool" where
  "concReach B = (concStep B)\<^sup>*\<^sup>*"

section \<open>Every result was read while a Get of the key was running\<close>

definition leads :: "'s concSys \<Rightarrow> nat \<Rightarrow> string \<Rightarrow> nat \<Rightarrow> bool" where
  "leads x j k b \<longleftrightarrow> j < length (cs_pcs x) \<and> cs_pcs x ! j \<in> {Fetching k b, Fetched k b, Notified k b}"

text \<open>Goroutine \<open>j\<close> reads the store for \<open>k\<close>: it began at \<open>bj\<close>, before \<open>b\<close>, and had not returned at \<open>b\<close>.\<close>

definition reading :: "'s concSys \<Rightarrow> nat \<Rightarrow> string \<Rightarrow> nat \<Rightarrow> nat \<Rightarrow> bool" where
  "reading x j k bj b \<longleftrightarrow> bj < b \<and> j < length (cs_pcs x) \<and>
     (leads x j k bj \<or> (\<exists>r e. cs_pcs x ! j = Returned k r bj e \<and> b < e))"

definition readIn :: "'s BlobStore \<Rightarrow> 's concSys \<Rightarrow> string \<Rightarrow> blobErr + bytes \<Rightarrow> nat \<Rightarrow> nat \<Rightarrow> bool" where
  "readIn B x k r b e \<longleftrightarrow> (\<exists>v. b < v \<and> v < e \<and> v < length (cs_hist x) \<and> r = store_Get B k (cs_hist x ! v))"

abbreviation retOf :: "'s concSys \<Rightarrow> nat \<Rightarrow> blobErr + bytes" where
  "retOf x j \<equiv> cl_ret (conc_calls (cs_conc x) j)"

abbreviation doneOf :: "'s concSys \<Rightarrow> nat \<Rightarrow> bool" where
  "doneOf x j \<equiv> cl_done (conc_calls (cs_conc x) j)"

abbreviation nowOf :: "'s concSys \<Rightarrow> nat" where
  "nowOf x \<equiv> length (cs_hist x)"

fun pcOk :: "'s BlobStore \<Rightarrow> 's concSys \<Rightarrow> nat \<Rightarrow> getPc \<Rightarrow> bool" where
  "pcOk B x i (Ready k) \<longleftrightarrow> True"
| "pcOk B x i (Fetching k b) \<longleftrightarrow> conc_inflight (cs_conc x) k = Some i \<and> b < nowOf x \<and> \<not> doneOf x i"
| "pcOk B x i (Fetched k b) \<longleftrightarrow> conc_inflight (cs_conc x) k = Some i \<and> b < nowOf x \<and> \<not> doneOf x i \<and> readIn B x k (retOf x i) b (nowOf x)"
| "pcOk B x i (Notified k b) \<longleftrightarrow> conc_inflight (cs_conc x) k = Some i \<and> b < nowOf x \<and> doneOf x i \<and> readIn B x k (retOf x i) b (nowOf x)"
| "pcOk B x i (Waiting k j b) \<longleftrightarrow> i \<noteq> j \<and> b < nowOf x \<and> (\<exists>bj. reading x j k bj b \<and>
     (doneOf x j \<longrightarrow> readIn B x k (retOf x j) bj (nowOf x)) \<and> (\<not> leads x j k bj \<longrightarrow> doneOf x j))"
| "pcOk B x i (Returned k r b e) \<longleftrightarrow> b < e \<and> e < nowOf x \<and>
     (readIn B x k r b e \<or> (\<exists>j bj. j \<noteq> i \<and> reading x j k bj b \<and> readIn B x k r bj e))"

definition concInv :: "'s BlobStore \<Rightarrow> 's concSys \<Rightarrow> bool" where
  "concInv B x \<longleftrightarrow> (\<forall>i < length (cs_pcs x). pcOk B x i (cs_pcs x ! i))
     \<and> (\<forall>k j. conc_inflight (cs_conc x) k = Some j \<longrightarrow> (\<exists>b. leads x j k b))"

text \<open>What a step of another goroutine or of the store leaves to a goroutine.\<close>

definition later :: "'s concSys \<Rightarrow> 's concSys \<Rightarrow> bool" where
  "later x y \<longleftrightarrow> (\<exists>s. cs_hist y = cs_hist x @ [s]) \<and> length (cs_pcs y) = length (cs_pcs x)
     \<and> (\<forall>j k bj. leads x j k bj \<longrightarrow> leads y j k bj \<or> (\<exists>r. cs_pcs y ! j = Returned k r bj (nowOf x) \<and> doneOf x j))
     \<and> (\<forall>j < length (cs_pcs x). \<forall>k r bj e. cs_pcs x ! j = Returned k r bj e \<longrightarrow> cs_pcs y ! j = Returned k r bj e)"

lemma readIn_later:
  assumes "later x y" and "readIn B x k r b e" and "e \<le> e'"
  shows "readIn B y k r b e'"
proof -
  obtain v where v: "b < v" "v < e" "v < nowOf x" "r = store_Get B k (cs_hist x ! v)"
    using assms(2) unfolding readIn_def by blast
  obtain s where "cs_hist y = cs_hist x @ [s]" using assms(1) unfolding later_def by blast
  then have "cs_hist y ! v = cs_hist x ! v" "v < nowOf y" using v(3) by (simp_all add: nth_append)
  then show ?thesis using v assms(3) unfolding readIn_def by (intro exI [of _ v]) simp
qed

lemma reading_later: "later x y \<Longrightarrow> reading x j k bj b \<Longrightarrow> b < nowOf x \<Longrightarrow> reading y j k bj b"
  unfolding reading_def later_def by metis

lemma later_move:
  assumes "i < length (cs_pcs x)"
    and "\<And>k b. leads x i k b \<Longrightarrow> pc \<in> {Fetching k b, Fetched k b, Notified k b} \<or> (\<exists>r. pc = Returned k r b (nowOf x)) \<and> doneOf x i"
    and "\<And>k r b e. cs_pcs x ! i \<noteq> Returned k r b e"
  shows "later x (moveTo i pc c x)"
  using assms unfolding later_def moveTo_def leads_def
  by (auto simp: nth_list_update)

lemma later_store: "later x (onStore c x)"
  unfolding later_def onStore_def leads_def by auto

text \<open>The state of a goroutine that the step does not move stays right.\<close>

lemma pcOk_later:
  assumes ok: "pcOk B x i pc" and pc: "i < length (cs_pcs x)" "cs_pcs x ! i = pc" and l: "later x y"
    and own: "\<And>k b. leads x i k b \<Longrightarrow> conc_inflight (cs_conc y) k = Some i \<and> doneOf y i = doneOf x i \<and> retOf y i = retOf x i"
    and others: "\<And>j k bj. j < length (cs_pcs x) \<Longrightarrow> (leads x j k bj \<or> (\<exists>r e. cs_pcs x ! j = Returned k r bj e)) \<Longrightarrow>
      doneOf y j = doneOf x j \<and> (doneOf x j \<longrightarrow> retOf y j = retOf x j) \<or> leads x j k bj \<and> leads y j k bj \<and> readIn B y k (retOf y j) bj (nowOf y)"
  shows "pcOk B y i pc"
proof -
  have now: "nowOf y = Suc (nowOf x)" using l by (auto simp: later_def)
  note up = readIn_later [OF l]
  show ?thesis
  proof (cases pc)
    case (Ready k)
    then show ?thesis by simp
  next
    case (Fetching k b)
    then show ?thesis using ok own [of k b] pc now by (simp add: leads_def)
  next
    case (Fetched k b)
    then show ?thesis using ok own [of k b] pc now up [of B k "retOf x i" b "nowOf x" "nowOf y"] by (simp add: leads_def)
  next
    case (Notified k b)
    then show ?thesis using ok own [of k b] pc now up [of B k "retOf x i" b "nowOf x" "nowOf y"] by (simp add: leads_def)
  next
    case (Waiting k j b)
    then obtain bj where w: "i \<noteq> j" "b < nowOf x" "reading x j k bj b"
      "doneOf x j \<longrightarrow> readIn B x k (retOf x j) bj (nowOf x)" "\<not> leads x j k bj \<longrightarrow> doneOf x j"
      using ok by auto
    have r: "reading y j k bj b" using reading_later [OF l w(3,2)] .
    have "j < length (cs_pcs x)" and "leads x j k bj \<or> (\<exists>r e. cs_pcs x ! j = Returned k r bj e)"
      using w(3) by (auto simp: reading_def)
    from others [OF this]
    have "(doneOf y j \<longrightarrow> readIn B y k (retOf y j) bj (nowOf y)) \<and> (\<not> leads y j k bj \<longrightarrow> doneOf y j)"
    proof
      assume a: "doneOf y j = doneOf x j \<and> (doneOf x j \<longrightarrow> retOf y j = retOf x j)"
      have "\<not> leads y j k bj \<longrightarrow> doneOf x j" using l w(5) by (auto simp: later_def)
      then show ?thesis using a w(4) up [of B k "retOf x j" bj "nowOf x" "nowOf y"] now by auto
    qed simp
    then show ?thesis using Waiting w r now by auto
  next
    case (Returned k r b e)
    then have re: "b < e" "e < nowOf x"
      and d: "readIn B x k r b e \<or> (\<exists>j bj. j \<noteq> i \<and> reading x j k bj b \<and> readIn B x k r bj e)"
      using ok by simp_all
    have "b < nowOf x" using re by simp
    then have "readIn B y k r b e \<or> (\<exists>j bj. j \<noteq> i \<and> reading y j k bj b \<and> readIn B y k r bj e)"
      using d reading_later [OF l] up [where e = e and e' = e] by blast
    then show ?thesis using Returned re now by simp
  qed
qed

lemma inv_leads: "concInv B x \<Longrightarrow> leads x j k b \<Longrightarrow> conc_inflight (cs_conc x) k = Some j"
  by (auto simp: concInv_def leads_def)

lemma inv_keys: "concInv B x \<Longrightarrow> conc_inflight (cs_conc x) k = Some j \<Longrightarrow> \<exists>b. leads x j k b"
  unfolding concInv_def by blast

lemma moveTo_simps [simp]:
  "cs_conc (moveTo i pc c x) = c" "cs_pcs (moveTo i pc c x) = (cs_pcs x)[i := pc]"
  "cs_hist (moveTo i pc c x) = cs_hist x @ [conc_store c]"
  by (simp_all add: moveTo_def)

lemma onStore_simps [simp]:
  "cs_conc (onStore c x) = c" "cs_pcs (onStore c x) = cs_pcs x" "cs_hist (onStore c x) = cs_hist x @ [conc_store c]"
  by (simp_all add: onStore_def)

text \<open>A move of goroutine \<open>i\<close> keeps the invariant when \<open>i\<close> arrives in a right state and only its own call changes.\<close>

lemma concInv_move:
  assumes inv: "concInv B x" and i: "i < length (cs_pcs x)" and l: "later x (moveTo i pc c x)"
    and me: "pcOk B (moveTo i pc c x) i pc"
    and calls: "\<And>j. j \<noteq> i \<Longrightarrow> conc_calls c j = conc_calls (cs_conc x) j"
    and infl: "\<And>j k b. j \<noteq> i \<Longrightarrow> leads x j k b \<Longrightarrow> conc_inflight c k = Some j"
    and mine: "\<And>k b. (leads x i k b \<or> (\<exists>r e. cs_pcs x ! i = Returned k r b e)) \<Longrightarrow>
      cl_done (conc_calls c i) = doneOf x i \<and> (doneOf x i \<longrightarrow> cl_ret (conc_calls c i) = retOf x i)
      \<or> leads x i k b \<and> leads (moveTo i pc c x) i k b \<and> readIn B (moveTo i pc c x) k (cl_ret (conc_calls c i)) b (Suc (nowOf x))"
    and keys: "\<And>k j. conc_inflight c k = Some j \<Longrightarrow> (\<exists>b. leads (moveTo i pc c x) j k b)"
  shows "concInv B (moveTo i pc c x)"
proof -
  have "pcOk B (moveTo i pc c x) j ((cs_pcs x)[i := pc] ! j)" if j: "j < length (cs_pcs x)" for j
  proof (cases "j = i")
    case True
    then show ?thesis using me i by simp
  next
    case False
    have "pcOk B x j (cs_pcs x ! j)" using inv j by (simp add: concInv_def)
    then have "pcOk B (moveTo i pc c x) j (cs_pcs x ! j)"
    proof (rule pcOk_later [OF _ j refl l])
      show "conc_inflight (cs_conc (moveTo i pc c x)) k = Some j \<and> doneOf (moveTo i pc c x) j = doneOf x j
          \<and> retOf (moveTo i pc c x) j = retOf x j" if "leads x j k b" for k b
        using calls [OF False] infl [OF False that] by simp
      show "doneOf (moveTo i pc c x) m = doneOf x m \<and> (doneOf x m \<longrightarrow> retOf (moveTo i pc c x) m = retOf x m) \<or>
          leads x m k b \<and> leads (moveTo i pc c x) m k b \<and> readIn B (moveTo i pc c x) k (retOf (moveTo i pc c x) m) b (nowOf (moveTo i pc c x))"
        if "leads x m k b \<or> (\<exists>r e. cs_pcs x ! m = Returned k r b e)" for m k b
        using calls [of m] mine [of k b] that by (cases "m = i") simp_all
    qed
    then show ?thesis using False by simp
  qed
  then show ?thesis using keys by (simp add: concInv_def)
qed

lemma concInv_store:
  assumes inv: "concInv B x" and "conc_calls c = conc_calls (cs_conc x)" and "conc_inflight c = conc_inflight (cs_conc x)"
  shows "concInv B (onStore c x)"
proof -
  have leads: "leads (onStore c x) j k b = leads x j k b" for j k b by (simp add: leads_def)
  have "pcOk B (onStore c x) j (cs_pcs x ! j)" if j: "j < length (cs_pcs x)" for j
  proof -
    have "pcOk B x j (cs_pcs x ! j)" using inv j by (simp add: concInv_def)
    from pcOk_later [OF this j refl later_store [of x c]] show ?thesis
      using assms inv_leads [OF inv] by simp
  qed
  then show ?thesis using inv assms by (simp add: concInv_def leads)
qed

lemma readIn_now: "b < nowOf x \<Longrightarrow> r = store_Get B k (conc_store c) \<Longrightarrow> readIn B (moveTo i pc c x) k r b (Suc (nowOf x))"
  unfolding readIn_def by (intro exI [of _ "nowOf x"]) simp

lemma leads_move: "leads (moveTo i pc c x) j k b \<longleftrightarrow>
    (if j = i then i < length (cs_pcs x) \<and> pc \<in> {Fetching k b, Fetched k b, Notified k b} else leads x j k b)"
  by (auto simp: leads_def)

lemma keys_move:
  assumes "concInv B x" and "conc_inflight (cs_conc x) k = Some j"
    and "\<And>b. leads x i k b \<Longrightarrow> \<exists>b. pc \<in> {Fetching k b, Fetched k b, Notified k b}"
  shows "\<exists>b. leads (moveTo i pc c x) j k b"
proof -
  obtain b where b: "leads x j k b" using inv_keys [OF assms(1,2)] by blast
  show ?thesis
  proof (cases "j = i")
    case True
    then show ?thesis using assms(3) b by (auto simp: leads_move) (auto simp: leads_def)
  next
    case False
    then show ?thesis using b by (auto simp: leads_move)
  qed
qed

lemma concInv_lead:
  assumes inv: "concInv B x" and i: "i < length (cs_pcs x)" "cs_pcs x ! i = Ready k"
    and e: "getEnter i k (cs_conc x) = (None, c)"
  shows "concInv B (moveTo i (Fetching k (nowOf x)) c x)"
proof -
  have c: "conc_inflight (cs_conc x) k = None" "conc_inflight c = (conc_inflight (cs_conc x))(k \<mapsto> i)"
    "conc_calls c = (conc_calls (cs_conc x))(i := newCall)"
    using e by (auto simp: getEnter_def split: option.splits)
  have other: "leads x j k' b \<Longrightarrow> k' \<noteq> k" for j k' b using inv_leads [OF inv, of j k' b] c(1) by auto
  have no: "\<not> leads x i k' b" for k' b using i by (simp add: leads_def)
  have l: "later x (moveTo i (Fetching k (nowOf x)) c x)"
    by (rule later_move [OF i(1)]) (use i(2) no in auto)
  show ?thesis
  proof (rule concInv_move [OF inv i(1) l])
    show "\<exists>b. leads (moveTo i (Fetching k (nowOf x)) c x) j k' b" if infl: "conc_inflight c k' = Some j" for k' j
    proof (cases "k' = k")
      case True
      then show ?thesis using infl c(2) i(1) by (auto simp: leads_move)
    next
      case False
      then have "conc_inflight (cs_conc x) k' = Some j" using infl c(2) by simp
      then show ?thesis by (rule keys_move [OF inv]) (use no in simp)
    qed
    show "pcOk B (moveTo i (Fetching k (nowOf x)) c x) i (Fetching k (nowOf x))" using c by (simp add: newCall_def)
    show "conc_inflight c k' = Some j" if "leads x j k' b" for j k' b
      using inv_leads [OF inv that] other [OF that] c(2) by simp
  qed (use i no e in \<open>auto simp: getEnter_def split: option.splits\<close>)
qed

lemma concInv_join:
  assumes inv: "concInv B x" and i: "i < length (cs_pcs x)" "cs_pcs x ! i = Ready k"
    and e: "getEnter i k (cs_conc x) = (Some j, c)"
  shows "concInv B (moveTo i (Waiting k j (nowOf x)) c x)"
proof -
  have c: "c = cs_conc x" "conc_inflight (cs_conc x) k = Some j"
    using e by (auto simp: getEnter_def split: option.splits)
  then obtain bj where bj: "leads x j k bj" using inv_keys [OF inv] by blast
  then have j: "j \<noteq> i" "j < length (cs_pcs x)" using i(2) by (auto simp: leads_def)
  have okj: "pcOk B x j (cs_pcs x ! j)" using inv j by (simp add: concInv_def)
  have no: "\<not> leads x i k' b" for k' b using i by (simp add: leads_def)
  have l: "later x (moveTo i (Waiting k j (nowOf x)) c x)"
    by (rule later_move [OF i(1)]) (use i(2) no in auto)
  show ?thesis
  proof (rule concInv_move [OF inv i(1) l])
    have "bj < nowOf x" and "doneOf x j \<longrightarrow> readIn B x k (retOf x j) bj (nowOf x)"
      using okj bj by (auto simp: leads_def)
    then show "pcOk B (moveTo i (Waiting k j (nowOf x)) c x) i (Waiting k j (nowOf x))"
      using j c(1) bj readIn_later [OF l, of B k "retOf x j" bj "nowOf x" "Suc (nowOf x)"]
      by (auto simp: reading_def leads_move intro!: exI [of _ bj])
    show "\<exists>b. leads (moveTo i (Waiting k j (nowOf x)) c x) j' k' b" if "conc_inflight c k' = Some j'" for k' j'
      by (rule keys_move [OF inv]) (use that c(1) no in simp_all)
  qed (use c(1) no i(2) inv_leads [OF inv] in auto)
qed

lemma concInv_fetch:
  assumes inv: "concInv B x" and i: "i < length (cs_pcs x)" "cs_pcs x ! i = Fetching k b"
  shows "concInv B (moveTo i (Fetched k b) (getFetch B i k (cs_conc x)) x)"
proof (rule concInv_move [OF inv i(1)])
  let ?c = "getFetch B i k (cs_conc x)"
  have ok: "pcOk B x i (Fetching k b)" using inv i by (auto simp: concInv_def)
  have r: "readIn B (moveTo i (Fetched k b) ?c x) k (store_Get B k (conc_store (cs_conc x))) b (Suc (nowOf x))"
    using readIn_now [of b x "store_Get B k (conc_store (cs_conc x))" B k ?c] ok by (simp add: getFetch_def)
  show "later x (moveTo i (Fetched k b) ?c x)"
    by (rule later_move [OF i(1)]) (use i(2) in \<open>auto simp: leads_def\<close>)
  show "pcOk B (moveTo i (Fetched k b) ?c x) i (Fetched k b)" using ok r by (simp add: getFetch_def)
  show "\<exists>b'. leads (moveTo i (Fetched k b) ?c x) j k' b'" if "conc_inflight ?c k' = Some j" for k' j
    by (rule keys_move [OF inv]) (use that i(2) in \<open>auto simp: leads_def getFetch_def\<close>)
  show "cl_done (conc_calls ?c i) = doneOf x i \<and> (doneOf x i \<longrightarrow> cl_ret (conc_calls ?c i) = retOf x i)
      \<or> leads x i k' b' \<and> leads (moveTo i (Fetched k b) ?c x) i k' b' \<and> readIn B (moveTo i (Fetched k b) ?c x) k' (cl_ret (conc_calls ?c i)) b' (Suc (nowOf x))" for k' b'
    using ok by (simp add: getFetch_def)
qed (use inv_leads [OF inv] in \<open>auto simp: getFetch_def\<close>)

lemma concInv_notify:
  assumes inv: "concInv B x" and i: "i < length (cs_pcs x)" "cs_pcs x ! i = Fetched k b"
  shows "concInv B (moveTo i (Notified k b) (getDone i (cs_conc x)) x)"
proof -
  let ?c = "getDone i (cs_conc x)"
  have ok: "pcOk B x i (Fetched k b)" using inv i by (auto simp: concInv_def)
  have l: "later x (moveTo i (Notified k b) ?c x)"
    by (rule later_move [OF i(1)]) (use i(2) in \<open>auto simp: leads_def\<close>)
  have r: "readIn B (moveTo i (Notified k b) ?c x) k (retOf x i) b (Suc (nowOf x))"
    using readIn_later [OF l] ok by auto
  show ?thesis
  proof (rule concInv_move [OF inv i(1) l])
    show "pcOk B (moveTo i (Notified k b) ?c x) i (Notified k b)" using ok r by (simp add: getDone_def)
    show "\<exists>b'. leads (moveTo i (Notified k b) ?c x) j k' b'" if "conc_inflight ?c k' = Some j" for k' j
      by (rule keys_move [OF inv]) (use that i(2) in \<open>auto simp: leads_def getDone_def\<close>)
  qed (use r i inv_leads [OF inv] in \<open>auto simp: getDone_def leads_move leads_def\<close>)
qed

lemma concInv_forget:
  assumes inv: "concInv B x" and i: "i < length (cs_pcs x)" "cs_pcs x ! i = Notified k b"
  shows "concInv B (moveTo i (Returned k (retOf x i) b (nowOf x)) (getForget k (cs_conc x)) x)"
proof -
  let ?c = "getForget k (cs_conc x)" and ?pc = "Returned k (retOf x i) b (nowOf x)"
  have ok: "pcOk B x i (Notified k b)" using inv i by (auto simp: concInv_def)
  have l: "later x (moveTo i ?pc ?c x)"
    by (rule later_move [OF i(1)]) (use i(2) ok in \<open>auto simp: leads_def\<close>)
  have r: "readIn B (moveTo i ?pc ?c x) k (retOf x i) b (nowOf x)"
    using readIn_later [OF l] ok by auto
  show ?thesis
  proof (rule concInv_move [OF inv i(1) l])
    show "pcOk B (moveTo i ?pc ?c x) i ?pc" using ok r by simp
    show "\<exists>b'. leads (moveTo i ?pc ?c x) j k' b'" if "conc_inflight ?c k' = Some j" for k' j
      by (rule keys_move [OF inv]) (use that i(2) in \<open>auto simp: leads_def getForget_def split: if_splits\<close>)
    show "conc_inflight ?c k' = Some j" if "j \<noteq> i" "leads x j k' b'" for j k' b'
      using inv_leads [OF inv that(2)] ok that(1) by (auto simp: getForget_def)
  qed (use i(2) in \<open>auto simp: getForget_def\<close>)
qed

lemma concInv_wake:
  assumes inv: "concInv B x" and i: "i < length (cs_pcs x)" "cs_pcs x ! i = Waiting k j b" and d: "doneOf x j"
  shows "concInv B (moveTo i (Returned k (retOf x j) b (nowOf x)) (cs_conc x) x)"
proof -
  let ?y = "moveTo i (Returned k (retOf x j) b (nowOf x)) (cs_conc x) x"
  have "pcOk B x i (Waiting k j b)" using inv i by (auto simp: concInv_def)
  then obtain bj where w: "i \<noteq> j" "b < nowOf x" "reading x j k bj b" "readIn B x k (retOf x j) bj (nowOf x)"
    using d by auto
  have no: "\<not> leads x i k' b'" for k' b' using i by (simp add: leads_def)
  have l: "later x ?y" by (rule later_move [OF i(1)]) (use i(2) no in auto)
  have r: "reading ?y j k bj b" "readIn B ?y k (retOf x j) bj (nowOf x)"
    using reading_later [OF l w(3,2)] readIn_later [OF l w(4)] by auto
  show ?thesis
  proof (rule concInv_move [OF inv i(1) l])
    show "pcOk B ?y i (Returned k (retOf x j) b (nowOf x))" using w r by auto
    show "\<exists>b'. leads ?y j' k' b'" if "conc_inflight (cs_conc x) k' = Some j'" for k' j'
      by (rule keys_move [OF inv that]) (use no in simp)
  qed (use no i(2) inv_leads [OF inv] in auto)
qed

lemma concInv_step:
  assumes "concStep B x y" and "concInv B x"
  shows "concInv B y"
  using assms(1)
proof cases
  case get
  then show ?thesis
    using assms(2) concInv_lead concInv_join concInv_fetch concInv_notify concInv_forget concInv_wake
    by cases simp_all
qed (use assms(2) in \<open>auto intro!: concInv_store simp: concSet_def concSetFromReader_def concDel_def concSetCurrentBlockHeight_def split: prod.splits\<close>)

lemma concInv_reach:
  assumes "concReach B (concInit s keys) x"
  shows "concInv B x"
  using assms unfolding concReach_def
proof (induction rule: rtranclp_induct)
  case base
  show ?case by (auto simp: concInv_def concInit_def NewConcurrentBlobStore_def)
next
  case (step y z)
  then show ?case using concInv_step by blast
qed

section \<open>Results\<close>

text \<open>
  C28: What a shared \<open>Get\<close> returns. Whatever goroutines call \<open>Get\<close> and whatever is stored or deleted
  meanwhile, a call that ran from \<open>b\<close> to \<open>e\<close> returns what the store held at a moment before \<open>e\<close> and after
  \<open>b\<close>, or after the beginning of another call for the key that was running at \<open>b\<close>. The store is read for
  a key by at most one goroutine at a time.
\<close>

theorem conc_get_fresh:
  assumes "concReach B (concInit s keys) x" and "i < length (cs_pcs x)" and "cs_pcs x ! i = Returned k r b e"
  shows "(\<exists>v < e. r = store_Get B k (cs_hist x ! v) \<and> (b < v \<or> (\<exists>j bj. j \<noteq> i \<and> reading x j k bj b \<and> bj < v)))
     \<and> (\<forall>j j' b b'. leads x j k b \<and> leads x j' k b' \<longrightarrow> j = j')"
proof -
  note inv = concInv_reach [OF assms(1)]
  have "pcOk B x i (cs_pcs x ! i)" using inv assms(2) unfolding concInv_def by blast
  then have "pcOk B x i (Returned k r b e)" by (simp only: assms(3))
  then have "\<exists>v < e. r = store_Get B k (cs_hist x ! v) \<and> (b < v \<or> (\<exists>j bj. j \<noteq> i \<and> reading x j k bj b \<and> bj < v))"
    unfolding pcOk.simps readIn_def by blast
  moreover have "j = j'" if "leads x j k b" and "leads x j' k b'" for j j' b b'
    using inv_leads [OF inv that(1)] inv_leads [OF inv that(2)] by simp
  ultimately show ?thesis by blast
qed

text \<open>The memory store under the wrapper.\<close>

definition memBlobs :: "MemoryBlobStore BlobStore" where
  "memBlobs = \<lparr>store_Set = memSet, store_SetFromReader = memSetFromReader, store_Get = memGet,
     store_GetIoReader = memGet, store_Del = memDel, store_SetCurrentBlockHeight = memSetCurrentBlockHeight\<rparr>"

lemma concReach_refl: "concReach B x x"
  by (simp add: concReach_def)

lemma concReach_step: "concReach B x y \<Longrightarrow> concStep B y z \<Longrightarrow> concReach B x z"
  unfolding concReach_def by (rule rtranclp.rtrancl_into_rtrancl)

definition exGetBlobs :: MemoryBlobStore where
  "exGetBlobs = snd (memSet ''k'' [1] [] NewMemoryBlobStore)"

text \<open>
  Two goroutines read one key. The first has read the store and woken its waiters, but has not yet taken the key out
  of \<open>inflight\<close>, when the key is stored and then the second begins.
\<close>

definition exBefore :: "MemoryBlobStore concSys" where
  "exBefore =
     \<lparr>cs_conc = \<lparr>conc_store = NewMemoryBlobStore, conc_inflight = [''k'' \<mapsto> 0],
        conc_calls = (\<lambda>_. newCall)(0 := \<lparr>cl_done = True, cl_ret = Inl (ErrBlobNotFound ''k'')\<rparr>)\<rparr>,
      cs_pcs = [Notified ''k'' 1, Ready ''k''],
      cs_hist = [NewMemoryBlobStore, NewMemoryBlobStore, NewMemoryBlobStore, NewMemoryBlobStore]\<rparr>"

definition exAfter :: "MemoryBlobStore concSys" where
  "exAfter =
     \<lparr>cs_conc = (cs_conc exBefore)\<lparr>conc_store := exGetBlobs\<rparr>,
      cs_pcs = [Notified ''k'' 1, Returned ''k'' (Inl (ErrBlobNotFound ''k'')) 5 6],
      cs_hist = cs_hist exBefore @ [exGetBlobs, exGetBlobs, exGetBlobs]\<rparr>"

lemma exBefore_reach: "concReach memBlobs (concInit NewMemoryBlobStore [''k'', ''k'']) exBefore"
proof -
  let ?x = "concInit NewMemoryBlobStore [''k'', ''k'']"
  let ?c0 = "cs_conc ?x"
  let ?c1 = "?c0\<lparr>conc_inflight := [''k'' \<mapsto> 0], conc_calls := (conc_calls ?c0)(0 := newCall)\<rparr>"
  let ?x1 = "moveTo 0 (Fetching ''k'' 1) ?c1 ?x"
  let ?x2 = "moveTo 0 (Fetched ''k'' 1) (getFetch memBlobs 0 ''k'' ?c1) ?x1"
  have "getStep memBlobs ?x (moveTo 0 (Fetching ''k'' (nowOf ?x)) ?c1 ?x)"
    by (rule getStep.lead) (simp_all add: concInit_def getEnter_def NewConcurrentBlobStore_def)
  then have s1: "concStep memBlobs ?x ?x1" by (simp add: concInit_def concStep.get)
  have "getStep memBlobs ?x1 (moveTo 0 (Fetched ''k'' 1) (getFetch memBlobs 0 ''k'' (cs_conc ?x1)) ?x1)"
    by (rule getStep.fetch) (simp_all add: concInit_def)
  then have s2: "concStep memBlobs ?x1 ?x2" by (simp add: concStep.get)
  have "getStep memBlobs ?x2 (moveTo 0 (Notified ''k'' 1) (getDone 0 (cs_conc ?x2)) ?x2)"
    by (rule getStep.notify) (simp_all add: concInit_def)
  moreover have "moveTo 0 (Notified ''k'' 1) (getDone 0 (cs_conc ?x2)) ?x2 = exBefore"
    by (simp add: moveTo_def getFetch_def getDone_def concInit_def NewConcurrentBlobStore_def exBefore_def newCall_def
        memBlobs_def memGet_def NewMemoryBlobStore_def)
  ultimately have s3: "concStep memBlobs ?x2 exBefore" by (simp add: concStep.get)
  show ?thesis by (rule concReach_step [OF concReach_step [OF concReach_step [OF concReach_refl s1] s2] s3])
qed

lemma exAfter_reach: "concReach memBlobs (concInit NewMemoryBlobStore [''k'', ''k'']) exAfter"
proof -
  let ?c = "(cs_conc exBefore)\<lparr>conc_store := exGetBlobs\<rparr>"
  let ?x1 = "onStore ?c exBefore"
  let ?x2 = "moveTo 1 (Waiting ''k'' 0 5) ?c ?x1"
  have "concSet memBlobs ''k'' [1] [] (cs_conc exBefore) = (None, ?c)"
    by (simp add: concSet_def memBlobs_def exGetBlobs_def exBefore_def memSet_def Let_def)
  then have s1: "concStep memBlobs exBefore ?x1" by (rule concStep.set)
  have "getStep memBlobs ?x1 (moveTo 1 (Waiting ''k'' 0 (nowOf ?x1)) ?c ?x1)"
    by (rule getStep.join) (simp_all add: exBefore_def getEnter_def)
  moreover have "nowOf ?x1 = 5" by (simp add: exBefore_def)
  ultimately have s2: "concStep memBlobs ?x1 ?x2" using concStep.get by metis
  have "getStep memBlobs ?x2 (moveTo 1 (Returned ''k'' (retOf ?x2 0) 5 (nowOf ?x2)) (cs_conc ?x2) ?x2)"
    by (rule getStep.wake) (simp_all add: exBefore_def)
  moreover have "moveTo 1 (Returned ''k'' (retOf ?x2 0) 5 (nowOf ?x2)) (cs_conc ?x2) ?x2 = exAfter"
    by (simp add: moveTo_def onStore_def exAfter_def exBefore_def)
  ultimately have s3: "concStep memBlobs ?x2 exAfter" by (simp add: concStep.get)
  show ?thesis by (rule concReach_step [OF concReach_step [OF concReach_step [OF exBefore_reach s1] s2] s3])
qed

theorem conc_get_fresh_witness:
  "cs_pcs exAfter ! 1 = Returned ''k'' (Inl (ErrBlobNotFound ''k'')) 5 6 \<and>
   (\<exists>v < 6. Inl (ErrBlobNotFound ''k'') = memGet ''k'' (cs_hist exAfter ! v) \<and>
      (5 < v \<or> (\<exists>j bj. j \<noteq> 1 \<and> reading exAfter j ''k'' bj 5 \<and> bj < v)))"
  using conc_get_fresh [OF exAfter_reach, of 1 "''k''" "Inl (ErrBlobNotFound ''k'')" 5 6]
  by (simp add: exAfter_def memBlobs_def)

text \<open>
  The second alternative of the result above happens: a \<open>Get\<close> that begins after a \<open>Set\<close> of the key has
  returned may miss it, although the store had the new content from before its beginning on.
\<close>

lemma conc_get_stale:
  "\<exists>x. concReach memBlobs (concInit NewMemoryBlobStore [''k'', ''k'']) x
     \<and> cs_pcs x ! 1 = Returned ''k'' (Inl (ErrBlobNotFound ''k'')) 5 6
     \<and> memGet ''k'' (cs_hist x ! 4) = Inr [1] \<and> memGet ''k'' (cs_hist x ! 5) = Inr [1] \<and> memGet ''k'' (cs_hist x ! 6) = Inr [1]"
proof (intro exI conjI)
  show "concReach memBlobs (concInit NewMemoryBlobStore [''k'', ''k'']) exAfter" by (rule exAfter_reach)
qed (simp_all add: exAfter_def exBefore_def exGetBlobs_def memSet_def memGet_def Let_def applyOptions_def)

section \<open>Every call returns\<close>

text \<open>The steps a goroutine has left.\<close>

fun stepsLeft :: "getPc \<Rightarrow> nat" where
  "stepsLeft (Ready k) = 4"
| "stepsLeft (Fetching k b) = 3"
| "stepsLeft (Fetched k b) = 2"
| "stepsLeft (Notified k b) = 1"
| "stepsLeft (Waiting k j b) = 1"
| "stepsLeft (Returned k r b e) = 0"

definition workLeft :: "'s concSys \<Rightarrow> nat" where
  "workLeft x = sum_list (map stepsLeft (cs_pcs x))"

lemma workLeft_move:
  assumes "i < length (cs_pcs x)" and "stepsLeft pc < stepsLeft (cs_pcs x ! i)"
  shows "workLeft (moveTo i pc c x) < workLeft x"
  using assms member_le_sum_list [of "stepsLeft (cs_pcs x ! i)" "map stepsLeft (cs_pcs x)"]
  by (simp add: workLeft_def map_update sum_list_update)

text \<open>
  C39: No shared \<open>Get\<close> waits for ever. In every reachable state in which a call has not returned some
  call can take a step, and a step of a call lowers the number of steps left (at most four a call) while
  the operations of the store leave it: after at most that many steps of calls all have returned.
\<close>

theorem conc_get_returns:
  assumes "concReach B (concInit s keys) x"
  shows "(0 < workLeft x \<longrightarrow> (\<exists>y. getStep B x y)) \<and> (\<forall>y. getStep B x y \<longrightarrow> workLeft y < workLeft x)
     \<and> (\<forall>y. concStep B x y \<longrightarrow> getStep B x y \<or> workLeft y = workLeft x)
     \<and> (workLeft x = 0 \<longrightarrow> (\<forall>pc \<in> set (cs_pcs x). \<exists>k r b e. pc = Returned k r b e))"
proof (intro conjI impI allI ballI)
  note inv = concInv_reach [OF assms]
  assume "0 < workLeft x"
  then have "\<exists>pc \<in> set (cs_pcs x). stepsLeft pc \<noteq> 0"
    unfolding workLeft_def by (metis (no_types, lifting) bot_nat_0.not_eq_extremum in_set_conv_nth length_map list.set_map image_iff sum_list_eq_0_iff)
  then obtain i where i: "i < length (cs_pcs x)" "stepsLeft (cs_pcs x ! i) \<noteq> 0"
    by (metis in_set_conv_nth)
  have lead_step: "\<exists>y. getStep B x y" if "leads x j k b" for j k b
    using that getStep.fetch getStep.notify getStep.forget unfolding leads_def by blast
  show "\<exists>y. getStep B x y"
  proof (cases "cs_pcs x ! i")
    case (Ready k)
    obtain o' c where "getEnter i k (cs_conc x) = (o', c)" by fastforce
    then show ?thesis using i(1) Ready getStep.lead getStep.join by (cases o') blast+
  next
    case (Waiting k j b)
    have "pcOk B x i (Waiting k j b)" using inv i(1) Waiting by (metis concInv_def)
    then obtain bj where "\<not> leads x j k bj \<longrightarrow> doneOf x j" by auto
    then show ?thesis using lead_step getStep.wake [OF i(1) Waiting] by blast
  qed (use i lead_step in \<open>auto simp: leads_def\<close>)
next
  fix y assume "getStep B x y"
  then show "workLeft y < workLeft x" by cases (simp_all add: workLeft_move)
next
  fix y assume "concStep B x y"
  then show "getStep B x y \<or> workLeft y = workLeft x" by cases (simp_all add: workLeft_def)
next
  fix pc assume "workLeft x = 0" and "pc \<in> set (cs_pcs x)"
  then have "stepsLeft pc = 0" by (simp add: workLeft_def)
  then show "\<exists>k r b e. pc = Returned k r b e" by (cases pc) simp_all
qed

theorem conc_get_returns_witness:
  "workLeft exAfter = 1 \<and> (\<exists>y. getStep memBlobs exAfter y)"
  using conc_get_returns [OF exAfter_reach] by (simp add: workLeft_def exAfter_def)

end
