(* ===== verification/Json.thy ===== *)
theory Json
  imports Kafka_Messages
begin

text \<open>
  Go's encoding/json as the program uses it: the text of strings, numbers, arrays and objects, and the
  reader of it. A string is a sequence of bytes, which the encoder expects to be UTF-8.
\<close>

section \<open>UTF-8\<close>

abbreviation codeOf :: "char \<Rightarrow> nat" where
  "codeOf c \<equiv> of_char c"

definition byteIn :: "nat \<Rightarrow> nat \<Rightarrow> string \<Rightarrow> nat \<Rightarrow> bool" where
  "byteIn lo hi s i = (i < length s \<and> lo \<le> codeOf (s ! i) \<and> codeOf (s ! i) \<le> hi)"

text \<open>
  \<open>utf8.DecodeRuneInString\<close>: the length of the rune a string begins with, 0 for an invalid one. The range of the second byte
  depends on the first.
\<close>

definition secondIn :: "nat \<Rightarrow> string \<Rightarrow> bool" where
  "secondIn b r = byteIn (if b = 224 then 160 else if b = 240 then 144 else 128) (if b = 237 then 159 else if b = 244 then 143 else 191) r 0"

definition runeLen :: "string \<Rightarrow> nat" where
  "runeLen s = (case s of
      [] \<Rightarrow> 0
    | c # r \<Rightarrow> (let b = codeOf c
        in if b < 128 then 1
           else if 194 \<le> b \<and> b \<le> 223 \<and> secondIn b r then 2
           else if 224 \<le> b \<and> b \<le> 239 \<and> secondIn b r \<and> byteIn 128 191 r 1 then 3
           else if 240 \<le> b \<and> b \<le> 244 \<and> secondIn b r \<and> byteIn 128 191 r 1 \<and> byteIn 128 191 r 2 then 4
           else 0))"

lemma byteIn_length: "byteIn lo hi r i \<Longrightarrow> i < length r"
  by (simp add: byteIn_def)

lemma secondIn_length: "secondIn b r \<Longrightarrow> Suc 0 \<le> length r"
  unfolding secondIn_def by (drule byteIn_length) linarith

lemma length_choice:
  assumes "n = (if p then 1 else if q then 2 else if r then 3 else if s then 4 else (0 :: nat))"
  shows "n = 0 \<or> n = 1 \<and> p \<or> n = 2 \<and> q \<or> n = 3 \<and> r \<or> n = 4 \<and> s"
  using assms by (simp split: if_splits)

lemma runeLen_cases:
  "runeLen (c # r) = 0 \<or> runeLen (c # r) = 1 \<and> codeOf c < 128
   \<or> runeLen (c # r) = 2 \<and> 194 \<le> codeOf c \<and> codeOf c \<le> 223 \<and> secondIn (codeOf c) r
   \<or> runeLen (c # r) = 3 \<and> 224 \<le> codeOf c \<and> codeOf c \<le> 239 \<and> secondIn (codeOf c) r \<and> byteIn 128 191 r 1
   \<or> runeLen (c # r) = 4 \<and> 240 \<le> codeOf c \<and> codeOf c \<le> 244 \<and> secondIn (codeOf c) r \<and> byteIn 128 191 r 1 \<and> byteIn 128 191 r 2"
  by (rule length_choice) (simp only: runeLen_def list.case Let_def)

lemma runeLen_le: "runeLen s \<le> length s"
proof (cases s)
  case (Cons c r)
  note len = byteIn_length [of 128 191 r 1] byteIn_length [of 128 191 r 2] secondIn_length [of "codeOf c" r]
  show ?thesis using runeLen_cases [of c r] unfolding Cons by (elim disjE conjE) (use len in simp_all)
qed (simp add: runeLen_def)

lemma byteIn_take: "byteIn lo hi r i \<Longrightarrow> i < n \<Longrightarrow> byteIn lo hi (take n r @ t) i"
  by (auto simp: byteIn_def nth_append)

lemma runeLen_prefix:
  assumes "0 < runeLen s"
  shows "runeLen (take (runeLen s) s @ t) = runeLen s"
proof (cases s)
  case (Cons c r)
  have sec: "secondIn (codeOf c) r \<Longrightarrow> 0 < n \<Longrightarrow> secondIn (codeOf c) (take n r @ t)" for n
    unfolding secondIn_def by (rule byteIn_take)
  show ?thesis using runeLen_cases [of c r] assms unfolding Cons
    by (elim disjE conjE) (simp_all add: sec byteIn_take runeLen_def Let_def)
qed (use assms in \<open>simp add: runeLen_def\<close>)

function validUtf8 :: "string \<Rightarrow> bool" where
  "validUtf8 s = (if s = [] then True else if runeLen s = 0 then False else validUtf8 (drop (runeLen s) s))"
  by pat_completeness auto
termination
  by (relation "measure length") auto

declare validUtf8.simps [simp del]

text \<open>\<open>utf8.AppendRune\<close>; surrogates and numbers that are no code points give the replacement character.\<close>

definition encodeRune :: "nat \<Rightarrow> string" where
  "encodeRune r = map char_of
     (if r < 128 then [r]
      else if r < 2048 then [192 + r div 64, 128 + r mod 64]
      else if r > 1114111 \<or> 55296 \<le> r \<and> r \<le> 57343 then [239, 191, 189]
      else if r < 65536 then [224 + r div 4096, 128 + r div 64 mod 64, 128 + r mod 64]
      else [240 + r div 262144, 128 + r div 4096 mod 64, 128 + r div 64 mod 64, 128 + r mod 64])"

section \<open>Strings\<close>

definition backslash :: char where
  "backslash = CHR 92"

definition quote :: char where
  "quote = CHR 34"

text \<open>An ASCII character in a string, with the escapes for HTML.\<close>

definition escapeAscii :: "char \<Rightarrow> string" where
  "escapeAscii c = (let n = codeOf c in
     if c = quote \<or> c = backslash then [backslash, c]
     else if n = 8 then [backslash, CHR ''b''] else if n = 12 then [backslash, CHR ''f'']
     else if n = 10 then [backslash, CHR ''n''] else if n = 13 then [backslash, CHR ''r'']
     else if n = 9 then [backslash, CHR ''t'']
     else if n < 32 \<or> c = CHR ''<'' \<or> c = CHR ''>'' \<or> c = CHR ''&'' then backslash # ''u00'' @ [hexDigit (n div 16), hexDigit (n mod 16)]
     else [c])"

text \<open>U+2028 and U+2029 in UTF-8.\<close>

definition lineSep :: "string \<Rightarrow> bool" where
  "lineSep s = (byteIn 226 226 s 0 \<and> byteIn 128 128 s 1 \<and> byteIn 168 169 s 2)"

function escape :: "string \<Rightarrow> string" where
  "escape s =
     (if s = [] then []
      else if codeOf (hd s) < 128 then escapeAscii (hd s) @ escape (tl s)
      else if runeLen s = 0 then backslash # ''ufffd'' @ escape (tl s)
      else if lineSep s then backslash # ''u202'' @ [hexDigit (codeOf (s ! 2) mod 16)] @ escape (drop 3 s)
      else take (runeLen s) s @ escape (drop (runeLen s) s))"
  by pat_completeness auto
termination
  by (relation "measure length") (auto simp: lineSep_def byteIn_def)

declare escape.simps [simp del]

text \<open>
  The string after its opening quote, and what follows the closing one. A \<open>u\<close> escape may be a surrogate, which
  with the next escape makes one code point.
\<close>

fun hex4 :: "string \<Rightarrow> nat option" where
  "hex4 (a # b # c # d # r) = (case (hexVal a, hexVal b, hexVal c, hexVal d) of
      (Some x, Some y, Some z, Some w) \<Rightarrow> Some (4096 * x + 256 * y + 16 * z + w)
    | _ \<Rightarrow> None)"
| "hex4 _ = None"

declare hex4.simps [simp del]

lemma hex4_length: "hex4 r = Some u \<Longrightarrow> 4 \<le> length r"
  by (cases r rule: hex4.cases) (simp_all add: hex4.simps)

definition simpleEscape :: "char \<Rightarrow> char option" where
  "simpleEscape c =
     (if c = quote \<or> c = backslash \<or> c = CHR ''/'' then Some c
      else map_of [(CHR ''b'', CHR 8), (CHR ''f'', CHR 12), (CHR ''n'', CHR 10), (CHR ''r'', CHR 13), (CHR ''t'', CHR 9)] c)"

definition replacementChar :: string where
  "replacementChar = encodeRune 65533"

text \<open>The two halves of a code point beyond 16 bits (\<open>utf16.DecodeRune\<close>).\<close>

definition pairRune :: "nat \<Rightarrow> nat \<Rightarrow> nat option" where
  "pairRune u v = (if 55296 \<le> u \<and> u < 56320 \<and> 56320 \<le> v \<and> v < 57344
     then Some (65536 + 1024 * (u - 55296) + (v - 56320)) else None)"

definition unicodeEscape :: "string \<Rightarrow> (string \<times> string) option" where
  "unicodeEscape r = (case hex4 r of
      None \<Rightarrow> None
    | Some u \<Rightarrow> (let t = drop 4 r
        in if 55296 \<le> u \<and> u < 57344
           then (case (if take 2 t = [backslash, CHR ''u''] then Option.bind (hex4 (drop 2 t)) (pairRune u) else None) of
               Some p \<Rightarrow> Some (encodeRune p, drop 6 t)
             | None \<Rightarrow> Some (replacementChar, t))
           else Some (encodeRune u, t)))"

text \<open>The characters that the string begins with and what remains; \<open>None\<close> for a text that is no string.\<close>

definition stringChunk :: "string \<Rightarrow> (string \<times> string) option" where
  "stringChunk s = (case s of
      [] \<Rightarrow> None
    | c # r \<Rightarrow>
        if c = backslash then (case r of
            [] \<Rightarrow> None
          | e # r' \<Rightarrow> if e = CHR ''u'' then unicodeEscape r' else map_option (\<lambda>x. ([x], r')) (simpleEscape e))
        else if codeOf c < 32 then None
        else if codeOf c < 128 then Some ([c], r)
        else if runeLen s = 0 then Some (replacementChar, r)
        else Some (take (runeLen s) s, drop (runeLen s) s))"

lemma unicodeEscape_shorter: "unicodeEscape r = Some (cs, t) \<Longrightarrow> length t < length r"
  by (auto simp: unicodeEscape_def Let_def dest!: hex4_length split: option.splits if_splits)

lemma stringChunk_shorter:
  assumes "stringChunk s = Some (cs, t)"
  shows "length t < length s"
proof (cases s)
  case (Cons c r)
  show ?thesis
  proof (cases "c = backslash")
    case True
    then obtain e r' where r: "r = e # r'" using assms Cons by (cases r) (auto simp: stringChunk_def)
    show ?thesis
    proof (cases "e = CHR ''u''")
      case True
      then show ?thesis using assms Cons r \<open>c = backslash\<close> unicodeEscape_shorter [of r' cs t] by (simp add: stringChunk_def)
    next
      case False
      then show ?thesis using assms Cons r \<open>c = backslash\<close> by (auto simp: stringChunk_def)
    qed
  next
    case False
    then show ?thesis using assms Cons by (auto simp: stringChunk_def split: if_splits)
  qed
qed (use assms in \<open>simp add: stringChunk_def\<close>)

function parseString :: "string \<Rightarrow> (string \<times> string) option" where
  "parseString s =
     (if s \<noteq> [] \<and> hd s = quote then Some ([], tl s)
      else case stringChunk s of
        None \<Rightarrow> None
      | Some (cs, t) \<Rightarrow> map_option (\<lambda>(x, r). (cs @ x, r)) (parseString t))"
  by pat_completeness auto
termination
  by (relation "measure length") (auto dest: stringChunk_shorter)

declare parseString.simps [simp del]

section \<open>A printed string is read back\<close>

definition prepend :: "string \<Rightarrow> (string \<times> string) option \<Rightarrow> (string \<times> string) option" where
  "prepend cs = map_option (\<lambda>(x, r). (cs @ x, r))"

lemma prepend_simps [simp]: "prepend cs (Some (x, r)) = Some (cs @ x, r)" "prepend cs None = None"
  by (simp_all add: prepend_def)

lemma parseString_chunk:
  "stringChunk s = Some (cs, t) \<Longrightarrow> hd s \<noteq> quote \<Longrightarrow> parseString s = prepend cs (parseString t)"
  by (subst parseString.simps) (simp add: prepend_def)

lemma parseString_quote: "parseString (quote # t) = Some ([], t)"
  by (subst parseString.simps) simp

lemma quote_neq: "quote \<noteq> backslash" "backslash \<noteq> quote" "codeOf quote = 34" "codeOf backslash = 92"
  by (simp_all add: quote_def backslash_def)

lemma hex4_digits:
  assumes "a < 16" "b < 16" "c < 16" "d < 16"
  shows "hex4 (hexDigit a # hexDigit b # hexDigit c # hexDigit d # t) = Some (4096 * a + 256 * b + 16 * c + d)"
  using assms by (simp add: hex4.simps hexVal_hexDigit)

lemma unicodeEscape_plain:
  assumes "a < 16" "b < 16" "c < 16" "d < 16" and "u = 4096 * a + 256 * b + 16 * c + d" and "\<not> (55296 \<le> u \<and> u < 57344)"
  shows "unicodeEscape (hexDigit a # hexDigit b # hexDigit c # hexDigit d # t) = Some (encodeRune u, t)"
proof -
  have "hex4 (hexDigit a # hexDigit b # hexDigit c # hexDigit d # t) = Some u"
    using hex4_digits [OF assms(1-4), of t] assms(5) by simp
  then show ?thesis using assms(6) by (auto simp: unicodeEscape_def Let_def)
qed

lemma hexDigit_chars: "hexDigit 0 = CHR ''0''" "hexDigit 2 = CHR ''2''"
  by code_simp+

lemma parse_unicode:
  assumes "a < 16" "b < 16" "c < 16" "d < 16" and "u = 4096 * a + 256 * b + 16 * c + d" and "\<not> (55296 \<le> u \<and> u < 57344)"
  shows "parseString (backslash # CHR ''u'' # hexDigit a # hexDigit b # hexDigit c # hexDigit d # t) = prepend (encodeRune u) (parseString t)"
  by (rule parseString_chunk) (simp_all add: stringChunk_def unicodeEscape_plain [OF assms] quote_neq)

lemma encodeRune_ascii: "codeOf c < 128 \<Longrightarrow> encodeRune (codeOf c) = [c]"
  by (simp add: encodeRune_def)

lemma char_of_codes: "char_of (8 :: nat) = CHR 8" "char_of (9 :: nat) = CHR 9" "char_of (10 :: nat) = CHR 10"
  "char_of (12 :: nat) = CHR 12" "char_of (13 :: nat) = CHR 13"
  by code_simp+

lemma simpleEscapes:
  "simpleEscape quote = Some quote" "simpleEscape backslash = Some backslash" "simpleEscape CHR ''b'' = Some (char_of (8 :: nat))"
  "simpleEscape CHR ''f'' = Some (char_of (12 :: nat))" "simpleEscape CHR ''n'' = Some (char_of (10 :: nat))"
  "simpleEscape CHR ''r'' = Some (char_of (13 :: nat))" "simpleEscape CHR ''t'' = Some (char_of (9 :: nat))"
  by (simp_all only: char_of_codes) (simp_all add: simpleEscape_def quote_def backslash_def)

lemma escapeAscii_cases:
  "(\<exists>e. escapeAscii c = [backslash, e] \<and> simpleEscape e = Some c \<and> e \<noteq> CHR ''u'')
   \<or> escapeAscii c = backslash # ''u00'' @ [hexDigit (codeOf c div 16), hexDigit (codeOf c mod 16)]
   \<or> escapeAscii c = [c] \<and> c \<noteq> quote \<and> c \<noteq> backslash \<and> 32 \<le> codeOf c"
proof -
  have c: "codeOf c = n \<Longrightarrow> c = char_of n" for n by (metis char_of_char)
  consider "c = quote \<or> c = backslash" | "c \<noteq> quote" "c \<noteq> backslash" "codeOf c \<in> {8, 9, 10, 12, 13}"
    | "c \<noteq> quote" "c \<noteq> backslash" "codeOf c \<notin> {8, 9, 10, 12, 13}" by blast
  then show ?thesis
  proof cases
    case 1
    moreover have "quote \<noteq> CHR ''u''" "backslash \<noteq> CHR ''u''" by (simp_all add: quote_def backslash_def)
    ultimately show ?thesis by (auto simp: escapeAscii_def simpleEscapes)
  next
    case 2
    then show ?thesis
      using c [of 8] c [of 9] c [of 10] c [of 12] c [of 13] simpleEscapes by (auto simp: escapeAscii_def Let_def)
  next
    case 3
    then show ?thesis by (simp add: escapeAscii_def Let_def)
  qed
qed

lemma parse_ascii:
  assumes "codeOf c < 128"
  shows "parseString (escapeAscii c @ t) = prepend [c] (parseString t)"
  using escapeAscii_cases [of c]
proof (elim disjE exE conjE)
  fix e assume e: "escapeAscii c = [backslash, e]" "simpleEscape e = Some c" "e \<noteq> CHR ''u''"
  show ?thesis unfolding e(1) using e(2,3) by (simp add: parseString_chunk stringChunk_def quote_neq)
next
  let ?n = "codeOf c"
  assume u: "escapeAscii c = backslash # ''u00'' @ [hexDigit (?n div 16), hexDigit (?n mod 16)]"
  have "?n div 16 < 16" "?n mod 16 < 16" "?n = 4096 * 0 + 256 * 0 + 16 * (?n div 16) + ?n mod 16" using assms by auto
  from parse_unicode [of 0 0, OF _ _ this] show ?thesis
    using assms encodeRune_ascii [OF assms] unfolding u by (simp add: hexDigit_chars)
next
  assume "escapeAscii c = [c]" "c \<noteq> quote" "c \<noteq> backslash" "32 \<le> codeOf c"
  then show ?thesis using assms by (simp add: parseString_chunk stringChunk_def)
qed

text \<open>A rune of several bytes that is copied, and the two separators that are escaped.\<close>

lemma parse_rune:
  assumes "128 \<le> codeOf (hd s)" and "0 < runeLen s"
  shows "parseString (take (runeLen s) s @ t) = prepend (take (runeLen s) s) (parseString t)"
proof (cases s)
  case (Cons c r)
  let ?p = "take (runeLen s) s"
  have p: "?p @ t \<noteq> []" "hd (?p @ t) = c" using assms(2) Cons by (auto simp: take_Cons')
  have c: "c \<noteq> backslash" "c \<noteq> quote" using assms(1) Cons quote_neq by auto
  obtain l where l: "?p @ t = c # l" using p by (cases "?p @ t") simp_all
  have "take (runeLen s) (c # l) = ?p" "drop (runeLen s) (c # l) = t"
    using runeLen_le [of s] unfolding l [symmetric] by simp_all
  then have "stringChunk (?p @ t) = Some (?p, t)"
    using runeLen_prefix [OF assms(2), of t] assms Cons c(1) unfolding l by (simp add: stringChunk_def)
  then show ?thesis by (rule parseString_chunk) (use p c(2) in simp)
qed (use assms in \<open>simp add: runeLen_def\<close>)

lemma lineSep_bytes:
  assumes "lineSep s"
  shows "take 3 s = encodeRune (8192 + 32 + codeOf (s ! 2) mod 16) \<and> codeOf (s ! 2) mod 16 < 10 \<and> 8 \<le> codeOf (s ! 2) mod 16"
proof -
  have l: "2 < length s" "codeOf (s ! 0) = 226" "codeOf (s ! 1) = 128" "codeOf (s ! 2) = 168 \<or> codeOf (s ! 2) = 169"
    using assms by (auto simp: lineSep_def byteIn_def)
  then have "s ! 0 = char_of (226 :: nat)" "s ! 1 = char_of (128 :: nat)"
    by (metis char_of_char)+
  moreover have "s ! 2 = char_of (168 :: nat) \<or> s ! 2 = char_of (169 :: nat)" using l(4) by (metis char_of_char)
  moreover have "take 3 s = [s ! 0, s ! 1, s ! 2]" 
    by (rule nth_equalityI) (use l(1) in \<open>auto simp: less_Suc_eq eval_nat_numeral\<close>)
  ultimately show ?thesis using l(4) by (auto simp: encodeRune_def)
qed

lemma parse_lineSep:
  assumes "lineSep s"
  shows "parseString (backslash # ''u202'' @ hexDigit (codeOf (s ! 2) mod 16) # t) = prepend (take 3 s) (parseString t)"
proof -
  let ?d = "codeOf (s ! 2) mod 16"
  note b = lineSep_bytes [OF assms]
  have "parseString (backslash # CHR ''u'' # hexDigit 2 # hexDigit 0 # hexDigit 2 # hexDigit ?d # t) = prepend (encodeRune (8192 + 32 + ?d)) (parseString t)"
    by (rule parse_unicode) (use b in auto)
  then show ?thesis using b by (simp add: hexDigit_chars)
qed

lemma lineSep_runeLen: "lineSep s \<Longrightarrow> runeLen s = 3"
  by (cases s) (auto simp: lineSep_def byteIn_def runeLen_def secondIn_def Let_def)

lemma parseString_escape:
  assumes "validUtf8 s"
  shows "parseString (escape s @ quote # t) = Some (s, t)"
  using assms
proof (induction s rule: escape.induct)
  case (1 s)
  consider "s = []" | "s \<noteq> []" "codeOf (hd s) < 128" | "s \<noteq> []" "128 \<le> codeOf (hd s)" "lineSep s"
    | "s \<noteq> []" "128 \<le> codeOf (hd s)" "\<not> lineSep s" by linarith
  then show ?case
  proof cases
    case 1
    then show ?thesis by (simp add: escape.simps [of "[]"] parseString_quote)
  next
    case 2
    then have "runeLen s = 1" by (cases s) (simp_all add: runeLen_def)
    then have "validUtf8 (tl s)" using 1(5) 2(1) by (subst (asm) validUtf8.simps) (simp add: drop_Suc)
    then have "parseString (escape (tl s) @ quote # t) = Some (tl s, t)" using 1(1) 2 by simp
    then show ?thesis using parse_ascii [OF 2(2)] 2(1) by (subst escape.simps) (simp add: 2(2))
  next
    case 3
    note r = lineSep_runeLen [OF 3(3)]
    then have "validUtf8 (drop 3 s)" using 1(5) 3(1) by (subst (asm) validUtf8.simps) simp
    then have "parseString (escape (drop 3 s) @ quote # t) = Some (drop 3 s, t)" using 1(3) 3 r by simp
    then show ?thesis using parse_lineSep [OF 3(3)] 3 r by (subst escape.simps) simp
  next
    case 4
    then have r: "runeLen s \<noteq> 0" "validUtf8 (drop (runeLen s) s)" using 1(5) by (subst (asm) validUtf8.simps, simp split: if_splits)+
    then have "parseString (escape (drop (runeLen s) s) @ quote # t) = Some (drop (runeLen s) s, t)" using 1(4) 4 by simp
    then show ?thesis using parse_rune [OF 4(2)] 4 r(1) by (subst escape.simps) simp
  qed
qed

end
