(* ===== verification/Json_Value.thy ===== *)
theory Json_Value
  imports Json "HOL-Library.Monad_Syntax"
begin

text \<open>
  JSON values: the text \<open>json.Marshal\<close> writes and the parser behind \<open>json.Unmarshal\<close> and \<open>json.Decoder\<close>. A number is kept as its
  text, an object as its members in their order. The parser recurses with fuel; twice the length of the text and one more is
  enough, as \<open>parseValue_fuel\<close> shows.
\<close>

section \<open>Printing\<close>

datatype json =
    JNull
  | JBool bool
  | JNum string
  | JStr string
  | JArr "json list"
  | JObj "(string \<times> json) list"

definition printString :: "string \<Rightarrow> string" where
  "printString s = quote # escape s @ [quote]"

fun printJson :: "json \<Rightarrow> string" and printElems :: "json list \<Rightarrow> string" and printMembers :: "(string \<times> json) list \<Rightarrow> string" where
  "printJson JNull = ''null''"
| "printJson (JBool b) = (if b then ''true'' else ''false'')"
| "printJson (JNum t) = t"
| "printJson (JStr s) = printString s"
| "printJson (JArr vs) = CHR ''['' # printElems vs @ '']''"
| "printJson (JObj ms) = CHR ''{'' # printMembers ms @ ''}''"
| "printElems [] = []"
| "printElems (v # vs) = printJson v @ (if vs = [] then [] else CHR '','' # printElems vs)"
| "printMembers [] = []"
| "printMembers ((k, v) # ms) = printString k @ CHR '':'' # printJson v @ (if ms = [] then [] else CHR '','' # printMembers ms)"

section \<open>Parsing\<close>

definition isWs :: "char \<Rightarrow> bool" where
  "isWs c = (codeOf c = 32 \<or> codeOf c = 9 \<or> codeOf c = 10 \<or> codeOf c = 13)"

definition skipWs :: "string \<Rightarrow> string" where
  "skipWs = dropWhile isWs"

definition isDigit :: "char \<Rightarrow> bool" where
  "isDigit c = (48 \<le> codeOf c \<and> codeOf c \<le> 57)"

text \<open>What follows a character the text must go on with, after white space.\<close>

definition expect :: "char \<Rightarrow> string \<Rightarrow> string option" where
  "expect c s = (case skipWs s of [] \<Rightarrow> None | x # r \<Rightarrow> if x = c then Some r else None)"

definition digits1 :: "string \<Rightarrow> (string \<times> string) option" where
  "digits1 s = (if takeWhile isDigit s = [] then None else Some (takeWhile isDigit s, dropWhile isDigit s))"

definition parseSign :: "string \<Rightarrow> string \<Rightarrow> string \<times> string" where
  "parseSign signs s = (case s of [] \<Rightarrow> ([], s) | c # r \<Rightarrow> if c \<in> set signs then ([c], r) else ([], s))"

definition parseInt :: "string \<Rightarrow> (string \<times> string) option" where
  "parseInt s = (case s of [] \<Rightarrow> None | c # r \<Rightarrow> if c = CHR ''0'' then Some ([c], r) else digits1 s)"

definition parseFrac :: "string \<Rightarrow> (string \<times> string) option" where
  "parseFrac s = (case s of [] \<Rightarrow> Some ([], s)
    | c # r \<Rightarrow> if c = CHR ''.'' then map_option (\<lambda>(ds, t). (c # ds, t)) (digits1 r) else Some ([], s))"

definition parseExp :: "string \<Rightarrow> (string \<times> string) option" where
  "parseExp s = (case s of [] \<Rightarrow> Some ([], s)
    | c # r \<Rightarrow> if c = CHR ''e'' \<or> c = CHR ''E''
        then (let (sg, r) = parseSign ''+-'' r in map_option (\<lambda>(ds, t). (c # sg @ ds, t)) (digits1 r))
        else Some ([], s))"

definition parseNumber :: "string \<Rightarrow> (string \<times> string) option" where
  "parseNumber s = (let (sg, s) = parseSign ''-'' s in do {
     (n, s) \<leftarrow> parseInt s;
     (f, s) \<leftarrow> parseFrac s;
     (e, s) \<leftarrow> parseExp s;
     Some (sg @ n @ f @ e, s) })"

definition parseScalar :: "string \<Rightarrow> (json \<times> string) option" where
  "parseScalar s =
     (if hasPrefix ''null'' s then Some (JNull, drop 4 s)
      else if hasPrefix ''true'' s then Some (JBool True, drop 4 s)
      else if hasPrefix ''false'' s then Some (JBool False, drop 5 s)
      else map_option (\<lambda>(t, r). (JNum t, r)) (parseNumber s))"

definition parseKey :: "string \<Rightarrow> (string \<times> string) option" where
  "parseKey s = do {
     r \<leftarrow> expect quote s;
     (k, r) \<leftarrow> parseString r;
     r \<leftarrow> expect CHR '':'' r;
     Some (k, r) }"

fun parseValue :: "nat \<Rightarrow> nat \<Rightarrow> string \<Rightarrow> (json \<times> string) option"
  and parseElems :: "nat \<Rightarrow> nat \<Rightarrow> string \<Rightarrow> (json list \<times> string) option"
  and parseMembers :: "nat \<Rightarrow> nat \<Rightarrow> string \<Rightarrow> ((string \<times> json) list \<times> string) option" where
  "parseValue 0 d s = None"
| "parseValue (Suc n) d s = (case skipWs s of
      [] \<Rightarrow> None
    | c # r \<Rightarrow>
        if c = quote then map_option (\<lambda>(x, t). (JStr x, t)) (parseString r)
        else if c = CHR ''['' then
          (if d = 0 then None
           else case expect CHR '']'' r of
             Some t \<Rightarrow> Some (JArr [], t)
           | None \<Rightarrow> map_option (\<lambda>(vs, t). (JArr vs, t)) (parseElems n (d - 1) r))
        else if c = CHR ''{'' then
          (if d = 0 then None
           else case expect CHR ''}'' r of
             Some t \<Rightarrow> Some (JObj [], t)
           | None \<Rightarrow> map_option (\<lambda>(ms, t). (JObj ms, t)) (parseMembers n (d - 1) r))
        else parseScalar (c # r))"
| "parseElems 0 d s = None"
| "parseElems (Suc n) d s = (case parseValue n d s of
      None \<Rightarrow> None
    | Some (v, r) \<Rightarrow> (case expect CHR '','' r of
        Some t \<Rightarrow> map_option (\<lambda>(vs, t). (v # vs, t)) (parseElems n d t)
      | None \<Rightarrow> map_option (\<lambda>t. ([v], t)) (expect CHR '']'' r)))"
| "parseMembers 0 d s = None"
| "parseMembers (Suc n) d s = (case parseKey s of
      None \<Rightarrow> None
    | Some (k, r) \<Rightarrow> (case parseValue n d r of
        None \<Rightarrow> None
      | Some (v, r) \<Rightarrow> (case expect CHR '','' r of
          Some t \<Rightarrow> map_option (\<lambda>(ms, t). ((k, v) # ms, t)) (parseMembers n d t)
        | None \<Rightarrow> map_option (\<lambda>t. ([(k, v)], t)) (expect CHR ''}'' r))))"

text \<open>The first value of a text, as the stream decoder reads it, and the value of a whole text. Nesting is limited to 10000.\<close>

definition firstValue :: "string \<Rightarrow> (json \<times> string) option" where
  "firstValue s = parseValue (2 * length s + 1) 10000 s"

definition parseJson :: "string \<Rightarrow> json option" where
  "parseJson s = (case firstValue s of None \<Rightarrow> None | Some (v, r) \<Rightarrow> if skipWs r = [] then Some v else None)"

section \<open>The parser consumes text, and its fuel is enough\<close>

lemma skipWs_le: "length (skipWs s) \<le> length s"
  by (simp add: skipWs_def length_dropWhile_le)

lemma expect_shorter: "expect c s = Some r \<Longrightarrow> length r < length s"
  using skipWs_le [of s] by (auto simp: expect_def split: list.splits if_splits)

lemma parseString_shorter: "parseString s = Some (x, r) \<Longrightarrow> length r < length s"
proof (induction s arbitrary: x r rule: parseString.induct)
  case (1 s)
  show ?case
  proof (cases "s \<noteq> [] \<and> hd s = quote")
    case True
    then show ?thesis using 1(2) by (subst (asm) parseString.simps) auto
  next
    case False
    then obtain cs t x' where "stringChunk s = Some (cs, t)" "parseString t = Some (x', r)"
      using 1(2) by (subst (asm) (1) parseString.simps) (auto split: option.splits prod.splits if_splits)
    then show ?thesis using 1(1) False stringChunk_shorter [of s cs t] by fastforce
  qed
qed

lemma digits1_shorter: "digits1 s = Some (ds, r) \<Longrightarrow> length r < length s"
proof -
  assume "digits1 s = Some (ds, r)"
  then have "takeWhile isDigit s \<noteq> []" "r = dropWhile isDigit s" by (auto simp: digits1_def split: if_splits)
  then show ?thesis using takeWhile_dropWhile_id [of isDigit s] by (metis length_append add.commute length_greater_0_conv less_add_same_cancel1)
qed

lemma parseSign_le: "parseSign signs s = (sg, r) \<Longrightarrow> length r \<le> length s"
  by (auto simp: parseSign_def split: list.splits if_splits)

lemma parseNumber_shorter: "parseNumber s = Some (t, r) \<Longrightarrow> length r < length s"
proof -
  assume "parseNumber s = Some (t, r)"
  then obtain sg s1 n s2 f s3 e where p: "parseSign ''-'' s = (sg, s1)" "parseInt s1 = Some (n, s2)" "parseFrac s2 = Some (f, s3)" "parseExp s3 = Some (e, r)"
    by (auto simp: parseNumber_def Let_def bind_eq_Some_conv split: prod.splits)
  have "length s2 < length s1" using p(2) by (auto simp: parseInt_def dest: digits1_shorter split: list.splits if_splits)
  moreover have "length s3 \<le> length s2" using p(3) by (auto simp: parseFrac_def dest!: digits1_shorter split: list.splits if_splits)
  moreover have "length r \<le> length s3"
    using p(4) by (auto simp: parseExp_def Let_def dest!: digits1_shorter parseSign_le split: list.splits if_splits prod.splits)
  ultimately show ?thesis using parseSign_le [OF p(1)] by simp
qed

lemma hasPrefix_length: "hasPrefix p s \<Longrightarrow> length p \<le> length s"
  unfolding hasPrefix_def by (metis length_take min.cobounded1 nat_le_linear take_all)

lemma parseScalar_shorter: "parseScalar s = Some (v, r) \<Longrightarrow> length r < length s"
  by (auto simp: parseScalar_def dest: parseNumber_shorter dest!: hasPrefix_length split: if_splits)

lemma parseKey_shorter: "parseKey s = Some (k, r) \<Longrightarrow> length r < length s"
  by (auto simp: parseKey_def bind_eq_Some_conv dest!: expect_shorter parseString_shorter)

lemma parse_shorter:
  "(parseValue n d s = Some (v, r) \<longrightarrow> length r < length s) \<and> (parseElems n d s = Some (vs, r) \<longrightarrow> length r < length s)
   \<and> (parseMembers n d s = Some (ms, r) \<longrightarrow> length r < length s)"
proof (induction n arbitrary: d s v vs ms r)
  case (Suc n)
  note val = Suc [THEN conjunct1, rule_format]
  note elems = Suc [THEN conjunct2, THEN conjunct1, rule_format]
  note mems = Suc [THEN conjunct2, THEN conjunct2, rule_format]
  have "length r < length s" if p: "parseValue (Suc n) d s = Some (v, r)"
  proof -
    obtain c t where c: "skipWs s = c # t" using p by (auto split: list.splits)
    have "length r < length (skipWs s)"
      using p unfolding c
      by (auto simp: c dest: parseString_shorter expect_shorter elems mems parseScalar_shorter less_SucI split: if_splits option.splits)
    then show ?thesis using skipWs_le [of s] by linarith
  qed
  moreover have "length r < length s" if p: "parseElems (Suc n) d s = Some (vs, r)"
  proof -
    obtain v t where v: "parseValue n d s = Some (v, t)" using p by (auto split: option.splits)
    have "length r < length t"
      using p v by (auto dest: expect_shorter dest!: elems split: option.splits)
    then show ?thesis using val [OF v] by linarith
  qed
  moreover have "length r < length s" if p: "parseMembers (Suc n) d s = Some (ms, r)"
  proof -
    obtain k a v t where e: "parseKey s = Some (k, a)" "parseValue n d a = Some (v, t)" using p by (auto split: option.splits)
    have "length r < length t"
      using p e by (auto dest: expect_shorter dest!: mems split: option.splits)
    then show ?thesis using parseKey_shorter [OF e(1)] val [OF e(2)] by linarith
  qed
  ultimately show ?case by blast
qed simp

lemma parse_fuel:
  "(2 * length s + 1 \<le> n \<and> 2 * length s + 1 \<le> m \<longrightarrow> parseValue n d s = parseValue m d s)
   \<and> (2 * length s + 2 \<le> n \<and> 2 * length s + 2 \<le> m \<longrightarrow> parseElems n d s = parseElems m d s)
   \<and> (2 * length s + 1 \<le> n \<and> 2 * length s + 1 \<le> m \<longrightarrow> parseMembers n d s = parseMembers m d s)"
proof (induction n arbitrary: m d s)
  case (Suc n)
  note val = Suc [THEN conjunct1, rule_format]
  note elems = Suc [THEN conjunct2, THEN conjunct1, rule_format]
  note mems = Suc [THEN conjunct2, THEN conjunct2, rule_format]
  have "parseValue (Suc n) d s = parseValue m d s" if l: "2 * length s + 1 \<le> Suc n" "2 * length s + 1 \<le> m"
  proof -
    obtain m' where m: "m = Suc m'" using l(2) by (cases m) auto
    have "parseElems n (d - 1) r = parseElems m' (d - 1) r \<and> parseMembers n (d - 1) r = parseMembers m' (d - 1) r" if "skipWs s = c # r" for c r
    proof -
      have "length r < length s" using skipWs_le [of s] that by simp
      then show ?thesis using elems [of r m' "d - 1"] mems [of r m' "d - 1"] l m by simp
    qed
    then show ?thesis unfolding m by (auto split: list.splits option.splits)
  qed
  moreover have "parseElems (Suc n) d s = parseElems m d s" if l: "2 * length s + 2 \<le> Suc n" "2 * length s + 2 \<le> m"
  proof -
    obtain m' where m: "m = Suc m'" using l(2) by (cases m) auto
    have v: "parseValue n d s = parseValue m' d s" using val [of s m' d] l m by simp
    have "parseElems n d t = parseElems m' d t" if "parseValue m' d s = Some (v, r)" "expect c r = Some t" for v r c t
    proof -
      have "length t < length s" using parse_shorter [THEN conjunct1, rule_format, OF that(1)] expect_shorter [OF that(2)] by simp
      then show ?thesis using elems [of t m' d] l m by simp
    qed
    then show ?thesis unfolding m by (auto simp: v split: option.splits)
  qed
  moreover have "parseMembers (Suc n) d s = parseMembers m d s" if l: "2 * length s + 1 \<le> Suc n" "2 * length s + 1 \<le> m"
  proof -
    obtain m' where m: "m = Suc m'" using l(2) by (cases m) auto
    have v: "parseValue n d r = parseValue m' d r" if "parseKey s = Some (k, r)" for k r
      using val [of r m' d] parseKey_shorter [OF that] l m by simp
    have "parseMembers n d t = parseMembers m' d t"
      if "parseKey s = Some (k, a)" "parseValue m' d a = Some (v, r)" "expect c r = Some t" for k a v r c t
    proof -
      have "length t < length s"
        using parseKey_shorter [OF that(1)] parse_shorter [THEN conjunct1, rule_format, OF that(2)] expect_shorter [OF that(3)] by simp
      then show ?thesis using mems [of t m' d] l m by simp
    qed
    then show ?thesis unfolding m by (auto simp: v split: option.splits)
  qed
  ultimately show ?case by blast
qed simp

text \<open>More fuel than \<open>firstValue\<close> gives changes nothing.\<close>

lemma parseValue_fuel: "2 * length s + 1 \<le> n \<Longrightarrow> parseValue n d s = parseValue (2 * length s + 1) d s"
  using parse_fuel [THEN conjunct1, rule_format, of s n "2 * length s + 1" d] by simp

section \<open>A printed value is read back\<close>

text \<open>Numbers are integers, as in all messages of the program.\<close>

fun jsonOk :: "json \<Rightarrow> bool" where
  "jsonOk JNull \<longleftrightarrow> True"
| "jsonOk (JBool b) \<longleftrightarrow> True"
| "jsonOk (JNum t) \<longleftrightarrow> (\<exists>i. t = Itoa i)"
| "jsonOk (JStr s) \<longleftrightarrow> validUtf8 s"
| "jsonOk (JArr vs) \<longleftrightarrow> (\<forall>v \<in> set vs. jsonOk v)"
| "jsonOk (JObj ms) \<longleftrightarrow> (\<forall>(k, v) \<in> set ms. validUtf8 k \<and> jsonOk v)"

fun depthOf :: "json \<Rightarrow> nat" and depthElems :: "json list \<Rightarrow> nat" and depthMembers :: "(string \<times> json) list \<Rightarrow> nat" where
  "depthOf (JArr vs) = Suc (depthElems vs)"
| "depthOf (JObj ms) = Suc (depthMembers ms)"
| "depthOf v = 0"
| "depthElems [] = 0"
| "depthElems (v # vs) = max (depthOf v) (depthElems vs)"
| "depthMembers [] = 0"
| "depthMembers ((k, v) # ms) = max (depthOf v) (depthMembers ms)"

text \<open>What may follow a number.\<close>

definition numEnd :: "string \<Rightarrow> bool" where
  "numEnd t = (case t of [] \<Rightarrow> True | c # r \<Rightarrow> \<not> isDigit c \<and> c \<notin> {CHR ''.'', CHR ''e'', CHR ''E''})"

lemma natString_isDigit: "list_all isDigit (natString n)"
  using natString_digits by (auto simp: list_all_iff isDigit_def)

lemma natString_zero: "hd (natString n) = CHR ''0'' \<Longrightarrow> n = 0"
proof (induction n rule: natString.induct)
  case (1 n)
  show ?case
  proof (cases "n < 10")
    case True
    then have "char_of (48 + n) = CHR ''0''" using 1(2) by (subst (asm) natString.simps) simp
    then have "48 + n = (of_char CHR ''0'' :: nat)" using of_char_digit [OF True] by metis
    then show ?thesis by simp
  next
    case False
    then have "hd (natString (n div 10)) = CHR ''0''" using 1(2) natString_nonempty by (subst (asm) (1) natString.simps) (simp add: hd_append)
    then show ?thesis using 1(1) False by simp
  qed
qed

lemma natString_0: "natString 0 = ''0''"
  by code_simp

lemma takeWhile_digits:
  assumes "list_all isDigit ds" and "numEnd t"
  shows "takeWhile isDigit (ds @ t) = ds" and "dropWhile isDigit (ds @ t) = t"
proof -
  have "takeWhile isDigit t = []" "dropWhile isDigit t = t" using assms(2) by (cases t; simp add: numEnd_def)+
  then show "takeWhile isDigit (ds @ t) = ds" and "dropWhile isDigit (ds @ t) = t"
    using assms(1) by (simp_all add: list_all_iff takeWhile_append dropWhile_append)
qed

lemma parseInt_natString:
  assumes "numEnd t"
  shows "parseInt (natString n @ t) = Some (natString n, t)"
proof (cases "n = 0")
  case True
  then show ?thesis by (simp add: natString_0 parseInt_def)
next
  case False
  obtain c r where c: "natString n = c # r" using natString_nonempty by (cases "natString n") auto
  then have "c \<noteq> CHR ''0''" using natString_zero [of n] False by auto
  then have "parseInt (natString n @ t) = digits1 (natString n @ t)" by (simp add: parseInt_def c)
  then show ?thesis using takeWhile_digits [OF natString_isDigit assms] natString_nonempty by (simp add: digits1_def)
qed

lemma parseFrac_end: "numEnd t \<Longrightarrow> parseFrac t = Some ([], t)"
  and parseExp_end: "numEnd t \<Longrightarrow> parseExp t = Some ([], t)"
  by (auto simp: numEnd_def parseFrac_def parseExp_def split: list.splits)

lemma parseNumber_Itoa:
  assumes "numEnd t"
  shows "parseNumber (Itoa i @ t) = Some (Itoa i, t)"
proof (cases "i < 0")
  case True
  then show ?thesis using parseInt_natString [OF assms, of "nat (- i)"] parseFrac_end [OF assms] parseExp_end [OF assms]
    by (simp add: parseNumber_def Itoa_def parseSign_def)
next
  case False
  obtain c r where c: "natString (nat i) = c # r" using natString_nonempty by (cases "natString (nat i)") auto
  then have "parseSign ''-'' (natString (nat i) @ t) = ([], natString (nat i) @ t)"
    using natString_no_minus [of "nat i"] by (auto simp: parseSign_def)
  then show ?thesis using False parseInt_natString [OF assms, of "nat i"] parseFrac_end [OF assms] parseExp_end [OF assms]
    by (simp add: parseNumber_def Itoa_def)
qed

lemma Itoa_hd: "Itoa i \<noteq> [] \<and> (isDigit (hd (Itoa i)) \<or> hd (Itoa i) = CHR ''-'')"
proof -
  have "isDigit (hd (natString n))" for n using natString_isDigit [of n] natString_nonempty [of n] by (cases "natString n") auto
  then show ?thesis using natString_nonempty by (auto simp: Itoa_def)
qed

text \<open>A printed value begins with none of these.\<close>

definition startOk :: "char \<Rightarrow> bool" where
  "startOk c = (\<not> isWs c \<and> c \<noteq> CHR '']'' \<and> c \<noteq> CHR ''}'')"

lemma printJson_start: "jsonOk v \<Longrightarrow> printJson v \<noteq> [] \<and> startOk (hd (printJson v))"
proof (cases v)
  case (JNum t)
  moreover assume "jsonOk v"
  ultimately obtain i where "t = Itoa i" by auto
  then show ?thesis using Itoa_hd [of i] JNum by (auto simp: startOk_def isDigit_def isWs_def)
qed (auto simp: startOk_def isWs_def printString_def quote_def)

lemma skipWs_start: "s \<noteq> [] \<Longrightarrow> \<not> isWs (hd s) \<Longrightarrow> skipWs s = s"
  by (cases s) (simp_all add: skipWs_def)

lemma expect_hit: "\<not> isWs c \<Longrightarrow> expect c (c # t) = Some t"
  by (simp add: expect_def skipWs_def)

lemma expect_miss: "s \<noteq> [] \<Longrightarrow> \<not> isWs (hd s) \<Longrightarrow> hd s \<noteq> c \<Longrightarrow> expect c s = None"
  by (cases s) (simp_all add: expect_def skipWs_def)

lemma not_ws: "\<not> isWs quote" "\<not> isWs CHR '','' " "\<not> isWs CHR '']''" "\<not> isWs CHR ''}''" "\<not> isWs CHR '':''"
  by (simp_all add: isWs_def quote_def)

lemma numEnds: "numEnd []" "numEnd (CHR '','' # t)" "numEnd (CHR '']'' # t)" "numEnd (CHR ''}'' # t)"
  by (simp_all add: numEnd_def isDigit_def)

lemma parseKey_print: "validUtf8 k \<Longrightarrow> parseKey (printString k @ CHR '':'' # t) = Some (k, t)"
  by (simp add: parseKey_def printString_def expect_hit not_ws parseString_escape)

lemma parseValue_number:
  assumes "numEnd t" and "0 < n"
  shows "parseValue n d (Itoa i @ t) = Some (JNum (Itoa i), t)"
proof -
  obtain c r where c: "Itoa i = c # r" using Itoa_hd [of i] by (cases "Itoa i") auto
  have d: "isDigit c \<or> c = CHR ''-''" using Itoa_hd [of i] c by simp
  then have "skipWs (Itoa i @ t) = c # r @ t" by (auto simp: c skipWs_def isWs_def isDigit_def)
  moreover have "c \<noteq> quote" "c \<noteq> CHR ''[''" "c \<noteq> CHR ''{''" "c \<noteq> CHR ''n''" "c \<noteq> CHR ''t''" "c \<noteq> CHR ''f''"
    using d by (auto simp: isDigit_def quote_def)
  ultimately show ?thesis
    using parseNumber_Itoa [OF assms(1), of i] assms(2) by (cases n) (simp_all add: c parseScalar_def hasPrefix_def)
qed

lemma parseValue_string:
  assumes "validUtf8 s" and "0 < n"
  shows "parseValue n d (printString s @ t) = Some (JStr s, t)"
  using assms parseString_escape [OF assms(1), of t] not_ws(1) by (cases n) (simp_all add: printString_def skipWs_def)

lemma parseValue_array:
  assumes "parseElems n d r = Some (vs, t)" and "r \<noteq> []" and "startOk (hd r)"
  shows "parseValue (Suc n) (Suc d) (CHR ''['' # r) = Some (JArr vs, t)"
  using assms expect_miss [of r "CHR '']''"] by (simp add: startOk_def skipWs_def isWs_def quote_def)

lemma parseValue_object:
  assumes "parseMembers n d r = Some (ms, t)" and "r \<noteq> []" and "startOk (hd r)"
  shows "parseValue (Suc n) (Suc d) (CHR ''{'' # r) = Some (JObj ms, t)"
  using assms expect_miss [of r "CHR ''}''"] by (simp add: startOk_def skipWs_def isWs_def quote_def)

lemma printElems_start:
  assumes "vs \<noteq> []" and "\<forall>v \<in> set vs. jsonOk v"
  shows "printElems vs @ t \<noteq> [] \<and> startOk (hd (printElems vs @ t))"
  using assms printJson_start by (cases vs) (auto simp: hd_append)

lemma printMembers_start: "ms \<noteq> [] \<Longrightarrow> printMembers ms @ t \<noteq> [] \<and> startOk (hd (printMembers ms @ t))"
  by (cases ms) (auto simp: printString_def startOk_def not_ws quote_def isWs_def)

lemma closing: "expect CHR '','' (CHR '']'' # t) = None" "expect CHR '','' (CHR ''}'' # t) = None"
  "expect CHR '']'' (CHR '']'' # t) = Some t" "expect CHR ''}'' (CHR ''}'' # t) = Some t" "expect CHR '','' (CHR '','' # t) = Some t"
  by (simp_all add: expect_def skipWs_def isWs_def)

lemma parseValue_print:
  shows "jsonOk v \<Longrightarrow> depthOf v \<le> d \<Longrightarrow> numEnd t \<Longrightarrow> 2 * length (printJson v @ t) + 1 \<le> n \<Longrightarrow> parseValue n d (printJson v @ t) = Some (v, t)"
    and "vs \<noteq> [] \<Longrightarrow> (\<forall>v \<in> set vs. jsonOk v) \<Longrightarrow> depthElems vs \<le> d \<Longrightarrow> 2 * length (printElems vs @ CHR '']'' # t) + 2 \<le> n
      \<Longrightarrow> parseElems n d (printElems vs @ CHR '']'' # t) = Some (vs, t)"
    and "ms \<noteq> [] \<Longrightarrow> (\<forall>(k, v) \<in> set ms. validUtf8 k \<and> jsonOk v) \<Longrightarrow> depthMembers ms \<le> d \<Longrightarrow> 2 * length (printMembers ms @ CHR ''}'' # t) + 1 \<le> n
      \<Longrightarrow> parseMembers n d (printMembers ms @ CHR ''}'' # t) = Some (ms, t)"
proof (induction v and vs and ms arbitrary: d t n and d t n and d t n rule: printJson_printElems_printMembers.induct)
  case 1
  then show ?case by (cases n) (simp_all add: skipWs_def isWs_def quote_def parseScalar_def hasPrefix_def)
next
  case (2 b)
  then show ?case by (cases n; cases b) (simp_all add: skipWs_def isWs_def quote_def parseScalar_def hasPrefix_def)
next
  case (3 x)
  then show ?case using parseValue_number [of t n] by auto
next
  case (4 s)
  then show ?case using parseValue_string [of s n d t] by simp
next
  case (5 vs)
  then obtain m e where m: "n = Suc m" "d = Suc e" by (cases n; cases d) auto
  show ?case
  proof (cases "vs = []")
    case True
    then show ?thesis by (simp add: m closing skipWs_def isWs_def quote_def)
  next
    case False
    then have "parseElems m e (printElems vs @ CHR '']'' # t) = Some (vs, t)" using 5 m by simp
    then show ?thesis using parseValue_array printElems_start [OF False, of "CHR '']'' # t"] 5(2) m by simp
  qed
next
  case (6 ms)
  then obtain m e where m: "n = Suc m" "d = Suc e" by (cases n; cases d) auto
  show ?case
  proof (cases "ms = []")
    case True
    then show ?thesis by (simp add: m closing skipWs_def isWs_def quote_def)
  next
    case False
    then have "parseMembers m e (printMembers ms @ CHR ''}'' # t) = Some (ms, t)" using 6 m by simp
    then show ?thesis using parseValue_object printMembers_start [OF False, of "CHR ''}'' # t"] m by simp
  qed
next
  case (8 v vs)
  then obtain m where m: "n = Suc m" by (cases n) auto
  show ?case
  proof (cases "vs = []")
    case True
    then have "parseValue m d (printJson v @ CHR '']'' # t) = Some (v, CHR '']'' # t)" using 8 m by (simp add: numEnds)
    then show ?thesis using True by (simp add: m closing)
  next
    case False
    let ?r = "CHR '','' # printElems vs @ CHR '']'' # t"
    have "parseValue m d (printJson v @ ?r) = Some (v, ?r)" using 8 m False by (simp add: numEnds)
    moreover have "parseElems m d (printElems vs @ CHR '']'' # t) = Some (vs, t)" using 8 m False by simp
    ultimately show ?thesis using False by (simp add: m closing)
  qed
next
  case (10 k v ms)
  then obtain m where m: "n = Suc m" by (cases n) auto
  have k: "parseKey (printString k @ CHR '':'' # r) = Some (k, r)" for r using 10(4) parseKey_print by simp
  show ?case
  proof (cases "ms = []")
    case True
    then have "parseValue m d (printJson v @ CHR ''}'' # t) = Some (v, CHR ''}'' # t)" using 10 m by (simp add: numEnds)
    then show ?thesis using True by (simp add: m k closing)
  next
    case False
    let ?r = "CHR '','' # printMembers ms @ CHR ''}'' # t"
    have "parseValue m d (printJson v @ ?r) = Some (v, ?r)" using 10 m False by (simp add: numEnds)
    moreover have "parseMembers m d (printMembers ms @ CHR ''}'' # t) = Some (ms, t)" using 10 m False by simp
    ultimately show ?thesis using False by (simp add: m k closing)
  qed
qed simp_all

lemma parseJson_print: "jsonOk v \<Longrightarrow> depthOf v \<le> 10000 \<Longrightarrow> parseJson (printJson v) = Some v"
  using parseValue_print(1) [of v 10000 "[]" "2 * length (printJson v) + 1"]
  by (simp add: parseJson_def firstValue_def numEnds skipWs_def)

lemma firstValue_print:
  assumes "jsonOk v" and "depthOf v \<le> 10000" and "numEnd t"
  shows "firstValue (printJson v @ t) = Some (v, t)"
  using parseValue_print(1) [OF assms, of "2 * length (printJson v @ t) + 1"] by (simp add: firstValue_def)

end
