(* ===== verification/Json_Messages.thy ===== *)
theory Json_Messages
  imports Json_Value
begin

text \<open>
  The messages of the Kafka topics as JSON (internal/kafka/messages.go): \<open>Encode\<close> and the decoders, with the rules of encoding/json
  for structures. Formatting and parsing a time are the parameters \<open>fmtTime\<close> and \<open>parseTime\<close>, which see the text of the time.
\<close>

section \<open>Structures\<close>

text \<open>
  A member of an object is stored in the field of that name or, if there is none, in a field that has the name up to case;
  members without a field are skipped, \<open>null\<close> leaves the field as it is, and a value of another type is an error.
\<close>

definition upperChar :: "char \<Rightarrow> char" where
  "upperChar c = (if 97 \<le> codeOf c \<and> codeOf c \<le> 122 then char_of (codeOf c - 32) else c)"

text \<open>Two characters beyond ASCII are the same as S and K up to case: the long s and the Kelvin sign.\<close>

definition foldName :: "string \<Rightarrow> string" where
  "foldName k = map upperChar (replaceAll [(encodeRune 383, ''S''), (encodeRune 8490, ''K'')] k)"

type_synonym 'r structFields = "(string \<times> (json \<Rightarrow> 'r \<Rightarrow> 'r option)) list"

definition fieldFor :: "'r structFields \<Rightarrow> string \<Rightarrow> (json \<Rightarrow> 'r \<Rightarrow> 'r option) option" where
  "fieldFor fs k = (case map_of fs k of
      Some f \<Rightarrow> Some f
    | None \<Rightarrow> map_of (map (\<lambda>(n, f). (foldName n, f)) fs) (foldName k))"

fun decodeMembers :: "'r structFields \<Rightarrow> (string \<times> json) list \<Rightarrow> 'r \<Rightarrow> 'r option" where
  "decodeMembers fs [] r = Some r"
| "decodeMembers fs ((k, v) # ms) r = (case fieldFor fs k of
      None \<Rightarrow> decodeMembers fs ms r
    | Some f \<Rightarrow> Option.bind (f v r) (decodeMembers fs ms))"

definition decodeStruct :: "'r structFields \<Rightarrow> json \<Rightarrow> 'r \<Rightarrow> 'r option" where
  "decodeStruct fs v r = (case v of JNull \<Rightarrow> Some r | JObj ms \<Rightarrow> decodeMembers fs ms r | _ \<Rightarrow> None)"

definition strDec :: "(string \<Rightarrow> 'r \<Rightarrow> 'r) \<Rightarrow> json \<Rightarrow> 'r \<Rightarrow> 'r option" where
  "strDec upd v r = (case v of JNull \<Rightarrow> Some r | JStr s \<Rightarrow> Some (upd s r) | _ \<Rightarrow> None)"

definition intDec :: "(int \<Rightarrow> 'r \<Rightarrow> 'r) \<Rightarrow> json \<Rightarrow> 'r \<Rightarrow> 'r option" where
  "intDec upd v r = (case v of JNull \<Rightarrow> Some r | JNum t \<Rightarrow> map_option (\<lambda>i. upd i r) (Atoi t) | _ \<Rightarrow> None)"

definition u32Dec :: "(u32 \<Rightarrow> 'r \<Rightarrow> 'r) \<Rightarrow> json \<Rightarrow> 'r \<Rightarrow> 'r option" where
  "u32Dec upd v r = (case v of
      JNull \<Rightarrow> Some r
    | JNum t \<Rightarrow> (case digitsVal t of None \<Rightarrow> None | Some n \<Rightarrow> if n < 2 ^ 32 then Some (upd (of_nat n) r) else None)
    | _ \<Rightarrow> None)"

text \<open>
  A \<open>null\<close> among the strings of an array leaves what the slice held at that place, \<open>old i\<close>: the empty string, unless the text
  repeats the key.
\<close>

fun elemsDec :: "(nat \<Rightarrow> string) \<Rightarrow> nat \<Rightarrow> json list \<Rightarrow> string list option" where
  "elemsDec old i [] = Some []"
| "elemsDec old i (JStr s # vs) = map_option (Cons s) (elemsDec old (Suc i) vs)"
| "elemsDec old i (JNull # vs) = map_option (Cons (old i)) (elemsDec old (Suc i) vs)"
| "elemsDec old i (v # vs) = None"

definition strsDec :: "(nat \<Rightarrow> string) \<Rightarrow> (string list \<Rightarrow> 'r \<Rightarrow> 'r) \<Rightarrow> json \<Rightarrow> 'r \<Rightarrow> 'r option" where
  "strsDec old upd v r = (case v of
      JNull \<Rightarrow> Some (upd [] r)
    | JArr vs \<Rightarrow> map_option (\<lambda>ss. upd ss r) (elemsDec old 0 vs)
    | _ \<Rightarrow> None)"

definition timeDec :: "(string \<Rightarrow> 't option) \<Rightarrow> ('t \<Rightarrow> 'r \<Rightarrow> 'r) \<Rightarrow> json \<Rightarrow> 'r \<Rightarrow> 'r option" where
  "timeDec parseTime upd v r = (case v of JNull \<Rightarrow> Some r | JStr s \<Rightarrow> map_option (\<lambda>t. upd t r) (parseTime s) | _ \<Rightarrow> None)"

section \<open>Messages\<close>

definition omitStr :: "string \<Rightarrow> string \<Rightarrow> (string \<times> json) list" where
  "omitStr name s = (if s = [] then [] else [(name, JStr s)])"

definition omitInt :: "string \<Rightarrow> int \<Rightarrow> (string \<times> json) list" where
  "omitInt name i = (if i = 0 then [] else [(name, JNum (Itoa i))])"

definition omitStrs :: "string \<Rightarrow> string list \<Rightarrow> (string \<times> json) list" where
  "omitStrs name ss = (if ss = [] then [] else [(name, JArr (map JStr ss))])"

definition jsonSubtree :: "SubtreeMessage \<Rightarrow> json" where
  "jsonSubtree m = JObj ([(''hash'', JStr (sm_Hash m)), (''dataHubUrl'', JStr (sm_DataHubURL m)), (''peerId'', JStr (sm_PeerID m)),
     (''clientName'', JStr (sm_ClientName m))] @ omitInt ''attemptCount'' (sm_AttemptCount m))"

definition subtreeFields :: "SubtreeMessage structFields" where
  "subtreeFields = [(''hash'', strDec (\<lambda>s r. r\<lparr>sm_Hash := s\<rparr>)), (''dataHubUrl'', strDec (\<lambda>s r. r\<lparr>sm_DataHubURL := s\<rparr>)),
     (''peerId'', strDec (\<lambda>s r. r\<lparr>sm_PeerID := s\<rparr>)), (''clientName'', strDec (\<lambda>s r. r\<lparr>sm_ClientName := s\<rparr>)),
     (''attemptCount'', intDec (\<lambda>i r. r\<lparr>sm_AttemptCount := i\<rparr>))]"

definition jsonBlock :: "BlockMessage \<Rightarrow> json" where
  "jsonBlock m = JObj [(''hash'', JStr (bm_Hash m)), (''height'', JNum (Itoa (uint (bm_Height m)))), (''header'', JStr (bm_Header m)),
     (''coinbase'', JStr (bm_Coinbase m)), (''dataHubUrl'', JStr (bm_DataHubURL m)), (''peerId'', JStr (bm_PeerID m)),
     (''clientName'', JStr (bm_ClientName m))]"

definition blockFields :: "BlockMessage structFields" where
  "blockFields = [(''hash'', strDec (\<lambda>s r. r\<lparr>bm_Hash := s\<rparr>)), (''height'', u32Dec (\<lambda>h r. r\<lparr>bm_Height := h\<rparr>)),
     (''header'', strDec (\<lambda>s r. r\<lparr>bm_Header := s\<rparr>)), (''coinbase'', strDec (\<lambda>s r. r\<lparr>bm_Coinbase := s\<rparr>)),
     (''dataHubUrl'', strDec (\<lambda>s r. r\<lparr>bm_DataHubURL := s\<rparr>)), (''peerId'', strDec (\<lambda>s r. r\<lparr>bm_PeerID := s\<rparr>)),
     (''clientName'', strDec (\<lambda>s r. r\<lparr>bm_ClientName := s\<rparr>))]"

definition jsonWork :: "SubtreeWorkMessage \<Rightarrow> json" where
  "jsonWork m = JObj [(''blockHash'', JStr (wm_BlockHash m)), (''blockHeight'', JNum (Itoa (uint (wm_BlockHeight m)))),
     (''subtreeHash'', JStr (wm_SubtreeHash m)), (''subtreeIndex'', JNum (Itoa (wm_SubtreeIndex m))), (''dataHubUrl'', JStr (wm_DataHubURL m))]"

definition workFields :: "SubtreeWorkMessage structFields" where
  "workFields = [(''blockHash'', strDec (\<lambda>s r. r\<lparr>wm_BlockHash := s\<rparr>)), (''blockHeight'', u32Dec (\<lambda>h r. r\<lparr>wm_BlockHeight := h\<rparr>)),
     (''subtreeHash'', strDec (\<lambda>s r. r\<lparr>wm_SubtreeHash := s\<rparr>)), (''subtreeIndex'', intDec (\<lambda>i r. r\<lparr>wm_SubtreeIndex := i\<rparr>)),
     (''dataHubUrl'', strDec (\<lambda>s r. r\<lparr>wm_DataHubURL := s\<rparr>))]"

text \<open>The zero time is not omitted; \<open>fmtTime\<close> fails for a year beyond four digits.\<close>

definition jsonCallback :: "(int option \<Rightarrow> string option) \<Rightarrow> CallbackTopicMessage \<Rightarrow> json option" where
  "jsonCallback fmtTime m = map_option (\<lambda>t. JObj ([(''callbackUrl'', JStr (CallbackURL m)), (''type'', JStr (Type m))]
     @ omitStr ''txid'' (msgTxID m) @ omitStrs ''txids'' (msgTxIDs m) @ omitStr ''blockHash'' (BlockHash m)
     @ omitInt ''subtreeIndex'' (msgSubtreeIndex m) @ omitStr ''stumpRef'' (StumpRef m) @ omitInt ''retryCount'' (RetryCount m)
     @ [(''nextRetryAt'', JStr t)])) (fmtTime (NextRetryAt m))"

definition callbackFields :: "(string \<Rightarrow> int option option) \<Rightarrow> (nat \<Rightarrow> string) \<Rightarrow> CallbackTopicMessage structFields" where
  "callbackFields parseTime old =
     [(''callbackUrl'', strDec (\<lambda>s r. r\<lparr>CallbackURL := s\<rparr>)), (''type'', strDec (\<lambda>s r. r\<lparr>Type := s\<rparr>)),
      (''txid'', strDec (\<lambda>s r. r\<lparr>msgTxID := s\<rparr>)), (''txids'', strsDec old (\<lambda>ss r. r\<lparr>msgTxIDs := ss\<rparr>)),
      (''blockHash'', strDec (\<lambda>s r. r\<lparr>BlockHash := s\<rparr>)), (''subtreeIndex'', intDec (\<lambda>i r. r\<lparr>msgSubtreeIndex := i\<rparr>)),
      (''stumpRef'', strDec (\<lambda>s r. r\<lparr>StumpRef := s\<rparr>)), (''retryCount'', intDec (\<lambda>i r. r\<lparr>RetryCount := i\<rparr>)),
      (''nextRetryAt'', timeDec parseTime (\<lambda>t r. r\<lparr>NextRetryAt := t\<rparr>))]"

definition subtreeEncode :: "SubtreeMessage \<Rightarrow> string" where
  "subtreeEncode m = printJson (jsonSubtree m)"

definition DecodeSubtreeMessage :: "string \<Rightarrow> SubtreeMessage option" where
  "DecodeSubtreeMessage data = Option.bind (parseJson data) (\<lambda>v. decodeStruct subtreeFields v
     \<lparr>sm_Hash = [], sm_DataHubURL = [], sm_PeerID = [], sm_ClientName = [], sm_AttemptCount = 0\<rparr>)"

definition blockEncode :: "BlockMessage \<Rightarrow> string" where
  "blockEncode m = printJson (jsonBlock m)"

definition DecodeBlockMessage :: "string \<Rightarrow> BlockMessage option" where
  "DecodeBlockMessage data = Option.bind (parseJson data) (\<lambda>v. decodeStruct blockFields v
     \<lparr>bm_Hash = [], bm_Height = 0, bm_Header = [], bm_Coinbase = [], bm_DataHubURL = [], bm_PeerID = [], bm_ClientName = []\<rparr>)"

definition workEncode :: "SubtreeWorkMessage \<Rightarrow> string" where
  "workEncode m = printJson (jsonWork m)"

definition DecodeSubtreeWorkMessage :: "string \<Rightarrow> SubtreeWorkMessage option" where
  "DecodeSubtreeWorkMessage data = Option.bind (parseJson data) (\<lambda>v. decodeStruct workFields v
     \<lparr>wm_BlockHash = [], wm_BlockHeight = 0, wm_SubtreeHash = [], wm_SubtreeIndex = 0, wm_DataHubURL = []\<rparr>)"

definition callbackEncode :: "(int option \<Rightarrow> string option) \<Rightarrow> CallbackTopicMessage \<Rightarrow> string option" where
  "callbackEncode fmtTime m = map_option printJson (jsonCallback fmtTime m)"

definition DecodeCallbackTopicMessage ::
    "(string \<Rightarrow> int option option) \<Rightarrow> (nat \<Rightarrow> string) \<Rightarrow> string \<Rightarrow> CallbackTopicMessage option" where
  "DecodeCallbackTopicMessage parseTime old data = Option.bind (parseJson data) (\<lambda>v. decodeStruct (callbackFields parseTime old) v (emptyCallback [] []))"

section \<open>What is encoded is decoded\<close>

definition int64 :: "int \<Rightarrow> bool" where
  "int64 i \<longleftrightarrow> - (2 ^ 63) \<le> i \<and> i < 2 ^ 63"

lemma digitsVal_natString: "digitsVal (natString n) = Some n"
proof -
  have f: "foldl (\<lambda>n c. 10 * n + (of_char c - 48)) a s = strVal a s" for a s by (induction s arbitrary: a) simp_all
  have "list_all (\<lambda>c. 48 \<le> (of_char c :: nat) \<and> (of_char c :: nat) \<le> 57) (natString n)"
    using natString_digits by (simp add: list_all_iff)
  then show ?thesis unfolding digitsVal_def f by (simp add: natString_nonempty strVal_natString)
qed

lemma Atoi_Itoa: "int64 i \<Longrightarrow> Atoi (Itoa i) = Some i"
proof (cases "i < 0")
  case True
  moreover assume "int64 i"
  ultimately show ?thesis by (simp add: Atoi_def Itoa_def digitsVal_natString int64_def)
next
  case False
  moreover assume "int64 i"
  moreover obtain c r where c: "natString (nat i) = c # r" using natString_nonempty by (cases "natString (nat i)") auto
  moreover have "c \<noteq> CHR ''-''" "c \<noteq> CHR ''+''" using natString_digits [of c "nat i"] c by auto
  ultimately show ?thesis using digitsVal_natString [of "nat i"] by (simp add: Atoi_def Itoa_def int64_def)
qed

lemma digitsVal_uint: "digitsVal (Itoa (uint (h :: u32))) = Some (unat h)"
  by (simp add: Itoa_def digitsVal_natString unat_eq_nat_uint [symmetric] not_less)

lemma unat_small: "unat (h :: u32) < 2 ^ 32"
  using unsigned_less [of h] by simp

lemma elemsDec_map: "elemsDec old i (map JStr ss) = Some ss"
  by (induction ss arbitrary: i) simp_all

lemmas decode_field = fieldFor_def strDec_def intDec_def u32Dec_def strsDec_def timeDec_def Atoi_Itoa digitsVal_uint unat_small elemsDec_map

lemma decode_subtree:
  "int64 (sm_AttemptCount m) \<Longrightarrow> decodeStruct subtreeFields (jsonSubtree m)
     \<lparr>sm_Hash = [], sm_DataHubURL = [], sm_PeerID = [], sm_ClientName = [], sm_AttemptCount = 0\<rparr> = Some m"
  by (simp add: decodeStruct_def jsonSubtree_def subtreeFields_def omitInt_def decode_field)

lemma decode_block:
  "decodeStruct blockFields (jsonBlock m)
     \<lparr>bm_Hash = [], bm_Height = 0, bm_Header = [], bm_Coinbase = [], bm_DataHubURL = [], bm_PeerID = [], bm_ClientName = []\<rparr> = Some m"
  using unat_small [of "bm_Height m"] by (simp add: decodeStruct_def jsonBlock_def blockFields_def decode_field)

lemma decode_work:
  "int64 (wm_SubtreeIndex m) \<Longrightarrow> decodeStruct workFields (jsonWork m)
     \<lparr>wm_BlockHash = [], wm_BlockHeight = 0, wm_SubtreeHash = [], wm_SubtreeIndex = 0, wm_DataHubURL = []\<rparr> = Some m"
  using unat_small [of "wm_BlockHeight m"] by (simp add: decodeStruct_def jsonWork_def workFields_def decode_field)

lemma decodeMembers_append: "decodeMembers fs (xs @ ys) r = Option.bind (decodeMembers fs xs r) (decodeMembers fs ys)"
  by (induction fs xs r rule: decodeMembers.induct) (auto split: option.splits bind_splits)

text \<open>A field that was omitted has its zero value.\<close>

lemma decode_omitStr:
  "fieldFor fs name = Some (strDec upd) \<Longrightarrow> upd [] r = r \<Longrightarrow> decodeMembers fs (omitStr name s) r = Some (upd s r)"
  by (auto simp: omitStr_def strDec_def)

lemma decode_omitInt:
  "fieldFor fs name = Some (intDec upd) \<Longrightarrow> upd 0 r = r \<Longrightarrow> int64 i \<Longrightarrow> decodeMembers fs (omitInt name i) r = Some (upd i r)"
  by (auto simp: omitInt_def intDec_def Atoi_Itoa)

lemma decode_omitStrs:
  "fieldFor fs name = Some (strsDec old upd) \<Longrightarrow> upd [] r = r \<Longrightarrow> decodeMembers fs (omitStrs name ss) r = Some (upd ss r)"
  by (auto simp: omitStrs_def strsDec_def elemsDec_map)

lemma decode_callback:
  assumes "int64 (msgSubtreeIndex m)" and "int64 (RetryCount m)" and "parseTime t = Some (NextRetryAt m)"
    and "fmtTime (NextRetryAt m) = Some t" and "jsonCallback fmtTime m = Some v"
  shows "decodeStruct (callbackFields parseTime old) v (emptyCallback [] []) = Some m"
proof -
  let ?F = "callbackFields parseTime old"
  have f: "fieldFor ?F ''callbackUrl'' = Some (strDec (\<lambda>s r. r\<lparr>CallbackURL := s\<rparr>))" "fieldFor ?F ''type'' = Some (strDec (\<lambda>s r. r\<lparr>Type := s\<rparr>))"
    "fieldFor ?F ''txid'' = Some (strDec (\<lambda>s r. r\<lparr>msgTxID := s\<rparr>))" "fieldFor ?F ''txids'' = Some (strsDec old (\<lambda>ss r. r\<lparr>msgTxIDs := ss\<rparr>))"
    "fieldFor ?F ''blockHash'' = Some (strDec (\<lambda>s r. r\<lparr>BlockHash := s\<rparr>))" "fieldFor ?F ''subtreeIndex'' = Some (intDec (\<lambda>i r. r\<lparr>msgSubtreeIndex := i\<rparr>))"
    "fieldFor ?F ''stumpRef'' = Some (strDec (\<lambda>s r. r\<lparr>StumpRef := s\<rparr>))" "fieldFor ?F ''retryCount'' = Some (intDec (\<lambda>i r. r\<lparr>RetryCount := i\<rparr>))"
    "fieldFor ?F ''nextRetryAt'' = Some (timeDec parseTime (\<lambda>t r. r\<lparr>NextRetryAt := t\<rparr>))"
    by (simp_all add: fieldFor_def callbackFields_def)
  show ?thesis
    using assms
    by (auto simp: jsonCallback_def decodeStruct_def emptyCallback_def decodeMembers_append f decode_omitStr [OF f(3)] decode_omitStr [OF f(5)]
        decode_omitStr [OF f(7)] decode_omitInt [OF f(6)] decode_omitInt [OF f(8)] decode_omitStrs [OF f(4)] strDec_def timeDec_def)
qed

lemma ascii_valid: "list_all (\<lambda>c. codeOf c < 128) s \<Longrightarrow> validUtf8 s"
proof (induction s)
  case (Cons c s)
  then have "runeLen (c # s) = 1" by (simp add: runeLen_def)
  then show ?case using Cons by (subst validUtf8.simps) simp
qed (subst validUtf8.simps, simp)

lemma valid_Nil [simp]: "validUtf8 []"
  by (simp add: ascii_valid)

lemma names_valid [simp]:
  "validUtf8 ''hash''" "validUtf8 ''dataHubUrl''" "validUtf8 ''peerId''" "validUtf8 ''clientName''" "validUtf8 ''attemptCount''"
  "validUtf8 ''height''" "validUtf8 ''header''" "validUtf8 ''coinbase''" "validUtf8 ''blockHash''" "validUtf8 ''blockHeight''"
  "validUtf8 ''subtreeHash''" "validUtf8 ''subtreeIndex''" "validUtf8 ''callbackUrl''" "validUtf8 ''type''" "validUtf8 ''txid''"
  "validUtf8 ''txids''" "validUtf8 ''stumpRef''" "validUtf8 ''retryCount''" "validUtf8 ''nextRetryAt''"
  by (simp_all add: ascii_valid)

definition subtreeTextOk :: "SubtreeMessage \<Rightarrow> bool" where
  "subtreeTextOk m \<longleftrightarrow> validUtf8 (sm_Hash m) \<and> validUtf8 (sm_DataHubURL m) \<and> validUtf8 (sm_PeerID m) \<and> validUtf8 (sm_ClientName m)
     \<and> int64 (sm_AttemptCount m)"

definition blockTextOk :: "BlockMessage \<Rightarrow> bool" where
  "blockTextOk m \<longleftrightarrow> validUtf8 (bm_Hash m) \<and> validUtf8 (bm_Header m) \<and> validUtf8 (bm_Coinbase m) \<and> validUtf8 (bm_DataHubURL m)
     \<and> validUtf8 (bm_PeerID m) \<and> validUtf8 (bm_ClientName m)"

definition workTextOk :: "SubtreeWorkMessage \<Rightarrow> bool" where
  "workTextOk m \<longleftrightarrow> validUtf8 (wm_BlockHash m) \<and> validUtf8 (wm_SubtreeHash m) \<and> validUtf8 (wm_DataHubURL m) \<and> int64 (wm_SubtreeIndex m)"

definition callbackTextOk :: "CallbackTopicMessage \<Rightarrow> bool" where
  "callbackTextOk m \<longleftrightarrow> validUtf8 (CallbackURL m) \<and> validUtf8 (Type m) \<and> validUtf8 (msgTxID m) \<and> (\<forall>t \<in> set (msgTxIDs m). validUtf8 t)
     \<and> validUtf8 (BlockHash m) \<and> validUtf8 (StumpRef m) \<and> int64 (msgSubtreeIndex m) \<and> int64 (RetryCount m)"

lemma depthElems_strs: "depthElems (map JStr ss) = 0"
  by (induction ss) simp_all

lemma depthMembers_append: "depthMembers (xs @ ys) = max (depthMembers xs) (depthMembers ys)"
  by (induction xs) auto

lemma jsonCallback_ok:
  assumes "callbackTextOk m" and "jsonCallback fmtTime m = Some v" and "\<And>t. fmtTime (NextRetryAt m) = Some t \<Longrightarrow> validUtf8 t"
  shows "jsonOk v \<and> depthOf v \<le> 10000"
proof -
  obtain t where t: "fmtTime (NextRetryAt m) = Some t" using assms(2) by (auto simp: jsonCallback_def)
  have v: "validUtf8 t" using assms(3) t by simp
  show ?thesis using assms(1,2) t v
    by (auto simp: jsonCallback_def callbackTextOk_def omitStr_def omitInt_def omitStrs_def depthMembers_append depthElems_strs)
qed

text \<open>
  C23: The messages survive the topics. For every message whose texts are valid UTF-8 and whose numbers fit the machine, decoding
  what \<open>Encode\<close> wrote gives the message back, for subtree announcements, block announcements, work items and callbacks (with a
  time format that can be read back), whatever the strings contain and whichever fields are left out as empty.
\<close>

theorem messages_roundtrip:
  assumes "\<And>x t. fmtTime x = Some t \<Longrightarrow> validUtf8 t \<and> parseTime t = Some x"
  shows "(subtreeTextOk sm \<longrightarrow> DecodeSubtreeMessage (subtreeEncode sm) = Some sm)
     \<and> (blockTextOk bm \<longrightarrow> DecodeBlockMessage (blockEncode bm) = Some bm)
     \<and> (workTextOk wm \<longrightarrow> DecodeSubtreeWorkMessage (workEncode wm) = Some wm)
     \<and> (callbackTextOk cm \<longrightarrow> (case callbackEncode fmtTime cm of
          None \<Rightarrow> fmtTime (NextRetryAt cm) = None
        | Some data \<Rightarrow> DecodeCallbackTopicMessage parseTime old data = Some cm))"
proof (intro conjI impI)
  assume ok: "subtreeTextOk sm"
  then have "parseJson (subtreeEncode sm) = Some (jsonSubtree sm)"
    unfolding subtreeEncode_def by (intro parseJson_print) (auto simp: jsonSubtree_def subtreeTextOk_def omitInt_def)
  then show "DecodeSubtreeMessage (subtreeEncode sm) = Some sm"
    using ok decode_subtree [of sm] by (simp add: DecodeSubtreeMessage_def subtreeTextOk_def)
next
  assume ok: "blockTextOk bm"
  then have "parseJson (blockEncode bm) = Some (jsonBlock bm)"
    unfolding blockEncode_def by (intro parseJson_print) (auto simp: jsonBlock_def blockTextOk_def)
  then show "DecodeBlockMessage (blockEncode bm) = Some bm"
    using decode_block [of bm] by (simp add: DecodeBlockMessage_def)
next
  assume ok: "workTextOk wm"
  then have "parseJson (workEncode wm) = Some (jsonWork wm)"
    unfolding workEncode_def by (intro parseJson_print) (auto simp: jsonWork_def workTextOk_def)
  then show "DecodeSubtreeWorkMessage (workEncode wm) = Some wm"
    using ok decode_work [of wm] by (simp add: DecodeSubtreeWorkMessage_def workTextOk_def)
next
  assume ok: "callbackTextOk cm"
  show "case callbackEncode fmtTime cm of None \<Rightarrow> fmtTime (NextRetryAt cm) = None
      | Some data \<Rightarrow> DecodeCallbackTopicMessage parseTime old data = Some cm"
  proof (cases "jsonCallback fmtTime cm")
    case None
    then show ?thesis by (simp add: callbackEncode_def jsonCallback_def)
  next
    case (Some v)
    then obtain t where t: "fmtTime (NextRetryAt cm) = Some t" by (auto simp: jsonCallback_def)
    have "parseJson (printJson v) = Some v"
      using jsonCallback_ok [OF ok Some] assms by (intro parseJson_print) auto
    then show ?thesis
      using decode_callback [of cm parseTime t fmtTime v old] assms [OF t] t Some ok
      by (simp add: callbackEncode_def DecodeCallbackTopicMessage_def callbackTextOk_def)
  qed
qed

text \<open>A time format: the zero time as Go writes it, other times as their nanoseconds.\<close>

definition zeroTime :: string where
  "zeroTime = ''0001-01-01T00:00:00Z''"

definition exFmtTime :: "int option \<Rightarrow> string option" where
  "exFmtTime x = (case x of None \<Rightarrow> Some zeroTime | Some n \<Rightarrow> if int64 n then Some (Itoa n) else None)"

definition exParseTime :: "string \<Rightarrow> int option option" where
  "exParseTime t = (if t = zeroTime then Some None else map_option Some (Atoi t))"

lemma Itoa_ascii: "list_all (\<lambda>c. codeOf c < 128) (Itoa i)"
  using natString_digits by (force simp: Itoa_def list_all_iff)

lemma exTime: "exFmtTime x = Some t \<Longrightarrow> validUtf8 t \<and> exParseTime t = Some x"
proof -
  assume f: "exFmtTime x = Some t"
  have "Itoa n \<noteq> zeroTime" for n
  proof
    assume "Itoa n = zeroTime"
    then have "CHR '':'' \<in> set (Itoa n)" by (simp add: zeroTime_def)
    then show False using Itoa_no_colon by simp
  qed
  moreover have "validUtf8 zeroTime" by (simp add: zeroTime_def ascii_valid)
  ultimately show ?thesis
    using f ascii_valid [OF Itoa_ascii] by (auto simp: exFmtTime_def exParseTime_def Atoi_Itoa split: option.splits if_splits)
qed

definition exSubtreeJson :: SubtreeMessage where
  "exSubtreeJson = \<lparr>sm_Hash = ''ff'', sm_DataHubURL = ''http://hub'', sm_PeerID = ''p'', sm_ClientName = [], sm_AttemptCount = 0\<rparr>"

definition exBlockJson :: BlockMessage where
  "exBlockJson = \<lparr>bm_Hash = ''ff'', bm_Height = 840000, bm_Header = ''00'', bm_Coinbase = [], bm_DataHubURL = ''http://hub'',
     bm_PeerID = ''p'', bm_ClientName = []\<rparr>"

definition exWorkJson :: SubtreeWorkMessage where
  "exWorkJson = \<lparr>wm_BlockHash = ''a<b'' @ [quote, backslash, CHR 10], wm_BlockHeight = 840000, wm_SubtreeHash = ''ff'',
     wm_SubtreeIndex = 7, wm_DataHubURL = []\<rparr>"

definition exCallbackJson :: CallbackTopicMessage where
  "exCallbackJson = (emptyCallback ''http://x/cb?a=1&b=2'' CallbackSeenOnNetwork)\<lparr>msgTxIDs := [''aa'', ''bb''], RetryCount := 2, NextRetryAt := Some 5\<rparr>"

theorem messages_roundtrip_witness:
  "DecodeSubtreeMessage (subtreeEncode exSubtreeJson) = Some exSubtreeJson \<and> DecodeBlockMessage (blockEncode exBlockJson) = Some exBlockJson
   \<and> DecodeSubtreeWorkMessage (workEncode exWorkJson) = Some exWorkJson
   \<and> (\<exists>data. callbackEncode exFmtTime exCallbackJson = Some data \<and> DecodeCallbackTopicMessage exParseTime (\<lambda>_. []) data = Some exCallbackJson)"
proof -
  have s: "subtreeTextOk exSubtreeJson" by (simp add: subtreeTextOk_def exSubtreeJson_def ascii_valid int64_def)
  have b: "blockTextOk exBlockJson" by (simp add: blockTextOk_def exBlockJson_def ascii_valid)
  have w: "workTextOk exWorkJson" by (simp add: workTextOk_def exWorkJson_def ascii_valid int64_def quote_neq)
  have c: "callbackTextOk exCallbackJson"
    by (simp add: callbackTextOk_def exCallbackJson_def emptyCallback_def callback_types ascii_valid int64_def)
  have "exFmtTime (NextRetryAt exCallbackJson) \<noteq> None" by (simp add: exFmtTime_def exCallbackJson_def int64_def)
  then show ?thesis
    using messages_roundtrip [of exFmtTime exParseTime exSubtreeJson exBlockJson exWorkJson exCallbackJson "\<lambda>_. []", OF exTime] s b w c
    by (auto split: option.splits)
qed

end
