(* ===== verification/Watch_Cli.thy ===== *)
theory Watch_Cli
  imports Api Json_Messages
begin

text \<open>
  The command line client (cmd/watch/main.go): it reads txids from a file or a flag, checks them and posts them to the HTTP service,
  many at a time. The service at the other end is the model of internal/api, so what the client reports can be compared with what the
  stores hold.
\<close>

section \<open>Reading txids\<close>

datatype txidErr = EBadLength nat | EBadChar nat

definition validateTxid :: "string \<Rightarrow> txidErr option" where
  "validateTxid s =
     (if length s \<noteq> 64 then Some (EBadLength (length s))
      else if list_all isHexChar s then None
      else Some (EBadChar (length (takeWhile isHexChar s))))"

text \<open>
  The lines \<open>bufio.Scanner\<close> gives: the last one only if it is not empty, a carriage return at the end dropped. It gives up at a line
  of 64 KiB or more.
\<close>

definition rawLines :: "string \<Rightarrow> string list" where
  "rawLines text = (let ls = splitOn (CHR 10) text in if last ls = [] then butlast ls else ls)"

definition dropCR :: "string \<Rightarrow> string" where
  "dropCR l = (if l \<noteq> [] \<and> last l = CHR 13 then butlast l else l)"

definition tooLong :: "string \<Rightarrow> bool" where
  "tooLong text = list_ex (\<lambda>l. 65536 \<le> length l) (rawLines text)"

datatype loadErr' = ECannotOpen string | EReading | EInvalidTxids "(nat \<times> string \<times> txidErr) list"

text \<open>The loop over the lines; \<open>lineNum\<close> is the number of the line before.\<close>

fun scanTxids :: "nat \<Rightarrow> string list \<Rightarrow> string list \<times> (nat \<times> string \<times> txidErr) list \<Rightarrow> string list \<times> (nat \<times> string \<times> txidErr) list" where
  "scanTxids lineNum [] acc = acc"
| "scanTxids lineNum (l # ls) (txids, errs) =
     (let line = trimUnicode l
      in if line = [] \<or> hasPrefix ''#'' line then scanTxids (lineNum + 1) ls (txids, errs)
         else case validateTxid line of
           Some err \<Rightarrow> scanTxids (lineNum + 1) ls (txids, errs @ [(lineNum + 1, line, err)])
         | None \<Rightarrow> scanTxids (lineNum + 1) ls (txids @ [line], errs))"

text \<open>The file or the standard input: an error when it is opened, or its text with whether reading it failed in the end.\<close>

definition loadTxids :: "string + string \<times> bool \<Rightarrow> loadErr' + string list" where
  "loadTxids src = (case src of
      Inl err \<Rightarrow> Inl (ECannotOpen err)
    | Inr (text, failed) \<Rightarrow>
        (let (txids, errs) = scanTxids 0 (map dropCR (rawLines text)) ([], [])
         in if failed \<or> tooLong text then Inl EReading
            else if errs \<noteq> [] then Inl (EInvalidTxids errs)
            else Inr txids))"

section \<open>Registering\<close>

text \<open>The request of the client, and how the service reads the first value of the body it gets.\<close>

definition jsonWatch :: "WatchRequest \<Rightarrow> json" where
  "jsonWatch r = JObj [(''txid'', JStr (wr_TxID r)), (''callbackUrl'', JStr (wr_CallbackURL r))]"

definition watchFields :: "WatchRequest structFields" where
  "watchFields = [(''txid'', strDec (\<lambda>s r. r\<lparr>wr_TxID := s\<rparr>)), (''callbackUrl'', strDec (\<lambda>s r. r\<lparr>wr_CallbackURL := s\<rparr>))]"

definition decodeWatch :: "string \<Rightarrow> unit + WatchRequest" where
  "decodeWatch body = (case firstValue body of
      None \<Rightarrow> Inl ()
    | Some (v, rest) \<Rightarrow> (case decodeStruct watchFields v \<lparr>wr_TxID = [], wr_CallbackURL = []\<rparr> of None \<Rightarrow> Inl () | Some r \<Rightarrow> Inr r))"

definition trimRightSlash :: "string \<Rightarrow> string" where
  "trimRightSlash u = rev (dropWhile (\<lambda>c. c = CHR ''/'') (rev u))"

datatype regErr = ERequest string | EHTTP nat

text \<open>\<open>post url body\<close> sends the request: an error, or the status of the answer.\<close>

definition registerOne ::
    "(string \<Rightarrow> string \<Rightarrow> 's \<Rightarrow> (string + nat) \<times> 's) \<Rightarrow> string \<Rightarrow> string \<Rightarrow> string \<Rightarrow> 's \<Rightarrow> regErr option \<times> 's" where
  "registerOne post apiURL txid callbackURL s =
     (let reqBody = printJson (jsonWatch \<lparr>wr_TxID = txid, wr_CallbackURL = callbackURL\<rparr>);
          target = trimRightSlash apiURL @ ''/watch''
      in case post target reqBody s of
           (Inl err, s) \<Rightarrow> (Some (ERequest err), s)
         | (Inr status, s) \<Rightarrow> (if status = 200 then None else Some (EHTTP status), s))"

datatype exit = Exit nat | PanicExit | DeadlockExit

text \<open>
  The goroutines of \<open>runBulk\<close>, one per txid, in the order \<open>ord\<close> in which their requests are served: \<open>post i\<close> is the sending of goroutine
  \<open>i\<close>. The results are in the order of the txids. A negative concurrency panics when the channel is made; with none, no goroutine
  gets past the channel.
\<close>

definition registerAll ::
    "(nat \<Rightarrow> string \<Rightarrow> string \<Rightarrow> 's \<Rightarrow> (string + nat) \<times> 's) \<Rightarrow> string \<Rightarrow> string \<Rightarrow> string list \<Rightarrow> nat list \<Rightarrow> 's
      \<Rightarrow> (nat \<rightharpoonup> regErr option) \<times> 's" where
  "registerAll post apiURL callback txids order s =
     fold (\<lambda>i (res, s). let (err, s) = registerOne (post i) apiURL (txids ! i) callback s in (res(i \<mapsto> err), s)) order (Map.empty, s)"

record bulkResult =
  br_exit :: exit
  br_results :: "(string \<times> regErr option) list"
  br_registered :: nat

definition runBulk ::
    "(nat \<Rightarrow> string \<Rightarrow> string \<Rightarrow> 's \<Rightarrow> (string + nat) \<times> 's) \<Rightarrow> (nat \<Rightarrow> nat list \<Rightarrow> nat list) \<Rightarrow> int \<Rightarrow> string \<Rightarrow> string
      \<Rightarrow> string + string \<times> bool \<Rightarrow> 's \<Rightarrow> bulkResult \<times> 's" where
  "runBulk post ord concurrency apiURL callback src s = (case loadTxids src of
      Inl err \<Rightarrow> (\<lparr>br_exit = Exit 2, br_results = [], br_registered = 0\<rparr>, s)
    | Inr txids \<Rightarrow>
        if txids = [] then (\<lparr>br_exit = Exit 0, br_results = [], br_registered = 0\<rparr>, s)
        else if concurrency < 0 then (\<lparr>br_exit = PanicExit, br_results = [], br_registered = 0\<rparr>, s)
        else if concurrency = 0 then (\<lparr>br_exit = DeadlockExit, br_results = [], br_registered = 0\<rparr>, s)
        else
          (let (res, s) = registerAll post apiURL callback txids (ord 0 [0..<length txids]) s;
               results = map (\<lambda>i. (txids ! i, the (res i))) [0..<length txids];
               succeeded = length (filter (\<lambda>(t, e). e = None) results)
           in (\<lparr>br_exit = Exit (if succeeded < length txids then 1 else 0), br_results = results, br_registered = succeeded\<rparr>, s)))"

definition runSingle ::
    "(string \<Rightarrow> string \<Rightarrow> 's \<Rightarrow> (string + nat) \<times> 's) \<Rightarrow> string \<Rightarrow> string \<Rightarrow> string \<Rightarrow> 's \<Rightarrow> exit \<times> 's" where
  "runSingle post apiURL callback txid s = (case validateTxid txid of
      Some err \<Rightarrow> (Exit 2, s)
    | None \<Rightarrow> (case registerOne post apiURL txid callback s of
        (Some err, s) \<Rightarrow> (Exit 1, s)
      | (None, s) \<Rightarrow> (Exit 0, s)))"

record watchFlags =
  wf_url :: string
  wf_callback :: string
  wf_txid :: string
  wf_file :: string
  wf_concurrency :: int

definition watchMain ::
    "(nat \<Rightarrow> string \<Rightarrow> string \<Rightarrow> 's \<Rightarrow> (string + nat) \<times> 's) \<Rightarrow> (nat \<Rightarrow> nat list \<Rightarrow> nat list) \<Rightarrow> (string \<Rightarrow> string + string \<times> bool)
      \<Rightarrow> watchFlags \<Rightarrow> 's \<Rightarrow> exit \<times> 's" where
  "watchMain post ord open f s =
     (if wf_url f = [] \<or> wf_callback f = [] then (Exit 2, s)
      else if wf_txid f = [] \<and> wf_file f = [] then (Exit 2, s)
      else if wf_txid f \<noteq> [] \<and> wf_file f \<noteq> [] then (Exit 2, s)
      else if wf_txid f \<noteq> [] then runSingle (post 0) (wf_url f) (wf_callback f) (wf_txid f) s
      else apfst br_exit (runBulk post ord (wf_concurrency f) (wf_url f) (wf_callback f) (open (wf_file f)) s))"

section \<open>The service at the other end\<close>

text \<open>A request may get lost, or its answer.\<close>

datatype netFault = Delivered | LostRequest string | LostReply string

definition serverPost ::
    "(string \<Rightarrow> (string \<times> string) option) \<Rightarrow> ('s, 'e) Server \<Rightarrow> netFault \<Rightarrow> string \<Rightarrow> string \<Rightarrow> 's \<Rightarrow> (string + nat) \<times> 's" where
  "serverPost parseURL sv net url body s =
     (let (rp, s') = serve parseURL sv (PostWatch (decodeWatch body)) s; status = (case rp of None \<Rightarrow> 500 | Some r \<Rightarrow> rp_status r)
      in case net of
           LostRequest err \<Rightarrow> (Inl err, s)
         | LostReply err \<Rightarrow> (Inl err, s')
         | Delivered \<Rightarrow> (Inr status, s'))"

lemma decodeWatch_request:
  assumes "validUtf8 (wr_TxID r)" and "validUtf8 (wr_CallbackURL r)"
  shows "decodeWatch (printJson (jsonWatch r)) = Inr r"
proof -
  have "firstValue (printJson (jsonWatch r) @ []) = Some (jsonWatch r, [])"
    using assms by (intro firstValue_print) (simp_all add: jsonWatch_def numEnds)
  moreover have "decodeStruct watchFields (jsonWatch r) \<lparr>wr_TxID = [], wr_CallbackURL = []\<rparr> = Some r"
    by (simp add: decodeStruct_def jsonWatch_def watchFields_def decode_field)
  ultimately show ?thesis by (simp add: decodeWatch_def)
qed

lemma hex_ascii: "txidRegex t \<Longrightarrow> validUtf8 t"
  by (rule ascii_valid) (auto simp: txidRegex_def list_all_iff isHexChar_def Let_def)

lemma validateTxid_iff: "validateTxid t = None \<longleftrightarrow> txidRegex t"
  by (auto simp: validateTxid_def txidRegex_def)

text \<open>The txids of a file are its lines, without blank lines and comments; one that is no txid is an error.\<close>

definition isEntry :: "string \<Rightarrow> bool" where
  "isEntry l \<longleftrightarrow> l \<noteq> [] \<and> \<not> hasPrefix ''#'' l"

lemma scanTxids_spec:
  "scanTxids n ls (txids, errs) = (txids', errs') \<Longrightarrow>
     txids' = txids @ filter txidRegex (filter isEntry (map trimUnicode ls)) \<and>
     (errs' = [] \<longleftrightarrow> errs = [] \<and> (\<forall>l \<in> set (filter isEntry (map trimUnicode ls)). txidRegex l))"
proof (induction ls arbitrary: n txids errs)
  case (Cons l ls)
  have e: "isEntry (trimUnicode l) \<longleftrightarrow> \<not> (trimUnicode l = [] \<or> hasPrefix ''#'' (trimUnicode l))" by (auto simp: isEntry_def)
  show ?case
  proof (cases "isEntry (trimUnicode l)")
    case False
    then show ?thesis using Cons.IH [of "n + 1" txids errs] Cons.prems e by (simp add: Let_def)
  next
    case True
    then show ?thesis using Cons.prems Cons.IH e validateTxid_iff [of "trimUnicode l"]
      by (cases "validateTxid (trimUnicode l)") (fastforce simp: Let_def)+
  qed
qed simp

definition entries :: "string \<Rightarrow> string list" where
  "entries text = filter isEntry (map (trimUnicode \<circ> dropCR) (rawLines text))"

lemma loadTxids_entries:
  "loadTxids (Inr (text, failed)) = Inr txids \<longleftrightarrow> \<not> failed \<and> \<not> tooLong text \<and> list_all txidRegex (entries text) \<and> txids = entries text"
proof -
  obtain ts errs where s: "scanTxids 0 (map dropCR (rawLines text)) ([], []) = (ts, errs)" by fastforce
  have "ts = filter txidRegex (entries text)" "errs = [] \<longleftrightarrow> list_all txidRegex (entries text)"
    using scanTxids_spec [OF s] unfolding map_map append_Nil by (simp_all add: entries_def list_all_iff)
  then show ?thesis by (auto simp: loadTxids_def s list_all_iff filter_id_conv)
qed

context watch_store
begin

text \<open>What one registration over the network does to the stores.\<close>

lemma register_effect:
  assumes "inv s" and "sv_regStore sv = Some (ops i)" and "sv_urlRegistry sv = None \<or> sv_urlRegistry sv = Some (addURL i)"
    and "validUtf8 t" and "validUtf8 u" and "registerOne (serverPost parseURL sv net) apiURL t u s = (err, s')"
  shows "inv s' \<and> (urlsOf s' = urlsOf s \<or> urlsOf s' = (urlsOf s)(t := insert u (urlsOf s t))) \<and> (err = None \<longrightarrow> u \<in> urlsOf s' t)"
proof -
  let ?q = "\<lparr>wr_TxID = t, wr_CallbackURL = u\<rparr>"
  have q: "decodeWatch (printJson (jsonWatch ?q)) = Inr ?q" using assms(4,5) by (intro decodeWatch_request) simp_all
  obtain rp s1 where r: "serve parseURL sv (PostWatch (Inr ?q :: unit + WatchRequest)) s = (rp, s1)" by fastforce
  note c = watch_cases [OF assms(1-3) r]
  have "registerOne (serverPost parseURL sv net) apiURL t u s = (case net of
      LostRequest e \<Rightarrow> (Some (ERequest e), s)
    | LostReply e \<Rightarrow> (Some (ERequest e), s1)
    | Delivered \<Rightarrow> (if (case rp of None \<Rightarrow> 500 | Some r \<Rightarrow> rp_status r) = 200 then None else Some (EHTTP (case rp of None \<Rightarrow> 500 | Some r \<Rightarrow> rp_status r)), s1))"
    by (simp add: registerOne_def serverPost_def q r Let_def split: netFault.splits)
  then show ?thesis using assms(1,6) c by (cases net) (auto simp: writeJSON_def split: if_splits)
qed

lemma registerAll_effect:
  assumes "inv s" and "\<And>i. sv_regStore (sv i) = Some (ops i)" and "\<And>i. sv_urlRegistry (sv i) = None \<or> sv_urlRegistry (sv i) = Some (addURL i)"
    and "\<And>t. t \<in> set txids \<Longrightarrow> validUtf8 t" and "validUtf8 u" and "set order \<subseteq> {..<length txids}"
    and "registerAll (\<lambda>i. serverPost parseURL (sv i) (net i)) apiURL u txids order s = (res, s')"
  shows "inv s' \<and> (\<forall>t. urlsOf s t \<subseteq> urlsOf s' t \<and> urlsOf s' t \<subseteq> (if t \<in> set txids then insert u (urlsOf s t) else urlsOf s t))
    \<and> dom res = set order \<and> (\<forall>i. res i = Some None \<longrightarrow> u \<in> urlsOf s' (txids ! i))"
  using assms(6,7)
proof (induction order arbitrary: res s' rule: rev_induct)
  case Nil
  then show ?case using assms(1) by (auto simp: registerAll_def)
next
  case (snoc i order)
  obtain res1 s1 where p: "registerAll (\<lambda>i. serverPost parseURL (sv i) (net i)) apiURL u txids order s = (res1, s1)" by fastforce
  obtain err s2 where r: "registerOne (serverPost parseURL (sv i) (net i)) apiURL (txids ! i) u s1 = (err, s2)" by fastforce
  have out: "res = res1(i \<mapsto> err)" "s' = s2" using snoc.prems(2) p r by (simp_all add: registerAll_def)
  have i: "txids ! i \<in> set txids" using snoc.prems(1) by simp
  have IH: "inv s1 \<and> (\<forall>t. urlsOf s t \<subseteq> urlsOf s1 t \<and> urlsOf s1 t \<subseteq> (if t \<in> set txids then insert u (urlsOf s t) else urlsOf s t))
      \<and> dom res1 = set order \<and> (\<forall>i. res1 i = Some None \<longrightarrow> u \<in> urlsOf s1 (txids ! i))"
    using snoc.IH snoc.prems(1) p by simp
  then have e: "inv s2 \<and> (urlsOf s2 = urlsOf s1 \<or> urlsOf s2 = (urlsOf s1)(txids ! i := insert u (urlsOf s1 (txids ! i)))) \<and> (err = None \<longrightarrow> u \<in> urlsOf s2 (txids ! i))"
    using register_effect [OF _ assms(2,3) assms(4) [OF i] assms(5) r] by simp
  have up: "urlsOf s1 t \<subseteq> urlsOf s2 t" "urlsOf s2 t \<subseteq> (if t = txids ! i then insert u (urlsOf s1 t) else urlsOf s1 t)" for t using e by auto
  show ?case unfolding out
  proof (intro conjI allI impI)
    show "inv s2" using e by simp
    show "dom (res1(i \<mapsto> err)) = set (order @ [i])" using IH by auto
    show "urlsOf s t \<subseteq> urlsOf s2 t" for t using IH up(1) [of t] by blast
    show "urlsOf s2 t \<subseteq> (if t \<in> set txids then insert u (urlsOf s t) else urlsOf s t)" for t
    proof -
      have "urlsOf s1 t \<subseteq> (if t \<in> set txids then insert u (urlsOf s t) else urlsOf s t)" using IH by blast
      then show ?thesis using up(2) [of t] i by (auto split: if_splits)
    qed
    show "u \<in> urlsOf s2 (txids ! j)" if "(res1(i \<mapsto> err)) j = Some None" for j
      using that e IH up(1) [of "txids ! j"] by (auto split: if_splits)
  qed
qed

end


text \<open>
  What the client reports of a run: the entries of the file in their order, how many were registered, and an exit code to
  match. A file it cannot read, or with an entry that is no txid, is refused as a whole.
\<close>

definition reportOk :: "int \<Rightarrow> string \<Rightarrow> bool \<Rightarrow> bulkResult \<Rightarrow> bool" where
  "reportOk conc text failed r \<longleftrightarrow>
     (if failed \<or> tooLong text \<or> \<not> list_all txidRegex (entries text) then br_exit r = Exit 2 \<and> br_results r = []
      else if entries text = [] \<or> 0 < conc then
        map fst (br_results r) = entries text \<and> br_registered r = length (filter (\<lambda>(t, e). e = None) (br_results r))
        \<and> br_exit r = Exit (if br_registered r = length (entries text) then 0 else 1)
      else br_exit r \<in> {PanicExit, DeadlockExit} \<and> br_results r = [])"

lemma runBulk_report:
  assumes "runBulk post ord conc apiURL u (Inr (text, failed)) s = (r, s')"
  shows "reportOk conc text failed r \<and> (br_results r = [] \<longrightarrow> s' = s)"
proof (cases "loadTxids (Inr (text, failed))")
  case (Inl e)
  then have "failed \<or> tooLong text \<or> \<not> list_all txidRegex (entries text)" using loadTxids_entries by (metis Inl_Inr_False)
  then show ?thesis using assms Inl by (auto simp: runBulk_def reportOk_def)
next
  case (Inr txids)
  then have l: "\<not> (failed \<or> tooLong text \<or> \<not> list_all txidRegex (entries text))" "txids = entries text" using loadTxids_entries by metis+
  show ?thesis
  proof (cases "txids = [] \<or> conc \<le> 0")
    case True
    then show ?thesis using assms Inr l by (auto simp: runBulk_def reportOk_def split: if_splits)
  next
    case False
    obtain res s1 where a: "registerAll post apiURL u txids (ord 0 [0..<length txids]) s = (res, s1)" by fastforce
    let ?results = "map (\<lambda>i. (txids ! i, the (res i))) [0..<length txids]"
    have r: "r = \<lparr>br_exit = Exit (if length (filter (\<lambda>(t, e). e = None) ?results) < length txids then 1 else 0), br_results = ?results,
        br_registered = length (filter (\<lambda>(t, e). e = None) ?results)\<rparr>"
      using assms Inr False a by (auto simp: runBulk_def Let_def)
    have "map fst ?results = txids" by (simp add: comp_def map_nth)
    moreover have "length (filter (\<lambda>(t, e). e = None) ?results) \<le> length txids"
      by (metis (no_types, lifting) length_filter_le length_map calculation)
    ultimately show ?thesis using l False unfolding r reportOk_def by auto
  qed
qed

context watch_store
begin

lemma runBulk_effect:
  assumes "inv s" and "\<And>i. sv_regStore (sv i) = Some (ops i)" and "\<And>i. sv_urlRegistry (sv i) = None \<or> sv_urlRegistry (sv i) = Some (addURL i)"
    and "range_order ord" and "validUtf8 u"
    and "runBulk (\<lambda>i. serverPost parseURL (sv i) (net i)) ord conc apiURL u (Inr (text, failed)) s = (r, s')"
  shows "reportOk conc text failed r \<and> (\<forall>t. urlsOf s t \<subseteq> urlsOf s' t \<and> urlsOf s' t \<subseteq> (if t \<in> fst ` set (br_results r) then insert u (urlsOf s t) else urlsOf s t))
    \<and> (\<forall>(t, e) \<in> set (br_results r). e = None \<longrightarrow> u \<in> urlsOf s' t)"
proof (cases "br_results r = []")
  case True
  then show ?thesis using runBulk_report [OF assms(6)] by simp
next
  case False
  obtain txids where load: "loadTxids (Inr (text, failed)) = Inr txids"
    using False assms(6) by (cases "loadTxids (Inr (text, failed))") (auto simp: runBulk_def)
  have run: "txids \<noteq> []" "0 < conc" using False assms(6) load by (auto simp: runBulk_def split: if_splits)
  let ?o = "ord 0 [0..<length txids]"
  obtain res s1 where a: "registerAll (\<lambda>i. serverPost parseURL (sv i) (net i)) apiURL u txids ?o s = (res, s1)" by fastforce
  have r: "s' = s1" "br_results r = map (\<lambda>i. (txids ! i, the (res i))) [0..<length txids]"
    using assms(6) load run a by (auto simp: runBulk_def Let_def)
  have o: "set ?o = {..<length txids}" using assms(4) by auto
  have v: "\<And>t. t \<in> set txids \<Longrightarrow> validUtf8 t" using load hex_ascii by (auto simp: loadTxids_entries list_all_iff)
  have e: "(\<forall>t. urlsOf s t \<subseteq> urlsOf s1 t \<and> urlsOf s1 t \<subseteq> (if t \<in> set txids then insert u (urlsOf s t) else urlsOf s t))
      \<and> dom res = {..<length txids} \<and> (\<forall>i. res i = Some None \<longrightarrow> u \<in> urlsOf s1 (txids ! i))"
    using registerAll_effect [OF assms(1-3) v assms(5) _ a] o by simp
  have "fst ` set (br_results r) = set txids" unfolding r(2) by (force simp: in_set_conv_nth)
  moreover have "u \<in> urlsOf s1 t" if te: "(t, None) \<in> set (br_results r)" for t
  proof -
    obtain i where "i < length txids" "t = txids ! i" "the (res i) = None" using te unfolding r(2) by auto
    moreover from this have "res i = Some None" using e by (metis domD lessThan_iff option.sel)
    ultimately show ?thesis using e by simp
  qed
  ultimately show ?thesis using e runBulk_report [OF assms(6)] unfolding r(1) by auto
qed

end













end
