(* ===== verification/Dashboard.thy ===== *)
theory Dashboard
  imports Watch_Cli
begin

text \<open>
  The debug dashboard (tools/debug-dashboard): a bounded buffer of received callbacks, the txids registered through it, and the
  handlers of its pages. Rendering gives the page with its data, or an error where the templates are missing or fail. Every method of
  the two stores runs under a mutex of its own.
\<close>

section \<open>Received callbacks\<close>

text \<open>The body is the decoded JSON object as a Go map, or for a text that is none a map with the raw text.\<close>

record CallbackEntry =
  ce_Timestamp :: int
  ce_Body :: "string \<rightharpoonup> json"
  ce_RawJSON :: string

record CallbackStore =
  cb_entries :: "CallbackEntry list"
  cb_maxSize :: int

text \<open>\<open>make\<close> panics for a negative capacity.\<close>

definition NewCallbackStore :: "int \<Rightarrow> CallbackStore go" where
  "NewCallbackStore n = (if n < 0 then Inl IndexOutOfRange else Inr \<lparr>cb_entries = [], cb_maxSize = n\<rparr>)"

definition cbAdd :: "CallbackEntry \<Rightarrow> CallbackStore \<Rightarrow> CallbackStore go" where
  "cbAdd e s =
     (if cb_maxSize s \<le> int (length (cb_entries s))
      then (case cb_entries s of [] \<Rightarrow> Inl IndexOutOfRange | _ # es \<Rightarrow> Inr (s\<lparr>cb_entries := es @ [e]\<rparr>))
      else Inr (s\<lparr>cb_entries := cb_entries s @ [e]\<rparr>))"

text \<open>\<open>GetAll\<close> writes entry \<open>i\<close> to the place counted from the end.\<close>

definition cbGetAll :: "CallbackStore \<Rightarrow> CallbackEntry list" where
  "cbGetAll s = (let n = length (cb_entries s) in fold (\<lambda>i r. r[n - 1 - i := cb_entries s ! i]) [0..<n] (replicate n (cb_entries s ! 0)))"

definition cbCount :: "CallbackStore \<Rightarrow> nat" where
  "cbCount s = length (cb_entries s)"

definition cbClear :: "CallbackStore \<Rightarrow> CallbackStore" where
  "cbClear s = s\<lparr>cb_entries := []\<rparr>"

section \<open>Registered txids\<close>

record TrackedTxid =
  tt_Txid :: string
  tt_RegisteredAt :: int
  tt_CallbackURLs :: "string list"

record TxidTracker =
  tr_txids :: "TrackedTxid list"
  tr_index :: "string \<rightharpoonup> nat"

definition NewTxidTracker :: TxidTracker where
  "NewTxidTracker = \<lparr>tr_txids = [], tr_index = Map.empty\<rparr>"

definition UpdateCallbackURLs :: "string \<Rightarrow> string list \<Rightarrow> TxidTracker \<Rightarrow> TxidTracker go" where
  "UpdateCallbackURLs txid urls t = (case tr_index t txid of
      None \<Rightarrow> Inr t
    | Some i \<Rightarrow> if i < length (tr_txids t) then Inr (t\<lparr>tr_txids := (tr_txids t)[i := (tr_txids t ! i)\<lparr>tt_CallbackURLs := urls\<rparr>]\<rparr>) else Inl IndexOutOfRange)"

definition trackAdd :: "int \<Rightarrow> string \<Rightarrow> string list \<Rightarrow> TxidTracker \<Rightarrow> TxidTracker go" where
  "trackAdd now txid urls t = (case tr_index t txid of
      Some i \<Rightarrow> if i < length (tr_txids t) then Inr (t\<lparr>tr_txids := (tr_txids t)[i := (tr_txids t ! i)\<lparr>tt_CallbackURLs := urls\<rparr>]\<rparr>) else Inl IndexOutOfRange
    | None \<Rightarrow> Inr (t\<lparr>tr_index := (tr_index t)(txid \<mapsto> length (tr_txids t)),
                    tr_txids := tr_txids t @ [\<lparr>tt_Txid = txid, tt_RegisteredAt = now, tt_CallbackURLs = urls\<rparr>]\<rparr>))"

definition trackGetAll :: "TxidTracker \<Rightarrow> TrackedTxid list" where
  "trackGetAll t = tr_txids t"

definition trackCount :: "TxidTracker \<Rightarrow> nat" where
  "trackCount t = length (tr_txids t)"

section \<open>Handlers\<close>

record pageData =
  pd_Title :: string
  pd_TxidCount :: nat
  pd_CallbackCount :: nat
  pd_CallbackURL :: string
  pd_Flash :: string
  pd_FlashError :: string

record homeData = pageData +
  hd_RecentCallbacks :: "CallbackEntry list"
  hd_LookupTxid :: string
  hd_LookupURLs :: "string list"
  hd_LookupErr :: string

datatype pageView = HomePage homeData | RegistrationsPage pageData "TrackedTxid list" | CallbacksPage pageData "CallbackEntry list" | StumpPage pageData

text \<open>A page that fails while it is being written has status 200 or 500, depending on how much was sent.\<close>

datatype webResponse = Page pageView | PageFailed | InternalError | BadRequest string | StatusOK string | SeeOther string

record Handlers =
  hn_callbacks :: CallbackStore
  hn_tracker :: TxidTracker

text \<open>
  What the handlers are given: the URL of the service and of the dashboard's own receiver, the posting of a request (an error, or the
  status and the body of the answer), the registrations of a txid, the templates (\<open>None\<close> where one is missing, else whether it renders),
  which numbers are in the range of a float, and the clock.
\<close>

record 's dashEnv =
  de_merkleAPIURL :: string
  de_callbackURL :: string
  de_post :: "string \<Rightarrow> string \<Rightarrow> 's \<Rightarrow> (string + nat \<times> string) \<times> 's"
  de_regGet :: "string \<Rightarrow> 's \<Rightarrow> string + string list option"
  de_template :: "string \<Rightarrow> (pageView \<Rightarrow> bool) option"
  de_floatOk :: "string \<Rightarrow> bool"
  de_now :: int

definition render :: "'s dashEnv \<Rightarrow> string \<Rightarrow> pageView \<Rightarrow> webResponse" where
  "render E name v = (case de_template E name of None \<Rightarrow> InternalError | Some ok \<Rightarrow> if ok v then Page v else PageFailed)"

definition newPageData :: "'s dashEnv \<Rightarrow> Handlers \<Rightarrow> string \<Rightarrow> pageData" where
  "newPageData E h title = \<lparr>pd_Title = title, pd_TxidCount = trackCount (hn_tracker h), pd_CallbackCount = cbCount (hn_callbacks h),
     pd_CallbackURL = de_callbackURL E, pd_Flash = [], pd_FlashError = []\<rparr>"

definition getRecentCallbacks :: "Handlers \<Rightarrow> nat \<Rightarrow> CallbackEntry list" where
  "getRecentCallbacks h n = (let all = cbGetAll (hn_callbacks h) in if length all > n then take n all else all)"

definition newHomeData :: "'s dashEnv \<Rightarrow> Handlers \<Rightarrow> homeData" where
  "newHomeData E h = pageData.extend (newPageData E h ''Home'')
     \<lparr>hd_RecentCallbacks = getRecentCallbacks h 5, hd_LookupTxid = [], hd_LookupURLs = [], hd_LookupErr = []\<rparr>"

definition homePage :: "'s dashEnv \<Rightarrow> homeData \<Rightarrow> webResponse" where
  "homePage E v = render E ''home.html'' (HomePage v)"

definition handleHome :: "'s dashEnv \<Rightarrow> Handlers \<Rightarrow> webResponse" where
  "handleHome E h = homePage E (newHomeData E h)"

text \<open>The payload is a Go map, whose keys \<open>json.Marshal\<close> sorts.\<close>

definition dashPayload :: "string \<Rightarrow> string \<Rightarrow> json" where
  "dashPayload txid callbackURL = JObj [(''callbackUrl'', JStr callbackURL), (''txid'', JStr txid)]"

text \<open>The slice \<open>s[:n]\<close> of a string panics when the string is shorter.\<close>

definition sliceTo :: "nat \<Rightarrow> string \<Rightarrow> string go" where
  "sliceTo n s = (if n \<le> length s then Inr (take n s) else Inl IndexOutOfRange)"

definition handleRegister :: "'s dashEnv \<Rightarrow> string \<Rightarrow> string \<Rightarrow> Handlers \<Rightarrow> 's \<Rightarrow> (webResponse \<times> Handlers) go \<times> 's" where
  "handleRegister E txid callbackURL h s =
     (if \<not> txidRegex txid then
        (Inr (homePage E ((newHomeData E h)\<lparr>pd_FlashError := ''Invalid txid: must be exactly 64 hex characters''\<rparr>), h), s)
      else if callbackURL = [] then
        (Inr (homePage E ((newHomeData E h)\<lparr>pd_FlashError := ''Callback URL is required''\<rparr>), h), s)
      else case de_post E (de_merkleAPIURL E @ ''/watch'') (printJson (dashPayload txid callbackURL)) s of
        (Inl err, s) \<Rightarrow> (Inr (homePage E ((newHomeData E h)\<lparr>pd_FlashError := ''Failed to reach merkle-service: '' @ err\<rparr>), h), s)
      | (Inr (status, body), s) \<Rightarrow>
          if status \<noteq> 200 then
            (Inr (homePage E ((newHomeData E h)\<lparr>pd_FlashError := ''Merkle-service returned '' @ Itoa (int status) @ '': '' @ body\<rparr>), h), s)
          else (go_bind (trackAdd (de_now E) txid [callbackURL] (hn_tracker h)) (\<lambda>tr.
            let h = h\<lparr>hn_tracker := tr\<rparr>
            in go_bind (sliceTo 16 txid) (\<lambda>short.
              Inr (homePage E ((newHomeData E h)\<lparr>pd_Flash := ''Registered txid '' @ short @ ''... with callback URL '' @ callbackURL\<rparr>), h))), s))"

definition dashLookup :: "'s dashEnv \<Rightarrow> string \<Rightarrow> Handlers \<Rightarrow> 's \<Rightarrow> (webResponse \<times> Handlers) go" where
  "dashLookup E txid h s =
     (if txid = [] then Inr (homePage E ((newHomeData E h)\<lparr>pd_FlashError := ''Please enter a txid to look up''\<rparr>), h)
      else let d = (newHomeData E h)\<lparr>hd_LookupTxid := txid\<rparr>
        in case de_regGet E txid s of
             Inl err \<Rightarrow> Inr (homePage E (d\<lparr>hd_LookupErr := ''Error querying Aerospike: '' @ err\<rparr>), h)
           | Inr found \<Rightarrow>
               (case found of
                  None \<Rightarrow> Inr (homePage E (d\<lparr>hd_LookupErr := ''No registrations found''\<rparr>), h)
                | Some urls \<Rightarrow>
                    if urls = [] then Inr (homePage E (d\<lparr>hd_LookupErr := ''No registrations found''\<rparr>), h)
                    else go_bind (trackAdd (de_now E) txid urls (hn_tracker h)) (\<lambda>tr.
                      Inr (homePage E (d\<lparr>hd_LookupURLs := urls\<rparr>), h\<lparr>hn_tracker := tr\<rparr>))))"

text \<open>The refresh of all tracked txids from the registration store.\<close>

definition refresh :: "'s dashEnv \<Rightarrow> 's \<Rightarrow> TrackedTxid \<Rightarrow> TxidTracker \<Rightarrow> TxidTracker go" where
  "refresh E s t tr = (case de_regGet E (tt_Txid t) s of
      Inr (Some urls) \<Rightarrow> if urls \<noteq> [] then UpdateCallbackURLs (tt_Txid t) urls tr else Inr tr
    | _ \<Rightarrow> Inr tr)"

definition handleRegistrations :: "'s dashEnv \<Rightarrow> Handlers \<Rightarrow> 's \<Rightarrow> (webResponse \<times> Handlers) go" where
  "handleRegistrations E h s = go_bind (go_fold (refresh E s) (trackGetAll (hn_tracker h)) (hn_tracker h)) (\<lambda>tr.
     let h = h\<lparr>hn_tracker := tr\<rparr>
     in Inr (render E ''registrations.html'' (RegistrationsPage (newPageData E h ''Registrations'') (trackGetAll tr)), h))"

definition handleCallbacks :: "'s dashEnv \<Rightarrow> Handlers \<Rightarrow> webResponse" where
  "handleCallbacks E h = render E ''callbacks.html'' (CallbacksPage (newPageData E h ''Callbacks'') (cbGetAll (hn_callbacks h)))"

text \<open>
  A callback as a Go map: of members with the same key the last one counts, \<open>null\<close> is the empty map. A value that is no object, or has a number
  no float can hold, is kept as text.
\<close>

fun floatsOk :: "(string \<Rightarrow> bool) \<Rightarrow> json \<Rightarrow> bool" where
  "floatsOk f (JNum t) \<longleftrightarrow> f t"
| "floatsOk f (JArr vs) \<longleftrightarrow> (\<forall>v \<in> set vs. floatsOk f v)"
| "floatsOk f (JObj ms) \<longleftrightarrow> (\<forall>m \<in> set ms. floatsOk f (snd m))"
| "floatsOk f v \<longleftrightarrow> True"

definition parseCallback :: "'s dashEnv \<Rightarrow> string \<Rightarrow> string \<rightharpoonup> json" where
  "parseCallback E raw = (case parseJson raw of
      Some (JObj ms) \<Rightarrow> if floatsOk (de_floatOk E) (JObj ms) then map_of (rev ms) else [''_raw'' \<mapsto> JStr raw]
    | Some JNull \<Rightarrow> Map.empty
    | _ \<Rightarrow> [''_raw'' \<mapsto> JStr raw])"

definition handleCallbackReceive :: "'s dashEnv \<Rightarrow> string + string \<Rightarrow> Handlers \<Rightarrow> (webResponse \<times> Handlers) go" where
  "handleCallbackReceive E body h = (case body of
      Inl err \<Rightarrow> Inr (BadRequest ''failed to read body'', h)
    | Inr raw \<Rightarrow>
        go_bind (cbAdd \<lparr>ce_Timestamp = de_now E, ce_Body = parseCallback E raw, ce_RawJSON = raw\<rparr> (hn_callbacks h)) (\<lambda>cb.
          Inr (StatusOK ''{\"status\":\"ok\"}'', h\<lparr>hn_callbacks := cb\<rparr>)))"

definition handleStump :: "'s dashEnv \<Rightarrow> Handlers \<Rightarrow> webResponse" where
  "handleStump E h = render E ''stump.html'' (StumpPage (newPageData E h ''STUMP Visualizer''))"

definition handleCallbacksClear :: "Handlers \<Rightarrow> webResponse \<times> Handlers" where
  "handleCallbacksClear h = (SeeOther ''/callbacks'', h\<lparr>hn_callbacks := cbClear (hn_callbacks h)\<rparr>)"

section \<open>The routes\<close>

datatype dashRequest =
    DHome
  | DRegister string string
  | DLookup string
  | DRegistrations
  | DCallbacks
  | DStump
  | DReceive "string + string"
  | DClear

definition dashServe :: "'s dashEnv \<Rightarrow> dashRequest \<Rightarrow> Handlers \<Rightarrow> 's \<Rightarrow> (webResponse \<times> Handlers) go \<times> 's" where
  "dashServe E rq h s = (case rq of
      DHome \<Rightarrow> (Inr (handleHome E h, h), s)
    | DRegister txid url \<Rightarrow> handleRegister E txid url h s
    | DLookup txid \<Rightarrow> (dashLookup E txid h s, s)
    | DRegistrations \<Rightarrow> (handleRegistrations E h s, s)
    | DCallbacks \<Rightarrow> (Inr (handleCallbacks E h, h), s)
    | DStump \<Rightarrow> (Inr (handleStump E h, h), s)
    | DReceive body \<Rightarrow> (handleCallbackReceive E body h, s)
    | DClear \<Rightarrow> (Inr (handleCallbacksClear h), s))"

text \<open>A sequence of requests, each with what its handler is given.\<close>

fun dashRun :: "('s dashEnv \<times> dashRequest) list \<Rightarrow> Handlers \<Rightarrow> 's \<Rightarrow> (webResponse list \<times> Handlers) go \<times> 's" where
  "dashRun [] h s = (Inr ([], h), s)"
| "dashRun ((E, rq) # rqs) h s = (case dashServe E rq h s of
      (Inl p, s) \<Rightarrow> (Inl p, s)
    | (Inr (rp, h), s) \<Rightarrow> (case dashRun rqs h s of
        (Inl p, s) \<Rightarrow> (Inl p, s)
      | (Inr (rps, h), s) \<Rightarrow> (Inr (rp # rps, h), s)))"

section \<open>The buffer keeps the last callbacks\<close>

definition lastN :: "nat \<Rightarrow> 'a list \<Rightarrow> 'a list" where
  "lastN n xs = drop (length xs - n) xs"

lemma lastN_snoc: "0 < n \<Longrightarrow> lastN n (xs @ [x]) = (if length xs < n then xs @ [x] else tl (lastN n xs) @ [x])"
  by (auto simp: lastN_def drop_Suc tl_drop Suc_diff_le)

lemma length_lastN: "length (lastN n xs) = min n (length xs)"
  by (simp add: lastN_def)

lemma lastN_all: "length xs \<le> n \<Longrightarrow> lastN n xs = xs"
  by (simp add: lastN_def)

definition bufferOf :: "nat \<Rightarrow> CallbackEntry list \<Rightarrow> CallbackStore \<Rightarrow> bool" where
  "bufferOf n xs s \<longleftrightarrow> cb_maxSize s = int n \<and> cb_entries s = lastN n xs"

lemma cbAdd_buffer:
  assumes "bufferOf n xs s" and "0 < n"
  shows "\<exists>s'. cbAdd e s = Inr s' \<and> bufferOf n (xs @ [e]) s'"
proof (cases "length xs < n")
  case True
  then have "cb_entries s = xs" using assms(1) by (simp add: bufferOf_def lastN_all)
  then show ?thesis using assms True by (simp add: cbAdd_def bufferOf_def lastN_snoc)
next
  case False
  then have "lastN n xs \<noteq> []" using assms(2) length_lastN [of n xs] by auto
  then obtain a es where "lastN n xs = a # es" by (cases "lastN n xs") simp_all
  then show ?thesis using assms False length_lastN [of n xs] by (simp add: cbAdd_def bufferOf_def lastN_snoc)
qed

text \<open>The loop of \<open>GetAll\<close> reverses the entries.\<close>

lemma reverse_loop:
  assumes "k \<le> length xs" and "length r = length xs"
  shows "fold (\<lambda>i r. r[length xs - 1 - i := xs ! i]) [0..<k] r = take (length xs - k) r @ rev (take k xs)"
  using assms(1)
proof (induction k)
  case (Suc k)
  let ?n = "length xs"
  have "?n - k = Suc (?n - Suc k)" using Suc.prems by simp
  then have t: "take (?n - k) r = take (?n - Suc k) r @ [r ! (?n - Suc k)]"
    using assms(2) by (simp add: take_Suc_conv_app_nth)
  show ?case using Suc assms(2) t by (simp add: list_update_append take_Suc_conv_app_nth)
qed (simp add: assms(2))

lemma cbGetAll_rev: "cbGetAll s = rev (cb_entries s)"
  using reverse_loop [of "length (cb_entries s)" "cb_entries s" "replicate (length (cb_entries s)) (cb_entries s ! 0)"]
  by (simp add: cbGetAll_def Let_def)

section \<open>The tracker is a list of txids with their URLs\<close>

definition trackInv :: "TxidTracker \<Rightarrow> bool" where
  "trackInv t \<longleftrightarrow> (\<forall>txid i. tr_index t txid = Some i \<longleftrightarrow> i < length (tr_txids t) \<and> tt_Txid (tr_txids t ! i) = txid)"

definition trackAbs :: "TxidTracker \<Rightarrow> (string \<times> string list) list" where
  "trackAbs t = map (\<lambda>x. (tt_Txid x, tt_CallbackURLs x)) (tr_txids t)"

lemma trackInv_distinct: "trackInv t \<Longrightarrow> distinct (map tt_Txid (tr_txids t))"
  unfolding trackInv_def distinct_conv_nth by (metis length_map nth_map option.inject)

lemma update_nth:
  "i < length xs \<Longrightarrow> fst (xs ! i) = k \<Longrightarrow> distinct (map fst xs) \<Longrightarrow> AList.update k v xs = xs[i := (k, v)]"
proof (induction xs arbitrary: i)
  case (Cons x xs)
  show ?case
  proof (cases i)
    case 0
    then show ?thesis using Cons.prems by (cases x) simp
  next
    case (Suc j)
    then have "k \<in> fst ` set xs" using Cons.prems by auto
    then have "fst x \<noteq> k" using Cons.prems(3) by auto
    then show ?thesis using Cons Suc by (cases x) simp
  qed
qed simp

lemma trackInv_index:
  assumes "trackInv t"
  shows "tr_index t txid = None \<longleftrightarrow> txid \<notin> fst ` set (trackAbs t)"
proof -
  have "tr_index t txid = None \<longleftrightarrow> (\<forall>i < length (tr_txids t). tt_Txid (tr_txids t ! i) \<noteq> txid)"
    using assms unfolding trackInv_def by (metis not_None_eq)
  also have "\<dots> \<longleftrightarrow> txid \<notin> tt_Txid ` set (tr_txids t)" by (metis image_iff in_set_conv_nth)
  also have "tt_Txid ` set (tr_txids t) = fst ` set (trackAbs t)" by (force simp: trackAbs_def)
  finally show ?thesis .
qed

lemma update_new: "k \<notin> fst ` set xs \<Longrightarrow> AList.update k v xs = xs @ [(k, v)]"
  by (induction xs) auto

lemma setURLs:
  assumes "trackInv t" and "tr_index t txid = Some i"
  shows "i < length (tr_txids t) \<and> trackInv (t\<lparr>tr_txids := (tr_txids t)[i := (tr_txids t ! i)\<lparr>tt_CallbackURLs := urls\<rparr>]\<rparr>)
    \<and> trackAbs (t\<lparr>tr_txids := (tr_txids t)[i := (tr_txids t ! i)\<lparr>tt_CallbackURLs := urls\<rparr>]\<rparr>) = AList.update txid urls (trackAbs t)"
proof -
  have i: "i < length (tr_txids t)" "tt_Txid (tr_txids t ! i) = txid" using assms by (auto simp: trackInv_def)
  have "AList.update txid urls (trackAbs t) = (trackAbs t)[i := (txid, urls)]"
    by (rule update_nth) (use i trackInv_distinct [OF assms(1)] in \<open>simp_all add: trackAbs_def comp_def\<close>)
  moreover have "trackInv (t\<lparr>tr_txids := (tr_txids t)[i := (tr_txids t ! i)\<lparr>tt_CallbackURLs := urls\<rparr>]\<rparr>)"
    using assms(1) i unfolding trackInv_def by (auto simp: nth_list_update)
  ultimately show ?thesis using i by (simp add: trackAbs_def map_update)
qed

text \<open>Adding a txid is the update of an association list: in place for a known txid, at the end for a new one.\<close>

lemma trackAdd_refines:
  assumes "trackInv t"
  shows "\<exists>t'. trackAdd now txid urls t = Inr t' \<and> trackInv t' \<and> trackAbs t' = AList.update txid urls (trackAbs t)"
proof (cases "tr_index t txid")
  case None
  then have "txid \<notin> fst ` set (trackAbs t)" using trackInv_index [OF assms] by simp
  then have "AList.update txid urls (trackAbs t) = trackAbs t @ [(txid, urls)]" by (rule update_new)
  moreover have "i < length (tr_txids t) \<Longrightarrow> tt_Txid (tr_txids t ! i) \<noteq> txid" for i
    using assms None unfolding trackInv_def by (metis option.distinct(1))
  ultimately show ?thesis using None assms by (auto simp: trackAdd_def trackAbs_def trackInv_def nth_append less_Suc_eq)
next
  case (Some i)
  then show ?thesis using setURLs [OF assms Some] by (simp add: trackAdd_def)
qed

lemma UpdateCallbackURLs_refines:
  assumes "trackInv t"
  shows "\<exists>t'. UpdateCallbackURLs txid urls t = Inr t' \<and> trackInv t'
    \<and> trackAbs t' = (if txid \<in> fst ` set (trackAbs t) then AList.update txid urls (trackAbs t) else trackAbs t)"
proof (cases "tr_index t txid")
  case None
  then show ?thesis using assms trackInv_index [OF assms, of txid] by (simp add: UpdateCallbackURLs_def)
next
  case (Some i)
  then have "txid \<in> fst ` set (trackAbs t)" using trackInv_index [OF assms, of txid] by auto
  then show ?thesis using setURLs [OF assms Some] Some by (simp add: UpdateCallbackURLs_def)
qed

section \<open>Any sequence of requests\<close>

text \<open>
  What the tracker should hold: an association list of txids and URLs without an index. A registration the service accepted and a look-up
  that found URLs set the URLs of the txid; the page of the registrations takes over the URLs the store has now.
\<close>

definition storedURLs :: "'s dashEnv \<Rightarrow> 's \<Rightarrow> string \<Rightarrow> string list \<Rightarrow> string list" where
  "storedURLs E s t us = (case de_regGet E t s of Inr (Some urls) \<Rightarrow> if urls \<noteq> [] then urls else us | _ \<Rightarrow> us)"

definition trackedBy :: "'s dashEnv \<Rightarrow> dashRequest \<Rightarrow> 's \<Rightarrow> (string \<times> string list) list \<Rightarrow> (string \<times> string list) list" where
  "trackedBy E rq s al = (case rq of
      DRegister txid url \<Rightarrow>
        if txidRegex txid \<and> url \<noteq> [] \<and> (\<exists>body. fst (de_post E (de_merkleAPIURL E @ ''/watch'') (printJson (dashPayload txid url)) s) = Inr (200, body))
        then AList.update txid [url] al else al
    | DLookup txid \<Rightarrow> if txid \<noteq> [] \<and> storedURLs E s txid [] \<noteq> [] then AList.update txid (storedURLs E s txid []) al else al
    | DRegistrations \<Rightarrow> map (\<lambda>(t, us). (t, storedURLs E s t us)) al
    | _ \<Rightarrow> al)"

text \<open>A request changes what is outside only by what it posts.\<close>

definition outside :: "'s dashEnv \<Rightarrow> dashRequest \<Rightarrow> 's \<Rightarrow> 's" where
  "outside E rq s = (case rq of
      DRegister txid url \<Rightarrow>
        if txidRegex txid \<and> url \<noteq> [] then snd (de_post E (de_merkleAPIURL E @ ''/watch'') (printJson (dashPayload txid url)) s) else s
    | _ \<Rightarrow> s)"

lemma dashServe_outside: "snd (dashServe E rq h s) = outside E rq s"
  by (auto simp: dashServe_def handleRegister_def outside_def split: dashRequest.splits prod.splits sum.splits)

fun trackSpec :: "('s dashEnv \<times> dashRequest) list \<Rightarrow> 's \<Rightarrow> (string \<times> string list) list \<Rightarrow> (string \<times> string list) list" where
  "trackSpec [] s al = al"
| "trackSpec ((E, rq) # rqs) s al = trackSpec rqs (outside E rq s) (trackedBy E rq s al)"

definition dashOk :: "nat \<Rightarrow> CallbackEntry list \<Rightarrow> (string \<times> string list) list \<Rightarrow> Handlers \<Rightarrow> bool" where
  "dashOk n xs al h \<longleftrightarrow> bufferOf n xs (hn_callbacks h) \<and> trackInv (hn_tracker h) \<and> trackAbs (hn_tracker h) = al"

text \<open>The callbacks received since the buffer was cleared.\<close>

definition receivedBy :: "'s dashEnv \<times> dashRequest \<Rightarrow> CallbackEntry list \<Rightarrow> CallbackEntry list" where
  "receivedBy r xs = (case r of
      (E, DReceive (Inr raw)) \<Rightarrow> xs @ [\<lparr>ce_Timestamp = de_now E, ce_Body = parseCallback E raw, ce_RawJSON = raw\<rparr>]
    | (E, DClear) \<Rightarrow> []
    | _ \<Rightarrow> xs)"

lemma update_map:
  "distinct (map fst al) \<Longrightarrow> (if k \<in> fst ` set al then AList.update k v al else al) = map (\<lambda>(t, us). (t, if t = k then v else us)) al"
proof (induction al)
  case (Cons x al)
  obtain t us where x: "x = (t, us)" by fastforce
  have "map (\<lambda>(t', us). (t', if t' = t then v else us)) al = al" if "t \<notin> fst ` set al"
    using that by (intro map_idI) (force split: prod.splits)
  then show ?case using Cons x by (cases "k = t"; cases "k \<in> fst ` set al") auto
qed simp

lemma trackAbs_distinct: "trackInv t \<Longrightarrow> distinct (map fst (trackAbs t))"
  using trackInv_distinct [of t] by (simp add: trackAbs_def comp_def)

lemma refresh_effect:
  assumes "trackInv tr"
  shows "\<exists>tr'. refresh E s t tr = Inr tr' \<and> trackInv tr'
    \<and> trackAbs tr' = map (\<lambda>(t', us). (t', if t' = tt_Txid t then storedURLs E s t' us else us)) (trackAbs tr)"
proof (cases "\<exists>urls. de_regGet E (tt_Txid t) s = Inr (Some urls) \<and> urls \<noteq> []")
  case True
  then obtain urls where u: "de_regGet E (tt_Txid t) s = Inr (Some urls)" "urls \<noteq> []" by blast
  have "map (\<lambda>(t', us). (t', if t' = tt_Txid t then storedURLs E s t' us else us)) al = map (\<lambda>(t', us). (t', if t' = tt_Txid t then urls else us)) al" for al
    using u by (auto simp: storedURLs_def)
  then show ?thesis
    using UpdateCallbackURLs_refines [OF assms, of "tt_Txid t" urls] u
    unfolding update_map [OF trackAbs_distinct [OF assms]] by (simp only:) (simp add: refresh_def)
next
  case False
  then have "storedURLs E s (tt_Txid t) us = us" for us by (auto simp: storedURLs_def split: sum.splits option.splits)
  then have "map (\<lambda>(t', us). (t', if t' = tt_Txid t then storedURLs E s t' us else us)) al = al" for al by (intro map_idI) auto
  then show ?thesis using False assms by (auto simp: refresh_def split: sum.splits option.splits)
qed

lemma refresh_all:
  assumes "trackInv tr"
  shows "\<exists>tr'. go_fold (refresh E s) ts tr = Inr tr' \<and> trackInv tr'
    \<and> trackAbs tr' = map (\<lambda>(t', us). (t', if t' \<in> tt_Txid ` set ts then storedURLs E s t' us else us)) (trackAbs tr)"
  using assms
proof (induction ts arbitrary: tr)
  case (Cons t ts)
  have twice: "storedURLs E s t' (storedURLs E s t' us) = storedURLs E s t' us" for t' us
    by (auto simp: storedURLs_def split: sum.splits option.splits)
  obtain tr1 where 1: "refresh E s t tr = Inr tr1" "trackInv tr1"
    "trackAbs tr1 = map (\<lambda>(t', us). (t', if t' = tt_Txid t then storedURLs E s t' us else us)) (trackAbs tr)"
    using refresh_effect [OF Cons.prems, of E s t] by (elim exE conjE)
  obtain tr2 where 2: "go_fold (refresh E s) ts tr1 = Inr tr2" "trackInv tr2"
    "trackAbs tr2 = map (\<lambda>(t', us). (t', if t' \<in> tt_Txid ` set ts then storedURLs E s t' us else us)) (trackAbs tr1)"
    using Cons.IH [OF 1(2)] by (elim exE conjE)
  have "trackAbs tr2 = map (\<lambda>(t', us). (t', if t' \<in> tt_Txid ` set (t # ts) then storedURLs E s t' us else us)) (trackAbs tr)"
    unfolding 2(3) 1(3) by (auto simp: twice)
  then show ?case using 1(1) 2(1,2) by simp
qed (simp add: map_idI split_def)

lemma handleRegistrations_ok:
  assumes "dashOk n xs al h"
  shows "\<exists>rp h'. handleRegistrations E h s = Inr (rp, h') \<and> dashOk n xs (trackedBy E DRegistrations s al) h'"
proof -
  have t: "trackInv (hn_tracker h)" "trackAbs (hn_tracker h) = al" using assms by (simp_all add: dashOk_def)
  have "fst ` set al \<subseteq> tt_Txid ` set (tr_txids (hn_tracker h))" using t(2) by (auto simp: trackAbs_def)
  then have "map (\<lambda>(t', us). (t', if t' \<in> tt_Txid ` set (tr_txids (hn_tracker h)) then storedURLs E s t' us else us)) al = trackedBy E DRegistrations s al"
    by (force simp: trackedBy_def)
  then show ?thesis using assms refresh_all [OF t(1), of E s "tr_txids (hn_tracker h)"]
    by (auto simp: handleRegistrations_def trackGetAll_def dashOk_def Let_def)
qed

lemma handleRegister_ok:
  assumes "dashOk n xs al h"
  shows "\<exists>rp h'. fst (handleRegister E txid url h s) = Inr (rp, h') \<and> dashOk n xs (trackedBy E (DRegister txid url) s al) h'"
proof -
  have "sliceTo 16 txid = Inr (take 16 txid)" if "txidRegex txid" using that by (simp add: sliceTo_def txidRegex_def)
  then show ?thesis using assms trackAdd_refines [of "hn_tracker h" "de_now E" txid "[url]"]
    by (force simp: handleRegister_def trackedBy_def dashOk_def Let_def split: prod.splits sum.splits)
qed

lemma dashLookup_ok:
  assumes "dashOk n xs al h"
  shows "\<exists>rp h'. dashLookup E txid h s = Inr (rp, h') \<and> dashOk n xs (trackedBy E (DLookup txid) s al) h'"
proof -
  obtain tr where "trackAdd (de_now E) txid us (hn_tracker h) = Inr (tr us) \<and> trackInv (tr us) \<and> trackAbs (tr us) = AList.update txid us al" for us
    using assms trackAdd_refines [of "hn_tracker h" "de_now E" txid] unfolding dashOk_def by metis
  then show ?thesis using assms by (auto simp: dashLookup_def trackedBy_def storedURLs_def dashOk_def Let_def split: sum.splits option.splits)
qed

lemma dashServe_ok:
  assumes "dashOk n xs al h" and "0 < n"
  shows "\<exists>rp h'. fst (dashServe E rq h s) = Inr (rp, h') \<and> dashOk n (receivedBy (E, rq) xs) (trackedBy E rq s al) h'"
proof (cases rq)
  case (DRegister txid url)
  then show ?thesis using handleRegister_ok [OF assms(1)] by (simp add: dashServe_def receivedBy_def)
next
  case (DLookup txid)
  then show ?thesis using dashLookup_ok [OF assms(1)] by (simp add: dashServe_def receivedBy_def)
next
  case DRegistrations
  then show ?thesis using handleRegistrations_ok [OF assms(1)] by (simp add: dashServe_def receivedBy_def)
next
  case (DReceive body)
  show ?thesis
  proof (cases body)
    case (Inr raw)
    let ?e = "\<lparr>ce_Timestamp = de_now E, ce_Body = parseCallback E raw, ce_RawJSON = raw\<rparr>"
    obtain cb where "cbAdd ?e (hn_callbacks h) = Inr cb" "bufferOf n (xs @ [?e]) cb"
      using assms cbAdd_buffer [of n xs "hn_callbacks h" ?e] by (auto simp: dashOk_def)
    then show ?thesis using DReceive Inr assms(1) by (simp add: dashServe_def receivedBy_def trackedBy_def handleCallbackReceive_def dashOk_def)
  qed (use DReceive assms(1) in \<open>simp add: dashServe_def receivedBy_def trackedBy_def handleCallbackReceive_def\<close>)
next
  case DClear
  then show ?thesis using assms(1) by (auto simp: dashServe_def receivedBy_def trackedBy_def handleCallbacksClear_def dashOk_def bufferOf_def cbClear_def lastN_def)
qed (use assms(1) in \<open>auto simp: dashServe_def receivedBy_def trackedBy_def\<close>)

lemma dashRun_ok:
  assumes "dashOk n xs al h" and "0 < n"
  shows "\<exists>rps h'. fst (dashRun rqs h s) = Inr (rps, h') \<and> length rps = length rqs \<and> dashOk n (fold receivedBy rqs xs) (trackSpec rqs s al) h'"
  using assms(1)
proof (induction rqs arbitrary: xs al h s)
  case (Cons r rqs)
  obtain E rq where r: "r = (E, rq)" by fastforce
  obtain rp h1 s1 where 1: "dashServe E rq h s = (Inr (rp, h1), s1)" "dashOk n (receivedBy (E, rq) xs) (trackedBy E rq s al) h1"
    using dashServe_ok [OF Cons.prems assms(2), of E rq s] by (metis prod.collapse)
  obtain rps h' s' where 2: "dashRun rqs h1 s1 = (Inr (rps, h'), s')" "length rps = length rqs"
    "dashOk n (fold receivedBy rqs (receivedBy (E, rq) xs)) (trackSpec rqs s1 (trackedBy E rq s al)) h'"
    using Cons.IH [OF 1(2), of s1] by (metis prod.collapse)
  have "outside E rq s = s1" using dashServe_outside [of E rq h s] 1(1) by simp
  then show ?case using 1 2 by (simp add: r)
qed simp

text \<open>
  C40: The dashboard under any sequence of requests. Started with room for at least one callback, it answers all of them without a panic
  (the shortened txid of the success message included). Afterwards it shows the callbacks received since the last clearing, the newest
  first and as many as there is room for. It tracks, once each and in the order of their first appearance, exactly the txids of a
  registration that the service accepted or of a look-up that found URLs, each with the URLs it got last.
\<close>

theorem dashboard_run:
  assumes "0 < n" and "NewCallbackStore (int n) = Inr cb" and "dashRun rqs \<lparr>hn_callbacks = cb, hn_tracker = NewTxidTracker\<rparr> s = (out, s')"
  shows "\<exists>rps h. out = Inr (rps, h) \<and> length rps = length rqs
    \<and> cbGetAll (hn_callbacks h) = rev (lastN n (fold receivedBy rqs []))
    \<and> map (\<lambda>x. (tt_Txid x, tt_CallbackURLs x)) (trackGetAll (hn_tracker h)) = trackSpec rqs s []
    \<and> distinct (map tt_Txid (trackGetAll (hn_tracker h)))"
proof -
  have "dashOk n [] [] \<lparr>hn_callbacks = cb, hn_tracker = NewTxidTracker\<rparr>"
    using assms(2) by (auto simp: dashOk_def NewCallbackStore_def bufferOf_def lastN_def trackInv_def trackAbs_def NewTxidTracker_def split: if_splits)
  from dashRun_ok [OF this assms(1), of rqs s] assms(3)
  obtain rps h where "out = Inr (rps, h)" "length rps = length rqs" "dashOk n (fold receivedBy rqs []) (trackSpec rqs s []) h" by auto
  then show ?thesis using trackInv_distinct [of "hn_tracker h"] by (auto simp: dashOk_def bufferOf_def cbGetAll_rev trackGetAll_def trackAbs_def)
qed

definition exDash :: "unit dashEnv" where
  "exDash = \<lparr>de_merkleAPIURL = ''http://localhost:8080'', de_callbackURL = ''http://localhost:9900/callbacks/receive'',
     de_post = (\<lambda>_ _ s. (Inr (200, []), s)), de_regGet = (\<lambda>_ _. Inr None), de_template = (\<lambda>_. Some (\<lambda>_. True)), de_floatOk = (\<lambda>_. True), de_now = 7\<rparr>"

theorem dashboard_run_witness:
  "\<exists>rps h. fst (dashRun [(exDash, DRegister exTxid ''http://a''), (exDash, DReceive (Inr ''1'')), (exDash, DReceive (Inr ''2''))]
      \<lparr>hn_callbacks = \<lparr>cb_entries = [], cb_maxSize = 1\<rparr>, hn_tracker = NewTxidTracker\<rparr> ()) = Inr (rps, h)
    \<and> map ce_RawJSON (cbGetAll (hn_callbacks h)) = [''2''] \<and> map tt_Txid (trackGetAll (hn_tracker h)) = [exTxid]"
proof -
  let ?rqs = "[(exDash, DRegister exTxid ''http://a''), (exDash, DReceive (Inr ''1'')), (exDash, DReceive (Inr ''2''))]"
  obtain out s where r: "dashRun ?rqs \<lparr>hn_callbacks = \<lparr>cb_entries = [], cb_maxSize = 1\<rparr>, hn_tracker = NewTxidTracker\<rparr> () = (out, s)"
    by (metis surj_pair)
  have "NewCallbackStore (int 1) = Inr \<lparr>cb_entries = [], cb_maxSize = 1\<rparr>" by (simp add: NewCallbackStore_def)
  have t: "txidRegex exTxid" by (simp add: txidRegex_def exTxid_def isHexChar_def list_all_iff)
  have spec: "trackSpec ?rqs () [] = [(exTxid, [''http://a''])]" using t by (simp add: trackedBy_def outside_def exDash_def)
  obtain rps h where h: "out = Inr (rps, h)" "cbGetAll (hn_callbacks h) = rev (lastN 1 (fold receivedBy ?rqs []))"
    "map (\<lambda>x. (tt_Txid x, tt_CallbackURLs x)) (trackGetAll (hn_tracker h)) = trackSpec ?rqs () []"
    using dashboard_run [OF _ \<open>NewCallbackStore (int 1) = _\<close> r] by auto
  have "map tt_Txid (trackGetAll (hn_tracker h)) = [exTxid]"
    using arg_cong [where f = "map fst", OF h(3)] unfolding spec by (simp add: comp_def)
  then show ?thesis using h(1,2) r by (auto simp: receivedBy_def lastN_def)
qed

text \<open>With room for none, which the flag allows, every received callback panics.\<close>

lemma no_room: "NewCallbackStore 0 = Inr s \<Longrightarrow> cbAdd e s = Inl IndexOutOfRange"
  by (auto simp: NewCallbackStore_def cbAdd_def)

text \<open>The service reads the dashboard's request as the client's.\<close>

lemma dashPayload_read:
  assumes "validUtf8 t" and "validUtf8 u"
  shows "decodeWatch (printJson (dashPayload t u)) = Inr \<lparr>wr_TxID = t, wr_CallbackURL = u\<rparr>"
proof -
  have "firstValue (printJson (dashPayload t u) @ []) = Some (dashPayload t u, [])"
    using assms by (intro firstValue_print) (simp_all add: dashPayload_def numEnds)
  then show ?thesis by (simp add: decodeWatch_def decodeStruct_def dashPayload_def watchFields_def decode_field)
qed

end
