(* ===== verification/Configuration.thy ===== *)
theory Configuration
  imports Go_Strings "HOL-Library.Monad_Syntax"
begin

text \<open>
  The configuration (internal/config/config.go): its structures, the defaults, the environment variables and \<open>Load\<close>.

  Reading is done by the library viper, which is not part of the repository. Its operations are the fields of \<open>viper\<close>;
  what its documentation says of them are the laws of the locale \<open>viper_laws\<close>: a value comes from the variable bound to
  the key if that is set and not empty, else from the file, else from the default. How a value is converted to the type of
  a field is the parameter \<open>decoders\<close>.
\<close>

section \<open>Structures\<close>

definition BackendAerospike :: string where
  "BackendAerospike = ''aerospike''"

definition BackendSQL :: string where
  "BackendSQL = ''sql''"

record APIConfig =
  API_Port :: int

record StoreSQLConfig =
  StoreSQL_Driver :: string
  StoreSQL_DSN :: string
  StoreSQL_Schema :: string
  StoreSQL_SweeperInterval :: string
  StoreSQL_MaxOpenConns :: int
  StoreSQL_MaxIdleConns :: int

record StoreConfig =
  Store_Backend :: string
  Store_SQL :: StoreSQLConfig

record AerospikeConfig =
  Aerospike_Host :: string
  Aerospike_Port :: int
  Aerospike_Namespace :: string
  Aerospike_SetName :: string
  Aerospike_SeenSet :: string
  Aerospike_CallbackDedupSet :: string
  Aerospike_CallbackURLRegistry :: string
  Aerospike_SubtreeCounterSet :: string
  Aerospike_SubtreeCounterTTLSec :: int
  Aerospike_CallbackAccumulatorSet :: string
  Aerospike_CallbackAccumulatorTTLSec :: int
  Aerospike_MaxRetries :: int
  Aerospike_RetryBaseMs :: int

record KafkaConfig =
  Kafka_Brokers :: "string list"
  Kafka_SubtreeTopic :: string
  Kafka_BlockTopic :: string
  Kafka_CallbackTopic :: string
  Kafka_CallbackDLQTopic :: string
  Kafka_SubtreeDLQTopic :: string
  Kafka_SubtreeWorkTopic :: string
  Kafka_ConsumerGroup :: string

record P2PMsgBusConfig =
  P2PMsgBus_DHTMode :: string
  P2PMsgBus_Port :: int
  P2PMsgBus_AnnounceAddrs :: "string list"
  P2PMsgBus_BootstrapPeers :: "string list"
  P2PMsgBus_MaxConnections :: int
  P2PMsgBus_MinConnections :: int
  P2PMsgBus_EnableNAT :: bool
  P2PMsgBus_EnableMDNS :: bool

record P2PConfig =
  P2P_Network :: string
  P2P_StoragePath :: string
  P2P_MsgBus :: P2PMsgBusConfig

record SubtreeConfig =
  Subtree_StorageMode :: string
  Subtree_DAHOffset :: int
  Subtree_StumpDAHOffset :: int
  Subtree_CacheMaxMB :: int
  Subtree_DedupCacheSize :: int
  Subtree_MaxAttempts :: int

record BlockConfig =
  Block_WorkerPoolSize :: int
  Block_PostMineTTLSec :: int
  Block_DedupCacheSize :: int

record CallbackConfig =
  Callback_MaxRetries :: int
  Callback_BackoffBaseSec :: int
  Callback_TimeoutSec :: int
  Callback_SeenThreshold :: int
  Callback_DedupTTLSec :: int
  Callback_DeliveryWorkers :: int
  Callback_MaxConnsPerHost :: int
  Callback_MaxIdleConnsPerHost :: int

record BlobStoreConfig =
  BlobStore_URL :: string

record DataHubConfig =
  DataHub_TimeoutSec :: int
  DataHub_MaxRetries :: int

record Config =
  Cfg_Mode :: string
  Cfg_LogLevel :: string
  Cfg_API :: APIConfig
  Cfg_Store :: StoreConfig
  Cfg_Aerospike :: AerospikeConfig
  Cfg_Kafka :: KafkaConfig
  Cfg_P2P :: P2PConfig
  Cfg_Subtree :: SubtreeConfig
  Cfg_Block :: BlockConfig
  Cfg_Callback :: CallbackConfig
  Cfg_BlobStore :: BlobStoreConfig
  Cfg_DataHub :: DataHubConfig

section \<open>Defaults and environment variables\<close>

datatype cfgVal = CStr string | CInt int | CBool bool | CStrs "string list"

definition defaults :: "(string \<times> cfgVal) list" where
  "defaults =
    [(''mode'', CStr ''all-in-one''), (''loglevel'', CStr ''info''), (''api.port'', CInt 8080),
     (''store.backend'', CStr BackendAerospike), (''store.sql.driver'', CStr ''postgres''), (''store.sql.schema'', CStr ''''),
     (''store.sql.sweeperinterval'', CStr ''60s''), (''store.sql.maxopenconns'', CInt 25), (''store.sql.maxidleconns'', CInt 5),
     (''aerospike.host'', CStr ''localhost''), (''aerospike.port'', CInt 3000), (''aerospike.namespace'', CStr ''merkle''),
     (''aerospike.setname'', CStr ''registrations''), (''aerospike.seenset'', CStr ''seen_counters''), (''aerospike.callbackdedupset'', CStr ''callback_dedup''),
     (''aerospike.callbackurlregistry'', CStr ''callback_urls''), (''aerospike.subtreecounterset'', CStr ''subtree_counters''), (''aerospike.subtreecounterttlsec'', CInt 600),
     (''aerospike.callbackaccumulatorset'', CStr ''callback_accum''), (''aerospike.callbackaccumulatorttlsec'', CInt 600), (''aerospike.maxretries'', CInt 3),
     (''aerospike.retrybasems'', CInt 100), (''kafka.brokers'', CStrs [''localhost:9092'']), (''kafka.subtreetopic'', CStr ''subtree''),
     (''kafka.blocktopic'', CStr ''block''), (''kafka.callbacktopic'', CStr ''callback''), (''kafka.callbackdlqtopic'', CStr ''callback-dlq''),
     (''kafka.subtreedlqtopic'', CStr ''subtree-dlq''), (''kafka.subtreeworktopic'', CStr ''subtree-work''), (''kafka.consumergroup'', CStr ''merkle-service''),
     (''p2p.network'', CStr ''main''), (''p2p.storagepath'', CStr ''~/.merkle-service/p2p''), (''p2p.msgbus.dhtmode'', CStr ''off''),
     (''p2p.msgbus.port'', CInt 9905), (''p2p.msgbus.enablenat'', CBool False), (''p2p.msgbus.enablemdns'', CBool False),
     (''subtree.storagemode'', CStr ''realtime''), (''subtree.dahoffset'', CInt 1), (''subtree.stumpdahoffset'', CInt 6),
     (''subtree.cachemaxmb'', CInt 64), (''subtree.dedupcachesize'', CInt 100000), (''subtree.maxattempts'', CInt 10),
     (''block.workerpoolsize'', CInt 16), (''block.postminettlsec'', CInt 1800), (''block.dedupcachesize'', CInt 10000),
     (''callback.maxretries'', CInt 5), (''callback.backoffbasesec'', CInt 30), (''callback.timeoutsec'', CInt 10),
     (''callback.seenthreshold'', CInt 3), (''callback.dedupttlsec'', CInt 86400), (''callback.deliveryworkers'', CInt 64),
     (''callback.maxconnsperhost'', CInt 32), (''callback.maxidleconnsperhost'', CInt 16), (''blobstore.url'', CStr ''file:///tmp/merkle-subtrees''),
     (''datahub.timeoutsec'', CInt 30), (''datahub.maxretries'', CInt 3)]"

definition envBindings :: "(string \<times> string) list" where
  "envBindings =
    [(''mode'', ''MODE''), (''loglevel'', ''LOG_LEVEL''),
     (''api.port'', ''API_PORT''), (''store.backend'', ''STORE_BACKEND''),
     (''store.sql.driver'', ''STORE_SQL_DRIVER''), (''store.sql.dsn'', ''STORE_SQL_DSN''),
     (''store.sql.schema'', ''STORE_SQL_SCHEMA''), (''store.sql.sweeperinterval'', ''STORE_SQL_SWEEPER_INTERVAL''),
     (''store.sql.maxopenconns'', ''STORE_SQL_MAX_OPEN_CONNS''), (''store.sql.maxidleconns'', ''STORE_SQL_MAX_IDLE_CONNS''),
     (''aerospike.host'', ''AEROSPIKE_HOST''), (''aerospike.port'', ''AEROSPIKE_PORT''),
     (''aerospike.namespace'', ''AEROSPIKE_NAMESPACE''), (''aerospike.setname'', ''AEROSPIKE_SET''),
     (''aerospike.seenset'', ''AEROSPIKE_SEEN_SET''), (''aerospike.callbackdedupset'', ''AEROSPIKE_CALLBACK_DEDUP_SET''),
     (''aerospike.callbackurlregistry'', ''AEROSPIKE_CALLBACK_URL_REGISTRY''), (''aerospike.subtreecounterset'', ''AEROSPIKE_SUBTREE_COUNTER_SET''),
     (''aerospike.subtreecounterttlsec'', ''AEROSPIKE_SUBTREE_COUNTER_TTL_SEC''), (''aerospike.callbackaccumulatorset'', ''AEROSPIKE_CALLBACK_ACCUMULATOR_SET''),
     (''aerospike.callbackaccumulatorttlsec'', ''AEROSPIKE_CALLBACK_ACCUMULATOR_TTL_SEC''), (''aerospike.maxretries'', ''AEROSPIKE_MAX_RETRIES''),
     (''aerospike.retrybasems'', ''AEROSPIKE_RETRY_BASE_MS''), (''kafka.brokers'', ''KAFKA_BROKERS''),
     (''kafka.subtreetopic'', ''KAFKA_SUBTREE_TOPIC''), (''kafka.blocktopic'', ''KAFKA_BLOCK_TOPIC''),
     (''kafka.callbacktopic'', ''KAFKA_CALLBACK_TOPIC''), (''kafka.callbackdlqtopic'', ''KAFKA_CALLBACK_DLQ_TOPIC''),
     (''kafka.subtreedlqtopic'', ''KAFKA_SUBTREE_DLQ_TOPIC''), (''kafka.subtreeworktopic'', ''KAFKA_SUBTREE_WORK_TOPIC''),
     (''kafka.consumergroup'', ''KAFKA_CONSUMER_GROUP''), (''p2p.network'', ''P2P_NETWORK''),
     (''p2p.storagepath'', ''P2P_STORAGE_PATH''), (''p2p.msgbus.dhtmode'', ''P2P_DHT_MODE''),
     (''p2p.msgbus.port'', ''P2P_PORT''), (''p2p.msgbus.announceaddrs'', ''P2P_ANNOUNCE_ADDRS''),
     (''p2p.msgbus.bootstrappeers'', ''P2P_BOOTSTRAP_PEERS''), (''p2p.msgbus.maxconnections'', ''P2P_MAX_CONNECTIONS''),
     (''p2p.msgbus.minconnections'', ''P2P_MIN_CONNECTIONS''), (''p2p.msgbus.enablenat'', ''P2P_ENABLE_NAT''),
     (''p2p.msgbus.enablemdns'', ''P2P_ENABLE_MDNS''), (''subtree.storagemode'', ''SUBTREE_STORAGE_MODE''),
     (''subtree.dahoffset'', ''SUBTREE_DAH_OFFSET''), (''subtree.stumpdahoffset'', ''SUBTREE_STUMP_DAH_OFFSET''),
     (''subtree.cachemaxmb'', ''SUBTREE_CACHE_MAX_MB''), (''subtree.dedupcachesize'', ''SUBTREE_DEDUP_CACHE_SIZE''),
     (''subtree.maxattempts'', ''SUBTREE_MAX_ATTEMPTS''), (''block.workerpoolsize'', ''BLOCK_WORKER_POOL_SIZE''),
     (''block.postminettlsec'', ''BLOCK_POST_MINE_TTL_SEC''), (''block.dedupcachesize'', ''BLOCK_DEDUP_CACHE_SIZE''),
     (''callback.maxretries'', ''CALLBACK_MAX_RETRIES''), (''callback.backoffbasesec'', ''CALLBACK_BACKOFF_BASE_SEC''),
     (''callback.timeoutsec'', ''CALLBACK_TIMEOUT_SEC''), (''callback.seenthreshold'', ''CALLBACK_SEEN_THRESHOLD''),
     (''callback.dedupttlsec'', ''CALLBACK_DEDUP_TTL_SEC''), (''callback.deliveryworkers'', ''CALLBACK_DELIVERY_WORKERS''),
     (''callback.maxconnsperhost'', ''CALLBACK_MAX_CONNS_PER_HOST''), (''callback.maxidleconnsperhost'', ''CALLBACK_MAX_IDLE_CONNS_PER_HOST''),
     (''blobstore.url'', ''BLOB_STORE_URL''), (''datahub.timeoutsec'', ''DATAHUB_TIMEOUT_SEC''),
     (''datahub.maxretries'', ''DATAHUB_MAX_RETRIES'')]"

datatype readErr = ConfigFileNotFound | FileNotExist | ReadFailed string

record 'v viper =
  v_New :: 'v
  v_SetDefault :: "string \<Rightarrow> cfgVal \<Rightarrow> 'v \<Rightarrow> 'v"
  v_BindEnv :: "string \<Rightarrow> string \<Rightarrow> 'v \<Rightarrow> 'v"
  v_SetConfigFile :: "string \<Rightarrow> 'v \<Rightarrow> 'v"
  v_SetConfigName :: "string \<Rightarrow> 'v \<Rightarrow> 'v"
  v_SetConfigType :: "string \<Rightarrow> 'v \<Rightarrow> 'v"
  v_AddConfigPath :: "string \<Rightarrow> 'v \<Rightarrow> 'v"
  v_ReadInConfig :: "'v \<Rightarrow> readErr option \<times> 'v"
  v_Get :: "(string \<Rightarrow> string option) \<Rightarrow> 'v \<Rightarrow> string \<Rightarrow> cfgVal option"

definition registerDefaults :: "'v viper \<Rightarrow> 'v \<Rightarrow> 'v" where
  "registerDefaults V v = fold (\<lambda>(key, x). v_SetDefault V key x) defaults v"

text \<open>The bindings are a Go map, visited in the order \<open>ord\<close>.\<close>

definition bindEnvVars :: "'v viper \<Rightarrow> (nat \<Rightarrow> (string \<times> string) list \<Rightarrow> (string \<times> string) list) \<Rightarrow> 'v \<Rightarrow> 'v" where
  "bindEnvVars V ord v = fold (\<lambda>(key, env). v_BindEnv V key env) (ord 0 envBindings) v"

section \<open>Decoding\<close>

text \<open>\<open>Unmarshal\<close> sets every field from the key its tags spell; a key without a value leaves the zero value.\<close>

record decoders =
  d_str :: "cfgVal \<Rightarrow> string option"
  d_int :: "cfgVal \<Rightarrow> int option"
  d_bool :: "cfgVal \<Rightarrow> bool option"
  d_strs :: "cfgVal \<Rightarrow> string list option"

definition strField :: "decoders \<Rightarrow> (string \<Rightarrow> cfgVal option) \<Rightarrow> string \<Rightarrow> string option" where
  "strField D look key = (case look key of None \<Rightarrow> Some [] | Some x \<Rightarrow> d_str D x)"

definition intField :: "decoders \<Rightarrow> (string \<Rightarrow> cfgVal option) \<Rightarrow> string \<Rightarrow> int option" where
  "intField D look key = (case look key of None \<Rightarrow> Some 0 | Some x \<Rightarrow> d_int D x)"

definition boolField :: "decoders \<Rightarrow> (string \<Rightarrow> cfgVal option) \<Rightarrow> string \<Rightarrow> bool option" where
  "boolField D look key = (case look key of None \<Rightarrow> Some False | Some x \<Rightarrow> d_bool D x)"

definition strsField :: "decoders \<Rightarrow> (string \<Rightarrow> cfgVal option) \<Rightarrow> string \<Rightarrow> string list option" where
  "strsField D look key = (case look key of None \<Rightarrow> Some [] | Some x \<Rightarrow> d_strs D x)"

definition decodeAPI :: "decoders \<Rightarrow> (string \<Rightarrow> cfgVal option) \<Rightarrow> APIConfig option" where
  "decodeAPI D look = do {
     vPort \<leftarrow> intField D look ''api.port'';
     Some \<lparr>API_Port = vPort\<rparr> }"

definition decodeStoreSQL :: "decoders \<Rightarrow> (string \<Rightarrow> cfgVal option) \<Rightarrow> StoreSQLConfig option" where
  "decodeStoreSQL D look = do {
     vDriver \<leftarrow> strField D look ''store.sql.driver'';
     vDSN \<leftarrow> strField D look ''store.sql.dsn'';
     vSchema \<leftarrow> strField D look ''store.sql.schema'';
     vSweeperInterval \<leftarrow> strField D look ''store.sql.sweeperinterval'';
     vMaxOpenConns \<leftarrow> intField D look ''store.sql.maxopenconns'';
     vMaxIdleConns \<leftarrow> intField D look ''store.sql.maxidleconns'';
     Some \<lparr>StoreSQL_Driver = vDriver, StoreSQL_DSN = vDSN, StoreSQL_Schema = vSchema,
       StoreSQL_SweeperInterval = vSweeperInterval, StoreSQL_MaxOpenConns = vMaxOpenConns, StoreSQL_MaxIdleConns = vMaxIdleConns\<rparr> }"

definition decodeStore :: "decoders \<Rightarrow> (string \<Rightarrow> cfgVal option) \<Rightarrow> StoreConfig option" where
  "decodeStore D look = do {
     vBackend \<leftarrow> strField D look ''store.backend'';
     vSQL \<leftarrow> decodeStoreSQL D look;
     Some \<lparr>Store_Backend = vBackend, Store_SQL = vSQL\<rparr> }"

definition decodeAerospike :: "decoders \<Rightarrow> (string \<Rightarrow> cfgVal option) \<Rightarrow> AerospikeConfig option" where
  "decodeAerospike D look = do {
     vHost \<leftarrow> strField D look ''aerospike.host'';
     vPort \<leftarrow> intField D look ''aerospike.port'';
     vNamespace \<leftarrow> strField D look ''aerospike.namespace'';
     vSetName \<leftarrow> strField D look ''aerospike.setname'';
     vSeenSet \<leftarrow> strField D look ''aerospike.seenset'';
     vCallbackDedupSet \<leftarrow> strField D look ''aerospike.callbackdedupset'';
     vCallbackURLRegistry \<leftarrow> strField D look ''aerospike.callbackurlregistry'';
     vSubtreeCounterSet \<leftarrow> strField D look ''aerospike.subtreecounterset'';
     vSubtreeCounterTTLSec \<leftarrow> intField D look ''aerospike.subtreecounterttlsec'';
     vCallbackAccumulatorSet \<leftarrow> strField D look ''aerospike.callbackaccumulatorset'';
     vCallbackAccumulatorTTLSec \<leftarrow> intField D look ''aerospike.callbackaccumulatorttlsec'';
     vMaxRetries \<leftarrow> intField D look ''aerospike.maxretries'';
     vRetryBaseMs \<leftarrow> intField D look ''aerospike.retrybasems'';
     Some \<lparr>Aerospike_Host = vHost, Aerospike_Port = vPort, Aerospike_Namespace = vNamespace,
       Aerospike_SetName = vSetName, Aerospike_SeenSet = vSeenSet, Aerospike_CallbackDedupSet = vCallbackDedupSet,
       Aerospike_CallbackURLRegistry = vCallbackURLRegistry, Aerospike_SubtreeCounterSet = vSubtreeCounterSet, Aerospike_SubtreeCounterTTLSec = vSubtreeCounterTTLSec,
       Aerospike_CallbackAccumulatorSet = vCallbackAccumulatorSet, Aerospike_CallbackAccumulatorTTLSec = vCallbackAccumulatorTTLSec, Aerospike_MaxRetries = vMaxRetries,
       Aerospike_RetryBaseMs = vRetryBaseMs\<rparr> }"

definition decodeKafka :: "decoders \<Rightarrow> (string \<Rightarrow> cfgVal option) \<Rightarrow> KafkaConfig option" where
  "decodeKafka D look = do {
     vBrokers \<leftarrow> strsField D look ''kafka.brokers'';
     vSubtreeTopic \<leftarrow> strField D look ''kafka.subtreetopic'';
     vBlockTopic \<leftarrow> strField D look ''kafka.blocktopic'';
     vCallbackTopic \<leftarrow> strField D look ''kafka.callbacktopic'';
     vCallbackDLQTopic \<leftarrow> strField D look ''kafka.callbackdlqtopic'';
     vSubtreeDLQTopic \<leftarrow> strField D look ''kafka.subtreedlqtopic'';
     vSubtreeWorkTopic \<leftarrow> strField D look ''kafka.subtreeworktopic'';
     vConsumerGroup \<leftarrow> strField D look ''kafka.consumergroup'';
     Some \<lparr>Kafka_Brokers = vBrokers, Kafka_SubtreeTopic = vSubtreeTopic, Kafka_BlockTopic = vBlockTopic,
       Kafka_CallbackTopic = vCallbackTopic, Kafka_CallbackDLQTopic = vCallbackDLQTopic, Kafka_SubtreeDLQTopic = vSubtreeDLQTopic,
       Kafka_SubtreeWorkTopic = vSubtreeWorkTopic, Kafka_ConsumerGroup = vConsumerGroup\<rparr> }"

definition decodeP2PMsgBus :: "decoders \<Rightarrow> (string \<Rightarrow> cfgVal option) \<Rightarrow> P2PMsgBusConfig option" where
  "decodeP2PMsgBus D look = do {
     vDHTMode \<leftarrow> strField D look ''p2p.msgbus.dhtmode'';
     vPort \<leftarrow> intField D look ''p2p.msgbus.port'';
     vAnnounceAddrs \<leftarrow> strsField D look ''p2p.msgbus.announceaddrs'';
     vBootstrapPeers \<leftarrow> strsField D look ''p2p.msgbus.bootstrappeers'';
     vMaxConnections \<leftarrow> intField D look ''p2p.msgbus.maxconnections'';
     vMinConnections \<leftarrow> intField D look ''p2p.msgbus.minconnections'';
     vEnableNAT \<leftarrow> boolField D look ''p2p.msgbus.enablenat'';
     vEnableMDNS \<leftarrow> boolField D look ''p2p.msgbus.enablemdns'';
     Some \<lparr>P2PMsgBus_DHTMode = vDHTMode, P2PMsgBus_Port = vPort, P2PMsgBus_AnnounceAddrs = vAnnounceAddrs,
       P2PMsgBus_BootstrapPeers = vBootstrapPeers, P2PMsgBus_MaxConnections = vMaxConnections, P2PMsgBus_MinConnections = vMinConnections,
       P2PMsgBus_EnableNAT = vEnableNAT, P2PMsgBus_EnableMDNS = vEnableMDNS\<rparr> }"

definition decodeP2P :: "decoders \<Rightarrow> (string \<Rightarrow> cfgVal option) \<Rightarrow> P2PConfig option" where
  "decodeP2P D look = do {
     vNetwork \<leftarrow> strField D look ''p2p.network'';
     vStoragePath \<leftarrow> strField D look ''p2p.storagepath'';
     vMsgBus \<leftarrow> decodeP2PMsgBus D look;
     Some \<lparr>P2P_Network = vNetwork, P2P_StoragePath = vStoragePath, P2P_MsgBus = vMsgBus\<rparr> }"

definition decodeSubtree :: "decoders \<Rightarrow> (string \<Rightarrow> cfgVal option) \<Rightarrow> SubtreeConfig option" where
  "decodeSubtree D look = do {
     vStorageMode \<leftarrow> strField D look ''subtree.storagemode'';
     vDAHOffset \<leftarrow> intField D look ''subtree.dahoffset'';
     vStumpDAHOffset \<leftarrow> intField D look ''subtree.stumpdahoffset'';
     vCacheMaxMB \<leftarrow> intField D look ''subtree.cachemaxmb'';
     vDedupCacheSize \<leftarrow> intField D look ''subtree.dedupcachesize'';
     vMaxAttempts \<leftarrow> intField D look ''subtree.maxattempts'';
     Some \<lparr>Subtree_StorageMode = vStorageMode, Subtree_DAHOffset = vDAHOffset, Subtree_StumpDAHOffset = vStumpDAHOffset,
       Subtree_CacheMaxMB = vCacheMaxMB, Subtree_DedupCacheSize = vDedupCacheSize, Subtree_MaxAttempts = vMaxAttempts\<rparr> }"

definition decodeBlock :: "decoders \<Rightarrow> (string \<Rightarrow> cfgVal option) \<Rightarrow> BlockConfig option" where
  "decodeBlock D look = do {
     vWorkerPoolSize \<leftarrow> intField D look ''block.workerpoolsize'';
     vPostMineTTLSec \<leftarrow> intField D look ''block.postminettlsec'';
     vDedupCacheSize \<leftarrow> intField D look ''block.dedupcachesize'';
     Some \<lparr>Block_WorkerPoolSize = vWorkerPoolSize, Block_PostMineTTLSec = vPostMineTTLSec, Block_DedupCacheSize = vDedupCacheSize\<rparr> }"

definition decodeCallback :: "decoders \<Rightarrow> (string \<Rightarrow> cfgVal option) \<Rightarrow> CallbackConfig option" where
  "decodeCallback D look = do {
     vMaxRetries \<leftarrow> intField D look ''callback.maxretries'';
     vBackoffBaseSec \<leftarrow> intField D look ''callback.backoffbasesec'';
     vTimeoutSec \<leftarrow> intField D look ''callback.timeoutsec'';
     vSeenThreshold \<leftarrow> intField D look ''callback.seenthreshold'';
     vDedupTTLSec \<leftarrow> intField D look ''callback.dedupttlsec'';
     vDeliveryWorkers \<leftarrow> intField D look ''callback.deliveryworkers'';
     vMaxConnsPerHost \<leftarrow> intField D look ''callback.maxconnsperhost'';
     vMaxIdleConnsPerHost \<leftarrow> intField D look ''callback.maxidleconnsperhost'';
     Some \<lparr>Callback_MaxRetries = vMaxRetries, Callback_BackoffBaseSec = vBackoffBaseSec, Callback_TimeoutSec = vTimeoutSec,
       Callback_SeenThreshold = vSeenThreshold, Callback_DedupTTLSec = vDedupTTLSec, Callback_DeliveryWorkers = vDeliveryWorkers,
       Callback_MaxConnsPerHost = vMaxConnsPerHost, Callback_MaxIdleConnsPerHost = vMaxIdleConnsPerHost\<rparr> }"

definition decodeBlobStore :: "decoders \<Rightarrow> (string \<Rightarrow> cfgVal option) \<Rightarrow> BlobStoreConfig option" where
  "decodeBlobStore D look = do {
     vURL \<leftarrow> strField D look ''blobstore.url'';
     Some \<lparr>BlobStore_URL = vURL\<rparr> }"

definition decodeDataHub :: "decoders \<Rightarrow> (string \<Rightarrow> cfgVal option) \<Rightarrow> DataHubConfig option" where
  "decodeDataHub D look = do {
     vTimeoutSec \<leftarrow> intField D look ''datahub.timeoutsec'';
     vMaxRetries \<leftarrow> intField D look ''datahub.maxretries'';
     Some \<lparr>DataHub_TimeoutSec = vTimeoutSec, DataHub_MaxRetries = vMaxRetries\<rparr> }"

definition decodeCfg :: "decoders \<Rightarrow> (string \<Rightarrow> cfgVal option) \<Rightarrow> Config option" where
  "decodeCfg D look = do {
     vMode \<leftarrow> strField D look ''mode'';
     vLogLevel \<leftarrow> strField D look ''loglevel'';
     vAPI \<leftarrow> decodeAPI D look;
     vStore \<leftarrow> decodeStore D look;
     vAerospike \<leftarrow> decodeAerospike D look;
     vKafka \<leftarrow> decodeKafka D look;
     vP2P \<leftarrow> decodeP2P D look;
     vSubtree \<leftarrow> decodeSubtree D look;
     vBlock \<leftarrow> decodeBlock D look;
     vCallback \<leftarrow> decodeCallback D look;
     vBlobStore \<leftarrow> decodeBlobStore D look;
     vDataHub \<leftarrow> decodeDataHub D look;
     Some \<lparr>Cfg_Mode = vMode, Cfg_LogLevel = vLogLevel, Cfg_API = vAPI,
       Cfg_Store = vStore, Cfg_Aerospike = vAerospike, Cfg_Kafka = vKafka,
       Cfg_P2P = vP2P, Cfg_Subtree = vSubtree, Cfg_Block = vBlock,
       Cfg_Callback = vCallback, Cfg_BlobStore = vBlobStore, Cfg_DataHub = vDataHub\<rparr> }"

section \<open>Load\<close>

datatype loadErr = EReadConfig string | EUnmarshal | EInvalidBackend string

definition withBackend :: "string \<Rightarrow> Config \<Rightarrow> Config" where
  "withBackend b cfg = cfg\<lparr>Cfg_Store := (Cfg_Store cfg)\<lparr>Store_Backend := b\<rparr>\<rparr>"

text \<open>The end of \<open>Load\<close>: the backend is made explicit and checked.\<close>

definition checkBackend :: "Config \<Rightarrow> loadErr + Config" where
  "checkBackend cfg =
     (let cfg = (if Store_Backend (Cfg_Store cfg) = [] then withBackend BackendAerospike cfg else cfg);
          b = Store_Backend (Cfg_Store cfg)
      in if b = BackendAerospike \<or> b = BackendSQL then Inr cfg else Inl (EInvalidBackend b))"

definition getenv :: "(string \<Rightarrow> string option) \<Rightarrow> string \<Rightarrow> string" where
  "getenv env name = (case env name of None \<Rightarrow> [] | Some t \<Rightarrow> t)"

definition Load ::
    "'v viper \<Rightarrow> decoders \<Rightarrow> (nat \<Rightarrow> (string \<times> string) list \<Rightarrow> (string \<times> string) list) \<Rightarrow> (string \<Rightarrow> string option) \<Rightarrow> loadErr + Config" where
  "Load V D ord env =
     (let v = bindEnvVars V ord (registerDefaults V (v_New V));
          configFile = getenv env ''CONFIG_FILE'';
          v = (if configFile \<noteq> [] then v_SetConfigFile V configFile v
               else v_AddConfigPath V ''.'' (v_SetConfigType V ''yaml'' (v_SetConfigName V ''config'' v)));
          (err, v) = v_ReadInConfig V v
      in case err of
           Some (ReadFailed e) \<Rightarrow> Inl (EReadConfig e)
         | _ \<Rightarrow> (case decodeCfg D (v_Get V env v) of
               None \<Rightarrow> Inl EUnmarshal
             | Some cfg \<Rightarrow> checkBackend cfg))"

datatype level = LevelDebug | LevelInfo | LevelWarn | LevelError

text \<open>
  \<open>strings.ToLower\<close> as far as it gives ASCII: besides the letters A to Z, the dotted capital I and the Kelvin sign become ASCII letters.
\<close>

definition toLower :: "string \<Rightarrow> string" where
  "toLower s = map (\<lambda>c. if 65 \<le> (of_char c :: nat) \<and> (of_char c :: nat) \<le> 90 then char_of ((of_char c :: nat) + 32) else c)
     (replaceAll [(map char_of [196, 176 :: nat], ''i''), (map char_of [226, 132, 170 :: nat], ''k'')] s)"

definition ParseLogLevel :: "string \<Rightarrow> level" where
  "ParseLogLevel level = (let l = toLower (trimUnicode level) in
     if l = ''debug'' then LevelDebug
     else if l = ''info'' then LevelInfo
     else if l = ''warn'' \<or> l = ''warning'' then LevelWarn
     else if l = ''error'' then LevelError
     else LevelInfo)"

section \<open>What the library promises\<close>

text \<open>
  A value comes from the bound variable, the file or the default, in this order.
\<close>

definition firstOf :: "string option \<Rightarrow> cfgVal option \<Rightarrow> cfgVal option \<Rightarrow> cfgVal option" where
  "firstOf var file def = (case var of
      Some t \<Rightarrow> if t \<noteq> [] then Some (CStr t) else (case file of Some x \<Rightarrow> Some x | None \<Rightarrow> def)
    | None \<Rightarrow> (case file of Some x \<Rightarrow> Some x | None \<Rightarrow> def))"

text \<open>\<open>fileAt p\<close> is the file at the path \<open>p\<close>, or for \<open>None\<close> the file config.yaml of the working directory.\<close>

definition setting :: "(string \<Rightarrow> string option) \<Rightarrow> (string \<rightharpoonup> cfgVal) \<Rightarrow> string \<Rightarrow> cfgVal option" where
  "setting env file key = firstOf (Option.bind (map_of envBindings key) env) (file key) (map_of defaults key)"

definition configPath :: "(string \<Rightarrow> string option) \<Rightarrow> string option" where
  "configPath env = (let f = getenv env ''CONFIG_FILE'' in if f \<noteq> [] then Some f else None)"

definition fileMap :: "readErr + (string \<rightharpoonup> cfgVal) \<Rightarrow> string \<rightharpoonup> cfgVal" where
  "fileMap r = (case r of Inl e \<Rightarrow> Map.empty | Inr m \<Rightarrow> m)"

definition loadSpec ::
    "decoders \<Rightarrow> (string \<Rightarrow> string option) \<Rightarrow> (string option \<Rightarrow> readErr + (string \<rightharpoonup> cfgVal)) \<Rightarrow> loadErr + Config" where
  "loadSpec D env fileAt = (let r = fileAt (configPath env) in case r of
      Inl (ReadFailed e) \<Rightarrow> Inl (EReadConfig e)
    | _ \<Rightarrow> (case decodeCfg D (setting env (fileMap r)) of None \<Rightarrow> Inl EUnmarshal | Some cfg \<Rightarrow> checkBackend cfg))"

lemma keys_distinct: "distinct (map fst defaults)" "distinct (map fst envBindings)" "distinct (map snd envBindings)"
  by code_simp+

lemma map_of_rev_defaults: "map_of (rev defaults) = map_of defaults"
  using keys_distinct(1) by (subst map_of_inject_set) (simp_all add: rev_map [symmetric])

lemma map_of_ord_bindings:
  assumes "range_order ord"
  shows "map_of (rev (ord 0 envBindings)) = map_of envBindings"
proof -
  have "mset (map fst (rev (ord 0 envBindings))) = mset (map fst envBindings)"
    using range_order_mset [OF assms, of 0 envBindings] by simp
  then have "distinct (map fst (rev (ord 0 envBindings)))"
    using keys_distinct(2) mset_eq_imp_distinct_iff by blast
  then show ?thesis using keys_distinct(2) assms by (simp add: map_of_inject_set)
qed

text \<open>Viper ignores the case of keys and adds a variable to those a key has; Load uses lower-case keys and binds each once.\<close>

definition lowerKey :: "string \<Rightarrow> bool" where
  "lowerKey k = list_all (\<lambda>c. c \<notin> set ''ABCDEFGHIJKLMNOPQRSTUVWXYZ'') k"

lemma keys_lower: "list_all lowerKey (map fst defaults)" "list_all lowerKey (map fst envBindings)"
  by code_simp+

lemmas decode_defs = decodeAPI_def decodeStoreSQL_def decodeStore_def decodeAerospike_def decodeKafka_def decodeP2PMsgBus_def
  decodeP2P_def decodeSubtree_def decodeBlock_def decodeCallback_def decodeBlobStore_def decodeDataHub_def

lemma field_cong:
  assumes "look k = look' k"
  shows "strField D look k = strField D look' k" "intField D look k = intField D look' k"
    "boolField D look k = boolField D look' k" "strsField D look k = strsField D look' k"
  using assms by (simp_all add: strField_def intField_def boolField_def strsField_def)

lemma decodeCfg_cong:
  assumes "\<And>k. lowerKey k \<Longrightarrow> look k = look' k"
  shows "decodeCfg D look = decodeCfg D look'"
proof -
  have eq: "strField D look k = strField D look' k" "intField D look k = intField D look' k"
    "boolField D look k = boolField D look' k" "strsField D look k = strsField D look' k" if "lowerKey k" for k
    using field_cong [of look k look', OF assms [OF that]] by simp_all
  show ?thesis by (simp add: decodeCfg_def decode_defs eq lowerKey_def)
qed

locale viper_laws =
  fixes V :: "'v viper"
    and fileAt :: "string option \<Rightarrow> readErr + (string \<rightharpoonup> cfgVal)"
    and defOf :: "'v \<Rightarrow> string \<rightharpoonup> cfgVal"
    and varOf :: "'v \<Rightarrow> string \<rightharpoonup> string"
    and fileOf :: "'v \<Rightarrow> string \<rightharpoonup> cfgVal"
  assumes new: "defOf (v_New V) = Map.empty" "varOf (v_New V) = Map.empty" "fileOf (v_New V) = Map.empty"
    and set_default: "lowerKey k \<Longrightarrow> defOf (v_SetDefault V k x v) = (defOf v)(k \<mapsto> x)" "varOf (v_SetDefault V k x v) = varOf v"
      "fileOf (v_SetDefault V k x v) = fileOf v"
    and bind_env: "defOf (v_BindEnv V k n v) = defOf v" "lowerKey k \<Longrightarrow> varOf v k = None \<Longrightarrow> varOf (v_BindEnv V k n v) = (varOf v)(k \<mapsto> n)"
      "fileOf (v_BindEnv V k n v) = fileOf v"
    and read_file: "v_ReadInConfig V (v_SetConfigFile V f v) = (e, w) \<Longrightarrow> defOf w = defOf v \<and> varOf w = varOf v
        \<and> (case fileAt (Some f) of Inl e' \<Rightarrow> e = Some e' \<and> fileOf w = fileOf v | Inr m \<Rightarrow> e = None \<and> fileOf w = m)"
    and read_search: "v_ReadInConfig V (v_AddConfigPath V ''.'' (v_SetConfigType V ''yaml'' (v_SetConfigName V ''config'' v))) = (e, w) \<Longrightarrow>
        defOf w = defOf v \<and> varOf w = varOf v
        \<and> (case fileAt None of Inl e' \<Rightarrow> e = Some e' \<and> fileOf w = fileOf v | Inr m \<Rightarrow> e = None \<and> fileOf w = m)"
    and get: "lowerKey k \<Longrightarrow> v_Get V env v k = firstOf (Option.bind (varOf v k) env) (fileOf v k) (defOf v k)"
begin

lemma defaults_set:
  "defOf (registerDefaults V v) = defOf v ++ map_of (rev defaults)" "varOf (registerDefaults V v) = varOf v"
  "fileOf (registerDefaults V v) = fileOf v"
proof -
  have "list_all lowerKey (map fst ds) \<Longrightarrow> defOf (fold (\<lambda>(k, x). v_SetDefault V k x) ds v) = defOf v ++ map_of (rev ds)
      \<and> varOf (fold (\<lambda>(k, x). v_SetDefault V k x) ds v) = varOf v \<and> fileOf (fold (\<lambda>(k, x). v_SetDefault V k x) ds v) = fileOf v" for ds
    by (induction ds arbitrary: v) (auto simp: set_default)
  then show "defOf (registerDefaults V v) = defOf v ++ map_of (rev defaults)" "varOf (registerDefaults V v) = varOf v"
    "fileOf (registerDefaults V v) = fileOf v" using keys_lower(1) by (auto simp: registerDefaults_def)
qed

lemma envs_bound:
  assumes "range_order ord" and "varOf v = Map.empty"
  shows "defOf (bindEnvVars V ord v) = defOf v" "varOf (bindEnvVars V ord v) = map_of (rev (ord 0 envBindings))"
    "fileOf (bindEnvVars V ord v) = fileOf v"
proof -
  have fold: "list_all lowerKey (map fst bs) \<Longrightarrow> distinct (map fst bs) \<Longrightarrow> dom (varOf v) \<inter> set (map fst bs) = {} \<Longrightarrow>
      defOf (fold (\<lambda>(k, n). v_BindEnv V k n) bs v) = defOf v
      \<and> varOf (fold (\<lambda>(k, n). v_BindEnv V k n) bs v) = varOf v ++ map_of (rev bs) \<and> fileOf (fold (\<lambda>(k, n). v_BindEnv V k n) bs v) = fileOf v" for bs
  proof (induction bs arbitrary: v)
    case (Cons b bs)
    obtain k n where b: "b = (k, n)" by (cases b)
    have bound: "varOf (v_BindEnv V k n v) = (varOf v)(k \<mapsto> n)" using Cons.prems b by (intro bind_env) (auto simp: dom_def)
    have disj: "dom (varOf (v_BindEnv V k n v)) \<inter> set (map fst bs) = {}" unfolding bound using Cons.prems b by auto
    have "list_all lowerKey (map fst bs)" "distinct (map fst bs)" using Cons.prems by simp_all
    from Cons.IH [OF this disj] show ?case by (simp add: b bound bind_env(1,3)) (simp add: fun_upd_def)
  qed simp
  have ms: "mset (ord 0 envBindings) = mset envBindings" by (rule range_order_mset [OF assms(1)])
  then have "list_all lowerKey (map fst (ord 0 envBindings))" using keys_lower(2) by (simp add: list_all_iff mset_eq_setD [OF ms])
  moreover have "distinct (map fst (ord 0 envBindings))"
    using keys_distinct(2) ms by (metis mset_map mset_eq_imp_distinct_iff)
  ultimately show "defOf (bindEnvVars V ord v) = defOf v" "varOf (bindEnvVars V ord v) = map_of (rev (ord 0 envBindings))"
    "fileOf (bindEnvVars V ord v) = fileOf v" using fold [of "ord 0 envBindings"] assms(2) by (simp_all add: bindEnvVars_def)
qed

text \<open>\<open>Load\<close> depends on the library only through the files and on the order of the bindings not at all.\<close>

lemma Load_spec:
  assumes "range_order ord"
  shows "Load V D ord env = loadSpec D env fileAt"
proof -
  let ?v = "bindEnvVars V ord (registerDefaults V (v_New V))"
  have v: "defOf ?v = map_of defaults" "varOf ?v = map_of envBindings" "fileOf ?v = Map.empty"
    using new by (simp_all add: envs_bound [OF assms] defaults_set map_of_rev_defaults map_of_ord_bindings [OF assms])
  have get: "decodeCfg D (v_Get V env w) = decodeCfg D (setting env (fileOf w))" if "defOf w = map_of defaults" and "varOf w = map_of envBindings" for w
    by (rule decodeCfg_cong) (simp add: that get setting_def)
  obtain e w where r: "v_ReadInConfig V (if getenv env ''CONFIG_FILE'' \<noteq> [] then v_SetConfigFile V (getenv env ''CONFIG_FILE'') ?v
      else v_AddConfigPath V ''.'' (v_SetConfigType V ''yaml'' (v_SetConfigName V ''config'' ?v))) = (e, w)" by fastforce
  have "defOf w = defOf ?v \<and> varOf w = varOf ?v \<and> (case fileAt (configPath env) of
      Inl e' \<Rightarrow> e = Some e' \<and> fileOf w = fileOf ?v | Inr m \<Rightarrow> e = None \<and> fileOf w = m)"
    using r read_file [of "getenv env ''CONFIG_FILE''" ?v e w] read_search [of ?v e w]
    by (simp add: configPath_def split: if_splits)
  then have w: "decodeCfg D (v_Get V env w) = decodeCfg D (setting env (fileMap (fileAt (configPath env))))"
    and e: "e = (case fileAt (configPath env) of Inl e' \<Rightarrow> Some e' | Inr m \<Rightarrow> None)"
    using get [of w] v by (auto simp: fileMap_def split: sum.splits)
  show ?thesis
    using r w e by (simp add: Load_def loadSpec_def Let_def split: sum.splits readErr.splits)
qed

end

section \<open>Every setting comes from its variable, the file or the default\<close>

text \<open>A library that keeps the three layers as maps.\<close>

record viperState =
  vs_defaults :: "string \<rightharpoonup> cfgVal"
  vs_vars :: "string \<rightharpoonup> string"
  vs_file :: "string \<rightharpoonup> cfgVal"
  vs_path :: "string option"

definition layeredRead :: "(string option \<Rightarrow> readErr + (string \<rightharpoonup> cfgVal)) \<Rightarrow> viperState \<Rightarrow> readErr option \<times> viperState" where
  "layeredRead fileAt v = (case fileAt (vs_path v) of Inl e \<Rightarrow> (Some e, v) | Inr m \<Rightarrow> (None, v\<lparr>vs_file := m\<rparr>))"

definition layered :: "(string option \<Rightarrow> readErr + (string \<rightharpoonup> cfgVal)) \<Rightarrow> viperState viper" where
  "layered fileAt =
     \<lparr>v_New = \<lparr>vs_defaults = Map.empty, vs_vars = Map.empty, vs_file = Map.empty, vs_path = None\<rparr>,
      v_SetDefault = (\<lambda>k x v. v\<lparr>vs_defaults := (vs_defaults v)(k \<mapsto> x)\<rparr>),
      v_BindEnv = (\<lambda>k n v. v\<lparr>vs_vars := (vs_vars v)(k \<mapsto> n)\<rparr>),
      v_SetConfigFile = (\<lambda>f v. v\<lparr>vs_path := Some f\<rparr>),
      v_SetConfigName = (\<lambda>n v. v\<lparr>vs_path := None\<rparr>),
      v_SetConfigType = (\<lambda>t v. v),
      v_AddConfigPath = (\<lambda>p v. v),
      v_ReadInConfig = layeredRead fileAt,
      v_Get = (\<lambda>env v k. firstOf (Option.bind (vs_vars v k) env) (vs_file v k) (vs_defaults v k))\<rparr>"

interpretation layered: viper_laws "layered fileAt" fileAt vs_defaults vs_vars vs_file for fileAt
  by unfold_locales (auto simp: layered_def layeredRead_def split: sum.splits)

text \<open>The settings of a configuration with their keys.\<close>

definition valsAPI :: "APIConfig \<Rightarrow> (string \<times> cfgVal) list" where
  "valsAPI c = [(''api.port'', CInt (API_Port c))]"

definition valsStoreSQL :: "StoreSQLConfig \<Rightarrow> (string \<times> cfgVal) list" where
  "valsStoreSQL c = [(''store.sql.driver'', CStr (StoreSQL_Driver c)),
     (''store.sql.dsn'', CStr (StoreSQL_DSN c)),
     (''store.sql.schema'', CStr (StoreSQL_Schema c)),
     (''store.sql.sweeperinterval'', CStr (StoreSQL_SweeperInterval c)),
     (''store.sql.maxopenconns'', CInt (StoreSQL_MaxOpenConns c)),
     (''store.sql.maxidleconns'', CInt (StoreSQL_MaxIdleConns c))]"

definition valsStore :: "StoreConfig \<Rightarrow> (string \<times> cfgVal) list" where
  "valsStore c = [(''store.backend'', CStr (Store_Backend c))]
     @ valsStoreSQL (Store_SQL c)"

definition valsAerospike :: "AerospikeConfig \<Rightarrow> (string \<times> cfgVal) list" where
  "valsAerospike c = [(''aerospike.host'', CStr (Aerospike_Host c)),
     (''aerospike.port'', CInt (Aerospike_Port c)),
     (''aerospike.namespace'', CStr (Aerospike_Namespace c)),
     (''aerospike.setname'', CStr (Aerospike_SetName c)),
     (''aerospike.seenset'', CStr (Aerospike_SeenSet c)),
     (''aerospike.callbackdedupset'', CStr (Aerospike_CallbackDedupSet c)),
     (''aerospike.callbackurlregistry'', CStr (Aerospike_CallbackURLRegistry c)),
     (''aerospike.subtreecounterset'', CStr (Aerospike_SubtreeCounterSet c)),
     (''aerospike.subtreecounterttlsec'', CInt (Aerospike_SubtreeCounterTTLSec c)),
     (''aerospike.callbackaccumulatorset'', CStr (Aerospike_CallbackAccumulatorSet c)),
     (''aerospike.callbackaccumulatorttlsec'', CInt (Aerospike_CallbackAccumulatorTTLSec c)),
     (''aerospike.maxretries'', CInt (Aerospike_MaxRetries c)),
     (''aerospike.retrybasems'', CInt (Aerospike_RetryBaseMs c))]"

definition valsKafka :: "KafkaConfig \<Rightarrow> (string \<times> cfgVal) list" where
  "valsKafka c = [(''kafka.brokers'', CStrs (Kafka_Brokers c)),
     (''kafka.subtreetopic'', CStr (Kafka_SubtreeTopic c)),
     (''kafka.blocktopic'', CStr (Kafka_BlockTopic c)),
     (''kafka.callbacktopic'', CStr (Kafka_CallbackTopic c)),
     (''kafka.callbackdlqtopic'', CStr (Kafka_CallbackDLQTopic c)),
     (''kafka.subtreedlqtopic'', CStr (Kafka_SubtreeDLQTopic c)),
     (''kafka.subtreeworktopic'', CStr (Kafka_SubtreeWorkTopic c)),
     (''kafka.consumergroup'', CStr (Kafka_ConsumerGroup c))]"

definition valsP2PMsgBus :: "P2PMsgBusConfig \<Rightarrow> (string \<times> cfgVal) list" where
  "valsP2PMsgBus c = [(''p2p.msgbus.dhtmode'', CStr (P2PMsgBus_DHTMode c)),
     (''p2p.msgbus.port'', CInt (P2PMsgBus_Port c)),
     (''p2p.msgbus.announceaddrs'', CStrs (P2PMsgBus_AnnounceAddrs c)),
     (''p2p.msgbus.bootstrappeers'', CStrs (P2PMsgBus_BootstrapPeers c)),
     (''p2p.msgbus.maxconnections'', CInt (P2PMsgBus_MaxConnections c)),
     (''p2p.msgbus.minconnections'', CInt (P2PMsgBus_MinConnections c)),
     (''p2p.msgbus.enablenat'', CBool (P2PMsgBus_EnableNAT c)),
     (''p2p.msgbus.enablemdns'', CBool (P2PMsgBus_EnableMDNS c))]"

definition valsP2P :: "P2PConfig \<Rightarrow> (string \<times> cfgVal) list" where
  "valsP2P c = [(''p2p.network'', CStr (P2P_Network c)),
     (''p2p.storagepath'', CStr (P2P_StoragePath c))]
     @ valsP2PMsgBus (P2P_MsgBus c)"

definition valsSubtree :: "SubtreeConfig \<Rightarrow> (string \<times> cfgVal) list" where
  "valsSubtree c = [(''subtree.storagemode'', CStr (Subtree_StorageMode c)),
     (''subtree.dahoffset'', CInt (Subtree_DAHOffset c)),
     (''subtree.stumpdahoffset'', CInt (Subtree_StumpDAHOffset c)),
     (''subtree.cachemaxmb'', CInt (Subtree_CacheMaxMB c)),
     (''subtree.dedupcachesize'', CInt (Subtree_DedupCacheSize c)),
     (''subtree.maxattempts'', CInt (Subtree_MaxAttempts c))]"

definition valsBlock :: "BlockConfig \<Rightarrow> (string \<times> cfgVal) list" where
  "valsBlock c = [(''block.workerpoolsize'', CInt (Block_WorkerPoolSize c)),
     (''block.postminettlsec'', CInt (Block_PostMineTTLSec c)),
     (''block.dedupcachesize'', CInt (Block_DedupCacheSize c))]"

definition valsCallback :: "CallbackConfig \<Rightarrow> (string \<times> cfgVal) list" where
  "valsCallback c = [(''callback.maxretries'', CInt (Callback_MaxRetries c)),
     (''callback.backoffbasesec'', CInt (Callback_BackoffBaseSec c)),
     (''callback.timeoutsec'', CInt (Callback_TimeoutSec c)),
     (''callback.seenthreshold'', CInt (Callback_SeenThreshold c)),
     (''callback.dedupttlsec'', CInt (Callback_DedupTTLSec c)),
     (''callback.deliveryworkers'', CInt (Callback_DeliveryWorkers c)),
     (''callback.maxconnsperhost'', CInt (Callback_MaxConnsPerHost c)),
     (''callback.maxidleconnsperhost'', CInt (Callback_MaxIdleConnsPerHost c))]"

definition valsBlobStore :: "BlobStoreConfig \<Rightarrow> (string \<times> cfgVal) list" where
  "valsBlobStore c = [(''blobstore.url'', CStr (BlobStore_URL c))]"

definition valsDataHub :: "DataHubConfig \<Rightarrow> (string \<times> cfgVal) list" where
  "valsDataHub c = [(''datahub.timeoutsec'', CInt (DataHub_TimeoutSec c)),
     (''datahub.maxretries'', CInt (DataHub_MaxRetries c))]"

definition valsCfg :: "Config \<Rightarrow> (string \<times> cfgVal) list" where
  "valsCfg c = [(''mode'', CStr (Cfg_Mode c)),
     (''loglevel'', CStr (Cfg_LogLevel c))]
     @ valsAPI (Cfg_API c)
     @ valsStore (Cfg_Store c)
     @ valsAerospike (Cfg_Aerospike c)
     @ valsKafka (Cfg_Kafka c)
     @ valsP2P (Cfg_P2P c)
     @ valsSubtree (Cfg_Subtree c)
     @ valsBlock (Cfg_Block c)
     @ valsCallback (Cfg_Callback c)
     @ valsBlobStore (Cfg_BlobStore c)
     @ valsDataHub (Cfg_DataHub c)"

text \<open>The value of a field as the conversion of a setting; the zero value when there is none.\<close>

fun decodesTo :: "decoders \<Rightarrow> cfgVal option \<Rightarrow> cfgVal \<Rightarrow> bool" where
  "decodesTo D None v \<longleftrightarrow> v \<in> {CStr [], CInt 0, CBool False, CStrs []}"
| "decodesTo D (Some x) (CStr s) \<longleftrightarrow> d_str D x = Some s"
| "decodesTo D (Some x) (CInt i) \<longleftrightarrow> d_int D x = Some i"
| "decodesTo D (Some x) (CBool b) \<longleftrightarrow> d_bool D x = Some b"
| "decodesTo D (Some x) (CStrs l) \<longleftrightarrow> d_strs D x = Some l"

named_theorems config_fields

lemma field_decodes [config_fields]:
  "strField D look k = Some s \<Longrightarrow> decodesTo D (look k) (CStr s)"
  "intField D look k = Some i \<Longrightarrow> decodesTo D (look k) (CInt i)"
  "boolField D look k = Some b \<Longrightarrow> decodesTo D (look k) (CBool b)"
  "strsField D look k = Some l \<Longrightarrow> decodesTo D (look k) (CStrs l)"
  by (auto simp: strField_def intField_def boolField_def strsField_def split: option.splits)

definition settingsOf :: "decoders \<Rightarrow> (string \<Rightarrow> cfgVal option) \<Rightarrow> (string \<times> cfgVal) list \<Rightarrow> bool" where
  "settingsOf D look kvs = list_all (\<lambda>(k, v). decodesTo D (look k) v) kvs"

lemma settingsOf_append [simp]: "settingsOf D look (xs @ ys) \<longleftrightarrow> settingsOf D look xs \<and> settingsOf D look ys"
  by (simp add: settingsOf_def)

lemma API_settings [config_fields]: "decodeAPI D look = Some c \<Longrightarrow> settingsOf D look (valsAPI c)"
  by (auto simp: decodeAPI_def valsAPI_def settingsOf_def bind_eq_Some_conv intro!: config_fields intro: config_fields [unfolded settingsOf_def])

lemma StoreSQL_settings [config_fields]: "decodeStoreSQL D look = Some c \<Longrightarrow> settingsOf D look (valsStoreSQL c)"
  by (auto simp: decodeStoreSQL_def valsStoreSQL_def settingsOf_def bind_eq_Some_conv intro!: config_fields intro: config_fields [unfolded settingsOf_def])

lemma Store_settings [config_fields]: "decodeStore D look = Some c \<Longrightarrow> settingsOf D look (valsStore c)"
  by (auto simp: decodeStore_def valsStore_def settingsOf_def bind_eq_Some_conv intro!: config_fields intro: config_fields [unfolded settingsOf_def])

lemma Aerospike_settings [config_fields]: "decodeAerospike D look = Some c \<Longrightarrow> settingsOf D look (valsAerospike c)"
  by (auto simp: decodeAerospike_def valsAerospike_def settingsOf_def bind_eq_Some_conv intro!: config_fields intro: config_fields [unfolded settingsOf_def])

lemma Kafka_settings [config_fields]: "decodeKafka D look = Some c \<Longrightarrow> settingsOf D look (valsKafka c)"
  by (auto simp: decodeKafka_def valsKafka_def settingsOf_def bind_eq_Some_conv intro!: config_fields intro: config_fields [unfolded settingsOf_def])

lemma P2PMsgBus_settings [config_fields]: "decodeP2PMsgBus D look = Some c \<Longrightarrow> settingsOf D look (valsP2PMsgBus c)"
  by (auto simp: decodeP2PMsgBus_def valsP2PMsgBus_def settingsOf_def bind_eq_Some_conv intro!: config_fields intro: config_fields [unfolded settingsOf_def])

lemma P2P_settings [config_fields]: "decodeP2P D look = Some c \<Longrightarrow> settingsOf D look (valsP2P c)"
  by (auto simp: decodeP2P_def valsP2P_def settingsOf_def bind_eq_Some_conv intro!: config_fields intro: config_fields [unfolded settingsOf_def])

lemma Subtree_settings [config_fields]: "decodeSubtree D look = Some c \<Longrightarrow> settingsOf D look (valsSubtree c)"
  by (auto simp: decodeSubtree_def valsSubtree_def settingsOf_def bind_eq_Some_conv intro!: config_fields intro: config_fields [unfolded settingsOf_def])

lemma Block_settings [config_fields]: "decodeBlock D look = Some c \<Longrightarrow> settingsOf D look (valsBlock c)"
  by (auto simp: decodeBlock_def valsBlock_def settingsOf_def bind_eq_Some_conv intro!: config_fields intro: config_fields [unfolded settingsOf_def])

lemma Callback_settings [config_fields]: "decodeCallback D look = Some c \<Longrightarrow> settingsOf D look (valsCallback c)"
  by (auto simp: decodeCallback_def valsCallback_def settingsOf_def bind_eq_Some_conv intro!: config_fields intro: config_fields [unfolded settingsOf_def])

lemma BlobStore_settings [config_fields]: "decodeBlobStore D look = Some c \<Longrightarrow> settingsOf D look (valsBlobStore c)"
  by (auto simp: decodeBlobStore_def valsBlobStore_def settingsOf_def bind_eq_Some_conv intro!: config_fields intro: config_fields [unfolded settingsOf_def])

lemma DataHub_settings [config_fields]: "decodeDataHub D look = Some c \<Longrightarrow> settingsOf D look (valsDataHub c)"
  by (auto simp: decodeDataHub_def valsDataHub_def settingsOf_def bind_eq_Some_conv intro!: config_fields intro: config_fields [unfolded settingsOf_def])

lemma Cfg_settings [config_fields]: "decodeCfg D look = Some c \<Longrightarrow> settingsOf D look (valsCfg c)"
  by (auto simp: decodeCfg_def valsCfg_def settingsOf_def bind_eq_Some_conv intro!: config_fields intro: config_fields [unfolded settingsOf_def])


lemma checkBackend_settings:
  assumes "checkBackend cfg = Inr cfg'" and "settingsOf D look (valsCfg cfg)"
  shows "list_all (\<lambda>(k, v). k = ''store.backend'' \<or> decodesTo D (look k) v) (valsCfg cfg')
     \<and> (Store_Backend (Cfg_Store cfg') = BackendSQL \<and> decodesTo D (look ''store.backend'') (CStr BackendSQL)
        \<or> Store_Backend (Cfg_Store cfg') = BackendAerospike
          \<and> (decodesTo D (look ''store.backend'') (CStr []) \<or> decodesTo D (look ''store.backend'') (CStr BackendAerospike)))"
proof -
  have b: "decodesTo D (look ''store.backend'') (CStr (Store_Backend (Cfg_Store cfg)))"
    using assms(2) by (simp add: settingsOf_def valsCfg_def valsStore_def)
  have "list_all (\<lambda>(k, v). k = ''store.backend'' \<or> decodesTo D (look k) v) (valsCfg cfg)"
    using assms(2) by (auto simp: settingsOf_def list_all_iff)
  then have "list_all (\<lambda>(k, v). k = ''store.backend'' \<or> decodesTo D (look k) v) (valsCfg (withBackend x cfg))" for x
    by (auto simp: valsCfg_def valsStore_def withBackend_def)
  with \<open>list_all (\<lambda>(k, v). k = ''store.backend'' \<or> decodesTo D (look k) v) (valsCfg cfg)\<close> show ?thesis
    using assms(1) b by (auto simp: checkBackend_def Let_def withBackend_def split: if_splits)
qed

lemma valsCfg_keys: "set (map fst (valsCfg cfg)) = fst ` set envBindings"
  unfolding valsCfg_def valsAPI_def valsStore_def valsStoreSQL_def valsAerospike_def valsKafka_def valsP2P_def valsP2PMsgBus_def
    valsSubtree_def valsBlock_def valsCallback_def valsBlobStore_def valsDataHub_def envBindings_def
  by (simp only: append.simps list.map list.set fst_conv image_insert image_empty Un_insert_left Un_empty_left)

text \<open>
  C27: Where a configuration comes from. When \<open>Load\<close> succeeds, every field of the configuration is the converted value of
  the environment variable bound to its key if that is set and not empty, else of the file, else of the default, and the
  zero value if there is none of them; only the backend may differ, which is \<open>sql\<close> as it was set or \<open>aerospike\<close>, also in
  place of an empty one. Every field has a variable of its own. A file that is absent counts as empty.
\<close>

theorem Load_settings:
  assumes "viper_laws V fileAt defOf varOf fileOf" and "range_order ord" and "Load V D ord env = Inr cfg"
    and "look = setting env (fileMap (fileAt (configPath env)))"
  shows "(\<forall>(k, v) \<in> set (valsCfg cfg). k = ''store.backend'' \<or> decodesTo D (look k) v)
     \<and> (Store_Backend (Cfg_Store cfg) = BackendSQL \<and> decodesTo D (look ''store.backend'') (CStr BackendSQL)
        \<or> Store_Backend (Cfg_Store cfg) = BackendAerospike
          \<and> (decodesTo D (look ''store.backend'') (CStr []) \<or> decodesTo D (look ''store.backend'') (CStr BackendAerospike)))
     \<and> set (map fst (valsCfg cfg)) = fst ` set envBindings \<and> distinct (map snd envBindings)"
proof -
  have "loadSpec D env fileAt = Inr cfg" using viper_laws.Load_spec [OF assms(1,2)] assms(3) by metis
  then obtain c where "decodeCfg D look = Some c" "checkBackend c = Inr cfg"
    by (auto simp: loadSpec_def Let_def assms(4) split: sum.splits readErr.splits option.splits)
  then show ?thesis
    using checkBackend_settings [OF _ Cfg_settings] valsCfg_keys keys_distinct(3) by (simp add: list_all_iff)
qed

text \<open>Values that already have the type of the field, numbers written in decimal and lists separated by commas.\<close>

definition plainDecoders :: decoders where
  "plainDecoders =
     \<lparr>d_str = (\<lambda>x. case x of CStr s \<Rightarrow> Some s | _ \<Rightarrow> None),
      d_int = (\<lambda>x. case x of CInt i \<Rightarrow> Some i | CStr s \<Rightarrow> Atoi s | _ \<Rightarrow> None),
      d_bool = (\<lambda>x. case x of CBool b \<Rightarrow> Some b | CStr s \<Rightarrow> map_of [(''true'', True), (''false'', False)] s | _ \<Rightarrow> None),
      d_strs = (\<lambda>x. case x of CStrs l \<Rightarrow> Some l | CStr s \<Rightarrow> Some (if s = [] then [] else splitOn CHR '','' s) | _ \<Rightarrow> None)\<rparr>"

definition defaultConfig :: Config where
  "defaultConfig =
     \<lparr>Cfg_Mode = ''all-in-one'',
      Cfg_LogLevel = ''info'',
      Cfg_API = \<lparr>API_Port = 8080\<rparr>,
      Cfg_Store = \<lparr>Store_Backend = BackendAerospike,
      Store_SQL = \<lparr>StoreSQL_Driver = ''postgres'',
      StoreSQL_DSN = [],
      StoreSQL_Schema = '''',
      StoreSQL_SweeperInterval = ''60s'',
      StoreSQL_MaxOpenConns = 25,
      StoreSQL_MaxIdleConns = 5\<rparr>\<rparr>,
      Cfg_Aerospike = \<lparr>Aerospike_Host = ''localhost'',
      Aerospike_Port = 3000,
      Aerospike_Namespace = ''merkle'',
      Aerospike_SetName = ''registrations'',
      Aerospike_SeenSet = ''seen_counters'',
      Aerospike_CallbackDedupSet = ''callback_dedup'',
      Aerospike_CallbackURLRegistry = ''callback_urls'',
      Aerospike_SubtreeCounterSet = ''subtree_counters'',
      Aerospike_SubtreeCounterTTLSec = 600,
      Aerospike_CallbackAccumulatorSet = ''callback_accum'',
      Aerospike_CallbackAccumulatorTTLSec = 600,
      Aerospike_MaxRetries = 3,
      Aerospike_RetryBaseMs = 100\<rparr>,
      Cfg_Kafka = \<lparr>Kafka_Brokers = [''localhost:9092''],
      Kafka_SubtreeTopic = ''subtree'',
      Kafka_BlockTopic = ''block'',
      Kafka_CallbackTopic = ''callback'',
      Kafka_CallbackDLQTopic = ''callback-dlq'',
      Kafka_SubtreeDLQTopic = ''subtree-dlq'',
      Kafka_SubtreeWorkTopic = ''subtree-work'',
      Kafka_ConsumerGroup = ''merkle-service''\<rparr>,
      Cfg_P2P = \<lparr>P2P_Network = ''main'',
      P2P_StoragePath = ''~/.merkle-service/p2p'',
      P2P_MsgBus = \<lparr>P2PMsgBus_DHTMode = ''off'',
      P2PMsgBus_Port = 9905,
      P2PMsgBus_AnnounceAddrs = [],
      P2PMsgBus_BootstrapPeers = [],
      P2PMsgBus_MaxConnections = 0,
      P2PMsgBus_MinConnections = 0,
      P2PMsgBus_EnableNAT = False,
      P2PMsgBus_EnableMDNS = False\<rparr>\<rparr>,
      Cfg_Subtree = \<lparr>Subtree_StorageMode = ''realtime'',
      Subtree_DAHOffset = 1,
      Subtree_StumpDAHOffset = 6,
      Subtree_CacheMaxMB = 64,
      Subtree_DedupCacheSize = 100000,
      Subtree_MaxAttempts = 10\<rparr>,
      Cfg_Block = \<lparr>Block_WorkerPoolSize = 16,
      Block_PostMineTTLSec = 1800,
      Block_DedupCacheSize = 10000\<rparr>,
      Cfg_Callback = \<lparr>Callback_MaxRetries = 5,
      Callback_BackoffBaseSec = 30,
      Callback_TimeoutSec = 10,
      Callback_SeenThreshold = 3,
      Callback_DedupTTLSec = 86400,
      Callback_DeliveryWorkers = 64,
      Callback_MaxConnsPerHost = 32,
      Callback_MaxIdleConnsPerHost = 16\<rparr>,
      Cfg_BlobStore = \<lparr>BlobStore_URL = ''file:///tmp/merkle-subtrees''\<rparr>,
      Cfg_DataHub = \<lparr>DataHub_TimeoutSec = 30,
      DataHub_MaxRetries = 3\<rparr>\<rparr>"

definition nativeDecoders :: "decoders \<Rightarrow> bool" where
  "nativeDecoders D \<longleftrightarrow> (\<forall>s. d_str D (CStr s) = Some s) \<and> (\<forall>i. d_int D (CInt i) = Some i)
     \<and> (\<forall>b. d_bool D (CBool b) = Some b) \<and> (\<forall>l. d_strs D (CStrs l) = Some l)"

lemma setting_defaults: "setting (\<lambda>_. None) Map.empty = map_of defaults"
  by (simp add: fun_eq_iff setting_def firstOf_def split: bind_splits)

lemma native_fields:
  assumes "nativeDecoders D"
  shows "strField D look k = (case look k of None \<Rightarrow> Some [] | Some (CStr s) \<Rightarrow> Some s | Some x \<Rightarrow> d_str D x)"
    and "intField D look k = (case look k of None \<Rightarrow> Some 0 | Some (CInt i) \<Rightarrow> Some i | Some x \<Rightarrow> d_int D x)"
    and "boolField D look k = (case look k of None \<Rightarrow> Some False | Some (CBool b) \<Rightarrow> Some b | Some x \<Rightarrow> d_bool D x)"
    and "strsField D look k = (case look k of None \<Rightarrow> Some [] | Some (CStrs l) \<Rightarrow> Some l | Some x \<Rightarrow> d_strs D x)"
  using assms by (auto simp: strField_def intField_def boolField_def strsField_def nativeDecoders_def split: option.splits cfgVal.splits)

lemma default_values:
  "map_of defaults ''mode'' = Some (CStr ''all-in-one'')"
  "map_of defaults ''loglevel'' = Some (CStr ''info'')"
  "map_of defaults ''api.port'' = Some (CInt 8080)"
  "map_of defaults ''store.backend'' = Some (CStr BackendAerospike)"
  "map_of defaults ''store.sql.driver'' = Some (CStr ''postgres'')"
  "map_of defaults ''store.sql.dsn'' = None"
  "map_of defaults ''store.sql.schema'' = Some (CStr '''')"
  "map_of defaults ''store.sql.sweeperinterval'' = Some (CStr ''60s'')"
  "map_of defaults ''store.sql.maxopenconns'' = Some (CInt 25)"
  "map_of defaults ''store.sql.maxidleconns'' = Some (CInt 5)"
  "map_of defaults ''aerospike.host'' = Some (CStr ''localhost'')"
  "map_of defaults ''aerospike.port'' = Some (CInt 3000)"
  "map_of defaults ''aerospike.namespace'' = Some (CStr ''merkle'')"
  "map_of defaults ''aerospike.setname'' = Some (CStr ''registrations'')"
  "map_of defaults ''aerospike.seenset'' = Some (CStr ''seen_counters'')"
  "map_of defaults ''aerospike.callbackdedupset'' = Some (CStr ''callback_dedup'')"
  "map_of defaults ''aerospike.callbackurlregistry'' = Some (CStr ''callback_urls'')"
  "map_of defaults ''aerospike.subtreecounterset'' = Some (CStr ''subtree_counters'')"
  "map_of defaults ''aerospike.subtreecounterttlsec'' = Some (CInt 600)"
  "map_of defaults ''aerospike.callbackaccumulatorset'' = Some (CStr ''callback_accum'')"
  "map_of defaults ''aerospike.callbackaccumulatorttlsec'' = Some (CInt 600)"
  "map_of defaults ''aerospike.maxretries'' = Some (CInt 3)"
  "map_of defaults ''aerospike.retrybasems'' = Some (CInt 100)"
  "map_of defaults ''kafka.brokers'' = Some (CStrs [''localhost:9092''])"
  "map_of defaults ''kafka.subtreetopic'' = Some (CStr ''subtree'')"
  "map_of defaults ''kafka.blocktopic'' = Some (CStr ''block'')"
  "map_of defaults ''kafka.callbacktopic'' = Some (CStr ''callback'')"
  "map_of defaults ''kafka.callbackdlqtopic'' = Some (CStr ''callback-dlq'')"
  "map_of defaults ''kafka.subtreedlqtopic'' = Some (CStr ''subtree-dlq'')"
  "map_of defaults ''kafka.subtreeworktopic'' = Some (CStr ''subtree-work'')"
  "map_of defaults ''kafka.consumergroup'' = Some (CStr ''merkle-service'')"
  "map_of defaults ''p2p.network'' = Some (CStr ''main'')"
  "map_of defaults ''p2p.storagepath'' = Some (CStr ''~/.merkle-service/p2p'')"
  "map_of defaults ''p2p.msgbus.dhtmode'' = Some (CStr ''off'')"
  "map_of defaults ''p2p.msgbus.port'' = Some (CInt 9905)"
  "map_of defaults ''p2p.msgbus.announceaddrs'' = None"
  "map_of defaults ''p2p.msgbus.bootstrappeers'' = None"
  "map_of defaults ''p2p.msgbus.maxconnections'' = None"
  "map_of defaults ''p2p.msgbus.minconnections'' = None"
  "map_of defaults ''p2p.msgbus.enablenat'' = Some (CBool False)"
  "map_of defaults ''p2p.msgbus.enablemdns'' = Some (CBool False)"
  "map_of defaults ''subtree.storagemode'' = Some (CStr ''realtime'')"
  "map_of defaults ''subtree.dahoffset'' = Some (CInt 1)"
  "map_of defaults ''subtree.stumpdahoffset'' = Some (CInt 6)"
  "map_of defaults ''subtree.cachemaxmb'' = Some (CInt 64)"
  "map_of defaults ''subtree.dedupcachesize'' = Some (CInt 100000)"
  "map_of defaults ''subtree.maxattempts'' = Some (CInt 10)"
  "map_of defaults ''block.workerpoolsize'' = Some (CInt 16)"
  "map_of defaults ''block.postminettlsec'' = Some (CInt 1800)"
  "map_of defaults ''block.dedupcachesize'' = Some (CInt 10000)"
  "map_of defaults ''callback.maxretries'' = Some (CInt 5)"
  "map_of defaults ''callback.backoffbasesec'' = Some (CInt 30)"
  "map_of defaults ''callback.timeoutsec'' = Some (CInt 10)"
  "map_of defaults ''callback.seenthreshold'' = Some (CInt 3)"
  "map_of defaults ''callback.dedupttlsec'' = Some (CInt 86400)"
  "map_of defaults ''callback.deliveryworkers'' = Some (CInt 64)"
  "map_of defaults ''callback.maxconnsperhost'' = Some (CInt 32)"
  "map_of defaults ''callback.maxidleconnsperhost'' = Some (CInt 16)"
  "map_of defaults ''blobstore.url'' = Some (CStr ''file:///tmp/merkle-subtrees'')"
  "map_of defaults ''datahub.timeoutsec'' = Some (CInt 30)"
  "map_of defaults ''datahub.maxretries'' = Some (CInt 3)"
  by code_simp+

lemma decode_defaults:
  assumes "nativeDecoders D"
  shows "decodeCfg D (map_of defaults) = Some defaultConfig"
  unfolding decodeCfg_def defaultConfig_def decodeAPI_def decodeStore_def decodeStoreSQL_def decodeAerospike_def decodeKafka_def
    decodeP2P_def decodeP2PMsgBus_def decodeSubtree_def decodeBlock_def decodeCallback_def decodeBlobStore_def decodeDataHub_def
  by (simp only: native_fields [OF assms, of "map_of defaults"] default_values option.case cfgVal.case bind.bind_lunit)

text \<open>
  The defaults. With no environment variables and no file, \<open>Load\<close> succeeds with the values of \<open>registerDefaults\<close>, and zero
  values for the five settings that have none.
\<close>

theorem Load_defaults:
  assumes "viper_laws V fileAt defOf varOf fileOf" and "range_order ord" and "nativeDecoders D"
    and "fileAt None = Inl ConfigFileNotFound"
  shows "Load V D ord (\<lambda>_. None) = Inr defaultConfig"
proof -
  have "configPath (\<lambda>_. None) = None" by (simp add: configPath_def getenv_def)
  moreover have "checkBackend defaultConfig = Inr defaultConfig"
    by (simp add: checkBackend_def defaultConfig_def BackendAerospike_def)
  ultimately have "loadSpec D (\<lambda>_. None) fileAt = Inr defaultConfig"
    using decode_defaults [OF assms(3)] setting_defaults by (simp add: loadSpec_def assms(4) fileMap_def)
  then show ?thesis using viper_laws.Load_spec [OF assms(1,2)] by metis
qed

definition noFile :: "string option \<Rightarrow> readErr + (string \<rightharpoonup> cfgVal)" where
  "noFile p = Inl (case p of None \<Rightarrow> ConfigFileNotFound | Some f \<Rightarrow> FileNotExist)"

lemma plain_native: "nativeDecoders plainDecoders"
  by (simp add: nativeDecoders_def plainDecoders_def)

theorem Load_defaults_witness:
  "Load (layered noFile) plainDecoders (\<lambda>_ bs. rev bs) (\<lambda>_. None) = Inr defaultConfig \<and> API_Port (Cfg_API defaultConfig) = 8080"
  using Load_defaults [OF layered.viper_laws_axioms, of "\<lambda>_ bs. rev bs" plainDecoders noFile] plain_native
  by (simp add: noFile_def defaultConfig_def)

text \<open>One variable set: the port of the API is read from it.\<close>

lemma setting_port: "setting [''API_PORT'' \<mapsto> ''9090''] Map.empty = (map_of defaults)(''api.port'' \<mapsto> CStr ''9090'')"
proof
  fix k
  have v: "map_of envBindings ''api.port'' = Some ''API_PORT''" by code_simp
  have only: "k = ''api.port''" if "map_of envBindings k = Some ''API_PORT''"
  proof -
    have inj: "inj_on snd (set envBindings)" using keys_distinct(3) by (simp add: distinct_map)
    have "(k, ''API_PORT'') = (''api.port'', ''API_PORT'')"
      by (rule inj_onD [OF inj _ map_of_SomeD [OF that] map_of_SomeD [OF v]]) simp
    then show ?thesis by simp
  qed
  show "setting [''API_PORT'' \<mapsto> ''9090''] Map.empty k = ((map_of defaults)(''api.port'' \<mapsto> CStr ''9090'')) k"
  proof (cases "k = ''api.port''")
    case True
    show ?thesis unfolding True by (simp add: setting_def firstOf_def v)
  next
    case False
    then have "Option.bind (map_of envBindings k) [''API_PORT'' \<mapsto> ''9090''] = None"
      using only by (cases "map_of envBindings k") auto
    then show ?thesis using False by (simp add: setting_def firstOf_def)
  qed
qed

definition portConfig :: Config where
  "portConfig = defaultConfig\<lparr>Cfg_API := \<lparr>API_Port = 9090\<rparr>\<rparr>"

lemma decode_port: "decodeCfg plainDecoders ((map_of defaults)(''api.port'' \<mapsto> CStr ''9090'')) = Some portConfig"
proof -
  let ?look = "(map_of defaults)(''api.port'' \<mapsto> CStr ''9090'')"
  have other: "k \<noteq> ''api.port'' \<Longrightarrow> strField D ?look k = strField D (map_of defaults) k \<and> intField D ?look k = intField D (map_of defaults) k
      \<and> boolField D ?look k = boolField D (map_of defaults) k \<and> strsField D ?look k = strsField D (map_of defaults) k" for D k
    by (simp add: strField_def intField_def boolField_def strsField_def)
  have "decodeAPI plainDecoders ?look = Some \<lparr>API_Port = 9090\<rparr>"
    by (simp add: decodeAPI_def intField_def plainDecoders_def Atoi_def digitsVal_def)
  moreover have "decodeAPI plainDecoders (map_of defaults) = Some \<lparr>API_Port = 8080\<rparr>"
    by (simp only: decodeAPI_def native_fields [OF plain_native] default_values option.case cfgVal.case bind.bind_lunit)
  ultimately show ?thesis
    using decode_defaults [OF plain_native]
    by (simp add: other portConfig_def decodeCfg_def decodeStore_def decodeStoreSQL_def decodeAerospike_def decodeKafka_def
        decodeP2P_def decodeP2PMsgBus_def decodeSubtree_def decodeBlock_def decodeCallback_def decodeBlobStore_def decodeDataHub_def
        bind_eq_Some_conv) (auto simp: defaultConfig_def)
qed

lemma Load_port: "Load (layered noFile) plainDecoders (\<lambda>_ bs. bs) [''API_PORT'' \<mapsto> ''9090''] = Inr portConfig"
  using decode_port layered.Load_spec [of "\<lambda>_ bs. bs" noFile plainDecoders "[''API_PORT'' \<mapsto> ''9090'']"]
  by (simp add: loadSpec_def configPath_def getenv_def noFile_def fileMap_def setting_port checkBackend_def portConfig_def
      defaultConfig_def BackendAerospike_def)

theorem Load_settings_witness:
  "Load (layered noFile) plainDecoders (\<lambda>_ bs. bs) [''API_PORT'' \<mapsto> ''9090''] = Inr portConfig
   \<and> list_all (\<lambda>(k, v). k = ''store.backend'' \<or> decodesTo plainDecoders (setting [''API_PORT'' \<mapsto> ''9090''] Map.empty k) v) (valsCfg portConfig)"
  using Load_settings [OF layered.viper_laws_axioms range_order_id Load_port refl] Load_port
  by (simp add: configPath_def getenv_def noFile_def fileMap_def list_all_iff)

end
