(* ===== verification/Store_Factory.thy ===== *)
theory Store_Factory
  imports Configuration Services Sql_Setup File_Blob Aerospike
begin

text \<open>
  Opening the stores a configuration asks for and closing them again (internal/store/factory.go, internal/store/sql/sql.go,
  the constructors of the stores and of the blob store in internal/store). Whether the connection to Aerospike, the database,
  its ping and its migrations succeed are arguments, and so is what \<open>url.Parse\<close> gives: its host and path, or an error.

  What is opened and closed is written to a log.
\<close>

section \<open>Blob store from its URL\<close>

datatype blobBackend = MemBlobs MemoryBlobStore | FileBlobs FileBlobStore

datatype factoryErr =
    EBlobURL string
  | EBlobDir blobErr
  | EAerospikeClient string
  | EBlobStore factoryErr
  | EUnknownDriver string
  | ENoDSN
  | EOpen string
  | EPing string
  | EMigrate string
  | ENotCompiledIn
  | EUnknownBackend string
  | EClose string

definition NewBlobStoreFromURL ::
    "(string \<Rightarrow> string + string \<times> string) \<Rightarrow> fault option \<Rightarrow> disk \<Rightarrow> string \<Rightarrow> factoryErr + blobBackend" where
  "NewBlobStoreFromURL parse flt dsk rawURL =
     (if hasPrefix ''file://'' rawURL then
        (case parse rawURL of
           Inl err \<Rightarrow> Inl (EBlobURL err)
         | Inr (host, path) \<Rightarrow>
             (let dir = host @ path; dir = (if dir = [] then path else dir)
              in case NewFileBlobStore flt dir dsk of Inl e \<Rightarrow> Inl (EBlobDir e) | Inr f \<Rightarrow> Inr (FileBlobs f)))
      else Inr (MemBlobs NewMemoryBlobStore))"

section \<open>Stores on Aerospike\<close>

definition NewRegistrationStore :: "'c AerospikeClient \<Rightarrow> string \<Rightarrow> int \<Rightarrow> int \<Rightarrow> 'c aerospikeStore" where
  "NewRegistrationStore client setName maxRetries retryBaseMs =
     \<lparr>as_client = client, as_setName = setName, as_maxRetries = maxRetries, as_retryBaseMs = retryBaseMs\<rparr>"

definition NewCallbackDedupStore :: "'c AerospikeClient \<Rightarrow> string \<Rightarrow> int \<Rightarrow> int \<Rightarrow> 'c aerospikeStore" where
  "NewCallbackDedupStore client setName maxRetries retryBaseMs =
     \<lparr>as_client = client, as_setName = setName, as_maxRetries = maxRetries, as_retryBaseMs = retryBaseMs\<rparr>"

definition NewCallbackURLRegistry :: "'c AerospikeClient \<Rightarrow> string \<Rightarrow> int \<Rightarrow> int \<Rightarrow> 'c aerospikeStore" where
  "NewCallbackURLRegistry client setName maxRetries retryBaseMs =
     \<lparr>as_client = client, as_setName = setName, as_maxRetries = maxRetries, as_retryBaseMs = retryBaseMs\<rparr>"

definition NewCallbackAccumulatorStore :: "'c AerospikeClient \<Rightarrow> string \<Rightarrow> int \<Rightarrow> int \<Rightarrow> int \<Rightarrow> 'c aerospikeTtlStore" where
  "NewCallbackAccumulatorStore client setName ttlSec maxRetries retryBaseMs =
     \<lparr>as_client = client, as_setName = setName, as_maxRetries = maxRetries, as_retryBaseMs = retryBaseMs, as_ttlSec = ttlSec\<rparr>"

definition NewSeenCounterStore :: "'c AerospikeClient \<Rightarrow> string \<Rightarrow> int \<Rightarrow> int \<Rightarrow> int \<Rightarrow> 'c aerospikeSeenCounter" where
  "NewSeenCounterStore client setName threshold maxRetries retryBaseMs =
     \<lparr>as_client = client, as_setName = setName, as_maxRetries = maxRetries, as_retryBaseMs = retryBaseMs, as_threshold = threshold\<rparr>"

definition NewSubtreeCounterStore :: "'c AerospikeClient \<Rightarrow> string \<Rightarrow> int \<Rightarrow> int \<Rightarrow> int \<Rightarrow> 'c aerospikeTtlStore" where
  "NewSubtreeCounterStore client setName ttlSec maxRetries retryBaseMs =
     \<lparr>as_client = client, as_setName = setName, as_maxRetries = maxRetries, as_retryBaseMs = retryBaseMs, as_ttlSec = ttlSec\<rparr>"

datatype resource = AerospikeConn | Database | Sweeper

datatype resEvent = Acquired resource | Released resource

record 'c aerospikeStores =
  ar_Registration :: "'c aerospikeStore"
  ar_CallbackDedup :: "'c aerospikeStore"
  ar_CallbackURLRegistry :: "'c aerospikeStore"
  ar_CallbackAccumulator :: "'c aerospikeTtlStore"
  ar_SeenCounter :: "'c aerospikeSeenCounter"
  ar_SubtreeCounter :: "'c aerospikeTtlStore"

text \<open>The stores on SQL share the database and the dialect; what they hold besides.\<close>

record sqlStores =
  sr_dialect :: dialect
  sr_accumulatorTTLSec :: int
  sr_seenThreshold :: int
  sr_counterTTLSec :: int
  sr_sweepInterval :: int

datatype 'c backendStores = AerospikeStores "'c aerospikeStores" | SqlStores sqlStores

record 'c storeRegistry = "(resEvent list, factoryErr) Registry" +
  reg_Subtree :: "blobBackend blobSubtreeStore"
  reg_Stump :: "blobBackend blobStumpStore"
  reg_stores :: "'c backendStores"

text \<open>What the outside answers while the stores are opened, and what closing the database answers.\<close>

record 'c factoryEnv =
  fe_connect :: "string \<Rightarrow> int \<Rightarrow> string + 'c asClient"
  fe_parseURL :: "string \<Rightarrow> string + string \<times> string"
  fe_fault :: "fault option"
  fe_disk :: disk
  fe_open :: "string \<Rightarrow> string \<Rightarrow> string option"
  fe_ping :: "string option"
  fe_migrate :: "dialect \<Rightarrow> string option"
  fe_duration :: "string \<Rightarrow> int option"
  fe_dbClose :: "string option"

definition NewAerospikeClient :: "'c factoryEnv \<Rightarrow> string \<Rightarrow> int \<Rightarrow> string \<Rightarrow> string + 'c AerospikeClient" where
  "NewAerospikeClient E host port namespace = (case fe_connect E host port of
      Inl err \<Rightarrow> Inl err
    | Inr client \<Rightarrow> Inr \<lparr>ac_client = client, ac_namespace = namespace\<rparr>)"

definition newAerospikeRegistry :: "'c factoryEnv \<Rightarrow> Config \<Rightarrow> resEvent list \<Rightarrow> (factoryErr + 'c storeRegistry) \<times> resEvent list" where
  "newAerospikeRegistry E cfg log =
     (let a = Cfg_Aerospike cfg; retries = Aerospike_MaxRetries a; base = Aerospike_RetryBaseMs a
      in case NewAerospikeClient E (Aerospike_Host a) (Aerospike_Port a) (Aerospike_Namespace a) of
           Inl err \<Rightarrow> (Inl (EAerospikeClient err), log)
         | Inr client \<Rightarrow>
             (let log = log @ [Acquired AerospikeConn]
              in case NewBlobStoreFromURL (fe_parseURL E) (fe_fault E) (fe_disk E) (BlobStore_URL (Cfg_BlobStore cfg)) of
                   Inl err \<Rightarrow> (Inl (EBlobStore err), log @ [Released AerospikeConn])
                 | Inr blob \<Rightarrow>
                     (let r = \<lparr>closers = [],
                        reg_Subtree = NewSubtreeStore blob (word_of_int (Subtree_DAHOffset (Cfg_Subtree cfg))),
                        reg_Stump = NewStumpStore blob (word_of_int (Subtree_StumpDAHOffset (Cfg_Subtree cfg))),
                        reg_stores = AerospikeStores
                          \<lparr>ar_Registration = NewRegistrationStore client (Aerospike_SetName a) retries base,
                           ar_CallbackDedup = NewCallbackDedupStore client (Aerospike_CallbackDedupSet a) retries base,
                           ar_CallbackURLRegistry = NewCallbackURLRegistry client (Aerospike_CallbackURLRegistry a) retries base,
                           ar_CallbackAccumulator = NewCallbackAccumulatorStore client (Aerospike_CallbackAccumulatorSet a)
                             (Aerospike_CallbackAccumulatorTTLSec a) retries base,
                           ar_SeenCounter = NewSeenCounterStore client (Aerospike_SeenSet a)
                             (Callback_SeenThreshold (Cfg_Callback cfg)) retries base,
                           ar_SubtreeCounter = NewSubtreeCounterStore client (Aerospike_SubtreeCounterSet a)
                             (Aerospike_SubtreeCounterTTLSec a) retries base\<rparr>\<rparr>
                      in (Inr (AddCloser (Some (\<lambda>log. (None, log @ [Released AerospikeConn]))) r), log))))"

section \<open>Stores on SQL\<close>

text \<open>\<open>New\<close> of internal/store/sql. The limits of the connection pool have no counterpart here.\<close>

definition sqlNew :: "'c factoryEnv \<Rightarrow> Config \<Rightarrow> resEvent list \<Rightarrow> (factoryErr + 'c storeRegistry) \<times> resEvent list" where
  "sqlNew E cfg log =
     (let q = Store_SQL (Cfg_Store cfg)
      in case resolveDriver (StoreSQL_Driver q) of
           None \<Rightarrow> (Inl (EUnknownDriver (StoreSQL_Driver q)), log)
         | Some (d, driverName) \<Rightarrow>
             if StoreSQL_DSN q = [] then (Inl ENoDSN, log)
             else case fe_open E driverName (StoreSQL_DSN q) of
               Some err \<Rightarrow> (Inl (EOpen err), log)
             | None \<Rightarrow>
                 (let log = log @ [Acquired Database]
                  in case fe_ping E of
                       Some err \<Rightarrow> (Inl (EPing err), log @ [Released Database])
                     | None \<Rightarrow> (case fe_migrate E d of
                         Some err \<Rightarrow> (Inl (EMigrate err), log @ [Released Database])
                       | None \<Rightarrow> (case NewBlobStoreFromURL (fe_parseURL E) (fe_fault E) (fe_disk E) (BlobStore_URL (Cfg_BlobStore cfg)) of
                           Inl err \<Rightarrow> (Inl (EBlobStore err), log @ [Released Database])
                         | Inr blob \<Rightarrow>
                             (let sweepInterval = parseDuration (fe_duration E) (StoreSQL_SweeperInterval q) 60000000000;
                                  log = log @ [Acquired Sweeper];
                                  r = \<lparr>closers = [],
                                    reg_Subtree = NewSubtreeStore blob (word_of_int (Subtree_DAHOffset (Cfg_Subtree cfg))),
                                    reg_Stump = NewStumpStore blob (word_of_int (Subtree_StumpDAHOffset (Cfg_Subtree cfg))),
                                    reg_stores = SqlStores
                                      \<lparr>sr_dialect = d, sr_accumulatorTTLSec = Aerospike_CallbackAccumulatorTTLSec (Cfg_Aerospike cfg),
                                       sr_seenThreshold = Callback_SeenThreshold (Cfg_Callback cfg),
                                       sr_counterTTLSec = Aerospike_SubtreeCounterTTLSec (Cfg_Aerospike cfg),
                                       sr_sweepInterval = sweepInterval\<rparr>\<rparr>
                              in (Inr (AddCloser (Some (\<lambda>log. (map_option EClose (fe_dbClose E),
                                    log @ [Released Sweeper, Released Database]))) r), log))))))"

text \<open>The SQL backend is a variable that the SQL package sets when it is linked in.\<close>

definition NewFromConfig ::
    "(Config \<Rightarrow> resEvent list \<Rightarrow> (factoryErr + 'c storeRegistry) \<times> resEvent list) option \<Rightarrow> 'c factoryEnv \<Rightarrow> Config \<Rightarrow> resEvent list
      \<Rightarrow> (factoryErr + 'c storeRegistry) \<times> resEvent list" where
  "NewFromConfig sqlBackend E cfg log =
     (let b = Store_Backend (Cfg_Store cfg)
      in if b = BackendAerospike \<or> b = [] then newAerospikeRegistry E cfg log
         else if b = BackendSQL then (case sqlBackend of None \<Rightarrow> (Inl ENotCompiledIn, log) | Some new \<Rightarrow> new cfg log)
         else (Inl (EUnknownBackend b), log))"

section \<open>Nothing stays open\<close>

text \<open>A log in which what was acquired last is released first; the result is what is still held.\<close>

fun orderly :: "resource list \<Rightarrow> resEvent list \<Rightarrow> resource list option" where
  "orderly hs [] = Some hs"
| "orderly hs (Acquired r # es) = orderly (r # hs) es"
| "orderly (h # hs) (Released r # es) = (if h = r then orderly hs es else None)"
| "orderly [] (Released r # es) = None"

text \<open>An attempt to open the stores leaves nothing open when it fails, and else all that a single \<open>Close\<close> releases.\<close>

definition closesUp :: "(factoryErr + 'c storeRegistry) \<times> resEvent list \<Rightarrow> resEvent list \<Rightarrow> bool" where
  "closesUp out log \<longleftrightarrow> (\<exists>es. snd out = log @ es \<and> (case fst out of
      Inl e \<Rightarrow> orderly [] es = Some []
    | Inr r \<Rightarrow> (\<exists>err es'. RegistryClose r (snd out) = (err, r\<lparr>closers := []\<rparr>, snd out @ es') \<and> orderly [] (es @ es') = Some [])))"

lemma closesUp_fail: "orderly [] es = Some [] \<Longrightarrow> closesUp (Inl e, log @ es) log"
  by (simp add: closesUp_def)

lemma closesUp_ok:
  assumes "closers r = []" and "\<And>l. close l = (err, l @ es')" and "orderly [] (es @ es') = Some []"
  shows "closesUp (Inr (AddCloser (Some close) r), log @ es) log"
  using assms by (simp add: closesUp_def AddCloser_def RegistryClose_def)

lemma aerospike_closesUp: "closesUp (newAerospikeRegistry E cfg log) log"
  using closesUp_fail [of "[]"] closesUp_fail [of "[Acquired AerospikeConn, Released AerospikeConn]"]
  by (auto simp: newAerospikeRegistry_def Let_def intro!: closesUp_ok split: sum.splits)

lemma sql_closesUp: "closesUp (sqlNew E cfg log) log"
  using closesUp_fail [of "[]"] closesUp_fail [of "[Acquired Database, Released Database]"]
  by (auto simp: sqlNew_def Let_def closesUp_ok [where es = "[Acquired Database, Acquired Sweeper]", simplified]
      split: sum.splits option.splits)

lemma Load_backend:
  assumes "Load V D ord env = Inr cfg"
  shows "Store_Backend (Cfg_Store cfg) = BackendAerospike \<or> Store_Backend (Cfg_Store cfg) = BackendSQL"
  using assms by (auto simp: Load_def checkBackend_def Let_def split: prod.splits option.splits readErr.splits if_splits)

text \<open>
  C26: Starting and stopping on the stores. For a configuration that \<open>Load\<close> accepted, opening the stores either fails, for a
  reason other than the name of the backend, and has released whatever it had opened, or gives a registry of that backend,
  whose \<open>Close\<close> releases everything that was opened, the sweeper before the database it works on, and which a second \<open>Close\<close>
  leaves alone.
\<close>

theorem stores_open_close:
  assumes "Load V D ord env = Inr cfg" and "NewFromConfig (if linked then Some (sqlNew E) else None) E cfg log = (out, log')"
  shows "\<exists>es. log' = log @ es \<and> (case out of
      Inl e \<Rightarrow> orderly [] es = Some [] \<and> (\<forall>b. e \<noteq> EUnknownBackend b)
    | Inr r \<Rightarrow> (\<exists>err es'. RegistryClose r log' = (err, r\<lparr>closers := []\<rparr>, log' @ es') \<and> orderly [] (es @ es') = Some [])
        \<and> ((\<exists>s. reg_stores r = SqlStores s) \<longleftrightarrow> Store_Backend (Cfg_Store cfg) = BackendSQL)
        \<and> RegistryClose (r\<lparr>closers := []\<rparr>) log'' = (None, r\<lparr>closers := []\<rparr>, log''))"
proof -
  have c: "closesUp (out, log') log"
    using assms(2) Load_backend [OF assms(1)] aerospike_closesUp [of E cfg log] sql_closesUp [of E cfg log] closesUp_fail [of "[]"]
    by (auto simp: NewFromConfig_def Let_def BackendAerospike_def BackendSQL_def split: if_splits option.splits)
  have e: "e \<noteq> EUnknownBackend b" if "out = Inl e" for e b
    using assms(2) Load_backend [OF assms(1)] that
    by (auto simp: NewFromConfig_def newAerospikeRegistry_def sqlNew_def Let_def BackendAerospike_def BackendSQL_def
        split: if_splits option.splits sum.splits)
  have r: "(\<exists>s. reg_stores r = SqlStores s) \<longleftrightarrow> Store_Backend (Cfg_Store cfg) = BackendSQL" if "out = Inr r" for r
    using assms(2) Load_backend [OF assms(1)] that
    by (auto simp: NewFromConfig_def newAerospikeRegistry_def sqlNew_def AddCloser_def Let_def BackendAerospike_def BackendSQL_def
        split: if_splits option.splits sum.splits)
  show ?thesis using c e r by (auto simp: closesUp_def RegistryClose_def split: sum.splits)
qed

definition exFactory :: "cluster factoryEnv" where
  "exFactory = \<lparr>fe_connect = (\<lambda>_ _. Inr (cluster 0)), fe_parseURL = (\<lambda>_. Inr ([], ''/tmp/merkle-subtrees'')), fe_fault = None,
     fe_disk = [], fe_open = (\<lambda>_ _. None), fe_ping = None, fe_migrate = (\<lambda>_. None), fe_duration = (\<lambda>_. None), fe_dbClose = None\<rparr>"

lemma exFactory_opens: "\<exists>r. NewFromConfig (Some (sqlNew exFactory)) exFactory portConfig [] = (Inr r, [Acquired AerospikeConn])"
proof -
  have "\<exists>f. NewFileBlobStore None ''/tmp/merkle-subtrees'' [] = Inr f"
    by (simp add: NewFileBlobStore_def MkdirAll_def list_ex_iff isFile_def)
  then have "\<exists>b. NewBlobStoreFromURL (fe_parseURL exFactory) (fe_fault exFactory) (fe_disk exFactory) (BlobStore_URL (Cfg_BlobStore portConfig)) = Inr b"
    by (auto simp: NewBlobStoreFromURL_def exFactory_def portConfig_def defaultConfig_def hasPrefix_def Let_def)
  moreover have "Store_Backend (Cfg_Store portConfig) = BackendAerospike" by (simp add: portConfig_def defaultConfig_def)
  moreover have "fe_connect exFactory h p = Inr (cluster 0)" for h p by (simp add: exFactory_def)
  ultimately show ?thesis
    by (auto simp: NewFromConfig_def newAerospikeRegistry_def NewAerospikeClient_def Let_def)
qed

theorem stores_open_close_witness:
  "\<exists>r err es'. NewFromConfig (Some (sqlNew exFactory)) exFactory portConfig [] = (Inr r, [Acquired AerospikeConn])
     \<and> RegistryClose r [Acquired AerospikeConn] = (err, r\<lparr>closers := []\<rparr>, [Acquired AerospikeConn] @ es')
     \<and> orderly [] ([Acquired AerospikeConn] @ es') = Some []"
proof -
  obtain r where r: "NewFromConfig (Some (sqlNew exFactory)) exFactory portConfig [] = (Inr r, [Acquired AerospikeConn])"
    using exFactory_opens by blast
  then show ?thesis
    using stores_open_close [OF Load_port, of True exFactory "[]" "Inr r" "[Acquired AerospikeConn]" "[]"] by auto
qed

section \<open>The sweeper and the closer\<close>

text \<open>
  The goroutine of the sweeper (\<open>run\<close>) with the closer of the registry (\<open>cancelSweeper\<close>, \<open>waitStopped\<close>, \<open>db.Close\<close>). When
  the context is done and the ticker has fired, \<open>select\<close> may take either branch.
\<close>

datatype sweeperPc = Selecting | Sweeping | Exited

datatype closerPc = NotClosing | AwaitingSweeper | ClosingDb | DbClosed

record sweepSys =
  sw_pc :: sweeperPc
  sw_closer :: closerPc
  sw_ctxDone :: bool
  sw_done :: bool

definition newSweeper :: sweepSys where
  "newSweeper = \<lparr>sw_pc = Selecting, sw_closer = NotClosing, sw_ctxDone = False, sw_done = False\<rparr>"

inductive sweepStep :: "sweepSys \<Rightarrow> sweepSys \<Rightarrow> bool" where
  tick: "sw_pc s = Selecting \<Longrightarrow> sweepStep s (s\<lparr>sw_pc := Sweeping\<rparr>)"
| swept: "sw_pc s = Sweeping \<Longrightarrow> sweepStep s (s\<lparr>sw_pc := Selecting\<rparr>)"
| exit: "sw_pc s = Selecting \<Longrightarrow> sw_ctxDone s \<Longrightarrow> sweepStep s (s\<lparr>sw_pc := Exited, sw_done := True\<rparr>)"
| cancel: "sw_closer s = NotClosing \<Longrightarrow> sweepStep s (s\<lparr>sw_closer := AwaitingSweeper, sw_ctxDone := True\<rparr>)"
| stopped: "sw_closer s = AwaitingSweeper \<Longrightarrow> sw_done s \<Longrightarrow> sweepStep s (s\<lparr>sw_closer := ClosingDb\<rparr>)"
| close: "sw_closer s = ClosingDb \<Longrightarrow> sweepStep s (s\<lparr>sw_closer := DbClosed\<rparr>)"

inductive_cases sweepStepE: "sweepStep s t"

lemma sweeper_inv:
  assumes "sweepStep\<^sup>*\<^sup>* newSweeper s"
  shows "(sw_done s \<longleftrightarrow> sw_pc s = Exited) \<and> (sw_closer s \<in> {ClosingDb, DbClosed} \<longrightarrow> sw_done s) \<and> (sw_closer s \<noteq> NotClosing \<longrightarrow> sw_ctxDone s)"
  using assms
proof (induction rule: rtranclp_induct)
  case (step s t)
  from step(2) show ?case by (rule sweepStepE) (use step(3) in auto)
qed (simp add: newSweeper_def)

text \<open>
  No sweep on a closed database. Whatever the order of ticks, sweeps and the closing of the registry, the sweeper does not
  work on the database when it is being closed or is closed, and the closer is not stuck before that: unless it has closed the
  database, it or the sweeper has a step.
\<close>

theorem no_sweep_after_close:
  assumes "sweepStep\<^sup>*\<^sup>* newSweeper s"
  shows "(sw_pc s = Sweeping \<longrightarrow> sw_closer s \<notin> {ClosingDb, DbClosed}) \<and> (sw_closer s \<noteq> DbClosed \<longrightarrow> (\<exists>t. sweepStep s t))
     \<and> (sw_closer s = AwaitingSweeper \<and> sw_pc s = Selecting \<longrightarrow> (\<exists>t u v. sweepStep s t \<and> sweepStep t u \<and> sweepStep u v \<and> sw_closer v = DbClosed))"
proof -
  note inv = sweeper_inv [OF assms]
  have "\<exists>t u v. sweepStep s t \<and> sweepStep t u \<and> sweepStep u v \<and> sw_closer v = DbClosed"
    if "sw_closer s = AwaitingSweeper" "sw_pc s = Selecting"
  proof (intro exI conjI)
    show "sweepStep s (s\<lparr>sw_pc := Exited, sw_done := True\<rparr>)" using that inv by (auto intro: sweepStep.exit)
    show "sweepStep (s\<lparr>sw_pc := Exited, sw_done := True\<rparr>) (s\<lparr>sw_pc := Exited, sw_done := True\<rparr>\<lparr>sw_closer := ClosingDb\<rparr>)"
      using that by (intro sweepStep.stopped) simp_all
    show "sweepStep (s\<lparr>sw_pc := Exited, sw_done := True\<rparr>\<lparr>sw_closer := ClosingDb\<rparr>)
        (s\<lparr>sw_pc := Exited, sw_done := True\<rparr>\<lparr>sw_closer := ClosingDb\<rparr>\<lparr>sw_closer := DbClosed\<rparr>)"
      by (intro sweepStep.close) simp
  qed simp
  moreover have "\<exists>t. sweepStep s t" if "sw_closer s \<noteq> DbClosed"
    using that inv sweepStep.tick [of s] sweepStep.swept [of s] sweepStep.cancel [of s] sweepStep.stopped [of s] sweepStep.close [of s]
    by (cases "sw_pc s"; cases "sw_closer s") blast+
  ultimately show ?thesis using inv by auto
qed

theorem no_sweep_after_close_witness: "sweepStep\<^sup>*\<^sup>* newSweeper (newSweeper\<lparr>sw_pc := Sweeping\<rparr>) \<and> (\<exists>t. sweepStep (newSweeper\<lparr>sw_pc := Sweeping\<rparr>) t)"
proof -
  have "sweepStep newSweeper (newSweeper\<lparr>sw_pc := Sweeping\<rparr>)" by (rule sweepStep.tick) (simp add: newSweeper_def)
  then have r: "sweepStep\<^sup>*\<^sup>* newSweeper (newSweeper\<lparr>sw_pc := Sweeping\<rparr>)" by blast
  then show ?thesis using no_sweep_after_close [OF r] by (simp add: newSweeper_def)
qed

end
