(* ===== verification/Delivery_Stop.thy ===== *)
theory Delivery_Stop
  imports Stump_Gate
begin

text \<open>
  Stopping the delivery service (\<open>Stop\<close> of internal/callback/delivery.go) while its consumer, workers and retry timers are running. The
  goroutines are those of the gate; the calls of \<open>scheduleRetry\<close> and of the timers are split at the reading of \<open>shuttingDown\<close>, so that
  a retry can be armed, or a timer be about to send, when the flag changes.
\<close>

section \<open>The service while it stops\<close>

text \<open>
  What has become of a retry: the goroutine that schedules it (a worker, or the consumer, whose number is that of the workers) has found
  \<open>shuttingDown\<close> false and is about to count the timer; the timer is set; its callback has found \<open>shuttingDown\<close> false and sends;
  the retry was dropped.
\<close>

datatype retryPhase = TimerArming nat | TimerParked | TimerSending | RetryDropped

datatype stopPc = Serving | AwaitTimers | ClosingWork | AwaitWorkers | StoppingConsumer | ClosingProducer | StopDone

text \<open>
  \<open>run\<close> holds the goroutines; its \<open>timers\<close> keep dropped retries too, and \<open>phases\<close> says for each of them how far it is. \<open>crashed\<close> is the panic
  of the consumer that sends on the closed channel, which ends the process, \<open>recovered\<close> the one of a timer, which its callback catches.
\<close>

record stopSys =
  run :: sys
  phases :: "retryPhase list"
  timerWg :: int
  stopping :: bool
  chClosed :: bool
  exited :: "nat set"
  stopAt :: stopPc
  recovered :: bool
  crashed :: bool

definition arming :: "nat \<Rightarrow> stopSys \<Rightarrow> bool" where
  "arming i x \<longleftrightarrow> TimerArming i \<in> set (phases x)"

definition consumerId :: "stopSys \<Rightarrow> nat" where
  "consumerId x = length (workers (run x))"

text \<open>The first half of \<open>scheduleRetry\<close> in goroutine \<open>i\<close>.\<close>

definition schedule :: "nat \<Rightarrow> stopSys \<Rightarrow> retryPhase" where
  "schedule i x = (if stopping x then RetryDropped else TimerArming i)"

definition workerAt :: "stopSys \<Rightarrow> nat \<Rightarrow> wstate \<Rightarrow> bool" where
  "workerAt x i w \<longleftrightarrow> i < length (workers (run x)) \<and> workers (run x) ! i = w \<and> \<not> arming i x"

definition consumerFree :: "stopSys \<Rightarrow> bool" where
  "consumerFree x \<longleftrightarrow> pending (run x) = None \<and> \<not> arming (consumerId x) x \<and> stopAt x \<notin> {ClosingProducer, StopDone}"

inductive dstep :: "(string \<Rightarrow> 256 word) \<Rightarrow> nat \<Rightarrow> stopSys \<Rightarrow> stopSys \<Rightarrow> bool" for sha cap where
  dispatch: "consumerFree x \<Longrightarrow> inbox (run x) = m # ms \<Longrightarrow> handleMessage now (Inr m) = Dispatched m f \<Longrightarrow>
     t = (if f then gateAdd (gateKey m) (run x) else run x) \<Longrightarrow> dstep sha cap x (x\<lparr>run := t\<lparr>inbox := ms, pending := Some m\<rparr>\<rparr>)"
| park: "consumerFree x \<Longrightarrow> inbox (run x) = m # ms \<Longrightarrow> handleMessage now (Inr m) = ParkedFor m d \<Longrightarrow>
     dstep sha cap x (x\<lparr>run := (run x)\<lparr>inbox := ms, timers := timers (run x) @ [m]\<rparr>, phases := phases x @ [schedule (consumerId x) x]\<rparr>)"
| send: "pending (run x) = Some m \<Longrightarrow> \<not> chClosed x \<Longrightarrow> length (workCh (run x)) < cap \<Longrightarrow>
     dstep sha cap x (x\<lparr>run := (run x)\<lparr>pending := None, workCh := workCh (run x) @ [m]\<rparr>\<rparr>)"
| sendClosed: "pending (run x) = Some m \<Longrightarrow> chClosed x \<Longrightarrow> dstep sha cap x (x\<lparr>crashed := True\<rparr>)"
| take: "workerAt x i Idle \<Longrightarrow> i \<notin> exited x \<Longrightarrow> workCh (run x) = m # c \<Longrightarrow>
     dstep sha cap x (x\<lparr>run := (run x)\<lparr>workCh := c, workers := (workers (run x))[i := AtStart m]\<rparr>\<rparr>)"
| exit: "workerAt x i Idle \<Longrightarrow> i \<notin> exited x \<Longrightarrow> chClosed x \<Longrightarrow> workCh (run x) = [] \<Longrightarrow>
     dstep sha cap x (x\<lparr>exited := insert i (exited x)\<rparr>)"
| start: "workerAt x i (AtStart m) \<Longrightarrow>
     dstep sha cap x (x\<lparr>run := (run x)\<lparr>workers := (workers (run x))[i := afterStart m (run x)]\<rparr>\<rparr>)"
| delete: "workerAt x i (Deleting m) \<Longrightarrow>
     dstep sha cap x (x\<lparr>run := (run x)\<lparr>gates := (gates (run x))(gateKey m := None), workers := (workers (run x))[i := Delivering m]\<rparr>\<rparr>)"
| deliver: "workerAt x i (Delivering m) \<Longrightarrow> rs = retriesOf sha e m ds \<Longrightarrow>
     dstep sha cap x (x\<lparr>run := (run x)\<lparr>timers := timers (run x) @ rs, attempted := attempted (run x) @ [m],
       workers := (workers (run x))[i := if firstStump m then Looking m else Idle]\<rparr>, phases := phases x @ map (\<lambda>_. schedule i x) rs\<rparr>)"
| lookup: "workerAt x i (Looking m) \<Longrightarrow>
     dstep sha cap x (x\<lparr>run := (run x)\<lparr>workers := (workers (run x))
       [i := case gates (run x) (gateKey m) of None \<Rightarrow> Idle | Some w \<Rightarrow> Finishing m w]\<rparr>\<rparr>)"
| finish: "workerAt x i (Finishing m w) \<Longrightarrow> \<not> panicked (run x) \<Longrightarrow>
     dstep sha cap x (x\<lparr>run := wgDone w ((run x)\<lparr>workers := (workers (run x))[i := Idle]\<rparr>)\<rparr>)"
| arm: "phases x = ps @ TimerArming i # qs \<Longrightarrow>
     dstep sha cap x (x\<lparr>phases := ps @ TimerParked # qs, timerWg := timerWg x + 1\<rparr>)"
| expire: "phases x = ps @ TimerParked # qs \<Longrightarrow> \<not> stopping x \<Longrightarrow> dstep sha cap x (x\<lparr>phases := ps @ TimerSending # qs\<rparr>)"
| expireStopping: "phases x = ps @ TimerParked # qs \<Longrightarrow> stopping x \<Longrightarrow>
     dstep sha cap x (x\<lparr>phases := ps @ RetryDropped # qs, timerWg := timerWg x - 1\<rparr>)"
| resend: "phases x = ps @ TimerSending # qs \<Longrightarrow> timers (run x) = xs @ m # ys \<Longrightarrow> length xs = length ps \<Longrightarrow> \<not> chClosed x \<Longrightarrow>
     length (workCh (run x)) < cap \<Longrightarrow>
     dstep sha cap x (x\<lparr>run := (run x)\<lparr>timers := xs @ ys, workCh := workCh (run x) @ [m]\<rparr>, phases := ps @ qs, timerWg := timerWg x - 1\<rparr>)"
| resendClosed: "phases x = ps @ TimerSending # qs \<Longrightarrow> chClosed x \<Longrightarrow>
     dstep sha cap x (x\<lparr>phases := ps @ RetryDropped # qs, timerWg := timerWg x - 1, recovered := True\<rparr>)"
| stopFlag: "stopAt x = Serving \<Longrightarrow> dstep sha cap x (x\<lparr>stopping := True, stopAt := AwaitTimers\<rparr>)"
| stopTimers: "stopAt x = AwaitTimers \<Longrightarrow> timerWg x = 0 \<Longrightarrow> dstep sha cap x (x\<lparr>stopAt := ClosingWork\<rparr>)"
| stopClose: "stopAt x = ClosingWork \<Longrightarrow> dstep sha cap x (x\<lparr>chClosed := True, stopAt := AwaitWorkers\<rparr>)"
| stopWorkers: "stopAt x = AwaitWorkers \<Longrightarrow> {..<length (workers (run x))} \<subseteq> exited x \<Longrightarrow> dstep sha cap x (x\<lparr>stopAt := StoppingConsumer\<rparr>)"
| stopConsumer: "stopAt x = StoppingConsumer \<Longrightarrow> pending (run x) = None \<Longrightarrow> \<not> arming (consumerId x) x \<Longrightarrow>
     dstep sha cap x (x\<lparr>stopAt := ClosingProducer\<rparr>)"
| stopProducer: "stopAt x = ClosingProducer \<Longrightarrow> dstep sha cap x (x\<lparr>stopAt := StopDone\<rparr>)"

text \<open>A crash ends the process.\<close>

definition liveStep :: "(string \<Rightarrow> 256 word) \<Rightarrow> nat \<Rightarrow> stopSys \<Rightarrow> stopSys \<Rightarrow> bool" where
  "liveStep sha cap x y \<longleftrightarrow> \<not> crashed x \<and> dstep sha cap x y"

definition startSys :: "nat \<Rightarrow> CallbackTopicMessage list \<Rightarrow> stopSys" where
  "startSys n msgs = \<lparr>run = initSys n msgs, phases = [], timerWg = 0, stopping = False, chClosed = False, exited = {},
     stopAt = Serving, recovered = False, crashed = False\<rparr>"

section \<open>The gate while the service stops\<close>

text \<open>Every step is one of the gate's or leaves the goroutines where they are.\<close>

lemma dstep_refines:
  assumes "dstep sha cap x y"
  shows "run y = run x \<or> gstep sha cap (run x) (run y)"
  using assms
proof (cases rule: dstep.cases)
  case (dispatch m ms now f t)
  then show ?thesis using gstep.dispatch [of "run x" m ms now f] by (simp add: consumerFree_def)
next
  case (park m ms now d)
  then show ?thesis using gstep.park [of "run x" m ms now d] by (simp add: consumerFree_def)
next
  case (resend ps qs xs m ys)
  then show ?thesis using gstep.fire [of "run x" xs m ys cap] by simp
next
  case (deliver i m rs e ds)
  then show ?thesis using gstep.deliver [of i "run x" m rs sha e ds cap] by (simp add: workerAt_def)
qed (auto simp: workerAt_def intro: gstep.intros)

section \<open>Invariant\<close>

definition timersCounted :: "retryPhase list \<Rightarrow> int" where
  "timersCounted ps = int (count_list ps TimerParked + count_list ps TimerSending)"

definition stopInv :: "stopSys \<Rightarrow> bool" where
  "stopInv x \<longleftrightarrow> length (phases x) = length (timers (run x)) \<and> timerWg x = timersCounted (phases x)
     \<and> stopping x = (stopAt x \<noteq> Serving) \<and> chClosed x = (stopAt x \<notin> {Serving, AwaitTimers, ClosingWork})
     \<and> (stopAt x \<notin> {Serving, AwaitTimers} \<longrightarrow> TimerSending \<notin> set (phases x)) \<and> \<not> recovered x
     \<and> (exited x \<noteq> {} \<longrightarrow> chClosed x \<and> workCh (run x) = []) \<and> (\<forall>i \<in> exited x. workerAt x i Idle)
     \<and> (stopAt x \<in> {StoppingConsumer, ClosingProducer, StopDone} \<longrightarrow> {..<length (workers (run x))} \<subseteq> exited x)
     \<and> (stopAt x \<in> {ClosingProducer, StopDone} \<longrightarrow> pending (run x) = None)"

lemma timersCounted_simps [simp]:
  "timersCounted [] = 0" "timersCounted (ps @ qs) = timersCounted ps + timersCounted qs"
  "timersCounted (p # ps) = (if p = TimerParked \<or> p = TimerSending then 1 else 0) + timersCounted ps"
  by (simp_all add: timersCounted_def)

lemma timersCounted_schedule [simp]: "timersCounted (map (\<lambda>_. schedule i x) rs) = 0"
  by (induction rs) (simp_all add: schedule_def)

lemma timersCounted_zero: "timersCounted ps = 0 \<Longrightarrow> TimerSending \<notin> set ps \<and> TimerParked \<notin> set ps"
  unfolding timersCounted_def of_nat_eq_0_iff add_is_0 count_list_0_iff by blast

lemma schedule_neq [simp]: "schedule i x \<noteq> TimerSending" "schedule i x \<noteq> TimerParked" "stopping x \<Longrightarrow> schedule i x = RetryDropped"
  by (simp_all add: schedule_def)

lemma gateAdd_fields [simp]:
  "workers (gateAdd k s) = workers s" "workCh (gateAdd k s) = workCh s" "timers (gateAdd k s) = timers s" "pending (gateAdd k s) = pending s"
  "inbox (gateAdd k s) = inbox s" "attempted (gateAdd k s) = attempted s"
  by (simp_all add: gateAdd_def split: option.split)

lemma stopInv_start: "stopInv (startSys n msgs)"
  by (simp add: stopInv_def startSys_def initSys_def)

text \<open>The steps of a worker, none of which is made by one that has exited.\<close>

lemma stopInv_worker:
  assumes "stopInv x" and "workerAt x i w" and "i \<notin> exited x"
    and "length (workers (run y)) = length (workers (run x))" and "\<And>j. j \<noteq> i \<Longrightarrow> workerAt x j Idle \<Longrightarrow> workers (run y) ! j = Idle"
    and "timers (run y) = timers (run x) @ rs" and "phases y = phases x @ map (\<lambda>_. schedule i x) rs" and "timerWg y = timerWg x"
    and "exited x \<noteq> {} \<Longrightarrow> workCh (run y) = []" and "pending (run y) = pending (run x)"
    and "stopping y = stopping x" and "chClosed y = chClosed x" and "exited y = exited x" and "stopAt y = stopAt x" and "recovered y = recovered x"
  shows "stopInv y"
proof -
  have "arming j y \<Longrightarrow> j \<noteq> i \<Longrightarrow> arming j x" for j by (auto simp: arming_def assms(7) schedule_def split: if_splits)
  moreover have "workerAt x j Idle" "j \<noteq> i" if "j \<in> exited x" for j using that assms(1,3) by (auto simp: stopInv_def)
  ultimately have "\<forall>j \<in> exited x. workerAt y j Idle" using assms(4,5) by (metis workerAt_def)
  moreover have "TimerSending \<in> set (phases y) \<longleftrightarrow> TimerSending \<in> set (phases x)"
    by (auto simp: assms(7) dest: sym [of TimerSending])
  ultimately show ?thesis
    using assms(1) assms(9) unfolding stopInv_def assms(11-15) assms(4,8,10)
    by (elim conjE, intro conjI) (simp_all add: assms(6,7) image_iff)
qed

text \<open>The steps of a timer.\<close>

lemma stopInv_timer:
  assumes "stopInv x" and "phases x = ps @ p # qs" and "phases y = ps @ p' # qs"
    and "timerWg y = timerWg x + timersCounted [p'] - timersCounted [p]" and "p' = TimerSending \<Longrightarrow> stopAt x = Serving"
    and "\<And>j. p' \<noteq> TimerArming j" and "run y = run x" and "stopping y = stopping x" and "chClosed y = chClosed x" and "exited y = exited x"
    and "stopAt y = stopAt x" and "recovered y = recovered x"
  shows "stopInv y"
proof -
  have "arming j y \<Longrightarrow> arming j x" for j using assms(6) [of j] by (auto simp: arming_def assms(2,3))
  then have "\<forall>j \<in> exited x. workerAt y j Idle" using assms(1,7) unfolding stopInv_def workerAt_def by metis
  moreover have "stopAt x \<notin> {Serving, AwaitTimers} \<longrightarrow> TimerSending \<notin> set (phases y)"
    using assms(1-3,5) by (auto simp: stopInv_def)
  ultimately show ?thesis
    using assms(1) unfolding stopInv_def assms(7-12)
    by (elim conjE, intro conjI) (simp_all add: assms(2-4))
qed

text \<open>The steps of the consumer, and of \<open>Stop\<close> up to the closing of the channel.\<close>

lemma stopInv_other:
  assumes "stopInv x" and "workers (run y) = workers (run x)" and "length (phases y) = length (timers (run y))" and "timerWg y = timersCounted (phases y)"
    and "stopping y = (stopAt y \<noteq> Serving)" and "chClosed y = (stopAt y \<notin> {Serving, AwaitTimers, ClosingWork})"
    and "stopAt y \<notin> {Serving, AwaitTimers} \<Longrightarrow> TimerSending \<notin> set (phases y)" and "recovered y = recovered x" and "exited y = exited x"
    and "exited x \<noteq> {} \<Longrightarrow> chClosed y \<and> workCh (run y) = []" and "\<And>i. i < length (workers (run x)) \<Longrightarrow> arming i y \<Longrightarrow> arming i x"
    and "stopAt y \<in> {StoppingConsumer, ClosingProducer, StopDone} \<Longrightarrow> {..<length (workers (run x))} \<subseteq> exited x"
    and "stopAt y \<in> {ClosingProducer, StopDone} \<Longrightarrow> pending (run y) = None"
  shows "stopInv y"
proof -
  have "\<forall>i \<in> exited x. workerAt x i Idle" "\<not> recovered x" using assms(1) by (simp_all add: stopInv_def)
  then have "\<forall>i \<in> exited x. workerAt y i Idle" using assms(2,11) by (metis workerAt_def)
  then show ?thesis unfolding stopInv_def assms(2,8,9) using \<open>\<not> recovered x\<close> assms(3-7,10,12,13) by blast
qed

lemma stopInvD:
  assumes "stopInv x"
  shows "length (phases x) = length (timers (run x))" "timerWg x = timersCounted (phases x)" "stopping x = (stopAt x \<noteq> Serving)"
    "chClosed x = (stopAt x \<notin> {Serving, AwaitTimers, ClosingWork})" "stopAt x \<notin> {Serving, AwaitTimers} \<Longrightarrow> TimerSending \<notin> set (phases x)"
    "\<not> recovered x" "exited x \<noteq> {} \<Longrightarrow> chClosed x \<and> workCh (run x) = []" "i \<in> exited x \<Longrightarrow> workerAt x i Idle"
    "stopAt x \<in> {StoppingConsumer, ClosingProducer, StopDone} \<Longrightarrow> {..<length (workers (run x))} \<subseteq> exited x"
    "stopAt x \<in> {ClosingProducer, StopDone} \<Longrightarrow> pending (run x) = None"
  using assms unfolding stopInv_def by blast+

lemma busy_not_exited: "stopInv x \<Longrightarrow> workerAt x i w \<Longrightarrow> w \<noteq> Idle \<Longrightarrow> i \<notin> exited x"
  using stopInvD(8) [of x i] by (auto simp: workerAt_def)

lemma stopInv_step:
  assumes "dstep sha cap x y" and "stopInv x"
  shows "stopInv y"
  using assms(1)
proof (cases rule: dstep.cases)
  case (dispatch m ms now f t)
  have [simp]: "workers t = workers (run x)" "timers t = timers (run x)" "workCh t = workCh (run x)" using dispatch(5) by simp_all
  show ?thesis
    using stopInvD [OF assms(2)] dispatch(2) by (intro stopInv_other [OF assms(2)]) (simp_all add: dispatch(1) consumerFree_def arming_def)
next
  case (park m ms now d)
  show ?thesis
    using stopInvD [OF assms(2)] park(2) by (intro stopInv_other [OF assms(2)]) (auto simp: park(1) consumerFree_def arming_def consumerId_def schedule_def)
next
  case (send m)
  then have "exited x = {}" using stopInvD(7) [OF assms(2)] by blast
  then show ?thesis
    using stopInvD [OF assms(2)] by (intro stopInv_other [OF assms(2)]) (simp_all add: send(1) arming_def)
next
  case (sendClosed m)
  show ?thesis using stopInvD [OF assms(2)] by (intro stopInv_other [OF assms(2)]) (simp_all add: sendClosed(1) arming_def)
next
  case (take i m c)
  then have "exited x = {}" using stopInvD(7) [OF assms(2)] by force
  then show ?thesis using take(2) by (intro stopInv_worker [OF assms(2) take(2,3), of _ "[]"]) (simp_all add: take(1) workerAt_def)
next
  case (exit i)
  show ?thesis
    using stopInvD [OF assms(2)] exit(2,4,5) unfolding stopInv_def exit(1) by (auto simp: workerAt_def arming_def)
next
  case (start i m)
  show ?thesis
    using stopInvD(7) [OF assms(2)]
    by (intro stopInv_worker [OF assms(2) start(2) busy_not_exited [OF assms(2) start(2)], of _ "[]"]) (simp_all add: start(1) workerAt_def)
next
  case (delete i m)
  show ?thesis
    using stopInvD(7) [OF assms(2)]
    by (intro stopInv_worker [OF assms(2) delete(2) busy_not_exited [OF assms(2) delete(2)], of _ "[]"]) (simp_all add: delete(1) workerAt_def)
next
  case (deliver i m rs e ds)
  show ?thesis
    using stopInvD(7) [OF assms(2)]
    by (intro stopInv_worker [OF assms(2) deliver(2) busy_not_exited [OF assms(2) deliver(2)], of _ rs]) (simp_all add: deliver(1) workerAt_def)
next
  case (lookup i m)
  show ?thesis
    using stopInvD(7) [OF assms(2)]
    by (intro stopInv_worker [OF assms(2) lookup(2) busy_not_exited [OF assms(2) lookup(2)], of _ "[]"]) (simp_all add: lookup(1) workerAt_def)
next
  case (finish i m w)
  show ?thesis
    using stopInvD(7) [OF assms(2)]
    by (intro stopInv_worker [OF assms(2) finish(2) busy_not_exited [OF assms(2) finish(2)], of _ "[]"])
      (simp_all add: finish(1) workerAt_def wgDone_def Let_def release_def)
next
  case (arm ps i qs)
  show ?thesis by (rule stopInv_timer [OF assms(2) arm(2), where p' = TimerParked]) (simp_all add: arm(1))
next
  case (expire ps qs)
  show ?thesis
    using stopInvD(3) [OF assms(2)] expire(3)
    by (intro stopInv_timer [OF assms(2) expire(2), where p' = TimerSending]) (simp_all add: expire(1))
next
  case (expireStopping ps qs)
  show ?thesis by (rule stopInv_timer [OF assms(2) expireStopping(2), where p' = RetryDropped]) (simp_all add: expireStopping(1))
next
  case (resend ps qs xs m ys)
  then have "exited x = {}" using stopInvD(7) [OF assms(2)] by blast
  then show ?thesis
    using stopInvD [OF assms(2)] resend(2,3) by (intro stopInv_other [OF assms(2)]) (auto simp: resend(1) arming_def)
next
  case (resendClosed ps qs)
  then show ?thesis using stopInvD(4,5) [OF assms(2)] by auto
next
  case stopTimers
  have "TimerSending \<notin> set (phases x)" using stopInvD(2) [OF assms(2)] stopTimers(3) timersCounted_zero by metis
  then show ?thesis
    using stopInvD [OF assms(2)] stopTimers(2) by (intro stopInv_other [OF assms(2)]) (simp_all add: stopTimers(1) arming_def)
qed (use stopInvD [OF assms(2)] in \<open>auto simp: stopInv_def workerAt_def arming_def\<close>)

section \<open>Stopping ends\<close>

lemma liveStep_reach:
  assumes "(liveStep sha cap)\<^sup>*\<^sup>* (startSys n msgs) x"
  shows "stopInv x \<and> reachable sha cap (initSys n msgs) (run x)"
  using assms
proof (induction rule: rtranclp_induct)
  case base
  show ?case using stopInv_start reach0 by (simp add: startSys_def)
next
  case (step x y)
  have d: "dstep sha cap x y" using step(2) by (simp add: liveStep_def)
  show ?case using stopInv_step [OF d] dstep_refines [OF d] step(3) reachS by metis
qed

text \<open>The work that is left once the flag is set: no step adds to it.\<close>

definition workerWork :: "wstate \<Rightarrow> nat" where
  "workerWork w = (case w of Idle \<Rightarrow> 0 | AtStart m \<Rightarrow> 14 | Waiting m g \<Rightarrow> 12 | Deleting m \<Rightarrow> 10 | Delivering m \<Rightarrow> 8 | Looking m \<Rightarrow> 4
     | Finishing m g \<Rightarrow> 2)"

definition retryWork :: "retryPhase \<Rightarrow> nat" where
  "retryWork p = (case p of TimerArming i \<Rightarrow> 20 | TimerParked \<Rightarrow> 19 | TimerSending \<Rightarrow> 17 | RetryDropped \<Rightarrow> 0)"

definition stopWork :: "stopPc \<Rightarrow> nat" where
  "stopWork p = (case p of Serving \<Rightarrow> 6 | AwaitTimers \<Rightarrow> 5 | ClosingWork \<Rightarrow> 4 | AwaitWorkers \<Rightarrow> 3 | StoppingConsumer \<Rightarrow> 2 | ClosingProducer \<Rightarrow> 1
     | StopDone \<Rightarrow> 0)"

definition leftToDo :: "stopSys \<Rightarrow> nat" where
  "leftToDo x = 20 * length (inbox (run x)) + 18 * length (optList (pending (run x))) + 16 * length (workCh (run x))
     + sum_list (map workerWork (workers (run x))) + sum_list (map retryWork (phases x)) + stopWork (stopAt x)
     + length (filter (\<lambda>i. i \<notin> exited x) [0..<length (workers (run x))]) + (if crashed x then 0 else 1)"

lemma workerWork_simps [simp]:
  "workerWork Idle = 0" "workerWork (AtStart m) = 14" "workerWork (Deleting m) = 10" "workerWork (Delivering m) = 8"
  "workerWork (Looking m) = 4" "workerWork (Finishing m g) = 2"
  by (simp_all add: workerWork_def)

lemma retryWork_simps [simp]:
  "retryWork (TimerArming i) = 20" "retryWork TimerParked = 19" "retryWork TimerSending = 17" "retryWork RetryDropped = 0"
  by (simp_all add: retryWork_def)

lemma workerWork_release: "workerWork (release g w) \<le> workerWork w"
  by (simp add: workerWork_def release_def split: wstate.split)

lemma workerWork_start: "workerWork (afterStart m s) < 14"
  by (simp add: workerWork_def afterStart_def gateWait_def split: option.split)

lemma workers_work:
  assumes "workerAt x i w" and "workerWork v < workerWork w"
  shows "sum_list (map workerWork ((workers (run x))[i := v])) < sum_list (map workerWork (workers (run x)))"
  using sum_list_map_update [of i "workers (run x)" workerWork v] assms by (simp add: workerAt_def)

lemma fewer_left:
  assumes "i < n" and "i \<notin> A"
  shows "length (filter (\<lambda>j. j \<noteq> i \<and> j \<notin> A) [0..<n]) < length (filter (\<lambda>j. j \<notin> A) [0..<n])"
proof -
  have "card {j. j < n \<and> j \<noteq> i \<and> j \<notin> A} < card {j. j < n \<and> j \<notin> A}" using assms by (intro psubset_card_mono) auto
  then show ?thesis by (simp add: distinct_length_filter Int_def conj_commute)
qed

lemma leftToDo_step:
  assumes "liveStep sha cap x y" and "stopping x"
  shows "leftToDo y < leftToDo x"
proof -
  have "dstep sha cap x y" "\<not> crashed x" using assms(1) by (simp_all add: liveStep_def)
  then show ?thesis
  proof (cases rule: dstep.cases)
    case (dispatch m ms now f t)
    then show ?thesis by (simp add: leftToDo_def consumerFree_def)
  next
    case (park m ms now d)
    then show ?thesis using assms(2) by (simp add: leftToDo_def)
  next
    case (take i m c)
    then show ?thesis
      using sum_list_map_update [of i "workers (run x)" workerWork "AtStart m"] by (simp add: leftToDo_def workerAt_def)
  next
    case (exit i)
    then show ?thesis using fewer_left [of i "length (workers (run x))" "exited x"] by (simp add: leftToDo_def workerAt_def)
  next
    case (start i m)
    then show ?thesis using workers_work [OF start(2)] workerWork_start [of m "run x"] by (simp add: leftToDo_def)
  next
    case (delete i m)
    then show ?thesis using workers_work [OF delete(2)] by (simp add: leftToDo_def)
  next
    case (deliver i m rs e ds)
    have "sum_list (map (\<lambda>_. retryWork (schedule i x)) rs) = 0" using assms(2) by (induction rs) simp_all
    then show ?thesis using deliver workers_work [OF deliver(2), of "if firstStump m then Looking m else Idle"] assms(2) by (simp add: leftToDo_def comp_def)
  next
    case (lookup i m)
    then show ?thesis
      using workers_work [OF lookup(2), of "case gates (run x) (gateKey m) of None \<Rightarrow> Idle | Some w \<Rightarrow> Finishing m w"]
      by (simp add: leftToDo_def split: option.splits)
  next
    case (finish i m w)
    have "sum_list (map (workerWork \<circ> release w) ws) \<le> sum_list (map workerWork ws)" for ws
      by (intro sum_list_mono) (simp add: workerWork_release)
    note le_less_trans [OF this workers_work [OF finish(2), of Idle]] workers_work [OF finish(2), of Idle]
    then show ?thesis using finish by (simp add: leftToDo_def wgDone_def Let_def)
  qed (auto simp: leftToDo_def stopWork_def assms(2))
qed

lemma worker_moves:
  assumes "workerAt x i w" and "\<not> panicked (run x)" and "\<nexists>y. dstep sha cap x y"
  shows "w = Idle \<or> (\<exists>m g. w = Waiting m g)"
proof (cases w)
  case (AtStart m)
  then show ?thesis using dstep.start assms by blast
next
  case (Deleting m)
  then show ?thesis using dstep.delete assms by blast
next
  case (Delivering m)
  then show ?thesis using dstep.deliver [OF _ refl] assms by blast
next
  case (Looking m)
  then show ?thesis using dstep.lookup assms by blast
next
  case (Finishing m g)
  then show ?thesis using dstep.finish assms by blast
qed simp_all

lemma stop_not_stuck:
  assumes "stopInv x" and "inv (run x)" and "lineOk (run x)" and "0 < length (workers (run x))" and "0 < cap" and "\<nexists>y. dstep sha cap x y"
  shows "stopAt x = StopDone"
proof -
  note stuck = assms(6) [simplified not_ex, THEN spec] and inv = stopInvD [OF assms(1)]
  have settled: "TimerArming i \<notin> set (phases x)" "TimerParked \<notin> set (phases x)" for i
    using stuck dstep.arm dstep.expire dstep.expireStopping split_list by metis+
  then have at: "workerAt x i w" if "i < length (workers (run x))" "workers (run x) ! i = w" for i w
    using that by (simp add: workerAt_def arming_def)
  have "\<not> panicked (run x)" using assms(2) by (simp add: inv_def)
  then have "w = Idle \<or> (\<exists>m g. w = Waiting m g)" if "w \<in> set (workers (run x))" for w
    using that [unfolded in_set_conv_nth] at worker_moves [OF _ _ assms(6)] by blast
  then have idle: "workerAt x i Idle" if "i < length (workers (run x))" for i
    using stuck_idle [OF assms(2,3)] at [OF that] nth_mem [OF that] by metis
  have ch: "workCh (run x) = []"
  proof (cases "workCh (run x)")
    case (Cons m c)
    then have "exited x = {}" using inv(7) by force
    then show ?thesis using dstep.take [OF idle [OF assms(4)] _ Cons] stuck by blast
  qed
  have "stopAt x \<noteq> AwaitTimers"
  proof
    assume a: "stopAt x = AwaitTimers"
    then have "timersCounted (phases x) \<noteq> 0" using dstep.stopTimers stuck inv(2) by metis
    then have "TimerSending \<in> set (phases x)" using settled(2) by (auto simp: timersCounted_def count_list_0_iff)
    then obtain ps qs where p: "phases x = ps @ TimerSending # qs" by (meson split_list)
    then have l: "length ps < length (timers (run x))" using inv(1) by (metis length_append length_Cons less_add_Suc1 add_Suc_right)
    have "length (take (length ps) (timers (run x))) = length ps" using l by simp
    then show False using dstep.resend [OF p id_take_nth_drop [OF l]] stuck a inv(4) ch assms(5) by auto
  qed
  moreover have "stopAt x \<noteq> AwaitWorkers"
  proof
    assume a: "stopAt x = AwaitWorkers"
    then have "{..<length (workers (run x))} \<subseteq> exited x" using dstep.exit [OF idle] stuck inv(4) ch by auto
    then show False using dstep.stopWorkers [OF a] stuck by blast
  qed
  moreover have "stopAt x \<noteq> StoppingConsumer"
  proof
    assume a: "stopAt x = StoppingConsumer"
    then have "chClosed x" using inv(4) by simp
    then have "pending (run x) = None" using dstep.sendClosed stuck by (cases "pending (run x)") blast+
    then show False using dstep.stopConsumer [OF a] stuck settled(1) by (auto simp: arming_def)
  qed
  ultimately show ?thesis using dstep.stopFlag dstep.stopClose dstep.stopProducer stuck by (cases "stopAt x") metis+
qed

text \<open>A message stays on its way until its delivery was attempted, or among the retries.\<close>

lemma kept_step:
  assumes "gstep sha cap s t"
  shows "located m s + count_list (timers s) m \<le> located m t + count_list (timers t) m"
  using assms
proof (cases rule: gstep.cases)
  case (take m' c i)
  then show ?thesis using wAt_update [OF take(3), of m "AtStart m'"] by (simp add: located_def line_def wAt_def)
next
  case (start i m')
  have "wAt m (afterStart m' s) = wAt m (AtStart m')" by (simp add: wAt_def afterStart_def gateWait_def split: option.split)
  then show ?thesis using wAt_update [OF start(2), of m "afterStart m' s"] start by (simp add: located_def line_def)
next
  case (delete i m')
  then show ?thesis using wAt_update [OF delete(2), of m "Delivering m'"] by (simp add: located_def line_def wAt_def)
next
  case (deliver i m' rs e ds)
  then show ?thesis
    using wAt_update [OF deliver(2), of m "if firstStump m' then Looking m' else Idle"] by (simp add: located_def line_def wAt_def split: if_splits)
next
  case (lookup i m')
  let ?x = "case gates s (gateKey m') of None \<Rightarrow> Idle | Some w \<Rightarrow> Finishing m' w"
  have "wAt m ?x = wAt m (Looking m')" by (simp add: wAt_def split: option.split)
  then show ?thesis using wAt_update [OF lookup(2), of m ?x] lookup by (simp add: located_def line_def)
next
  case (finish i m' w)
  have "wAt m Idle = wAt m (Finishing m' w)" by (simp add: wAt_def)
  then show ?thesis using wAt_update [OF finish(2), of m Idle] finish by (simp add: located_def line_def wgDone_def Let_def comp_def)
qed (auto simp: located_def line_def)

lemma kept:
  assumes "reachable sha cap (initSys n msgs) s"
  shows "count_list msgs m \<le> located m s + count_list (timers s) m"
  using assms
proof induction
  case reach0
  then show ?case by (simp add: located_def line_def initSys_def wAt_def)
next
  case (reachS s t)
  then show ?case using kept_step [of sha cap s t m] by simp
qed

text \<open>
  C12: Stopping the delivery service. Whatever its goroutines are doing when \<open>Stop\<close> is called, a retry timer never sends on the closed
  channel, and the order of STUMP and BLOCK_PROCESSED callbacks is kept, as every run is one of the gate. Once \<open>Stop\<close> has begun the run is
  finite and it ends only with \<open>Stop\<close> returning, or with the crash of the consumer. When \<open>Stop\<close> has returned, every message that
  was taken from the topic has been through its delivery attempt or was waiting for a retry.
\<close>

theorem delivery_stop:
  assumes "(liveStep sha cap)\<^sup>*\<^sup>* (startSys n msgs) x" and "ordered msgs" and "list_all wfMsg msgs" and "0 < n" and "0 < cap"
  shows "\<not> recovered x \<and> reachable sha cap (initSys n msgs) (run x)
     \<and> (stopping x \<longrightarrow> (\<forall>y. liveStep sha cap x y \<longrightarrow> leftToDo y < leftToDo x) \<and> ((\<nexists>y. liveStep sha cap x y) \<longrightarrow> crashed x \<or> stopAt x = StopDone))
     \<and> (stopAt x = StopDone \<longrightarrow> set (workers (run x)) = {Idle} \<and> workCh (run x) = [] \<and> pending (run x) = None
          \<and> set msgs \<subseteq> set (inbox (run x)) \<union> set (attempted (run x)) \<union> set (timers (run x)))"
proof -
  have r: "stopInv x" "reachable sha cap (initSys n msgs) (run x)" using liveStep_reach [OF assms(1)] by blast+
  have i: "inv (run x)" "lineOk (run x)" "length (workers (run x)) = n" using reachable_inv [OF r(2) assms(2,3)] by blast+
  note inv = stopInvD [OF r(1)]
  have "crashed x \<or> stopAt x = StopDone" if "\<nexists>y. liveStep sha cap x y"
    using stop_not_stuck [OF r(1) i(1,2) _ assms(5)] that i(3) assms(4) by (auto simp: liveStep_def)
  moreover have "set (workers (run x)) = {Idle} \<and> workCh (run x) = [] \<and> pending (run x) = None
      \<and> set msgs \<subseteq> set (inbox (run x)) \<union> set (attempted (run x)) \<union> set (timers (run x))" if d: "stopAt x = StopDone"
  proof -
    have at: "workers (run x) ! j = Idle" "j \<in> exited x" if "j < n" for j using inv(8) inv(9) d i(3) that by (auto simp: workerAt_def)
    have w: "set (workers (run x)) = {Idle}" using at(1) i(3) assms(4) by (force simp: set_conv_nth)
    have e: "workCh (run x) = []" "pending (run x) = None" using at(2) [OF assms(4)] inv(7,10) d by auto
    have "sum_list (map (wAt m) (workers (run x))) = 0" for m unfolding sum_list_eq_0_iff using w by (auto simp: wAt_def)
    then have l: "located m (run x) = count_list (inbox (run x)) m + count_list (attempted (run x)) m" for m by (simp add: located_def line_def e)
    have "count_list (inbox (run x)) m + count_list (attempted (run x)) m + count_list (timers (run x)) m \<noteq> 0" if "m \<in> set msgs" for m
      using kept [OF r(2), of m] that l [of m] by (metis count_list_0_iff le_zero_eq)
    then show ?thesis using w e by (auto simp: count_list_0_iff)
  qed
  ultimately show ?thesis using inv(6) r(2) leftToDo_step by blast
qed

definition bpAt :: "CallbackTopicMessage list \<Rightarrow> CallbackTopicMessage option \<Rightarrow> CallbackTopicMessage list \<Rightarrow> wstate
    \<Rightarrow> CallbackTopicMessage list \<Rightarrow> stopPc \<Rightarrow> nat set \<Rightarrow> stopSys" where
  "bpAt ib pd ch w att pc ex = \<lparr>run = (initSys 1 ib)\<lparr>pending := pd, workCh := ch, workers := [w], attempted := att\<rparr>, phases = [], timerWg = 0,
     stopping = (pc \<noteq> Serving), chClosed = (pc \<notin> {Serving, AwaitTimers, ClosingWork}), exited = ex, stopAt = pc, recovered = False, crashed = False\<rparr>"

lemma live_next: "(liveStep sha cap)\<^sup>*\<^sup>* s x \<Longrightarrow> dstep sha cap x y \<Longrightarrow> \<not> crashed x \<Longrightarrow> y = y' \<Longrightarrow> (liveStep sha cap)\<^sup>*\<^sup>* s y'"
  by (auto simp: liveStep_def intro: rtranclp.rtrancl_into_rtrancl)

lemmas bpAt_simps = bpAt_def initSys_def workerAt_def consumerFree_def arming_def run_key

text \<open>The service is stopped with a message in the channel: the worker delivers it and ends.\<close>

lemma bp_closing:
  assumes "pd = None \<and> ch = [bpMessage] \<or> pd = Some bpMessage \<and> ch = []"
  shows "(liveStep (\<lambda>_. 0) 1)\<^sup>*\<^sup>* (startSys 1 [bpMessage]) (bpAt [] pd ch Idle [] AwaitWorkers {})"
proof -
  let ?r = "(liveStep (\<lambda>_. 0) 1)\<^sup>*\<^sup>* (startSys 1 [bpMessage])"
  have h: "handleMessage 0 (Inr bpMessage) = Dispatched bpMessage False" by (simp add: handleMessage_def run_key)
  have "?r (bpAt [] (Some bpMessage) [] Idle [] Serving {})"
    by (rule live_next [OF rtranclp.rtrancl_refl dstep.dispatch [OF _ _ h]]) (auto simp: startSys_def bpAt_simps)
  moreover from this have "?r (bpAt [] None [bpMessage] Idle [] Serving {})"
    by (rule live_next [OF _ dstep.send [of _ bpMessage]]) (auto simp: bpAt_simps)
  ultimately have "?r (bpAt [] pd ch Idle [] Serving {})" using assms by auto
  then have "?r (bpAt [] pd ch Idle [] AwaitTimers {})" by (rule live_next [OF _ dstep.stopFlag]) (auto simp: bpAt_simps)
  then have "?r (bpAt [] pd ch Idle [] ClosingWork {})" by (rule live_next [OF _ dstep.stopTimers]) (auto simp: bpAt_simps)
  then show ?thesis by (rule live_next [OF _ dstep.stopClose]) (auto simp: bpAt_simps)
qed

lemma bp_stopped: "(liveStep (\<lambda>_. 0) 1)\<^sup>*\<^sup>* (startSys 1 [bpMessage]) (bpAt [] None [] Idle [bpMessage] StopDone {0})"
proof -
  let ?r = "(liveStep (\<lambda>_. 0) 1)\<^sup>*\<^sup>* (startSys 1 [bpMessage])"
  have "?r (bpAt [] None [bpMessage] Idle [] AwaitWorkers {})" by (rule bp_closing) simp
  then have "?r (bpAt [] None [] (AtStart bpMessage) [] AwaitWorkers {})"
    by (rule live_next [OF _ dstep.take [of _ 0 bpMessage "[]"]]) (auto simp: bpAt_simps)
  then have "?r (bpAt [] None [] (Delivering bpMessage) [] AwaitWorkers {})"
    by (rule live_next [OF _ dstep.start [of _ 0 bpMessage]]) (auto simp: bpAt_simps afterStart_def gateWait_def)
  then have "?r (bpAt [] None [] Idle [bpMessage] AwaitWorkers {})"
    by (rule live_next [OF _ dstep.deliver [OF _ upEnv_no_retry(2) [symmetric], of _ 0]]) (auto simp: bpAt_simps)
  then have "?r (bpAt [] None [] Idle [bpMessage] AwaitWorkers {0})"
    by (rule live_next [OF _ dstep.exit [of _ 0]]) (auto simp: bpAt_simps)
  then have "?r (bpAt [] None [] Idle [bpMessage] StoppingConsumer {0})"
    by (rule live_next [OF _ dstep.stopWorkers]) (auto simp: bpAt_simps)
  then have "?r (bpAt [] None [] Idle [bpMessage] ClosingProducer {0})"
    by (rule live_next [OF _ dstep.stopConsumer]) (auto simp: bpAt_simps)
  then show ?thesis by (rule live_next [OF _ dstep.stopProducer]) (auto simp: bpAt_simps)
qed

theorem delivery_stop_witness:
  "stopAt (bpAt [] None [] Idle [bpMessage] StopDone {0}) = StopDone
   \<and> set [bpMessage] \<subseteq> set (attempted (run (bpAt [] None [] Idle [bpMessage] StopDone {0})))
   \<and> workCh (run (bpAt [] None [] Idle [bpMessage] StopDone {0})) = []"
  using delivery_stop [OF bp_stopped, THEN conjunct2, THEN conjunct2, THEN conjunct2]
  by (simp add: bpAt_simps wfMsg_def)

text \<open>
  The consumer is not protected: \<open>Stop\<close> closes the channel before it stops the consumer, and a message that is being handed over
  at that moment is sent on the closed channel.
\<close>

lemma stop_can_crash:
  "\<exists>x. (liveStep (\<lambda>_. 0) 1)\<^sup>*\<^sup>* (startSys 1 [bpMessage]) x \<and> crashed x \<and> attempted (run x) = []"
proof (intro exI conjI)
  let ?x = "bpAt [] (Some bpMessage) [] Idle [] AwaitWorkers {}"
  have "(liveStep (\<lambda>_. 0) 1)\<^sup>*\<^sup>* (startSys 1 [bpMessage]) ?x" by (rule bp_closing) simp
  moreover have "dstep (\<lambda>_. 0) 1 ?x (?x\<lparr>crashed := True\<rparr>)" by (rule dstep.sendClosed) (auto simp: bpAt_simps)
  ultimately show "(liveStep (\<lambda>_. 0) 1)\<^sup>*\<^sup>* (startSys 1 [bpMessage]) (?x\<lparr>crashed := True\<rparr>)"
    by (rule live_next) (auto simp: bpAt_simps)
qed (simp_all add: bpAt_simps)

text \<open>
  \<open>Stop\<close> does not wait for a retry that is being scheduled: the timer may be counted after \<open>retryTimerWg.Wait\<close> has returned.
\<close>

lemma timer_after_wait:
  "\<exists>x. (liveStep sha cap)\<^sup>*\<^sup>* (startSys 1 [bpMessage\<lparr>RetryCount := 1, NextRetryAt := Some 1\<rparr>]) x \<and> stopAt x = ClosingWork \<and> timerWg x = 1"
proof (intro exI conjI)
  let ?m = "bpMessage\<lparr>RetryCount := 1, NextRetryAt := Some 1\<rparr>"
  let ?x = "\<lambda>ph w st pc. \<lparr>run = (initSys 1 [])\<lparr>timers := [?m]\<rparr>, phases = [ph], timerWg = w, stopping = st, chClosed = False, exited = {},
    stopAt = pc, recovered = False, crashed = False\<rparr>"
  let ?r = "(liveStep sha cap)\<^sup>*\<^sup>* (startSys 1 [?m])"
  have h: "handleMessage 0 (Inr ?m) = ParkedFor ?m 1" by (simp add: handleMessage_def)
  have "?r (?x (TimerArming 1) 0 False Serving)"
    by (rule live_next [OF rtranclp.rtrancl_refl dstep.park [OF _ _ h]]) (auto simp: startSys_def bpAt_simps schedule_def consumerId_def)
  then have "?r (?x (TimerArming 1) 0 True AwaitTimers)" by (rule live_next [OF _ dstep.stopFlag]) auto
  then have "?r (?x (TimerArming 1) 0 True ClosingWork)" by (rule live_next [OF _ dstep.stopTimers]) auto
  then show "?r (?x TimerParked 1 True ClosingWork)" by (rule live_next [OF _ dstep.arm [of _ "[]" 1 "[]"]]) auto
qed simp_all

end
