(* ===== verification/Deployment.thy ===== *)
theory Deployment
  imports Store_Factory Registration_Cache Dedup_Cache Datahub P2p Delivery_Stop
begin

text \<open>
  How the program is put together and taken down: the constructors and \<open>Init\<close>, \<open>Start\<close> and \<open>Stop\<close> of the services (internal/subtree,
  internal/block, internal/callback, internal/p2p, internal/api), the Kafka producers and consumer groups they open (internal/kafka), and
  the main functions under cmd, of which one runs all services in a process and six run one each.

  What is opened, started, stopped and closed is written to a log. The answers of Kafka, of the P2P library and of the HTTP server are
  arguments.
\<close>

section \<open>Kafka clients\<close>

datatype kafkaRes = ProducerOf string | GroupOf string "string list"

datatype runEvent =
    KafkaOpened kafkaRes
  | KafkaClosed kafkaRes
  | StoreEvent resEvent
  | SvcStarted string
  | SvcStopped string

record kafkaEnv =
  ke_producer :: "string list \<Rightarrow> string \<Rightarrow> string option"
  ke_group :: "string list \<Rightarrow> string \<Rightarrow> string option"
  ke_close :: "kafkaRes \<Rightarrow> string option"

datatype kafkaErr = ECreateProducer string string | ECreateGroup string string

definition NewProducer :: "kafkaEnv \<Rightarrow> string list \<Rightarrow> string \<Rightarrow> runEvent list \<Rightarrow> (kafkaErr + kafkaRes) \<times> runEvent list" where
  "NewProducer E brokers topic log = (case ke_producer E brokers topic of
      Some err \<Rightarrow> (Inl (ECreateProducer topic err), log)
    | None \<Rightarrow> (Inr (ProducerOf topic), log @ [KafkaOpened (ProducerOf topic)]))"

definition NewConsumer :: "kafkaEnv \<Rightarrow> string list \<Rightarrow> string \<Rightarrow> string list \<Rightarrow> runEvent list \<Rightarrow> (kafkaErr + kafkaRes) \<times> runEvent list" where
  "NewConsumer E brokers groupID topics log = (case ke_group E brokers groupID of
      Some err \<Rightarrow> (Inl (ECreateGroup groupID err), log)
    | None \<Rightarrow> (Inr (GroupOf groupID topics), log @ [KafkaOpened (GroupOf groupID topics)]))"

text \<open>\<open>Close\<close> of a producer and \<open>Stop\<close> of a consumer, as closers of a service.\<close>

definition closer :: "kafkaEnv \<Rightarrow> kafkaRes option \<Rightarrow> (runEvent list \<Rightarrow> string option \<times> runEvent list) option" where
  "closer E r = map_option (\<lambda>r log. (ke_close E r, log @ [KafkaClosed r])) r"

text \<open>A client that is opened in \<open>Init\<close>: its error is returned with the service as it is, else \<open>Init\<close> goes on.\<close>

definition opened :: "(kafkaErr + kafkaRes) \<times> runEvent list \<Rightarrow> 'p
    \<Rightarrow> (kafkaRes \<Rightarrow> runEvent list \<Rightarrow> kafkaErr option \<times> 'p \<times> runEvent list) \<Rightarrow> kafkaErr option \<times> 'p \<times> runEvent list" where
  "opened r p k = (case r of (Inl err, log) \<Rightarrow> (Some err, p, log) | (Inr res, log) \<Rightarrow> k res log)"

section \<open>The services\<close>

definition newBase :: BaseService where
  "newBase = \<lparr>bs_Name = [], bs_Logger = None, bs_ctx = None, bs_started = False\<rparr>"

text \<open>The base of a service whose constructor initialises it and puts in the logger it is given.\<close>

definition baseWith :: "string \<Rightarrow> string option \<Rightarrow> BaseService" where
  "baseWith name logger = (let b = InitBase name newBase in if logger \<noteq> None then b\<lparr>bs_Logger := logger\<rparr> else b)"

record fetcherService =
  fs_base :: BaseService
  fs_dataHub :: "Client option"
  fs_dedup :: "DedupCache option"
  fs_regCache :: "RegistrationCache option"
  fs_callback :: "kafkaRes option"
  fs_retry :: "kafkaRes option"
  fs_dlq :: "kafkaRes option"
  fs_consumer :: "kafkaRes option"

definition newFetcher :: fetcherService where
  "newFetcher = \<lparr>fs_base = newBase, fs_dataHub = None, fs_dedup = None, fs_regCache = None, fs_callback = None, fs_retry = None,
     fs_dlq = None, fs_consumer = None\<rparr>"

text \<open>The service before its Kafka clients; \<open>ok\<close> says which memory mappings of the cache succeed. Without a cache it goes on.\<close>

definition fetcherCaches :: "(nat \<Rightarrow> bool) \<Rightarrow> Config \<Rightarrow> fetcherService \<Rightarrow> fetcherService go" where
  "fetcherCaches ok cfg p =
     (let p = p\<lparr>fs_base := InitBase ''subtree-fetcher'' (fs_base p),
            fs_dataHub := Some (NewClient (DataHub_TimeoutSec (Cfg_DataHub cfg)) (DataHub_MaxRetries (Cfg_DataHub cfg)))\<rparr>;
          p = (if 0 < Subtree_DedupCacheSize (Cfg_Subtree cfg)
               then p\<lparr>fs_dedup := Some (NewDedupCache (Subtree_DedupCacheSize (Cfg_Subtree cfg)))\<rparr> else p)
      in go_bind (NewRegistrationCache ok (Subtree_CacheMaxMB (Cfg_Subtree cfg)))
           (\<lambda>r. Inr (case r of Inl err \<Rightarrow> p | Inr regCache \<Rightarrow> p\<lparr>fs_regCache := Some regCache\<rparr>)))"

definition fetcherClients :: "kafkaEnv \<Rightarrow> Config \<Rightarrow> fetcherService \<Rightarrow> runEvent list \<Rightarrow> kafkaErr option \<times> fetcherService \<times> runEvent list" where
  "fetcherClients E cfg p log =
     (let k = Cfg_Kafka cfg; brokers = Kafka_Brokers k
      in opened (NewProducer E brokers (Kafka_CallbackTopic k) log) p (\<lambda>r log.
         let p = p\<lparr>fs_callback := Some r\<rparr>
         in opened (NewProducer E brokers (Kafka_SubtreeTopic k) log) p (\<lambda>r log.
            let p = p\<lparr>fs_retry := Some r\<rparr>
            in opened (NewProducer E brokers (Kafka_SubtreeDLQTopic k) log) p (\<lambda>r log.
               let p = p\<lparr>fs_dlq := Some r\<rparr>
               in opened (NewConsumer E brokers (Kafka_ConsumerGroup k @ ''-subtree'') [Kafka_SubtreeTopic k] log) p (\<lambda>r log.
                  (None, p\<lparr>fs_consumer := Some r\<rparr>, log))))))"

definition fetcherInit ::
    "kafkaEnv \<Rightarrow> (nat \<Rightarrow> bool) \<Rightarrow> Config \<Rightarrow> fetcherService \<Rightarrow> runEvent list \<Rightarrow> (kafkaErr option \<times> fetcherService \<times> runEvent list) go" where
  "fetcherInit E ok cfg p log = go_bind (fetcherCaches ok cfg p) (\<lambda>p. Inr (fetcherClients E cfg p log))"

definition fetcherStop :: "kafkaEnv \<Rightarrow> fetcherService \<Rightarrow> runEvent list \<Rightarrow> string option \<times> fetcherService \<times> runEvent list" where
  "fetcherStop E p log =
     (let (err, b, log) = stopThenCancel [closer E (fs_consumer p), closer E (fs_callback p), closer E (fs_retry p), closer E (fs_dlq p)] (fs_base p) log
      in (err, p\<lparr>fs_base := b\<rparr>, log))"

record blockService =
  pb_base :: BaseService
  pb_dataHub :: "Client option"
  pb_dedup :: "DedupCache option"
  pb_work :: "kafkaRes option"
  pb_consumer :: "kafkaRes option"

definition newBlockProcessor :: "string option \<Rightarrow> blockService" where
  "newBlockProcessor logger = \<lparr>pb_base = baseWith ''block-processor'' logger, pb_dataHub = None, pb_dedup = None, pb_work = None, pb_consumer = None\<rparr>"

definition blockInit :: "kafkaEnv \<Rightarrow> Config \<Rightarrow> blockService \<Rightarrow> runEvent list \<Rightarrow> kafkaErr option \<times> blockService \<times> runEvent list" where
  "blockInit E cfg p log =
     (let k = Cfg_Kafka cfg; n = Block_DedupCacheSize (Cfg_Block cfg);
          p = p\<lparr>pb_dataHub := Some (NewClient (DataHub_TimeoutSec (Cfg_DataHub cfg)) (DataHub_MaxRetries (Cfg_DataHub cfg)))\<rparr>;
          p = (if 0 < n then p\<lparr>pb_dedup := Some (NewDedupCache n)\<rparr> else p)
      in opened (NewProducer E (Kafka_Brokers k) (Kafka_SubtreeWorkTopic k) log) p (\<lambda>r log.
         let p = p\<lparr>pb_work := Some r\<rparr>
         in opened (NewConsumer E (Kafka_Brokers k) (Kafka_ConsumerGroup k @ ''-block'') [Kafka_BlockTopic k] log) p (\<lambda>r log.
            (None, p\<lparr>pb_consumer := Some r\<rparr>, log))))"

definition blockServiceStop :: "kafkaEnv \<Rightarrow> blockService \<Rightarrow> runEvent list \<Rightarrow> (string option \<times> blockService \<times> runEvent list) go" where
  "blockServiceStop E p log = go_bind (blockStop (closer E (pb_consumer p)) (closer E (pb_work p)) (pb_base p) log)
     (\<lambda>(err, b, log). Inr (err, p\<lparr>pb_base := b\<rparr>, log))"

record workerService =
  ws_base :: BaseService
  ws_dataHub :: "Client option"
  ws_callback :: "kafkaRes option"
  ws_consumer :: "kafkaRes option"

definition newSubtreeWorker :: "string option \<Rightarrow> workerService" where
  "newSubtreeWorker logger = \<lparr>ws_base = baseWith ''subtree-worker'' logger, ws_dataHub = None, ws_callback = None, ws_consumer = None\<rparr>"

definition workerInit :: "kafkaEnv \<Rightarrow> Config \<Rightarrow> workerService \<Rightarrow> runEvent list \<Rightarrow> kafkaErr option \<times> workerService \<times> runEvent list" where
  "workerInit E cfg s log =
     (let k = Cfg_Kafka cfg;
          s = s\<lparr>ws_dataHub := Some (NewClient (DataHub_TimeoutSec (Cfg_DataHub cfg)) (DataHub_MaxRetries (Cfg_DataHub cfg)))\<rparr>
      in opened (NewProducer E (Kafka_Brokers k) (Kafka_CallbackTopic k) log) s (\<lambda>r log.
         let s = s\<lparr>ws_callback := Some r\<rparr>
         in opened (NewConsumer E (Kafka_Brokers k) (Kafka_ConsumerGroup k @ ''-subtree-worker'') [Kafka_SubtreeWorkTopic k] log) s (\<lambda>r log.
            (None, s\<lparr>ws_consumer := Some r\<rparr>, log))))"

definition workerServiceStop :: "kafkaEnv \<Rightarrow> workerService \<Rightarrow> runEvent list \<Rightarrow> string option \<times> workerService \<times> runEvent list" where
  "workerServiceStop E s log =
     (let (err, b, log) = workerStop [closer E (ws_consumer s), closer E (ws_callback s)] (ws_base s) log in (err, s\<lparr>ws_base := b\<rparr>, log))"

text \<open>The delivery service, with what it does in \<open>Init\<close> for its HTTP client and its pool of workers.\<close>

definition deliveryConfig :: "Config \<Rightarrow> Delivery.CallbackConfig" where
  "deliveryConfig cfg = (let c = Cfg_Callback cfg in
     \<lparr>MaxRetries = Callback_MaxRetries c, BackoffBaseSec = Callback_BackoffBaseSec c, DedupTTLSec = Callback_DedupTTLSec c,
      DeliveryWorkers = Callback_DeliveryWorkers c, MaxConnsPerHost = Callback_MaxConnsPerHost c, MaxIdleConnsPerHost = Callback_MaxIdleConnsPerHost c\<rparr>)"

record httpTransport =
  ht_MaxIdleConns :: int
  ht_MaxIdleConnsPerHost :: int
  ht_MaxConnsPerHost :: int
  ht_timeoutSec :: int

record deliveryRun =
  dr_base :: BaseService
  dr_http :: "httpTransport option"
  dr_dlq :: "kafkaRes option"
  dr_consumer :: "kafkaRes option"
  dr_workChCap :: "nat option"
  dr_workers :: nat

definition newDelivery :: deliveryRun where
  "newDelivery = \<lparr>dr_base = newBase, dr_http = None, dr_dlq = None, dr_consumer = None, dr_workChCap = None, dr_workers = 0\<rparr>"

definition deliveryInit :: "kafkaEnv \<Rightarrow> Config \<Rightarrow> deliveryRun \<Rightarrow> runEvent list \<Rightarrow> kafkaErr option \<times> deliveryRun \<times> runEvent list" where
  "deliveryInit E cfg d log =
     (let k = Cfg_Kafka cfg; c = deliveryConfig cfg;
          d = d\<lparr>dr_base := InitBase ''callback-delivery'' (dr_base d),
                dr_http := Some \<lparr>ht_MaxIdleConns = maxConnsPerHost c * 10, ht_MaxIdleConnsPerHost = maxIdleConnsPerHost c,
                  ht_MaxConnsPerHost = maxConnsPerHost c, ht_timeoutSec = Callback_TimeoutSec (Cfg_Callback cfg)\<rparr>\<rparr>
      in opened (NewProducer E (Kafka_Brokers k) (Kafka_CallbackDLQTopic k) log) d (\<lambda>r log.
         let d = d\<lparr>dr_dlq := Some r\<rparr>
         in opened (NewConsumer E (Kafka_Brokers k) (Kafka_ConsumerGroup k @ ''-callback'') [Kafka_CallbackTopic k] log) d (\<lambda>r log.
            (None, d\<lparr>dr_consumer := Some r, dr_workChCap := Some (workerCount c * 2)\<rparr>, log))))"

definition deliveryStart :: "Config \<Rightarrow> deliveryRun \<Rightarrow> deliveryRun" where
  "deliveryStart cfg d = d\<lparr>dr_workers := workerCount (deliveryConfig cfg), dr_base := snd (startAfter (None :: unit option) (dr_base d))\<rparr>"

text \<open>What \<open>Stop\<close> does once the timers and workers are done; how it gets there is in the theory of its step relation.\<close>

definition deliveryStop :: "kafkaEnv \<Rightarrow> deliveryRun \<Rightarrow> runEvent list \<Rightarrow> string option \<times> deliveryRun \<times> runEvent list" where
  "deliveryStop E d log =
     (let (err, b, log) = stopThenCancel [closer E (dr_consumer d), closer E (dr_dlq d)] (dr_base d) log in (err, d\<lparr>dr_base := b, dr_workers := 0\<rparr>, log))"

definition newP2p :: "Config \<Rightarrow> kafkaRes option \<Rightarrow> kafkaRes option \<Rightarrow> string option \<Rightarrow> p2pClient" where
  "newP2p cfg subtreeProducer blockProducer logger = \<lparr>pc_base = baseWith ''p2p-client'' logger, pc_network = P2P_Network (Cfg_P2P cfg),
     pc_hasSubtreeProducer = (subtreeProducer \<noteq> None), pc_hasBlockProducer = (blockProducer \<noteq> None), pc_peers = None, pc_connected = False\<rparr>"

section \<open>The life cycle of a service\<close>

text \<open>The services behind the interface \<open>Service\<close>; the HTTP service takes part with its base only.\<close>

datatype svc =
    SvcApi BaseService
  | SvcP2p p2pClient
  | SvcFetcher fetcherService
  | SvcBlock blockService
  | SvcWorker workerService
  | SvcDelivery deliveryRun

datatype svcErr = EKafka kafkaErr | EP2p p2pErr

record mainEnv =
  me_kafka :: kafkaEnv
  me_mmap :: "nat \<Rightarrow> bool"
  me_initialize :: "string \<Rightarrow> string + nat"
  me_shutdown :: "string option"
  me_wake :: "wake option"

definition svcName :: "svc \<Rightarrow> string" where
  "svcName s = (case s of SvcApi b \<Rightarrow> ''api-server'' | SvcP2p c \<Rightarrow> ''p2p-client'' | SvcFetcher p \<Rightarrow> ''subtree-fetcher''
     | SvcBlock p \<Rightarrow> ''block-processor'' | SvcWorker p \<Rightarrow> ''subtree-worker'' | SvcDelivery d \<Rightarrow> ''callback-delivery'')"

definition svcInit :: "mainEnv \<Rightarrow> Config \<Rightarrow> svc \<Rightarrow> runEvent list \<Rightarrow> (svcErr option \<times> svc \<times> runEvent list) go" where
  "svcInit E cfg s log = (case s of
      SvcApi b \<Rightarrow> Inr (None, s, log)
    | SvcP2p c \<Rightarrow> Inr (map_option EP2p (p2pInit c), s, log)
    | SvcFetcher p \<Rightarrow> go_bind (fetcherInit (me_kafka E) (me_mmap E) cfg p log) (\<lambda>(err, p, log). Inr (map_option EKafka err, SvcFetcher p, log))
    | SvcBlock p \<Rightarrow> (let (err, p, log) = blockInit (me_kafka E) cfg p log in Inr (map_option EKafka err, SvcBlock p, log))
    | SvcWorker p \<Rightarrow> (let (err, p, log) = workerInit (me_kafka E) cfg p log in Inr (map_option EKafka err, SvcWorker p, log))
    | SvcDelivery d \<Rightarrow> (let (err, d, log) = deliveryInit (me_kafka E) cfg d log in Inr (map_option EKafka err, SvcDelivery d, log)))"

text \<open>\<open>Start\<close> of a consumer returns no error when it returns.\<close>

definition svcStart :: "mainEnv \<Rightarrow> Config \<Rightarrow> svc \<Rightarrow> svcErr option \<times> svc" where
  "svcStart E cfg s = (case s of
      SvcApi b \<Rightarrow> (None, SvcApi (SetStarted True b))
    | SvcP2p c \<Rightarrow> (let (err, c) = p2pStart (me_initialize E) c in (map_option EP2p err, SvcP2p c))
    | SvcFetcher p \<Rightarrow> (let (err, b) = startAfter None (fs_base p) in (err, SvcFetcher (p\<lparr>fs_base := b\<rparr>)))
    | SvcBlock p \<Rightarrow> (let (err, b) = startBefore None (pb_base p) in (err, SvcBlock (p\<lparr>pb_base := b\<rparr>)))
    | SvcWorker p \<Rightarrow> (let (err, b) = startBefore None (ws_base p) in (err, SvcWorker (p\<lparr>ws_base := b\<rparr>)))
    | SvcDelivery d \<Rightarrow> (None, SvcDelivery (deliveryStart cfg d)))"

definition svcStop :: "mainEnv \<Rightarrow> svc \<Rightarrow> runEvent list \<Rightarrow> (string option \<times> svc \<times> runEvent list) go" where
  "svcStop E s log = (case s of
      SvcApi b \<Rightarrow> Inr (me_shutdown E, SvcApi (SetStarted False b), log)
    | SvcP2p c \<Rightarrow> Inr (None, SvcP2p (p2pStop c), log)
    | SvcFetcher p \<Rightarrow> (let (err, p, log) = fetcherStop (me_kafka E) p log in Inr (err, SvcFetcher p, log))
    | SvcBlock p \<Rightarrow> go_bind (blockServiceStop (me_kafka E) p log) (\<lambda>(err, p, log). Inr (err, SvcBlock p, log))
    | SvcWorker p \<Rightarrow> (let (err, p, log) = workerServiceStop (me_kafka E) p log in Inr (err, SvcWorker p, log))
    | SvcDelivery d \<Rightarrow> (let (err, d, log) = deliveryStop (me_kafka E) d log in Inr (err, SvcDelivery d, log)))"

section \<open>The main functions\<close>

text \<open>
  An error ends a main function with \<open>log.Fatal\<close>, which does not run what was deferred. \<open>MServing\<close> is the wait for a signal that does
  not come.
\<close>

datatype mainErr = MLoad loadErr | MStores factoryErr | MProducer kafkaErr | MInit string svcErr | MStart string svcErr

datatype mainOut = MFatal mainErr | MServing | MReturned

fun initAll :: "mainEnv \<Rightarrow> Config \<Rightarrow> svc list \<Rightarrow> runEvent list \<Rightarrow> ((string \<times> svcErr) option \<times> svc list \<times> runEvent list) go" where
  "initAll E cfg [] log = Inr (None, [], log)"
| "initAll E cfg (s # ss) log = go_bind (svcInit E cfg s log) (\<lambda>(err, s, log). case err of
      Some e \<Rightarrow> Inr (Some (svcName s, e), s # ss, log)
    | None \<Rightarrow> go_bind (initAll E cfg ss log) (\<lambda>(err, ss, log). Inr (err, s # ss, log)))"

fun startAll :: "mainEnv \<Rightarrow> Config \<Rightarrow> svc list \<Rightarrow> runEvent list \<Rightarrow> (string \<times> svcErr) option \<times> svc list \<times> runEvent list" where
  "startAll E cfg [] log = (None, [], log)"
| "startAll E cfg (s # ss) log = (case svcStart E cfg s of
      (Some e, s) \<Rightarrow> (Some (svcName s, e), s # ss, log)
    | (None, s) \<Rightarrow> (let (err, ss, log) = startAll E cfg ss (log @ [SvcStarted (svcName s)]) in (err, s # ss, log)))"

text \<open>The services in the order in which they are stopped; an error is logged and the next one is stopped.\<close>

fun stopAll :: "mainEnv \<Rightarrow> svc list \<Rightarrow> runEvent list \<Rightarrow> runEvent list go" where
  "stopAll E [] log = Inr log"
| "stopAll E (s # ss) log = go_bind (svcStop E s log) (\<lambda>(err, s, log). stopAll E ss (log @ [SvcStopped (svcName s)]))"

definition runServices :: "mainEnv \<Rightarrow> Config \<Rightarrow> string \<Rightarrow> svc list \<Rightarrow> runEvent list \<Rightarrow> (mainOut \<times> runEvent list) go" where
  "runServices E cfg name svcs log = go_bind (initAll E cfg svcs log) (\<lambda>(err, svcs, log). case err of
      Some (n, e) \<Rightarrow> Inr (MFatal (MInit n e), log)
    | None \<Rightarrow> (case startAll E cfg svcs log of
        (Some (n, e), svcs, log) \<Rightarrow> Inr (MFatal (MStart n e), log)
      | (None, svcs, log) \<Rightarrow> (case WaitForShutdown (me_wake E) (InitBase name newBase) of
          None \<Rightarrow> Inr (MServing, log)
        | Some base \<Rightarrow> go_bind (stopAll E (rev svcs) log) (\<lambda>log. Inr (MReturned, log)))))"

record ('v, 'c) bootEnv =
  be_viper :: "'v viper"
  be_decoders :: decoders
  be_order :: "nat \<Rightarrow> (string \<times> string) list \<Rightarrow> (string \<times> string) list"
  be_vars :: "string \<Rightarrow> string option"
  be_factory :: "'c factoryEnv"
  be_main :: mainEnv

definition bootLoad :: "('v, 'c) bootEnv \<Rightarrow> loadErr + Config" where
  "bootLoad B = Load (be_viper B) (be_decoders B) (be_order B) (be_vars B)"

definition bootStores :: "('v, 'c) bootEnv \<Rightarrow> Config \<Rightarrow> (factoryErr + 'c storeRegistry) \<times> resEvent list" where
  "bootStores B cfg = NewFromConfig (Some (sqlNew (be_factory B))) (be_factory B) cfg []"

text \<open>The logger of the main functions has no name; \<open>registry.Close\<close> is deferred.\<close>

definition mainLogger :: "string option" where
  "mainLogger = Some []"

definition closeStores :: "'c storeRegistry \<Rightarrow> resEvent list \<Rightarrow> runEvent list \<Rightarrow> runEvent list" where
  "closeStores r es log = log @ map StoreEvent (drop (length es) (snd (snd (RegistryClose r es))))"

text \<open>The main functions of a single service on the stores have one shape.\<close>

definition storeMain :: "('v, 'c) bootEnv \<Rightarrow> svc \<Rightarrow> (mainOut \<times> runEvent list) go" where
  "storeMain B s = (case bootLoad B of
      Inl e \<Rightarrow> Inr (MFatal (MLoad e), [])
    | Inr cfg \<Rightarrow> (case bootStores B cfg of
        (Inl e, es) \<Rightarrow> Inr (MFatal (MStores e), map StoreEvent es)
      | (Inr r, es) \<Rightarrow> go_bind (runServices (be_main B) cfg (svcName s) [s] (map StoreEvent es))
          (\<lambda>(out, log). Inr (out, if out = MReturned then closeStores r es log else log))))"

definition apiMain :: "('v, 'c) bootEnv \<Rightarrow> (mainOut \<times> runEvent list) go" where
  "apiMain B = storeMain B (SvcApi (baseWith ''api-server'' mainLogger))"

definition fetcherMain :: "('v, 'c) bootEnv \<Rightarrow> (mainOut \<times> runEvent list) go" where
  "fetcherMain B = storeMain B (SvcFetcher newFetcher)"

definition blockMain :: "('v, 'c) bootEnv \<Rightarrow> (mainOut \<times> runEvent list) go" where
  "blockMain B = storeMain B (SvcBlock (newBlockProcessor mainLogger))"

definition workerMain :: "('v, 'c) bootEnv \<Rightarrow> (mainOut \<times> runEvent list) go" where
  "workerMain B = storeMain B (SvcWorker (newSubtreeWorker mainLogger))"

definition deliveryMain :: "('v, 'c) bootEnv \<Rightarrow> (mainOut \<times> runEvent list) go" where
  "deliveryMain B = storeMain B (SvcDelivery newDelivery)"

text \<open>The producers for the announcements are opened by the main functions that run the P2P client, and closed after it.\<close>

definition feedMain ::
    "mainEnv \<Rightarrow> Config \<Rightarrow> (kafkaRes \<Rightarrow> kafkaRes \<Rightarrow> runEvent list \<Rightarrow> (mainOut \<times> runEvent list) go) \<Rightarrow> runEvent list \<Rightarrow> (mainOut \<times> runEvent list) go" where
  "feedMain E cfg k log =
     (let kc = Cfg_Kafka cfg
      in case NewProducer (me_kafka E) (Kafka_Brokers kc) (Kafka_SubtreeTopic kc) log of
           (Inl e, log) \<Rightarrow> Inr (MFatal (MProducer e), log)
         | (Inr subtreeProducer, log) \<Rightarrow> (case NewProducer (me_kafka E) (Kafka_Brokers kc) (Kafka_BlockTopic kc) log of
             (Inl e, log) \<Rightarrow> Inr (MFatal (MProducer e), log)
           | (Inr blockProducer, log) \<Rightarrow> go_bind (k subtreeProducer blockProducer log)
               (\<lambda>(out, log). Inr (out, if out = MReturned then log @ [KafkaClosed blockProducer, KafkaClosed subtreeProducer] else log))))"

definition p2pMain :: "('v, 'c) bootEnv \<Rightarrow> (mainOut \<times> runEvent list) go" where
  "p2pMain B = (case bootLoad B of
      Inl e \<Rightarrow> Inr (MFatal (MLoad e), [])
    | Inr cfg \<Rightarrow> feedMain (be_main B) cfg (\<lambda>sp bp. runServices (be_main B) cfg ''p2p-client'' [SvcP2p (newP2p cfg (Some sp) (Some bp) mainLogger)]) [])"

definition allServices :: "Config \<Rightarrow> kafkaRes \<Rightarrow> kafkaRes \<Rightarrow> svc list" where
  "allServices cfg sp bp = [SvcApi (baseWith ''api-server'' mainLogger), SvcP2p (newP2p cfg (Some sp) (Some bp) mainLogger), SvcFetcher newFetcher,
     SvcBlock (newBlockProcessor mainLogger), SvcWorker (newSubtreeWorker mainLogger), SvcDelivery newDelivery]"

definition merkleMain :: "('v, 'c) bootEnv \<Rightarrow> (mainOut \<times> runEvent list) go" where
  "merkleMain B = (case bootLoad B of
      Inl e \<Rightarrow> Inr (MFatal (MLoad e), [])
    | Inr cfg \<Rightarrow> (case bootStores B cfg of
        (Inl e, es) \<Rightarrow> Inr (MFatal (MStores e), map StoreEvent es)
      | (Inr r, es) \<Rightarrow> go_bind (feedMain (be_main B) cfg (\<lambda>sp bp. runServices (be_main B) cfg ''merkle-service'' (allServices cfg sp bp)) (map StoreEvent es))
          (\<lambda>(out, log). Inr (out, if out = MReturned then closeStores r es log else log))))"

section \<open>What is open while the services run\<close>

text \<open>The Kafka clients a service opens in \<open>Init\<close>, in order, and those it has, in the order in which \<open>Stop\<close> closes them.\<close>

definition svcOpens :: "Config \<Rightarrow> svc \<Rightarrow> kafkaRes list" where
  "svcOpens cfg s = (let k = Cfg_Kafka cfg; g = Kafka_ConsumerGroup k in case s of
      SvcFetcher p \<Rightarrow> [ProducerOf (Kafka_CallbackTopic k), ProducerOf (Kafka_SubtreeTopic k), ProducerOf (Kafka_SubtreeDLQTopic k),
        GroupOf (g @ ''-subtree'') [Kafka_SubtreeTopic k]]
    | SvcBlock p \<Rightarrow> [ProducerOf (Kafka_SubtreeWorkTopic k), GroupOf (g @ ''-block'') [Kafka_BlockTopic k]]
    | SvcWorker p \<Rightarrow> [ProducerOf (Kafka_CallbackTopic k), GroupOf (g @ ''-subtree-worker'') [Kafka_SubtreeWorkTopic k]]
    | SvcDelivery d \<Rightarrow> [ProducerOf (Kafka_CallbackDLQTopic k), GroupOf (g @ ''-callback'') [Kafka_CallbackTopic k]]
    | _ \<Rightarrow> [])"

definition svcRes :: "svc \<Rightarrow> kafkaRes list" where
  "svcRes s = (case s of
      SvcFetcher p \<Rightarrow> optList (fs_consumer p) @ optList (fs_callback p) @ optList (fs_retry p) @ optList (fs_dlq p)
    | SvcBlock p \<Rightarrow> optList (pb_consumer p) @ optList (pb_work p)
    | SvcWorker p \<Rightarrow> optList (ws_consumer p) @ optList (ws_callback p)
    | SvcDelivery d \<Rightarrow> optList (dr_consumer d) @ optList (dr_dlq d)
    | _ \<Rightarrow> [])"

definition svcReady :: "svc \<Rightarrow> bool" where
  "svcReady s = (case s of SvcBlock p \<Rightarrow> pb_consumer p \<noteq> None | _ \<Rightarrow> True)"

lemma closeAll_log: "snd (closeAll (map (closer E) rs) e log) = log @ map KafkaClosed (concat (map optList rs))"
proof (induction rs arbitrary: e log)
  case (Cons r rs)
  then show ?case by (cases r) (simp_all add: closer_def Let_def)
qed simp

lemmas close_lists =
  closeAll_log [of _ "[a, b]" for a b, simplified] closeAll_log [of _ "[a, b, c, d]" for a b c d, simplified]

lemma svcStop_log:
  assumes "svcReady s"
  shows "\<exists>err s'. svcStop E s log = Inr (err, s', log @ map KafkaClosed (svcRes s)) \<and> svcName s' = svcName s"
proof (cases s)
  case (SvcBlock p)
  then obtain r where "pb_consumer p = Some r" using assms by (auto simp: svcReady_def)
  then show ?thesis
    using close_lists(1) [of "me_kafka E" "pb_consumer p" "pb_work p" None log]
    by (auto simp: SvcBlock svcStop_def svcRes_def svcName_def blockServiceStop_def blockStop_def workerStop_def closer_def split: prod.splits)
qed (auto simp: svcStop_def svcRes_def svcName_def fetcherStop_def workerServiceStop_def deliveryStop_def stopThenCancel_def
  workerStop_def Let_def case_prod_beta close_lists)

lemma opened_iff:
  "opened r p k = (None, p', log') \<longleftrightarrow> (\<exists>res log. r = (Inr res, log) \<and> k res log = (None, p', log'))"
  by (auto simp: opened_def split: sum.splits prod.splits)

lemma newClient_iff:
  "NewProducer E brokers t log = (Inr r, log') \<longleftrightarrow> ke_producer E brokers t = None \<and> r = ProducerOf t \<and> log' = log @ [KafkaOpened r]"
  "NewConsumer E brokers g ts log = (Inr r, log') \<longleftrightarrow> ke_group E brokers g = None \<and> r = GroupOf g ts \<and> log' = log @ [KafkaOpened r]"
  by (auto simp: NewProducer_def NewConsumer_def split: option.splits)

lemmas init_defs = opened_iff newClient_iff Let_def svcOpens_def svcRes_def svcReady_def svcName_def

lemma svcInit_log:
  assumes "svcInit E cfg s log = Inr (None, s', log')"
  shows "log' = log @ map KafkaOpened (svcOpens cfg s) \<and> mset (svcOpens cfg s) = mset (svcRes s') \<and> svcReady s' \<and> svcName s' = svcName s"
proof (cases s)
  case (SvcFetcher p)
  then obtain p0 p' where "fetcherClients (me_kafka E) cfg p0 log = (None, p', log')" "s' = SvcFetcher p'"
    using assms by (auto simp: svcInit_def fetcherInit_def go_bind_Inr_iff)
  then show ?thesis by (auto simp: SvcFetcher fetcherClients_def init_defs)
next
  case (SvcBlock p)
  then obtain p' where "blockInit (me_kafka E) cfg p log = (None, p', log')" "s' = SvcBlock p'"
    using assms by (auto simp: svcInit_def split: prod.splits)
  then show ?thesis by (auto simp: SvcBlock blockInit_def init_defs)
next
  case (SvcWorker p)
  then obtain p' where "workerInit (me_kafka E) cfg p log = (None, p', log')" "s' = SvcWorker p'"
    using assms by (auto simp: svcInit_def split: prod.splits)
  then show ?thesis by (auto simp: SvcWorker workerInit_def init_defs)
next
  case (SvcDelivery d)
  then obtain p' where "deliveryInit (me_kafka E) cfg d log = (None, p', log')" "s' = SvcDelivery p'"
    using assms by (auto simp: svcInit_def split: prod.splits)
  then show ?thesis by (auto simp: SvcDelivery deliveryInit_def init_defs)
qed (use assms in \<open>auto simp: svcInit_def init_defs\<close>)

lemma svcStart_keeps:
  assumes "svcStart E cfg s = (err, s')"
  shows "svcRes s' = svcRes s \<and> svcReady s' = svcReady s \<and> svcName s' = svcName s"
  using assms
  by (auto simp: svcStart_def svcRes_def svcReady_def svcName_def deliveryStart_def p2pStart_def startAfter_def startBefore_def Let_def
      split: svc.splits sum.splits)

lemma initAll_log:
  assumes "initAll E cfg ss log = Inr (None, ss', log')"
  shows "log' = log @ map KafkaOpened (concat (map (svcOpens cfg) ss)) \<and> mset (concat (map (svcOpens cfg) ss)) = mset (concat (map svcRes ss'))
    \<and> list_all svcReady ss' \<and> map svcName ss' = map svcName ss"
  using assms
proof (induction ss arbitrary: log ss' log')
  case (Cons s ss)
  then obtain s1 log1 ss1 where 1: "svcInit E cfg s log = Inr (None, s1, log1)" "initAll E cfg ss log1 = Inr (None, ss1, log')" "ss' = s1 # ss1"
    by (auto simp: go_bind_Inr_iff split: option.splits)
  show ?case using svcInit_log [OF 1(1)] Cons.IH [OF 1(2)] by (simp add: 1(3))
qed simp

lemma startAll_log:
  assumes "startAll E cfg ss log = (None, ss', log')"
  shows "log' = log @ map (SvcStarted \<circ> svcName) ss \<and> map svcRes ss' = map svcRes ss \<and> list_all svcReady ss' = list_all svcReady ss
    \<and> map svcName ss' = map svcName ss"
  using assms
proof (induction ss arbitrary: log ss' log')
  case (Cons s ss)
  then obtain s1 ss1 where 1: "svcStart E cfg s = (None, s1)" "startAll E cfg ss (log @ [SvcStarted (svcName s1)]) = (None, ss1, log')" "ss' = s1 # ss1"
    by (auto split: option.splits prod.splits)
  show ?case using svcStart_keeps [OF 1(1)] Cons.IH [OF 1(2)] by (simp add: 1(3))
qed simp

lemma stopAll_log:
  "list_all svcReady ss \<Longrightarrow> stopAll E ss log = Inr (log @ concat (map (\<lambda>s. map KafkaClosed (svcRes s) @ [SvcStopped (svcName s)]) ss))"
proof (induction ss arbitrary: log)
  case (Cons s ss)
  obtain err s' where "svcStop E s log = Inr (err, s', log @ map KafkaClosed (svcRes s))" "svcName s' = svcName s"
    using svcStop_log [of s E log] Cons.prems by auto
  then show ?case using Cons by simp
qed simp

section \<open>Reading the log\<close>

definition startedIn :: "runEvent list \<Rightarrow> string list" where
  "startedIn log = concat (map (\<lambda>e. case e of SvcStarted n \<Rightarrow> [n] | _ \<Rightarrow> []) log)"

definition stoppedIn :: "runEvent list \<Rightarrow> string list" where
  "stoppedIn log = concat (map (\<lambda>e. case e of SvcStopped n \<Rightarrow> [n] | _ \<Rightarrow> []) log)"

definition storeEvents :: "runEvent list \<Rightarrow> resEvent list" where
  "storeEvents log = concat (map (\<lambda>e. case e of StoreEvent x \<Rightarrow> [x] | _ \<Rightarrow> []) log)"

definition openedIn :: "runEvent list \<Rightarrow> kafkaRes list" where
  "openedIn log = concat (map (\<lambda>e. case e of KafkaOpened r \<Rightarrow> [r] | _ \<Rightarrow> []) log)"

definition closedIn :: "runEvent list \<Rightarrow> kafkaRes list" where
  "closedIn log = concat (map (\<lambda>e. case e of KafkaClosed r \<Rightarrow> [r] | _ \<Rightarrow> []) log)"

lemmas log_defs = startedIn_def stoppedIn_def storeEvents_def openedIn_def closedIn_def

lemma log_simps [simp]:
  "startedIn [] = []" "stoppedIn [] = []" "storeEvents [] = []" "openedIn [] = []" "closedIn [] = []"
  "startedIn (e # l) = (case e of SvcStarted n \<Rightarrow> [n] | _ \<Rightarrow> []) @ startedIn l"
  "stoppedIn (e # l) = (case e of SvcStopped n \<Rightarrow> [n] | _ \<Rightarrow> []) @ stoppedIn l"
  "storeEvents (e # l) = (case e of StoreEvent x \<Rightarrow> [x] | _ \<Rightarrow> []) @ storeEvents l"
  "openedIn (e # l) = (case e of KafkaOpened r \<Rightarrow> [r] | _ \<Rightarrow> []) @ openedIn l"
  "closedIn (e # l) = (case e of KafkaClosed r \<Rightarrow> [r] | _ \<Rightarrow> []) @ closedIn l"
  "startedIn (l @ l') = startedIn l @ startedIn l'" "stoppedIn (l @ l') = stoppedIn l @ stoppedIn l'"
  "storeEvents (l @ l') = storeEvents l @ storeEvents l'" "openedIn (l @ l') = openedIn l @ openedIn l'" "closedIn (l @ l') = closedIn l @ closedIn l'"
  by (simp_all add: log_defs)

lemma log_maps [simp]:
  "openedIn (map KafkaOpened rs) = rs" "closedIn (map KafkaOpened rs) = []" "startedIn (map KafkaOpened rs) = []"
  "stoppedIn (map KafkaOpened rs) = []" "storeEvents (map KafkaOpened rs) = []"
  "openedIn (map KafkaClosed rs) = []" "closedIn (map KafkaClosed rs) = rs" "startedIn (map KafkaClosed rs) = []"
  "stoppedIn (map KafkaClosed rs) = []" "storeEvents (map KafkaClosed rs) = []"
  by (induction rs) simp_all

lemma log_storeEvents [simp]:
  "openedIn (map StoreEvent es) = []" "closedIn (map StoreEvent es) = []" "startedIn (map StoreEvent es) = []"
  "stoppedIn (map StoreEvent es) = []" "storeEvents (map StoreEvent es) = es"
  by (induction es) simp_all

lemma log_services [simp]:
  fixes ss :: "svc list"
  defines "starts \<equiv> map (SvcStarted \<circ> svcName) ss" and "stops \<equiv> concat (map (\<lambda>s. map KafkaClosed (svcRes s) @ [SvcStopped (svcName s)]) ss)"
  shows "openedIn starts = []" "closedIn starts = []" "startedIn starts = map svcName ss" "stoppedIn starts = []" "storeEvents starts = []"
    "openedIn stops = []" "closedIn stops = concat (map svcRes ss)" "startedIn stops = []" "stoppedIn stops = map svcName ss" "storeEvents stops = []"
  unfolding starts_def stops_def by (induction ss) simp_all

text \<open>What a run of services that was not ended by an error adds to the log.\<close>

definition servicesRan :: "Config \<Rightarrow> svc list \<Rightarrow> mainOut \<Rightarrow> runEvent list \<Rightarrow> bool" where
  "servicesRan cfg ss out ev \<longleftrightarrow> openedIn ev = concat (map (svcOpens cfg) ss) \<and> startedIn ev = map svcName ss \<and> storeEvents ev = []
     \<and> (out = MReturned \<longrightarrow> mset (closedIn ev) = mset (openedIn ev) \<and> stoppedIn ev = rev (map svcName ss))"

lemma runServices_log:
  assumes "runServices E cfg name ss log = Inr (out, log')" and "out = MServing \<or> out = MReturned"
  shows "\<exists>ev. log' = log @ ev \<and> servicesRan cfg ss out ev"
proof -
  obtain ss1 log1 ss2 log2 where 1: "initAll E cfg ss log = Inr (None, ss1, log1)" "startAll E cfg ss1 log1 = (None, ss2, log2)"
    and 2: "out = MServing \<and> log' = log2 \<or> out = MReturned \<and> stopAll E (rev ss2) log2 = Inr log'"
    using assms by (fastforce simp: runServices_def go_bind_Inr_iff split: option.splits prod.splits)
  note i = initAll_log [OF 1(1)] and s = startAll_log [OF 1(2)]
  show ?thesis
  proof (cases "out = MReturned")
    case True
    then have "log' = log2 @ concat (map (\<lambda>s. map KafkaClosed (svcRes s) @ [SvcStopped (svcName s)]) (rev ss2))"
      using 2 stopAll_log [of "rev ss2" E log2] i s by auto
    moreover have "mset (concat (map svcRes (rev ss2))) = mset (concat (map svcRes ss2))" by (induction ss2) (simp_all add: ac_simps)
    moreover have "map svcRes ss2 = map svcRes ss1" "map svcName (rev ss2) = rev (map svcName ss)" using i s by (metis rev_map)+
    ultimately show ?thesis using i s by (intro exI [of _ "drop (length log) log'"]) (simp add: servicesRan_def)
  next
    case False
    then show ?thesis using 2 i s by (intro exI [of _ "drop (length log) log'"]) (simp add: servicesRan_def)
  qed
qed

section \<open>Putting the program together\<close>

lemma feedMain_log:
  assumes "feedMain E cfg k log = Inr (out, log')" and "out = MServing \<or> out = MReturned"
    and "\<And>sp bp l l'. k sp bp l = Inr (out, l') \<Longrightarrow> \<exists>ev. l' = l @ ev \<and> P ev"
  shows "\<exists>ev. P ev \<and> log' = log @ [KafkaOpened (ProducerOf (Kafka_SubtreeTopic (Cfg_Kafka cfg))), KafkaOpened (ProducerOf (Kafka_BlockTopic (Cfg_Kafka cfg)))]
    @ ev @ (if out = MReturned then [KafkaClosed (ProducerOf (Kafka_BlockTopic (Cfg_Kafka cfg))), KafkaClosed (ProducerOf (Kafka_SubtreeTopic (Cfg_Kafka cfg)))] else [])"
proof -
  let ?sp = "ProducerOf (Kafka_SubtreeTopic (Cfg_Kafka cfg))" and ?bp = "ProducerOf (Kafka_BlockTopic (Cfg_Kafka cfg))"
  obtain l' where l: "k ?sp ?bp (log @ [KafkaOpened ?sp, KafkaOpened ?bp]) = Inr (out, l')"
    "log' = (if out = MReturned then l' @ [KafkaClosed ?bp, KafkaClosed ?sp] else l')"
    using assms(1,2) by (auto simp: feedMain_def Let_def NewProducer_def go_bind_Inr_iff split: option.splits)
  obtain ev where "l' = (log @ [KafkaOpened ?sp, KafkaOpened ?bp]) @ ev" "P ev" using assms(3) [OF l(1)] by blast
  then show ?thesis using l(2) by auto
qed

lemma storeMain_log:
  assumes "storeMain B s = Inr (out, log)" and "out = MServing \<or> out = MReturned" and "bootLoad B = Inr cfg"
  shows "openedIn log = svcOpens cfg s \<and> startedIn log = [svcName s]
    \<and> (out = MReturned \<longrightarrow> mset (closedIn log) = mset (openedIn log) \<and> stoppedIn log = [svcName s])"
proof -
  obtain r es where b: "bootStores B cfg = (Inr r, es)"
    using assms by (cases "bootStores B cfg"; cases "fst (bootStores B cfg)") (auto simp: storeMain_def)
  obtain l where 1: "runServices (be_main B) cfg (svcName s) [s] (map StoreEvent es) = Inr (out, l)"
    and 2: "log = (if out = MReturned then closeStores r es l else l)"
    using assms(1,3) by (auto simp: storeMain_def b go_bind_Inr_iff)
  show ?thesis using runServices_log [OF 1 assms(2)] 2 by (auto simp: closeStores_def servicesRan_def)
qed

lemma merkleMain_log:
  assumes "merkleMain B = Inr (out, log)" and "out = MServing \<or> out = MReturned" and "bootLoad B = Inr cfg"
  shows "\<exists>r es ev. bootStores B cfg = (Inr r, es)
    \<and> servicesRan cfg (allServices cfg sp bp) out ev
    \<and> log = map StoreEvent es
        @ [KafkaOpened (ProducerOf (Kafka_SubtreeTopic (Cfg_Kafka cfg))), KafkaOpened (ProducerOf (Kafka_BlockTopic (Cfg_Kafka cfg)))] @ ev
        @ (if out = MReturned then [KafkaClosed (ProducerOf (Kafka_BlockTopic (Cfg_Kafka cfg))), KafkaClosed (ProducerOf (Kafka_SubtreeTopic (Cfg_Kafka cfg)))]
             @ map StoreEvent (drop (length es) (snd (snd (RegistryClose r es)))) else [])"
proof -
  let ?run = "\<lambda>sp bp. runServices (be_main B) cfg ''merkle-service'' (allServices cfg sp bp)"
  obtain r es where b: "bootStores B cfg = (Inr r, es)"
    using assms by (cases "bootStores B cfg"; cases "fst (bootStores B cfg)") (auto simp: merkleMain_def)
  obtain l where 1: "feedMain (be_main B) cfg ?run (map StoreEvent es) = Inr (out, l)"
    and 2: "log = (if out = MReturned then closeStores r es l else l)"
    using assms(1,3) by (auto simp: merkleMain_def b go_bind_Inr_iff)
  have "map (svcOpens cfg) (allServices cfg a b) = map (svcOpens cfg) (allServices cfg sp bp)"
    "map svcName (allServices cfg a b) = map svcName (allServices cfg sp bp)" for a b
    by (simp_all add: allServices_def svcOpens_def svcName_def)
  then have same: "servicesRan cfg (allServices cfg a b) out ev = servicesRan cfg (allServices cfg sp bp) out ev" for a b ev
    unfolding servicesRan_def by metis
  have "\<exists>ev. l' = l @ ev \<and> servicesRan cfg (allServices cfg sp bp) out ev" if "?run a b l = Inr (out, l')" for a b l l'
    using runServices_log [OF that assms(2)] same [of a b] by simp
  from feedMain_log [OF 1 assms(2) this] show ?thesis using 2 by (intro exI [of _ r] exI [of _ es]) (auto simp: closeStores_def b)
qed

lemma p2pMain_log:
  assumes "p2pMain B = Inr (out, log)" and "out = MServing \<or> out = MReturned" and "bootLoad B = Inr cfg"
  shows "openedIn log = [ProducerOf (Kafka_SubtreeTopic (Cfg_Kafka cfg)), ProducerOf (Kafka_BlockTopic (Cfg_Kafka cfg))]"
proof -
  let ?run = "\<lambda>sp bp. runServices (be_main B) cfg ''p2p-client'' [SvcP2p (newP2p cfg (Some sp) (Some bp) mainLogger)]"
  have f: "feedMain (be_main B) cfg ?run [] = Inr (out, log)" using assms(1,3) by (simp add: p2pMain_def)
  obtain ev where "openedIn ev = []" "log = [] @ [KafkaOpened (ProducerOf (Kafka_SubtreeTopic (Cfg_Kafka cfg))), KafkaOpened (ProducerOf (Kafka_BlockTopic (Cfg_Kafka cfg)))]
    @ ev @ (if out = MReturned then [KafkaClosed (ProducerOf (Kafka_BlockTopic (Cfg_Kafka cfg))), KafkaClosed (ProducerOf (Kafka_SubtreeTopic (Cfg_Kafka cfg)))] else [])"
    using feedMain_log [OF f assms(2), where P = "\<lambda>ev. openedIn ev = []"] runServices_log [OF _ assms(2)]
    by (fastforce simp: servicesRan_def svcOpens_def)
  then show ?thesis by auto
qed

lemma bootStores_ok:
  assumes "bootStores B cfg = (Inr r, es)"
  shows "list_all (\<lambda>e. e \<in> range Acquired) es
    \<and> (\<exists>es'. drop (length es) (snd (snd (RegistryClose r es))) = es' \<and> orderly [] (es @ es') = Some [])"
proof
  show "list_all (\<lambda>e. e \<in> range Acquired) es"
    using assms by (auto simp: bootStores_def NewFromConfig_def newAerospikeRegistry_def sqlNew_def Let_def split: if_splits option.splits sum.splits)
  have "closesUp (bootStores B cfg) []"
    using aerospike_closesUp [of "be_factory B" cfg "[]"] sql_closesUp [of "be_factory B" cfg "[]"] closesUp_fail [of "[]" _ "[]"]
    by (auto simp: bootStores_def NewFromConfig_def Let_def)
  then show "\<exists>es'. drop (length es) (snd (snd (RegistryClose r es))) = es' \<and> orderly [] (es @ es') = Some []"
    using assms by (auto simp: closesUp_def)
qed

text \<open>
  C13: Taking the program down. When the process with all services gets its signal and returns, every Kafka producer and consumer group
  that was opened has been closed, once each; the six services were stopped in the opposite order in which they were started; the
  producers of the announcements were closed after that, and the stores last, the sweeper before the database, with nothing left open.
\<close>

theorem main_shutdown:
  assumes "merkleMain B = Inr (MReturned, log)"
  shows "mset (closedIn log) = mset (openedIn log)
    \<and> startedIn log = [''api-server'', ''p2p-client'', ''subtree-fetcher'', ''block-processor'', ''subtree-worker'', ''callback-delivery'']
    \<and> stoppedIn log = rev (startedIn log) \<and> orderly [] (storeEvents log) = Some []
    \<and> (\<exists>l s b es. log = l @ [KafkaClosed (ProducerOf b), KafkaClosed (ProducerOf s)] @ map StoreEvent es
         \<and> stoppedIn l = stoppedIn log \<and> list_all (\<lambda>e. e \<in> range Acquired) (storeEvents l))"
proof -
  obtain cfg where c: "bootLoad B = Inr cfg" using assms by (auto simp: merkleMain_def split: sum.splits)
  let ?s = "ProducerOf (Kafka_SubtreeTopic (Cfg_Kafka cfg))" and ?b = "ProducerOf (Kafka_BlockTopic (Cfg_Kafka cfg))"
  obtain r es ev where b: "bootStores B cfg = (Inr r, es)" and ran: "servicesRan cfg (allServices cfg ?s ?b) MReturned ev"
    and l: "log = (map StoreEvent es @ [KafkaOpened ?s, KafkaOpened ?b] @ ev) @ [KafkaClosed ?b, KafkaClosed ?s]
      @ map StoreEvent (drop (length es) (snd (snd (RegistryClose r es))))"
    using merkleMain_log [OF assms _ c, of ?s ?b] by auto
  note ok = bootStores_ok [OF b] and names = allServices_def svcName_def and ran = ran [unfolded servicesRan_def]
  show ?thesis
  proof (intro conjI)
    show "mset (closedIn log) = mset (openedIn log)" using ran by (simp add: l)
    show s: "startedIn log = [''api-server'', ''p2p-client'', ''subtree-fetcher'', ''block-processor'', ''subtree-worker'', ''callback-delivery'']"
      using ran by (simp add: l names)
    show "stoppedIn log = rev (startedIn log)" unfolding s using ran by (simp add: l names)
    show "orderly [] (storeEvents log) = Some []" using ran ok by (simp add: l)
    show "\<exists>l s b es. log = l @ [KafkaClosed (ProducerOf b), KafkaClosed (ProducerOf s)] @ map StoreEvent es
         \<and> stoppedIn l = stoppedIn log \<and> list_all (\<lambda>e. e \<in> range Acquired) (storeEvents l)"
      by (intro exI conjI, rule l) (use ran ok in \<open>simp_all add: l\<close>)
  qed
qed

definition groupsIn :: "kafkaRes list \<Rightarrow> (string \<times> string list) list" where
  "groupsIn rs = concat (map (\<lambda>r. case r of GroupOf g ts \<Rightarrow> [(g, ts)] | _ \<Rightarrow> []) rs)"

definition topicsWritten :: "kafkaRes list \<Rightarrow> string list" where
  "topicsWritten rs = concat (map (\<lambda>r. case r of ProducerOf t \<Rightarrow> [t] | _ \<Rightarrow> []) rs)"

text \<open>
  C14: The topics connect the services. In a process with all services, once they run, each of the four topics with work is read by one
  consumer group, of its own name, and is written by some service, and only the two dead-letter topics are written and not read. Six
  processes with one service each, started with the same configuration, open the same producers and consumer groups.
\<close>

theorem topics_wired:
  assumes "bootLoad B = Inr cfg" and "merkleMain B = Inr (out, log)" and "out = MServing \<or> out = MReturned" and "k = Cfg_Kafka cfg"
    and "list_all2 (\<lambda>r (o', l). r = Inr (o', l) \<and> (o' = MServing \<or> o' = MReturned)) [apiMain B, p2pMain B, fetcherMain B, blockMain B, workerMain B, deliveryMain B] runs"
  shows "map snd (groupsIn (openedIn log)) = [[Kafka_SubtreeTopic k], [Kafka_BlockTopic k], [Kafka_SubtreeWorkTopic k], [Kafka_CallbackTopic k]]
    \<and> distinct (map fst (groupsIn (openedIn log)))
    \<and> set (topicsWritten (openedIn log)) = {Kafka_SubtreeTopic k, Kafka_BlockTopic k, Kafka_SubtreeWorkTopic k, Kafka_CallbackTopic k,
        Kafka_SubtreeDLQTopic k, Kafka_CallbackDLQTopic k}
    \<and> mset (concat (map (openedIn \<circ> snd) runs)) = mset (openedIn log)"
proof -
  let ?s = "ProducerOf (Kafka_SubtreeTopic k)" and ?b = "ProducerOf (Kafka_BlockTopic k)"
  have o: "openedIn log = [?s, ?b] @ concat (map (svcOpens cfg) (allServices cfg ?s ?b))"
    using merkleMain_log [OF assms(2,3,1), of ?s ?b] by (auto simp: servicesRan_def assms(4))
  obtain o1 l1 o2 l2 o3 l3 o4 l4 o5 l5 o6 l6 where runs: "runs = [(o1, l1), (o2, l2), (o3, l3), (o4, l4), (o5, l5), (o6, l6)]"
    using assms(5) by (auto simp: list_all2_Cons1)
  note six = assms(5) [unfolded runs, simplified, unfolded apiMain_def fetcherMain_def blockMain_def workerMain_def deliveryMain_def]
  have 2: "openedIn l2 = [?s, ?b]" using p2pMain_log [OF _ _ assms(1), of o2 l2] six by (simp add: assms(4))
  have "openedIn l1 = svcOpens cfg (SvcApi (baseWith ''api-server'' mainLogger))" "openedIn l3 = svcOpens cfg (SvcFetcher newFetcher)"
    "openedIn l4 = svcOpens cfg (SvcBlock (newBlockProcessor mainLogger))" "openedIn l5 = svcOpens cfg (SvcWorker (newSubtreeWorker mainLogger))"
    "openedIn l6 = svcOpens cfg (SvcDelivery newDelivery)"
    using six storeMain_log [OF _ _ assms(1)] by blast+
  then have "mset (concat (map (openedIn \<circ> snd) runs)) = mset (openedIn log)" by (simp add: runs 2 o allServices_def svcOpens_def Let_def assms(4))
  then show ?thesis by (auto simp: o allServices_def svcOpens_def Let_def assms(4) groupsIn_def topicsWritten_def)
qed

section \<open>A run of the whole program\<close>

definition exBoot :: "(viperState, cluster) bootEnv" where
  "exBoot = \<lparr>be_viper = layered noFile, be_decoders = plainDecoders, be_order = (\<lambda>_ bs. bs), be_vars = [''API_PORT'' \<mapsto> ''9090''], be_factory = exFactory,
     be_main = \<lparr>me_kafka = \<lparr>ke_producer = (\<lambda>_ _. None), ke_group = (\<lambda>_ _. None), ke_close = (\<lambda>_. None)\<rparr>, me_mmap = (\<lambda>_. True),
       me_initialize = (\<lambda>_. Inr 1), me_shutdown = None, me_wake = Some (GotSignal ''SIGTERM'')\<rparr>\<rparr>"

lemma exBoot_load: "bootLoad exBoot = Inr portConfig"
  by (simp add: bootLoad_def exBoot_def Load_port)

text \<open>Nothing fails in this environment.\<close>

definition fed :: "svc \<Rightarrow> bool" where
  "fed s = (case s of SvcP2p c \<Rightarrow> pc_hasSubtreeProducer c \<and> pc_hasBlockProducer c | _ \<Rightarrow> True)"

lemma exBoot_init:
  assumes "fed s"
  shows "\<exists>s' log'. svcInit (be_main exBoot) portConfig s log = Inr (None, s', log')"
proof -
  have m: "Subtree_CacheMaxMB (Cfg_Subtree portConfig) = 64" by (simp add: portConfig_def defaultConfig_def)
  obtain c where "New (\<lambda>_. True) (64 * 1024 * 1024) Unallocated = Inr (Inr c)" using New_exists [of "64 * 1024 * 1024" Unallocated "\<lambda>_. True"] by auto
  then have "NewRegistrationCache (\<lambda>_. True) 64 = Inr (Inr (RegistrationCache.make c))" by (simp add: NewRegistrationCache_def)
  then show ?thesis
    using assms
    by (auto simp: svcInit_def exBoot_def fed_def p2pInit_def fetcherInit_def fetcherCaches_def m fetcherClients_def blockInit_def workerInit_def deliveryInit_def
        opened_def NewProducer_def NewConsumer_def Let_def split: svc.split)
qed

lemma exBoot_initAll: "list_all fed ss \<Longrightarrow> \<exists>ss' log'. initAll (be_main exBoot) portConfig ss log = Inr (None, ss', log')"
proof (induction ss arbitrary: log)
  case (Cons s ss)
  obtain s' log1 where 1: "svcInit (be_main exBoot) portConfig s log = Inr (None, s', log1)" using exBoot_init [of s log] Cons.prems by auto
  obtain ss' log' where "initAll (be_main exBoot) portConfig ss log1 = Inr (None, ss', log')" using Cons.IH [of log1] Cons.prems by auto
  then show ?case using 1 by simp
qed simp

lemma exBoot_startAll: "\<exists>ss' log'. startAll (be_main exBoot) portConfig ss log = (None, ss', log')"
proof (induction ss arbitrary: log)
  case (Cons s ss)
  obtain s' where 1: "svcStart (be_main exBoot) portConfig s = (None, s')"
    by (cases s) (auto simp: svcStart_def exBoot_def p2pStart_def startAfter_def startBefore_def)
  obtain ss' log' where "startAll (be_main exBoot) portConfig ss (log @ [SvcStarted (svcName s')]) = (None, ss', log')" using Cons.IH by blast
  then show ?case using 1 by simp
qed simp

lemma exBoot_run:
  assumes "list_all fed ss"
  shows "\<exists>log'. runServices (be_main exBoot) portConfig name ss log = Inr (MReturned, log')"
proof -
  obtain ss1 log1 where 1: "initAll (be_main exBoot) portConfig ss log = Inr (None, ss1, log1)" using exBoot_initAll [OF assms] by blast
  obtain ss2 log2 where 2: "startAll (be_main exBoot) portConfig ss1 log1 = (None, ss2, log2)" using exBoot_startAll by blast
  have "list_all svcReady (rev ss2)" using initAll_log [OF 1] startAll_log [OF 2] by simp
  then show ?thesis using 1 2 stopAll_log by (simp add: runServices_def WaitForShutdown_def exBoot_def)
qed

lemma exBoot_stores: "\<exists>r. bootStores exBoot portConfig = (Inr r, [Acquired AerospikeConn])"
  using exFactory_opens by (simp add: bootStores_def exBoot_def)

lemma exBoot_single:
  assumes "fed s"
  shows "\<exists>log. storeMain exBoot s = Inr (MReturned, log)"
proof -
  obtain r where "bootStores exBoot portConfig = (Inr r, [Acquired AerospikeConn])" using exBoot_stores by blast
  moreover obtain l where "runServices (be_main exBoot) portConfig (svcName s) [s] (map StoreEvent [Acquired AerospikeConn]) = Inr (MReturned, l)"
    using exBoot_run [of "[s]" "svcName s"] assms by auto
  ultimately show ?thesis by (simp add: storeMain_def exBoot_load)
qed

lemma exBoot_feed:
  assumes "\<And>sp bp l. \<exists>l'. k sp bp l = Inr (MReturned, l')"
  shows "\<exists>log'. feedMain (be_main exBoot) portConfig k log = Inr (MReturned, log')"
  using assms by (auto simp: feedMain_def NewProducer_def exBoot_def Let_def go_bind_Inr_iff)

lemma exBoot_p2p: "\<exists>log. p2pMain exBoot = Inr (MReturned, log)"
  unfolding p2pMain_def exBoot_load sum.case by (intro exBoot_feed exBoot_run) (simp add: fed_def newP2p_def)

lemma fed_all: "list_all fed (allServices cfg sp bp)"
  by (simp add: fed_def allServices_def newP2p_def)

lemma exBoot_all: "\<exists>log. merkleMain exBoot = Inr (MReturned, log)"
proof -
  obtain r where "bootStores exBoot portConfig = (Inr r, [Acquired AerospikeConn])" using exBoot_stores by blast
  moreover have "\<exists>l. feedMain (be_main exBoot) portConfig
      (\<lambda>sp bp. runServices (be_main exBoot) portConfig ''merkle-service'' (allServices portConfig sp bp)) (map StoreEvent [Acquired AerospikeConn]) = Inr (MReturned, l)"
    by (intro exBoot_feed exBoot_run fed_all)
  ultimately show ?thesis by (auto simp: merkleMain_def exBoot_load)
qed

theorem main_shutdown_witness:
  "\<exists>log. merkleMain exBoot = Inr (MReturned, log) \<and> mset (closedIn log) = mset (openedIn log) \<and> orderly [] (storeEvents log) = Some []"
  using exBoot_all main_shutdown by blast

theorem topics_wired_witness:
  "\<exists>log (runs :: (mainOut \<times> runEvent list) list). merkleMain exBoot = Inr (MReturned, log) \<and> length runs = 6 \<and> mset (concat (map (openedIn \<circ> snd) runs)) = mset (openedIn log)
     \<and> map snd (groupsIn (openedIn log)) = [[''subtree''], [''block''], [''subtree-work''], [''callback'']]"
proof -
  obtain log where l: "merkleMain exBoot = Inr (MReturned, log)" using exBoot_all by blast
  have s: "\<exists>l. storeMain exBoot s = Inr (MReturned, l)" if "\<nexists>c. s = SvcP2p c" for s
    using exBoot_single [of s] that by (cases s) (auto simp: fed_def)
  obtain l1 where 1: "apiMain exBoot = Inr (MReturned, l1)" unfolding apiMain_def using s [of "SvcApi (baseWith ''api-server'' mainLogger)"] by auto
  obtain l2 where 2: "p2pMain exBoot = Inr (MReturned, l2)" using exBoot_p2p by blast
  obtain l3 where 3: "fetcherMain exBoot = Inr (MReturned, l3)" unfolding fetcherMain_def using s [of "SvcFetcher newFetcher"] by auto
  obtain l4 where 4: "blockMain exBoot = Inr (MReturned, l4)" unfolding blockMain_def using s [of "SvcBlock (newBlockProcessor mainLogger)"] by auto
  obtain l5 where 5: "workerMain exBoot = Inr (MReturned, l5)" unfolding workerMain_def using s [of "SvcWorker (newSubtreeWorker mainLogger)"] by auto
  obtain l6 where 6: "deliveryMain exBoot = Inr (MReturned, l6)" unfolding deliveryMain_def using s [of "SvcDelivery newDelivery"] by auto
  let ?runs = "[(MReturned, l1), (MReturned, l2), (MReturned, l3), (MReturned, l4), (MReturned, l5), (MReturned, l6)]"
  have r: "list_all2 (\<lambda>r (o', l). r = Inr (o', l) \<and> (o' = MServing \<or> o' = MReturned))
      [apiMain exBoot, p2pMain exBoot, fetcherMain exBoot, blockMain exBoot, workerMain exBoot, deliveryMain exBoot] ?runs" by (simp add: 1 2 3 4 5 6)
  show ?thesis
  proof (intro exI conjI)
    show "merkleMain exBoot = Inr (MReturned, log)" by (rule l)
    show "length ?runs = 6" by simp
    show "mset (concat (map (openedIn \<circ> snd) ?runs)) = mset (openedIn log)" using topics_wired [OF exBoot_load l _ refl r] by blast
    show "map snd (groupsIn (openedIn log)) = [[''subtree''], [''block''], [''subtree-work''], [''callback'']]"
      using topics_wired [OF exBoot_load l _ refl r] by (simp add: portConfig_def defaultConfig_def)
  qed
qed

text \<open>The pool of delivery workers and its channel are never empty, as the results on the gate and on \<open>Stop\<close> ask for.\<close>

lemma delivery_pool:
  assumes "deliveryInit E cfg d log = (None, d', log')"
  shows "\<exists>c. dr_workChCap d' = Some c \<and> 0 < c \<and> 0 < dr_workers (deliveryStart cfg d')"
  using assms by (auto simp: deliveryInit_def deliveryStart_def workerCount_def Let_def opened_iff newClient_iff)

end
