(* ===== verification/Spec2Isabelle.thy ===== *)
theory Spec2Isabelle
  imports Stump_Merge Dedup_Cache Registration_Cache Datahub File_Blob Sql_Seen Stump_Gate Block_Flow Subtree_Fetcher
    Aerospike_Backend P2p Api Sql_Setup Concurrent_Blob Dashboard Deployment
begin

text \<open>
  A verification library for merkle-service, which tells its clients when the transactions they
  watch are seen on the network and gives them merkle proofs when they are mined.

  \<^bold>\<open>The program.\<close> A client registers a txid with a callback URL through the HTTP API
  (internal/api, and the command line client cmd/watch). The P2P client (internal/p2p) copies the
  announcements of subtrees and of blocks to two Kafka topics. The subtree fetcher
  (internal/subtree) fetches an announced subtree from the DataHub (internal/datahub), stores it,
  finds the registered txids (through the registration cache of internal/cache) and publishes
  SEEN_ON_NETWORK and, from a threshold of subtrees on, SEEN_MULTIPLE_NODES on the callback topic.
  The block processor (internal/block/processor.go) counts the subtrees of a block in the subtree
  counter and publishes a work message for each; the subtree workers (internal/block/subtree_worker.go,
  subtree_processor.go) build the STUMP of the registered leaves (internal/stump), store it
  (internal/store), publish it once per URL, decrement the counter, and who reaches zero publishes
  BLOCK_PROCESSED for every known URL. The delivery service (internal/callback) consumes the
  callback topic and posts to the receivers, with deduplication, retries, a dead-letter topic and a
  gate that holds BLOCK_PROCESSED back until the STUMPs before it were attempted. Registrations,
  counters and deduplication records are kept in Aerospike or in a SQL database, STUMPs and
  subtrees in a blob store. The main functions under cmd open the stores of the configuration, start
  the services and stop them on a signal. tools/debug-dashboard shows the callbacks it receives.

  \<^bold>\<open>Conventions.\<close> A definition has the name of the Go function it models, with a suffix or prefix where
  several types have a method of that name (\<open>Set_u\<close>, \<open>Set_p\<close>, \<open>Set_t\<close>; \<open>regAdd\<close>, \<open>urlAdd\<close>). A structure is
  a record, an interface value a data type or a record of operations, an error a value of a sum.
  A run-time panic is a value, too. The order in which Go visits a map, the answers of networks,
  databases and system calls, the clock, and the functions of libraries (xxhash, SHA-256,
  chainhash, go-subtree, the Aerospike client, viper, sarama, the HTTP router) are arguments. What a theorem
  needs to know of a library is a law of a locale or a hypothesis of the theorem.

  \<^bold>\<open>Theories.\<close>
  \<^item> Prelude and Go_Strings: machine types, panics, map orders, the packages strings, strconv and
    encoding/hex, and the lemmas all theories share.
  \<^item> Stump, Stump_Build, Stump_Verify, Stump_Codec, Stump_Merge (internal/stump/builder.go): the
    builder, its closed form, the verification of what it builds with the BRC-74 algorithm, the
    binary format with a decoder and its round trip, determinism and the merge as the proof of the union.
  \<^item> Dedup_Cache (internal/cache/dedup_cache.go): the bounded LRU set, refined to its recency list.
  \<^item> Cache_Chunks, Cache_Ring, Cache_Ring_Inv, Cache_Buckets, Cache_Prealloc, Improved_Cache,
    Cache_Spec (internal/cache/improved_cache.go): chunks with packed generations and indices at
    their width of 64 bits, the three kinds of buckets, and the sharded cache as a lossy map, within its memory bound.
  \<^item> Registration_Cache (internal/cache/registration_cache.go): on that cache, an answer is never wrong.
  \<^item> Datahub (internal/datahub/client.go): the client with its retries and its parsers.
  \<^item> Blob_Store, File_Blob, Concurrent_Blob, Stump_Store (internal/store: memory_blob.go,
    file_blob.go, subtree_store.go, stump_store.go): blob stores in memory and on files, the wrapper
    that shares concurrent reads as a step relation, and the lifetime of STUMPs and subtrees.
  \<^item> Sql_Stores, Sql_Seen and Sql_Setup (internal/store/sql): the stores as transactions that may fail before
    or after the commit, the sweeper, overlapping transactions of the seen counter statement by statement, and the
    migrations with services that start at the same time.
  \<^item> Aerospike and Aerospike_Backend (internal/store: registration.go, seen_counter.go,
    subtree_counter.go, callback_*.go, aerospike.go): the same stores over the operations of the
    Aerospike client, the types of all bins, and the services on them.
  \<^item> Kafka_Messages (internal/kafka): messages, partition keys, producer and consumer;
    Json, Json_Value, Json_Messages: encoding/json and the round trip of every message.
  \<^item> Delivery, Stump_Gate, Delivery_Stop (internal/callback/delivery.go): one delivery with its
    retries; consumer, gate, workers and timers as a step relation; and the same while \<open>Stop\<close> runs.
  \<^item> Block_Subtree and Block_Flow (internal/block): the subtree of a block; block processor and
    subtree workers, as handlers and as a step relation of concurrent workers.
  \<^item> Subtree_Fetcher (internal/subtree/processor.go), P2p (internal/p2p/client.go), Api (internal/api),
    Services (internal/service, internal/store/registry.go): the other services.
  \<^item> Configuration (internal/config), Store_Factory (internal/store/factory.go), Deployment (cmd, and
    \<open>Init\<close>, \<open>Start\<close> and \<open>Stop\<close> of every service): how the program is put together and taken down.
  \<^item> Watch_Cli (cmd/watch) and Dashboard (tools/debug-dashboard): the tools.
  \<^item> This theory: the properties that span services, from the workers to the receivers and from a
    registration to its first callback.

  \<^bold>\<open>Interfaces.\<close> A contract between components is a locale, and what clients conclude from it is
  proved in the locale once. \<open>bucket_spec\<close> is met by the three kinds of buckets and by the interface
  value (\<open>bu\<close>, \<open>bt\<close>, \<open>bp\<close>, \<open>bucket\<close>), with \<open>ring_bucket\<close> for what the ring buckets share; \<open>lossy_map\<close> by the
  sharded cache; \<open>lru_set\<close> by the deduplication cache; \<open>blob_store\<close>, and \<open>stump_store\<close> above it, by memory
  and files (\<open>mem\<close>, \<open>memStump\<close>, \<open>file_disk\<close>). \<open>registration_store\<close>, \<open>seen_counter\<close> and \<open>flaky_counter\<close>
  are met by both the SQL stores (\<open>sql_rows\<close>, \<open>sqlSeen\<close>, \<open>sqlFlaky\<close>) and the Aerospike stores (sublocales of
  \<open>aerospike_store\<close>, \<open>aerospike_seen\<close>, \<open>aerospike_counter\<close>); so \<open>fetching\<close> and \<open>backend\<close>, in which
  the subtree fetcher is verified, and \<open>watch_store\<close>, for the API, hold of either. \<open>subtree_counter\<close> and
  \<open>dedup_store\<close> are met by the SQL stores, \<open>reg_cache\<close> by the registration cache. \<open>aerospike\<close> and
  \<open>viper_laws\<close> state what two libraries document; a cluster of records and a layered look-up
  are shown to meet them.

  \<^bold>\<open>Properties.\<close> Ordering: a receiver gets BLOCK_PROCESSED only after all STUMPs of the block were
  attempted, for any interleaving of workers, publishers and timers; the callback topic has this order on either
  backend; the gate cannot deadlock, and \<open>Stop\<close> of the delivery service returns, unless the consumer crashes on
  the channel that is closed too early (\<open>stop_can_crash\<close>). Content: what the workers store for a block is a
  proof of every registered txid of the subtree; the SEEN callbacks are exactly those of the registrations and
  counts, and a watched txid is reported; proofs and messages survive their encodings; every setting has the value
  of its variable, file entry or default. Storage: counters reach zero once; the seen threshold is reported at most
  once, and once it is reached, except that on PostgreSQL calls that overlap can all miss it (\<open>overlapping_calls_miss\<close>); migrations are
  applied once; caches and blob stores return what was stored last, or nothing; the registration cache repeats the last
  answer it was able to store. Failures: messages are published,
  put back or given to the dead-letter topic; retries end; a process that returns after its signal has stopped
  its services and closed what it opened.

  \<^bold>\<open>Loops and bounds.\<close> Loops are recursive functions with termination proofs, or bounded by their
  own counter of attempts. Only the JSON parser has fuel: \<open>2 * length + 1\<close> of the text, which
  \<open>parseValue_fuel\<close> shows to be enough; that it refuses nesting beyond 10000 is the limit of encoding/json.
  Goroutines are step relations over all interleavings, without a bound on their number or on the messages.
  Indices of slices are \<open>nat\<close>; the fields of the wire formats, cache indices and generations keep their width.

  \<^bold>\<open>Not modelled.\<close> The system calls of the off-heap memory (internal/cache/mmap_*.go), of which only
  success or failure matters; the inside of the libraries named above; logging and metrics, the templates
  of the dashboard, the periodic logging of the P2P client; \<open>listChunks\<close>, a debugging aid of the cache; and the load
  generators of test/scale, which are tests.
\<close>

section \<open>From the subtree workers to the receivers\<close>

lemma count_partition:
  assumes "\<And>k m. (k, m) \<in> set t \<Longrightarrow> k = key m" and "P (key m)"
  shows "count_list (map snd (filter (P \<circ> fst) t)) m = count_list (map snd t) m"
  using assms(1)
proof (induction t)
  case (Cons x t)
  obtain k m' where x: "x = (k, m')" by (cases x)
  have "k = key m'" using Cons.prems [of k m'] by (simp add: x)
  then show ?case using Cons assms(2) by (auto simp: x)
qed simp

text \<open>
  C1: A receiver is told that a block is processed only after it was offered all its proofs. The
  workers of a deployment handle the work messages of the blocks concurrently and write the callback
  topic; a delivery service consumes a partition of it (the messages whose keys satisfy \<open>P\<close>), with
  any number of workers. Whenever a worker of the delivery service is about to post BLOCK_PROCESSED,
  every STUMP that was published for the same block and URL has been through its delivery attempt, as
  often as it was published, although publishers, consumer, delivery workers and retry timers
  interleave freely and publications, decrements and deliveries may fail. As for the order of the topic, the counter
  of each block is at least the number of its work messages, each of which is handled once: a work message that Kafka
  delivers again is a further handling that the counter has to allow for.
\<close>

theorem stumps_before_block_processed:
  assumes "freach counterDecrement sha (flowInit wms d) s"
    and "\<forall>h n. remainingIn d h = Some n \<longrightarrow> int (length (filter (\<lambda>wm. wm_BlockHash wm = h) wms)) \<le> n"
    and "\<forall>wm \<in> set wms. CHR ''|'' \<notin> set (wm_BlockHash wm)"
    and "reachable sha cap (initSys n (map snd (filter (P \<circ> fst) (callbacks s)))) t"
    and "i < length (workers t)" and "workers t ! i = Delivering bp" and "isBP bp" and "P (HashPartitionKey sha (CallbackURL bp))"
    and "m \<in> snd ` set (callbacks s)" and "firstStump m" and "BlockHash m = BlockHash bp" and "CallbackURL m = CallbackURL bp"
  shows "count_list (attempted t) m = count_list (map snd (callbacks s)) m \<and> \<not> panicked t"
proof -
  note inv = sqlFlaky.flow_reach [OF assms(1-3)]
  note part = sqlFlaky.flow_partition [OF inv]
  have c: "count_list (map snd (filter (P \<circ> fst) (callbacks s))) m = count_list (map snd (callbacks s)) m"
    by (rule count_partition [where key = "\<lambda>m. HashPartitionKey sha (CallbackURL m)"])
      (use part(3) assms(8,12) in simp_all)
  then have "m \<in> set (map snd (filter (P \<circ> fst) (callbacks s)))"
    using assms(9) by (metis count_list_0_iff image_set)
  moreover have "gateKey m = gateKey bp" using assms(11,12) by (simp add: gateKey_def)
  ultimately show ?thesis using bp_after_stumps [OF assms(4) part(1,2) assms(5-7) _ assms(10)] c by metis
qed

theorem stumps_before_block_processed_witness:
  "\<exists>s t. freach counterDecrement (\<lambda>_. 0) (flowInit [exWork] exCount) s
     \<and> reachable (\<lambda>_. 0) 1 (initSys 1 (map snd (callbacks s))) t \<and> workers t = [Delivering bpMessage]
     \<and> count_list (attempted t) stumpMessage = count_list (map snd (callbacks s)) stumpMessage"
proof -
  let ?t = "at1 [] None [] (Delivering bpMessage) False 0 [stumpMessage]"
  obtain s where s: "freach counterDecrement (\<lambda>_. 0) (flowInit [exWork] exCount) s" "map snd (callbacks s) = [stumpMessage, bpMessage]"
    using exFlow by auto
  have all: "filter ((\<lambda>_. True) \<circ> fst) (callbacks s) = callbacks s" by (simp add: comp_def)
  have m: "stumpMessage \<in> snd ` set (callbacks s)" using s(2) by (metis image_set list.set_intros(1))
  have r: "reachable (\<lambda>_. 0) 1 (initSys 1 (map snd (filter ((\<lambda>_. True) \<circ> fst) (callbacks s)))) ?t"
    unfolding all s(2) by (rule run_to_bp)
  have "count_list (attempted ?t) stumpMessage = count_list (map snd (callbacks s)) stumpMessage \<and> \<not> panicked ?t"
    by (rule stumps_before_block_processed [OF s(1) exFlow_ok r, of 0 bpMessage])
      (use m in \<open>simp_all add: at1_def run_key, simp_all add: stumpMessage_def bpMessage_def emptyCallback_def\<close>)
  then show ?thesis using s r unfolding all by (intro exI [of _ s] exI [of _ ?t]) (simp add: at1_def)
qed


section \<open>From a registration to its first callback\<close>

lemma count_list_distinct: "distinct xs \<Longrightarrow> x \<in> set xs \<Longrightarrow> count_list xs x = 1"
  by (induction xs) (auto simp: count_list_0_iff)

lemma watch_accepted:
  assumes "handleWatch parseURL (sqlServer orderBy flt rflt uflt) (Inr req) d0 = Inr (rp, d)" and "rp_status rp = 200" and "regInv d0"
  shows "regInv d \<and> urlsIn d = (urlsIn d0)(wr_TxID req := insert (wr_CallbackURL req) (urlsIn d0 (wr_TxID req)))"
proof -
  have "sv_regStore (sqlServer orderBy flt rflt uflt) = Some (sqlRegOps orderBy flt rflt)" "sv_urlRegistry (sqlServer orderBy flt rflt uflt) = Some (urlAdd uflt)"
    by (simp_all add: sqlServer_def NewServer_def Let_def)
  then obtain d1 where d1: "regAdd flt (wr_TxID req) (wr_CallbackURL req) d0 = (Inr (), d1)" "d = snd (urlAdd uflt (wr_CallbackURL req) d1)"
    using assms(1,2) by (auto simp: handleWatch_def sqlRegOps_def writeJSON_def Let_def split: option.splits prod.splits sum.splits)
  have "d = d1 \<or> d = d1\<lparr>callback_urls := insertNew (wr_CallbackURL req) (callback_urls d1)\<rparr>"
    using sqlTx_failed [of uflt "\<lambda>d. d\<lparr>callback_urls := insertNew (wr_CallbackURL req) (callback_urls d)\<rparr>" d1 "fst (urlAdd uflt (wr_CallbackURL req) d1)" d]
    unfolding d1(2) urlAdd_def by simp
  then have "regInv d \<longleftrightarrow> regInv d1" "urlsIn d = urlsIn d1" by (auto simp: regInv_def urlsIn_def fun_eq_iff)
  then show ?thesis using rows.added_urls [OF assms(3) d1(1)] by (simp add: fun_eq_iff)
qed

text \<open>
  C5: A client that registers a txid is told when it is seen. Let a watch request be answered with 200 on
  the SQL backend, and let the fetcher then handle a subtree that contains the txid (its bytes reversed
  in hexadecimal are the registered string), with a registration cache that has no stale negative entry
  for it and with fetching, storing and publishing working. Then the messages of type SEEN_ON_NETWORK the
  fetcher publishes for the callback URL list the txid exactly once.
\<close>

theorem watched_then_seen:
  assumes "handleWatch parseURL (sqlServer orderBy flt rflt uflt) (Inr req) d0 = Inr (rp, ftDb p)" and "rp_status rp = 200" and "regInv d0"
    and "cacheCoherent hf (ftCache p) (urlsIn d0)" and "known hf (ftCache p) (wr_TxID req) \<noteq> Some False"
    and "h \<in> set hs" and "wr_TxID req = hexEncode (rev h)"
    and "row_order ro" and "\<And>h. fdHashString d h = hexEncode (rev h)"
    and "fdRegCache d = Some (realOps ok hf)" and "\<And>i. fdBatchGet d i = regBatchGet ro None" and "fdIncrement d = seenIncrement threshold None"
    and "range_order (fdRegOrd d)" and "keyOrder (fdUrls d)" and "\<And>k i. fdPublish d k i = None"
    and "snd (FetchSubtreeRaw (fdNet d) (fdClient d) (sm_DataHubURL msg) (sm_Hash msg)) = Inr (concat hs)" and "\<forall>h \<in> set hs. length h = 32"
    and "fdStorageMode d = ''realtime'' \<Longrightarrow> fst (fdStoreSubtree d (sm_Hash msg) (concat hs) 0 (ftSubtrees p)) = None"
    and "\<And>c. ftDedup p = Some c \<Longrightarrow> \<not> Contains (sm_Hash msg) c"
    and "flagsOnly hf (ftCache p)" and "seenCountInv threshold (ftDb p)"
  shows "\<exists>p' new. handleSubtree sha d (Inr msg) p = Inr (None, p') \<and> map snd (ftCallbacks p') = map snd (ftCallbacks p) @ new
     \<and> count_list (sentTo (wr_CallbackURL req) (filter (\<lambda>m. Type m = CallbackSeenOnNetwork) new)) (wr_TxID req) = 1"
proof -
  have w: "regInv (ftDb p)" "urlsIn (ftDb p) = (urlsIn d0)(wr_TxID req := insert (wr_CallbackURL req) (urlsIn d0 (wr_TxID req)))"
    using watch_accepted [OF assms(1-3)] by blast+
  have coh: "cacheCoherent hf (ftCache p) (urlsIn (ftDb p))"
    using assms(4,5) unfolding w(2) cacheCoherent_def by auto
  obtain p' seen multi where r: "handleSubtree sha d (Inr msg) p = Inr (None, p')"
      "map snd (ftCallbacks p') = map snd (ftCallbacks p) @ seen @ multi"
      "sentExactly (urlsIn (ftDb p)) ((\<lambda>h. hexEncode (rev h)) ` set hs) CallbackSeenOnNetwork seen"
      "sentExactly (urlsIn (ftDb p)) {t \<in> (\<lambda>h. hexEncode (rev h)) ` set hs. reaches threshold (sm_Hash msg) (subsOf (ftDb p) t)} CallbackSeenMultipleNodes multi"
    using sql_rows.seen_exact_sql [OF sql_rows.intro [OF assms(8)] assms(9-20) w(1) coh assms(21)] by blast
  have types: "\<forall>m \<in> set seen. Type m = CallbackSeenOnNetwork" "\<forall>m \<in> set multi. Type m = CallbackSeenMultipleNodes"
    using r(3,4) by (simp_all add: sentExactly_def)
  have "filter (\<lambda>m. Type m = CallbackSeenOnNetwork) (seen @ multi) = seen"
    using types by (simp add: filter_id_conv filter_empty_conv CallbackSeenOnNetwork_def CallbackSeenMultipleNodes_def)
  moreover have "distinct (sentTo (wr_CallbackURL req) seen)" "wr_TxID req \<in> set (sentTo (wr_CallbackURL req) seen)"
    using r(3) assms(6,7) unfolding w(2) sentExactly_def by auto
  then have "count_list (sentTo (wr_CallbackURL req) seen) (wr_TxID req) = 1" by (simp add: count_list_distinct)
  ultimately show ?thesis using r(1,2) by (intro exI [of _ p'] exI [of _ "seen @ multi"]) simp
qed


theorem watched_then_seen_witness:
  "\<exists>rc d rp p' new. handleWatch exParse (sqlServer id None None None) (Inr \<lparr>wr_TxID = hexEncode (rev exTx), wr_CallbackURL = ''http://a''\<rparr> :: unit + _) emptyDb = Inr (rp, d)
     \<and> rp_status rp = 200
     \<and> handleSubtree (\<lambda>_. 0) (exFetch (Reply 200 exTx None)) (Inr exSubtreeMsg) (exFetcherOn d rc) = Inr (None, p') \<and> map snd (ftCallbacks p') = new
     \<and> count_list (sentTo ''http://a'' (filter (\<lambda>m. Type m = CallbackSeenOnNetwork) new)) (hexEncode (rev exTx)) = 1"
proof -
  let ?hf = "\<lambda>k :: bytes. of_nat (length k) :: u64" and ?d = "exFetch (Reply 200 exTx None)" and ?t = "hexEncode (rev exTx)"
  let ?req = "\<lparr>wr_TxID = ?t, wr_CallbackURL = ''http://a''\<rparr>"
  let ?db = "emptyDb\<lparr>registrations := [(?t, None)], registration_urls := [(?t, ''http://a'')], callback_urls := [''http://a'']\<rparr>"
  have "?t \<in> hexTxids" by (simp add: hexTxids_def exTx_def)
  then have "txidRegex ?t" by (rule hexTxids_accepted)
  then have t: "txidRegex ?t" "?t \<noteq> ''''" by (auto simp: txidRegex_def)
  have w: "handleWatch exParse (sqlServer id None None None) (Inr ?req :: unit + _) emptyDb = Inr (writeJSON 200 (WatchResponse ''ok'' ''registration successful''), ?db)"
    using t by (simp add: handleWatch_def watchError_def validURL_def exParse_def sqlServer_def NewServer_def sqlRegOps_def
      regAdd_def urlAdd_def sqlTx_def Let_def insertNew_def insertDefault_def emptyDb_def)
  obtain rc where rc: "flagsOnly ?hf rc" "\<forall>t. known ?hf rc t = None" using new_cache by blast
  let ?p = "exFetcherOn ?db rc"
  have rc1: "flagsOnly ?hf (ftCache ?p)" using rc(1) by (simp add: exFetcherOn_def)
  have db: "ftDb ?p = ?db" by (simp add: exFetcherOn_def)
  have w1: "handleWatch exParse (sqlServer id None None None) (Inr ?req :: unit + _) emptyDb = Inr (writeJSON 200 (WatchResponse ''ok'' ''registration successful''), ftDb ?p)"
    unfolding db by (rule w)
  have inv: "seenCountInv 1 (ftDb ?p)" unfolding db by (rule seenCountInv_fresh) (simp_all add: emptyDb_def)
  have len: "\<forall>h \<in> set [exTx]. length h = 32" by (simp add: exTx_def)
  have "\<exists>p' new. handleSubtree (\<lambda>_. 0) ?d (Inr exSubtreeMsg) ?p = Inr (None, p') \<and> map snd (ftCallbacks p') = map snd (ftCallbacks ?p) @ new
     \<and> count_list (sentTo (wr_CallbackURL ?req) (filter (\<lambda>m. Type m = CallbackSeenOnNetwork) new)) (wr_TxID ?req) = 1"
    by (rule watched_then_seen [where ro = rev and threshold = 1 and h = exTx, OF w1 _ _ _ _ _ _ _ _ _ _ _ _ _ _ exRaw len _ _ rc1 inv])
      (simp_all add: row_order_def exFetchOn_def keysOf_order exFetcherOn_def rc Contains_def NewDedupCache_def cacheCoherent_def
        regInv_def emptyDb_def StoreSubtree_def memSet_def Let_def split_def writeJSON_def)
  then obtain p' new where "handleSubtree (\<lambda>_. 0) ?d (Inr exSubtreeMsg) ?p = Inr (None, p')" "map snd (ftCallbacks p') = new"
      "count_list (sentTo ''http://a'' (filter (\<lambda>m. Type m = CallbackSeenOnNetwork) new)) ?t = 1"
    by (auto simp: exFetcherOn_def)
  moreover have "rp_status (writeJSON 200 b) = 200" for b by (simp add: writeJSON_def)
  ultimately show ?thesis using w by blast
qed

end
